(* ===== verification/Prelude.thy ===== *)
theory Prelude
  imports Main
begin

text \<open>
  Shared vocabulary of the development.

  A Rust function returning \<open>Result<T, Error>\<close> is a value of \<open>'a res\<close>: \<open>Inr x\<close> for
  \<open>Ok(x)\<close>, \<open>Inl (Err e)\<close> for \<open>Err(e)\<close>, and \<open>Inl Panic\<close> where the source panics. The crate is
  built with \<open>overflow-checks = true\<close>, so plain \<open>+\<close>, \<open>-\<close>, \<open>*\<close> on machine integers panic when
  the result leaves the type; \<open>add_w\<close>, \<open>sub_w\<close> and \<open>mul_w\<close> say so, at the width given. Unsigned
  integers are natural numbers kept inside their width by these operations.

  A function with a mutable argument is a state transformer \<open>('s, 'a) comp\<close>: it returns the
  result and the new state, and the new state survives an error, as a Rust \<open>&mut\<close> does.
\<close>

section \<open>Errors, results, stateful computations\<close>

text \<open>The \<open>Error\<close> enum of the kernel crate.\<close>

datatype error =
    InvalidAmount | InvalidCurve | Arithmetic | Capacity | Bounds | WorkLimit | Stale | Expired
  | Identity | AliasedLiquidity | Unsupported | VenueUnavailable | FatalCpi | BalanceInvariant
  | MinOut | QueueFull | Duplicate | OwnerLimit | InvalidTicket

text \<open>The \<open>Error\<close> enums of the adapter crate and of the native quoting crate.\<close>

datatype dex_error = DexLayout | DexStatus | DexArithmetic | DexAmount | DexUnsupported

datatype native_error = NatLayout | NatUnsupported | NatArithmetic | NatCapacity | NatStale

text \<open>The \<open>ProgramError\<close> of the on-chain programs; \<open>Rejected\<close> is an error the runtime returns.\<close>

datatype program_error = Custom nat | ArithmeticOverflow | InvalidInstructionData | Rejected nat

text \<open>A fault is an error value of one of the crates, or a panic.\<close>

datatype fault = Err error | Dex dex_error | Native native_error | Prog program_error | Panic

type_synonym 'a res = "fault + 'a"
type_synonym ('s, 'a) comp = "'s \<Rightarrow> 'a res \<times> 's"

abbreviation fail :: "error \<Rightarrow> 'a res" where
  "fail e \<equiv> Inl (Err e)"

definition bindR :: "'a res \<Rightarrow> ('a \<Rightarrow> 'b res) \<Rightarrow> 'b res" where
  "bindR m f = (case m of Inl e \<Rightarrow> Inl e | Inr x \<Rightarrow> f x)"

definition ok_or :: "'a option \<Rightarrow> error \<Rightarrow> 'a res" where
  "ok_or m e = (case m of None \<Rightarrow> fail e | Some x \<Rightarrow> Inr x)"

text \<open>\<open>or_fault\<close> is \<open>ok_or\<close> with a fault of any crate.\<close>

definition or_fault :: "'a option \<Rightarrow> fault \<Rightarrow> 'a res" where
  "or_fault m f = (case m of None \<Rightarrow> Inl f | Some x \<Rightarrow> Inr x)"

definition guardR :: "bool \<Rightarrow> error \<Rightarrow> unit res" where
  "guardR b e = (if b then Inr () else fail e)"

definition ret :: "'a \<Rightarrow> ('s, 'a) comp" where
  "ret x = (\<lambda>s. (Inr x, s))"

definition liftR :: "'a res \<Rightarrow> ('s, 'a) comp" where
  "liftR r = (\<lambda>s. (r, s))"

definition bindS :: "('s, 'a) comp \<Rightarrow> ('a \<Rightarrow> ('s, 'b) comp) \<Rightarrow> ('s, 'b) comp" where
  "bindS m f = (\<lambda>s. case m s of (Inl e, s') \<Rightarrow> (Inl e, s') | (Inr x, s') \<Rightarrow> f x s')"

named_theorems monad_simps \<open>evaluation and inversion of the result and state combinators\<close>

lemma bindR_simps [simp]:
  "bindR (Inl e) f = Inl e"
  "bindR (Inr x) f = f x"
  by (simp_all add: bindR_def)

lemma bindR_Inr [monad_simps]: "bindR m f = Inr y \<longleftrightarrow> (\<exists>x. m = Inr x \<and> f x = Inr y)"
  by (cases m) auto

lemma bindR_Inl [monad_simps]:
  "bindR m f = Inl e \<longleftrightarrow> m = Inl e \<or> (\<exists>x. m = Inr x \<and> f x = Inl e)"
  by (cases m) auto

lemma ok_or_simps [simp]: "ok_or None e = fail e" "ok_or (Some x) e = Inr x"
  by (simp_all add: ok_or_def)

lemma ok_or_Inr [monad_simps]: "ok_or m e = Inr x \<longleftrightarrow> m = Some x"
  by (cases m) auto

lemma ok_or_Inl [monad_simps]: "ok_or m e = Inl f \<longleftrightarrow> m = None \<and> f = Err e"
  by (cases m) auto

lemma or_fault_simps [simp]: "or_fault None f = Inl f" "or_fault (Some x) f = Inr x"
  by (simp_all add: or_fault_def)

lemma or_fault_Inr [monad_simps]: "or_fault m f = Inr x \<longleftrightarrow> m = Some x"
  by (cases m) auto

lemma or_fault_Inl [monad_simps]: "or_fault m f = Inl g \<longleftrightarrow> m = None \<and> g = f"
  by (cases m) auto

lemma guardR_simps [simp]: "guardR True e = Inr ()" "guardR False e = fail e"
  by (simp_all add: guardR_def)

lemma guardR_Inr [monad_simps]: "guardR b e = Inr u \<longleftrightarrow> b"
  by (cases b) auto

lemma guardR_Inl [monad_simps]: "guardR b e = Inl f \<longleftrightarrow> \<not> b \<and> f = Err e"
  by (cases b) auto

lemma bindS_Inr [monad_simps]:
  "bindS m f s = (Inr y, s') \<longleftrightarrow> (\<exists>x s1. m s = (Inr x, s1) \<and> f x s1 = (Inr y, s'))"
  by (cases "m s"; cases "fst (m s)") (auto simp: bindS_def)

lemma bindS_Inl [monad_simps]:
  "bindS m f s = (Inl e, s') \<longleftrightarrow>
     m s = (Inl e, s') \<or> (\<exists>x s1. m s = (Inr x, s1) \<and> f x s1 = (Inl e, s'))"
  by (cases "m s"; cases "fst (m s)") (auto simp: bindS_def)

lemma bindS_step: "m s = (Inr x, s1) \<Longrightarrow> bindS m f s = f x s1"
  by (simp add: bindS_def)

lemma bindS_fail: "m s = (Inl e, s1) \<Longrightarrow> bindS m f s = (Inl e, s1)"
  by (simp add: bindS_def)

lemma bindS_assoc: "bindS (bindS m f) g = bindS m (\<lambda>x. bindS (f x) g)"
  by (rule ext) (auto simp: bindS_def split: prod.splits sum.splits)

lemma ret_Inr [simp]: "ret x s = (Inr y, s') \<longleftrightarrow> y = x \<and> s' = s"
  by (auto simp: ret_def)

lemma ret_Inl [simp]: "ret x s = (Inl e, s') \<longleftrightarrow> False"
  by (simp add: ret_def)

lemma ret_eq [simp]: "ret x s = (r, s') \<longleftrightarrow> r = Inr x \<and> s' = s"
  by (auto simp: ret_def)

lemma bindS_ret [simp]: "bindS (ret x) f = f x"
  by (rule ext) (simp add: bindS_def ret_def)

lemma liftR_eq [simp]: "liftR r s = (q, s') \<longleftrightarrow> r = q \<and> s' = s"
  by (auto simp: liftR_def)

lemma liftR_Inr [simp]: "liftR (Inr x) = ret x"
  by (simp add: liftR_def ret_def)

lemma bindS_liftR_Inl [simp]: "bindS (liftR (Inl e)) f s = (Inl e, s)"
  by (simp add: bindS_def liftR_def)

section \<open>Safe computations\<close>

text \<open>
  \<open>safe P c Q\<close>: started in a state satisfying \<open>P\<close> the computation never panics, and a result it
  returns satisfies \<open>Q\<close> together with the state it leaves.
\<close>

definition safe :: "('s \<Rightarrow> bool) \<Rightarrow> ('s, 'a) comp \<Rightarrow> ('a \<Rightarrow> 's \<Rightarrow> bool) \<Rightarrow> bool" where
  "safe P c Q \<longleftrightarrow> (\<forall>s r s'. P s \<longrightarrow> c s = (r, s') \<longrightarrow> r \<noteq> Inl Panic \<and> (\<forall>x. r = Inr x \<longrightarrow> Q x s'))"

lemma safeI:
  "(\<And>s r s'. P s \<Longrightarrow> c s = (r, s') \<Longrightarrow> r \<noteq> Inl Panic \<and> (\<forall>x. r = Inr x \<longrightarrow> Q x s')) \<Longrightarrow> safe P c Q"
  by (simp add: safe_def)

lemma safeD:
  "safe P c Q \<Longrightarrow> P s \<Longrightarrow> c s = (r, s') \<Longrightarrow> r \<noteq> Inl Panic \<and> (\<forall>x. r = Inr x \<longrightarrow> Q x s')"
  unfolding safe_def by blast

lemma safe_Inr: "safe P c Q \<Longrightarrow> P s \<Longrightarrow> c s = (Inr x, s') \<Longrightarrow> Q x s'"
  unfolding safe_def by blast

lemma safe_ret: "(\<And>s. P s \<Longrightarrow> Q x s) \<Longrightarrow> safe P (ret x) Q"
  by (auto simp: safe_def)

lemma safe_liftR:
  "r \<noteq> Inl Panic \<Longrightarrow> (\<And>x s. r = Inr x \<Longrightarrow> P s \<Longrightarrow> Q x s) \<Longrightarrow> safe P (liftR r) Q"
  by (auto simp: safe_def)

lemma safe_bindS:
  assumes "safe P c Q" "\<And>x. safe (Q x) (f x) R"
  shows "safe P (bindS c f) R"
proof (rule safeI)
  fix s r s' assume s: "P s" "bindS c f s = (r, s')"
  obtain q s1 where c: "c s = (q, s1)" by fastforce
  show "r \<noteq> Inl Panic \<and> (\<forall>x. r = Inr x \<longrightarrow> R x s')"
  proof (cases q)
    case (Inl e)
    then show ?thesis using s c safeD [OF assms(1) s(1) c] by (auto simp: bindS_def)
  next
    case (Inr x)
    then have "Q x s1" using safe_Inr [OF assms(1) s(1)] c by simp
    moreover have "f x s1 = (r, s')" using s(2) c Inr by (simp add: bindS_def)
    ultimately show ?thesis using safeD [OF assms(2)] by blast
  qed
qed

lemma safe_pre: "safe P c Q \<Longrightarrow> (\<And>s. P' s \<Longrightarrow> P s) \<Longrightarrow> safe P' c Q"
  unfolding safe_def by blast

lemma safe_post: "safe P c Q \<Longrightarrow> (\<And>x s. Q x s \<Longrightarrow> Q' x s) \<Longrightarrow> safe P c Q'"
  unfolding safe_def by blast

lemma safe_if:
  "(b \<Longrightarrow> safe P c Q) \<Longrightarrow> (\<not> b \<Longrightarrow> safe P d Q) \<Longrightarrow> safe P (if b then c else d) Q"
  by simp

lemma safe_test:
  assumes "\<And>s. P s \<Longrightarrow> C s \<Longrightarrow> r \<noteq> Inl Panic \<and> (\<forall>x. r = Inr x \<longrightarrow> Q x s)"
    "safe (\<lambda>s. P s \<and> \<not> C s) c Q"
  shows "safe P (\<lambda>s. if C s then (r, s) else c s) Q"
proof (rule safeI)
  fix s q s' assume s: "P s" and run: "(if C s then (r, s) else c s) = (q, s')"
  show "q \<noteq> Inl Panic \<and> (\<forall>x. q = Inr x \<longrightarrow> Q x s')"
  proof (cases "C s")
    case True
    then show ?thesis using assms(1) [OF s] run by simp
  next
    case False
    then show ?thesis using safeD [OF assms(2), of s q s'] s run by simp
  qed
qed

section \<open>Outcomes\<close>

text \<open>
  \<open>fits E r Q\<close>: the result is an error of the set \<open>E\<close> or a value satisfying \<open>Q\<close>.
  \<open>meets E c Q\<close> says so of a stateful computation, in every state.
\<close>

definition fits :: "fault set \<Rightarrow> 'a res \<Rightarrow> ('a \<Rightarrow> bool) \<Rightarrow> bool" where
  "fits E r Q \<longleftrightarrow> (case r of Inl f \<Rightarrow> f \<in> E | Inr x \<Rightarrow> Q x)"

definition meets :: "fault set \<Rightarrow> ('s, 'a) comp \<Rightarrow> ('a \<Rightarrow> bool) \<Rightarrow> bool" where
  "meets E c Q \<longleftrightarrow> (\<forall>s. fits E (fst (c s)) Q)"

lemma fits_simps [simp]: "fits E (Inl f) Q \<longleftrightarrow> f \<in> E" "fits E (Inr x) Q \<longleftrightarrow> Q x"
  by (simp_all add: fits_def)

lemma fits_iff: "fits E r Q \<longleftrightarrow> (\<forall>f. r = Inl f \<longrightarrow> f \<in> E) \<and> (\<forall>x. r = Inr x \<longrightarrow> Q x)"
  by (cases r) simp_all

lemma fits_Inr: "fits E r Q \<Longrightarrow> r = Inr x \<Longrightarrow> Q x"
  by simp

lemma fits_bindR:
  "fits E r P \<Longrightarrow> (\<And>x. r = Inr x \<Longrightarrow> P x \<Longrightarrow> fits E (f x) Q) \<Longrightarrow> fits E (bindR r f) Q"
  by (cases r) simp_all

lemma fits_mono: "fits E r P \<Longrightarrow> (\<And>x. r = Inr x \<Longrightarrow> P x \<Longrightarrow> Q x) \<Longrightarrow> fits E r Q"
  by (cases r) simp_all

lemma meetsI: "(\<And>s r s'. c s = (r, s') \<Longrightarrow> fits E r Q) \<Longrightarrow> meets E c Q"
  unfolding meets_def by (metis prod.collapse)

lemma meetsD: "meets E c Q \<Longrightarrow> c s = (r, s') \<Longrightarrow> fits E r Q"
  unfolding meets_def by (metis fst_conv)

lemma meets_ret: "Q x \<Longrightarrow> meets E (ret x) Q"
  by (simp add: meets_def ret_def)

lemma meets_liftR: "fits E r Q \<Longrightarrow> meets E (liftR r) Q"
  by (simp add: meets_def liftR_def)

lemma meets_bindS:
  assumes "meets E c P" "\<And>x. P x \<Longrightarrow> meets E (f x) Q"
  shows "meets E (bindS c f) Q"
proof (rule meetsI)
  fix s r s' assume run: "bindS c f s = (r, s')"
  obtain q s1 where c: "c s = (q, s1)" by fastforce
  show "fits E r Q"
  proof (cases q)
    case (Inl e)
    then show ?thesis using run meetsD [OF assms(1) c] by (auto simp: bindS_def c)
  next
    case (Inr x)
    then have "P x" using meetsD [OF assms(1) c] by simp
    moreover have "f x s1 = (r, s')" using run by (simp add: bindS_def c Inr)
    ultimately show ?thesis using meetsD [OF assms(2)] by blast
  qed
qed

lemma meets_liftR_then:
  "fits E r P \<Longrightarrow> (\<And>x. r = Inr x \<Longrightarrow> P x \<Longrightarrow> meets E (f x) Q) \<Longrightarrow> meets E (bindS (liftR r) f) Q"
  by (cases r) (simp_all add: meets_def)

lemma meets_mono: "meets E c P \<Longrightarrow> (\<And>x. P x \<Longrightarrow> Q x) \<Longrightarrow> meets E c Q"
  unfolding meets_def using fits_mono by metis

lemma meets_if: "(b \<Longrightarrow> meets E c Q) \<Longrightarrow> (\<not> b \<Longrightarrow> meets E d Q) \<Longrightarrow> meets E (if b then c else d) Q"
  by simp

section \<open>Machine integers\<close>

text \<open>\<open>2 ^ 64\<close> and \<open>2 ^ 128\<close> are the first values outside \<open>u64\<close> and \<open>u128\<close>.\<close>

definition add_w :: "nat \<Rightarrow> nat \<Rightarrow> nat \<Rightarrow> nat res" where
  "add_w w a b = (if a + b < 2 ^ w then Inr (a + b) else Inl Panic)"

definition mul_w :: "nat \<Rightarrow> nat \<Rightarrow> nat \<Rightarrow> nat res" where
  "mul_w w a b = (if a * b < 2 ^ w then Inr (a * b) else Inl Panic)"

definition sub_w :: "nat \<Rightarrow> nat \<Rightarrow> nat res" where
  "sub_w a b = (if b \<le> a then Inr (a - b) else Inl Panic)"

definition checked_add :: "nat \<Rightarrow> nat \<Rightarrow> nat \<Rightarrow> nat option" where
  "checked_add w a b = (if a + b < 2 ^ w then Some (a + b) else None)"

definition checked_mul :: "nat \<Rightarrow> nat \<Rightarrow> nat \<Rightarrow> nat option" where
  "checked_mul w a b = (if a * b < 2 ^ w then Some (a * b) else None)"

definition checked_sub :: "nat \<Rightarrow> nat \<Rightarrow> nat option" where
  "checked_sub a b = (if b \<le> a then Some (a - b) else None)"

text \<open>Division and remainder panic on a zero divisor.\<close>

definition div_w :: "nat \<Rightarrow> nat \<Rightarrow> nat res" where
  "div_w a b = (if b = 0 then Inl Panic else Inr (a div b))"

text \<open>Evaluation does not recompute the powers of two.\<close>

definition modulus :: "nat \<Rightarrow> nat" where
  "modulus w = 2 ^ w"

lemma modulus_code [code]:
  "modulus w =
     (if w = 128 then 340282366920938463463374607431768211456
      else if w = 127 then 170141183460469231731687303715884105728
      else if w = 63 then 9223372036854775808
      else if w = 64 then 18446744073709551616 else if w = 32 then 4294967296 else 2 ^ w)"
  by (simp add: modulus_def)

lemma checked_code [code]:
  "add_w w a b = (let c = a + b in if c < modulus w then Inr c else Inl Panic)"
  "mul_w w a b = (let c = a * b in if c < modulus w then Inr c else Inl Panic)"
  "checked_add w a b = (let c = a + b in if c < modulus w then Some c else None)"
  "checked_mul w a b = (let c = a * b in if c < modulus w then Some c else None)"
  by (simp_all add: add_w_def mul_w_def checked_add_def checked_mul_def modulus_def)

text \<open>Signed integers are integers kept inside \<open>[-2^(w-1), 2^(w-1))\<close>.\<close>

definition add_i :: "nat \<Rightarrow> int \<Rightarrow> int \<Rightarrow> int res" where
  "add_i w a b = (if - (2 ^ (w - 1)) \<le> a + b \<and> a + b < 2 ^ (w - 1) then Inr (a + b) else Inl Panic)"

definition checked_i :: "nat \<Rightarrow> int \<Rightarrow> int option" where
  "checked_i w a = (if - (2 ^ (w - 1)) \<le> a \<and> a < 2 ^ (w - 1) then Some a else None)"

lemma signed_code [code]:
  "add_i w a b = (let c = a + b; h = int (modulus (w - 1)) in if - h \<le> c \<and> c < h then Inr c else Inl Panic)"
  "checked_i w a = (let h = int (modulus (w - 1)) in if - h \<le> a \<and> a < h then Some a else None)"
  by (simp_all add: add_i_def checked_i_def modulus_def Let_def)

lemma div_w_Inr [monad_simps]: "div_w a b = Inr c \<longleftrightarrow> b \<noteq> 0 \<and> c = a div b"
  by (auto simp: div_w_def)

lemma div_w_Inl [monad_simps]: "div_w a b = Inl e \<longleftrightarrow> b = 0 \<and> e = Panic"
  by (auto simp: div_w_def)

lemma div_w_ok: "b \<noteq> 0 \<Longrightarrow> div_w a b = Inr (a div b)"
  by (simp add: div_w_def)

text \<open>Array and slice indexing panics out of range.\<close>

definition index_at :: "'a list \<Rightarrow> nat \<Rightarrow> 'a res" where
  "index_at xs i = (if i < length xs then Inr (xs ! i) else Inl Panic)"

definition store_at :: "'a list \<Rightarrow> nat \<Rightarrow> 'a \<Rightarrow> 'a list res" where
  "store_at xs i v = (if i < length xs then Inr (xs[i := v]) else Inl Panic)"

lemma add_w_Inr [monad_simps]: "add_w w a b = Inr c \<longleftrightarrow> a + b < 2 ^ w \<and> c = a + b"
  by (auto simp: add_w_def)

lemma mul_w_Inr [monad_simps]: "mul_w w a b = Inr c \<longleftrightarrow> a * b < 2 ^ w \<and> c = a * b"
  by (auto simp: mul_w_def)

lemma sub_w_Inr [monad_simps]: "sub_w a b = Inr c \<longleftrightarrow> b \<le> a \<and> c = a - b"
  by (auto simp: sub_w_def)

lemma add_w_Inl [monad_simps]: "add_w w a b = Inl e \<longleftrightarrow> \<not> a + b < 2 ^ w \<and> e = Panic"
  by (auto simp: add_w_def)

lemma mul_w_Inl [monad_simps]: "mul_w w a b = Inl e \<longleftrightarrow> \<not> a * b < 2 ^ w \<and> e = Panic"
  by (auto simp: mul_w_def)

lemma sub_w_Inl [monad_simps]: "sub_w a b = Inl e \<longleftrightarrow> a < b \<and> e = Panic"
  by (auto simp: sub_w_def)

lemma add_w_ok: "a + b < 2 ^ w \<Longrightarrow> add_w w a b = Inr (a + b)"
  by (simp add: add_w_def)

lemma mul_w_ok: "a * b < 2 ^ w \<Longrightarrow> mul_w w a b = Inr (a * b)"
  by (simp add: mul_w_def)

lemma sub_w_ok: "b \<le> a \<Longrightarrow> sub_w a b = Inr (a - b)"
  by (simp add: sub_w_def)

lemma checked_add_Some [monad_simps]: "checked_add w a b = Some c \<longleftrightarrow> a + b < 2 ^ w \<and> c = a + b"
  by (auto simp: checked_add_def)

lemma checked_mul_Some [monad_simps]: "checked_mul w a b = Some c \<longleftrightarrow> a * b < 2 ^ w \<and> c = a * b"
  by (auto simp: checked_mul_def)

lemma checked_sub_Some [monad_simps]: "checked_sub a b = Some c \<longleftrightarrow> b \<le> a \<and> c = a - b"
  by (auto simp: checked_sub_def)

lemma checked_None [monad_simps]:
  "checked_add w a b = None \<longleftrightarrow> 2 ^ w \<le> a + b"
  "checked_mul w a b = None \<longleftrightarrow> 2 ^ w \<le> a * b"
  "checked_sub a b = None \<longleftrightarrow> a < b"
  by (auto simp: checked_add_def checked_mul_def checked_sub_def)

lemma index_at_Inr [monad_simps]: "index_at xs i = Inr x \<longleftrightarrow> i < length xs \<and> x = xs ! i"
  by (auto simp: index_at_def)

lemma index_at_Inl [monad_simps]: "index_at xs i = Inl e \<longleftrightarrow> length xs \<le> i \<and> e = Panic"
  by (auto simp: index_at_def)

lemma index_at_ok [simp]: "i < length xs \<Longrightarrow> index_at xs i = Inr (xs ! i)"
  by (simp add: index_at_def)

lemma store_at_Inr [monad_simps]: "store_at xs i v = Inr ys \<longleftrightarrow> i < length xs \<and> ys = xs[i := v]"
  by (auto simp: store_at_def)

lemma store_at_Inl [monad_simps]: "store_at xs i v = Inl e \<longleftrightarrow> length xs \<le> i \<and> e = Panic"
  by (auto simp: store_at_def)

lemma store_at_ok [simp]: "i < length xs \<Longrightarrow> store_at xs i v = Inr (xs[i := v])"
  by (simp add: store_at_def)

section \<open>Sums over a list updated at one index\<close>

lemma sum_list_update_nat:
  fixes xs :: "nat list"
  shows "i < length xs \<Longrightarrow> sum_list (xs[i := v]) + xs ! i = sum_list xs + v"
  by (induction xs arbitrary: i) (auto split: nat.splits)

lemma sum_list_update_add:
  fixes xs :: "nat list"
  shows "i < length xs \<Longrightarrow> sum_list (xs[i := xs ! i + d]) = sum_list xs + d"
  using sum_list_update_nat [of i xs "xs ! i + d"] by simp

lemma elem_le_sum_list_nat: "i < length (xs :: nat list) \<Longrightarrow> xs ! i \<le> sum_list xs"
  by (induction xs arbitrary: i) (auto split: nat.splits simp: nth_Cons intro: le_trans trans_le_add2)

lemma two_elems_le_sum_list_nat:
  assumes "i < length (xs :: nat list)" "j < length xs" "i \<noteq> j"
  shows "xs ! i + xs ! j \<le> sum_list xs"
proof -
  have "sum_list (xs[i := 0]) + xs ! i = sum_list xs"
    using sum_list_update_nat [OF assms(1), of 0] by simp
  moreover have "xs ! j \<le> sum_list (xs[i := 0])"
    using elem_le_sum_list_nat [of j "xs[i := 0]"] assms by simp
  ultimately show ?thesis by linarith
qed

section \<open>Insertion at an index\<close>

text \<open>The arrays of the code are shifted right from an index and written there.\<close>

definition insert_at :: "nat \<Rightarrow> 'a \<Rightarrow> 'a list \<Rightarrow> 'a list" where
  "insert_at i v xs = take i xs @ v # drop i xs"

lemma length_insert_at [simp]: "i \<le> length xs \<Longrightarrow> length (insert_at i v xs) = Suc (length xs)"
  by (simp add: insert_at_def)

lemma insert_at_not_Nil [simp]: "insert_at i v xs \<noteq> []"
  by (simp add: insert_at_def)

lemma nth_insert_at:
  assumes "i \<le> length xs"
  shows "insert_at i v xs ! j = (if j < i then xs ! j else if j = i then v else xs ! (j - 1))"
proof (cases "j \<le> i")
  case True
  then show ?thesis using assms by (simp add: insert_at_def nth_append)
next
  case False
  then obtain k where j: "j = Suc (i + k)" by (metis less_imp_Suc_add not_le)
  then show ?thesis using assms by (simp add: insert_at_def nth_append)
qed

lemma map_insert_at: "map f (insert_at i v xs) = insert_at i (f v) (map f xs)"
  by (simp add: insert_at_def take_map drop_map)

section \<open>Integer division\<close>

lemma div_add_le: "(a :: nat) div s + b div s \<le> (a + b) div s"
  by (metis add_mult_distrib div_le_mono div_mult_self_is_m div_times_less_eq_dividend add_mono
      gr0I div_by_0 le_refl add_0)

lemma sum_list_div_le: "sum_list (map (\<lambda>x. f x div s) xs) \<le> sum_list (map f xs) div (s :: nat)"
proof (induction xs)
  case Nil
  show ?case by simp
next
  case (Cons x xs)
  have "f x div s + sum_list (map (\<lambda>x. f x div s) xs)
      \<le> f x div s + sum_list (map f xs) div s" using Cons by simp
  also have "\<dots> \<le> (f x + sum_list (map f xs)) div s" by (rule div_add_le)
  finally show ?case by simp
qed

lemma div_ceil_ge:
  fixes n d :: nat
  assumes "0 < d"
  shows "n \<le> d * (n div d + of_bool (n mod d \<noteq> 0))"
proof -
  have "n = d * (n div d) + n mod d" by simp
  moreover have "n mod d < d" using assms by simp
  ultimately have "n \<le> d * (n div d) + d * of_bool (n mod d \<noteq> 0)"
    by (metis add_le_cancel_left le_eq_less_or_eq mult.right_neutral of_bool_eq(1,2) mult_0_right)
  then show ?thesis by (simp only: distrib_left)
qed

lemma div_ceil_le_Suc: "n div d + of_bool (n mod d \<noteq> 0) \<le> n div d + (1 :: nat)"
  by simp

lemma div_ceil_le:
  fixes n d m :: nat
  assumes "0 < d" "n \<le> d * m"
  shows "n div d + of_bool (n mod d \<noteq> 0) \<le> m"
proof (cases "n mod d = 0")
  case True
  then show ?thesis using assms by (simp add: div_le_mono less_mult_imp_div_less mult.commute) (metis assms div_le_mono nonzero_mult_div_cancel_left not_gr0)
next
  case False
  then have "n div d < m" using assms
    by (metis le_neq_implies_less less_mult_imp_div_less mod_mult_self1_is_0 mult.commute)
  then show ?thesis by simp
qed

section \<open>Orbits of a function\<close>

lemma orbit_repeats:
  fixes f :: "nat \<Rightarrow> nat"
  assumes "\<And>i. i \<le> n \<Longrightarrow> (f ^^ i) v < n"
  obtains a b where "a < b" "b \<le> n" "(f ^^ a) v = (f ^^ b) v"
proof -
  have "(\<lambda>i. (f ^^ i) v) ` {..n} \<subseteq> {..<n}" using assms by auto
  then have "card ((\<lambda>i. (f ^^ i) v) ` {..n}) \<le> n" using card_mono [of "{..<n}"] by fastforce
  then have "\<not> inj_on (\<lambda>i. (f ^^ i) v) {..n}" using card_image by fastforce
  then obtain i j where "i \<le> n" "j \<le> n" "i \<noteq> j" "(f ^^ i) v = (f ^^ j) v" by (auto simp: inj_on_def)
  then show thesis using that by (cases "i < j") (auto simp: not_less_iff_gr_or_eq)
qed

lemma funpow_after: "m \<le> k \<Longrightarrow> (f ^^ k) v = (f ^^ (k - m)) ((f ^^ m) v)"
  by (metis comp_apply funpow_add le_add_diff_inverse2)

lemma orbit_returns:
  fixes f :: "nat \<Rightarrow> nat"
  assumes "\<And>i. i \<le> n \<Longrightarrow> (f ^^ i) v < n"
  obtains q where "0 < q" "q \<le> n" "(f ^^ q) ((f ^^ n) v) = (f ^^ n) v" "\<And>m. \<exists>c < n. (f ^^ m) v = (f ^^ c) v"
proof -
  obtain a b where ab: "a < b" "b \<le> n" "(f ^^ a) v = (f ^^ b) v" by (rule orbit_repeats [OF assms])
  have period: "(f ^^ (m + (b - a))) v = (f ^^ m) v" if "a \<le> m" for m
  proof -
    have "(f ^^ (m + (b - a))) v = (f ^^ (m + (b - a) - b)) ((f ^^ b) v)" using ab that by (intro funpow_after) simp
    also have "\<dots> = (f ^^ (m - a)) ((f ^^ a) v)" using ab that by simp
    also have "\<dots> = (f ^^ m) v" using that by (rule funpow_after [symmetric])
    finally show ?thesis .
  qed
  have early: "\<exists>c < n. (f ^^ m) v = (f ^^ c) v" for m
  proof (induction m rule: less_induct)
    case (less m)
    show ?case
    proof (cases "m < b")
      case True
      then show ?thesis using ab(2) by (intro exI [of _ m]) simp
    next
      case False
      then have "m = (m - (b - a)) + (b - a)" "a \<le> m - (b - a)" "m - (b - a) < m" using ab(1) by simp_all
      then show ?thesis using period less.IH by metis
    qed
  qed
  have "(f ^^ (b - a)) ((f ^^ n) v) = (f ^^ n) v"
    using period [of n] ab unfolding add.commute [of n] funpow_add by simp
  from that [OF _ _ this early] ab show thesis by simp
qed

lemma least_period:
  assumes "0 < q" "(f ^^ q) s = s"
  obtains per where "0 < per" "per \<le> q" "(f ^^ per) s = s" "\<And>k. 0 < k \<Longrightarrow> k < per \<Longrightarrow> (f ^^ k) s \<noteq> s"
proof -
  let ?per = "LEAST k. 0 < k \<and> (f ^^ k) s = s"
  have "0 < ?per \<and> (f ^^ ?per) s = s" using assms by (intro LeastI) simp
  moreover have "?per \<le> q" using assms by (intro Least_le) simp
  moreover have "\<And>k. 0 < k \<Longrightarrow> k < ?per \<Longrightarrow> (f ^^ k) s \<noteq> s" using not_less_Least by blast
  ultimately show thesis using that by blast
qed

lemma orbit_distinct:
  assumes per: "(f ^^ per) s = s" "\<And>k. 0 < k \<Longrightarrow> k < per \<Longrightarrow> (f ^^ k) s \<noteq> s"
  shows "inj_on (\<lambda>k. (f ^^ k) s) {..<per}"
proof (rule linorder_inj_onI)
  fix i j assume ij: "i < j" "i \<in> {..<per}" "j \<in> {..<per}"
  show "(f ^^ i) s \<noteq> (f ^^ j) s"
  proof
    assume eq: "(f ^^ i) s = (f ^^ j) s"
    have "(f ^^ (per - j + i)) s = (f ^^ (per - j)) ((f ^^ i) s)" by (simp add: funpow_add)
    also have "\<dots> = (f ^^ per) s" unfolding eq using ij(3) by (intro funpow_after [symmetric]) simp
    finally show False using per ij by simp
  qed
qed auto

end
