(* ===== verification/Kernel.thy ===== *)
theory Kernel
  imports Prelude "HOL-Library.Word" "HOL-Library.Code_Target_Nat"
begin

text \<open>
  The crate root \<open>engine/stockmesh/lib.rs\<close>: the bounds every other module relies on, the 32-byte
  identities, the operation budget \<open>WorkMeter\<close> and the two checked conversions. A metered
  computation is a state transformer on the meter.
\<close>

section \<open>Constants\<close>

definition MAX_EDGES :: nat where "MAX_EDGES = 8"
definition MAX_SEGMENTS :: nat where "MAX_SEGMENTS = 16"
definition MAX_LEGS :: nat where "MAX_LEGS = 4"
definition MAX_REFLOWS :: nat where "MAX_REFLOWS = 3"
definition SCALE :: nat where "SCALE = 2 ^ 32"
definition MAX_ATOMS :: nat where "MAX_ATOMS = 100000000000000"
definition MAX_RATE :: nat where "MAX_RATE = 2 ^ 48"

lemmas bounds_defs = MAX_EDGES_def MAX_SEGMENTS_def MAX_LEGS_def MAX_REFLOWS_def MAX_ATOMS_def
  MAX_RATE_def SCALE_def

lemma bounds_code [code]:
  "SCALE = 4294967296" "MAX_RATE = 281474976710656"
  by (simp_all add: bounds_defs)

lemma SCALE_pos [simp]: "0 < SCALE"
  by (simp add: SCALE_def)

text \<open>
  A \<open>Key\<close> is 32 bytes. Read big-endian they are one 256-bit word: equality is equality of the
  arrays, the unsigned order is the lexicographic order of the arrays, and \<open>[0; 32]\<close> is \<open>0\<close>.
\<close>

type_synonym key = "256 word"

section \<open>The operation budget\<close>

record work_meter =
  used :: nat
  limit :: nat

definition meter_new :: "nat \<Rightarrow> work_meter" where
  "meter_new l = \<lparr>used = 0, limit = l\<rparr>"

type_synonym 'a metered = "(work_meter, 'a) comp"

definition charge :: "nat \<Rightarrow> unit metered" where
  "charge units = (\<lambda>m.
     case checked_add 32 (used m) units of
       None \<Rightarrow> (fail WorkLimit, m)
     | Some next_used \<Rightarrow>
         if limit m < next_used then (fail WorkLimit, m)
         else (Inr (), m\<lparr>used := next_used\<rparr>))"

definition ceil_div :: "nat \<Rightarrow> nat \<Rightarrow> nat res" where
  "ceil_div n d =
     (if d = 0 then fail Arithmetic else add_w 128 (n div d) (of_bool (n mod d \<noteq> 0)))"

definition as_u64 :: "nat \<Rightarrow> nat res" where
  "as_u64 n = (if n < 2 ^ 64 then Inr n else fail Arithmetic)"

section \<open>Lemmas\<close>

lemma as_u64_code [code]: "as_u64 n = (if n < modulus 64 then Inr n else fail Arithmetic)"
  by (simp add: as_u64_def modulus_def)

lemma charge_Inr [monad_simps]:
  "charge u m = (Inr x, m') \<longleftrightarrow>
     used m + u < 2 ^ 32 \<and> used m + u \<le> limit m \<and> m' = m\<lparr>used := used m + u\<rparr>"
  by (auto simp: charge_def checked_add_def)

lemma charge_Inl [monad_simps]:
  "charge u m = (Inl e, m') \<longleftrightarrow>
     (2 ^ 32 \<le> used m + u \<or> limit m < used m + u) \<and> e = Err WorkLimit \<and> m' = m"
  by (auto simp: charge_def checked_add_def)

lemma as_u64_Inr [monad_simps]: "as_u64 n = Inr k \<longleftrightarrow> n < 2 ^ 64 \<and> k = n"
  by (auto simp: as_u64_def)

lemma as_u64_Inl [monad_simps]: "as_u64 n = Inl e \<longleftrightarrow> 2 ^ 64 \<le> n \<and> e = Err Arithmetic"
  by (auto simp: as_u64_def)

lemma as_u64_ok: "n < 2 ^ 64 \<Longrightarrow> as_u64 n = Inr n"
  by (simp add: as_u64_def)

lemma ceil_div_ok:
  "0 < d \<Longrightarrow> n < 2 ^ 127 \<Longrightarrow> ceil_div n d = Inr (n div d + of_bool (n mod d \<noteq> 0))"
  using le_less_trans [OF div_le_dividend, of n "2 ^ 127" d]
  by (auto simp: ceil_div_def add_w_def of_bool_def)

lemma ceil_div_ge: "ceil_div n d = Inr c \<Longrightarrow> n \<le> d * c"
  using div_ceil_ge [of d n] by (auto simp: ceil_div_def monad_simps split: if_splits)

lemma ceil_div_least: "ceil_div n d = Inr c \<Longrightarrow> n \<le> d * m \<Longrightarrow> c \<le> m"
  using div_ceil_le [of d n m] by (auto simp: ceil_div_def monad_simps split: if_splits)

text \<open>
  A computation is frugal when it never lowers the meter below where it started and never changes
  the limit; all metered operations of the kernel are built so.
\<close>

definition frugal :: "'a metered \<Rightarrow> bool" where
  "frugal c \<longleftrightarrow> (\<forall>m r m'. c m = (r, m') \<longrightarrow> used m \<le> used m' \<and> limit m' = limit m)"

lemma frugalI: "(\<And>m r m'. c m = (r, m') \<Longrightarrow> used m \<le> used m' \<and> limit m' = limit m) \<Longrightarrow> frugal c"
  by (auto simp: frugal_def)

lemma frugalD: "frugal c \<Longrightarrow> c m = (r, m') \<Longrightarrow> used m \<le> used m' \<and> limit m' = limit m"
  by (auto simp: frugal_def)

lemma frugal_charge [intro, simp]: "frugal (charge u)"
  by (rule frugalI) (auto simp: charge_def checked_add_def split: option.splits if_splits)

lemma frugal_ret [intro, simp]: "frugal (ret x)"
  by (auto simp: frugal_def ret_def)

lemma frugal_liftR [intro, simp]: "frugal (liftR r)"
  by (auto simp: frugal_def liftR_def)

lemma frugal_bindS [intro]: "frugal c \<Longrightarrow> (\<And>x. frugal (f x)) \<Longrightarrow> frugal (bindS c f)"
  by (rule frugalI) (fastforce simp: bindS_def dest: frugalD split: prod.splits sum.splits)

text \<open>
  The budget can never be exceeded: what \<open>charge\<close> records stays within the limit.
\<close>

lemma charge_within_limit:
  "used m \<le> limit m \<Longrightarrow> charge u m = (r, m') \<Longrightarrow> used m' \<le> limit m'"
  by (auto simp: charge_def checked_add_def split: if_splits)

section \<open>Outcomes under a budget\<close>

text \<open>
  \<open>yields c P\<close>: whatever the meter, the only failure of \<open>c\<close> is an exhausted budget, and a result
  satisfies \<open>P\<close>. In particular \<open>c\<close> never panics. The rules let a proof follow the program text.
\<close>

definition yields :: "'a metered \<Rightarrow> ('a \<Rightarrow> bool) \<Rightarrow> bool" where
  "yields c P \<longleftrightarrow> (\<forall>m r m'. c m = (r, m') \<longrightarrow> r = fail WorkLimit \<or> (\<exists>x. r = Inr x \<and> P x))"

named_theorems yields_intro \<open>rules following the program text\<close>

lemma yieldsI:
  "(\<And>m r m'. c m = (r, m') \<Longrightarrow> r = fail WorkLimit \<or> (\<exists>x. r = Inr x \<and> P x)) \<Longrightarrow> yields c P"
  by (simp add: yields_def)

lemma yieldsD:
  "yields c P \<Longrightarrow> c m = (r, m') \<Longrightarrow> r = fail WorkLimit \<or> (\<exists>x. r = Inr x \<and> P x)"
  unfolding yields_def by blast

lemma yields_Inr: "yields c P \<Longrightarrow> c m = (Inr x, m') \<Longrightarrow> P x"
  by (fastforce simp: yields_def)

lemma yields_mono: "yields c P \<Longrightarrow> (\<And>x. P x \<Longrightarrow> Q x) \<Longrightarrow> yields c Q"
  by (fastforce simp: yields_def)

lemma yields_ret [yields_intro]: "P x \<Longrightarrow> yields (ret x) P"
  by (simp add: yields_def)

lemma yields_liftR [yields_intro]: "r = Inr x \<Longrightarrow> P x \<Longrightarrow> yields (liftR r) P"
  by (simp add: yields_def)

lemma yields_bindS [yields_intro]:
  assumes "yields c P" "\<And>x. P x \<Longrightarrow> yields (f x) Q"
  shows "yields (bindS c f) Q"
proof (rule yieldsI)
  fix m r m' assume r: "bindS c f m = (r, m')"
  obtain q m1 where c: "c m = (q, m1)" by fastforce
  show "r = fail WorkLimit \<or> (\<exists>x. r = Inr x \<and> Q x)"
  proof (cases q)
    case (Inl e)
    then show ?thesis using r c yieldsD [OF assms(1) c] by (auto simp: bindS_def)
  next
    case (Inr x)
    then have "P x" using yields_Inr [OF assms(1)] c by simp
    moreover have "f x m1 = (r, m')" using r c Inr by (simp add: bindS_def)
    ultimately show ?thesis using yieldsD [OF assms(2)] by blast
  qed
qed

lemma yields_charge: "yields (charge u) (\<lambda>_. True)"
  by (rule yieldsI) (auto simp: charge_def checked_add_def split: option.splits if_splits)

lemma yields_charge_then [yields_intro]: "yields c P \<Longrightarrow> yields (bindS (charge u) (\<lambda>_. c)) P"
  by (rule yields_bindS [OF yields_charge])

lemma yields_liftR_then [yields_intro]:
  "r = Inr x \<Longrightarrow> yields (f x) P \<Longrightarrow> yields (bindS (liftR r) f) P"
  by simp

lemma yields_then_fail:
  assumes "yields c P" "\<And>x. P x \<Longrightarrow> f x = liftR (fail e)" "bindS c f m = (r, m')"
  shows "r = fail WorkLimit \<or> r = fail e"
proof -
  obtain q m1 where c: "c m = (q, m1)" by fastforce
  show ?thesis
  proof (cases q)
    case (Inl b)
    then show ?thesis using assms(3) c yieldsD [OF assms(1) c] by (auto simp: bindS_def)
  next
    case (Inr x)
    then show ?thesis using assms(2,3) yields_Inr [OF assms(1)] c by (auto simp: bindS_def)
  qed
qed

section \<open>Agreement up to the budget\<close>

text \<open>
  Two computations agree when, run with any budgets, they return the same result unless one of them
  runs out: the relation between an optimised routine and its reference.
\<close>

definition agree :: "'a metered \<Rightarrow> 'a metered \<Rightarrow> bool" where
  "agree c d \<longleftrightarrow> (\<forall>m r m' k q k'. c m = (r, m') \<longrightarrow> d k = (q, k') \<longrightarrow>
     r = fail WorkLimit \<or> q = fail WorkLimit \<or> r = q)"

lemma agreeI:
  "(\<And>m r m' k q k'. c m = (r, m') \<Longrightarrow> d k = (q, k') \<Longrightarrow> r \<noteq> fail WorkLimit \<Longrightarrow> q \<noteq> fail WorkLimit \<Longrightarrow> r = q)
     \<Longrightarrow> agree c d"
  unfolding agree_def by blast

lemma agreeD:
  "agree c d \<Longrightarrow> c m = (r, m') \<Longrightarrow> d k = (q, k') \<Longrightarrow> r \<noteq> fail WorkLimit \<Longrightarrow> q \<noteq> fail WorkLimit \<Longrightarrow> r = q"
  unfolding agree_def by blast

lemma agree_bindS:
  assumes "agree c d" "\<And>x. agree (f x) (g x)"
  shows "agree (bindS c f) (bindS d g)"
proof (rule agreeI)
  fix m r m' k q k'
  assume b: "bindS c f m = (r, m')" "bindS d g k = (q, k')" and nw: "r \<noteq> fail WorkLimit" "q \<noteq> fail WorkLimit"
  obtain a m1 where c: "c m = (a, m1)" by fastforce
  obtain e k1 where d: "d k = (e, k1)" by fastforce
  have a: "a \<noteq> fail WorkLimit" using b(1) c nw(1) by (auto simp: bindS_def)
  have e: "e \<noteq> fail WorkLimit" using b(2) d nw(2) by (auto simp: bindS_def)
  have ae: "a = e" by (rule agreeD [OF assms(1) c d a e])
  show "r = q"
  proof (cases a)
    case (Inl z)
    then show ?thesis using b c d ae by (auto simp: bindS_def)
  next
    case (Inr x)
    then have "f x m1 = (r, m')" "g x k1 = (q, k')" using b c d ae by (auto simp: bindS_def)
    then show ?thesis using agreeD [OF assms(2)] nw by blast
  qed
qed

lemma agree_charge: "agree (charge u) (charge u)"
  by (rule agreeI) (auto simp: charge_def checked_add_def split: option.splits if_splits)

lemma agree_ret: "agree (ret x) (ret x)"
  by (auto simp: agree_def)

lemma agree_liftR: "agree (liftR r) (liftR r)"
  by (auto simp: agree_def)

lemma agree_sym: "agree c d \<Longrightarrow> agree d c"
  unfolding agree_def by blast

lemmas agree_intros = agree_bindS agree_charge agree_ret agree_liftR

end
