(* ===== verification/Curve.thy ===== *)
theory Curve
  imports Kernel
begin

text \<open>
  Marginal curves (\<open>Segment\<close> and \<open>Curve\<close> of \<open>compiler/mod.rs\<close>): validation, the quote of an input
  amount and its conservative variant. A curve is a 16-entry array with a live length; \<open>bands\<close> is
  the live part. \<open>integral\<close> is the specification of a quote: the Q32 area under the marginal rates.
\<close>

section \<open>Code\<close>

record segment =
  input_capacity :: nat
  marginal_q32 :: nat

record curve =
  segments :: "segment list"
  cv_len :: nat
  cv_capacity :: nat
  upper_error_atoms :: nat
  lower_error_atoms :: nat

definition segment_default :: segment where
  "segment_default = \<lparr>input_capacity = 0, marginal_q32 = 0\<rparr>"

definition curve_default :: curve where
  "curve_default =
     \<lparr>segments = replicate MAX_SEGMENTS segment_default, cv_len = 0, cv_capacity = 0,
      upper_error_atoms = 0, lower_error_atoms = 0\<rparr>"

abbreviation bands :: "curve \<Rightarrow> segment list" where
  "bands c \<equiv> take (cv_len c) (segments c)"

fun validate_loop :: "segment list \<Rightarrow> nat \<Rightarrow> nat \<Rightarrow> nat res" where
  "validate_loop [] capacity prev = Inr capacity"
| "validate_loop (s # ss) capacity prev =
     (if input_capacity s = 0 \<or> prev < marginal_q32 s then fail InvalidCurve
      else bindR (ok_or (checked_add 64 capacity (input_capacity s)) Arithmetic)
        (\<lambda>capacity'. validate_loop ss capacity' (marginal_q32 s)))"

definition validate :: "curve \<Rightarrow> unit res" where
  "validate c =
     (if cv_len c = 0 \<or> MAX_SEGMENTS < cv_len c then fail InvalidCurve
      else bindR (validate_loop (bands c) 0 MAX_RATE) (\<lambda>capacity.
        if capacity \<noteq> cv_capacity c \<or> MAX_ATOMS < capacity then fail InvalidCurve
        else Inr ()))"

fun quote_loop :: "segment list \<Rightarrow> nat \<Rightarrow> nat \<Rightarrow> nat res" where
  "quote_loop [] input out = Inr out"
| "quote_loop (s # ss) input out =
     (let tk = min input (input_capacity s) in
      bindR (mul_w 128 tk (marginal_q32 s)) (\<lambda>area.
      bindR (add_w 128 out area) (\<lambda>out'.
      bindR (sub_w input tk) (\<lambda>input'.
        if input' = 0 then Inr out' else quote_loop ss input' out'))))"

definition quote :: "curve \<Rightarrow> nat \<Rightarrow> nat res" where
  "quote c input =
     bindR (validate c) (\<lambda>_.
       if cv_capacity c < input then fail Capacity
       else bindR (quote_loop (bands c) input 0) (\<lambda>area. as_u64 (area div SCALE)))"

text \<open>\<open>saturating_sub\<close> on unsigned integers is the truncated subtraction of \<open>nat\<close>.\<close>

definition lower_quote :: "curve \<Rightarrow> nat \<Rightarrow> nat res" where
  "lower_quote c input = bindR (quote c input) (\<lambda>q. Inr (q - lower_error_atoms c))"

section \<open>Specification: the area under the marginal rates\<close>

definition total :: "segment list \<Rightarrow> nat" where
  "total bs = sum_list (map input_capacity bs)"

fun integral :: "segment list \<Rightarrow> nat \<Rightarrow> nat" where
  "integral [] x = 0"
| "integral (b # bs) x =
     min x (input_capacity b) * marginal_q32 b + integral bs (x - input_capacity b)"

definition good_bands :: "segment list \<Rightarrow> bool" where
  "good_bands bs \<longleftrightarrow>
     (\<forall>b \<in> set bs. 0 < input_capacity b \<and> marginal_q32 b \<le> MAX_RATE) \<and>
     sorted_wrt (\<ge>) (map marginal_q32 bs) \<and> total bs \<le> MAX_ATOMS"

definition valid_curve :: "curve \<Rightarrow> bool" where
  "valid_curve c \<longleftrightarrow>
     0 < cv_len c \<and> cv_len c \<le> MAX_SEGMENTS \<and> good_bands (bands c) \<and> total (bands c) = cv_capacity c"

lemma total_simps [simp]:
  "total [] = 0" "total (b # bs) = input_capacity b + total bs" "total (as @ bs) = total as + total bs"
  by (simp_all add: total_def)

lemma total_take_le: "total (take n bs) \<le> total bs"
  by (metis append_take_drop_id le_add1 total_simps(3))

lemma integral_0 [simp]: "integral bs 0 = 0"
  by (induction bs) auto

lemma integral_append: "integral (as @ bs) x = integral as (min x (total as)) + integral bs (x - total as)"
proof (induction as arbitrary: x)
  case (Cons a as)
  show ?case
  proof (cases "x \<le> input_capacity a")
    case True
    then show ?thesis by simp
  next
    case False
    then have "min x (input_capacity a + total as) = input_capacity a + min (x - input_capacity a) (total as)"
      by linarith
    with False show ?thesis using Cons.IH [of "x - input_capacity a"] by simp
  qed
qed simp

lemma integral_beyond: "total bs \<le> x \<Longrightarrow> integral bs x = integral bs (total bs)"
proof (induction bs arbitrary: x)
  case (Cons b bs)
  have "integral bs (x - input_capacity b) = integral bs (total bs)"
    by (rule Cons.IH) (use Cons.prems in simp)
  with Cons.prems show ?case by simp
qed simp

lemma integral_mono: "x \<le> y \<Longrightarrow> integral bs x \<le> integral bs y"
proof (induction bs arbitrary: x y)
  case (Cons b bs)
  then show ?case by (auto intro!: add_mono mult_le_mono1 min.mono)
qed simp

lemma integral_le_rate:
  "\<forall>b \<in> set bs. marginal_q32 b \<le> r \<Longrightarrow> integral bs x \<le> r * x"
proof (induction bs arbitrary: x)
  case (Cons b bs)
  let ?m = "min x (input_capacity b)"
  have "integral bs (x - input_capacity b) \<le> r * (x - input_capacity b)" using Cons by simp
  moreover have "marginal_q32 b * ?m \<le> r * ?m"
    using Cons.prems by (intro mult_le_mono1) simp
  moreover have "r * ?m + r * (x - input_capacity b) = r * x"
    by (metis add.commute add_mult_distrib2 diff_is_0_eq linear min.absorb1 min.absorb2 le_add_diff_inverse2 add_0)
  ultimately show ?case unfolding integral.simps mult.commute [of ?m] by linarith
qed simp

text \<open>
  Weak duality. At a price \<open>r\<close> per input atom a curve earns at most \<open>r * x\<close> plus its surplus, the
  part of its area above \<open>r\<close>. The allocators reach this bound, which is their optimality proof.
\<close>

definition surplus :: "nat \<Rightarrow> segment list \<Rightarrow> nat" where
  "surplus r bs = sum_list (map (\<lambda>b. input_capacity b * (marginal_q32 b - r)) bs)"

lemma surplus_simps [simp]:
  "surplus r [] = 0" "surplus r (b # bs) = input_capacity b * (marginal_q32 b - r) + surplus r bs"
  by (simp_all add: surplus_def)

lemma integral_weak_duality: "integral bs x \<le> r * x + surplus r bs"
proof (induction bs arbitrary: x)
  case (Cons b bs)
  let ?m = "min x (input_capacity b)"
  have "?m * marginal_q32 b \<le> ?m * r + ?m * (marginal_q32 b - r)"
    by (metis add_mult_distrib2 le_add_diff_inverse linear diff_is_0_eq add_0_right mult_le_mono2)
  moreover have "?m * (marginal_q32 b - r) \<le> input_capacity b * (marginal_q32 b - r)"
    by (intro mult_le_mono1) simp
  moreover have "?m + (x - input_capacity b) = x" by linarith
  then have "r * ?m + r * (x - input_capacity b) = r * x" by (metis distrib_left)
  ultimately show ?case using Cons.IH [of "x - input_capacity b"]
    by (simp only: integral.simps surplus_simps mult.commute [of ?m r])
qed simp

text \<open>The rate earned by the \<open>k\<close>-th input atom; a quote adds them up.\<close>

fun rate_at :: "segment list \<Rightarrow> nat \<Rightarrow> nat" where
  "rate_at [] k = 0"
| "rate_at (b # bs) k =
     (if k < input_capacity b then marginal_q32 b else rate_at bs (k - input_capacity b))"

lemma rate_at_le: "\<forall>b \<in> set bs. marginal_q32 b \<le> r \<Longrightarrow> rate_at bs k \<le> r"
  by (induction bs arbitrary: k) auto

lemma rate_at_antimono:
  "sorted_wrt (\<ge>) (map marginal_q32 bs) \<Longrightarrow> j \<le> k \<Longrightarrow> rate_at bs k \<le> rate_at bs j"
proof (induction bs arbitrary: j k)
  case (Cons b bs)
  have "rate_at bs (k - input_capacity b) \<le> marginal_q32 b"
    using Cons.prems by (intro rate_at_le) auto
  then show ?case using Cons by auto
qed simp

lemma integral_Suc: "integral bs (Suc x) = integral bs x + rate_at bs x"
proof (induction bs arbitrary: x)
  case (Cons b bs)
  then show ?case
    by (cases "x < input_capacity b") (auto simp: min_def Suc_diff_le)
qed simp

lemma integral_sum: "integral bs x = (\<Sum>k<x. rate_at bs k)"
  by (induction x) (simp_all add: integral_Suc)

lemma integral_diminishing:
  assumes "sorted_wrt (\<ge>) (map marginal_q32 bs)" "x \<le> y"
  shows "integral bs (y + d) + integral bs x \<le> integral bs (x + d) + integral bs y"
proof (induction d)
  case (Suc d)
  have "rate_at bs (y + d) \<le> rate_at bs (x + d)" by (rule rate_at_antimono) (use assms in auto)
  with Suc show ?case by (simp add: integral_Suc)
qed simp

section \<open>Validation and quotes meet the specification\<close>

lemma validate_loop_Inr:
  "validate_loop bs capacity prev = Inr k \<longleftrightarrow>
     (\<forall>b \<in> set bs. 0 < input_capacity b \<and> marginal_q32 b \<le> prev) \<and>
     sorted_wrt (\<ge>) (map marginal_q32 bs) \<and> k = capacity + total bs \<and>
     (bs \<noteq> [] \<longrightarrow> capacity + total bs < 2 ^ 64)"
proof (induction bs arbitrary: capacity prev)
  case (Cons b bs)
  have "validate_loop (b # bs) capacity prev = Inr k \<longleftrightarrow>
     0 < input_capacity b \<and> marginal_q32 b \<le> prev \<and> capacity + input_capacity b < 2 ^ 64 \<and>
     validate_loop bs (capacity + input_capacity b) (marginal_q32 b) = Inr k"
    by (auto simp: monad_simps not_less simp del: One_nat_def)
  also have "\<dots> \<longleftrightarrow> 0 < input_capacity b \<and> marginal_q32 b \<le> prev \<and> capacity + input_capacity b < 2 ^ 64 \<and>
     (\<forall>b' \<in> set bs. 0 < input_capacity b' \<and> marginal_q32 b' \<le> marginal_q32 b) \<and>
     sorted_wrt (\<ge>) (map marginal_q32 bs) \<and> k = capacity + total (b # bs) \<and>
     (bs \<noteq> [] \<longrightarrow> capacity + total (b # bs) < 2 ^ 64)"
    unfolding Cons.IH by (simp add: add.assoc)
  finally show ?case
    by (cases "bs = []") (auto intro: order_trans)
qed auto

lemma validate_valid: "validate c = Inr u \<longleftrightarrow> valid_curve c"
proof -
  have "2 ^ 64 > MAX_ATOMS" by (simp add: MAX_ATOMS_def)
  then show ?thesis
    by (auto simp: validate_def valid_curve_def good_bands_def validate_loop_Inr monad_simps
        split: if_splits)
qed

lemma validate_not_panic: "validate c \<noteq> Inl Panic"
proof -
  have "validate_loop bs k p \<noteq> Inl Panic" for bs k p
    by (induction bs arbitrary: k p) (auto simp: monad_simps)
  then show ?thesis by (auto simp: validate_def monad_simps)
qed

lemma good_bands_integral_bound:
  assumes "good_bands bs"
  shows "integral bs x \<le> MAX_RATE * MAX_ATOMS"
proof -
  have "integral bs x \<le> integral bs (total bs)"
    by (metis integral_beyond integral_mono le_cases order_refl)
  also have "\<dots> \<le> MAX_RATE * total bs"
    by (rule integral_le_rate) (use assms in \<open>simp add: good_bands_def\<close>)
  also have "\<dots> \<le> MAX_RATE * MAX_ATOMS"
    using assms by (simp add: good_bands_def)
  finally show ?thesis .
qed

lemma rate_times_atoms: "MAX_RATE * MAX_ATOMS < 2 ^ 128" "MAX_RATE * MAX_ATOMS div SCALE < 2 ^ 64"
  by (simp_all add: bounds_defs)

lemma quote_loop_integral:
  "out + integral bs x < 2 ^ 128 \<Longrightarrow> quote_loop bs x out = Inr (out + integral bs x)"
proof (induction bs arbitrary: x out)
  case (Cons b bs)
  let ?m = "min x (input_capacity b)"
  have "?m * marginal_q32 b < 2 ^ 128" "out + ?m * marginal_q32 b < 2 ^ 128"
    using Cons.prems by (simp_all del: min_less_iff_conj)
  moreover have "x - ?m = x - input_capacity b" by linarith
  ultimately show ?case
    using Cons.IH [of "out + ?m * marginal_q32 b" "x - input_capacity b"] Cons.prems
    by (auto simp: Let_def add_w_ok mul_w_ok sub_w_ok add.assoc simp del: diff_is_0_eq)
qed simp

lemma quote_valid:
  assumes "valid_curve c" "x \<le> cv_capacity c"
  shows "quote c x = Inr (integral (bands c) x div SCALE)"
proof -
  have "integral (bands c) x \<le> MAX_RATE * MAX_ATOMS"
    using assms by (intro good_bands_integral_bound) (simp add: valid_curve_def)
  then have "integral (bands c) x < 2 ^ 128" "integral (bands c) x div SCALE < 2 ^ 64"
    using rate_times_atoms by (auto intro: le_less_trans dest: div_le_mono [of _ _ SCALE])
  moreover have "validate c = Inr ()" using assms validate_valid by simp
  ultimately show ?thesis using assms
    by (simp add: quote_def quote_loop_integral as_u64_ok)
qed

lemma quote_Inr:
  "quote c x = Inr q \<longleftrightarrow> valid_curve c \<and> x \<le> cv_capacity c \<and> q = integral (bands c) x div SCALE"
proof
  assume q: "quote c x = Inr q"
  then have "valid_curve c" "x \<le> cv_capacity c"
    by (auto simp: quote_def monad_simps validate_valid split: if_splits)
  with q show "valid_curve c \<and> x \<le> cv_capacity c \<and> q = integral (bands c) x div SCALE"
    using quote_valid by simp
next
  assume "valid_curve c \<and> x \<le> cv_capacity c \<and> q = integral (bands c) x div SCALE"
  then show "quote c x = Inr q" using quote_valid by simp
qed

lemma quote_error:
  "quote c x = Inl e \<Longrightarrow> valid_curve c \<Longrightarrow> e = Err Capacity \<and> cv_capacity c < x"
  using quote_valid [of c x] validate_valid [of c "()"] by (cases "x \<le> cv_capacity c") (auto simp: quote_def)

lemma lower_quote_valid:
  assumes "valid_curve c" "x \<le> cv_capacity c"
  shows "lower_quote c x = Inr (integral (bands c) x div SCALE - lower_error_atoms c)"
  using assms by (simp add: lower_quote_def quote_valid)

end
