(* ===== verification/Compiler.thy ===== *)
theory Compiler
  imports Curve
begin

text \<open>
  The liquidity compiler (\<open>compiler/mod.rs\<close>): venue models, snapshots, the exact quote of a venue and
  its compilation to a marginal curve. A book is cut to the requested horizon; a constant-product
  pool becomes at most 16 adaptive chords with an upper and a lower error bound. The arrays of the
  chord compiler (\<open>boundaries\<close>, \<open>values\<close>, \<open>tangents\<close>, \<open>gaps\<close>) are kept as lists holding their live
  prefix: the shift loops of the source are \<open>insert_at\<close>.
\<close>

section \<open>Models and snapshots\<close>

datatype model =
    Book "segment list" nat
  | ConstantProduct nat nat nat

record snapshot =
  market :: key
  program :: key
  input_mint :: key
  output_mint :: key
  liquidity_id :: key
  writable_resources :: "64 word"
  sn_slot :: nat
  generation :: nat
  expires_at_slot :: nat
  sn_capacity :: nat
  atomic :: bool
  enabled :: bool
  sn_model :: model

fun sum_capacity :: "segment list \<Rightarrow> nat \<Rightarrow> nat res" where
  "sum_capacity [] a = Inr a"
| "sum_capacity (s # ss) a =
     bindR (ok_or (checked_add 64 a (input_capacity s)) Arithmetic) (sum_capacity ss)"

definition book_curve :: "segment list \<Rightarrow> nat \<Rightarrow> nat \<Rightarrow> curve" where
  "book_curve levels n capacity =
     curve_default\<lparr>segments := levels, cv_len := n, cv_capacity := capacity\<rparr>"

definition validate_cp :: "nat \<Rightarrow> nat \<Rightarrow> nat \<Rightarrow> unit res" where
  "validate_cp r y fee =
     (if r = 0 \<or> y = 0 \<or> MAX_ATOMS < r \<or> MAX_ATOMS < y \<or> 1000000 \<le> fee then fail InvalidCurve
      else Inr ())"

definition exact_quote :: "snapshot \<Rightarrow> nat \<Rightarrow> nat res" where
  "exact_quote s input =
     (if sn_capacity s < input \<or> MAX_ATOMS < input then fail Capacity
      else case sn_model s of
        Book levels n \<Rightarrow>
          bindR (sum_capacity (take n levels) 0) (\<lambda>capacity.
            quote (book_curve levels n capacity) input)
      | ConstantProduct reserve_in reserve_out fee_ppm \<Rightarrow>
          bindR (validate_cp reserve_in reserve_out fee_ppm) (\<lambda>_.
          bindR (sub_w 1000000 fee_ppm) (\<lambda>f.
          bindR (mul_w 128 input f) (\<lambda>p.
          let net = p div 1000000 in
          bindR (mul_w 128 reserve_out net) (\<lambda>n.
          bindR (add_w 128 reserve_in net) (\<lambda>d.
          bindR (div_w n d) as_u64))))))"

section \<open>Constant-product envelope\<close>

definition cp_fp :: "nat \<Rightarrow> nat \<Rightarrow> nat \<Rightarrow> nat \<Rightarrow> nat res" where
  "cp_fp r y f x =
     bindR (mul_w 128 y x) (\<lambda>yx.
     bindR (mul_w 128 yx f) (\<lambda>n.
     bindR (mul_w 128 r 1000000) (\<lambda>k.
     bindR (mul_w 128 x f) (\<lambda>xf.
     bindR (add_w 128 k xf) (\<lambda>d.
     bindR (div_w n d) (\<lambda>q.
     bindR (mul_w 128 q SCALE) (\<lambda>whole.
     bindR (mul_w 128 (n mod d) SCALE) (\<lambda>part.
     bindR (div_w part d) (\<lambda>frac.
     add_w 128 whole frac)))))))))"

definition derivative_upper :: "nat \<Rightarrow> nat \<Rightarrow> nat \<Rightarrow> nat \<Rightarrow> nat res" where
  "derivative_upper r y f x =
     bindR (mul_w 128 r 1000000) (\<lambda>k.
     bindR (mul_w 128 x f) (\<lambda>xf.
     bindR (add_w 128 k xf) (\<lambda>d.
     bindR (mul_w 128 y f) (\<lambda>yf.
     bindR (mul_w 128 yf SCALE) (\<lambda>n.
     bindR (ceil_div n d) (\<lambda>first.
     bindR (mul_w 128 first r) (\<lambda>fr.
     bindR (mul_w 128 fr 1000000) (\<lambda>frk.
     ceil_div frk d))))))))"

text \<open>The scan for the splittable interval with the largest gap, left to right.\<close>

fun pick_split :: "nat list \<Rightarrow> nat list \<Rightarrow> nat \<Rightarrow> (nat \<times> nat) option \<Rightarrow> (nat \<times> nat) option metered"
where
  "pick_split (a # b # bs) (g # gs) i best =
     bindS (charge 1) (\<lambda>_.
     bindS (liftR (sub_w b a)) (\<lambda>w.
       pick_split (b # bs) gs (Suc i)
         (if w \<le> 1 then best
          else case best of
            None \<Rightarrow> Some (i, g)
          | Some (j, worst) \<Rightarrow> if worst < g then Some (i, g) else best)))"
| "pick_split _ _ i best = ret best"

definition interval_gap :: "nat list \<Rightarrow> nat list \<Rightarrow> nat list \<Rightarrow> nat \<Rightarrow> nat res" where
  "interval_gap boundaries values tangents j =
     bindR (sub_w (boundaries ! Suc j) (boundaries ! j)) (\<lambda>width.
     bindR (sub_w (values ! Suc j) (values ! j)) (\<lambda>rise.
     bindR (div_w rise width) (\<lambda>slope.
     mul_w 128 (tangents ! j - slope) width)))"

type_synonym split_state = "nat list \<times> nat list \<times> nat list \<times> nat list"

definition split_interval :: "nat \<Rightarrow> nat \<Rightarrow> nat \<Rightarrow> split_state \<Rightarrow> nat \<Rightarrow> split_state res" where
  "split_interval r y f st i =
     (case st of (boundaries, values, tangents, gaps) \<Rightarrow>
      bindR (sub_w (boundaries ! Suc i) (boundaries ! i)) (\<lambda>w.
      bindR (add_w 64 (boundaries ! i) (w div 2)) (\<lambda>mid.
      let boundaries' = insert_at (Suc i) mid boundaries in
      bindR (cp_fp r y f mid) (\<lambda>v.
      let values' = insert_at (Suc i) v values in
      bindR (derivative_upper r y f mid) (\<lambda>t.
      let tangents' = insert_at (Suc i) t tangents in
      bindR (interval_gap boundaries' values' tangents' i) (\<lambda>g0.
      bindR (interval_gap boundaries' values' tangents' (Suc i)) (\<lambda>g1.
      Inr (boundaries', values', tangents', insert_at (Suc i) g1 (gaps[i := g0])))))))))"

text \<open>
  \<open>while n < MAX_SEGMENTS\<close>: every round adds one interval, so the argument is the number of rounds
  left, \<open>MAX_SEGMENTS - n\<close>.
\<close>

fun split_loop :: "nat \<Rightarrow> nat \<Rightarrow> nat \<Rightarrow> nat \<Rightarrow> split_state \<Rightarrow> split_state metered" where
  "split_loop 0 r y f st = ret st"
| "split_loop (Suc rounds) r y f st =
     (case st of (boundaries, values, tangents, gaps) \<Rightarrow>
      bindS (pick_split boundaries gaps 0 None) (\<lambda>best.
      case best of
        None \<Rightarrow> ret st
      | Some (i, _) \<Rightarrow> bindS (liftR (split_interval r y f st i)) (split_loop rounds r y f)))"

text \<open>One chord: its width and slope, the running error bound and the running area.\<close>

definition chord_step ::
  "nat \<Rightarrow> nat \<Rightarrow> nat \<Rightarrow> nat \<Rightarrow> nat \<Rightarrow> nat \<Rightarrow> nat \<Rightarrow> nat \<Rightarrow> (nat \<times> nat \<times> nat \<times> nat) res"
where
  "chord_step a b fa fb t area error_fp previous =
     bindR (sub_w b a) (\<lambda>width.
     bindR (sub_w fb fa) (\<lambda>rise.
     bindR (div_w rise width) (\<lambda>q.
     bindR (as_u64 q) (\<lambda>q64.
     let slope = min q64 previous in
     bindR (add_w 128 fa 1) (\<lambda>fa1.
     bindR (sub_w fa1 area) (\<lambda>base.
     bindR (mul_w 128 (t - slope) width) (\<lambda>over.
     bindR (add_w 128 base over) (\<lambda>tangent_gap.
     bindR (mul_w 128 slope width) (\<lambda>rect.
     bindR (add_w 128 area rect) (\<lambda>area'.
     Inr (width, slope, max error_fp tangent_gap, area')))))))))))"

fun chords :: "nat list \<Rightarrow> nat list \<Rightarrow> nat list \<Rightarrow> nat \<Rightarrow> nat \<Rightarrow> nat \<Rightarrow> (segment list \<times> nat) metered"
where
  "chords (a # b # bs) (fa # fb # vs) (t # ts) area error_fp previous =
     bindS (charge 1) (\<lambda>_.
     bindS (liftR (chord_step a b fa fb t area error_fp previous)) (\<lambda>(width, slope, error', area').
     bindS (chords (b # bs) (fb # vs) ts area' error' slope) (\<lambda>(segs, err).
     ret (\<lparr>input_capacity = width, marginal_q32 = slope\<rparr> # segs, err))))"
| "chords _ _ _ area error_fp previous = ret ([], error_fp)"

definition pad_segments :: "segment list \<Rightarrow> segment list" where
  "pad_segments segs = segs @ replicate (MAX_SEGMENTS - length segs) segment_default"

definition compile_cp :: "nat \<Rightarrow> nat \<Rightarrow> nat \<Rightarrow> nat \<Rightarrow> curve metered" where
  "compile_cp r y fee_ppm capacity =
     bindS (liftR (
       bindR (validate_cp r y fee_ppm) (\<lambda>_.
       bindR (sub_w 1000000 fee_ppm) (\<lambda>f.
       bindR (derivative_upper r y f 0) (\<lambda>d0.
       if MAX_RATE < d0 then fail InvalidCurve
       else bindR (cp_fp r y f capacity) (\<lambda>v1.
         bindR (div_w v1 capacity) (\<lambda>slope.
         bindR (mul_w 128 (d0 - slope) capacity) (\<lambda>g0.
         Inr (f, ([0, capacity], [0, v1], [d0, 0], [g0]))))))))))
     (\<lambda>(f, st0).
     bindS (split_loop (MAX_SEGMENTS - 1) r y f st0) (\<lambda>(boundaries, values, tangents, gaps).
     bindS (chords boundaries values tangents 0 0 MAX_RATE) (\<lambda>(segs, error_fp).
     liftR (
       bindR (ceil_div error_fp SCALE) (\<lambda>e. bindR (as_u64 e) (\<lambda>upper.
       bindR (ceil_div y r) (\<lambda>q. bindR (add_w 128 q 1) (\<lambda>q1. bindR (as_u64 q1) (\<lambda>lower.
       let c = \<lparr>segments = pad_segments segs, cv_len = length gaps, cv_capacity = capacity,
                upper_error_atoms = upper, lower_error_atoms = lower\<rparr> in
       bindR (validate c) (\<lambda>_. Inr c))))))))))"

fun take_levels :: "segment list \<Rightarrow> nat \<Rightarrow> segment list metered" where
  "take_levels [] left = ret []"
| "take_levels (l # ls) left =
     bindS (charge 1) (\<lambda>_.
       if left = 0 then ret []
       else let tk = min left (input_capacity l) in
         bindS (take_levels ls (left - tk)) (\<lambda>rest. ret (l\<lparr>input_capacity := tk\<rparr> # rest)))"

definition compile_book :: "segment list \<Rightarrow> nat \<Rightarrow> nat \<Rightarrow> nat \<Rightarrow> curve metered" where
  "compile_book levels n snapshot_capacity capacity =
     bindS (liftR (
       bindR (sum_capacity (take n levels) 0) (\<lambda>full_capacity.
       bindR (validate (book_curve levels n full_capacity)) (\<lambda>_.
       if full_capacity < snapshot_capacity then fail Capacity else Inr ())))) (\<lambda>_.
     bindS (take_levels (take n levels) capacity) (\<lambda>segs.
     ret (curve_default\<lparr>segments := pad_segments segs, cv_len := length segs, cv_capacity := capacity\<rparr>)))"

definition compile :: "snapshot \<Rightarrow> nat \<Rightarrow> curve metered" where
  "compile s horizon =
     (if \<not> atomic s then liftR (fail Unsupported)
      else if \<not> enabled s then liftR (fail VenueUnavailable)
      else if sn_capacity s = 0 \<or> MAX_ATOMS < sn_capacity s \<or> horizon = 0 \<or> MAX_ATOMS < horizon
        then liftR (fail InvalidAmount)
      else let capacity = min (sn_capacity s) horizon in
        case sn_model s of
          Book levels n \<Rightarrow> compile_book levels n (sn_capacity s) capacity
        | ConstantProduct r y fee_ppm \<Rightarrow> compile_cp r y fee_ppm capacity)"

end
