(* ===== verification/Book.thy ===== *)
theory Book
  imports Compiler
begin

text \<open>
  Book venues: the compiled curve of a book is the book itself up to the horizon, so quoting the
  curve and quoting the venue agree on every input.
\<close>

lemma sum_capacity_Inr:
  "sum_capacity bs a = Inr k \<longleftrightarrow> k = a + total bs \<and> (bs \<noteq> [] \<longrightarrow> a + total bs < 2 ^ 64)"
proof (induction bs arbitrary: a)
  case (Cons b bs)
  have "sum_capacity (b # bs) a = Inr k \<longleftrightarrow>
     a + input_capacity b < 2 ^ 64 \<and> sum_capacity bs (a + input_capacity b) = Inr k"
    by (auto simp: monad_simps)
  then show ?case unfolding Cons.IH by (cases "bs = []") (auto simp: add.assoc)
qed auto

text \<open>The book cut at a given input amount.\<close>

fun cut_bands :: "segment list \<Rightarrow> nat \<Rightarrow> segment list" where
  "cut_bands [] left = []"
| "cut_bands (l # ls) left =
     (if left = 0 then []
      else l\<lparr>input_capacity := min left (input_capacity l)\<rparr> # cut_bands ls (left - min left (input_capacity l)))"

lemma take_levels_cut: "take_levels ls left m = (Inr segs, m') \<Longrightarrow> segs = cut_bands ls left"
  by (induction ls arbitrary: left m m' segs)
     (fastforce simp: monad_simps Let_def split: if_splits)+

lemma length_cut_bands: "length (cut_bands ls left) \<le> length ls"
  by (induction ls arbitrary: left) auto

lemma total_cut_bands: "total (cut_bands ls left) = min left (total ls)"
  by (induction ls arbitrary: left) auto

lemma integral_cut_bands: "x \<le> left \<Longrightarrow> integral (cut_bands ls left) x = integral ls x"
proof (induction ls arbitrary: left x)
  case (Cons l ls)
  have "integral (cut_bands ls (left - min left (input_capacity l))) (x - min left (input_capacity l))
      = integral ls (x - input_capacity l)"
    by (cases "left \<le> input_capacity l") (use Cons in auto)
  then show ?case using Cons.prems by (auto simp: min_def)
qed simp

lemma set_cut_bands:
  "b \<in> set (cut_bands ls left) \<Longrightarrow> \<exists>l \<in> set ls. marginal_q32 b = marginal_q32 l"
  by (induction ls arbitrary: left) (auto split: if_splits)

lemma cut_bands_pos:
  "\<forall>l \<in> set ls. 0 < input_capacity l \<Longrightarrow> b \<in> set (cut_bands ls left) \<Longrightarrow> 0 < input_capacity b"
  by (induction ls arbitrary: left) (auto split: if_splits)

lemma good_bands_cut: "good_bands ls \<Longrightarrow> good_bands (cut_bands ls left)"
proof -
  assume g: "good_bands ls"
  have "sorted_wrt (\<ge>) (map marginal_q32 ls) \<Longrightarrow> sorted_wrt (\<ge>) (map marginal_q32 (cut_bands ls left))"
    by (induction ls arbitrary: left) (auto dest: set_cut_bands)
  moreover have "total (cut_bands ls left) \<le> total ls" by (simp add: total_cut_bands)
  ultimately show ?thesis using g
    unfolding good_bands_def by (metis cut_bands_pos set_cut_bands le_trans)
qed

lemma bands_padded:
  "length segs \<le> MAX_SEGMENTS \<Longrightarrow> take (length segs) (pad_segments segs) = segs"
  by (simp add: pad_segments_def)

lemma book_curve_simps [simp]:
  "segments (book_curve ls n k) = ls" "cv_len (book_curve ls n k) = n" "cv_capacity (book_curve ls n k) = k"
  by (simp_all add: book_curve_def)

lemma compile_book_Inr:
  assumes "compile_book levels n sc cap m = (Inr c, m')" "0 < cap" "cap \<le> sc"
  shows "valid_curve c" "cv_capacity c = cap" "bands c = cut_bands (take n levels) cap"
    "upper_error_atoms c = 0" "lower_error_atoms c = 0"
    "valid_curve (book_curve levels n (total (take n levels)))" "sc \<le> total (take n levels)"
    "sum_capacity (take n levels) 0 = Inr (total (take n levels))" "length (segments c) = MAX_SEGMENTS"
proof -
  let ?ls = "take n levels"
  from assms(1) have s: "sum_capacity ?ls 0 = Inr (total ?ls)"
    and v: "valid_curve (book_curve levels n (total ?ls))" and sc: "sc \<le> total ?ls"
    and c: "c = curve_default\<lparr>segments := pad_segments (cut_bands ?ls cap),
                cv_len := length (cut_bands ?ls cap), cv_capacity := cap\<rparr>"
    by (auto simp: compile_book_def monad_simps sum_capacity_Inr validate_valid
        dest!: take_levels_cut split: if_splits)
  have n: "n \<le> MAX_SEGMENTS" and g: "good_bands ?ls" using v by (auto simp: valid_curve_def)
  have l: "length (cut_bands ?ls cap) \<le> MAX_SEGMENTS"
    using length_cut_bands [of ?ls cap] n by simp
  have t: "total (cut_bands ?ls cap) = cap" using sc assms(3) by (simp add: total_cut_bands)
  have "cut_bands ?ls cap \<noteq> []" using t assms(2) by auto
  then show "valid_curve c" "bands c = cut_bands ?ls cap"
    using l t good_bands_cut [OF g] by (auto simp: c valid_curve_def bands_padded)
  show "cv_capacity c = cap" "upper_error_atoms c = 0" "lower_error_atoms c = 0"
    by (simp_all add: c curve_default_def)
  show "length (segments c) = MAX_SEGMENTS" using l by (simp add: c pad_segments_def)
qed (use assms in \<open>auto simp: compile_book_def monad_simps sum_capacity_Inr validate_valid
        split: if_splits\<close>)

lemma compile_guards:
  assumes "compile s h m = (Inr c, m')"
  shows "atomic s" "enabled s" "0 < sn_capacity s" "sn_capacity s \<le> MAX_ATOMS" "0 < h" "h \<le> MAX_ATOMS"
  using assms by (auto simp: compile_def split: if_splits)

lemma compile_book_model:
  assumes "compile s h m = (Inr c, m')" "sn_model s = Book levels n"
  shows "compile_book levels n (sn_capacity s) (min (sn_capacity s) h) m = (Inr c, m')"
  using assms by (auto simp: compile_def Let_def split: if_splits)

lemma compiled_book:
  assumes "compile s h m = (Inr c, m')" "sn_model s = Book levels n"
  shows "cv_capacity c = min (sn_capacity s) h" "upper_error_atoms c = 0" "lower_error_atoms c = 0"
    "x \<le> cv_capacity c \<Longrightarrow> quote c x = Inr (integral (take n levels) x div SCALE)"
    "x \<le> cv_capacity c \<Longrightarrow> exact_quote s x = Inr (integral (take n levels) x div SCALE)"
proof -
  note g = compile_guards [OF assms(1)]
  note b = compile_book_Inr [OF compile_book_model [OF assms]]
  have c: "valid_curve c" "cv_capacity c = min (sn_capacity s) h"
      "bands c = cut_bands (take n levels) (min (sn_capacity s) h)"
    using b(1-5) g by auto
  show "cv_capacity c = min (sn_capacity s) h" "upper_error_atoms c = 0" "lower_error_atoms c = 0"
    using b(4,5) g c by auto
  assume x: "x \<le> cv_capacity c"
  then show "quote c x = Inr (integral (take n levels) x div SCALE)"
    using c by (simp add: quote_valid integral_cut_bands)
  have "x \<le> total (take n levels)" "x \<le> sn_capacity s" "x \<le> MAX_ATOMS"
    using x c(2) b(7) g by auto
  then show "exact_quote s x = Inr (integral (take n levels) x div SCALE)"
    using assms(2) b(6,8) g by (simp add: exact_quote_def quote_valid)
qed

text \<open>
  \<^bold>\<open>C1.\<close> Compiling an order-book venue loses nothing: for every input up to the compiled capacity
  \<open>min(snapshot capacity, horizon)\<close>, the curve's quote and the venue's exact quote are the same
  successful value, and both error bounds are zero.
\<close>

theorem book_compile_exact:
  assumes "compile s h m = (Inr c, m')" "sn_model s = Book levels n" "x \<le> min (sn_capacity s) h"
  shows "\<exists>q. quote c x = Inr q \<and> exact_quote s x = Inr q \<and> lower_quote c x = Inr q
    \<and> upper_error_atoms c = 0"
  using compiled_book(1-3) [OF assms(1,2)] compiled_book(4,5) [OF assms(1,2), of x] assms(3) by (simp add: lower_quote_def)

text \<open>A two-level book compiled with an ample budget, quoted across the level boundary.\<close>

definition demo_book :: snapshot where
  "demo_book =
     \<lparr>market = 7, program = 200, input_mint = 1, output_mint = 2, liquidity_id = 7,
      writable_resources = 1, sn_slot = 10, generation = 1, expires_at_slot = 110,
      sn_capacity = 150, atomic = True, enabled = True,
      sn_model = Book ([\<lparr>input_capacity = 100, marginal_q32 = 2 * 2 ^ 32\<rparr>,
        \<lparr>input_capacity = 50, marginal_q32 = 2 ^ 32\<rparr>] @ replicate 14 segment_default) 2\<rparr>"

lemma book_compile_exact_witness:
  "\<exists>c m'. compile demo_book 120 (meter_new 1000) = (Inr c, m') \<and>
     (\<exists>q. quote c 110 = Inr q \<and> exact_quote demo_book 110 = Inr q \<and> lower_quote c 110 = Inr q
        \<and> upper_error_atoms c = 0)"
proof -
  obtain c m' where c: "compile demo_book 120 (meter_new 1000) = (Inr c, m')"
    by (simp add: compile_def demo_book_def compile_book_def bindS_def liftR_def charge_def
        checked_add_def meter_new_def validate_def book_curve_def curve_default_def segment_default_def
        bounds_defs Let_def ret_def)
  show ?thesis
    using book_compile_exact [OF c, of "case sn_model demo_book of Book l _ \<Rightarrow> l" 2 110] c
    by (auto simp: demo_book_def)
qed

end
