(* ===== verification/Chords.thy ===== *)
theory Chords
  imports Compiler
begin

text \<open>
  Constant-product venues. \<open>cp_val\<close> and \<open>cp_tan\<close> are the closed forms of \<open>cp_fp\<close> and
  \<open>derivative_upper\<close>; the envelope of the output function in Q32 is \<open>SCALE * y * x * f / (K + x * f)\<close> with
  \<open>K = r * 1000000\<close>. Chord ends lie on or under that concave function, so the chords do too; the left
  tangent of every interval lies over it, which bounds the error of the chord.
\<close>

section \<open>Closed forms\<close>

definition cdiv :: "nat \<Rightarrow> nat \<Rightarrow> nat" where
  "cdiv n d = n div d + of_bool (n mod d \<noteq> 0)"

definition cp_den :: "nat \<Rightarrow> nat \<Rightarrow> nat \<Rightarrow> nat" where
  "cp_den r f x = r * 1000000 + x * f"

definition cp_val :: "nat \<Rightarrow> nat \<Rightarrow> nat \<Rightarrow> nat \<Rightarrow> nat" where
  "cp_val r y f x = SCALE * (y * x * f) div cp_den r f x"

definition cp_tan :: "nat \<Rightarrow> nat \<Rightarrow> nat \<Rightarrow> nat \<Rightarrow> nat" where
  "cp_tan r y f x = cdiv (cdiv (y * f * SCALE) (cp_den r f x) * r * 1000000) (cp_den r f x)"

definition cp_pool :: "nat \<Rightarrow> nat \<Rightarrow> nat \<Rightarrow> bool" where
  "cp_pool r y f \<longleftrightarrow> 0 < r \<and> r \<le> MAX_ATOMS \<and> 0 < y \<and> y \<le> MAX_ATOMS \<and> 0 < f \<and> f \<le> 1000000"

lemma cdiv_ge: "0 < d \<Longrightarrow> n \<le> d * cdiv n d"
  unfolding cdiv_def by (rule div_ceil_ge)

lemma cdiv_le: "0 < d \<Longrightarrow> n \<le> d * m \<Longrightarrow> cdiv n d \<le> m"
  unfolding cdiv_def by (rule div_ceil_le)

lemma cdiv_upper: "0 < d \<Longrightarrow> d * cdiv n d \<le> n + d"
proof -
  assume "0 < d"
  have "d * (n div d) + n mod d = n" by simp
  then have "d * (n div d) \<le> n" by linarith
  moreover have "d * of_bool (n mod d \<noteq> 0) \<le> d" by simp
  ultimately show ?thesis unfolding cdiv_def distrib_left by linarith
qed

lemma cdiv_mono: "0 < d \<Longrightarrow> n \<le> m \<Longrightarrow> cdiv n d \<le> cdiv m d"
  by (meson cdiv_ge cdiv_le le_trans)

lemma cp_den_pos: "cp_pool r y f \<Longrightarrow> 0 < cp_den r f x"
  by (simp add: cp_pool_def cp_den_def)

lemma div_mod_scaled: "0 < d \<Longrightarrow> (n div d) * s + (n mod d) * s div d = n * s div (d :: nat)"
proof -
  assume d: "0 < d"
  have e: "n = d * (n div d) + n mod d" by simp
  have "n * s = d * (n div d * s) + n mod d * s"
    using arg_cong [OF e, of "\<lambda>z. z * s"] unfolding distrib_right by (simp only: mult_ac)
  then have "n * s div d = (d * (n div d * s) + n mod d * s) div d" by (rule arg_cong)
  also have "\<dots> = n div d * s + n mod d * s div d" using d by (simp add: div_mult_self4)
  finally show ?thesis by simp
qed

lemma cp_bounds:
  assumes "cp_pool r y f" "x \<le> MAX_ATOMS"
  shows "y * x \<le> 10 ^ 28" "y * x * f \<le> 10 ^ 34" "r * 1000000 \<le> 10 ^ 20" "x * f \<le> 10 ^ 20"
    "cp_den r f x \<le> 2 * 10 ^ 20" "y * f \<le> 10 ^ 20" "y * f * SCALE \<le> 10 ^ 20 * 2 ^ 32"
    "y * x * f \<le> y * cp_den r f x"
proof -
  have b: "r \<le> 10 ^ 14" "y \<le> 10 ^ 14" "f \<le> 10 ^ 6" "x \<le> 10 ^ 14"
    using assms by (auto simp: cp_pool_def MAX_ATOMS_def)
  show yx: "y * x \<le> 10 ^ 28" using mult_le_mono [OF b(2,4)] by simp
  show "y * x * f \<le> 10 ^ 34" using mult_le_mono [OF yx b(3)] by simp
  show k: "r * 1000000 \<le> 10 ^ 20" using b(1) by simp
  show xf: "x * f \<le> 10 ^ 20" using mult_le_mono [OF b(4,3)] by simp
  show "cp_den r f x \<le> 2 * 10 ^ 20" using k xf by (simp add: cp_den_def)
  show yf: "y * f \<le> 10 ^ 20" using mult_le_mono [OF b(2,3)] by simp
  show "y * f * SCALE \<le> 10 ^ 20 * 2 ^ 32" using mult_le_mono1 [OF yf, of SCALE] by (simp add: SCALE_def)
  show "y * x * f \<le> y * cp_den r f x" by (simp add: cp_den_def mult.assoc)
qed

lemma cp_val_le:
  assumes "cp_pool r y f" "x \<le> MAX_ATOMS"
  shows "cp_val r y f x \<le> SCALE * y"
proof -
  have "SCALE * (y * x * f) \<le> SCALE * y * cp_den r f x"
    using cp_bounds(8) [OF assms] by (simp add: mult.assoc)
  then show ?thesis using cp_den_pos [OF assms(1), of x]
    unfolding cp_val_def by (metis div_le_mono nonzero_mult_div_cancel_right not_gr0)
qed

lemma cp_fp_val:
  assumes "cp_pool r y f" "x \<le> MAX_ATOMS"
  shows "cp_fp r y f x = Inr (cp_val r y f x)"
proof -
  note b = cp_bounds [OF assms]
  let ?n = "y * x * f" and ?d = "cp_den r f x"
  have d: "0 < ?d" by (rule cp_den_pos [OF assms(1)])
  have q: "?n div ?d \<le> y" using b(8) d by (metis div_le_mono nonzero_mult_div_cancel_right not_gr0)
  have y: "y \<le> 10 ^ 14" using assms by (simp add: cp_pool_def MAX_ATOMS_def)
  have m: "?n mod ?d * SCALE < 2 ^ 128"
  proof -
    have "?n mod ?d < ?d" using d by simp
    then have "?n mod ?d \<le> 2 * 10 ^ 20" using b(5) by linarith
    then show ?thesis by (simp add: SCALE_def)
  qed
  have v: "?n div ?d * SCALE + ?n mod ?d * SCALE div ?d = cp_val r y f x"
    using div_mod_scaled [OF d, of ?n SCALE] by (simp add: cp_val_def mult.commute)
  have "cp_val r y f x \<le> SCALE * y" by (rule cp_val_le [OF assms])
  also have "\<dots> < 2 ^ 128" using y by (simp add: SCALE_def)
  finally have sum: "?n div ?d * SCALE + ?n mod ?d * SCALE div ?d < 2 ^ 128" by (simp add: v)
  then have w: "?n div ?d * SCALE < 2 ^ 128" by linarith
  have "y * x < 2 ^ 128" "?n < 2 ^ 128" "r * 1000000 < 2 ^ 128" "x * f < 2 ^ 128"
      "r * 1000000 + x * f < 2 ^ 128"
    using b(1-5) by (auto simp: cp_den_def)
  then show ?thesis using d m w sum v
    by (simp add: cp_fp_def mul_w_ok add_w_ok div_w_ok cp_den_def del: mult_pos_pos)
qed

lemma derivative_upper_tan:
  assumes "cp_pool r y f" "x \<le> MAX_ATOMS"
  shows "derivative_upper r y f x = Inr (cp_tan r y f x)"
proof -
  note b = cp_bounds [OF assms]
  let ?d = "cp_den r f x" and ?n = "y * f * SCALE"
  have d: "0 < ?d" by (rule cp_den_pos [OF assms(1)])
  let ?c = "cdiv ?n ?d"
  have dr: "r * 1000000 \<le> ?d" by (simp add: cp_den_def)
  have "?c * (r * 1000000) \<le> ?c * ?d" using dr by simp
  also have "\<dots> \<le> ?n + ?d" using cdiv_upper [OF d, of ?n] by (simp add: mult.commute)
  also have "\<dots> \<le> 10 ^ 20 * 2 ^ 32 + 2 * 10 ^ 20" using b(5,7) by linarith
  finally have c: "?c * r * 1000000 < 2 ^ 127" by (simp add: mult.assoc)
  have "?c * r \<le> ?c * r * 1000000" by simp
  then have "?c * r < 2 ^ 127" using c by (rule le_less_trans)
  then have cr: "?c * r < 2 ^ 128" by simp
  have "ceil_div ?n ?d = Inr ?c" using b(7) d unfolding cdiv_def by (intro ceil_div_ok) auto
  moreover have "ceil_div (?c * r * 1000000) ?d = Inr (cp_tan r y f x)"
    using c d unfolding cp_tan_def cdiv_def by (intro ceil_div_ok) auto
  moreover have "r * 1000000 < 2 ^ 128" "x * f < 2 ^ 128" "r * 1000000 + x * f < 2 ^ 128"
      "y * f < 2 ^ 128" "?n < 2 ^ 128"
    using b(3-7) by (auto simp: cp_den_def)
  ultimately show ?thesis using c cr
    by (simp add: derivative_upper_def mul_w_ok add_w_ok cp_den_def [symmetric])
qed

section \<open>Concavity\<close>

text \<open>A line under the envelope at both ends of an interval is under it inside.\<close>

lemma chord_under:
  fixes a b x s l K f g :: int
  assumes "a \<le> x" "x \<le> b" "a < b" "0 \<le> s" "0 \<le> f"
    and "l * (K + a * f) \<le> g * a" "(l + s * (b - a)) * (K + b * f) \<le> g * b"
  shows "(l + s * (x - a)) * (K + x * f) \<le> g * x"
proof -
  let ?q = "\<lambda>x. (l + s * (x - a)) * (K + x * f) - g * x"
  have "?q x * (b - a) = ?q a * (b - x) + ?q b * (x - a) - s * f * ((x - a) * (b - x)) * (b - a)"
    by algebra
  moreover have "?q a * (b - x) \<le> 0" "?q b * (x - a) \<le> 0"
    using assms by (auto intro!: mult_nonpos_nonneg)
  moreover have "0 \<le> s * f * ((x - a) * (b - x)) * (b - a)"
    using assms by (intro mult_nonneg_nonneg) auto
  ultimately have "?q x * (b - a) \<le> 0" by linarith
  then have "?q x \<le> 0" using assms(3) by (simp add: mult_le_0_iff)
  then show ?thesis by simp
qed

text \<open>The left tangent, rounded up, is over the envelope to its right.\<close>

lemma tangent_over:
  fixes a x K f g t v :: int
  assumes "a \<le> x" "0 \<le> a" "0 < K" "0 \<le> f" "0 \<le> t"
    and v: "g * a \<le> v * (K + a * f)" and t: "g * K \<le> t * (K + a * f) * (K + a * f)"
  shows "g * x \<le> (v + t * (x - a)) * (K + x * f)"
proof -
  let ?A = "K + a * f" and ?X = "K + x * f"
  have A: "0 < ?A" using assms by (intro add_pos_nonneg) auto
  have AX: "?A \<le> ?X" using assms(1,4) by (simp add: mult_right_mono)
  have "g * x * ?A = g * a * ?X + g * K * (x - a)" by algebra
  also have "\<dots> \<le> v * ?A * ?X + t * ?A * ?A * (x - a)"
    using v t A AX assms(1) by (intro add_mono mult_right_mono) auto
  also have "\<dots> \<le> v * ?A * ?X + t * ?A * ?X * (x - a)"
  proof -
    have "t * ?A * ?A \<le> t * ?A * ?X" using A AX assms(5) by (intro mult_left_mono) auto
    then have "t * ?A * ?A * (x - a) \<le> t * ?A * ?X * (x - a)" using assms(1) by (intro mult_right_mono) auto
    then show ?thesis by linarith
  qed
  also have "\<dots> = (v + t * (x - a)) * ?X * ?A" by algebra
  finally show ?thesis using A by simp
qed

lemma cp_val_iff:
  "cp_pool r y f \<Longrightarrow> l \<le> cp_val r y f x \<longleftrightarrow> l * cp_den r f x \<le> SCALE * y * f * x"
  unfolding cp_val_def using cp_den_pos [of r y f x]
  by (subst less_eq_div_iff_mult_less_eq) (auto simp: mult_ac)

lemma cp_val_over: "cp_pool r y f \<Longrightarrow> SCALE * y * f * x \<le> (cp_val r y f x + 1) * cp_den r f x"
  using cp_val_iff [of r y f "cp_val r y f x + 1" x] by linarith

lemma cp_tan_over:
  assumes "cp_pool r y f"
  shows "SCALE * y * f * (r * 1000000) \<le> cp_tan r y f a * cp_den r f a * cp_den r f a"
proof -
  let ?d = "cp_den r f a" and ?k = "r * 1000000"
  have d: "0 < ?d" by (rule cp_den_pos [OF assms])
  have "SCALE * y * f * ?k \<le> ?d * cdiv (y * f * SCALE) ?d * ?k"
    using cdiv_ge [OF d, of "y * f * SCALE"] by (intro mult_le_mono1) (simp add: mult_ac)
  also have "\<dots> = ?d * (cdiv (y * f * SCALE) ?d * r * 1000000)" by (simp add: mult_ac)
  also have "\<dots> \<le> ?d * (?d * cp_tan r y f a)"
    unfolding cp_tan_def by (intro mult_le_mono2 cdiv_ge d)
  finally show ?thesis by (simp add: mult_ac)
qed

lemmas int_of_nat_rules = cp_den_def of_nat_add [symmetric] of_nat_mult [symmetric] of_nat_le_iff

lemma chord_under_val:
  assumes p: "cp_pool r y f" and x: "a \<le> x" "x \<le> b" "a < b"
    and l: "l \<le> cp_val r y f a" "l + s * (b - a) \<le> cp_val r y f b"
  shows "l + s * (x - a) \<le> cp_val r y f x"
proof -
  have d: "int b - int a = int (b - a)" "int x - int a = int (x - a)" using x by auto
  have at_a: "int l * (int (r * 1000000) + int a * int f) \<le> int (SCALE * y * f) * int a"
    using l(1) unfolding cp_val_iff [OF p] by (simp only: int_of_nat_rules)
  have at_b: "(int l + int s * (int b - int a)) * (int (r * 1000000) + int b * int f)
      \<le> int (SCALE * y * f) * int b"
    using l(2) unfolding cp_val_iff [OF p] d by (simp only: int_of_nat_rules)
  have "(int l + int s * (int x - int a)) * (int (r * 1000000) + int x * int f)
      \<le> int (SCALE * y * f) * int x"
    by (rule chord_under [OF _ _ _ _ _ at_a at_b]) (use x in simp_all)
  then show ?thesis unfolding cp_val_iff [OF p] d by (simp only: int_of_nat_rules)
qed

lemma tangent_over_val:
  assumes p: "cp_pool r y f" and x: "a \<le> x"
  shows "SCALE * y * f * x \<le> (cp_val r y f a + 1 + cp_tan r y f a * (x - a)) * cp_den r f x"
proof -
  let ?v = "cp_val r y f a + 1" and ?t = "cp_tan r y f a"
  have d: "int x - int a = int (x - a)" using x by auto
  have val: "int (SCALE * y * f) * int a \<le> int ?v * (int (r * 1000000) + int a * int f)"
    using cp_val_over [OF p, of a] by (simp only: int_of_nat_rules)
  have tan: "int (SCALE * y * f) * int (r * 1000000)
      \<le> int ?t * (int (r * 1000000) + int a * int f) * (int (r * 1000000) + int a * int f)"
    using cp_tan_over [OF p, of a] by (simp only: int_of_nat_rules)
  have "int (SCALE * y * f) * int x
      \<le> (int ?v + int ?t * (int x - int a)) * (int (r * 1000000) + int x * int f)"
    by (rule tangent_over [OF _ _ _ _ _ val tan]) (use x p in \<open>simp_all add: cp_pool_def\<close>)
  then show ?thesis unfolding d by (simp only: int_of_nat_rules)
qed

lemma cp_val_mono: "cp_pool r y f \<Longrightarrow> a \<le> b \<Longrightarrow> cp_val r y f a \<le> cp_val r y f b"
proof (cases "a = b")
  case False
  assume p: "cp_pool r y f" and ab: "a \<le> b"
  let ?g = "SCALE * y * f" and ?l = "cp_val r y f a"
  have l: "?l * cp_den r f a \<le> ?g * a" using cp_val_iff [OF p, of ?l a] by simp
  show ?thesis
  proof (cases "a = 0")
    case True
    then show ?thesis by (simp add: cp_val_def)
  next
    case False
    have lf: "?l * (r * 1000000) \<le> (?g - ?l * f) * a"
      using l by (simp add: cp_den_def diff_mult_distrib algebra_simps)
    also have "\<dots> \<le> (?g - ?l * f) * b" using ab by simp
    finally have "?l * (r * 1000000) \<le> ?g * b - ?l * f * b" by (simp add: diff_mult_distrib)
    moreover have "?l * f * a \<le> ?l * cp_den r f a" by (simp add: cp_den_def distrib_left mult_ac)
    then have "?l * f * a \<le> ?g * a" using l by (rule le_trans)
    then have "?l * f \<le> ?g" using False by (metis mult_le_cancel2 gr0I)
    then have "?l * f * b \<le> ?g * b" by (rule mult_le_mono1)
    moreover have "?l * cp_den r f b = ?l * (r * 1000000) + ?l * f * b"
      by (simp add: cp_den_def distrib_left mult_ac)
    ultimately have "?l * cp_den r f b \<le> ?g * b" by linarith
    then show ?thesis using cp_val_iff [OF p, of ?l b] by (simp add: mult_ac)
  qed
qed simp

end
