(* ===== verification/Envelope.thy ===== *)
theory Envelope
  imports Chords Book
begin

text \<open>
  The chord compiler of constant-product venues: the interval list it maintains, the chords it emits
  and the two-sided error envelope of the compiled curve.
\<close>

section \<open>The interval list\<close>

text \<open>
  Boundaries increase strictly from \<open>0\<close> to the capacity; every boundary carries the Q32 value of the
  envelope and every left end of an interval its upper tangent.
\<close>

definition split_ok :: "nat \<Rightarrow> nat \<Rightarrow> nat \<Rightarrow> nat \<Rightarrow> split_state \<Rightarrow> bool" where
  "split_ok r y f cap st =
     (case st of (bs, vs, ts, gs) \<Rightarrow>
        length bs = Suc (length gs) \<and> length ts = length bs \<and> 0 < length gs \<and>
        sorted_wrt (<) bs \<and> hd bs = 0 \<and> last bs = cap \<and>
        vs = map (cp_val r y f) bs \<and> (\<forall>i < length gs. ts ! i = cp_tan r y f (bs ! i)))"

lemma pick_split_bounds:
  "pick_split bs gs i best m = (Inr (Some (j, w)), m') \<Longrightarrow>
     best = Some (j, w) \<or>
     (\<exists>k. j = i + k \<and> k < length gs \<and> Suc k < length bs \<and> bs ! k + 1 < bs ! Suc k)"
proof (induction bs gs i best arbitrary: m rule: pick_split.induct)
  case (1 a b bs g gs i best)
  let ?best = "\<lambda>w. if w \<le> 1 then best else case best of None \<Rightarrow> Some (i, g)
      | Some (j, worst) \<Rightarrow> if worst < g then Some (i, g) else best"
  from "1.prems" obtain m1
    where rec: "pick_split (b # bs) gs (Suc i) (?best (b - a)) m1 = (Inr (Some (j, w)), m')"
    by (auto simp: monad_simps)
  from "1.IH" [OF rec] consider "?best (b - a) = Some (j, w)"
    | k where "j = Suc i + k" "k < length gs" "Suc k < length (b # bs)" "(b # bs) ! k + 1 < (b # bs) ! Suc k"
    by blast
  then show ?case
  proof cases
    case 1
    then show ?thesis by (cases best) (auto split: if_splits intro!: exI [of _ 0])
  next
    case 2
    then show ?thesis by (intro disjI2 exI [of _ "Suc k"]) auto
  qed
qed auto

lemma insert_strict_sorted:
  assumes "sorted_wrt (<) bs" "Suc i < length bs" "bs ! i < mid" "mid < bs ! Suc i"
  shows "sorted_wrt (<) (insert_at (Suc i) mid (bs :: nat list))"
proof -
  have "a < mid" if "a \<in> set (take (Suc i) bs)" for a
  proof -
    from that obtain k where "k \<le> i" "a = bs ! k" using assms(2)
      by (auto simp: in_set_conv_nth less_Suc_eq_le)
    then show ?thesis using assms sorted_wrt_nth_less [OF assms(1), of k i] by (cases "k = i") auto
  qed
  moreover have "mid < b" if "b \<in> set (drop (Suc i) bs)" for b
  proof -
    from that obtain k where k: "b = bs ! (Suc i + k)" "Suc i + k < length bs" by (auto simp: in_set_conv_nth)
    then show ?thesis using assms sorted_wrt_nth_less [OF assms(1), of "Suc i" "Suc i + k"]
      by (cases k) auto
  qed
  moreover have "sorted_wrt (<) (take (Suc i) bs @ drop (Suc i) bs)" using assms(1) by simp
  ultimately show ?thesis unfolding insert_at_def sorted_wrt_append
    by (auto simp: sorted_wrt_append simp del: append_take_drop_id)
qed

lemma hd_last_insert_at:
  "i < length xs \<Longrightarrow> 0 < i \<Longrightarrow> hd (insert_at i v xs) = hd xs \<and> last (insert_at i v xs) = last xs"
  by (cases xs; cases i) (auto simp: insert_at_def last_drop)

lemma split_interval_ok:
  assumes st: "split_ok r y f cap (bs, vs, ts, gs)" and p: "cp_pool r y f" and cap: "cap \<le> MAX_ATOMS"
    and i: "i < length gs" "bs ! i + 1 < bs ! Suc i"
    and s: "split_interval r y f (bs, vs, ts, gs) i = Inr st'"
  shows "split_ok r y f cap st' \<and> length (snd (snd (snd st'))) = Suc (length gs)"
proof -
  let ?mid = "bs ! i + (bs ! Suc i - bs ! i) div 2"
  from st have l: "length bs = Suc (length gs)" "length ts = length bs" "sorted_wrt (<) bs" "hd bs = 0"
      "last bs = cap" "vs = map (cp_val r y f) bs" "\<forall>i < length gs. ts ! i = cp_tan r y f (bs ! i)"
    by (auto simp: split_ok_def)
  have mid: "bs ! i < ?mid" "?mid < bs ! Suc i" using i(2) by auto
  have "bs \<noteq> []" using l(1) by auto
  then have "bs ! length gs = cap" using l(1,5) by (simp add: last_conv_nth)
  then have "bs ! Suc i \<le> cap"
    using l(1) i(1) sorted_wrt_nth_less [OF l(3), of "Suc i" "length gs"]
    by (cases "Suc i = length gs") auto
  then have "?mid \<le> MAX_ATOMS" using mid cap by linarith
  then have v: "cp_fp r y f ?mid = Inr (cp_val r y f ?mid)"
      "derivative_upper r y f ?mid = Inr (cp_tan r y f ?mid)"
    using cp_fp_val [OF p] derivative_upper_tan [OF p] by auto
  from s v obtain g0 g1 where st': "st' = (insert_at (Suc i) ?mid bs, insert_at (Suc i) (cp_val r y f ?mid) vs,
      insert_at (Suc i) (cp_tan r y f ?mid) ts, insert_at (Suc i) g1 (gs[i := g0]))"
    by (auto simp: split_interval_def Let_def monad_simps)
  have "insert_at (Suc i) (cp_tan r y f ?mid) ts ! j = cp_tan r y f (insert_at (Suc i) ?mid bs ! j)"
    if "j < Suc (length gs)" for j
    using that l i(1) by (auto simp: nth_insert_at)
  then show ?thesis using l i(1) insert_strict_sorted [OF l(3) _ mid] hd_last_insert_at [of "Suc i" bs ?mid]
    by (auto simp: st' split_ok_def map_insert_at)
qed

lemma split_loop_ok:
  assumes "split_loop k r y f st m = (Inr st', m')" "split_ok r y f cap st" "cp_pool r y f" "cap \<le> MAX_ATOMS"
  shows "split_ok r y f cap st' \<and> length (snd (snd (snd st'))) \<le> length (snd (snd (snd st))) + k"
  using assms(1,2)
proof (induction k arbitrary: st m)
  case (Suc k)
  obtain bs vs ts gs where st: "st = (bs, vs, ts, gs)" by (cases st) auto
  from Suc.prems(1) obtain best m1 where pick: "pick_split bs gs 0 None m = (Inr best, m1)"
    and rest: "(case best of None \<Rightarrow> ret st | Some (i, _) \<Rightarrow>
        bindS (liftR (split_interval r y f st i)) (split_loop k r y f)) m1 = (Inr st', m')"
    unfolding st split_loop.simps prod.case by (auto simp only: bindS_Inr)
  show ?case
  proof (cases best)
    case None
    with rest Suc.prems(2) show ?thesis by simp
  next
    case (Some iw)
    then obtain i w where best: "best = Some (i, w)" by (cases iw) auto
    with pick_split_bounds [of bs gs 0 None m i w m1] pick
    have i: "i < length gs" "bs ! i + 1 < bs ! Suc i" by auto
    from rest best obtain st1 where s: "split_interval r y f st i = Inr st1"
      and l: "split_loop k r y f st1 m1 = (Inr st', m')" by (auto simp: monad_simps)
    have "split_ok r y f cap st1 \<and> length (snd (snd (snd st1))) = Suc (length gs)"
      using split_interval_ok [OF _ assms(3,4) i] Suc.prems(2) s unfolding st by blast
    with Suc.IH [OF l] show ?thesis by (auto simp: st)
  qed
qed auto

section \<open>The chords\<close>

text \<open>
  The chords from the first boundary on: their total width, their shape, and the two envelopes
  relative to the area already accumulated.
\<close>

lemma chord_step_Inr:
  assumes "chord_step a b fa fb t area err prev = Inr (w, slope, e, area')"
  shows "a < b" "fa \<le> fb" "area \<le> fa + 1" "w = b - a" "slope = min ((fb - fa) div w) prev"
    "e = max err (fa + 1 - area + (t - slope) * w)" "area' = area + slope * w"
proof -
  from assms obtain rise q q64 fa1 base over tg rect where
    step: "sub_w b a = Inr w" "sub_w fb fa = Inr rise" "div_w rise w = Inr q" "as_u64 q = Inr q64"
      "slope = min q64 prev" "add_w 128 fa 1 = Inr fa1" "sub_w fa1 area = Inr base"
      "mul_w 128 (t - slope) w = Inr over" "add_w 128 base over = Inr tg" "mul_w 128 slope w = Inr rect"
      "add_w 128 area rect = Inr area'" "e = max err tg"
    unfolding chord_step_def Let_def by (auto simp only: bindR_Inr prod.inject sum.inject)
  from step(1,3) show w: "w = b - a" "a < b" by (auto simp: sub_w_Inr div_w_Inr)
  from step(2) show "fa \<le> fb" by (simp add: sub_w_Inr)
  from step(2-5) show "slope = min ((fb - fa) div w) prev" by (simp add: sub_w_Inr div_w_Inr as_u64_Inr)
  from step(6,7) show "area \<le> fa + 1" by (simp add: sub_w_Inr add_w_Inr)
  from step(6-9,12) show "e = max err (fa + 1 - area + (t - slope) * w)"
    by (simp only: sub_w_Inr add_w_Inr mul_w_Inr)
  from step(10,11) show "area' = area + slope * w" by (simp only: add_w_Inr mul_w_Inr)
qed

lemma chords_Cons:
  assumes "chords (a # b # bs) (fa # fb # vs) (t # ts) area err prev m = (Inr (segs, err'), m')"
  obtains slope e area' segs' m1 where
    "chords (b # bs) (fb # vs) ts area' e slope m1 = (Inr (segs', err'), m')"
    "segs = \<lparr>input_capacity = b - a, marginal_q32 = slope\<rparr> # segs'"
    "a < b" "fa \<le> fb" "area \<le> fa + 1" "slope = min ((fb - fa) div (b - a)) prev"
    "e = max err (fa + 1 - area + (t - slope) * (b - a))" "area' = area + slope * (b - a)"
proof -
  from assms obtain w slope e area' segs' m1 where
    s: "chord_step a b fa fb t area err prev = Inr (w, slope, e, area')"
    and rec: "chords (b # bs) (fb # vs) ts area' e slope m1 = (Inr (segs', err'), m')"
    and segs: "segs = \<lparr>input_capacity = w, marginal_q32 = slope\<rparr> # segs'"
    by (auto simp: monad_simps)
  note st = chord_step_Inr [OF s]
  show thesis
    by (rule that [OF rec segs [unfolded st(4)] st(1-3) st(5,6) [unfolded st(4)] st(7) [unfolded st(4)]])
qed

lemma chords_shape:
  assumes "chords bs vs ts area err prev m = (Inr (segs, err'), m')" "sorted_wrt (<) bs"
    "length vs = length bs" "length bs \<le> Suc (length ts)" "bs \<noteq> []"
  shows "Suc (length segs) = length bs \<and> total segs = last bs - hd bs \<and> err \<le> err' \<and>
    (\<forall>s \<in> set segs. 0 < input_capacity s \<and> marginal_q32 s \<le> prev) \<and>
    sorted_wrt (\<ge>) (map marginal_q32 segs)"
  using assms
proof (induction bs vs ts area err prev arbitrary: m segs m' rule: chords.induct)
  case (1 a b bs fa fb vs t ts area err prev)
  from "1.prems"(1) obtain slope e area' segs' m1 where
    rec: "chords (b # bs) (fb # vs) ts area' e slope m1 = (Inr (segs', err'), m')"
    and s: "segs = \<lparr>input_capacity = b - a, marginal_q32 = slope\<rparr> # segs'" and ab: "a < b"
    and slope: "slope = min ((fb - fa) div (b - a)) prev"
    and e: "e = max err (fa + 1 - area + (t - slope) * (b - a))"
    by (rule chords_Cons)
  have e: "err \<le> e" "slope \<le> prev" using e slope by auto
  have "\<forall>x \<in> set bs. b < x" using "1.prems"(2) by auto
  then have "b \<le> last (b # bs)" by (cases "bs = []") (auto dest: last_in_set intro: less_imp_le)
  moreover have "Suc (length segs') = length (b # bs) \<and> total segs' = last (b # bs) - b \<and> e \<le> err' \<and>
    (\<forall>s \<in> set segs'. 0 < input_capacity s \<and> marginal_q32 s \<le> slope) \<and>
    sorted_wrt (\<ge>) (map marginal_q32 segs')"
    using "1.IH" [OF rec] "1.prems"(2-4) by simp
  ultimately show ?case using e ab by (auto simp: s)
qed (auto simp: neq_Nil_conv)

lemma chords_envelope:
  assumes "chords bs vs ts area err prev m = (Inr (segs, err'), m')" "sorted_wrt (<) bs"
    "vs = map (cp_val r y f) bs" "\<forall>i < length bs - 1. ts ! i = cp_tan r y f (bs ! i)"
    "length bs \<le> Suc (length ts)" "bs \<noteq> []" "area \<le> cp_val r y f (hd bs)" and p: "cp_pool r y f"
    and "hd bs \<le> x" "x \<le> last bs"
  shows "area + integral segs (x - hd bs) \<le> cp_val r y f x \<and>
    (Suc 0 < length bs \<longrightarrow>
       SCALE * y * f * x \<le> (area + integral segs (x - hd bs) + err') * cp_den r f x)"
  using assms(1-7,9,10)
proof (induction bs vs ts area err prev arbitrary: m segs m' rule: chords.induct)
  case (1 a b bs fa fb vs t ts area err prev)
  note fa = "1.prems"(3)
  from "1.prems"(1) obtain slope e area' segs' m1 where
    rec: "chords (b # bs) (fb # vs) ts area' e slope m1 = (Inr (segs', err'), m')"
    and s: "segs = \<lparr>input_capacity = b - a, marginal_q32 = slope\<rparr> # segs'"
    and ab: "a < b" and f: "fa \<le> fb" and slope: "slope = min ((fb - fa) div (b - a)) prev"
    and e: "e = max err (fa + 1 - area + (t - slope) * (b - a))"
    and area': "area' = area + slope * (b - a)"
    by (rule chords_Cons)
  have vals: "fa = cp_val r y f a" "fb = cp_val r y f b" "t = cp_tan r y f a"
    using "1.prems"(3,4) by auto
  have area: "area \<le> fa" using "1.prems"(7) vals by simp
  have "slope * (b - a) \<le> fb - fa"
    using slope by (metis div_times_less_eq_dividend le_trans min.cobounded1 mult_le_mono1)
  then have area'_le: "area' \<le> fb" using area f area' by linarith
  have e_err: "e \<le> err'"
    using chords_shape [OF rec] "1.prems"(2,3,5) by simp
  have IH: "b \<le> x \<Longrightarrow> area' + integral segs' (x - b) \<le> cp_val r y f x \<and>
      (Suc 0 < length (b # bs) \<longrightarrow> SCALE * y * f * x \<le> (area' + integral segs' (x - b) + err') * cp_den r f x)"
    using "1.IH" [OF rec] "1.prems"(2-5,9) area'_le vals by fastforce
  show ?case
  proof (cases "x \<le> b")
    case True
    have i: "integral segs (x - a) = slope * (x - a)"
      using True by (simp add: s mult.commute diff_le_mono)
    have "area + slope * (x - a) \<le> cp_val r y f x"
      using chord_under_val [OF p _ True ab] "1.prems"(8) area area'_le vals area' by simp
    moreover have "SCALE * y * f * x \<le> (area + slope * (x - a) + err') * cp_den r f x"
    proof -
      have "t * (x - a) \<le> slope * (x - a) + (t - slope) * (x - a)"
        by (cases "slope \<le> t") (auto simp: add_mult_distrib [symmetric])
      also have "\<dots> \<le> slope * (x - a) + (t - slope) * (b - a)"
        using True by (intro add_left_mono mult_le_mono2 diff_le_mono)
      finally have "fa + 1 + t * (x - a) \<le> area + slope * (x - a) + err'"
        using e e_err area by linarith
      then have "(fa + 1 + t * (x - a)) * cp_den r f x \<le> (area + slope * (x - a) + err') * cp_den r f x"
        by (rule mult_le_mono1)
      then show ?thesis using tangent_over_val [OF p, of a x] "1.prems"(8) vals by simp
    qed
    ultimately show ?thesis using i by simp
  next
    case False
    then have "x - a - (b - a) = x - b" using ab by simp
    with False have "integral segs (x - a) = slope * (b - a) + integral segs' (x - b)"
      by (simp only: s integral.simps segment.simps) (simp add: mult.commute)
    moreover have "bs \<noteq> []" using False "1.prems"(9) by auto
    ultimately show ?thesis using IH False by (simp add: area' add.assoc)
  qed
qed (auto simp: neq_Nil_conv)

section \<open>The compiled curve\<close>

lemma validate_cp_Inr:
  "validate_cp r y fee = Inr u \<longleftrightarrow> fee < 1000000 \<and> cp_pool r y (1000000 - fee)"
  by (auto simp: validate_cp_def cp_pool_def)

lemma compile_cp_Inr:
  assumes c: "compile_cp r y fee cap m = (Inr c, m')" and cap: "0 < cap" "cap \<le> MAX_ATOMS"
  defines "f \<equiv> 1000000 - fee"
  shows "fee < 1000000" "cp_pool r y f" "valid_curve c" "cv_capacity c = cap"
    "lower_error_atoms c = cdiv y r + 1"
    "x \<le> cap \<Longrightarrow> integral (bands c) x \<le> cp_val r y f x"
    "x \<le> cap \<Longrightarrow>
       SCALE * y * f * x \<le> (integral (bands c) x + SCALE * upper_error_atoms c) * cp_den r f x"
    "length (segments c) = MAX_SEGMENTS"
proof -
  from c obtain d0 v1 slope g0 bs vs ts gs m1 segs err m2 upper where
    v: "validate_cp r y fee = Inr ()" and d0: "derivative_upper r y f 0 = Inr d0"
    and v1: "cp_fp r y f cap = Inr v1" and g0: "mul_w 128 (d0 - slope) cap = Inr g0"
    and sp: "split_loop (MAX_SEGMENTS - 1) r y f ([0, cap], [0, v1], [d0, 0], [g0]) m = (Inr (bs, vs, ts, gs), m1)"
    and ch: "chords bs vs ts 0 0 MAX_RATE m1 = (Inr (segs, err), m2)"
    and up: "ceil_div err SCALE = Inr upper" and q: "ceil_div y r = Inr (lower_error_atoms c - 1)"
    and lo: "0 < lower_error_atoms c" "upper_error_atoms c = upper" and val: "validate c = Inr ()"
    and cs: "segments c = pad_segments segs" "cv_len c = length gs" "cv_capacity c = cap"
    unfolding compile_cp_def f_def
    by (auto simp: bindS_Inr bindR_Inr sub_w_Inr add_w_Inr as_u64_Inr Let_def split: if_splits prod.splits)
  show fee: "fee < 1000000" and p: "cp_pool r y f" using v by (auto simp: validate_cp_Inr f_def)
  show valid: "valid_curve c" using val by (simp add: validate_valid)
  show "cv_capacity c = cap" by (rule cs)
  have "lower_error_atoms c - 1 = cdiv y r"
    using q p by (auto simp: ceil_div_def cdiv_def add_w_Inr cp_pool_def)
  then show "lower_error_atoms c = cdiv y r + 1" using lo by linarith
  have "split_ok r y f cap ([0, cap], [0, v1], [d0, 0], [g0])"
    using d0 v1 cp_fp_val [OF p cap(2)] derivative_upper_tan [OF p, of 0] cap
    by (simp add: split_ok_def cp_val_def)
  from split_loop_ok [OF sp this p cap(2)]
  have st: "split_ok r y f cap (bs, vs, ts, gs)" by simp
  then have b: "length bs = Suc (length gs)" "length ts = length bs" "sorted_wrt (<) bs" "hd bs = 0"
      "last bs = cap" "vs = map (cp_val r y f) bs" "\<forall>i < length bs - 1. ts ! i = cp_tan r y f (bs ! i)"
      "bs \<noteq> []" "Suc 0 < length bs"
    by (auto simp: split_ok_def)
  have len: "length segs = length gs" using chords_shape [OF ch b(3)] b by simp
  moreover have "length gs \<le> MAX_SEGMENTS" using valid cs by (simp add: valid_curve_def)
  ultimately have bands: "bands c = segs" and "length (segments c) = MAX_SEGMENTS"
    using bands_padded [of segs] by (simp_all add: cs pad_segments_def)
  then show "length (segments c) = MAX_SEGMENTS" by blast
  note env = chords_envelope [OF ch b(3,6,7) _ b(8) _ p, of x]
  show "integral (bands c) x \<le> cp_val r y f x" if "x \<le> cap"
    using env that b by (simp add: bands)
  show "SCALE * y * f * x \<le> (integral (bands c) x + SCALE * upper_error_atoms c) * cp_den r f x"
    if "x \<le> cap"
  proof -
    have "SCALE * y * f * x \<le> (integral segs x + err) * cp_den r f x" using env that b by simp
    also have "err \<le> SCALE * upper" by (rule ceil_div_ge [OF up])
    then have "(integral segs x + err) * cp_den r f x \<le> (integral segs x + SCALE * upper) * cp_den r f x"
      by (intro mult_le_mono1) simp
    finally show ?thesis by (simp add: bands lo)
  qed
qed

text \<open>The venue's own integer quote against the continuous envelope.\<close>

definition cp_exact :: "nat \<Rightarrow> nat \<Rightarrow> nat \<Rightarrow> nat \<Rightarrow> nat" where
  "cp_exact r y f x = y * (x * f div 1000000) div (r + x * f div 1000000)"

lemma cp_exact_upper:
  assumes "cp_pool r y f"
  shows "cp_exact r y f x * cp_den r f x \<le> y * f * x"
proof -
  let ?net = "x * f div 1000000" and ?e = "cp_exact r y f x"
  have "?e * (r + ?net) \<le> y * ?net" unfolding cp_exact_def by (rule div_times_less_eq_dividend)
  then have er: "?e * r \<le> (y - ?e) * ?net" by (simp add: diff_mult_distrib distrib_left)
  have "?e \<le> y"
  proof -
    have "?e * (r + ?net) \<le> y * (r + ?net)"
      using \<open>?e * (r + ?net) \<le> y * ?net\<close> by (rule order_trans) simp
    then show ?thesis using assms by (simp add: cp_pool_def)
  qed
  have "?e * (r * 1000000) \<le> (y - ?e) * (?net * 1000000)"
    using mult_le_mono1 [OF er, of 1000000] by (simp add: mult.assoc)
  also have "\<dots> \<le> (y - ?e) * (x * f)" by (intro mult_le_mono2) simp
  also have "\<dots> = y * (x * f) - ?e * (x * f)" by (rule diff_mult_distrib)
  finally have "?e * (r * 1000000) \<le> y * (x * f) - ?e * (x * f)" .
  moreover have "?e * (x * f) \<le> y * (x * f)" using \<open>?e \<le> y\<close> by (rule mult_le_mono1)
  ultimately have "?e * (r * 1000000) + ?e * (x * f) \<le> y * (x * f)" by linarith
  then show ?thesis by (simp add: cp_den_def distrib_left mult_ac)
qed

lemma cp_exact_lower:
  assumes p: "cp_pool r y f" and q: "q * cp_den r f x \<le> y * f * x"
  shows "q \<le> cp_exact r y f x + cdiv y r"
proof (rule ccontr)
  let ?net = "x * f div 1000000" and ?rho = "x * f mod 1000000" and ?e = "cp_exact r y f x"
  let ?c = "cdiv y r" and ?R = "r + ?net" and ?d = "cp_den r f x"
  assume "\<not> q \<le> ?e + ?c"
  then have "(?e + 1 + ?c) * ?d \<le> q * ?d" by (intro mult_le_mono1) simp
  then have "(?e + 1 + ?c) * ?d \<le> y * (x * f)" using q by (simp add: mult_ac)
  then have 1: "(?e + 1 + ?c) * ?d * ?R \<le> y * (x * f) * ?R" by (rule mult_le_mono1)
  have r: "0 < r" using p by (simp add: cp_pool_def)
  have xf: "x * f = 1000000 * ?net + ?rho" by simp
  have d: "?d = 1000000 * ?R + ?rho" using xf by (simp add: cp_den_def)
  have e: "x * f * ?R = ?net * ?d + ?rho * r"
    unfolding d by (subst xf) (simp only: distrib_left distrib_right mult_ac)
  have "y * (x * f) * ?R = y * (x * f * ?R)" by (simp only: mult.assoc)
  also have "\<dots> = y * ?net * ?d + y * ?rho * r" unfolding e by (simp only: distrib_left mult.assoc)
  finally have 2: "y * (x * f) * ?R = y * ?net * ?d + y * ?rho * r" .
  have "y * ?net < (?e + 1) * ?R"
    unfolding cp_exact_def using r by (metis Suc_eq_plus1 add_gr_0 dividend_less_times_div mult.commute mult_Suc_right add.commute)
  then have 3: "y * ?net * ?d \<le> (?e + 1) * ?R * ?d" by (intro mult_le_mono1) simp
  have "(?e + 1 + ?c) * ?d * ?R = (?e + 1) * ?d * ?R + ?c * ?d * ?R" by (simp only: distrib_right [of _ ?c] distrib_right [of _ "?c * ?d"])
  also have "\<dots> = (?e + 1) * ?R * ?d + ?c * (?d * ?R)" by (simp only: mult_ac)
  finally have "(?e + 1 + ?c) * ?d * ?R = (?e + 1) * ?R * ?d + ?c * (?d * ?R)" .
  with 1 2 3 have 4: "?c * (?d * ?R) \<le> y * ?rho * r" by linarith
  have "y \<le> ?c * r" using cdiv_ge [OF r, of y] by (simp add: mult.commute)
  then have "y * ?rho * r \<le> ?c * r * ?rho * r" by (intro mult_le_mono1)
  with 4 have "?c * (?d * ?R) \<le> ?c * r * ?rho * r" by (rule le_trans)
  then have "?c * (?d * ?R) \<le> ?c * (r * ?rho * r)" by (simp only: mult.assoc)
  moreover have "0 < ?c" using \<open>y \<le> ?c * r\<close> p by (auto simp: cp_pool_def intro: gr0I)
  ultimately have 5: "?d * ?R \<le> r * ?rho * r" by simp
  have "r * ?rho < r * 1000000" using r by simp
  also have "\<dots> \<le> ?d" by (simp add: cp_den_def)
  finally have "r * ?rho * r < ?d * r" using r by simp
  also have "\<dots> \<le> ?d * ?R" by simp
  finally show False using 5 by simp
qed

lemma exact_quote_cp:
  assumes "sn_model s = ConstantProduct r y fee" "fee < 1000000" "cp_pool r y (1000000 - fee)"
    "x \<le> sn_capacity s" "x \<le> MAX_ATOMS"
  shows "exact_quote s x = Inr (cp_exact r y (1000000 - fee) x)"
proof -
  let ?f = "1000000 - fee"
  let ?net = "x * ?f div 1000000"
  have b: "r \<le> 10 ^ 14" "y \<le> 10 ^ 14" "x \<le> 10 ^ 14" "0 < r"
    using assms by (auto simp: cp_pool_def MAX_ATOMS_def)
  have xf: "x * ?f \<le> 10 ^ 20" using cp_bounds(4) [OF assms(3,5)] .
  have "x * ?f \<le> x * 1000000" by simp
  then have "x * ?f div 1000000 \<le> x * 1000000 div 1000000" by (rule div_le_mono)
  then have net: "?net \<le> x" by simp
  have yn: "y * ?net \<le> 10 ^ 28" using mult_le_mono [OF b(2) le_trans [OF net b(3)]] by simp
  have "cp_exact r y ?f x * cp_den r ?f x \<le> y * cp_den r ?f x"
    using cp_exact_upper [OF assms(3), of x] by (simp add: cp_den_def distrib_left mult_ac)
  then have "cp_exact r y ?f x \<le> y" using cp_den_pos [OF assms(3)] by simp
  then have "as_u64 (y * ?net div (r + ?net)) = Inr (cp_exact r y ?f x)"
    using b(2) by (simp add: as_u64_def cp_exact_def)
  moreover have "validate_cp r y fee = Inr ()" using assms(2,3) by (simp add: validate_cp_Inr)
  moreover have "x * ?f < 2 ^ 128" "y * ?net < 2 ^ 128" "r + ?net < 2 ^ 128"
    using xf yn b net by auto
  ultimately show ?thesis using assms b(4)
    by (simp add: exact_quote_def Let_def sub_w_ok mul_w_ok add_w_ok div_w_ok)
qed

lemma compile_cp_model:
  assumes "compile s h m = (Inr c, m')" "sn_model s = ConstantProduct r y fee"
  shows "compile_cp r y fee (min (sn_capacity s) h) m = (Inr c, m')"
  using assms by (auto simp: compile_def Let_def split: if_splits)

lemma cp_bracket:
  assumes "compile s h m = (Inr c, m')" "sn_model s = ConstantProduct r y fee"
    "x \<le> min (sn_capacity s) h"
  shows "\<exists>q e l. quote c x = Inr q \<and> exact_quote s x = Inr e \<and> lower_quote c x = Inr l \<and>
    e \<le> q + upper_error_atoms c \<and> l \<le> e"
proof -
  let ?f = "1000000 - fee" and ?I = "integral (bands c) x"
  note g = compile_guards [OF assms(1)]
  have cap: "0 < min (sn_capacity s) h" "min (sn_capacity s) h \<le> MAX_ATOMS" using g by auto
  note b = compile_cp_Inr [OF compile_cp_model [OF assms(1,2)] cap]
  let ?e = "cp_exact r y ?f x" and ?q = "?I div SCALE"
  have d: "0 < cp_den r ?f x" by (rule cp_den_pos [OF b(2)])
  have e: "exact_quote s x = Inr ?e" using assms(2,3) b(1,2) cap by (intro exact_quote_cp) auto
  have q: "quote c x = Inr ?q" "lower_quote c x = Inr (?q - lower_error_atoms c)"
    using b(3,4) assms(3) by (simp_all add: quote_valid lower_quote_valid)
  have "SCALE * ?e * cp_den r ?f x \<le> SCALE * (y * ?f * x)"
    using mult_le_mono2 [OF cp_exact_upper [OF b(2), of x], of SCALE] by (simp only: mult.assoc)
  also have "\<dots> \<le> (?I + SCALE * upper_error_atoms c) * cp_den r ?f x"
    using b(7) [OF assms(3)] by (simp only: mult.assoc)
  finally have "SCALE * ?e \<le> ?I + SCALE * upper_error_atoms c" using d by simp
  then have "SCALE * ?e div SCALE \<le> (?I + SCALE * upper_error_atoms c) div SCALE" by (rule div_le_mono)
  then have upper: "?e \<le> ?q + upper_error_atoms c" by simp
  have "?q * SCALE \<le> cp_val r y ?f x"
    using b(6) [OF assms(3)] div_times_less_eq_dividend [of ?I SCALE] by (rule order_trans [rotated])
  then have "?q * SCALE * cp_den r ?f x \<le> SCALE * y * ?f * x" by (simp only: cp_val_iff [OF b(2)])
  then have "SCALE * (?q * cp_den r ?f x) \<le> SCALE * (y * ?f * x)" by (simp only: mult_ac)
  then have "?q * cp_den r ?f x \<le> y * ?f * x" by simp
  then have "?q \<le> ?e + cdiv y r" by (rule cp_exact_lower [OF b(2)])
  then have "?q - lower_error_atoms c \<le> ?e" using b(5) by simp
  with upper q e show ?thesis by blast
qed

lemma compile_cp_capacity:
  assumes "compile s h m = (Inr c, m')" "sn_model s = ConstantProduct r y fee"
  shows "cv_capacity c = min (sn_capacity s) h"
proof -
  note g = compile_guards [OF assms(1)]
  have "0 < min (sn_capacity s) h" "min (sn_capacity s) h \<le> MAX_ATOMS" using g by auto
  from compile_cp_Inr(4) [OF compile_cp_model [OF assms] this] show ?thesis .
qed

text \<open>
  \<^bold>\<open>C2.\<close> The two-sided envelope of a compiled constant-product pool: for every input up to the
  compiled capacity the curve quotes \<open>q\<close> and the pool pays exactly \<open>e\<close>, with
  \<open>e \<le> q + upper_error_atoms\<close> and \<open>lower_quote \<le> e\<close>. These are the two contracts written on the fields
  of \<open>Curve\<close>.
\<close>

theorem cp_compile_envelope:
  assumes "compile s h m = (Inr c, m')" "sn_model s = ConstantProduct r y fee"
    "x \<le> min (sn_capacity s) h"
  shows "\<exists>q e l. quote c x = Inr q \<and> exact_quote s x = Inr e \<and> lower_quote c x = Inr l \<and>
    e \<le> q + upper_error_atoms c \<and> l \<le> e"
  by (rule cp_bracket [OF assms])

text \<open>A 25 bp pool compiled for a horizon of two atoms.\<close>

definition demo_pool :: snapshot where
  "demo_pool =
     \<lparr>market = 9, program = 201, input_mint = 1, output_mint = 2, liquidity_id = 9,
      writable_resources = 2, sn_slot = 10, generation = 1, expires_at_slot = 110,
      sn_capacity = 1000, atomic = True, enabled = True,
      sn_model = ConstantProduct 50000 80000 2500\<rparr>"

lemma demo_pool_compiles: "\<exists>c m'. compile demo_pool 2 (meter_new 1000) = (Inr c, m')"
proof -
  have e: "compile demo_pool 2 (meter_new 1000) = compile_cp 50000 80000 2500 2 (meter_new 1000)"
    by (simp add: compile_def demo_pool_def MAX_ATOMS_def)
  have "isl (fst (compile_cp 50000 80000 2500 2 (meter_new 1000))) = False" by code_simp
  then show ?thesis unfolding e
    by (cases "compile_cp 50000 80000 2500 2 (meter_new 1000)";
        cases "fst (compile_cp 50000 80000 2500 2 (meter_new 1000))") auto
qed

lemma cp_compile_envelope_witness:
  "\<exists>c m'. compile demo_pool 2 (meter_new 1000) = (Inr c, m') \<and>
     (\<exists>q e l. quote c 2 = Inr q \<and> exact_quote demo_pool 2 = Inr e \<and> lower_quote c 2 = Inr l \<and>
        e \<le> q + upper_error_atoms c \<and> l \<le> e)"
proof -
  obtain c m' where c: "compile demo_pool 2 (meter_new 1000) = (Inr c, m')"
    using demo_pool_compiles by blast
  show ?thesis
    using cp_compile_envelope [OF c, of 50000 80000 2500 2] c by (simp add: demo_pool_def)
qed

end
