(* ===== verification/Greedy.thy ===== *)
theory Greedy
  imports Curve
begin

text \<open>
  The merged marginal order. Both allocators repeatedly take the best remaining band over a set of
  venues, the lower venue index winning ties. \<open>merged\<close> is that order as a list of (venue, band)
  pairs; it is what the allocators are proved to follow. Deleting a venue from the set deletes its
  pairs from the list and changes nothing else, which is why one tape serves every subset.

  A \<open>u8\<close> mask is a natural number read through \<open>bit\<close>.
\<close>

section \<open>Choosing the best frontier band\<close>

definition head_rate :: "curve list \<Rightarrow> (nat \<Rightarrow> nat) \<Rightarrow> nat \<Rightarrow> nat" where
  "head_rate cs cur i = marginal_q32 (segments (cs ! i) ! cur i)"

definition active :: "curve list \<Rightarrow> nat \<Rightarrow> (nat \<Rightarrow> nat) \<Rightarrow> nat \<Rightarrow> bool" where
  "active cs sel cur i \<longleftrightarrow> i < length cs \<and> bit sel i \<and> cur i < cv_len (cs ! i)"

definition better :: "(nat \<Rightarrow> nat) \<Rightarrow> nat option \<Rightarrow> nat \<Rightarrow> nat option" where
  "better rate best i =
     (case best of None \<Rightarrow> Some i | Some j \<Rightarrow> if rate j < rate i then Some i else best)"

fun leftmost_max :: "(nat \<Rightarrow> bool) \<Rightarrow> (nat \<Rightarrow> nat) \<Rightarrow> nat list \<Rightarrow> nat option \<Rightarrow> nat option" where
  "leftmost_max av rate [] best = best"
| "leftmost_max av rate (i # is) best =
     leftmost_max av rate is (if av i then better rate best i else best)"

text \<open>The choice, as a property: best rate, then lowest index.\<close>

definition is_best :: "(nat \<Rightarrow> bool) \<Rightarrow> (nat \<Rightarrow> nat) \<Rightarrow> nat \<Rightarrow> bool" where
  "is_best av rate i \<longleftrightarrow> av i \<and> (\<forall>j. av j \<longrightarrow> rate j \<le> rate i \<and> (rate j = rate i \<longrightarrow> i \<le> j))"

lemma is_best_unique: "is_best av rate i \<Longrightarrow> is_best av rate j \<Longrightarrow> i = j"
  unfolding is_best_def by (auto intro: le_antisym)

lemma leftmost_max_spec:
  assumes "best = None \<longrightarrow> (\<forall>j < k. \<not> av j)"
    and "\<forall>b. best = Some b \<longrightarrow> is_best (\<lambda>j. j < k \<and> av j) rate b"
    and "k \<le> n"
  shows "case leftmost_max av rate [k..<n] best of
      None \<Rightarrow> \<forall>j < n. \<not> av j | Some i \<Rightarrow> is_best (\<lambda>j. j < n \<and> av j) rate i"
  using assms
proof (induction "n - k" arbitrary: k best)
  case 0
  then show ?case by (auto split: option.splits)
next
  case (Suc d)
  then have k: "[k..<n] = k # [Suc k..<n]" by (simp add: upt_conv_Cons)
  let ?best = "if av k then better rate best k else best"
  have "?best = None \<longrightarrow> (\<forall>j < Suc k. \<not> av j)"
    using Suc.prems(1) by (auto simp: better_def less_Suc_eq split: option.splits if_splits)
  moreover have "\<forall>b. ?best = Some b \<longrightarrow> is_best (\<lambda>j. j < Suc k \<and> av j) rate b"
  proof (cases best)
    case None
    then show ?thesis using Suc.prems(1) by (auto simp: better_def is_best_def less_Suc_eq split: if_splits)
  next
    case (Some b)
    then have b: "b < k" "av b" "\<And>j. j < k \<Longrightarrow> av j \<Longrightarrow> rate j \<le> rate b"
        "\<And>j. j < k \<Longrightarrow> av j \<Longrightarrow> rate j = rate b \<Longrightarrow> b \<le> j"
      using Suc.prems(2) by (auto simp: is_best_def)
    show ?thesis
    proof (cases "av k \<and> rate b < rate k")
      case True
      then have "rate j < rate k" if "j < k" "av j" for j using b(3) [OF that] by linarith
      then show ?thesis using True Some by (force simp: better_def is_best_def less_Suc_eq)
    next
      case False
      then have "?best = Some b" using Some by (auto simp: better_def)
      moreover have "rate k \<le> rate b" if "av k" using False that by simp
      ultimately show ?thesis using b by (auto simp: is_best_def less_Suc_eq)
    qed
  qed
  moreover have "d = n - Suc k" "Suc k \<le> n" using Suc.hyps(2) Suc.prems(3) by linarith+
  ultimately show ?case unfolding k leftmost_max.simps by (intro Suc.hyps(1))
qed

definition pick_edge :: "curve list \<Rightarrow> nat \<Rightarrow> (nat \<Rightarrow> nat) \<Rightarrow> nat option" where
  "pick_edge cs sel cur =
     leftmost_max (active cs sel cur) (head_rate cs cur) [0..<length cs] None"

lemma pick_edge_None: "pick_edge cs sel cur = None \<longleftrightarrow> (\<forall>i. \<not> active cs sel cur i)"
  and pick_edge_Some:
    "pick_edge cs sel cur = Some i \<longleftrightarrow> is_best (active cs sel cur) (head_rate cs cur) i"
proof -
  have a: "(\<lambda>j. j < length cs \<and> active cs sel cur j) = active cs sel cur"
    by (auto simp: active_def)
  have spec: "case pick_edge cs sel cur of None \<Rightarrow> \<forall>j < length cs. \<not> active cs sel cur j
      | Some i \<Rightarrow> is_best (active cs sel cur) (head_rate cs cur) i"
    using leftmost_max_spec [of None 0 "active cs sel cur" "head_rate cs cur" "length cs"]
    unfolding pick_edge_def a by simp
  show "pick_edge cs sel cur = None \<longleftrightarrow> (\<forall>i. \<not> active cs sel cur i)"
    using spec by (auto simp: active_def is_best_def split: option.splits)
  show "pick_edge cs sel cur = Some i \<longleftrightarrow> is_best (active cs sel cur) (head_rate cs cur) i"
    using spec is_best_unique
    by (auto simp: active_def is_best_def [of _ _ i] split: option.splits)
qed

section \<open>The merged order\<close>

definition advance :: "(nat \<Rightarrow> nat) \<Rightarrow> nat \<Rightarrow> nat \<Rightarrow> nat" where
  "advance cur i = cur(i := Suc (cur i))"

lemma advance_apply: "advance cur i j = (if j = i then Suc (cur i) else cur j)"
  by (simp add: advance_def)

definition frontier_left :: "curve list \<Rightarrow> (nat \<Rightarrow> nat) \<Rightarrow> nat" where
  "frontier_left cs cur = (\<Sum>i < length cs. cv_len (cs ! i) - cur i)"

lemma frontier_left_step:
  assumes "i < length cs" "cur i < cv_len (cs ! i)"
  shows "frontier_left cs (advance cur i) < frontier_left cs cur"
  unfolding advance_def frontier_left_def using assms by (intro sum_strict_mono_ex1) auto

function merged :: "curve list \<Rightarrow> nat \<Rightarrow> (nat \<Rightarrow> nat) \<Rightarrow> (nat \<times> segment) list" where
  "merged cs sel cur =
     (case pick_edge cs sel cur of
        None \<Rightarrow> []
      | Some i \<Rightarrow> (i, segments (cs ! i) ! cur i) # merged cs sel (advance cur i))"
  by pat_completeness auto
termination
  by (relation "measure (\<lambda>(cs, sel, cur). frontier_left cs cur)")
     (auto simp: pick_edge_Some is_best_def active_def intro: frontier_left_step)

declare merged.simps [simp del]

lemma merged_None: "pick_edge cs sel cur = None \<Longrightarrow> merged cs sel cur = []"
  by (subst merged.simps) simp

lemma merged_Some:
  "pick_edge cs sel cur = Some i \<Longrightarrow>
     merged cs sel cur = (i, segments (cs ! i) ! cur i) # merged cs sel (advance cur i)"
  by (subst merged.simps) simp

definition submask :: "nat \<Rightarrow> nat \<Rightarrow> bool" where
  "submask a b \<longleftrightarrow> (\<forall>i. bit a i \<longrightarrow> bit b i)"

lemma merged_cursor_irrelevant:
  "(\<And>i. i < length cs \<Longrightarrow> bit sel i \<Longrightarrow> cur i = cur' i) \<Longrightarrow> merged cs sel cur = merged cs sel cur'"
proof (induction cs sel cur arbitrary: cur' rule: merged.induct)
  case (1 cs sel cur)
  have a: "active cs sel cur = active cs sel cur'"
    by (rule ext) (auto simp: active_def "1.prems")
  have b: "is_best (active cs sel cur) (head_rate cs cur) i \<longleftrightarrow>
      is_best (active cs sel cur') (head_rate cs cur') i" for i
    unfolding is_best_def by (auto simp: active_def head_rate_def "1.prems")
  have p: "pick_edge cs sel cur = pick_edge cs sel cur'"
  proof (cases "pick_edge cs sel cur")
    case None
    then have "pick_edge cs sel cur' = None" by (simp add: pick_edge_None a)
    with None show ?thesis by simp
  next
    case (Some i)
    then have "pick_edge cs sel cur' = Some i" by (simp add: pick_edge_Some b)
    with Some show ?thesis by simp
  qed
  show ?case
  proof (cases "pick_edge cs sel cur")
    case None
    then show ?thesis using p by (simp add: merged_None)
  next
    case (Some i)
    then have i: "i < length cs" "bit sel i" by (auto simp: pick_edge_Some is_best_def active_def)
    have "merged cs sel (advance cur i) = merged cs sel (advance cur' i)"
      by (rule "1.IH" [OF Some]) (auto simp: "1.prems" i advance_apply)
    then show ?thesis using Some p "1.prems" [OF i] by (simp add: merged_Some)
  qed
qed

text \<open>Deletion closure.\<close>

lemma merged_filter:
  "submask sel' sel \<Longrightarrow>
     filter (\<lambda>(i, s). bit sel' i) (merged cs sel cur) = merged cs sel' cur"
proof (induction cs sel cur rule: merged.induct)
  case (1 cs sel cur)
  show ?case
  proof (cases "pick_edge cs sel cur")
    case None
    then have "pick_edge cs sel' cur = None"
      using "1.prems" by (auto simp: pick_edge_None active_def submask_def)
    then show ?thesis using None by (simp add: merged_None)
  next
    case (Some i)
    then have b: "is_best (active cs sel cur) (head_rate cs cur) i" by (simp add: pick_edge_Some)
    note IH = "1.IH" [OF Some "1.prems"]
    show ?thesis
    proof (cases "bit sel' i")
      case True
      then have "is_best (active cs sel' cur) (head_rate cs cur) i"
        using b "1.prems" by (auto simp: is_best_def active_def submask_def)
      then have "pick_edge cs sel' cur = Some i" by (simp add: pick_edge_Some)
      then show ?thesis using Some True IH by (simp add: merged_Some)
    next
      case False
      then have "merged cs sel' (advance cur i) = merged cs sel' cur"
        by (intro merged_cursor_irrelevant) (auto simp: advance_apply)
      then show ?thesis using Some False IH by (simp add: merged_Some)
    qed
  qed
qed

lemma merged_elem:
  "(j, s) \<in> set (merged cs sel cur) \<Longrightarrow>
     j < length cs \<and> bit sel j \<and> (\<exists>k. cur j \<le> k \<and> k < cv_len (cs ! j) \<and> s = segments (cs ! j) ! k)"
proof (induction cs sel cur rule: merged.induct)
  case (1 cs sel cur)
  show ?case
  proof (cases "pick_edge cs sel cur")
    case None
    then show ?thesis using "1.prems" by (simp add: merged_None)
  next
    case (Some i)
    then have i: "active cs sel cur i" by (simp add: pick_edge_Some is_best_def)
    from "1.prems" Some consider "j = i" "s = segments (cs ! i) ! cur i"
      | "(j, s) \<in> set (merged cs sel (advance cur i))"
      by (auto simp: merged_Some)
    then show ?thesis
    proof cases
      case 1
      then show ?thesis using i by (auto simp: active_def)
    next
      case 2
      show ?thesis using "1.IH" [OF Some 2] by (auto simp: advance_apply split: if_splits intro: Suc_leD)
    qed
  qed
qed

text \<open>The bands of one venue appear in their own order, all of them.\<close>

definition wf_curve :: "curve \<Rightarrow> bool" where
  "wf_curve c \<longleftrightarrow> cv_len c \<le> length (segments c)"

lemma merged_venue:
  assumes "\<forall>i < length cs. bit sel i \<longrightarrow> wf_curve (cs ! i)"
  shows "map snd (filter (\<lambda>(i, s). i = j) (merged cs sel cur)) =
    (if j < length cs \<and> bit sel j then drop (cur j) (bands (cs ! j)) else [])"
  using assms
proof (induction cs sel cur rule: merged.induct)
  case (1 cs sel cur)
  show ?case
  proof (cases "pick_edge cs sel cur")
    case None
    then show ?thesis by (auto simp: merged_None pick_edge_None active_def not_less)
  next
    case (Some i)
    then have i: "i < length cs" "bit sel i" "cur i < cv_len (cs ! i)"
      by (auto simp: pick_edge_Some is_best_def active_def)
    have "cur i < length (bands (cs ! i))" using i "1.prems" by (auto simp: wf_curve_def)
    then have "drop (cur i) (bands (cs ! i)) = segments (cs ! i) ! cur i # drop (Suc (cur i)) (bands (cs ! i))"
      using Cons_nth_drop_Suc [of "cur i" "bands (cs ! i)"] by simp
    moreover have "map snd (filter (\<lambda>(i, s). i = j) (merged cs sel (advance cur i))) =
      (if j < length cs \<and> bit sel j then drop (advance cur i j) (bands (cs ! j)) else [])"
      by (rule "1.IH" [OF Some "1.prems"])
    ultimately show ?thesis using i Some by (auto simp: merged_Some advance_apply)
  qed
qed

text \<open>With curves that slope down, the merged order slopes down.\<close>

lemma merged_sorted:
  assumes "\<forall>i < length cs. bit sel i \<longrightarrow> wf_curve (cs ! i)" "\<forall>i < length cs. bit sel i \<longrightarrow> good_bands (bands (cs ! i))"
  shows "sorted_wrt (\<ge>) (map (marginal_q32 \<circ> snd) (merged cs sel cur))"
  using assms
proof (induction cs sel cur rule: merged.induct)
  case (1 cs sel cur)
  show ?case
  proof (cases "pick_edge cs sel cur")
    case None
    then show ?thesis by (simp add: merged_None)
  next
    case (Some i)
    have "marginal_q32 s \<le> marginal_q32 (segments (cs ! i) ! cur i)"
      if js: "(j, s) \<in> set (merged cs sel (advance cur i))" for j s
    proof -
      from merged_elem [OF js] obtain k where k: "j < length cs" "bit sel j"
        "(advance cur i) j \<le> k" "k < cv_len (cs ! j)" "s = segments (cs ! j) ! k" by auto
      then have cur: "cur j \<le> k" by (auto simp: advance_apply split: if_splits)
      have srt: "sorted_wrt (\<ge>) (map marginal_q32 (bands (cs ! j)))"
        using "1.prems" k by (auto simp: good_bands_def)
      have l: "k < length (bands (cs ! j))" using k "1.prems" by (auto simp: wf_curve_def)
      have "marginal_q32 s \<le> head_rate cs cur j"
        using srt l cur k sorted_wrt_nth_less [OF srt, of "cur j" k]
        by (cases "cur j = k") (auto simp: head_rate_def)
      also have "\<dots> \<le> head_rate cs cur i"
        using Some k cur by (auto simp: pick_edge_Some is_best_def active_def)
      finally show ?thesis by (simp add: head_rate_def)
    qed
    then show ?thesis using "1.IH" [OF Some "1.prems"] Some by (auto simp: merged_Some)
  qed
qed

text \<open>The order depends only on the live bands of the selected venues.\<close>

definition same_bands :: "curve list \<Rightarrow> curve list \<Rightarrow> nat \<Rightarrow> bool" where
  "same_bands cs ds sel \<longleftrightarrow>
     length cs = length ds \<and>
     (\<forall>i < length cs. bit sel i \<longrightarrow> cv_len (cs ! i) = cv_len (ds ! i) \<and>
        (\<forall>k < cv_len (cs ! i). segments (cs ! i) ! k = segments (ds ! i) ! k))"

lemma same_bands_refl [simp]: "same_bands cs cs sel"
  by (simp add: same_bands_def)

lemma same_bands_pick:
  assumes "same_bands cs ds sel"
  shows "pick_edge cs sel cur = pick_edge ds sel cur"
proof -
  have a: "active cs sel cur = active ds sel cur"
    by (rule ext) (use assms in \<open>auto simp: active_def same_bands_def\<close>)
  have r: "head_rate cs cur i = head_rate ds cur i" if "active ds sel cur i" for i
    using assms that by (auto simp: active_def head_rate_def same_bands_def)
  have b: "is_best (active cs sel cur) (head_rate cs cur) i \<longleftrightarrow> is_best (active ds sel cur) (head_rate ds cur) i" for i
    unfolding is_best_def a using r by auto
  show ?thesis
  proof (cases "pick_edge cs sel cur")
    case None
    then have "pick_edge ds sel cur = None" by (simp add: pick_edge_None a)
    with None show ?thesis by simp
  next
    case (Some i)
    then have "pick_edge ds sel cur = Some i" by (simp add: pick_edge_Some b)
    with Some show ?thesis by simp
  qed
qed

lemma merged_same_bands: "same_bands cs ds sel \<Longrightarrow> merged cs sel cur = merged ds sel cur"
proof (induction cs sel cur rule: merged.induct)
  case (1 cs sel cur)
  note p = same_bands_pick [OF "1.prems", of cur]
  show ?case
  proof (cases "pick_edge cs sel cur")
    case None
    then show ?thesis using p by (simp add: merged_None)
  next
    case (Some i)
    then have i: "i < length cs" "bit sel i" "cur i < cv_len (cs ! i)"
      by (auto simp: pick_edge_Some is_best_def active_def)
    then have "segments (cs ! i) ! cur i = segments (ds ! i) ! cur i"
      using "1.prems" by (auto simp: same_bands_def)
    moreover have "merged cs sel (advance cur i) = merged ds sel (advance cur i)"
      by (rule "1.IH" [OF Some "1.prems"])
    ultimately show ?thesis using Some p by (simp add: merged_Some)
  qed
qed

end
