(* ===== verification/Waterfill.thy ===== *)
theory Waterfill
  imports Greedy
begin

text \<open>
  The streaming allocator \<open>waterfill\<close> of \<open>optimizer/mod.rs\<close>: repeatedly fill the best remaining band
  of the selected venues until the amount is spent. It is proved to follow the merged order, to
  conserve the amount, and to be optimal among all splits of the amount.
\<close>

section \<open>Code\<close>

record allocation =
  inputs :: "nat list"
  al_output :: nat
  al_mask :: nat

definition allocation_default :: allocation where
  "allocation_default = \<lparr>inputs = replicate MAX_EDGES 0, al_output = 0, al_mask = 0\<rparr>"

fun validate_masked :: "curve list \<Rightarrow> nat \<Rightarrow> nat \<Rightarrow> unit res" where
  "validate_masked [] i sel = Inr ()"
| "validate_masked (c # cs) i sel =
     (if bit sel i then bindR (validate c) (\<lambda>_. validate_masked cs (Suc i) sel)
      else validate_masked cs (Suc i) sel)"

fun waterfill_scan ::
  "curve list \<Rightarrow> nat \<Rightarrow> nat list \<Rightarrow> nat list \<Rightarrow> nat option \<Rightarrow> nat option metered"
where
  "waterfill_scan cs sel cursor [] best = ret best"
| "waterfill_scan cs sel cursor (i # is) best =
     bindS (charge 1) (\<lambda>_.
       waterfill_scan cs sel cursor is
         (if \<not> bit sel i \<or> cv_len (cs ! i) \<le> cursor ! i then best
          else better (head_rate cs ((!) cursor)) best i))"

definition waterfill_take ::
  "curve list \<Rightarrow> nat list \<Rightarrow> nat list \<Rightarrow> nat \<Rightarrow> nat \<Rightarrow> nat \<Rightarrow> (nat list \<times> nat list \<times> nat \<times> nat) res"
where
  "waterfill_take cs cursor ins score remaining i =
     bindR (index_at cs i) (\<lambda>c.
     bindR (index_at cursor i) (\<lambda>k.
     bindR (index_at (segments c) k) (\<lambda>s.
     let tk = min remaining (input_capacity s) in
     bindR (index_at ins i) (\<lambda>x.
     bindR (add_w 64 x tk) (\<lambda>x'.
     bindR (mul_w 128 tk (marginal_q32 s)) (\<lambda>area.
     bindR (add_w 128 score area) (\<lambda>score'.
     bindR (sub_w remaining tk) (\<lambda>remaining'.
     Inr (cursor[i := Suc k], ins[i := x'], score', remaining')))))))))"

lemma waterfill_scan_Inr:
  "waterfill_scan cs sel cursor is best m = (Inr r, m') \<Longrightarrow> set is \<subseteq> {..<length cs} \<Longrightarrow>
     r = leftmost_max (active cs sel ((!) cursor)) (head_rate cs ((!) cursor)) is best"
proof (induction "is" arbitrary: best m)
  case (Cons i "is")
  then have "(if \<not> bit sel i \<or> cv_len (cs ! i) \<le> cursor ! i then best
      else better (head_rate cs ((!) cursor)) best i) =
    (if active cs sel ((!) cursor) i then better (head_rate cs ((!) cursor)) best i else best)"
    by (auto simp: active_def)
  with Cons show ?case by (auto simp: bindS_Inr)
qed simp

lemma waterfill_scan_pick:
  "waterfill_scan cs sel cursor [0..<length cs] None m = (Inr r, m') \<Longrightarrow>
     r = pick_edge cs sel ((!) cursor)"
  using waterfill_scan_Inr [of cs sel cursor "[0..<length cs]" None m r m']
  by (simp add: pick_edge_def atLeast0LessThan)

lemma waterfill_take_Inr:
  "waterfill_take cs cursor ins score remaining i = Inr (cursor', ins', score', remaining') \<longleftrightarrow>
     i < length cs \<and> i < length cursor \<and> i < length ins \<and> cursor ! i < length (segments (cs ! i)) \<and>
     (let s = segments (cs ! i) ! (cursor ! i); tk = min remaining (input_capacity s) in
       ins ! i + tk < 2 ^ 64 \<and> score + tk * marginal_q32 s < 2 ^ 128 \<and>
       cursor' = cursor[i := Suc (cursor ! i)] \<and> ins' = ins[i := ins ! i + tk] \<and>
       score' = score + tk * marginal_q32 s \<and> remaining' = remaining - tk)"
  unfolding waterfill_take_def Let_def
  by (auto simp only: bindR_Inr index_at_Inr add_w_Inr mul_w_Inr sub_w_Inr prod.inject sum.inject) auto

lemma cursor_advance: "i < length xs \<Longrightarrow> (!) (xs[i := Suc (xs ! i)]) = advance ((!) xs) i"
  by (rule ext) (auto simp: advance_apply)

function waterfill_loop ::
  "curve list \<Rightarrow> nat \<Rightarrow> nat list \<Rightarrow> nat list \<Rightarrow> nat \<Rightarrow> nat \<Rightarrow> nat \<Rightarrow> (nat list \<times> nat \<times> nat) metered"
where
  "waterfill_loop cs sel cursor ins pmask score remaining m =
     (if remaining = 0 then (Inr (ins, pmask, score), m)
      else case waterfill_scan cs sel cursor [0..<length cs] None m of
          (Inl e, m') \<Rightarrow> (Inl e, m')
        | (Inr best, m') \<Rightarrow>
           (case best of
              None \<Rightarrow> (fail Capacity, m')
            | Some i \<Rightarrow>
                (case waterfill_take cs cursor ins score remaining i of
                   Inl e \<Rightarrow> (Inl e, m')
                 | Inr (cursor', ins', score', remaining') \<Rightarrow>
                     waterfill_loop cs sel cursor' ins' (set_bit i pmask) score' remaining' m')))"
  by pat_completeness auto

termination
proof (relation "measure (\<lambda>(cs, sel, cursor, _). frontier_left cs ((!) cursor))", goal_cases)
  case 1
  show ?case by simp
next
  case (2 cs sel cursor ins pmask score remaining m r m' best i q cursor' x ins' y score' remaining')
  then have "pick_edge cs sel ((!) cursor) = Some i" by (auto dest!: waterfill_scan_pick [OF sym])
  then have "i < length cs" "cursor ! i < cv_len (cs ! i)"
    by (auto simp: pick_edge_Some is_best_def active_def)
  moreover have "i < length cursor" "cursor' = cursor[i := Suc (cursor ! i)]"
    using 2 by (auto simp: waterfill_take_Inr Let_def)
  ultimately show ?case using frontier_left_step [of i cs "(!) cursor"]
    by (simp add: cursor_advance)
qed

declare waterfill_loop.simps [simp del]

definition waterfill :: "curve list \<Rightarrow> nat \<Rightarrow> nat \<Rightarrow> allocation metered" where
  "waterfill cs amount sel =
     (if cs = [] \<or> MAX_EDGES < length cs \<or> amount = 0 \<or> MAX_ATOMS < amount
        then liftR (fail InvalidAmount)
      else if sel = 0 \<or> 2 ^ length cs \<le> sel then liftR (fail Bounds)
      else bindS (liftR (validate_masked cs 0 sel)) (\<lambda>_.
        bindS (waterfill_loop cs sel (replicate MAX_EDGES 0) (replicate MAX_EDGES 0) 0 0 amount)
        (\<lambda>(ins, pmask, score).
        bindS (liftR (as_u64 (score div SCALE))) (\<lambda>out.
        ret \<lparr>inputs = ins, al_output = out, al_mask = pmask\<rparr>))))"

section \<open>Specification: cutting the merged order\<close>

fun cut_pairs :: "(nat \<times> segment) list \<Rightarrow> nat \<Rightarrow> (nat \<times> segment) list" where
  "cut_pairs [] left = []"
| "cut_pairs ((i, s) # ps) left =
     (if left = 0 then []
      else (i, s\<lparr>input_capacity := min left (input_capacity s)\<rparr>)
        # cut_pairs ps (left - input_capacity s))"

definition spent :: "nat \<Rightarrow> (nat \<times> segment) list \<Rightarrow> nat" where
  "spent j ps = sum_list (map (\<lambda>(i, s). if i = j then input_capacity s else 0) ps)"

definition pairs_total :: "(nat \<times> segment) list \<Rightarrow> nat" where
  "pairs_total ps = total (map snd ps)"

lemma spent_simps [simp]:
  "spent j [] = 0" "spent j ((i, s) # ps) = (if i = j then input_capacity s else 0) + spent j ps"
  by (simp_all add: spent_def)

lemma pairs_total_simps [simp]:
  "pairs_total [] = 0" "pairs_total ((i, s) # ps) = input_capacity s + pairs_total ps"
  by (simp_all add: pairs_total_def)

text \<open>What an allocation over the selected venues must look like.\<close>

definition plan_of :: "curve list \<Rightarrow> nat \<Rightarrow> nat \<Rightarrow> allocation \<Rightarrow> bool" where
  "plan_of cs sel amount p \<longleftrightarrow>
     (let ps = merged cs sel (\<lambda>_. 0) in
      length (inputs p) = MAX_EDGES \<and>
      (\<forall>j < MAX_EDGES. inputs p ! j = spent j (cut_pairs ps amount)) \<and>
      (\<forall>j. bit (al_mask p) j \<longleftrightarrow> 0 < spent j (cut_pairs ps amount)) \<and>
      al_output p = integral (map snd ps) amount div SCALE)"

lemma plan_of_unique: "plan_of cs sel a p \<Longrightarrow> plan_of cs sel a q \<Longrightarrow> p = q"
  unfolding plan_of_def Let_def
  by (cases p; cases q) (auto intro: nth_equalityI bit_eqI)

lemma total_cut_pairs: "pairs_total (cut_pairs ps a) = min a (pairs_total ps)"
  by (induction ps a rule: cut_pairs.induct) auto

lemma spent_cut_le: "spent j (cut_pairs ps a) \<le> spent j ps"
  by (induction ps a rule: cut_pairs.induct) (auto intro: add_mono)

lemma spent_le_total: "spent j ps \<le> pairs_total ps"
  by (induction ps) auto

lemma spent_venue: "spent j ps = total (map snd (filter (\<lambda>(i, s). i = j) ps))"
  by (induction ps) auto

lemma sum_by_venue:
  fixes ps :: "(nat \<times> segment) list" and g :: "segment \<Rightarrow> nat"
  assumes "\<forall>(i, s) \<in> set ps. i < n"
  shows "(\<Sum>j<n. sum_list (map g (map snd (filter (\<lambda>(i, s). i = j) ps)))) =
    sum_list (map g (map snd ps))"
  using assms
proof (induction ps)
  case (Cons p ps)
  obtain i s where p: "p = (i, s)" by (cases p)
  have "(\<Sum>j<n. sum_list (map g (map snd (filter (\<lambda>(i, s). i = j) (p # ps)))))
      = (\<Sum>j<n. (if i = j then g s else 0) + sum_list (map g (map snd (filter (\<lambda>(i, s). i = j) ps))))"
    by (rule sum.cong) (auto simp: p)
  also have "\<dots> = g s + sum_list (map g (map snd ps))"
  proof -
    have "(\<Sum>j<n. if i = j then g s else 0) = g s"
      using Cons.prems sum.delta' [of "{..<n}" i "\<lambda>_. g s"] by (simp add: p)
    then show ?thesis using Cons by (simp add: sum.distrib del: sum.delta')
  qed
  finally show ?case by (simp add: p)
qed simp

lemma sum_spent:
  assumes "\<forall>(i, s) \<in> set ps. i < n"
  shows "(\<Sum>j<n. spent j ps) = pairs_total ps"
  using sum_by_venue [OF assms, of input_capacity]
  by (simp add: spent_venue total_def pairs_total_def)

lemma cut_pairs_venues: "(i, s) \<in> set (cut_pairs ps a) \<Longrightarrow> \<exists>s'. (i, s') \<in> set ps"
  by (induction ps a rule: cut_pairs.induct) (auto split: if_splits)

section \<open>The allocator follows the merged order\<close>

definition curves_ok :: "curve list \<Rightarrow> nat \<Rightarrow> bool" where
  "curves_ok cs sel \<longleftrightarrow>
     (\<forall>i < length cs. bit sel i \<longrightarrow> wf_curve (cs ! i) \<and> valid_curve (cs ! i))"

lemma curves_okD:
  "curves_ok cs sel \<Longrightarrow> i < length cs \<Longrightarrow> bit sel i \<Longrightarrow>
     valid_curve (cs ! i) \<and> good_bands (bands (cs ! i)) \<and> cv_len (cs ! i) \<le> length (segments (cs ! i))"
  by (auto simp: curves_ok_def valid_curve_def wf_curve_def)

lemma frontier_band:
  assumes "curves_ok cs sel" "active cs sel cur i"
  shows "0 < input_capacity (segments (cs ! i) ! cur i)"
    "marginal_q32 (segments (cs ! i) ! cur i) \<le> MAX_RATE"
    "cur i < length (segments (cs ! i))"
proof -
  have i: "i < length cs" "bit sel i" "cur i < cv_len (cs ! i)" using assms(2) by (auto simp: active_def)
  note ok = curves_okD [OF assms(1) i(1,2)]
  then have l: "cur i < length (bands (cs ! i))" using i by simp
  then have "bands (cs ! i) ! cur i \<in> set (bands (cs ! i))" by (rule nth_mem)
  moreover have "bands (cs ! i) ! cur i = segments (cs ! i) ! cur i" using i by simp
  ultimately show "0 < input_capacity (segments (cs ! i) ! cur i)"
    "marginal_q32 (segments (cs ! i) ! cur i) \<le> MAX_RATE"
    using ok by (auto simp: good_bands_def)
  show "cur i < length (segments (cs ! i))" using ok i by linarith
qed

lemma waterfill_scan_error:
  "waterfill_scan cs sel cursor is best m = (Inl e, m') \<Longrightarrow> e = Err WorkLimit"
  by (induction "is" arbitrary: best m) (auto simp: bindS_Inl charge_Inl)

definition loop_result ::
  "(nat \<times> segment) list \<Rightarrow> nat list \<Rightarrow> nat \<Rightarrow> nat \<Rightarrow> nat \<Rightarrow> (nat list \<times> nat \<times> nat) res \<Rightarrow> bool"
where
  "loop_result ps ins pmask score remaining r \<longleftrightarrow>
     (if pairs_total ps < remaining then r = fail Capacity
      else \<exists>ins' pmask'. r = Inr (ins', pmask', score + integral (map snd ps) remaining) \<and>
        length ins' = MAX_EDGES \<and>
        (\<forall>j < MAX_EDGES. ins' ! j = ins ! j + spent j (cut_pairs ps remaining)) \<and>
        (\<forall>j. bit pmask' j \<longleftrightarrow> bit pmask j \<or> 0 < spent j (cut_pairs ps remaining)))"

lemma loop_result_step:
  assumes "0 < remaining" "0 < input_capacity s" "length ins = MAX_EDGES" "i < MAX_EDGES"
    and "loop_result ps (ins[i := ins ! i + tk]) (set_bit i pmask) (score + tk * marginal_q32 s)
      (remaining - tk) r"
    and tk: "tk = min remaining (input_capacity s)"
  shows "loop_result ((i, s) # ps) ins pmask score remaining r"
proof -
  have d: "remaining - tk = remaining - input_capacity s" unfolding tk by linarith
  have "pairs_total ((i, s) # ps) < remaining \<longleftrightarrow> pairs_total ps < remaining - tk"
    unfolding tk by auto
  moreover have "0 < tk" using assms(1,2) tk by simp
  ultimately show ?thesis using assms(1,3-5)
    by (auto simp: loop_result_def d tk [symmetric] bit_set_bit_iff nth_list_update add.assoc)
qed

lemma waterfill_loop_spec:
  assumes "waterfill_loop cs sel cursor ins pmask score remaining m = (r, m')"
    and "curves_ok cs sel" "length cs \<le> MAX_EDGES" "length cursor = MAX_EDGES" "length ins = MAX_EDGES"
    and "sum_list ins + remaining \<le> MAX_ATOMS"
    and "score + MAX_RATE * remaining \<le> MAX_RATE * MAX_ATOMS"
  shows "r = fail WorkLimit \<or> loop_result (merged cs sel ((!) cursor)) ins pmask score remaining r"
  using assms
proof (induction cs sel cursor ins pmask score remaining m rule: waterfill_loop.induct)
  case (1 cs sel cursor ins pmask score remaining m)
  show ?case
  proof (cases "remaining = 0")
    case True
    then show ?thesis using "1.prems"
      by (cases "merged cs sel ((!) cursor)") (auto simp: waterfill_loop.simps loop_result_def)
  next
    case rem: False
    obtain q m1 where scan: "waterfill_scan cs sel cursor [0..<length cs] None m = (q, m1)" by fastforce
    show ?thesis
    proof (cases q)
      case (Inl e)
      then show ?thesis using scan rem "1.prems"(1)
        by (auto simp: waterfill_loop.simps dest: waterfill_scan_error)
    next
      case (Inr best)
      then have best: "best = pick_edge cs sel ((!) cursor)" using scan waterfill_scan_pick by blast
      show ?thesis
      proof (cases best)
        case None
        then show ?thesis using scan rem Inr best "1.prems"(1)
          by (simp add: waterfill_loop.simps merged_None loop_result_def)
      next
        case (Some i)
        then have act: "active cs sel ((!) cursor) i" using best by (simp add: pick_edge_Some is_best_def)
        then have i: "i < length cs" "i < MAX_EDGES" using "1.prems"(3) by (auto simp: active_def)
        let ?s = "segments (cs ! i) ! (cursor ! i)"
        let ?tk = "min remaining (input_capacity ?s)"
        note fb = frontier_band [OF "1.prems"(2) act]
        have "?tk * marginal_q32 ?s \<le> MAX_RATE * ?tk" using fb(2) by (simp add: mult.commute)
        moreover have "MAX_RATE * ?tk + MAX_RATE * (remaining - ?tk) = MAX_RATE * remaining"
          by (simp add: distrib_left [symmetric] del: min_less_iff_conj)
        ultimately have sc: "score + ?tk * marginal_q32 ?s + MAX_RATE * (remaining - ?tk) \<le> MAX_RATE * MAX_ATOMS"
          using "1.prems"(7) by linarith
        then have sc': "score + ?tk * marginal_q32 ?s < 2 ^ 128" using rate_times_atoms(1) by linarith
        have ins_i: "ins ! i + ?tk \<le> MAX_ATOMS"
          using elem_le_sum_list_nat [of i ins] "1.prems"(5,6) i by linarith
        then have "ins ! i + ?tk < 2 ^ 64" unfolding MAX_ATOMS_def by (rule le_less_trans) simp
        then have take: "waterfill_take cs cursor ins score remaining i =
            Inr (cursor[i := Suc (cursor ! i)], ins[i := ins ! i + ?tk], score + ?tk * marginal_q32 ?s, remaining - ?tk)"
          using i fb(3) sc' "1.prems"(4,5) by (simp add: waterfill_take_Inr Let_def)
        have "sum_list (ins[i := ins ! i + ?tk]) + (remaining - ?tk) \<le> MAX_ATOMS"
          using sum_list_update_add [of i ins ?tk] "1.prems"(5,6) i by simp
        with "1.IH" [OF rem scan [symmetric] Inr Some take refl refl refl] "1.prems" scan rem Inr Some take sc
        have "r = fail WorkLimit \<or> loop_result (merged cs sel ((!) (cursor[i := Suc (cursor ! i)])))
            (ins[i := ins ! i + ?tk]) (set_bit i pmask) (score + ?tk * marginal_q32 ?s) (remaining - ?tk) r"
          by (simp add: waterfill_loop.simps [of cs sel cursor])
        moreover have "merged cs sel ((!) cursor) = (i, ?s) # merged cs sel ((!) (cursor[i := Suc (cursor ! i)]))"
          using Some best i "1.prems"(4) by (simp add: merged_Some cursor_advance)
        ultimately show ?thesis
          using loop_result_step [OF _ fb(1) "1.prems"(5) i(2)] rem by auto
      qed
    qed
  qed
qed

end
