(* ===== verification/Optimal.thy ===== *)
theory Optimal
  imports Waterfill
begin

text \<open>
  Conservation, feasibility and optimality of the allocations that follow the merged order, and the
  resulting contract of \<open>waterfill\<close>.
\<close>

section \<open>Strong duality on a downward sloping list of bands\<close>

lemma integral_strong_duality:
  assumes "sorted_wrt (\<ge>) (map marginal_q32 bs)" "0 < a" "a \<le> total bs"
  shows "\<exists>r. (\<exists>b \<in> set bs. r = marginal_q32 b) \<and> integral bs a = r * a + surplus r bs"
  using assms
proof (induction bs arbitrary: a)
  case (Cons b bs)
  let ?c = "input_capacity b"
  show ?case
  proof (cases "a \<le> ?c")
    case True
    have "surplus (marginal_q32 b) bs = 0"
      using Cons.prems(1) by (induction bs) auto
    then show ?thesis using True
      by (intro exI [of _ "marginal_q32 b"]) (simp add: mult.commute)
  next
    case False
    then have "a - ?c \<le> total bs" "0 < a - ?c" using Cons.prems(3) by auto
    then obtain r where r: "\<exists>b \<in> set bs. r = marginal_q32 b"
        "integral bs (a - ?c) = r * (a - ?c) + surplus r bs"
      using Cons.IH [of "a - ?c"] Cons.prems by auto
    then have le: "r \<le> marginal_q32 b" using Cons.prems(1) by auto
    have "?c * marginal_q32 b + r * (a - ?c) = r * a + ?c * (marginal_q32 b - r)"
    proof -
      have "?c * marginal_q32 b = ?c * r + ?c * (marginal_q32 b - r)"
        using le by (simp add: distrib_left [symmetric])
      moreover have "r * a = r * ?c + r * (a - ?c)" using False by (simp add: distrib_left [symmetric])
      ultimately show ?thesis by (simp only: mult.commute [of ?c r])
    qed
    with r le False show ?thesis by (intro exI [of _ r]) auto
  qed
qed simp

text \<open>The merged curve earns at least as much as any split of the amount over its venues.\<close>

lemma merged_dominates:
  assumes ok: "curves_ok cs sel" and a: "0 < a" "a \<le> pairs_total (merged cs sel (\<lambda>_. 0))"
    and x: "(\<Sum>i<length cs. x i) \<le> a"
  shows "(\<Sum>i<length cs. if bit sel i then integral (bands (cs ! i)) (x i) else 0)
    \<le> integral (map snd (merged cs sel (\<lambda>_. 0))) a"
proof -
  let ?ps = "merged cs sel (\<lambda>_. 0)" and ?n = "length cs"
  let ?venue = "\<lambda>j. map snd (filter (\<lambda>(i, s). i = j) ?ps)"
  have wf: "\<forall>i < length cs. bit sel i \<longrightarrow> wf_curve (cs ! i)" using ok by (simp add: curves_ok_def)
  have "sorted_wrt (\<ge>) (map marginal_q32 (map snd ?ps))"
    using merged_sorted [OF wf, where cur = "\<lambda>_. 0"] curves_okD [OF ok] by (simp add: comp_def)
  then obtain r where r: "integral (map snd ?ps) a = r * a + surplus r (map snd ?ps)"
    using integral_strong_duality a unfolding pairs_total_def by blast
  have venues: "\<forall>(i, s) \<in> set ?ps. i < ?n" using merged_elem by fastforce
  have bands: "?venue j = (if bit sel j then bands (cs ! j) else [])" if "j < ?n" for j
    using merged_venue [OF wf, where j = j and cur = "\<lambda>_. 0"] that by simp
  have "(\<Sum>i<?n. if bit sel i then integral (bands (cs ! i)) (x i) else 0)
      \<le> (\<Sum>i<?n. r * x i + surplus r (?venue i))"
    by (rule sum_mono) (auto simp: bands integral_weak_duality)
  also have "\<dots> = r * (\<Sum>i<?n. x i) + (\<Sum>i<?n. surplus r (?venue i))"
    by (simp add: sum.distrib sum_distrib_left)
  also have "(\<Sum>i<?n. surplus r (?venue i)) = surplus r (map snd ?ps)"
    unfolding surplus_def by (rule sum_by_venue [OF venues])
  also have "r * (\<Sum>i<?n. x i) + surplus r (map snd ?ps) \<le> integral (map snd ?ps) a"
    using x r by simp
  finally show ?thesis .
qed

lemma sum_div_le: "(\<Sum>i \<in> A. f i div s) \<le> (\<Sum>i \<in> A. f i) div (s :: nat)" if "finite A"
  using that
proof (induction rule: finite_induct)
  case (insert a A)
  then have "f a div s + (\<Sum>i\<in>A. f i div s) \<le> f a div s + (\<Sum>i\<in>A. f i) div s" by simp
  also have "\<dots> \<le> (f a + (\<Sum>i\<in>A. f i)) div s" by (rule div_add_le)
  finally show ?case using insert by simp
qed simp

section \<open>Feasibility of plans\<close>

lemma merged_capacity:
  assumes "curves_ok cs sel"
  shows "spent j (merged cs sel (\<lambda>_. 0)) = (if j < length cs \<and> bit sel j then cv_capacity (cs ! j) else 0)"
  using merged_venue [of cs sel j "\<lambda>_. 0"] assms curves_okD [OF assms, of j]
  by (auto simp: spent_venue curves_ok_def valid_curve_def)

lemma merged_total:
  assumes "curves_ok cs sel"
  shows "pairs_total (merged cs sel (\<lambda>_. 0)) =
    (\<Sum>j<length cs. if bit sel j then cv_capacity (cs ! j) else 0)"
proof -
  have "\<forall>(i, s) \<in> set (merged cs sel (\<lambda>_. 0)). i < length cs" using merged_elem by fastforce
  from sum_spent [OF this, symmetric] show ?thesis
    by (simp add: merged_capacity [OF assms])
qed

lemma plan_feasible:
  assumes p: "plan_of cs sel a p" and ok: "curves_ok cs sel" and cs: "length cs \<le> MAX_EDGES"
    and a: "a \<le> pairs_total (merged cs sel (\<lambda>_. 0))"
  shows "sum_list (inputs p) = a"
    "j < MAX_EDGES \<Longrightarrow> inputs p ! j \<le> (if j < length cs \<and> bit sel j then cv_capacity (cs ! j) else 0)"
    "bit (al_mask p) j \<Longrightarrow> j < length cs \<and> bit sel j"
    "j < MAX_EDGES \<Longrightarrow> bit (al_mask p) j \<longleftrightarrow> 0 < inputs p ! j"
proof -
  let ?ps = "cut_pairs (merged cs sel (\<lambda>_. 0)) a"
  have len: "length (inputs p) = MAX_EDGES" and ins: "\<And>j. j < MAX_EDGES \<Longrightarrow> inputs p ! j = spent j ?ps"
    and msk: "\<And>j. bit (al_mask p) j \<longleftrightarrow> 0 < spent j ?ps"
    using p by (auto simp: plan_of_def Let_def)
  have venues: "i < length cs" if "(i, s) \<in> set ?ps" for i s
    using cut_pairs_venues [OF that] merged_elem by blast
  then have v: "\<forall>(i, s) \<in> set ?ps. i < MAX_EDGES" using cs by fastforce
  have "sum_list (inputs p) = (\<Sum>j<MAX_EDGES. inputs p ! j)"
    using len by (simp add: sum_list_sum_nth atLeast0LessThan)
  also have "\<dots> = (\<Sum>j<MAX_EDGES. spent j ?ps)" by (simp add: ins)
  also have "\<dots> = a" using sum_spent [OF v] a by (simp add: total_cut_pairs)
  finally show "sum_list (inputs p) = a" .
  have le: "spent j ?ps \<le> (if j < length cs \<and> bit sel j then cv_capacity (cs ! j) else 0)" for j
    using spent_cut_le [of j "merged cs sel (\<lambda>_. 0)" a] merged_capacity [OF ok, of j] by simp
  then show "inputs p ! j \<le> (if j < length cs \<and> bit sel j then cv_capacity (cs ! j) else 0)"
    if "j < MAX_EDGES" using ins that by simp
  show "j < length cs \<and> bit sel j" if "bit (al_mask p) j"
    using le [of j] that msk by (auto split: if_splits)
  show "bit (al_mask p) j \<longleftrightarrow> 0 < inputs p ! j" if "j < MAX_EDGES" using msk ins that by simp
qed

section \<open>The contract of waterfill\<close>

lemma validate_masked_Inr:
  "validate_masked cs k sel = Inr u \<longleftrightarrow> (\<forall>i < length cs. bit sel (k + i) \<longrightarrow> valid_curve (cs ! i))"
proof (induction cs arbitrary: k)
  case (Cons c cs)
  have "(\<forall>i < length (c # cs). bit sel (k + i) \<longrightarrow> valid_curve ((c # cs) ! i)) \<longleftrightarrow>
      (bit sel k \<longrightarrow> valid_curve c) \<and> (\<forall>i < length cs. bit sel (Suc k + i) \<longrightarrow> valid_curve (cs ! i))"
    by (auto simp: less_Suc_eq_0_disj nth_Cons split: nat.splits)
  then show ?case using Cons by (auto simp: bindR_Inr validate_valid)
qed simp

definition arrays_ok :: "curve list \<Rightarrow> bool" where
  "arrays_ok cs \<longleftrightarrow> (\<forall>c \<in> set cs. length (segments c) = MAX_SEGMENTS)"

lemma arrays_curves_ok:
  assumes "arrays_ok cs" "\<forall>i < length cs. bit sel i \<longrightarrow> valid_curve (cs ! i)"
  shows "curves_ok cs sel"
  using assms by (auto simp: curves_ok_def arrays_ok_def wf_curve_def valid_curve_def)

lemma merged_rate_bound:
  assumes ok: "curves_ok cs sel"
  shows "\<forall>b \<in> set (map snd (merged cs sel (\<lambda>_. 0))). marginal_q32 b \<le> MAX_RATE"
proof
  fix b assume "b \<in> set (map snd (merged cs sel (\<lambda>_. 0)))"
  then obtain j where "(j, b) \<in> set (merged cs sel (\<lambda>_. 0))" by auto
  from merged_elem [OF this] obtain k where k: "j < length cs" "bit sel j" "k < cv_len (cs ! j)"
    "b = segments (cs ! j) ! k" by auto
  then have "active cs sel (\<lambda>_. k) j" by (simp add: active_def)
  from frontier_band(2) [OF ok this] show "marginal_q32 b \<le> MAX_RATE" using k by simp
qed

lemma merged_output_fits:
  assumes ok: "curves_ok cs sel" and a: "a \<le> MAX_ATOMS"
  shows "integral (map snd (merged cs sel (\<lambda>_. 0))) a div SCALE < 2 ^ 64"
proof -
  have "integral (map snd (merged cs sel (\<lambda>_. 0))) a \<le> MAX_RATE * a"
    by (rule integral_le_rate [OF merged_rate_bound [OF ok]])
  also have "\<dots> \<le> MAX_RATE * MAX_ATOMS" using a by simp
  finally show ?thesis using rate_times_atoms(2) by (meson div_le_mono le_less_trans)
qed

lemma waterfill_spec:
  assumes w: "waterfill cs amount sel m = (r, m')" and arr: "arrays_ok cs"
    and g: "0 < amount" "amount \<le> MAX_ATOMS" "cs \<noteq> []" "length cs \<le> MAX_EDGES" "sel \<noteq> 0"
      "sel < 2 ^ length cs"
    and valid: "\<forall>i < length cs. bit sel i \<longrightarrow> valid_curve (cs ! i)"
  shows "r = fail WorkLimit \<or>
    (if pairs_total (merged cs sel (\<lambda>_. 0)) < amount then r = fail Capacity
     else \<exists>p. r = Inr p \<and> plan_of cs sel amount p)"
proof -
  let ?z = "replicate MAX_EDGES (0 :: nat)" and ?ps = "merged cs sel (\<lambda>_. 0)"
  have ok: "curves_ok cs sel" by (rule arrays_curves_ok [OF arr valid])
  obtain q m1 where loop: "waterfill_loop cs sel ?z ?z 0 0 amount m = (q, m1)" by fastforce
  have vm: "validate_masked cs 0 sel = Inr ()" using valid by (simp add: validate_masked_Inr)
  have r: "r = bindR q (\<lambda>(ins, pmask, score). bindR (as_u64 (score div SCALE))
      (\<lambda>out. Inr \<lparr>inputs = ins, al_output = out, al_mask = pmask\<rparr>))"
    using w loop g vm by (auto simp: waterfill_def bindS_def liftR_def ret_def split: sum.splits prod.splits)
  have m0: "merged cs sel ((!) ?z) = ?ps"
    using g(4) by (intro merged_cursor_irrelevant) simp
  have "q = fail WorkLimit \<or> loop_result ?ps ?z 0 0 amount q"
    using waterfill_loop_spec [OF loop ok g(4)] g(2) by (simp add: m0 sum_list_replicate)
  then show ?thesis
  proof
    assume "loop_result ?ps ?z 0 0 amount q"
    then show ?thesis using merged_output_fits [OF ok g(2)]
      by (auto simp: r loop_result_def plan_of_def as_u64_def)
  qed (simp add: r)
qed

lemma waterfill_guards:
  assumes "waterfill cs amount sel m = (Inr p, m')"
  shows "0 < amount" "amount \<le> MAX_ATOMS" "cs \<noteq> []" "length cs \<le> MAX_EDGES" "sel \<noteq> 0"
    "sel < 2 ^ length cs" "\<forall>i < length cs. bit sel i \<longrightarrow> valid_curve (cs ! i)"
  using assms by (auto simp: waterfill_def bindS_Inr validate_masked_Inr split: if_splits)

lemma waterfill_plan:
  assumes "waterfill cs amount sel m = (Inr p, m')" "arrays_ok cs"
  shows "plan_of cs sel amount p" "amount \<le> pairs_total (merged cs sel (\<lambda>_. 0))" "curves_ok cs sel"
  using waterfill_spec [OF assms waterfill_guards [OF assms(1)]] waterfill_guards(7) [OF assms(1)]
    arrays_curves_ok [OF assms(2)]
  by (auto split: if_splits)

lemma plan_dominates:
  assumes p: "plan_of cs sel amount p" "curves_ok cs sel" and a: "0 < amount" "amount \<le> pairs_total (merged cs sel (\<lambda>_. 0))"
    and quotes: "\<forall>i < length cs. bit sel i \<longrightarrow> quote (cs ! i) (x i) = Inr (q i)"
    and split: "(\<Sum>i \<in> {i. i < length cs \<and> bit sel i}. x i) \<le> amount"
  shows "(\<Sum>i \<in> {i. i < length cs \<and> bit sel i}. q i) \<le> al_output p"
proof -
  let ?S = "{i. i < length cs \<and> bit sel i}" and ?n = "length cs"
  let ?x = "\<lambda>i. if bit sel i then x i else 0"
  have S: "?S = {..<?n} \<inter> {i. bit sel i}" by auto
  have "(\<Sum>i<?n. ?x i) \<le> amount" using split unfolding S by (simp add: sum.inter_restrict)
  from merged_dominates [OF p(2) a this]
  have dom: "(\<Sum>i \<in> ?S. integral (bands (cs ! i)) (x i)) \<le> integral (map snd (merged cs sel (\<lambda>_. 0))) amount"
    unfolding S by (simp add: sum.inter_restrict if_distrib cong: if_cong)
  have "(\<Sum>i \<in> ?S. q i) = (\<Sum>i \<in> ?S. integral (bands (cs ! i)) (x i) div SCALE)"
    by (rule sum.cong) (use quotes in \<open>auto simp: quote_Inr\<close>)
  also have "\<dots> \<le> (\<Sum>i \<in> ?S. integral (bands (cs ! i)) (x i)) div SCALE"
    by (rule sum_div_le) simp
  also have "\<dots> \<le> integral (map snd (merged cs sel (\<lambda>_. 0))) amount div SCALE"
    using dom by (rule div_le_mono)
  also have "\<dots> = al_output p" using p(1) by (simp add: plan_of_def Let_def)
  finally show ?thesis .
qed

text \<open>
  \<^bold>\<open>C3.\<close> The greedy allocation of \<open>waterfill\<close> is optimal: no split of at most the same amount over the
  selected venues, quoted on the same curves, returns more output atoms than the plan's.
\<close>

theorem waterfill_optimal:
  assumes "waterfill cs amount sel m = (Inr p, m')" "arrays_ok cs"
    and "\<forall>i < length cs. bit sel i \<longrightarrow> quote (cs ! i) (x i) = Inr (q i)"
    and "(\<Sum>i \<in> {i. i < length cs \<and> bit sel i}. x i) \<le> amount"
  shows "(\<Sum>i \<in> {i. i < length cs \<and> bit sel i}. q i) \<le> al_output p"
proof -
  note p = waterfill_plan [OF assms(1,2)]
  show ?thesis by (rule plan_dominates [OF p(1,3) waterfill_guards(1) [OF assms(1)] p(2) assms(3,4)])
qed

text \<open>
  A plan of \<open>waterfill\<close> is feasible: its inputs add up to the amount, no venue gets more than its
  curve's capacity, only selected venues are used and the plan's mask is exactly the used venues.
\<close>

theorem waterfill_feasible:
  assumes "waterfill cs amount sel m = (Inr p, m')" "arrays_ok cs"
  shows "length (inputs p) = MAX_EDGES \<and> sum_list (inputs p) = amount \<and>
    (\<forall>j < MAX_EDGES. inputs p ! j \<le> (if j < length cs \<and> bit sel j then cv_capacity (cs ! j) else 0)) \<and>
    (\<forall>j. bit (al_mask p) j \<longleftrightarrow> j < MAX_EDGES \<and> 0 < inputs p ! j)"
proof -
  note p = waterfill_plan [OF assms] and g = waterfill_guards [OF assms(1)]
  note f = plan_feasible [OF p(1,3) g(4) p(2)]
  have "j < MAX_EDGES" if "bit (al_mask p) j" for j using f(3) [OF that] g(4) by simp
  then show ?thesis using f p(1) by (auto simp: plan_of_def Let_def)
qed

text \<open>Two venues of two bands each, both selected.\<close>

definition demo_curves :: "curve list" where
  "demo_curves =
     map (\<lambda>bs. \<lparr>segments = bs @ replicate 14 segment_default, cv_len = 2, cv_capacity = total bs,
            upper_error_atoms = 0, lower_error_atoms = 0\<rparr>)
       [[\<lparr>input_capacity = 100, marginal_q32 = 3 * 2 ^ 32\<rparr>, \<lparr>input_capacity = 50, marginal_q32 = 2 ^ 32\<rparr>],
        [\<lparr>input_capacity = 80, marginal_q32 = 2 * 2 ^ 32\<rparr>, \<lparr>input_capacity = 80, marginal_q32 = 2 ^ 31\<rparr>]]"

definition demo_plan :: allocation where
  "demo_plan = \<lparr>inputs = [120, 80, 0, 0, 0, 0, 0, 0], al_output = 480, al_mask = 3\<rparr>"

lemma demo_waterfill: "\<exists>m'. waterfill demo_curves 200 3 (meter_new 100) = (Inr demo_plan, m')"
proof -
  have "fst (waterfill demo_curves 200 3 (meter_new 100)) = Inr demo_plan" by code_simp
  then show ?thesis by (cases "waterfill demo_curves 200 3 (meter_new 100)") auto
qed

lemma demo_arrays_ok: "arrays_ok demo_curves"
  by (simp add: arrays_ok_def demo_curves_def MAX_SEGMENTS_def)

lemma demo_quotes:
  "\<forall>i < length demo_curves. bit (3 :: nat) i \<longrightarrow> quote (demo_curves ! i) ([150, 50] ! i) = Inr ([350, 100] ! i)"
proof -
  have "list_all (\<lambda>i. quote (demo_curves ! i) ([150, 50] ! i) = Inr ([350, 100] ! i)) [0, 1]" by code_simp
  then show ?thesis by (auto simp: demo_curves_def less_Suc_eq)
qed

lemma demo_selected: "{i. i < length demo_curves \<and> bit (3 :: nat) i} = {0, 1}"
proof -
  have "bit (3 :: nat) 0" "bit (3 :: nat) 1" by (simp_all add: bit_iff_odd)
  then show ?thesis by (auto simp: demo_curves_def less_Suc_eq)
qed

lemma waterfill_optimal_witness:
  "\<exists>m'. waterfill demo_curves 200 3 (meter_new 100) = (Inr demo_plan, m') \<and>
     (\<Sum>i \<in> {i. i < length demo_curves \<and> bit (3 :: nat) i}. [350, 100] ! i) \<le> al_output demo_plan"
proof -
  obtain m' where w: "waterfill demo_curves 200 3 (meter_new 100) = (Inr demo_plan, m')"
    using demo_waterfill by blast
  show ?thesis
    using waterfill_optimal [OF w demo_arrays_ok demo_quotes] w by (simp add: demo_selected)
qed

lemma waterfill_feasible_witness:
  "\<exists>m'. waterfill demo_curves 200 3 (meter_new 100) = (Inr demo_plan, m') \<and>
     sum_list (inputs demo_plan) = 200"
proof -
  obtain m' where w: "waterfill demo_curves 200 3 (meter_new 100) = (Inr demo_plan, m')"
    using demo_waterfill by blast
  show ?thesis using waterfill_feasible [OF w demo_arrays_ok] w by blast
qed

end
