(* ===== verification/Masks.thy ===== *)
theory Masks
  imports Kernel
begin

text \<open>
  \<open>u8\<close> masks as natural numbers: \<open>trailing_zeros\<close>, \<open>count_ones\<close> and the idiom
  \<open>while mask != 0 { i = mask.trailing_zeros(); mask &= mask - 1; ... }\<close>, which visits the set bits in
  ascending order.
\<close>

fun trailing_zeros :: "nat \<Rightarrow> nat" where
  "trailing_zeros m = (if m = 0 then MAX_EDGES else if odd m then 0 else Suc (trailing_zeros (m div 2)))"

declare trailing_zeros.simps [simp del]

definition count_ones :: "nat \<Rightarrow> nat" where
  "count_ones m = length (filter (bit m) [0..<16])"

lemma and_nat_le: "and m n \<le> (n :: nat)"
proof -
  have "and (int m) (int n) \<le> int n" by (rule AND_upper2) simp
  then show ?thesis by (simp add: and_nat_def nat_le_iff)
qed

lemma clear_lowest_less: "0 < m \<Longrightarrow> and m (m - 1) < (m :: nat)"
  using and_nat_le [of m "m - 1"] by linarith

function walk_bits :: "nat \<Rightarrow> nat list" where
  "walk_bits m = (if m = 0 then [] else trailing_zeros m # walk_bits (and m (m - 1)))"
  by pat_completeness auto
termination
  by (relation "measure id") (use clear_lowest_less in auto)

declare walk_bits.simps [simp del]

lemma walk_bits_0 [simp]: "walk_bits 0 = []"
  by (simp add: walk_bits.simps)

lemma trailing_zeros_double: "0 < m \<Longrightarrow> trailing_zeros (2 * m) = Suc (trailing_zeros m)"
  by (subst trailing_zeros.simps) simp

lemma trailing_zeros_odd: "trailing_zeros (Suc (2 * m)) = 0"
  by (subst trailing_zeros.simps) simp

lemma walk_bits_double: "walk_bits (2 * m) = map Suc (walk_bits m)"
proof (induction m rule: walk_bits.induct)
  case (1 m)
  show ?case
  proof (cases "m = 0")
    case False
    then have "(2 * m - 1) div 2 = m - 1" by linarith
    then have "and (2 * m) (2 * m - 1) = 2 * and m (m - 1)"
      by (subst and_nat_rec) simp
    then show ?thesis using "1.IH" False
      by (simp add: walk_bits.simps [of "2 * m"] walk_bits.simps [of m] trailing_zeros_double)
  qed simp
qed

lemma walk_bits_odd: "walk_bits (Suc (2 * m)) = 0 # map Suc (walk_bits m)"
proof -
  have "and (Suc (2 * m)) (2 * m) = 2 * m" by (subst and_nat_rec) simp
  then show ?thesis by (simp add: walk_bits.simps [of "Suc (2 * m)"] trailing_zeros_odd walk_bits_double)
qed

lemma filter_bit_shift:
  "filter (bit m) [0..<Suc n] = (if odd m then [0] else []) @ map Suc (filter (bit (m div 2)) [0..<n])"
proof -
  have "filter (bit m) [0..<Suc n] = filter (bit m) (0 # map Suc [0..<n])"
    by (simp only: upt_conv_Cons zero_less_Suc map_Suc_upt)
  then show ?thesis by (simp add: filter_map comp_def bit_Suc bit_0)
qed

lemma walk_bits_filter: "m < 2 ^ n \<Longrightarrow> walk_bits m = filter (bit m) [0..<n]"
proof (induction n arbitrary: m)
  case (Suc n)
  have "walk_bits (m div 2) = filter (bit (m div 2)) [0..<n]"
    using Suc.prems by (intro Suc.IH) simp
  then show ?case unfolding filter_bit_shift
    using walk_bits_double [of "m div 2"] walk_bits_odd [of "m div 2"]
    by (cases "odd m") (simp_all add: odd_two_times_div_two_succ)
qed simp

text \<open>The walk over a \<open>u8\<close>.\<close>

lemma walk_bits_u8: "m < 256 \<Longrightarrow> walk_bits m = filter (bit m) [0..<MAX_EDGES]"
  using walk_bits_filter [of m 8] by (simp add: MAX_EDGES_def)

lemma trailing_zeros_hd: "0 < m \<Longrightarrow> trailing_zeros m = hd (walk_bits m)"
  by (simp add: walk_bits.simps)

lemma mask_bit_less: "m < 2 ^ n \<Longrightarrow> bit m i \<Longrightarrow> i < (n :: nat)" for m :: nat
proof (rule ccontr)
  assume m: "m < 2 ^ n" and b: "bit m i" and "\<not> i < n"
  then have "(2 :: nat) ^ n \<le> 2 ^ i" by simp
  then have "m div 2 ^ i = 0" using m by (intro div_less less_le_trans [OF m])
  then show False using b by (simp add: bit_iff_odd)
qed

lemma mask_nonzero: "m \<noteq> (0 :: nat) \<longleftrightarrow> (\<exists>i. bit m i)"
  by (metis bit_0_eq bit_eqI bot_apply bot_bool_def)

lemma count_ones_filter:
  assumes "m < 2 ^ n" "n \<le> 16"
  shows "count_ones m = length (filter (bit m) [0..<n])"
proof -
  have "m < 2 ^ 16" using assms(1) power_increasing [OF assms(2), of "2 :: nat"] by linarith
  then show ?thesis using walk_bits_filter [of m 16] walk_bits_filter [OF assms(1)] by (simp add: count_ones_def)
qed

lemma count_ones_pos:
  assumes "m \<noteq> 0" "m < 2 ^ n" "n \<le> 16"
  shows "0 < count_ones m"
proof -
  obtain i where i: "bit m i" using assms(1) mask_nonzero by blast
  then have "i \<in> set (filter (bit m) [0..<n])" using mask_bit_less [OF assms(2)] by simp
  then have "filter (bit m) [0..<n] \<noteq> []" by force
  then show ?thesis using count_ones_filter [OF assms(2,3)] by simp
qed

lemma count_ones_exp:
  assumes "i < 16"
  shows "count_ones (2 ^ i) = 1"
proof -
  have "length (filter (bit (2 ^ i :: nat)) [0..<n]) = 1" if "i < n" for n
  proof -
    have "{j. j < length [0..<n] \<and> bit (2 ^ i :: nat) ([0..<n] ! j)} = {i}"
      using that by (auto simp: bit_exp_iff)
    then show ?thesis by (simp add: length_filter_conv_card)
  qed
  from this [OF assms] show ?thesis by (simp only: count_ones_def)
qed

end
