(* ===== verification/Tape.thy ===== *)
theory Tape
  imports Waterfill Masks
begin

text \<open>
  Residual Tape (\<open>optimizer/tape.rs\<close>): the merged order of the selected venues is built once, with a
  two-stream merge or a tournament tree, as prefix rows counting the complete bands per venue; a
  query finds its row by binary search on the rank of a row. Arrays written front to back (\<open>prefix\<close>,
  \<open>owner\<close>, the indexed capacities and integrals) are lists holding their written part.
\<close>

section \<open>Data\<close>

definition MAX_BANDS :: nat where "MAX_BANDS = MAX_EDGES * MAX_SEGMENTS"

definition NO_EDGE :: nat where "NO_EDGE = MAX_EDGES"

record indexed_curve =
  ix_capacity :: "nat list"
  ix_integral :: "nat list"
  ix_rates :: "nat list"
  ix_len :: nat

definition indexed_default :: indexed_curve where
  "indexed_default = \<lparr>ix_capacity = [0], ix_integral = [0], ix_rates = [], ix_len = 0\<rparr>"

record residual_tape =
  prefix_rows :: "nat list list"
  owner :: "nat list"
  tp_curves :: "indexed_curve list"
  tp_bands :: nat
  tp_edges :: nat
  compiled_mask :: nat

section \<open>Building\<close>

definition winner :: "nat \<Rightarrow> nat \<Rightarrow> nat list \<Rightarrow> nat" where
  "winner left right rates =
     (if left = NO_EDGE then right
      else if right = NO_EDGE \<or> rates ! right \<le> rates ! left then left else right)"

fun index_bands :: "segment list \<Rightarrow> nat \<Rightarrow> nat \<Rightarrow> (nat list \<times> nat list \<times> nat list) metered" where
  "index_bands [] cap area = ret ([], [], [])"
| "index_bands (s # ss) cap area =
     bindS (charge 1) (\<lambda>_.
     bindS (liftR (add_w 64 cap (input_capacity s))) (\<lambda>cap'.
     bindS (liftR (bindR (mul_w 128 (input_capacity s) (marginal_q32 s)) (add_w 128 area))) (\<lambda>area'.
     bindS (index_bands ss cap' area') (\<lambda>(caps, areas, rates).
     ret (cap' # caps, area' # areas, marginal_q32 s # rates)))))"

fun index_curves :: "curve list \<Rightarrow> nat \<Rightarrow> nat \<Rightarrow> indexed_curve list metered" where
  "index_curves [] i sel = ret []"
| "index_curves (c # cs) i sel =
     bindS
       (if bit sel i then
          bindS (liftR (validate c)) (\<lambda>_.
          bindS (index_bands (bands c) 0 0) (\<lambda>(caps, areas, rates).
          ret \<lparr>ix_capacity = 0 # caps, ix_integral = 0 # areas, ix_rates = rates, ix_len = cv_len c\<rparr>))
        else ret indexed_default) (\<lambda>x.
     bindS (index_curves cs (Suc i) sel) (\<lambda>xs. ret (x # xs)))"

definition push_band :: "residual_tape \<Rightarrow> nat \<Rightarrow> residual_tape res" where
  "push_band t i =
     (if MAX_BANDS \<le> tp_bands t then Inl Panic
      else bindR (index_at (prefix_rows t) (tp_bands t)) (\<lambda>row.
        bindR (index_at row i) (\<lambda>x.
        bindR (add_w 8 x 1) (\<lambda>x'.
        Inr (t\<lparr>prefix_rows := prefix_rows t @ [row[i := x']], owner := owner t @ [i],
               tp_bands := Suc (tp_bands t)\<rparr>)))))"

text \<open>One band of venue \<open>i\<close> goes on the tape; the flag says whether the venue has another one.\<close>

definition merge_step ::
  "curve list \<Rightarrow> nat list \<Rightarrow> nat list \<Rightarrow> residual_tape \<Rightarrow> nat \<Rightarrow>
     (residual_tape \<times> nat list \<times> nat list \<times> bool) res"
where
  "merge_step cs cursor rates t i =
     bindR (push_band t i) (\<lambda>t'.
     bindR (index_at cursor i) (\<lambda>k.
     bindR (index_at cs i) (\<lambda>c.
       if Suc k < cv_len c then
         bindR (index_at (segments c) (Suc k)) (\<lambda>s.
         bindR (store_at rates i (marginal_q32 s)) (\<lambda>rates'.
         Inr (t', cursor[i := Suc k], rates', True)))
       else Inr (t', cursor[i := Suc k], rates, False))))"

lemma push_band_bands: "push_band t i = Inr t' \<Longrightarrow> tp_bands t < MAX_BANDS \<and> tp_bands t' = Suc (tp_bands t)"
  by (auto simp: push_band_def bindR_Inr split: if_splits)

lemma merge_step_bands:
  "merge_step cs cursor rates t i = Inr (t', cursor', rates', again) \<Longrightarrow>
     tp_bands t < MAX_BANDS \<and> tp_bands t' = Suc (tp_bands t)"
  by (auto simp: merge_step_def bindR_Inr dest: push_band_bands split: if_splits)

function merge_two ::
  "curve list \<Rightarrow> nat list \<Rightarrow> nat list \<Rightarrow> nat \<Rightarrow> nat \<Rightarrow> residual_tape \<Rightarrow> residual_tape metered"
where
  "merge_two cs cursor rates left right t m =
     (case charge 1 m of
        (Inl e, m') \<Rightarrow> (Inl e, m')
      | (Inr _, m') \<Rightarrow>
          let best = winner left right rates in
          if best = NO_EDGE then (Inr t, m')
          else case merge_step cs cursor rates t best of
              Inl e \<Rightarrow> (Inl e, m')
            | Inr (t', cursor', rates', again) \<Rightarrow>
                merge_two cs cursor' rates'
                  (if \<not> again \<and> best = left then NO_EDGE else left)
                  (if \<not> again \<and> best \<noteq> left then NO_EDGE else right) t' m')"
  by pat_completeness auto
termination
  by (relation "measure (\<lambda>(cs, cursor, rates, left, right, t, m). MAX_BANDS - tp_bands t)")
     (auto dest!: merge_step_bands)

declare merge_two.simps [simp del]

function repair :: "nat \<Rightarrow> nat list \<Rightarrow> nat list \<Rightarrow> nat list metered" where
  "repair node winners rates =
     (if node = 0 then ret winners
      else bindS (charge 1) (\<lambda>_.
        repair (node div 2)
          (winners[node := winner (winners ! (2 * node)) (winners ! (2 * node + 1)) rates]) rates))"
  by pat_completeness auto
termination
  by (relation "measure (\<lambda>(node, _). node)") auto

declare repair.simps [simp del]

fun init_tree :: "nat list \<Rightarrow> nat list \<Rightarrow> nat list \<Rightarrow> nat list metered" where
  "init_tree [] winners rates = ret winners"
| "init_tree (node # nodes) winners rates =
     bindS (charge 1) (\<lambda>_.
       init_tree nodes
         (winners[node := winner (winners ! (2 * node)) (winners ! (2 * node + 1)) rates]) rates)"

function merge_tree ::
  "curve list \<Rightarrow> nat list \<Rightarrow> nat list \<Rightarrow> nat list \<Rightarrow> residual_tape \<Rightarrow> residual_tape metered"
where
  "merge_tree cs cursor rates winners t m =
     (let i = winners ! 1 in
      if i = NO_EDGE then (Inr t, m)
      else case merge_step cs cursor rates t i of
          Inl e \<Rightarrow> (Inl e, m)
        | Inr (t', cursor', rates', again) \<Rightarrow>
            (case repair ((MAX_EDGES + i) div 2)
                (if again then winners else winners[MAX_EDGES + i := NO_EDGE]) rates' m of
               (Inl e, m') \<Rightarrow> (Inl e, m')
             | (Inr winners', m') \<Rightarrow> merge_tree cs cursor' rates' winners' t' m'))"
  by pat_completeness auto
termination
  by (relation "measure (\<lambda>(cs, cursor, rates, winners, t, m). MAX_BANDS - tp_bands t)")
     (auto dest!: merge_step_bands)

declare merge_tree.simps [simp del]

definition first_rates :: "curve list \<Rightarrow> nat \<Rightarrow> nat list" where
  "first_rates cs sel =
     map (\<lambda>i. if i < length cs \<and> bit sel i then marginal_q32 (segments (cs ! i) ! 0) else 0) [0..<MAX_EDGES]"

definition first_winners :: "curve list \<Rightarrow> nat \<Rightarrow> nat list" where
  "first_winners cs sel =
     replicate MAX_EDGES NO_EDGE @
     map (\<lambda>i. if i < length cs \<and> bit sel i then i else NO_EDGE) [0..<MAX_EDGES]"

definition build :: "curve list \<Rightarrow> nat \<Rightarrow> residual_tape metered" where
  "build cs sel =
     (if cs = [] \<or> MAX_EDGES < length cs \<or> sel = 0 \<or> 2 ^ length cs \<le> sel then liftR (fail Bounds)
      else bindS (index_curves cs 0 sel) (\<lambda>ixs.
        let t = \<lparr>prefix_rows = [replicate MAX_EDGES 0], owner = [0],
                 tp_curves = ixs @ replicate (MAX_EDGES - length cs) indexed_default,
                 tp_bands = 0, tp_edges = length cs, compiled_mask = sel\<rparr>;
            cursor = replicate MAX_EDGES 0; rates = first_rates cs sel in
        if count_ones sel \<le> 2 then
          let rest = and sel (sel - 1) in
          merge_two cs cursor rates (trailing_zeros sel)
            (if rest = 0 then NO_EDGE else trailing_zeros rest) t
        else bindS (init_tree [7, 6, 5, 4, 3, 2, 1] (first_winners cs sel) rates) (\<lambda>winners.
          merge_tree cs cursor rates winners t)))"

section \<open>Queries\<close>

fun matches_bands :: "segment list \<Rightarrow> nat \<Rightarrow> nat \<Rightarrow> indexed_curve \<Rightarrow> nat option" where
  "matches_bands [] j capacity x = Some capacity"
| "matches_bands (s # ss) j capacity x =
     (case checked_add 64 capacity (input_capacity s) of
        None \<Rightarrow> None
      | Some capacity' \<Rightarrow>
          if capacity' \<noteq> ix_capacity x ! Suc j \<or> marginal_q32 s \<noteq> ix_rates x ! j then None
          else matches_bands ss (Suc j) capacity' x)"

definition submask_u8 :: "nat \<Rightarrow> nat \<Rightarrow> bool" where
  "submask_u8 a b \<longleftrightarrow> list_all (\<lambda>i. bit a i \<longrightarrow> bit b i) [0..<MAX_EDGES]"

definition tape_matches :: "residual_tape \<Rightarrow> curve list \<Rightarrow> nat \<Rightarrow> bool" where
  "tape_matches t cs sel \<longleftrightarrow>
     length cs = tp_edges t \<and> submask_u8 sel (compiled_mask t) \<and>
     list_all (\<lambda>i. bit sel i \<longrightarrow>
        cv_len (cs ! i) = ix_len (tp_curves t ! i) \<and> cv_len (cs ! i) \<le> MAX_SEGMENTS \<and>
        matches_bands (bands (cs ! i)) 0 0 (tp_curves t ! i) = Some (cv_capacity (cs ! i)))
       [0..<length cs]"

text \<open>\<open>self.curves[i].capacity[self.prefix[row][i]]\<close>.\<close>

definition row_capacity :: "residual_tape \<Rightarrow> nat \<Rightarrow> nat \<Rightarrow> nat res" where
  "row_capacity t row i =
     bindR (index_at (prefix_rows t) row) (\<lambda>r.
     bindR (index_at r i) (\<lambda>k.
     bindR (index_at (tp_curves t) i) (\<lambda>x. index_at (ix_capacity x) k)))"

fun rank_loop :: "residual_tape \<Rightarrow> nat \<Rightarrow> nat list \<Rightarrow> nat \<Rightarrow> nat metered" where
  "rank_loop t row [] acc = ret acc"
| "rank_loop t row (i # is) acc =
     bindS (charge 1) (\<lambda>_.
     bindS (liftR (bindR (row_capacity t row i) (add_w 64 acc))) (rank_loop t row is))"

definition rank :: "residual_tape \<Rightarrow> nat \<Rightarrow> nat \<Rightarrow> nat metered" where
  "rank t row sel = rank_loop t row (walk_bits sel) 0"

text \<open>The binary search of both query paths, over the probe the loop evaluates.\<close>

function bsearch :: "(nat \<Rightarrow> bool metered) \<Rightarrow> nat \<Rightarrow> nat \<Rightarrow> nat metered" where
  "bsearch probe lo hi m =
     (if lo < hi then
        case probe (lo + (hi - lo) div 2) m of
          (Inl e, m') \<Rightarrow> (Inl e, m')
        | (Inr reached, m') \<Rightarrow>
            if reached then bsearch probe lo (lo + (hi - lo) div 2) m'
            else bsearch probe (lo + (hi - lo) div 2 + 1) hi m'
      else (Inr lo, m))"
  by pat_completeness auto
termination
  by (relation "measure (\<lambda>(probe, lo, hi, m). hi - lo)") auto

declare bsearch.simps [simp del]

definition single_output :: "indexed_curve \<Rightarrow> nat \<Rightarrow> nat \<Rightarrow> nat res" where
  "single_output x amount lo =
     bindR (sub_w lo 1) (\<lambda>before.
     bindR (index_at (ix_integral x) before) (\<lambda>base.
     bindR (index_at (ix_capacity x) before) (\<lambda>filled.
     bindR (sub_w amount filled) (\<lambda>part.
     bindR (index_at (ix_rates x) before) (\<lambda>rate.
     bindR (mul_w 128 part rate) (\<lambda>area.
     bindR (add_w 128 base area) (\<lambda>integral'.
     as_u64 (integral' div SCALE))))))))"

definition allocate_single :: "residual_tape \<Rightarrow> bool \<Rightarrow> nat \<Rightarrow> nat \<Rightarrow> curve list \<Rightarrow> allocation metered" where
  "allocate_single t lower amount sel cs =
     bindS (charge 1) (\<lambda>_.
     let i = trailing_zeros sel; x = tp_curves t ! i in
     bindS (liftR (index_at (ix_capacity x) (ix_len x))) (\<lambda>full.
     if full < amount then liftR (fail Capacity)
     else bindS
       (bsearch (\<lambda>mid. bindS (charge 1) (\<lambda>_.
          bindS (liftR (index_at (ix_capacity x) mid)) (\<lambda>c. ret (amount \<le> c)))) 1 (ix_len x)) (\<lambda>lo.
       bindS (liftR (single_output x amount lo)) (\<lambda>out.
       bindS (liftR (
         if lower then bindR (index_at cs i) (\<lambda>c. Inr (out - lower_error_atoms c)) else Inr out)) (\<lambda>out'.
       ret (allocation_default
         \<lparr>inputs := (replicate MAX_EDGES 0)[i := amount], al_output := out', al_mask := sel\<rparr>))))))"

fun fill_complete :: "residual_tape \<Rightarrow> nat \<Rightarrow> nat list \<Rightarrow> nat list \<Rightarrow> nat \<Rightarrow> (nat list \<times> nat) metered" where
  "fill_complete t row [] ins filled = ret (ins, filled)"
| "fill_complete t row (i # is) ins filled =
     bindS (charge 1) (\<lambda>_.
     bindS (liftR (row_capacity t row i)) (\<lambda>c.
     bindS (liftR (store_at ins i c)) (\<lambda>ins'.
     bindS (liftR (add_w 64 filled c)) (\<lambda>filled'.
     fill_complete t row is ins' filled'))))"

fun collect_areas ::
  "residual_tape \<Rightarrow> bool \<Rightarrow> curve list \<Rightarrow> nat \<Rightarrow> nat \<Rightarrow> nat \<Rightarrow> nat list \<Rightarrow> nat list \<Rightarrow>
     nat \<Rightarrow> nat \<Rightarrow> nat \<Rightarrow> (nat \<times> nat \<times> nat) res"
where
  "collect_areas t lower cs row last_edge part [] ins pmask area low = Inr (pmask, area, low)"
| "collect_areas t lower cs row last_edge part (i # is) ins pmask area low =
     bindR (index_at ins i) (\<lambda>input.
     if 0 < input then
       bindR (index_at (prefix_rows t) row) (\<lambda>r.
       bindR (index_at r i) (\<lambda>completed.
       bindR (index_at (ix_integral (tp_curves t ! i)) completed) (\<lambda>base.
       bindR (if i = last_edge then
                bindR (index_at (ix_rates (tp_curves t ! i)) completed) (\<lambda>rate.
                bindR (mul_w 128 part rate) (add_w 128 base))
              else Inr base) (\<lambda>venue.
       bindR (add_w 128 area venue) (\<lambda>area'.
       bindR (if lower then
                bindR (as_u64 (venue div SCALE)) (\<lambda>q.
                bindR (index_at cs i) (\<lambda>c.
                ok_or (checked_add 64 low (q - lower_error_atoms c)) Arithmetic))
              else Inr low) (\<lambda>low'.
       collect_areas t lower cs row last_edge part is ins (set_bit i pmask) area' low'))))))
     else collect_areas t lower cs row last_edge part is ins pmask area low)"

text \<open>The plan of the selected row: its predecessor's complete bands and one marginal band.\<close>

definition finish_row ::
  "residual_tape \<Rightarrow> bool \<Rightarrow> nat \<Rightarrow> nat \<Rightarrow> curve list \<Rightarrow> nat \<Rightarrow> nat list \<Rightarrow> nat \<Rightarrow> allocation res"
where
  "finish_row t lower amount sel cs lo ins filled =
     bindR (index_at (owner t) lo) (\<lambda>last_edge.
     bindR (sub_w amount filled) (\<lambda>part.
     bindR (index_at ins last_edge) (\<lambda>x.
     bindR (add_w 64 x part) (\<lambda>x'.
     let ins' = ins[last_edge := x'] in
     bindR (collect_areas t lower cs (lo - 1) last_edge part (walk_bits sel) ins' 0 0 0) (\<lambda>(pmask, area, low).
     bindR (as_u64 (area div SCALE)) (\<lambda>out.
     Inr \<lparr>inputs = ins', al_output = (if lower then low else out), al_mask = pmask\<rparr>))))))"

definition fill_row :: "residual_tape \<Rightarrow> bool \<Rightarrow> nat \<Rightarrow> nat \<Rightarrow> curve list \<Rightarrow> nat \<Rightarrow> allocation metered" where
  "fill_row t lower amount sel cs lo =
     bindS (liftR (sub_w lo 1)) (\<lambda>row.
     bindS (fill_complete t row (walk_bits sel) (replicate MAX_EDGES 0) 0) (\<lambda>(ins, filled).
     liftR (finish_row t lower amount sel cs lo ins filled)))"

definition allocate_rows :: "residual_tape \<Rightarrow> bool \<Rightarrow> nat \<Rightarrow> nat \<Rightarrow> curve list \<Rightarrow> allocation metered" where
  "allocate_rows t lower amount sel cs =
     bindS (rank t (tp_bands t) sel) (\<lambda>full.
     if full < amount then liftR (fail Capacity)
     else bindS (bsearch (\<lambda>mid. bindS (rank t mid sel) (\<lambda>r. ret (amount \<le> r))) 1 (tp_bands t))
       (fill_row t lower amount sel cs))"

definition allocate_inner :: "residual_tape \<Rightarrow> bool \<Rightarrow> nat \<Rightarrow> nat \<Rightarrow> curve list \<Rightarrow> allocation metered" where
  "allocate_inner t lower amount sel cs =
     (if amount = 0 \<or> MAX_ATOMS < amount then liftR (fail InvalidAmount)
      else if sel = 0 \<or> \<not> submask_u8 sel (compiled_mask t) then liftR (fail Bounds)
      else if count_ones sel = 1 then allocate_single t lower amount sel cs
      else allocate_rows t lower amount sel cs)"

definition allocate :: "residual_tape \<Rightarrow> nat \<Rightarrow> nat \<Rightarrow> allocation metered" where
  "allocate t amount sel = allocate_inner t False amount sel []"

definition allocate_lower :: "residual_tape \<Rightarrow> nat \<Rightarrow> nat \<Rightarrow> curve list \<Rightarrow> allocation metered" where
  "allocate_lower t amount sel cs = allocate_inner t True amount sel cs"

end
