(* ===== verification/Search.thy ===== *)
theory Search
  imports Tape Compiler
begin

text \<open>
  The cardinality-constrained search of \<open>optimizer/mod.rs\<close>: exact output of a plan, resource
  independence, admission of the eligible venues, the enumeration of venue subsets with a shortlist
  of four, exact evaluation of the shortlist and the certificate. The allocation query is a parameter
  of \<open>search_with\<close>; \<open>search_tape\<close> and \<open>search_reference\<close> pass the two allocators. The shortlist array
  is a list of its live prefix.
\<close>

section \<open>Data\<close>

definition MAX_FINALISTS :: nat where "MAX_FINALISTS = 4"

record search_stats =
  masks_considered :: nat
  feasible_allocations :: nat
  exact_simulations :: nat

record certificate =
  upper_output :: nat
  achieved_output :: nat
  gap_atoms :: nat

record search_report =
  rp_plan :: allocation
  rp_certificate :: certificate
  rp_stats :: search_stats

definition stats_default :: search_stats where
  "stats_default = \<lparr>masks_considered = 0, feasible_allocations = 0, exact_simulations = 0\<rparr>"

section \<open>Exact output and independence\<close>

fun exact_loop :: "snapshot list \<Rightarrow> nat \<Rightarrow> nat list \<Rightarrow> nat \<Rightarrow> nat res" where
  "exact_loop [] i ins out = Inr out"
| "exact_loop (s # ss) i ins out =
     bindR (index_at ins i) (\<lambda>x.
       if x = 0 then exact_loop ss (Suc i) ins out
       else bindR (exact_quote s x) (\<lambda>q.
         bindR (ok_or (checked_add 64 out q) Arithmetic) (exact_loop ss (Suc i) ins)))"

definition exact_output :: "snapshot list \<Rightarrow> allocation \<Rightarrow> nat res" where
  "exact_output snapshots plan = exact_loop snapshots 0 (inputs plan) 0"

fun independent_loop :: "snapshot list \<Rightarrow> nat \<Rightarrow> nat \<Rightarrow> 64 word \<Rightarrow> bool" where
  "independent_loop [] i sel resources = True"
| "independent_loop (s # ss) i sel resources =
     (if \<not> bit sel i then independent_loop ss (Suc i) sel resources
      else if and resources (writable_resources s) \<noteq> 0 then False
      else independent_loop ss (Suc i) sel (or resources (writable_resources s)))"

definition independent :: "snapshot list \<Rightarrow> nat \<Rightarrow> bool" where
  "independent snapshots sel = independent_loop snapshots 0 sel 0"

section \<open>Admission of the eligible venues\<close>

definition admit_venue ::
  "snapshot list \<Rightarrow> curve list \<Rightarrow> nat \<Rightarrow> (key \<times> key) option \<Rightarrow> nat \<Rightarrow> (key \<times> key) option res"
where
  "admit_venue snapshots curves eligible pair i =
     (let s = snapshots ! i; current = (input_mint s, output_mint s) in
      if input_mint s = output_mint s \<or> \<not> atomic s \<or> \<not> enabled s then fail Unsupported
      else if (case pair of None \<Rightarrow> False | Some p \<Rightarrow> p \<noteq> current) then fail Identity
      else bindR (index_at curves i) (\<lambda>c.
        if sn_capacity s < cv_capacity c then fail Capacity
        else if list_ex (\<lambda>j. bit eligible j \<and>
            (market (snapshots ! j) = market s \<or> liquidity_id (snapshots ! j) = liquidity_id s)) [0..<i]
          then fail AliasedLiquidity
        else Inr (Some current)))"

fun admit_loop ::
  "snapshot list \<Rightarrow> curve list \<Rightarrow> nat \<Rightarrow> (key \<times> key) option \<Rightarrow> nat list \<Rightarrow> unit res"
where
  "admit_loop snapshots curves eligible pair [] = Inr ()"
| "admit_loop snapshots curves eligible pair (i # is) =
     (if \<not> bit eligible i then admit_loop snapshots curves eligible pair is
      else bindR (admit_venue snapshots curves eligible pair i) (\<lambda>pair'.
        admit_loop snapshots curves eligible pair' is))"

fun add_upper :: "curve list \<Rightarrow> nat \<Rightarrow> nat \<Rightarrow> nat \<Rightarrow> nat res" where
  "add_upper [] i eligible upper = Inr upper"
| "add_upper (c # cs) i eligible upper =
     (if bit eligible i then
        bindR (ok_or (checked_add 64 upper (upper_error_atoms c)) Arithmetic) (add_upper cs (Suc i) eligible)
      else add_upper cs (Suc i) eligible upper)"

section \<open>The shortlist\<close>

definition shortlist_pos :: "allocation \<Rightarrow> allocation list \<Rightarrow> nat" where
  "shortlist_pos p fs = length (takeWhile (\<lambda>f. al_output p \<le> al_output f) fs)"

definition shortlist :: "allocation \<Rightarrow> allocation list \<Rightarrow> allocation list" where
  "shortlist p fs =
     (if list_ex (\<lambda>f. inputs f = inputs p) fs then fs
      else if MAX_FINALISTS \<le> shortlist_pos p fs then fs
      else take MAX_FINALISTS (insert_at (shortlist_pos p fs) p fs))"

type_synonym alloc_query = "nat \<Rightarrow> bool \<Rightarrow> allocation metered"

text \<open>A query that runs out of capacity skips the subset; every other error ends the search.\<close>

definition try_query :: "alloc_query \<Rightarrow> nat \<Rightarrow> allocation option metered" where
  "try_query query sel m =
     (case query sel True m of
        (Inl e, m') \<Rightarrow> if e = Err Capacity then (Inr None, m') else (Inl e, m')
      | (Inr p, m') \<Rightarrow> (Inr (Some p), m'))"

definition consider_mask ::
  "snapshot list \<Rightarrow> nat \<Rightarrow> nat \<Rightarrow> alloc_query \<Rightarrow> nat \<Rightarrow> allocation list \<times> search_stats \<Rightarrow>
     (allocation list \<times> search_stats) metered"
where
  "consider_mask snapshots eligible max_legs query sel st =
     (case st of (fs, stats) \<Rightarrow>
      if \<not> submask_u8 sel eligible \<or> max_legs < count_ones sel then ret (fs, stats)
      else bindS (liftR (add_w 16 (masks_considered stats) 1)) (\<lambda>k.
        let stats = stats\<lparr>masks_considered := k\<rparr> in
        if \<not> independent snapshots sel then ret (fs, stats)
        else bindS (try_query query sel) (\<lambda>r.
          case r of
            None \<Rightarrow> ret (fs, stats)
          | Some p \<Rightarrow>
              bindS (liftR (add_w 16 (feasible_allocations stats) 1)) (\<lambda>k.
              ret (shortlist p fs, stats\<lparr>feasible_allocations := k\<rparr>)))))"

fun search_masks ::
  "snapshot list \<Rightarrow> nat \<Rightarrow> nat \<Rightarrow> alloc_query \<Rightarrow> nat list \<Rightarrow> allocation list \<times> search_stats \<Rightarrow>
     (allocation list \<times> search_stats) metered"
where
  "search_masks snapshots eligible max_legs query [] st = ret st"
| "search_masks snapshots eligible max_legs query (sel # sels) st =
     bindS (charge 1) (\<lambda>_.
     bindS (consider_mask snapshots eligible max_legs query sel st)
       (search_masks snapshots eligible max_legs query sels))"

fun pick_best ::
  "snapshot list \<Rightarrow> allocation list \<Rightarrow> allocation \<Rightarrow> search_stats \<Rightarrow> (allocation \<times> search_stats) metered"
where
  "pick_best snapshots [] best stats = ret (best, stats)"
| "pick_best snapshots (f # fs) best stats =
     bindS (charge (length snapshots)) (\<lambda>_.
     bindS (liftR (add_w 8 (exact_simulations stats) 1)) (\<lambda>k.
     bindS (liftR (exact_output snapshots f)) (\<lambda>exact.
       pick_best snapshots fs
         (if al_mask best = 0 \<or> al_output best < exact then f\<lparr>al_output := exact\<rparr> else best)
         (stats\<lparr>exact_simulations := k\<rparr>))))"

section \<open>The search\<close>

definition search_with ::
  "snapshot list \<Rightarrow> curve list \<Rightarrow> nat \<Rightarrow> nat \<Rightarrow> nat \<Rightarrow> alloc_query \<Rightarrow> search_report metered"
where
  "search_with snapshots curves amount eligible max_legs query =
     (if length snapshots \<noteq> length curves \<or> snapshots = [] \<or> MAX_EDGES < length snapshots
         \<or> max_legs = 0 \<or> MAX_LEGS < max_legs then liftR (fail Bounds)
      else if amount = 0 \<or> MAX_ATOMS < amount then liftR (fail InvalidAmount)
      else bindS (liftR (admit_loop snapshots curves eligible None [0..<length snapshots])) (\<lambda>_.
        bindS (query eligible False) (\<lambda>relaxed.
        bindS (liftR (add_upper curves 0 eligible (al_output relaxed))) (\<lambda>upper.
        bindS (search_masks snapshots eligible max_legs query [1..<2 ^ length curves] ([], stats_default))
          (\<lambda>(finalists, stats).
        if finalists = [] then liftR (fail Capacity)
        else bindS (pick_best snapshots finalists allocation_default stats) (\<lambda>(best, stats).
          if upper < al_output best then liftR (fail InvalidCurve)
          else bindS (liftR (sub_w upper (al_output best))) (\<lambda>gap.
            ret \<lparr>rp_plan = best,
                 rp_certificate = \<lparr>upper_output = upper, achieved_output = al_output best, gap_atoms = gap\<rparr>,
                 rp_stats = stats\<rparr>)))))))"

definition tape_query :: "curve list \<Rightarrow> residual_tape \<Rightarrow> nat \<Rightarrow> alloc_query" where
  "tape_query curves tape amount sel lower =
     (if lower then allocate_lower tape amount sel curves else allocate tape amount sel)"

definition search_tape ::
  "snapshot list \<Rightarrow> curve list \<Rightarrow> residual_tape \<Rightarrow> nat \<Rightarrow> nat \<Rightarrow> nat \<Rightarrow> search_report metered"
where
  "search_tape snapshots curves tape amount eligible max_legs =
     (if \<not> tape_matches tape curves eligible then liftR (fail Identity)
      else search_with snapshots curves amount eligible max_legs (tape_query curves tape amount))"

definition search :: "snapshot list \<Rightarrow> curve list \<Rightarrow> nat \<Rightarrow> nat \<Rightarrow> nat \<Rightarrow> search_report metered" where
  "search snapshots curves amount eligible max_legs =
     bindS (build curves eligible) (\<lambda>tape.
     search_tape snapshots curves tape amount eligible max_legs)"

fun lower_outputs :: "curve list \<Rightarrow> nat \<Rightarrow> nat list \<Rightarrow> nat \<Rightarrow> nat res" where
  "lower_outputs [] i ins out = Inr out"
| "lower_outputs (c # cs) i ins out =
     bindR (index_at ins i) (\<lambda>x.
       if 0 < x then
         bindR (lower_quote c x) (\<lambda>q.
         bindR (ok_or (checked_add 64 out q) Arithmetic) (lower_outputs cs (Suc i) ins))
       else lower_outputs cs (Suc i) ins out)"

definition stream_query :: "curve list \<Rightarrow> nat \<Rightarrow> alloc_query" where
  "stream_query curves amount sel lower =
     bindS (waterfill curves amount sel) (\<lambda>p.
       if lower then
         bindS (liftR (lower_outputs curves 0 (inputs p) 0)) (\<lambda>out. ret (p\<lparr>al_output := out\<rparr>))
       else ret p)"

definition search_reference :: "snapshot list \<Rightarrow> curve list \<Rightarrow> nat \<Rightarrow> nat \<Rightarrow> nat \<Rightarrow> search_report metered" where
  "search_reference snapshots curves amount eligible max_legs =
     search_with snapshots curves amount eligible max_legs (stream_query curves amount)"

end
