(* ===== verification/TapeBuild.thy ===== *)
theory TapeBuild
  imports Tape Optimal
begin

text \<open>
  What a built tape holds: the merged order of the compiled venues, one prefix row per band, and the
  indexed capacities, areas and rates of every compiled curve. Both merges are proved to produce it;
  the tournament tree keeps at every node the best active venue among its leaves.
\<close>

section \<open>The contents of a tape\<close>

definition area :: "segment list \<Rightarrow> nat" where
  "area bs = sum_list (map (\<lambda>b. input_capacity b * marginal_q32 b) bs)"

definition cnt :: "nat \<Rightarrow> (nat \<times> segment) list \<Rightarrow> nat" where
  "cnt i ps = length (filter (\<lambda>(j, s). j = i) ps)"

definition prefix_table :: "(nat \<times> segment) list \<Rightarrow> nat list list" where
  "prefix_table ps = map (\<lambda>k. map (\<lambda>i. cnt i (take k ps)) [0..<MAX_EDGES]) [0..<Suc (length ps)]"

definition indexes :: "curve \<Rightarrow> indexed_curve \<Rightarrow> bool" where
  "indexes c x \<longleftrightarrow>
     ix_len x = cv_len c \<and> ix_rates x = map marginal_q32 (bands c) \<and>
     ix_capacity x = map (\<lambda>k. total (take k (bands c))) [0..<Suc (length (bands c))] \<and>
     ix_integral x = map (\<lambda>k. area (take k (bands c))) [0..<Suc (length (bands c))]"

definition tape_header :: "curve list \<Rightarrow> nat \<Rightarrow> residual_tape \<Rightarrow> bool" where
  "tape_header cs sel t \<longleftrightarrow>
     tp_edges t = length cs \<and> compiled_mask t = sel \<and> length (tp_curves t) = MAX_EDGES \<and>
     (\<forall>i < length cs. bit sel i \<longrightarrow> indexes (cs ! i) (tp_curves t ! i))"

definition tape_rows :: "(nat \<times> segment) list \<Rightarrow> residual_tape \<Rightarrow> bool" where
  "tape_rows ps t \<longleftrightarrow>
     tp_bands t = length ps \<and> owner t = 0 # map fst ps \<and> prefix_rows t = prefix_table ps"

definition tape_of :: "curve list \<Rightarrow> nat \<Rightarrow> residual_tape \<Rightarrow> bool" where
  "tape_of cs sel t \<longleftrightarrow> tape_header cs sel t \<and> tape_rows (merged cs sel (\<lambda>_. 0)) t"

lemma area_simps [simp]:
  "area [] = 0" "area (b # bs) = input_capacity b * marginal_q32 b + area bs"
  by (simp_all add: area_def)

lemma cnt_simps [simp]:
  "cnt i [] = 0" "cnt i (ps @ qs) = cnt i ps + cnt i qs" "cnt i [(j, s)] = (if j = i then 1 else 0)"
  by (simp_all add: cnt_def)

lemma integral_total: "integral bs (total bs) = area bs"
  by (induction bs) auto

lemma cnt_merged:
  assumes "curves_ok cs sel"
  shows "cnt i (merged cs sel (\<lambda>_. 0)) = (if i < length cs \<and> bit sel i then cv_len (cs ! i) else 0)"
proof -
  have "cnt i (merged cs sel (\<lambda>_. 0)) =
      length (map snd (filter (\<lambda>(j, s). j = i) (merged cs sel (\<lambda>_. 0))))"
    by (simp only: cnt_def length_map)
  also have "\<dots> = length (if i < length cs \<and> bit sel i then drop 0 (bands (cs ! i)) else [])"
    by (subst merged_venue) (use assms in \<open>auto simp: curves_ok_def\<close>)
  also have "\<dots> = (if i < length cs \<and> bit sel i then cv_len (cs ! i) else 0)"
    using curves_okD [OF assms, of i] by auto
  finally show ?thesis .
qed

lemma length_merged:
  assumes "curves_ok cs sel" "length cs \<le> MAX_EDGES"
  shows "length (merged cs sel (\<lambda>_. 0)) \<le> MAX_BANDS"
proof -
  let ?ps = "merged cs sel (\<lambda>_. 0)"
  have "\<forall>(i, s) \<in> set ?ps. i < length cs" using merged_elem by fastforce
  from sum_by_venue [OF this, of "\<lambda>_. 1"]
  have "length ?ps = (\<Sum>i<length cs. cnt i ?ps)"
    by (simp add: cnt_def comp_def map_replicate_const sum_list_replicate)
  also have "\<dots> \<le> (\<Sum>i<length cs. MAX_SEGMENTS)"
    by (rule sum_mono) (use assms in \<open>auto simp: cnt_merged curves_ok_def valid_curve_def\<close>)
  also have "\<dots> \<le> MAX_BANDS" using assms(2) by (simp add: MAX_BANDS_def)
  finally show ?thesis .
qed

lemma prefix_table_snoc:
  "prefix_table (ps @ [p]) = prefix_table ps @ [map (\<lambda>i. cnt i (ps @ [p])) [0..<MAX_EDGES]]"
  by (auto simp: prefix_table_def simp del: cnt_simps)

lemma prefix_table_nth:
  "k \<le> length ps \<Longrightarrow> prefix_table ps ! k = map (\<lambda>i. cnt i (take k ps)) [0..<MAX_EDGES]"
  by (simp add: prefix_table_def nth_append del: upt_Suc)

section \<open>One merge step\<close>

text \<open>Everything of the tape but its rows is fixed before the merge.\<close>

definition same_header :: "residual_tape \<Rightarrow> residual_tape \<Rightarrow> bool" where
  "same_header t t' \<longleftrightarrow>
     tp_edges t' = tp_edges t \<and> compiled_mask t' = compiled_mask t \<and> tp_curves t' = tp_curves t"

lemma same_header_refl [simp]: "same_header t t"
  by (simp add: same_header_def)

lemma same_header_trans: "same_header t t' \<Longrightarrow> same_header t' t'' \<Longrightarrow> same_header t t''"
  by (simp add: same_header_def)

lemma tape_header_same: "same_header t t' \<Longrightarrow> tape_header cs sel t \<Longrightarrow> tape_header cs sel t'"
  by (simp add: same_header_def tape_header_def)

definition merge_inv :: "curve list \<Rightarrow> nat \<Rightarrow> nat list \<Rightarrow> nat list \<Rightarrow> residual_tape \<Rightarrow> bool" where
  "merge_inv cs sel cursor rates t \<longleftrightarrow>
     length cursor = MAX_EDGES \<and> length rates = MAX_EDGES \<and>
     (\<forall>j. active cs sel ((!) cursor) j \<longrightarrow> rates ! j = head_rate cs ((!) cursor) j) \<and>
     (\<exists>ps. merged cs sel (\<lambda>_. 0) = ps @ merged cs sel ((!) cursor) \<and>
       (\<forall>i < MAX_EDGES. cursor ! i = cnt i ps) \<and> tape_rows ps t)"

lemma push_band_rows:
  assumes "tape_rows ps t" "length ps < MAX_BANDS" "i < MAX_EDGES" "cnt i ps < 16"
  shows "\<exists>t'. push_band t i = Inr t' \<and> tape_rows (ps @ [(i, s)]) t' \<and>
    tp_edges t' = tp_edges t \<and> compiled_mask t' = compiled_mask t \<and> tp_curves t' = tp_curves t"
proof -
  let ?row = "map (\<lambda>i. cnt i ps) [0..<MAX_EDGES]"
  have row: "prefix_rows t ! length ps = ?row" "length (prefix_rows t) = Suc (length ps)"
    using assms(1) by (simp_all add: tape_rows_def prefix_table_nth) (simp add: prefix_table_def)
  have "?row[i := Suc (cnt i ps)] = map (\<lambda>j. cnt j (ps @ [(i, s)])) [0..<MAX_EDGES]"
    using assms(3) by (intro nth_equalityI) (auto simp: nth_list_update)
  then show ?thesis using assms row
    by (simp add: push_band_def tape_rows_def prefix_table_snoc add_w_def)
qed

lemma merge_step_inv:
  assumes inv: "merge_inv cs sel cursor rates t" and ok: "curves_ok cs sel" "length cs \<le> MAX_EDGES"
    and pick: "pick_edge cs sel ((!) cursor) = Some i"
  obtains t' rates' where
    "merge_step cs cursor rates t i =
       Inr (t', cursor[i := Suc (cursor ! i)], rates', Suc (cursor ! i) < cv_len (cs ! i))"
    "merge_inv cs sel (cursor[i := Suc (cursor ! i)]) rates' t'"
    "\<And>j. j \<noteq> i \<Longrightarrow> rates' ! j = rates ! j"
    "same_header t t'"
proof -
  let ?cur' = "cursor[i := Suc (cursor ! i)]" and ?c = "cs ! i" and ?k = "cursor ! i"
  from inv obtain ps where ps: "merged cs sel (\<lambda>_. 0) = ps @ merged cs sel ((!) cursor)"
    "\<forall>i < MAX_EDGES. cursor ! i = cnt i ps" "tape_rows ps t" "length cursor = MAX_EDGES"
    "length rates = MAX_EDGES"
    and r: "\<And>j. active cs sel ((!) cursor) j \<Longrightarrow> rates ! j = head_rate cs ((!) cursor) j"
    by (auto simp: merge_inv_def)
  have act: "active cs sel ((!) cursor) i" using pick by (simp add: pick_edge_Some is_best_def)
  then have i: "i < length cs" "i < MAX_EDGES" "bit sel i" "?k < cv_len ?c"
    using ok(2) by (auto simp: active_def)
  note c = curves_okD [OF ok(1) i(1,3)]
  have adv: "(!) ?cur' = advance ((!) cursor) i" using i ps(4) by (simp add: cursor_advance)
  have m: "merged cs sel ((!) cursor) = (i, segments ?c ! ?k) # merged cs sel ((!) ?cur')"
    using pick by (simp add: merged_Some adv)
  have "length ps < MAX_BANDS" using length_merged [OF ok] ps(1) m by simp
  moreover have "cv_len ?c \<le> 16" using c by (simp add: valid_curve_def MAX_SEGMENTS_def)
  then have "cnt i ps < 16" using i(2,4) ps(2) by simp
  ultimately obtain t' where push: "push_band t i = Inr t'" "tape_rows (ps @ [(i, segments ?c ! ?k)]) t'"
    "tp_edges t' = tp_edges t" "compiled_mask t' = compiled_mask t" "tp_curves t' = tp_curves t"
    using push_band_rows [OF ps(3) _ i(2)] by blast
  let ?again = "Suc ?k < cv_len ?c"
  let ?rates' = "if ?again then rates[i := marginal_q32 (segments ?c ! Suc ?k)] else rates"
  have step: "merge_step cs cursor rates t i = Inr (t', ?cur', ?rates', ?again)"
    using push i ps(4,5) c by (simp add: merge_step_def)
  have "merge_inv cs sel ?cur' ?rates' t'"
    unfolding merge_inv_def
  proof (intro conjI allI impI exI [of _ "ps @ [(i, segments ?c ! ?k)]"])
    fix j assume "active cs sel ((!) ?cur') j"
    then show "?rates' ! j = head_rate cs ((!) ?cur') j"
      using r [of j] i ps(4,5) by (cases "j = i") (auto simp: active_def head_rate_def adv advance_apply)
  qed (use ps push m i in \<open>auto simp: nth_list_update\<close>)
  then show thesis using that [OF step] push by (simp add: same_header_def)
qed

section \<open>The best active venue, by tournament\<close>

definition best_in :: "nat set \<Rightarrow> nat list \<Rightarrow> nat \<Rightarrow> bool" where
  "best_in S rates e \<longleftrightarrow>
     (if S = {} then e = NO_EDGE
      else e \<in> S \<and> (\<forall>j \<in> S. rates ! j \<le> rates ! e \<and> (rates ! j = rates ! e \<longrightarrow> e \<le> j)))"

lemma winner_best:
  assumes "best_in S rates a" "best_in T rates b" "S \<subseteq> {..<MAX_EDGES}" "T \<subseteq> {..<MAX_EDGES}"
    and "\<forall>x \<in> S. \<forall>y \<in> T. x < y"
  shows "best_in (S \<union> T) rates (winner a b rates)"
proof (cases "S = {} \<or> T = {}")
  case True
  have "a \<noteq> NO_EDGE" if "S \<noteq> {}" using assms(1,3) that by (auto simp: best_in_def NO_EDGE_def)
  then show ?thesis using True assms(1,2)
    by (cases "S = {}"; cases "T = {}") (simp_all add: best_in_def winner_def)
next
  case False
  then have ab: "a \<in> S" "b \<in> T" "a < b" "a \<noteq> NO_EDGE" "b \<noteq> NO_EDGE"
    using assms by (auto simp: best_in_def NO_EDGE_def split: if_splits)
  have A: "\<And>j. j \<in> S \<Longrightarrow> rates ! j \<le> rates ! a \<and> (rates ! j = rates ! a \<longrightarrow> a \<le> j)"
    and B: "\<And>j. j \<in> T \<Longrightarrow> rates ! j \<le> rates ! b \<and> (rates ! j = rates ! b \<longrightarrow> b \<le> j)"
    using assms(1,2) False by (auto simp: best_in_def split: if_splits)
  show ?thesis
  proof (cases "rates ! b \<le> rates ! a")
    case True
    then have "winner a b rates = a" using ab by (simp add: winner_def)
    moreover have "rates ! j \<le> rates ! a \<and> (rates ! j = rates ! a \<longrightarrow> a \<le> j)" if "j \<in> T" for j
      using B [OF that] True ab(3) by auto
    ultimately show ?thesis using A ab False by (auto simp: best_in_def)
  next
    case nle: False
    then have "winner a b rates = b" using ab by (simp add: winner_def)
    moreover have "rates ! j \<le> rates ! b \<and> (rates ! j = rates ! b \<longrightarrow> b \<le> j)" if "j \<in> S" for j
      using A [OF that] nle by linarith
    ultimately show ?thesis using B ab False by (auto simp: best_in_def)
  qed
qed

lemma best_in_pick:
  assumes "best_in {j. active cs sel cur j} rates e" "length cs \<le> MAX_EDGES"
    and "\<And>j. active cs sel cur j \<Longrightarrow> rates ! j = head_rate cs cur j"
  shows "pick_edge cs sel cur = (if e = NO_EDGE then None else Some e)"
proof (cases "\<exists>j. active cs sel cur j")
  case False
  then show ?thesis using assms(1) by (simp add: best_in_def pick_edge_None)
next
  case True
  then have e: "active cs sel cur e" using assms(1) by (auto simp: best_in_def split: if_splits)
  then have "e \<noteq> NO_EDGE" using assms(2) by (auto simp: active_def NO_EDGE_def)
  moreover have "is_best (active cs sel cur) (head_rate cs cur) e"
    using assms(1,3) e True by (auto simp: best_in_def is_best_def split: if_splits)
  ultimately show ?thesis by (simp add: pick_edge_Some)
qed

lemma best_in_cong:
  "(\<And>j. j \<in> S \<Longrightarrow> rates ! j = rates' ! j) \<Longrightarrow> best_in S rates e \<longleftrightarrow> best_in S rates' e"
  by (cases "S = {}") (auto simp: best_in_def)

section \<open>The tournament tree\<close>

text \<open>Node \<open>MAX_EDGES + i\<close> is the leaf of venue \<open>i\<close>; node \<open>n\<close> has the children \<open>2 n\<close> and \<open>2 n + 1\<close>.\<close>

function leaves :: "nat \<Rightarrow> nat set" where
  "leaves n =
     (if n = 0 then {} else if MAX_EDGES \<le> n then {n - MAX_EDGES}
      else leaves (2 * n) \<union> leaves (2 * n + 1))"
  by pat_completeness auto
termination by (relation "measure (\<lambda>n. MAX_EDGES - n)") auto

declare leaves.simps [simp del]

definition node_ok :: "nat set \<Rightarrow> nat list \<Rightarrow> nat list \<Rightarrow> nat \<Rightarrow> bool" where
  "node_ok S winners rates n \<longleftrightarrow> best_in (leaves n \<inter> S) rates (winners ! n)"

fun above :: "nat \<Rightarrow> nat list" where
  "above n = (if n = 0 then [] else n # above (n div 2))"

declare above.simps [simp del]

lemma above_pos: "0 < n \<Longrightarrow> above n = n # above (n div 2)"
  by (subst above.simps) simp

lemma above_0 [simp]: "above 0 = []"
  by (subst above.simps) simp

lemma node_cases: "n \<in> {1..<16} \<Longrightarrow>
    n = 1 \<or> n = 2 \<or> n = 3 \<or> n = 4 \<or> n = 5 \<or> n = 6 \<or> n = 7 \<or> 8 \<le> (n :: nat)"
  by auto

lemma leaves_leaf: "8 \<le> n \<Longrightarrow> leaves n = {n - 8}"
  by (subst leaves.simps) (simp add: MAX_EDGES_def)

lemma leaves_children: "n \<in> {1..<8} \<Longrightarrow> leaves n = leaves (2 * n) \<union> leaves (2 * n + 1)"
  by (subst leaves.simps) (simp add: MAX_EDGES_def)

lemma leaves_table:
  "leaves 1 = {0, 1, 2, 3, 4, 5, 6, 7}" "leaves 2 = {0, 1, 2, 3}" "leaves 3 = {4, 5, 6, 7}"
  "leaves 4 = {0, 1}" "leaves 5 = {2, 3}" "leaves 6 = {4, 5}" "leaves 7 = {6, 7}"
proof -
  show 4: "leaves 4 = {0, 1}" "leaves 5 = {2, 3}" "leaves 6 = {4, 5}" "leaves 7 = {6, 7}"
    by (auto simp: leaves_children leaves_leaf)
  show 2: "leaves 2 = {0, 1, 2, 3}" "leaves 3 = {4, 5, 6, 7}"
    using leaves_children [of 2] leaves_children [of 3] 4 by auto
  show "leaves 1 = {0, 1, 2, 3, 4, 5, 6, 7}" using leaves_children [of 1] 2 by auto
qed

lemma leaves_root: "leaves 1 = {..<MAX_EDGES}"
  unfolding leaves_table(1) by (auto simp: MAX_EDGES_def)

lemma children_ordered:
  assumes "n \<in> {1..<8}"
  shows "leaves (2 * n) \<subseteq> {..<MAX_EDGES}" "leaves (2 * n + 1) \<subseteq> {..<MAX_EDGES}"
    "\<forall>x \<in> leaves (2 * n). \<forall>y \<in> leaves (2 * n + 1). x < y"
  using assms node_cases [of n] by (auto simp: leaves_table leaves_leaf MAX_EDGES_def)

lemma leaf_above: "n \<in> {1..<16} \<Longrightarrow> i \<in> leaves n \<Longrightarrow> n \<in> set (above (8 + i))"
  by (drule node_cases, elim disjE) (auto simp: leaves_table leaves_table(1) [unfolded One_nat_def] leaves_leaf above_pos)

lemma node_ok_update:
  assumes n: "n \<in> {1..<8}" and len: "length winners = 16"
    and ok: "node_ok S winners rates (2 * n)" "node_ok S winners rates (2 * n + 1)"
  shows "node_ok S (winners[n := winner (winners ! (2 * n)) (winners ! (2 * n + 1)) rates]) rates n"
proof -
  have "best_in ((leaves (2 * n) \<inter> S) \<union> (leaves (2 * n + 1) \<inter> S)) rates
      (winner (winners ! (2 * n)) (winners ! (2 * n + 1)) rates)"
    using ok children_ordered [OF n] by (intro winner_best) (auto simp: node_ok_def)
  then show ?thesis using n len by (simp add: node_ok_def leaves_children Int_Un_distrib2)
qed

lemma node_ok_other: "m \<noteq> n \<Longrightarrow> node_ok S (winners[n := v]) rates m = node_ok S winners rates m"
  by (simp add: node_ok_def)

lemma repair_spec:
  "length winners = 16 \<Longrightarrow> n < 8 \<Longrightarrow>
     \<forall>k \<in> {1..<16}. k \<notin> set (above n) \<longrightarrow> node_ok S winners rates k \<Longrightarrow>
     yields (repair n winners rates) (\<lambda>w. length w = 16 \<and> (\<forall>k \<in> {1..<16}. node_ok S w rates k))"
proof (induction n winners rates rule: repair.induct)
  case (1 n winners rates)
  show ?case
  proof (cases "n = 0")
    case True
    then have "\<forall>k \<in> {1..<16}. node_ok S winners rates k" using "1.prems"(3) by simp
    then show ?thesis using "1.prems" True by (simp add: repair.simps yields_ret)
  next
    case False
    let ?w = "winners[n := winner (winners ! (2 * n)) (winners ! (2 * n + 1)) rates]"
    have n: "n \<in> {1..<8}" using False "1.prems" by simp
    have ab: "set (above n) = insert n (set (above (n div 2)))" using False by (simp add: above_pos)
    have small: "k \<le> n" if "k \<in> set (above n)" for k
      using that
    proof (induction n rule: above.induct)
      case (1 n)
      then show ?case by (cases "n = 0") (auto simp: above_pos dest: order_trans [OF _ div_le_dividend])
    qed
    then have "2 * n \<notin> set (above n)" "2 * n + 1 \<notin> set (above n)" using n by fastforce+
    then have "node_ok S winners rates (2 * n)" "node_ok S winners rates (2 * n + 1)"
      using "1.prems"(3) n by auto
    then have "node_ok S ?w rates n" using n "1.prems"(1) by (intro node_ok_update)
    then have pre: "\<forall>k \<in> {1..<16}. k \<notin> set (above (n div 2)) \<longrightarrow> node_ok S ?w rates k"
      using "1.prems"(3) ab by (metis insertE node_ok_other)
    have "n div 2 < 8" by (rule le_less_trans [OF div_le_dividend]) (use n in simp)
    then have "yields (repair (n div 2) ?w rates)
        (\<lambda>w. length w = 16 \<and> (\<forall>k \<in> {1..<16}. node_ok S w rates k))"
      using "1.prems"(1) pre by (intro "1.IH" [OF False]) auto
    then show ?thesis using False by (subst repair.simps) (simp add: yields_charge_then)
  qed
qed

lemma init_tree_spec:
  "n < 8 \<Longrightarrow> length winners = 16 \<Longrightarrow>
     \<forall>k \<in> {1..<16}. n < k \<longrightarrow> node_ok S winners rates k \<Longrightarrow>
     yields (init_tree (rev [1..<Suc n]) winners rates)
       (\<lambda>w. length w = 16 \<and> (\<forall>k \<in> {1..<16}. node_ok S w rates k))"
proof (induction n arbitrary: winners)
  case 0
  then show ?case by (auto intro: yields_ret)
next
  case (Suc n)
  let ?n = "Suc n"
  let ?w = "winners[?n := winner (winners ! (2 * ?n)) (winners ! (2 * ?n + 1)) rates]"
  have n: "?n \<in> {1..<8}" using Suc.prems by simp
  have ok: "node_ok S ?w rates ?n"
    using Suc.prems n by (intro node_ok_update) auto
  have "node_ok S ?w rates k" if "k \<in> {1..<16}" "n < k" for k
    using Suc.prems(3) ok that node_ok_other [of k ?n] by (cases "k = ?n") auto
  then have pre: "\<forall>k \<in> {1..<16}. n < k \<longrightarrow> node_ok S ?w rates k" by blast
  have l: "rev [1..<Suc ?n] = ?n # rev [1..<Suc n]" by simp
  show ?case unfolding l init_tree.simps
    by (rule yields_charge_then, rule Suc.IH) (use Suc.prems pre in auto)
qed

section \<open>The two merges\<close>

definition merged_tape :: "curve list \<Rightarrow> nat \<Rightarrow> residual_tape \<Rightarrow> residual_tape \<Rightarrow> bool" where
  "merged_tape cs sel t t' \<longleftrightarrow> same_header t t' \<and> tape_rows (merged cs sel (\<lambda>_. 0)) t'"

lemma merge_inv_done:
  assumes "merge_inv cs sel cursor rates t" "pick_edge cs sel ((!) cursor) = None"
  shows "merged_tape cs sel t t"
  using assms by (auto simp: merge_inv_def merged_tape_def merged_None)

text \<open>The active venues after a step.\<close>

lemma active_step:
  assumes "i < length cursor"
  shows "{j. active cs sel ((!) (cursor[i := Suc (cursor ! i)])) j} =
    (if active cs sel ((!) cursor) i \<and> \<not> Suc (cursor ! i) < cv_len (cs ! i)
     then {j. active cs sel ((!) cursor) j} - {i} else {j. active cs sel ((!) cursor) j})"
  using assms by (auto simp: active_def cursor_advance advance_apply split: if_splits)

lemma merge_tree_spec:
  assumes "curves_ok cs sel" "length cs \<le> MAX_EDGES"
  shows "merge_inv cs sel cursor rates t \<Longrightarrow> length winners = 16 \<Longrightarrow>
     \<forall>k \<in> {1..<16}. node_ok {j. active cs sel ((!) cursor) j} winners rates k \<Longrightarrow>
     yields (merge_tree cs cursor rates winners t) (merged_tape cs sel t)"
  using assms
proof (induction "MAX_BANDS - tp_bands t" arbitrary: cursor rates winners t rule: less_induct)
  case less
  let ?S = "{j. active cs sel ((!) cursor) j}" and ?i = "winners ! 1"
  have S: "?S \<subseteq> {..<MAX_EDGES}" using less.prems(5) by (auto simp: active_def)
  have lens: "length cursor = MAX_EDGES" "length rates = MAX_EDGES"
    and rate: "\<And>j. active cs sel ((!) cursor) j \<Longrightarrow> rates ! j = head_rate cs ((!) cursor) j"
    using less.prems(1) by (auto simp: merge_inv_def)
  have "leaves 1 \<inter> ?S = ?S" using S by (simp only: leaves_root Int_absorb1)
  then have "best_in ?S rates ?i" using less.prems(3) by (auto simp: node_ok_def dest: bspec [of _ _ 1])
  from best_in_pick [OF this less.prems(5) rate]
  have pick: "pick_edge cs sel ((!) cursor) = (if ?i = NO_EDGE then None else Some ?i)" .
  show ?case
  proof (cases "?i = NO_EDGE")
    case True
    then have "merge_tree cs cursor rates winners t = ret t"
      by (intro ext) (simp add: merge_tree.simps ret_def)
    then show ?thesis using merge_inv_done [OF less.prems(1)] pick True by (simp add: yields_ret)
  next
    case False
    then have pick: "pick_edge cs sel ((!) cursor) = Some ?i" using pick by simp
    obtain t' rates' where
      step: "merge_step cs cursor rates t ?i =
         Inr (t', cursor[?i := Suc (cursor ! ?i)], rates', Suc (cursor ! ?i) < cv_len (cs ! ?i))"
      and inv: "merge_inv cs sel (cursor[?i := Suc (cursor ! ?i)]) rates' t'"
      and other: "\<And>j. j \<noteq> ?i \<Longrightarrow> rates' ! j = rates ! j"
      and hd: "same_header t t'" by (rule merge_step_inv [OF less.prems(1,4,5) pick]) blast
    let ?cur = "cursor[?i := Suc (cursor ! ?i)]" and ?again = "Suc (cursor ! ?i) < cv_len (cs ! ?i)"
    let ?S' = "{j. active cs sel ((!) ?cur) j}"
    let ?w = "if ?again then winners else winners[MAX_EDGES + ?i := NO_EDGE]"
    have act: "active cs sel ((!) cursor) ?i" using pick by (simp add: pick_edge_Some is_best_def)
    then have i: "?i < MAX_EDGES" using S by auto
    have S': "?S' = (if ?again then ?S else ?S - {?i})"
      using active_step [of ?i cursor cs sel] act i lens by simp
    have pre: "node_ok ?S' ?w rates' k" if k: "k \<in> {1..<16}" "k \<notin> set (above ((MAX_EDGES + ?i) div 2))" for k
    proof (cases "k = MAX_EDGES + ?i")
      case True
      then have lk: "leaves k = {?i}" by (simp add: leaves_leaf MAX_EDGES_def)
      show ?thesis
      proof (cases ?again)
        case True
        have "node_ok ?S winners rates k" using less.prems(3) k by blast
        then have "winners ! k = ?i" using lk act by (simp add: node_ok_def best_in_def)
        then show ?thesis using lk act S' True by (simp add: node_ok_def best_in_def)
      next
        case False
        then show ?thesis using lk S' i less.prems(2) True
          by (simp add: node_ok_def best_in_def MAX_EDGES_def)
      qed
    next
      case False
      moreover have "above (8 + ?i) = (8 + ?i) # above ((8 + ?i) div 2)" by (rule above_pos) simp
      ultimately have "k \<notin> set (above (8 + ?i))" using k by (simp add: MAX_EDGES_def)
      then have ni: "?i \<notin> leaves k" using leaf_above k(1) by blast
      then have "leaves k \<inter> ?S' = leaves k \<inter> ?S" using S' by auto
      moreover have "?w ! k = winners ! k" using False by simp
      moreover have "node_ok ?S winners rates k" using less.prems(3) k by blast
      moreover have "best_in (leaves k \<inter> ?S) rates' e = best_in (leaves k \<inter> ?S) rates e" for e
        using ni by (intro best_in_cong other) auto
      ultimately show ?thesis by (simp only: node_ok_def)
    qed
    have "length ?w = 16" "(MAX_EDGES + ?i) div 2 < 8" using less.prems(2) i by (auto simp: MAX_EDGES_def)
    then have rep: "yields (repair ((MAX_EDGES + ?i) div 2) ?w rates')
        (\<lambda>w. length w = 16 \<and> (\<forall>k \<in> {1..<16}. node_ok ?S' w rates' k))"
      using pre by (intro repair_spec) auto
    have dec: "MAX_BANDS - tp_bands t' < MAX_BANDS - tp_bands t"
      using merge_step_bands [OF step] by linarith
    have eq: "merge_tree cs cursor rates winners t =
        bindS (repair ((MAX_EDGES + ?i) div 2) ?w rates') (\<lambda>w. merge_tree cs ?cur rates' w t')"
      by (rule ext, subst merge_tree.simps)
        (use False step in \<open>simp add: bindS_def Let_def split: prod.split sum.split\<close>)
    show ?thesis unfolding eq
    proof (rule yields_bindS [OF rep])
      fix w assume "length w = 16 \<and> (\<forall>k \<in> {1..<16}. node_ok ?S' w rates' k)"
      then have "yields (merge_tree cs ?cur rates' w t') (merged_tape cs sel t')"
        using less.hyps [OF dec inv] less.prems(4,5) by blast
      then show "yields (merge_tree cs ?cur rates' w t') (merged_tape cs sel t)"
        by (rule yields_mono) (use hd in \<open>auto simp: merged_tape_def intro: same_header_trans\<close>)
    qed
  qed
qed

text \<open>Two streams: one venue, or two with the lower one on the left.\<close>

lemma merge_two_spec:
  assumes "curves_ok cs sel" "length cs \<le> MAX_EDGES"
    and venues: "a < MAX_EDGES" "B \<subseteq> {b}" "B \<noteq> {} \<Longrightarrow> b < MAX_EDGES" "B \<noteq> {} \<Longrightarrow> a < b"
    and only: "\<And>j. j < length cs \<Longrightarrow> bit sel j \<Longrightarrow> j \<in> insert a B"
  shows "merge_inv cs sel cursor rates t \<Longrightarrow>
     best_in ({a} \<inter> {j. active cs sel ((!) cursor) j}) rates left \<Longrightarrow>
     best_in (B \<inter> {j. active cs sel ((!) cursor) j}) rates right \<Longrightarrow>
     yields (merge_two cs cursor rates left right t) (merged_tape cs sel t)"
proof (induction "MAX_BANDS - tp_bands t" arbitrary: cursor rates left right t rule: less_induct)
  case less
  let ?S = "{j. active cs sel ((!) cursor) j}" and ?i = "winner left right rates"
  have S: "?S \<subseteq> {..<MAX_EDGES}" using assms(2) by (auto simp: active_def)
  have lens: "length cursor = MAX_EDGES" "length rates = MAX_EDGES"
    and rate: "\<And>j. active cs sel ((!) cursor) j \<Longrightarrow> rates ! j = head_rate cs ((!) cursor) j"
    using less.prems(1) by (auto simp: merge_inv_def)
  have "{a} \<inter> ?S \<union> B \<inter> ?S = ?S" using only by (auto simp: active_def)
  moreover have "best_in ({a} \<inter> ?S \<union> B \<inter> ?S) rates ?i"
    using venues S less.prems(2,3) by (intro winner_best) auto
  ultimately have "best_in ?S rates ?i" by simp
  from best_in_pick [OF this assms(2) rate]
  have pick: "pick_edge cs sel ((!) cursor) = (if ?i = NO_EDGE then None else Some ?i)" .
  show ?case
  proof (cases "?i = NO_EDGE")
    case True
    then have "merge_two cs cursor rates left right t = bindS (charge 1) (\<lambda>_. ret t)"
      by (intro ext, subst merge_two.simps)
        (simp add: bindS_def ret_def Let_def split: prod.split sum.split)
    then show ?thesis using merge_inv_done [OF less.prems(1)] pick True
      by (simp add: yields_ret yields_charge_then)
  next
    case False
    then have pick: "pick_edge cs sel ((!) cursor) = Some ?i" using pick by simp
    obtain t' rates' where
      step: "merge_step cs cursor rates t ?i =
         Inr (t', cursor[?i := Suc (cursor ! ?i)], rates', Suc (cursor ! ?i) < cv_len (cs ! ?i))"
      and inv: "merge_inv cs sel (cursor[?i := Suc (cursor ! ?i)]) rates' t'"
      and other: "\<And>j. j \<noteq> ?i \<Longrightarrow> rates' ! j = rates ! j"
      and hd: "same_header t t'" by (rule merge_step_inv [OF less.prems(1) assms(1,2) pick]) blast
    let ?cur = "cursor[?i := Suc (cursor ! ?i)]" and ?again = "Suc (cursor ! ?i) < cv_len (cs ! ?i)"
    let ?S' = "{j. active cs sel ((!) ?cur) j}"
    let ?l = "if \<not> ?again \<and> ?i = left then NO_EDGE else left"
    let ?r = "if \<not> ?again \<and> ?i \<noteq> left then NO_EDGE else right"
    have act: "active cs sel ((!) cursor) ?i" using pick by (simp add: pick_edge_Some is_best_def)
    then have i: "?i < MAX_EDGES" using S by auto
    have S': "?S' = (if ?again then ?S else ?S - {?i})"
      using active_step [of ?i cursor cs sel] act i lens by simp
    have l: "left = (if active cs sel ((!) cursor) a then a else NO_EDGE)"
      using less.prems(2) by (auto simp: best_in_def split: if_splits)
    have r: "right = (if B = {b} \<and> active cs sel ((!) cursor) b then b else NO_EDGE)"
      using less.prems(3) venues(2) by (auto simp: best_in_def split: if_splits)
    have i_cases: "?i = a \<and> left = a \<or> ?i = b \<and> B = {b} \<and> right = b \<and> left \<noteq> b"
      using l r False venues by (auto simp: winner_def NO_EDGE_def split: if_splits)
    have one: "best_in (X \<inter> ?S') rates' e" if "X \<inter> ?S' = {}" "e = NO_EDGE" for X e
      using that by (simp add: best_in_def)
    have l': "best_in ({a} \<inter> ?S') rates' ?l"
    proof (cases "active cs sel ((!) cursor) a \<and> (?again \<or> ?i \<noteq> a)")
      case True
      then have "{a} \<inter> ?S' = {a}" "?l = a" using S' l by (auto split: if_splits)
      then show ?thesis by (simp add: best_in_def)
    next
      case False
      then show ?thesis using S' l act by (intro one) (auto split: if_splits)
    qed
    have r': "best_in (B \<inter> ?S') rates' ?r"
    proof (cases "B = {b} \<and> active cs sel ((!) cursor) b \<and> (?again \<or> ?i \<noteq> b)")
      case True
      then have "b \<in> ?S'" "right = b" using S' r by (simp_all only: if_True mem_Collect_eq Diff_iff) auto
      moreover have "\<not> (\<not> ?again \<and> ?i \<noteq> left)" using True i_cases by metis
      ultimately have "B \<inter> ?S' = {b}" "?r = b" using True by (simp_all only: if_False) blast
      then show ?thesis by (simp add: best_in_def)
    next
      case F: False
      show ?thesis
      proof (cases "B = {b} \<and> active cs sel ((!) cursor) b")
        case True
        then have ib: "\<not> ?again" "?i = b" using F by blast+
        moreover have "a < b" using True venues(4) by blast
        ultimately have "?i \<noteq> left" using i_cases by auto
        then have "?r = NO_EDGE" using ib(1) by (simp only: if_True simp_thms)
        moreover have "?S' = ?S - {b}" using S' ib by (simp only: if_False)
        then have "B \<inter> ?S' = {}" using True by blast
        ultimately show ?thesis by (intro one)
      next
        case False
        then have "right = NO_EDGE" using r by (simp only: if_False)
        then have "?r = NO_EDGE" by (simp only: if_cancel)
        moreover have "?S' \<subseteq> ?S" unfolding S' by auto
        then have "B \<inter> ?S' = {}" using False venues(2) by blast
        ultimately show ?thesis by (intro one)
      qed
    qed
    have dec: "MAX_BANDS - tp_bands t' < MAX_BANDS - tp_bands t"
      using merge_step_bands [OF step] by linarith
    have eq: "merge_two cs cursor rates left right t =
        bindS (charge 1) (\<lambda>_. merge_two cs ?cur rates' ?l ?r t')"
      by (rule ext, subst merge_two.simps)
        (simp only: bindS_def Let_def step False if_False sum.case prod.case)
    have "yields (merge_two cs ?cur rates' ?l ?r t') (merged_tape cs sel t')"
      by (rule less.hyps [OF dec inv l' r'])
    then have "yields (merge_two cs ?cur rates' ?l ?r t') (merged_tape cs sel t)"
      by (rule yields_mono) (use hd in \<open>auto simp: merged_tape_def intro: same_header_trans\<close>)
    then show ?thesis unfolding eq by (rule yields_charge_then)
  qed
qed

section \<open>Indexing the curves\<close>

lemma sums_Cons:
  "map (\<lambda>k. (c :: nat) + g (take k (b # bs))) [0..<Suc (length (b # bs))] =
     (c + g []) # map (\<lambda>k. c + g (b # take k bs)) [0..<Suc (length bs)]"
proof -
  have "[0..<Suc (length (b # bs))] = 0 # map Suc [0..<Suc (length bs)]"
    unfolding map_Suc_upt by (rule trans [OF upt_conv_Cons]) simp_all
  then show ?thesis by (simp del: upt_Suc add: comp_def)
qed

lemma index_bands_spec:
  "cap + total bs < 2 ^ 64 \<Longrightarrow> a + area bs < 2 ^ 128 \<Longrightarrow>
     yields (index_bands bs cap a) (\<lambda>(caps, areas, rates).
       rates = map marginal_q32 bs \<and>
       cap # caps = map (\<lambda>k. cap + total (take k bs)) [0..<Suc (length bs)] \<and>
       a # areas = map (\<lambda>k. a + area (take k bs)) [0..<Suc (length bs)])"
proof (induction bs arbitrary: cap a)
  case Nil
  then show ?case by (simp add: yields_ret)
next
  case (Cons b bs)
  let ?c = "cap + input_capacity b" and ?a = "a + input_capacity b * marginal_q32 b"
  have "yields (index_bands bs ?c ?a) (\<lambda>(caps, areas, rates).
       rates = map marginal_q32 bs \<and>
       ?c # caps = map (\<lambda>k. ?c + total (take k bs)) [0..<Suc (length bs)] \<and>
       ?a # areas = map (\<lambda>k. ?a + area (take k bs)) [0..<Suc (length bs)])"
    by (rule Cons.IH) (use Cons.prems in auto)
  moreover have "add_w 64 cap (input_capacity b) = Inr ?c"
    "bindR (mul_w 128 (input_capacity b) (marginal_q32 b)) (add_w 128 a) = Inr ?a"
    using Cons.prems by (simp_all add: add_w_def mul_w_def)
  ultimately show ?case unfolding sums_Cons index_bands.simps
    by (intro yields_charge_then yields_liftR_then)
       (auto elim!: yields_bindS intro!: yields_ret simp del: upt_Suc simp: add.assoc)
qed

lemma good_bands_fits:
  assumes "good_bands bs"
  shows "0 + total bs < 2 ^ 64" "0 + area bs < 2 ^ 128"
proof -
  have "area bs \<le> MAX_RATE * MAX_ATOMS"
    using good_bands_integral_bound [OF assms, of "total bs"] by (simp add: integral_total)
  then show "0 + area bs < 2 ^ 128" using rate_times_atoms(1) by linarith
  have "total bs \<le> MAX_ATOMS" using assms by (simp add: good_bands_def)
  then show "0 + total bs < 2 ^ 64" by (simp add: MAX_ATOMS_def)
qed

lemma index_curves_spec:
  "\<forall>i < length cs. bit sel (k + i) \<longrightarrow> valid_curve (cs ! i) \<and> cv_len (cs ! i) \<le> length (segments (cs ! i)) \<Longrightarrow>
     yields (index_curves cs k sel) (\<lambda>xs. length xs = length cs \<and>
       (\<forall>i < length cs. bit sel (k + i) \<longrightarrow> indexes (cs ! i) (xs ! i)))"
proof (induction cs arbitrary: k)
  case Nil
  then show ?case by (simp add: yields_ret)
next
  case (Cons c cs)
  have tail: "yields (index_curves cs (Suc k) sel) (\<lambda>xs. length xs = length cs \<and>
       (\<forall>i < length cs. bit sel (Suc k + i) \<longrightarrow> indexes (cs ! i) (xs ! i)))"
    by (rule Cons.IH) (use Cons.prems in force)
  have cases: "(\<forall>i < length (c # cs). bit sel (k + i) \<longrightarrow> indexes ((c # cs) ! i) ((x # xs) ! i)) \<longleftrightarrow>
      (bit sel k \<longrightarrow> indexes c x) \<and> (\<forall>i < length cs. bit sel (Suc k + i) \<longrightarrow> indexes (cs ! i) (xs ! i))" for x xs
    by (auto simp: less_Suc_eq_0_disj nth_Cons split: nat.splits)
  have "yields (if bit sel k then
          bindS (liftR (validate c)) (\<lambda>_.
          bindS (index_bands (bands c) 0 0) (\<lambda>(caps, areas, rates).
          ret \<lparr>ix_capacity = 0 # caps, ix_integral = 0 # areas, ix_rates = rates, ix_len = cv_len c\<rparr>))
        else ret indexed_default) (\<lambda>x. bit sel k \<longrightarrow> indexes c x)"
  proof (cases "bit sel k")
    case True
    then have c: "valid_curve c" using Cons.prems [rule_format, of 0] by simp
    then have "good_bands (bands c)" by (simp add: valid_curve_def)
    note b = index_bands_spec [OF good_bands_fits [OF this]]
    have "validate c = Inr ()" using c by (simp add: validate_valid)
    then show ?thesis using True b
      by (auto intro!: yields_ret elim!: yields_bindS simp: indexes_def simp del: upt_Suc)
  next
    case False
    then show ?thesis by (simp add: yields_ret)
  qed
  then show ?case unfolding index_curves.simps cases
    by (rule yields_bindS) (use tail cases in \<open>auto intro!: yields_ret elim!: yields_bindS\<close>)
qed

lemma index_curves_valid:
  "index_curves cs k sel m = (Inr xs, m') \<Longrightarrow> i < length cs \<Longrightarrow> bit sel (k + i) \<Longrightarrow> valid_curve (cs ! i)"
proof (induction cs arbitrary: k m xs i)
  case (Cons c cs)
  then show ?case
    by (cases i) (auto simp: bindS_Inr validate_valid split: if_splits)
qed simp

section \<open>The built tape\<close>

lemma merge_inv_init:
  assumes "curves_ok cs sel" "length cs \<le> MAX_EDGES" "tape_rows [] t"
  shows "merge_inv cs sel (replicate MAX_EDGES 0) (first_rates cs sel) t"
proof -
  have "merged cs sel ((!) (replicate MAX_EDGES 0)) = merged cs sel (\<lambda>_. 0)"
    using assms(2) by (intro merged_cursor_irrelevant) simp
  then show ?thesis using assms
    by (auto simp: merge_inv_def first_rates_def active_def head_rate_def intro!: exI [of _ "[]"])
qed

lemma active_init:
  assumes "curves_ok cs sel" "length cs \<le> MAX_EDGES"
  shows "active cs sel ((!) (replicate MAX_EDGES 0)) j \<longleftrightarrow> j < length cs \<and> bit sel j"
  using curves_okD [OF assms(1), of j] assms(2) by (auto simp: active_def valid_curve_def)

lemma first_winners_ok:
  assumes "curves_ok cs sel" "length cs \<le> MAX_EDGES" "k \<in> {1..<16}" "7 < k"
  shows "node_ok {j. active cs sel ((!) (replicate MAX_EDGES 0)) j} (first_winners cs sel) rates k"
proof -
  have k: "k - MAX_EDGES < MAX_EDGES" "\<not> k < MAX_EDGES" "leaves k = {k - MAX_EDGES}"
    using assms(3,4) by (auto simp: MAX_EDGES_def leaves_leaf)
  then have "first_winners cs sel ! k =
      (if k - MAX_EDGES < length cs \<and> bit sel (k - MAX_EDGES) then k - MAX_EDGES else NO_EDGE)"
    by (simp add: first_winners_def nth_append)
  then show ?thesis using k by (auto simp: node_ok_def best_in_def active_init [OF assms(1,2)])
qed

text \<open>With at most two selected venues the first two set bits are all of them.\<close>

lemma few_bits:
  assumes sel: "sel \<noteq> 0" "sel < 256" and few: "count_ones sel \<le> 2"
  defines "rest \<equiv> and sel (sel - 1)"
  shows "trailing_zeros sel < MAX_EDGES" "bit sel (trailing_zeros sel)"
    "rest \<noteq> 0 \<Longrightarrow> trailing_zeros rest < MAX_EDGES \<and> trailing_zeros sel < trailing_zeros rest \<and>
       bit sel (trailing_zeros rest)"
    "bit sel j \<Longrightarrow> j < MAX_EDGES \<Longrightarrow> j = trailing_zeros sel \<or> rest \<noteq> 0 \<and> j = trailing_zeros rest"
proof -
  let ?a = "trailing_zeros sel" and ?b = "trailing_zeros rest"
  have w: "walk_bits sel = ?a # walk_bits rest"
    using sel(1) unfolding rest_def by (subst walk_bits.simps) simp
  have "count_ones sel = length (walk_bits sel)"
    using sel(2) walk_bits_filter [of sel 16] by (simp add: count_ones_def)
  then have l: "length (walk_bits rest) \<le> 1" using few w by simp
  have "walk_bits rest = (if rest = 0 then [] else [?b])"
  proof (cases "rest = 0")
    case False
    then have "walk_bits rest = ?b # walk_bits (and rest (rest - 1))" by (subst walk_bits.simps) simp
    then show ?thesis using l False by simp
  qed simp
  then have set_w: "walk_bits sel = ?a # (if rest = 0 then [] else [?b])" using w by simp
  have f: "walk_bits sel = filter (bit sel) [0..<MAX_EDGES]" by (rule walk_bits_u8 [OF sel(2)])
  then have srt: "sorted_wrt (<) (walk_bits sel)" by (simp add: sorted_wrt_filter)
  have in_w: "x \<in> set (walk_bits sel) \<longleftrightarrow> x < MAX_EDGES \<and> bit sel x" for x by (auto simp: f)
  show "?a < MAX_EDGES" "bit sel ?a" using in_w [of ?a] set_w by auto
  show "?b < MAX_EDGES \<and> ?a < ?b \<and> bit sel ?b" if "rest \<noteq> 0"
    using in_w [of ?b] set_w srt that by auto
  show "j = ?a \<or> rest \<noteq> 0 \<and> j = ?b" if "bit sel j" "j < MAX_EDGES"
    using in_w [of j] that set_w by (auto split: if_splits)
qed

lemma build_two:
  assumes ok: "curves_ok cs sel" and cs: "length cs \<le> MAX_EDGES"
    and sel: "sel \<noteq> 0" "sel < 2 ^ length cs" "sel < 256" and few: "count_ones sel \<le> 2"
    and t: "tape_rows [] t"
  shows "yields (merge_two cs (replicate MAX_EDGES 0) (first_rates cs sel) (trailing_zeros sel)
      (if and sel (sel - 1) = 0 then NO_EDGE else trailing_zeros (and sel (sel - 1))) t)
      (merged_tape cs sel t)"
proof -
  let ?rest = "and sel (sel - 1)" and ?S = "{j. active cs sel ((!) (replicate MAX_EDGES 0)) j}"
  let ?B = "if ?rest = 0 then {} else {trailing_zeros ?rest}"
  note fb = few_bits [OF sel(1,3) few]
  have S: "j \<in> ?S \<longleftrightarrow> bit sel j" for j
    using mask_bit_less [OF sel(2), of j] by (auto simp: active_init [OF ok cs])
  have l: "best_in ({trailing_zeros sel} \<inter> ?S) (first_rates cs sel) (trailing_zeros sel)"
    using fb(2) S by (simp add: best_in_def)
  have r: "best_in (?B \<inter> ?S) (first_rates cs sel)
      (if ?rest = 0 then NO_EDGE else trailing_zeros ?rest)"
    using fb(3) S by (simp add: best_in_def)
  have B: "?B \<subseteq> {trailing_zeros ?rest}" "?B \<noteq> {} \<Longrightarrow> ?rest \<noteq> 0" by (simp_all split: if_splits)
  have only: "j \<in> insert (trailing_zeros sel) ?B" if "j < length cs" "bit sel j" for j
    using fb(4) [OF that(2)] that(1) cs by auto
  show ?thesis
    by (rule merge_two_spec [OF ok cs fb(1) B(1) _ _ only merge_inv_init [OF ok cs t] l r])
       (use fb(3) [OF B(2)] in blast)+
qed

lemma build_spec:
  assumes ok: "curves_ok cs sel" and cs: "cs \<noteq> []" "length cs \<le> MAX_EDGES"
    and sel: "sel \<noteq> 0" "sel < 2 ^ length cs"
  shows "yields (build cs sel) (tape_of cs sel)"
proof -
  let ?t = "\<lambda>ixs. \<lparr>prefix_rows = [replicate MAX_EDGES 0], owner = [0],
     tp_curves = ixs @ replicate (MAX_EDGES - length cs) indexed_default,
     tp_bands = 0, tp_edges = length cs, compiled_mask = sel\<rparr>"
  let ?z = "replicate MAX_EDGES 0 :: nat list" and ?rates = "first_rates cs sel"
  let ?S = "{j. active cs sel ((!) ?z) j}"
  have idx: "yields (index_curves cs 0 sel) (\<lambda>xs. length xs = length cs \<and>
       (\<forall>i < length cs. bit sel (0 + i) \<longrightarrow> indexes (cs ! i) (xs ! i)))"
    by (rule index_curves_spec) (use curves_okD [OF ok] in auto)
  have fin: "yields c (tape_of cs sel)"
    if "yields c (merged_tape cs sel (?t xs))" "length xs = length cs"
      "\<forall>i < length cs. bit sel i \<longrightarrow> indexes (cs ! i) (xs ! i)" for c xs
    using that(1)
  proof (rule yields_mono)
    fix t' assume "merged_tape cs sel (?t xs) t'"
    moreover have "tape_header cs sel (?t xs)"
      using that(2,3) cs by (auto simp: tape_header_def nth_append)
    ultimately show "tape_of cs sel t'" by (auto simp: merged_tape_def tape_of_def intro: tape_header_same)
  qed
  have rows: "tape_rows [] (?t xs)" for xs
    by (simp add: tape_rows_def prefix_table_def map_replicate_const)
  note inv = merge_inv_init [OF ok cs(2) rows]
  have small: "sel < 256" using sel(2) cs(2) power_increasing [of "length cs" 8 "2 :: nat"]
    by (simp add: MAX_EDGES_def)
  have tree: "yields (bindS (init_tree [7, 6, 5, 4, 3, 2, 1] (first_winners cs sel) ?rates) (\<lambda>w.
      merge_tree cs ?z ?rates w (?t xs))) (merged_tape cs sel (?t xs))" for xs
  proof (rule yields_bindS)
    have "length (first_winners cs sel) = 16" by (simp add: first_winners_def MAX_EDGES_def)
    then have "yields (init_tree (rev [1..<Suc 7]) (first_winners cs sel) ?rates)
        (\<lambda>w. length w = 16 \<and> (\<forall>k \<in> {1..<16}. node_ok ?S w ?rates k))"
      using first_winners_ok [OF ok cs(2)] by (intro init_tree_spec) auto
    moreover have "rev [1..<Suc 7] = [7, 6, 5, 4, 3, 2, 1 :: nat]" by (simp add: upt_rec)
    ultimately show "yields (init_tree [7, 6, 5, 4, 3, 2, 1] (first_winners cs sel) ?rates)
        (\<lambda>w. length w = 16 \<and> (\<forall>k \<in> {1..<16}. node_ok ?S w ?rates k))"
      by (simp only:)
  qed (use merge_tree_spec [OF ok cs(2) inv] in blast)
  have eq: "build cs sel = bindS (index_curves cs 0 sel) (\<lambda>ixs.
      if count_ones sel \<le> 2 then
        merge_two cs ?z ?rates (trailing_zeros sel)
          (if and sel (sel - 1) = 0 then NO_EDGE else trailing_zeros (and sel (sel - 1))) (?t ixs)
      else bindS (init_tree [7, 6, 5, 4, 3, 2, 1] (first_winners cs sel) ?rates) (\<lambda>w.
        merge_tree cs ?z ?rates w (?t ixs)))"
  proof -
    have g: "(cs = [] \<or> MAX_EDGES < length cs \<or> sel = 0 \<or> 2 ^ length cs \<le> sel) = False"
      using cs sel by auto
    show ?thesis unfolding build_def Let_def g if_False by (rule refl)
  qed
  show ?thesis unfolding eq
  proof (rule yields_bindS [OF idx], elim conjE)
    fix xs assume x: "length xs = length cs"
      "\<forall>i < length cs. bit sel (0 + i) \<longrightarrow> indexes (cs ! i) (xs ! i)"
    then have x2: "\<forall>i < length cs. bit sel i \<longrightarrow> indexes (cs ! i) (xs ! i)" by simp
    show "yields (if count_ones sel \<le> 2 then
        merge_two cs ?z ?rates (trailing_zeros sel)
          (if and sel (sel - 1) = 0 then NO_EDGE else trailing_zeros (and sel (sel - 1))) (?t xs)
      else bindS (init_tree [7, 6, 5, 4, 3, 2, 1] (first_winners cs sel) ?rates) (\<lambda>w.
        merge_tree cs ?z ?rates w (?t xs))) (tape_of cs sel)"
    proof (cases "count_ones sel \<le> 2")
      case True
      then show ?thesis unfolding if_P [OF True]
        by (intro fin [OF build_two [OF ok cs(2) sel small True rows] x(1) x2])
    next
      case False
      then show ?thesis unfolding if_not_P [OF False] by (intro fin [OF tree x(1) x2])
    qed
  qed
qed

lemma build_guards:
  assumes "build cs sel m = (Inr t, m')"
  shows "cs \<noteq> []" "length cs \<le> MAX_EDGES" "sel \<noteq> 0" "sel < 2 ^ length cs"
    "\<forall>i < length cs. bit sel i \<longrightarrow> valid_curve (cs ! i)"
proof -
  show "cs \<noteq> []" "length cs \<le> MAX_EDGES" "sel \<noteq> 0" "sel < 2 ^ length cs"
    using assms by (auto simp: build_def split: if_splits)
  then obtain xs m1 where "index_curves cs 0 sel m = (Inr xs, m1)"
    using assms by (auto simp: build_def bindS_Inr)
  from index_curves_valid [OF this] show "\<forall>i < length cs. bit sel i \<longrightarrow> valid_curve (cs ! i)" by simp
qed

lemma build_tape:
  assumes "build cs sel m = (Inr t, m')" "arrays_ok cs"
  shows "tape_of cs sel t" "curves_ok cs sel"
proof -
  note g = build_guards [OF assms(1)]
  show ok: "curves_ok cs sel" by (rule arrays_curves_ok [OF assms(2) g(5)])
  show "tape_of cs sel t" by (rule yields_Inr [OF build_spec [OF ok g(1-4)] assms(1)])
qed

end
