(* ===== verification/TapeQuery.thy ===== *)
theory TapeQuery
  imports TapeBuild
begin

text \<open>
  Queries of a built tape. The selected row is the last one whose complete bands fit below the
  amount; the band after it takes the rest. The result is the plan of the merged order, for every
  subset of the compiled venues: the tape and the streaming allocator agree.
\<close>

section \<open>Rows\<close>

definition venue_row :: "nat \<Rightarrow> (nat \<times> segment) list \<Rightarrow> segment list" where
  "venue_row i ps = map snd (filter (\<lambda>(j, s). j = i) ps)"

definition chosen :: "nat \<Rightarrow> (nat \<times> segment) list \<Rightarrow> (nat \<times> segment) list" where
  "chosen sel ps = filter (\<lambda>(i, s). bit sel i) ps"

lemma venue_row_simps [simp]:
  "venue_row i [] = []" "venue_row i (ps @ qs) = venue_row i ps @ venue_row i qs"
  "venue_row i ((j, s) # ps) = (if j = i then [s] else []) @ venue_row i ps"
  by (simp_all add: venue_row_def)

lemma chosen_simps [simp]:
  "chosen sel [] = []" "chosen sel (ps @ qs) = chosen sel ps @ chosen sel qs"
  "chosen sel ((i, s) # ps) = (if bit sel i then [(i, s)] else []) @ chosen sel ps"
  by (simp_all add: chosen_def)

lemma length_venue_row: "length (venue_row i ps) = cnt i ps"
  by (simp add: venue_row_def cnt_def)

lemma spent_row: "spent i ps = total (venue_row i ps)"
  by (simp add: spent_venue venue_row_def)

lemma venue_row_chosen: "venue_row i (chosen sel ps) = (if bit sel i then venue_row i ps else [])"
  by (induction ps) auto

lemma set_chosen: "set (chosen sel ps) \<subseteq> set ps"
  by (auto simp: chosen_def)

lemma sum_walk:
  fixes f :: "nat \<Rightarrow> nat"
  assumes "sel < 256" "\<And>i. \<not> bit sel i \<Longrightarrow> f i = 0"
  shows "sum_list (map f (walk_bits sel)) = (\<Sum>i<MAX_EDGES. f i)"
proof -
  have "sum_list (map f (walk_bits sel)) = sum f (set (walk_bits sel))"
    by (simp add: walk_bits_u8 [OF assms(1)] sum_list_distinct_conv_sum_set)
  also have "\<dots> = (\<Sum>i<MAX_EDGES. f i)"
    using assms by (intro sum.mono_neutral_left) (auto simp: walk_bits_u8)
  finally show ?thesis .
qed

lemma sum_chosen:
  fixes g :: "segment \<Rightarrow> nat"
  assumes "sel < 256" "\<forall>(i, s) \<in> set ps. i < MAX_EDGES"
  shows "sum_list (map (\<lambda>i. sum_list (map g (venue_row i ps))) (walk_bits sel)) =
    sum_list (map g (map snd (chosen sel ps)))"
proof -
  let ?f = "\<lambda>i. sum_list (map g (venue_row i (chosen sel ps)))"
  have "map (\<lambda>i. sum_list (map g (venue_row i ps))) (walk_bits sel) = map ?f (walk_bits sel)"
    by (rule map_cong) (auto simp: walk_bits_u8 [OF assms(1)] venue_row_chosen)
  also have "sum_list \<dots> = (\<Sum>i<MAX_EDGES. ?f i)"
    by (rule sum_walk [OF assms(1)]) (simp add: venue_row_chosen)
  also have "\<dots> = sum_list (map g (map snd (chosen sel ps)))"
    unfolding venue_row_def by (rule sum_by_venue) (use assms(2) set_chosen in fastforce)
  finally show ?thesis .
qed

lemma merged_venues: "length cs \<le> MAX_EDGES \<Longrightarrow> \<forall>(i, s) \<in> set (merged cs sel cur). i < MAX_EDGES"
  using merged_elem by fastforce

lemma row_of_venue:
  assumes ok: "curves_ok cs sel" and i: "i < length cs" "bit sel i" and ps: "merged cs sel (\<lambda>_. 0) = A @ B"
  shows "venue_row i A @ venue_row i B = bands (cs ! i)"
proof -
  have "venue_row i (merged cs sel (\<lambda>_. 0)) = bands (cs ! i)"
    unfolding venue_row_def using i ok by (subst merged_venue) (auto simp: curves_ok_def)
  then show ?thesis using ps by simp
qed

text \<open>What the arrays of the tape hold at a row and a compiled venue.\<close>

lemma tape_lookup:
  assumes t: "tape_of cs sel t" and ok: "curves_ok cs sel" "length cs \<le> MAX_EDGES"
    and i: "i < length cs" "bit sel i" and ps: "merged cs sel (\<lambda>_. 0) = A @ B"
  shows "index_at (prefix_rows t) (length A) = Inr (map (\<lambda>i. cnt i A) [0..<MAX_EDGES])"
    "index_at (ix_capacity (tp_curves t ! i)) (cnt i A) = Inr (spent i A)"
    "index_at (ix_integral (tp_curves t ! i)) (cnt i A) = Inr (area (venue_row i A))"
    "row_capacity t (length A) i = Inr (spent i A)"
    "(i, s) = hd B \<Longrightarrow> B \<noteq> [] \<Longrightarrow> index_at (ix_rates (tp_curves t ! i)) (cnt i A) = Inr (marginal_q32 s)"
proof -
  let ?x = "tp_curves t ! i" and ?bs = "bands (cs ! i)"
  have x: "indexes (cs ! i) ?x" "length (tp_curves t) = MAX_EDGES" and rows: "prefix_rows t = prefix_table (A @ B)"
    using t i ps by (auto simp: tape_of_def tape_header_def tape_rows_def)
  have bs: "?bs = venue_row i A @ venue_row i B" using row_of_venue [OF ok(1) i ps] by simp
  then have le: "cnt i A \<le> length ?bs" by (simp add: length_venue_row [symmetric])
  have tk: "take (cnt i A) ?bs = venue_row i A" unfolding bs by (simp add: length_venue_row [symmetric])
  show row: "index_at (prefix_rows t) (length A) = Inr (map (\<lambda>i. cnt i A) [0..<MAX_EDGES])"
    unfolding rows by (simp add: index_at_def prefix_table_nth) (simp add: prefix_table_def)
  show cap: "index_at (ix_capacity ?x) (cnt i A) = Inr (spent i A)"
    and "index_at (ix_integral ?x) (cnt i A) = Inr (area (venue_row i A))"
    using x le tk by (simp_all add: indexes_def index_at_def spent_row less_Suc_eq_le del: upt_Suc)
  show "row_capacity t (length A) i = Inr (spent i A)"
    using row cap i(1) ok(2) x(2) by (simp only: row_capacity_def bindR_simps) (simp add: index_at_def)
  assume "(i, s) = hd B" "B \<noteq> []"
  then obtain B' where "B = (i, s) # B'" by (cases B) auto
  then have "venue_row i B = s # venue_row i B'" by simp
  then have "?bs ! cnt i A = s" "cnt i A < length ?bs"
    unfolding bs by (simp_all add: length_venue_row [symmetric])
  then show "index_at (ix_rates ?x) (cnt i A) = Inr (marginal_q32 s)"
    using x by (simp add: indexes_def)
qed

section \<open>Rank\<close>

lemma rank_loop_spec:
  "\<forall>i \<in> set is. row_capacity t row i = Inr (c i) \<Longrightarrow> acc + sum_list (map c is) < 2 ^ 64 \<Longrightarrow>
     yields (rank_loop t row is acc) (\<lambda>r. r = acc + sum_list (map c is))"
proof (induction "is" arbitrary: acc)
  case Nil
  then show ?case by (simp add: yields_ret)
next
  case (Cons i "is")
  have "yields (rank_loop t row is (acc + c i)) (\<lambda>r. r = acc + c i + sum_list (map c is))"
    by (rule Cons.IH) (use Cons.prems in auto)
  moreover have "bindR (row_capacity t row i) (add_w 64 acc) = Inr (acc + c i)"
    using Cons.prems by (simp add: add_w_ok)
  ultimately show ?case by (simp add: yields_charge_then add.assoc)
qed

text \<open>The tape, a subset of its venues and the pairs that subset selects.\<close>

definition tape_ready :: "curve list \<Rightarrow> nat \<Rightarrow> residual_tape \<Rightarrow> nat \<Rightarrow> bool" where
  "tape_ready cs sel t sub \<longleftrightarrow>
     tape_of cs sel t \<and> curves_ok cs sel \<and> length cs \<le> MAX_EDGES \<and> sel < 2 ^ length cs \<and> submask sub sel"

lemma queryD:
  assumes "tape_ready cs sel t sub"
  shows "sub < 256" "bit sub i \<Longrightarrow> i < length cs \<and> bit sel i" "curves_ok cs sub"
    "chosen sub (merged cs sel (\<lambda>_. 0)) = merged cs sub (\<lambda>_. 0)"
    "set (walk_bits sub) = {i. bit sub i}"
proof -
  have sel: "i < length cs \<and> bit sel i" if "bit sub i" for i
    using assms that mask_bit_less [of sel "length cs" i] by (auto simp: tape_ready_def submask_def)
  then show "bit sub i \<Longrightarrow> i < length cs \<and> bit sel i" .
  have len: "length cs \<le> 8" using assms by (simp add: tape_ready_def MAX_EDGES_def)
  show u8: "sub < 256"
  proof (rule ccontr)
    assume "\<not> sub < 256"
    then have "take_bit 8 sub \<noteq> sub" by (simp add: take_bit_nat_eq_self_iff)
    then obtain i where "bit (take_bit 8 sub) i \<noteq> bit sub i" using bit_eqI by blast
    then show False using sel [of i] len by (auto simp: bit_take_bit_iff)
  qed
  show "curves_ok cs sub" using assms sel by (auto simp: tape_ready_def curves_ok_def)
  show "chosen sub (merged cs sel (\<lambda>_. 0)) = merged cs sub (\<lambda>_. 0)"
    unfolding chosen_def by (rule merged_filter) (use assms in \<open>simp add: tape_ready_def\<close>)
  show "set (walk_bits sub) = {i. bit sub i}"
    using sel len by (force simp: walk_bits_u8 [OF u8] MAX_EDGES_def)
qed

lemma curve_capacity_bound:
  assumes "curves_ok cs sel" "i < length cs" "bit sel i"
  shows "cv_capacity (cs ! i) \<le> MAX_ATOMS"
proof -
  have "valid_curve (cs ! i)" using curves_okD [OF assms] by blast
  then have "total (bands (cs ! i)) \<le> MAX_ATOMS" "total (bands (cs ! i)) = cv_capacity (cs ! i)"
    by (simp_all add: valid_curve_def good_bands_def)
  then show ?thesis by simp
qed

lemma merged_total_u64:
  assumes "curves_ok cs sel" "length cs \<le> MAX_EDGES"
  shows "pairs_total (merged cs sel (\<lambda>_. 0)) \<le> MAX_EDGES * MAX_ATOMS" "MAX_EDGES * MAX_ATOMS < 2 ^ 64"
proof -
  have "pairs_total (merged cs sel (\<lambda>_. 0)) \<le> (\<Sum>j<length cs. MAX_ATOMS)"
    unfolding merged_total [OF assms(1)] using curve_capacity_bound [OF assms(1)]
    by (intro sum_mono) auto
  also have "\<dots> \<le> MAX_EDGES * MAX_ATOMS" using assms(2) by simp
  finally show "pairs_total (merged cs sel (\<lambda>_. 0)) \<le> MAX_EDGES * MAX_ATOMS" .
  show "MAX_EDGES * MAX_ATOMS < 2 ^ 64" by (simp add: bounds_defs)
qed

lemma pairs_total_append [simp]: "pairs_total (as @ bs) = pairs_total as + pairs_total bs"
  by (simp add: pairs_total_def)

lemma sum_spent_chosen:
  assumes "sub < 256" "\<forall>(i, s) \<in> set A. i < MAX_EDGES"
  shows "sum_list (map (\<lambda>i. spent i A) (walk_bits sub)) = pairs_total (chosen sub A)"
  using sum_chosen [OF assms, of input_capacity] by (simp add: spent_row total_def pairs_total_def)

lemma rank_spec:
  assumes q: "tape_ready cs sel t sub" and ps: "merged cs sel (\<lambda>_. 0) = A @ B"
  shows "yields (rank t (length A) sub) (\<lambda>r. r = pairs_total (chosen sub A))"
proof -
  have t: "tape_of cs sel t" "curves_ok cs sel" "length cs \<le> MAX_EDGES" using q by (auto simp: tape_ready_def)
  note d = queryD [OF q]
  have A: "\<forall>(i, s) \<in> set A. i < MAX_EDGES" using merged_venues [OF t(3), of sel "\<lambda>_. 0"] ps by auto
  have "chosen sub (A @ B) = merged cs sub (\<lambda>_. 0)" using d(4) ps by simp
  then have "pairs_total (chosen sub A) \<le> pairs_total (merged cs sub (\<lambda>_. 0))"
    by (metis chosen_simps(2) pairs_total_append le_add1)
  also have "\<dots> < 2 ^ 64" using merged_total_u64 [OF d(3) t(3)] by linarith
  finally have "0 + sum_list (map (\<lambda>i. spent i A) (walk_bits sub)) < 2 ^ 64"
    by (simp add: sum_spent_chosen [OF d(1) A])
  moreover have "\<forall>i \<in> set (walk_bits sub). row_capacity t (length A) i = Inr (spent i A)"
    using tape_lookup(4) [OF t _ _ ps] d(2) by (auto simp: d(5))
  ultimately have "yields (rank_loop t (length A) (walk_bits sub) 0)
      (\<lambda>r. r = 0 + sum_list (map (\<lambda>i. spent i A) (walk_bits sub)))" by (intro rank_loop_spec)
  then show ?thesis by (simp add: rank_def sum_spent_chosen [OF d(1) A])
qed

section \<open>Binary search\<close>

lemma bsearch_spec:
  assumes probe: "\<And>mid. lo0 \<le> mid \<Longrightarrow> mid < hi0 \<Longrightarrow> yields (probe mid) (\<lambda>b. b = P mid)"
    and mono: "\<And>a b. a \<le> b \<Longrightarrow> P a \<Longrightarrow> P b"
  shows "lo0 \<le> lo \<Longrightarrow> lo \<le> hi \<Longrightarrow> hi \<le> hi0 \<Longrightarrow> P hi \<Longrightarrow> (\<forall>j. lo0 \<le> j \<longrightarrow> j < lo \<longrightarrow> \<not> P j) \<Longrightarrow>
     yields (bsearch probe lo hi) (\<lambda>k. lo0 \<le> k \<and> k \<le> hi0 \<and> P k \<and> (\<forall>j. lo0 \<le> j \<longrightarrow> j < k \<longrightarrow> \<not> P j))"
proof (induction "hi - lo" arbitrary: lo hi rule: less_induct)
  case less
  let ?mid = "lo + (hi - lo) div 2"
  show ?case
  proof (cases "lo < hi")
    case True
    then have mid: "lo \<le> ?mid" "?mid < hi" by auto
    have eq: "bsearch probe lo hi = bindS (probe ?mid)
        (\<lambda>r. if r then bsearch probe lo ?mid else bsearch probe (?mid + 1) hi)"
      by (rule ext, subst bsearch.simps) (use True in \<open>simp add: bindS_def split: prod.split sum.split\<close>)
    show ?thesis unfolding eq
    proof (rule yields_bindS [OF probe])
      fix r assume r: "r = P ?mid"
      show "yields (if r then bsearch probe lo ?mid else bsearch probe (?mid + 1) hi)
          (\<lambda>k. lo0 \<le> k \<and> k \<le> hi0 \<and> P k \<and> (\<forall>j. lo0 \<le> j \<longrightarrow> j < k \<longrightarrow> \<not> P j))"
      proof (cases r)
        case True
        have "yields (bsearch probe lo ?mid)
            (\<lambda>k. lo0 \<le> k \<and> k \<le> hi0 \<and> P k \<and> (\<forall>j. lo0 \<le> j \<longrightarrow> j < k \<longrightarrow> \<not> P j))"
          by (rule less.hyps) (use less.prems mid True r in auto)
        then show ?thesis using True by simp
      next
        case False
        then have "\<forall>j. lo0 \<le> j \<longrightarrow> j < ?mid + 1 \<longrightarrow> \<not> P j"
          using mono [of _ ?mid] r by (metis Suc_eq_plus1 less_Suc_eq_le)
        then have "yields (bsearch probe (?mid + 1) hi)
            (\<lambda>k. lo0 \<le> k \<and> k \<le> hi0 \<and> P k \<and> (\<forall>j. lo0 \<le> j \<longrightarrow> j < k \<longrightarrow> \<not> P j))"
          by (intro less.hyps) (use less.prems mid in auto)
        then show ?thesis using False by simp
      qed
    qed (use less.prems mid in auto)
  next
    case False
    then have "bsearch probe lo hi = ret lo" by (intro ext, subst bsearch.simps) (simp add: ret_def)
    then show ?thesis using less.prems False by (auto intro: yields_ret)
  qed
qed

section \<open>The split at the marginal band\<close>

lemma cut_pairs_0 [simp]: "cut_pairs ps 0 = []"
  by (cases ps) auto

lemma cut_pairs_split:
  "pairs_total A < a \<Longrightarrow> a \<le> pairs_total A + input_capacity s \<Longrightarrow>
     cut_pairs (A @ (i, s) # B) a = A @ [(i, s\<lparr>input_capacity := a - pairs_total A\<rparr>)]"
proof (induction A arbitrary: a)
  case (Cons p A)
  obtain j u where p: "p = (j, u)" by (cases p)
  have "cut_pairs (A @ (i, s) # B) (a - input_capacity u) =
      A @ [(i, s\<lparr>input_capacity := a - input_capacity u - pairs_total A\<rparr>)]"
    by (rule Cons.IH) (use Cons.prems p in auto)
  then show ?case using Cons.prems by (simp add: p min_def)
qed (simp add: min_def)

lemma integral_split:
  "total as < a \<Longrightarrow> a \<le> total as + input_capacity s \<Longrightarrow>
     integral (as @ s # bs) a = area as + (a - total as) * marginal_q32 s"
  by (simp add: integral_append integral_total)

lemma integral_complete: "integral (as @ bs) (total as) = area as"
  by (simp add: integral_append integral_total)

lemma area_append [simp]: "area (as @ bs) = area as + area bs"
  by (simp add: area_def)

section \<open>Filling and collecting\<close>

lemma fill_complete_spec:
  "\<forall>i \<in> set is. row_capacity t row i = Inr (c i) \<and> i < length ins \<Longrightarrow> distinct is \<Longrightarrow>
     filled + sum_list (map c is) < 2 ^ 64 \<Longrightarrow>
     yields (fill_complete t row is ins filled) (\<lambda>(ins', filled').
       filled' = filled + sum_list (map c is) \<and> length ins' = length ins \<and>
       (\<forall>j < length ins. ins' ! j = (if j \<in> set is then c j else ins ! j)))"
proof (induction "is" arbitrary: ins filled)
  case Nil
  then show ?case by (simp add: yields_ret)
next
  case (Cons i "is")
  have "yields (fill_complete t row is (ins[i := c i]) (filled + c i)) (\<lambda>(ins', filled').
       filled' = filled + c i + sum_list (map c is) \<and> length ins' = length (ins[i := c i]) \<and>
       (\<forall>j < length (ins[i := c i]). ins' ! j = (if j \<in> set is then c j else ins[i := c i] ! j)))"
    by (rule Cons.IH) (use Cons.prems in auto)
  then have "yields (fill_complete t row is (ins[i := c i]) (filled + c i)) (\<lambda>(ins', filled').
       filled' = filled + sum_list (map c (i # is)) \<and> length ins' = length ins \<and>
       (\<forall>j < length ins. ins' ! j = (if j \<in> set (i # is) then c j else ins ! j)))"
    by (rule yields_mono) (use Cons.prems in \<open>auto simp: nth_list_update\<close>)
  moreover have "row_capacity t row i = Inr (c i)" "i < length ins" "add_w 64 filled (c i) = Inr (filled + c i)"
    using Cons.prems by (auto simp: add_w_ok)
  ultimately show ?case by (simp add: yields_charge_then)
qed

text \<open>\<open>v i\<close> is the area venue \<open>i\<close> earns and \<open>low i\<close> its conservative output.\<close>

lemma collect_areas_spec:
  fixes v :: "nat \<Rightarrow> nat" and err :: "nat \<Rightarrow> nat"
  assumes row: "index_at (prefix_rows t) row = Inr r"
    and look: "\<And>i. i \<in> S \<Longrightarrow> i < length r \<and> i < length ins \<and>
       index_at (ix_integral (tp_curves t ! i)) (r ! i) = Inr (base i) \<and>
       (if i = last_edge
        then index_at (ix_rates (tp_curves t ! i)) (r ! i) = Inr rate \<and> v i = base i + part * rate
        else v i = base i)"
    and zero: "\<And>i. i \<in> S \<Longrightarrow> ins ! i = 0 \<Longrightarrow> v i = 0"
    and cs2: "\<And>i. i \<in> S \<Longrightarrow> lower \<Longrightarrow> i < length cs2 \<and> lower_error_atoms (cs2 ! i) = err i"
  shows "set is \<subseteq> S \<Longrightarrow> a + sum_list (map v is) < 2 ^ 128 \<Longrightarrow>
     low + sum_list (map (\<lambda>i. v i div SCALE) is) < 2 ^ 64 \<Longrightarrow>
     \<exists>pm'. collect_areas t lower cs2 row last_edge part is ins pm a low =
        Inr (pm', a + sum_list (map v is),
          if lower then low + sum_list (map (\<lambda>i. v i div SCALE - err i) is) else low) \<and>
       (\<forall>j. bit pm' j \<longleftrightarrow> bit pm j \<or> j \<in> set is \<and> 0 < ins ! j)"
proof (induction "is" arbitrary: pm a low)
  case (Cons i "is")
  have i: "i \<in> S" and "is": "set is \<subseteq> S" using Cons.prems(1) by auto
  show ?case
  proof (cases "ins ! i = 0")
    case True
    have "\<exists>pm'. collect_areas t lower cs2 row last_edge part is ins pm a low =
        Inr (pm', a + sum_list (map v is),
          if lower then low + sum_list (map (\<lambda>i. v i div SCALE - err i) is) else low) \<and>
       (\<forall>j. bit pm' j \<longleftrightarrow> bit pm j \<or> j \<in> set is \<and> 0 < ins ! j)"
      by (rule Cons.IH [OF "is"]) (use Cons.prems in auto)
    moreover have "collect_areas t lower cs2 row last_edge part (i # is) ins pm a low =
        collect_areas t lower cs2 row last_edge part is ins pm a low"
      using True look [OF i] by simp
    ultimately show ?thesis using True zero [OF i True] by auto
  next
    case False
    let ?low = "if lower then low + (v i div SCALE - err i) else low"
    have fits: "a + v i < 2 ^ 128" "low + v i div SCALE < 2 ^ 64" "v i < 2 ^ 128" "v i div SCALE < 2 ^ 64"
      using Cons.prems(2,3) by auto
    have "\<exists>pm'. collect_areas t lower cs2 row last_edge part is ins (set_bit i pm) (a + v i) ?low =
        Inr (pm', a + v i + sum_list (map v is),
          if lower then ?low + sum_list (map (\<lambda>i. v i div SCALE - err i) is) else ?low) \<and>
       (\<forall>j. bit pm' j \<longleftrightarrow> bit (set_bit i pm) j \<or> j \<in> set is \<and> 0 < ins ! j)"
      by (rule Cons.IH [OF "is"]) (use Cons.prems in auto)
    moreover have "collect_areas t lower cs2 row last_edge part (i # is) ins pm a low =
        collect_areas t lower cs2 row last_edge part is ins (set_bit i pm) (a + v i) ?low"
    proof -
      have "(if i = last_edge then
            bindR (index_at (ix_rates (tp_curves t ! i)) (r ! i)) (\<lambda>rate.
            bindR (mul_w 128 part rate) (add_w 128 (base i)))
          else Inr (base i)) = Inr (v i)"
        using look [OF i] fits(3) by (auto simp: add_w_def mul_w_def split: if_splits)
      moreover have "(if lower then
            bindR (as_u64 (v i div SCALE)) (\<lambda>q.
            bindR (index_at cs2 i) (\<lambda>c.
            ok_or (checked_add 64 low (q - lower_error_atoms c)) Arithmetic))
          else Inr low) = Inr ?low"
        using cs2 [OF i] fits by (auto simp: as_u64_ok checked_add_def)
      ultimately show ?thesis using look [OF i] False fits(1) row by (simp add: add_w_ok)
    qed
    ultimately show ?thesis using False by (auto simp: bit_set_bit_iff add.assoc)
  qed
qed simp

section \<open>The answer of a query\<close>

definition lower_total :: "curve list \<Rightarrow> curve list \<Rightarrow> nat \<Rightarrow> nat list \<Rightarrow> nat" where
  "lower_total cs cs2 sub ins =
     sum_list (map (\<lambda>i. integral (bands (cs ! i)) (ins ! i) div SCALE - lower_error_atoms (cs2 ! i)) (walk_bits sub))"

definition answer ::
  "curve list \<Rightarrow> nat \<Rightarrow> bool \<Rightarrow> curve list \<Rightarrow> nat \<Rightarrow> allocation \<Rightarrow> bool"
where
  "answer cs sub lower cs2 amount p \<longleftrightarrow>
     (\<exists>p0. plan_of cs sub amount p0 \<and>
       p = (if lower then p0\<lparr>al_output := lower_total cs cs2 sub (inputs p0)\<rparr> else p0))"

lemma answer_plan: "answer cs sub False cs2 amount p \<longleftrightarrow> plan_of cs sub amount p"
  by (simp add: answer_def)

lemma spent_chosen: "spent j (chosen sub A) = (if bit sub j then spent j A else 0)"
  by (simp add: spent_row venue_row_chosen)

lemma spent_append [simp]: "spent j (A @ B) = spent j A + spent j B"
  by (simp add: spent_def)

text \<open>The facts about the band a query ends in.\<close>

definition ends_in ::
  "curve list \<Rightarrow> nat \<Rightarrow> nat \<Rightarrow> nat \<Rightarrow> (nat \<times> segment) list \<Rightarrow> nat \<Rightarrow> segment \<Rightarrow> (nat \<times> segment) list \<Rightarrow> bool"
where
  "ends_in cs sel sub amount A i s B \<longleftrightarrow>
     merged cs sel (\<lambda>_. 0) = A @ (i, s) # B \<and> bit sub i \<and>
     pairs_total (chosen sub A) < amount \<and> amount \<le> pairs_total (chosen sub A) + input_capacity s"

lemma ends_in_cut:
  assumes "tape_ready cs sel t sub" "ends_in cs sel sub amount A i s B"
  shows "spent j (cut_pairs (merged cs sub (\<lambda>_. 0)) amount) =
      (if bit sub j then spent j A else 0) + (if j = i then amount - pairs_total (chosen sub A) else 0)"
    "integral (map snd (merged cs sub (\<lambda>_. 0))) amount =
      area (map snd (chosen sub A)) + (amount - pairs_total (chosen sub A)) * marginal_q32 s"
proof -
  have m: "merged cs sub (\<lambda>_. 0) = chosen sub A @ (i, s) # chosen sub B"
    using queryD(4) [OF assms(1)] assms(2) by (auto simp: ends_in_def)
  have e: "pairs_total (chosen sub A) < amount" "amount \<le> pairs_total (chosen sub A) + input_capacity s"
    using assms(2) by (auto simp: ends_in_def)
  show "spent j (cut_pairs (merged cs sub (\<lambda>_. 0)) amount) =
      (if bit sub j then spent j A else 0) + (if j = i then amount - pairs_total (chosen sub A) else 0)"
    unfolding m cut_pairs_split [OF e] by (simp add: spent_chosen)
  show "integral (map snd (merged cs sub (\<lambda>_. 0))) amount =
      area (map snd (chosen sub A)) + (amount - pairs_total (chosen sub A)) * marginal_q32 s"
    using e by (simp add: m integral_split pairs_total_def)
qed

text \<open>What each venue earns: its complete bands and, for the last venue, part of one band.\<close>

lemma venue_earning:
  assumes q: "tape_ready cs sel t sub" and e: "ends_in cs sel sub amount A i s B" and j: "bit sub j"
  defines "part \<equiv> amount - pairs_total (chosen sub A)"
  shows "integral (bands (cs ! j)) (spent j A + (if j = i then part else 0)) =
    area (venue_row j A) + (if j = i then part * marginal_q32 s else 0)"
proof -
  have ok: "curves_ok cs sel" and m: "merged cs sel (\<lambda>_. 0) = A @ (i, s) # B"
    and p: "0 < part" "part \<le> input_capacity s"
    using q e by (auto simp: tape_ready_def ends_in_def part_def)
  have jj: "j < length cs" "bit sel j" using queryD(2) [OF q j] by auto
  have b: "bands (cs ! j) = venue_row j A @ venue_row j ((i, s) # B)"
    using row_of_venue [OF ok jj m] by simp
  show ?thesis
  proof (cases "j = i")
    case True
    then have "bands (cs ! j) = venue_row j A @ s # venue_row j B" using b by simp
    then show ?thesis using p True by (simp add: spent_row integral_split)
  next
    case False
    then show ?thesis using b by (simp add: spent_row integral_complete)
  qed
qed

lemma sum_list_if_once:
  fixes x :: nat
  assumes "distinct is" "i \<in> set is"
  shows "sum_list (map (\<lambda>j. f j + (if j = i then x else 0)) is) = sum_list (map f is) + x"
  using assms by (simp add: sum_list_addf sum_list_distinct_conv_sum_set)

lemma merged_integral_fits:
  assumes "curves_ok cs sel" "a \<le> MAX_ATOMS"
  shows "integral (map snd (merged cs sel (\<lambda>_. 0))) a < 2 ^ 128"
proof -
  have "integral (map snd (merged cs sel (\<lambda>_. 0))) a \<le> MAX_RATE * a"
    by (rule integral_le_rate [OF merged_rate_bound [OF assms(1)]])
  also have "\<dots> \<le> MAX_RATE * MAX_ATOMS" using assms(2) by simp
  finally show ?thesis using rate_times_atoms(1) by linarith
qed

text \<open>The area each selected venue earns, with the marginal band at venue \<open>i\<close>.\<close>

definition earned :: "nat \<Rightarrow> nat \<Rightarrow> nat \<Rightarrow> (nat \<times> segment) list \<Rightarrow> nat \<Rightarrow> segment \<Rightarrow> nat \<Rightarrow> nat" where
  "earned sub amount part A i s j = area (venue_row j A) + (if j = i then part * marginal_q32 s else 0)"

lemma sum_earned:
  assumes q: "tape_ready cs sel t sub" and e: "ends_in cs sel sub amount A i s B"
  shows "sum_list (map (earned sub amount (amount - pairs_total (chosen sub A)) A i s) (walk_bits sub)) =
    integral (map snd (merged cs sub (\<lambda>_. 0))) amount"
proof -
  let ?part = "amount - pairs_total (chosen sub A)" and ?is = "walk_bits sub"
  note d = queryD [OF q]
  have m: "merged cs sel (\<lambda>_. 0) = A @ (i, s) # B" and i: "bit sub i" using e by (auto simp: ends_in_def)
  have A: "\<forall>(i, s) \<in> set A. i < MAX_EDGES"
  proof -
    have "length cs \<le> MAX_EDGES" using q by (simp add: tape_ready_def)
    from merged_venues [OF this, of sel "\<lambda>_. 0"] show ?thesis using m by auto
  qed
  have dist: "distinct ?is" by (simp add: walk_bits_u8 [OF d(1)])
  have "sum_list (map (earned sub amount ?part A i s) ?is) =
      sum_list (map (\<lambda>j. area (venue_row j A)) ?is) + ?part * marginal_q32 s"
    unfolding earned_def by (rule sum_list_if_once [OF dist]) (simp add: d(5) i)
  also have "sum_list (map (\<lambda>j. area (venue_row j A)) ?is) = area (map snd (chosen sub A))"
    unfolding area_def by (rule sum_chosen [OF d(1) A])
  finally show ?thesis using ends_in_cut(2) [OF q e] by simp
qed

lemma finish_row_collect:
  assumes q: "tape_ready cs sel t sub" and e: "ends_in cs sel sub amount A i s B"
    and amount: "amount \<le> MAX_ATOMS" and cs2: "lower \<longrightarrow> length cs2 = length cs"
    and len: "length ins = MAX_EDGES"
    and part: "part = amount - pairs_total (chosen sub A)" and v: "v = earned sub amount part A i s"
    and earn: "\<And>j. bit sub j \<Longrightarrow> integral (bands (cs ! j)) (ins ! j) = v j"
  obtains pm where
    "collect_areas t lower cs2 (length A) i part (walk_bits sub) ins 0 0 0 =
      Inr (pm, integral (map snd (merged cs sub (\<lambda>_. 0))) amount,
        if lower then lower_total cs cs2 sub ins else 0)"
    "\<And>j. bit pm j \<longleftrightarrow> bit sub j \<and> 0 < ins ! j"
proof -
  let ?is = "walk_bits sub" and ?R = "map (\<lambda>i. cnt i A) [0..<MAX_EDGES]"
  let ?err = "\<lambda>j. lower_error_atoms (cs2 ! j)"
  have t: "tape_of cs sel t" "curves_ok cs sel" "length cs \<le> MAX_EDGES" using q by (auto simp: tape_ready_def)
  note d = queryD [OF q]
  have m: "merged cs sel (\<lambda>_. 0) = A @ (i, s) # B" and i: "bit sub i" using e by (auto simp: ends_in_def)
  note look = tape_lookup [OF t _ _ m]
  note area = sum_earned [OF q e, folded part, folded v]
  have fits: "0 + sum_list (map v ?is) < 2 ^ 128" "0 + sum_list (map (\<lambda>i. v i div SCALE) ?is) < 2 ^ 64"
    using merged_integral_fits [OF d(3) amount] merged_output_fits [OF d(3) amount]
      sum_list_div_le [where f = v and s = SCALE and xs = ?is] by (simp_all add: area)
  have "\<exists>pm'. collect_areas t lower cs2 (length A) i part ?is ins 0 0 0 =
      Inr (pm', 0 + sum_list (map v ?is),
        if lower then 0 + sum_list (map (\<lambda>i. v i div SCALE - ?err i) ?is) else 0) \<and>
     (\<forall>j. bit pm' j \<longleftrightarrow> bit (0::nat) j \<or> j \<in> set ?is \<and> 0 < ins ! j)"
  proof (rule collect_areas_spec [where r = ?R and S = "{j. bit sub j}"
        and base = "\<lambda>j. area (venue_row j A)" and rate = "marginal_q32 s"])
    show "index_at (prefix_rows t) (length A) = Inr ?R" using look(1) d(2) [OF i] by blast
    fix j assume "j \<in> {j. bit sub j}"
    then have j: "bit sub j" "j < length cs" "bit sel j" "j < MAX_EDGES" using d(2) [of j] t(3) by auto
    then have R: "?R ! j = cnt j A" by simp
    show "j < length ?R \<and> j < length ins \<and>
      index_at (ix_integral (tp_curves t ! j)) (?R ! j) = Inr (area (venue_row j A)) \<and>
      (if j = i
       then index_at (ix_rates (tp_curves t ! j)) (?R ! j) = Inr (marginal_q32 s) \<and>
         v j = area (venue_row j A) + part * marginal_q32 s
       else v j = area (venue_row j A))"
      unfolding R using look(3) [OF j(2,3)] look(5) [OF j(2,3)] j(4) len by (auto simp: v earned_def)
    show "v j = 0" if "ins ! j = 0" using earn [OF j(1)] that by simp
    show "j < length cs2 \<and> lower_error_atoms (cs2 ! j) = ?err j" if lower using cs2 that j by simp
  qed (use fits in \<open>auto simp: d(5)\<close>)
  moreover have "lower_total cs cs2 sub ins = sum_list (map (\<lambda>i. v i div SCALE - ?err i) ?is)"
    unfolding lower_total_def using earn by (intro arg_cong [of _ _ sum_list] map_cong) (auto simp: d(5))
  ultimately show thesis using that by (auto simp: d(5) area)
qed

lemma finish_row_spec:
  assumes q: "tape_ready cs sel t sub" and e: "ends_in cs sel sub amount A i s B"
    and amount: "amount \<le> MAX_ATOMS" and cs2: "lower \<longrightarrow> length cs2 = length cs"
    and len: "length ins = MAX_EDGES"
    and ins: "\<And>j. j < MAX_EDGES \<Longrightarrow> ins ! j = (if bit sub j then spent j A else 0)"
  shows "\<exists>p. finish_row t lower amount sub cs2 (Suc (length A)) ins (pairs_total (chosen sub A)) = Inr p \<and>
    answer cs sub lower cs2 amount p"
proof -
  define part where "part = amount - pairs_total (chosen sub A)"
  let ?ins = "ins[i := ins ! i + part]"
  have t: "tape_of cs sel t" "length cs \<le> MAX_EDGES" using q by (auto simp: tape_ready_def)
  note d = queryD [OF q]
  have m: "merged cs sel (\<lambda>_. 0) = A @ (i, s) # B" and i: "bit sub i" "i < MAX_EDGES"
    and le: "pairs_total (chosen sub A) < amount"
    using e d(2) [of i] t(2) by (auto simp: ends_in_def)
  have small: "amount < 2 ^ 64" using amount by (simp add: MAX_ATOMS_def)
  have ins': "?ins ! j = (if bit sub j then spent j A else 0) + (if j = i then part else 0)"
    if "j < MAX_EDGES" for j using ins [OF that] len that i by (simp add: nth_list_update)
  have earn: "integral (bands (cs ! j)) (?ins ! j) = earned sub amount part A i s j" if "bit sub j" for j
    unfolding earned_def using ins' [of j] d(2) [OF that] t(2) that
    by (simp only: venue_earning [OF q e that, folded part_def, symmetric]) simp
  let ?out = "integral (map snd (merged cs sub (\<lambda>_. 0))) amount"
  obtain pm where c: "collect_areas t lower cs2 (length A) i part (walk_bits sub) ?ins 0 0 0 =
      Inr (pm, ?out, if lower then lower_total cs cs2 sub ?ins else 0)"
    and pm: "\<And>j. bit pm j \<longleftrightarrow> bit sub j \<and> 0 < ?ins ! j"
    using finish_row_collect [OF q e amount cs2 _ part_def refl, of ?ins] earn len by auto
  let ?p0 = "\<lparr>inputs = ?ins, al_output = ?out div SCALE, al_mask = pm\<rparr>"
  have "bit pm j \<longleftrightarrow> 0 < spent j (cut_pairs (merged cs sub (\<lambda>_. 0)) amount)" for j
    using pm [of j] ins' [of j] d(2) [of j] t(2) i
    by (cases "bit sub j") (auto simp: ends_in_cut(1) [OF q e] part_def)
  then have plan: "plan_of cs sub amount ?p0"
    using len ins' by (simp add: plan_of_def Let_def ends_in_cut(1) [OF q e] part_def)
  have "ins ! i + part < 2 ^ 64"
    using spent_le_total [of i "chosen sub A"] ins [OF i(2)] i le small
    by (simp add: part_def spent_chosen)
  moreover have "index_at (owner t) (Suc (length A)) = Inr i"
    using t(1) m by (simp add: tape_of_def tape_rows_def index_at_def nth_append)
  ultimately have "finish_row t lower amount sub cs2 (Suc (length A)) ins (pairs_total (chosen sub A)) =
      Inr (if lower then ?p0\<lparr>al_output := lower_total cs cs2 sub (inputs ?p0)\<rparr> else ?p0)"
    using c le len i merged_output_fits [OF d(3) amount]
    by (simp add: finish_row_def sub_w_ok add_w_ok as_u64_ok part_def [symmetric] Let_def)
  then show ?thesis using plan by (auto simp: answer_def)
qed

lemma fill_row_spec:
  assumes q: "tape_ready cs sel t sub" and e: "ends_in cs sel sub amount A i s B"
    and amount: "amount \<le> MAX_ATOMS" and cs2: "lower \<longrightarrow> length cs2 = length cs"
  shows "yields (fill_row t lower amount sub cs2 (Suc (length A))) (answer cs sub lower cs2 amount)"
proof -
  let ?is = "walk_bits sub" and ?z = "replicate MAX_EDGES (0 :: nat)"
  have t: "tape_of cs sel t" "curves_ok cs sel" "length cs \<le> MAX_EDGES" using q by (auto simp: tape_ready_def)
  note d = queryD [OF q]
  have m: "merged cs sel (\<lambda>_. 0) = A @ (i, s) # B" and le: "pairs_total (chosen sub A) < amount"
    using e by (auto simp: ends_in_def)
  note look = tape_lookup [OF t _ _ m]
  have dist: "distinct ?is" by (simp add: walk_bits_u8 [OF d(1)])
  have A: "\<forall>(i, s) \<in> set A. i < MAX_EDGES" using merged_venues [OF t(3), of sel "\<lambda>_. 0"] m by auto
  have filled: "0 + sum_list (map (\<lambda>j. spent j A) ?is) = pairs_total (chosen sub A)"
    using sum_spent_chosen [OF d(1) A] by simp
  have small: "amount < 2 ^ 64" using amount by (simp add: MAX_ATOMS_def)
  have fill: "yields (fill_complete t (length A) ?is ?z 0) (\<lambda>(ins, f).
       f = 0 + sum_list (map (\<lambda>j. spent j A) ?is) \<and> length ins = length ?z \<and>
       (\<forall>j < length ?z. ins ! j = (if j \<in> set ?is then spent j A else ?z ! j)))"
  proof (rule fill_complete_spec [OF _ dist])
    show "\<forall>i \<in> set ?is. row_capacity t (length A) i = Inr (spent i A) \<and> i < length ?z"
      using look(4) d(2) t(3) by (fastforce simp: d(5))
  qed (use filled le small in simp)
  have row: "sub_w (Suc (length A)) 1 = Inr (length A)" by (simp add: sub_w_def)
  show ?thesis unfolding fill_row_def row liftR_Inr bindS_ret
  proof (rule yields_bindS [OF fill], clarify)
    fix ins assume ins: "length ins = length ?z"
      "\<forall>j < length ?z. ins ! j = (if j \<in> set ?is then spent j A else ?z ! j)"
    then have "\<exists>p. finish_row t lower amount sub cs2 (Suc (length A)) ins (pairs_total (chosen sub A)) = Inr p \<and>
        answer cs sub lower cs2 amount p"
      by (intro finish_row_spec [OF q e amount cs2]) (auto simp: d(5))
    then show "yields (liftR (finish_row t lower amount sub cs2 (Suc (length A)) ins
        (0 + sum_list (map (\<lambda>j. spent j A) ?is)))) (answer cs sub lower cs2 amount)"
      unfolding filled by (auto intro: yields_liftR)
  qed
qed

section \<open>Both query paths\<close>

lemma sorted_totals: "a \<le> b \<Longrightarrow> pairs_total (chosen sub (take a ps)) \<le> pairs_total (chosen sub (take b ps))"
proof -
  assume "a \<le> b"
  then have "take b ps = take a ps @ take (b - a) (drop a ps)"
    by (metis le_add_diff_inverse take_add)
  then show ?thesis by simp
qed

lemma rank_take:
  assumes q: "tape_ready cs sel t sub" and k: "k \<le> length (merged cs sel (\<lambda>_. 0))"
  shows "yields (rank t k sub) (\<lambda>r. r = pairs_total (chosen sub (take k (merged cs sel (\<lambda>_. 0)))))"
  using rank_spec [OF q, of "take k (merged cs sel (\<lambda>_. 0))" "drop k (merged cs sel (\<lambda>_. 0))"] k
  by (simp add: min_absorb2)

lemma rank_full:
  assumes q: "tape_ready cs sel t sub"
  shows "yields (rank t (tp_bands t) sub) (\<lambda>r. r = pairs_total (merged cs sub (\<lambda>_. 0)))"
proof -
  have "tp_bands t = length (merged cs sel (\<lambda>_. 0))"
    using q by (simp add: tape_ready_def tape_of_def tape_rows_def)
  then show ?thesis using rank_take [OF q order_refl] queryD(4) [OF q] by simp
qed

text \<open>The least row reaching the amount ends in a band of a selected venue.\<close>

lemma least_row_ends:
  assumes ps: "merged cs sel (\<lambda>_. 0) = ps" and k: "1 \<le> k" "k \<le> length ps" and amount: "0 < amount"
    and reach: "amount \<le> pairs_total (chosen sub (take k ps))"
    and least: "\<And>j. 1 \<le> j \<Longrightarrow> j < k \<Longrightarrow> \<not> amount \<le> pairs_total (chosen sub (take j ps))"
  obtains A i s B where "ends_in cs sel sub amount A i s B" "k = Suc (length A)"
proof -
  obtain i s where nth: "ps ! (k - 1) = (i, s)" by (cases "ps ! (k - 1)")
  let ?A = "take (k - 1) ps" and ?B = "drop k ps"
  have split: "ps = ?A @ (i, s) # ?B"
    using k nth by (metis Cons_nth_drop_Suc Suc_pred' append_take_drop_id less_eq_Suc_le One_nat_def less_le_trans zero_less_one)
  have tk: "take k ps = ?A @ [(i, s)]"
    using k nth by (metis take_Suc_conv_app_nth Suc_diff_1 Suc_le_eq One_nat_def)
  have below: "pairs_total (chosen sub ?A) < amount"
  proof (cases "k = 1")
    case False
    then have "1 \<le> k - 1" "k - 1 < k" using k by auto
    then show ?thesis using least [of "k - 1"] by simp
  qed (use amount in simp)
  have "bit sub i" using reach below tk by (cases "bit sub i") auto
  then have "ends_in cs sel sub amount ?A i s ?B"
    using ps split below reach tk by (simp add: ends_in_def)
  then show thesis using that [of ?A i s ?B] k by simp
qed

lemma allocate_rows_spec:
  assumes q: "tape_ready cs sel t sub" and amount: "0 < amount" "amount \<le> MAX_ATOMS"
    and cs2: "lower \<longrightarrow> length cs2 = length cs" and cap: "amount \<le> pairs_total (merged cs sub (\<lambda>_. 0))"
  shows "yields (allocate_rows t lower amount sub cs2) (answer cs sub lower cs2 amount)"
proof -
  define ps where "ps = merged cs sel (\<lambda>_. 0)"
  let ?P = "\<lambda>k. amount \<le> pairs_total (chosen sub (take k ps))"
  let ?probe = "\<lambda>mid. bindS (rank t mid sub) (\<lambda>r. ret (amount \<le> r))"
  have bands: "tp_bands t = length ps"
    using q by (simp add: tape_ready_def tape_of_def tape_rows_def ps_def)
  have full: "?P (length ps)" using cap queryD(4) [OF q] by (simp add: ps_def)
  then have one: "1 \<le> length ps" using amount by (cases ps) auto
  have probe: "yields (?probe mid) (\<lambda>b. b = ?P mid)" if "mid < length ps" for mid
    by (rule yields_bindS [OF rank_take [OF q]])
       (use that in \<open>auto simp: ps_def intro: yields_ret\<close>)
  have search: "yields (bsearch ?probe 1 (length ps))
      (\<lambda>k. 1 \<le> k \<and> k \<le> length ps \<and> ?P k \<and> (\<forall>j. 1 \<le> j \<longrightarrow> j < k \<longrightarrow> \<not> ?P j))"
    by (rule bsearch_spec) (use one full probe in \<open>auto intro: order_trans [OF _ sorted_totals]\<close>)
  have row: "yields (fill_row t lower amount sub cs2 k) (answer cs sub lower cs2 amount)"
    if k: "1 \<le> k" "k \<le> length ps" "?P k" "\<forall>j. 1 \<le> j \<longrightarrow> j < k \<longrightarrow> \<not> ?P j" for k
  proof -
    obtain A i s B where "ends_in cs sel sub amount A i s B" "k = Suc (length A)"
      by (rule least_row_ends [OF ps_def [symmetric] k(1,2) amount(1) k(3)]) (use k(4) in auto)
    then show ?thesis using fill_row_spec [OF q _ amount(2) cs2] by blast
  qed
  show ?thesis unfolding allocate_rows_def bands
    by (rule yields_bindS [OF rank_full [OF q, unfolded bands]])
       (use cap search row in \<open>auto intro: yields_bindS\<close>)
qed

lemma single_bit:
  assumes "sub < 256" "count_ones sub = 1"
  shows "bit sub j \<longleftrightarrow> j = trailing_zeros sub"
proof -
  have "count_ones 0 = 0" by (simp add: count_ones_def)
  then have "sub \<noteq> 0" using assms(2) by (metis zero_neq_one)
  moreover have "length (walk_bits sub) = 1"
    using assms walk_bits_filter [of sub 16] by (simp add: count_ones_def)
  ultimately have "walk_bits sub = [trailing_zeros sub]"
    by (subst (asm) walk_bits.simps, subst walk_bits.simps) simp
  moreover have "j \<in> set (walk_bits sub) \<longleftrightarrow> bit sub j"
    using mask_bit_less [of sub 8 j] assms(1) by (auto simp: walk_bits_u8 MAX_EDGES_def)
  ultimately show ?thesis by auto
qed

text \<open>With one selected venue the merged order is that venue's curve.\<close>

lemma single_merged:
  assumes q: "tape_ready cs sel t sub" and one: "count_ones sub = 1"
  defines "i \<equiv> trailing_zeros sub"
  shows "i < length cs" "bit sel i" "bit sub j \<longleftrightarrow> j = i"
    "map snd (merged cs sub (\<lambda>_. 0)) = bands (cs ! i)"
    "spent j (cut_pairs (merged cs sub (\<lambda>_. 0)) a) =
       (if j = i then min a (pairs_total (merged cs sub (\<lambda>_. 0))) else 0)"
proof -
  let ?ps = "merged cs sub (\<lambda>_. 0)"
  note d = queryD [OF q]
  show b: "bit sub j \<longleftrightarrow> j = i" for j unfolding i_def by (rule single_bit [OF d(1) one])
  then show ii: "i < length cs" "bit sel i" using d(2) [of i] by auto
  have v: "\<forall>(k, s) \<in> set ?ps. k = i" using merged_elem b by fastforce
  then have "filter (\<lambda>(k, s). k = i) ?ps = ?ps" by (simp add: filter_id_conv case_prod_beta)
  then show "map snd ?ps = bands (cs ! i)"
    using merged_venue [of cs sub i "\<lambda>_. 0"] d(3) ii b by (simp add: curves_ok_def)
  have c: "\<forall>(k, s) \<in> set (cut_pairs ?ps a). k = i" using v cut_pairs_venues by fastforce
  have "spent j qs = (if j = i then pairs_total qs else 0)" if "\<forall>(k, s) \<in> set qs. k = i" for qs
    using that by (induction qs) auto
  from this [OF c] show "spent j (cut_pairs ?ps a) = (if j = i then min a (pairs_total ?ps) else 0)"
    by (simp add: total_cut_pairs)
qed

text \<open>The same search inside one indexed curve.\<close>

lemma indexes_at:
  assumes "indexes c x" "k \<le> length (bands c)"
  shows "index_at (ix_capacity x) k = Inr (total (take k (bands c)))"
    "index_at (ix_integral x) k = Inr (area (take k (bands c)))"
  using assms by (simp_all add: indexes_def index_at_def less_Suc_eq_le del: upt_Suc take_take)

lemma single_output_spec:
  assumes x: "indexes c x" and k: "1 \<le> k" "k \<le> length (bands c)"
    and reach: "amount \<le> total (take k (bands c))"
    and least: "\<And>j. 1 \<le> j \<Longrightarrow> j < k \<Longrightarrow> \<not> amount \<le> total (take j (bands c))"
    and amount: "0 < amount" and fits: "integral (bands c) amount < 2 ^ 128" "integral (bands c) amount div SCALE < 2 ^ 64"
  shows "single_output x amount k = Inr (integral (bands c) amount div SCALE)"
proof -
  define bs where "bs = bands c"
  let ?s = "bs ! (k - 1)" and ?as = "take (k - 1) bs"
  have k1: "k - 1 < length bs" "k - 1 \<le> length bs" using k by (auto simp: bs_def)
  have split: "bs = ?as @ ?s # drop k bs"
    using k k1 by (metis Cons_nth_drop_Suc Suc_pred' append_take_drop_id less_eq_Suc_le One_nat_def)
  have "take k bs = ?as @ [?s]"
    using k k1 by (metis take_Suc_conv_app_nth Suc_diff_1 Suc_le_eq One_nat_def)
  then have reach': "amount \<le> total ?as + input_capacity ?s" using reach by (simp add: bs_def [symmetric])
  have below: "total ?as < amount"
  proof (cases "k = 1")
    case False
    then have "1 \<le> k - 1" "k - 1 < k" using k by auto
    then show ?thesis using least [of "k - 1"] by (simp add: bs_def)
  qed (use amount in simp)
  have eq: "area ?as + (amount - total ?as) * marginal_q32 ?s = integral bs amount"
    using integral_split [OF below reach', of "drop k bs"] split by simp
  then have "(amount - total ?as) * marginal_q32 ?s < 2 ^ 128"
    "area ?as + (amount - total ?as) * marginal_q32 ?s < 2 ^ 128"
    using fits(1) by (simp_all add: bs_def [symmetric])
  moreover have "index_at (ix_rates x) (k - 1) = Inr (marginal_q32 ?s)"
    using x k1 by (simp add: indexes_def bs_def index_at_def)
  moreover note indexes_at [OF x, of "k - 1"]
  ultimately show ?thesis using k k1 below fits(2) eq
    by (simp add: single_output_def sub_w_ok mul_w_ok add_w_ok as_u64_ok bs_def [symmetric])
qed

lemma search_single:
  assumes x: "indexes c x" and n: "1 \<le> length (bands c)" and cap: "amount \<le> total (bands c)"
  shows "yields (bsearch (\<lambda>mid. bindS (charge 1) (\<lambda>_.
      bindS (liftR (index_at (ix_capacity x) mid)) (\<lambda>c. ret (amount \<le> c)))) 1 (length (bands c)))
    (\<lambda>k. 1 \<le> k \<and> k \<le> length (bands c) \<and> amount \<le> total (take k (bands c)) \<and>
       (\<forall>j. 1 \<le> j \<longrightarrow> j < k \<longrightarrow> \<not> amount \<le> total (take j (bands c))))"
proof -
  define bs where "bs = bands c"
  let ?P = "\<lambda>k. amount \<le> total (take k bs)"
  let ?probe = "\<lambda>mid. bindS (charge 1) (\<lambda>_. bindS (liftR (index_at (ix_capacity x) mid)) (\<lambda>c. ret (amount \<le> c)))"
  have mono: "?P b" if "a \<le> b" "?P a" for a b
    using that(2) total_take_le [of a "take b bs"] that(1) by (simp add: min_def split: if_splits)
  have probe: "yields (?probe mid) (\<lambda>b. b = ?P mid)" if "1 \<le> mid" "mid < length bs" for mid
    using indexes_at(1) [OF x, of mid] that by (simp add: yields_charge_then yields_ret bs_def)
  have "yields (bsearch ?probe 1 (length bs))
      (\<lambda>k. 1 \<le> k \<and> k \<le> length bs \<and> ?P k \<and> (\<forall>j. 1 \<le> j \<longrightarrow> j < k \<longrightarrow> \<not> ?P j))"
    by (rule bsearch_spec [OF probe mono]) (use n cap in \<open>simp_all add: bs_def [symmetric]\<close>)
  then show ?thesis by (simp only: bs_def)
qed

lemma allocate_single_spec:
  assumes q: "tape_ready cs sel t sub" and one: "count_ones sub = 1" and amount: "0 < amount" "amount \<le> MAX_ATOMS"
    and cs2: "lower \<longrightarrow> length cs2 = length cs" and cap: "amount \<le> pairs_total (merged cs sub (\<lambda>_. 0))"
  shows "yields (allocate_single t lower amount sub cs2) (answer cs sub lower cs2 amount)"
proof -
  let ?i = "trailing_zeros sub"
  let ?x = "tp_curves t ! ?i" and ?c = "cs ! ?i"
  note sm = single_merged [OF q one] and d = queryD [OF q]
  have x: "indexes ?c ?x" using q sm(1,2) by (simp add: tape_ready_def tape_of_def tape_header_def)
  have len: "ix_len ?x = length (bands ?c)" using x curves_okD [OF d(3) sm(1)] sm(3) by (simp add: indexes_def)
  have full: "total (bands ?c) = pairs_total (merged cs sub (\<lambda>_. 0))" using sm(4) by (simp add: pairs_total_def)
  have n: "1 \<le> length (bands ?c)" using cap amount full by (cases "bands ?c") (auto simp del: take_eq_Nil)
  let ?out = "integral (bands ?c) amount div SCALE"
  let ?p0 = "\<lparr>inputs = (replicate MAX_EDGES 0)[?i := amount], al_output = ?out, al_mask = sub\<rparr>"
  have i: "?i < MAX_EDGES" using q sm(1) by (auto simp: tape_ready_def)
  have plan: "plan_of cs sub amount ?p0"
    using sm(3,4,5) i cap amount(1) by (auto simp: plan_of_def Let_def nth_list_update)
  have fits: "integral (bands ?c) amount < 2 ^ 128" "?out < 2 ^ 64"
    using merged_output_fits [OF d(3) amount(2)] merged_integral_fits [OF d(3) amount(2)] sm(4) by simp_all
  have "walk_bits sub = [?i]"
    using sm(3) d(1) i by (auto simp: walk_bits_u8 MAX_EDGES_def upt_rec)
  then have low: "lower_total cs cs2 sub (inputs ?p0) = ?out - lower_error_atoms (cs2 ! ?i)"
    using i by (simp add: lower_total_def)
  have idx: "index_at (ix_capacity ?x) (length (bands ?c)) = Inr (total (bands ?c))"
    using indexes_at(1) [OF x order_refl] by (simp del: take_take)
  have enough: "(total (bands ?c) < amount) = False" "amount \<le> total (bands ?c)" using cap full by auto
  have last: "(if lower then bindR (index_at cs2 ?i) (\<lambda>c. Inr (?out - lower_error_atoms c)) else Inr ?out) =
      Inr (if lower then lower_total cs cs2 sub (inputs ?p0) else ?out)"
    unfolding low using cs2 sm(1) by simp
  show ?thesis unfolding allocate_single_def Let_def len idx liftR_Inr bindS_ret enough(1) if_False
  proof (rule yields_charge_then, rule yields_bindS [OF search_single [OF x n enough(2)]], elim conjE)
    fix k assume k: "1 \<le> k" "k \<le> length (bands ?c)" "amount \<le> total (take k (bands ?c))"
      "\<forall>j. 1 \<le> j \<longrightarrow> j < k \<longrightarrow> \<not> amount \<le> total (take j (bands ?c))"
    have out: "single_output ?x amount k = Inr ?out"
      by (rule single_output_spec [OF x k(1-3) _ amount(1) fits]) (use k(4) in blast)
    show "yields (bindS (liftR (single_output ?x amount k)) (\<lambda>out.
       bindS (liftR (if lower then bindR (index_at cs2 ?i) (\<lambda>c. Inr (out - lower_error_atoms c)) else Inr out)) (\<lambda>out'.
       ret (allocation_default
         \<lparr>inputs := (replicate MAX_EDGES 0)[?i := amount], al_output := out', al_mask := sub\<rparr>))))
      (answer cs sub lower cs2 amount)"
      unfolding out liftR_Inr bindS_ret last
      by (rule yields_ret) (use plan in \<open>auto simp: answer_def allocation_default_def\<close>)
  qed
qed

section \<open>The contract of a query\<close>

lemma submask_u8_iff: "submask_u8 a b \<longleftrightarrow> (\<forall>i < MAX_EDGES. bit a i \<longrightarrow> bit b i)"
  by (auto simp: submask_u8_def list_all_iff)

lemma allocate_capacity:
  assumes q: "tape_ready cs sel t sub" and less: "pairs_total (merged cs sub (\<lambda>_. 0)) < amount"
    and amount: "0 < amount" "amount \<le> MAX_ATOMS" and sub: "sub \<noteq> 0"
    and a: "allocate_inner t lower amount sub cs2 m = (r, m')"
  shows "r = fail WorkLimit \<or> r = fail Capacity"
proof -
  have g: "submask_u8 sub (compiled_mask t)"
    using q by (simp add: tape_ready_def tape_of_def tape_header_def submask_u8_iff submask_def)
  show ?thesis
  proof (cases "count_ones sub = 1")
    case True
    let ?x = "tp_curves t ! trailing_zeros sub" and ?bs = "bands (cs ! trailing_zeros sub)"
    note sm = single_merged [OF q True]
    have x: "indexes (cs ! trailing_zeros sub) ?x"
      using q sm(1,2) by (simp add: tape_ready_def tape_of_def tape_header_def)
    have "ix_len ?x = length ?bs"
      using x curves_okD [OF queryD(3) [OF q] sm(1)] sm(3) by (simp add: indexes_def)
    moreover have "total ?bs = pairs_total (merged cs sub (\<lambda>_. 0))" using sm(4) by (simp add: pairs_total_def)
    ultimately have "allocate_single t lower amount sub cs2 = bindS (charge 1) (\<lambda>_. liftR (fail Capacity))"
      using indexes_at(1) [OF x order_refl] less by (simp add: allocate_single_def Let_def del: take_take)
    moreover have "allocate_inner t lower amount sub cs2 = allocate_single t lower amount sub cs2"
      using amount sub g True by (simp add: allocate_inner_def)
    ultimately have "bindS (charge 1) (\<lambda>_. liftR (fail Capacity)) m = (r, m')" using a by simp
    from yields_then_fail [OF yields_charge refl this] show ?thesis .
  next
    case False
    then have "allocate_rows t lower amount sub cs2 m = (r, m')"
      using a amount sub g by (simp add: allocate_inner_def)
    from yields_then_fail [OF rank_full [OF q] _ this [unfolded allocate_rows_def]] less
    show ?thesis by simp
  qed
qed

lemma allocate_inner_spec:
  assumes q: "tape_ready cs sel t sub" and amount: "0 < amount" "amount \<le> MAX_ATOMS" and sub: "sub \<noteq> 0"
    and cs2: "lower \<longrightarrow> length cs2 = length cs" and cap: "amount \<le> pairs_total (merged cs sub (\<lambda>_. 0))"
  shows "yields (allocate_inner t lower amount sub cs2) (answer cs sub lower cs2 amount)"
proof -
  have g: "submask_u8 sub (compiled_mask t)"
    using q by (simp add: tape_ready_def tape_of_def tape_header_def submask_u8_iff submask_def)
  show ?thesis
  proof (cases "count_ones sub = 1")
    case True
    then show ?thesis using allocate_single_spec [OF q True amount cs2 cap] amount sub g
      by (simp add: allocate_inner_def)
  next
    case False
    then show ?thesis using allocate_rows_spec [OF q amount cs2 cap] amount sub g
      by (simp add: allocate_inner_def)
  qed
qed

lemma query_of_build:
  assumes "build cs sel m = (Inr t, m')" "arrays_ok cs" "submask sub sel"
  shows "tape_ready cs sel t sub"
  using build_tape [OF assms(1,2)] build_guards [OF assms(1)] assms(3) by (simp add: tape_ready_def)

lemma submask_less:
  assumes "submask sub sel" "sel < 2 ^ n"
  shows "sub < 2 ^ n"
proof (rule ccontr)
  assume "\<not> sub < 2 ^ n"
  then have "take_bit n sub \<noteq> sub" by (simp add: take_bit_nat_eq_self_iff)
  then obtain i where i: "bit (take_bit n sub) i \<noteq> bit sub i" using bit_eqI by blast
  then have "bit sel i" using assms(1) by (auto simp: submask_def bit_take_bit_iff)
  then show False using i mask_bit_less [OF assms(2)] by (auto simp: bit_take_bit_iff)
qed

lemma tape_agrees:
  assumes q: "tape_ready cs sel t sub" and arr: "arrays_ok cs" and cs: "cs \<noteq> []"
  shows "agree (allocate t amount sub) (waterfill cs amount sub)"
proof (rule agreeI)
  fix m2 r m3 m4 r' m5
  assume runs: "allocate t amount sub m2 = (r, m3)" "waterfill cs amount sub m4 = (r', m5)"
    and nw: "r \<noteq> fail WorkLimit" "r' \<noteq> fail WorkLimit"
  note d = queryD [OF q]
  have len: "length cs \<le> MAX_EDGES" using q by (simp add: tape_ready_def)
  have a: "allocate_inner t False amount sub [] m2 = (r, m3)" using runs(1) by (simp add: allocate_def)
  have lt: "sub < 2 ^ length cs" using q by (auto simp: tape_ready_def intro: submask_less)
  consider "amount = 0 \<or> MAX_ATOMS < amount" | "\<not> (amount = 0 \<or> MAX_ATOMS < amount)" "sub = 0"
    | (ok) "0 < amount" "amount \<le> MAX_ATOMS" "sub \<noteq> 0" by fastforce
  then show "r = r'"
  proof cases
    case ok
    have valid: "\<forall>i < length cs. bit sub i \<longrightarrow> valid_curve (cs ! i)" using d(3) by (simp add: curves_ok_def)
    note w = waterfill_spec [OF runs(2) arr ok(1,2) cs len ok(3) lt valid]
    show ?thesis
    proof (cases "pairs_total (merged cs sub (\<lambda>_. 0)) < amount")
      case True
      then show ?thesis using w nw allocate_capacity [OF q True ok a] by auto
    next
      case False
      then have "\<exists>p. r = Inr p \<and> plan_of cs sub amount p"
        using yieldsD [OF allocate_inner_spec [OF q ok] a] nw by (auto simp: answer_plan)
      moreover have "\<exists>p. r' = Inr p \<and> plan_of cs sub amount p" using w nw False by auto
      ultimately show ?thesis using plan_of_unique by blast
    qed
  qed (use a runs(2) cs len in \<open>auto simp: allocate_inner_def waterfill_def\<close>)
qed

section \<open>Binding a tape to curves\<close>

lemma matches_bands_Some:
  assumes "indexes c x" "bs = bands c"
  shows "matches_bands ss j cap x = Some k \<Longrightarrow> cap = total (take j bs) \<Longrightarrow> j + length ss \<le> length bs \<Longrightarrow>
    ss = take (length ss) (drop j bs) \<and> k = total (take (j + length ss) bs)"
proof (induction ss arbitrary: j cap)
  case (Cons s ss)
  have j: "j < length bs" using Cons.prems(3) by simp
  have cap: "ix_capacity x ! Suc j = total (take (Suc j) bs)" "ix_rates x ! j = marginal_q32 (bs ! j)"
    using assms j by (auto simp: indexes_def nth_append simp del: upt_Suc take_take)
  have tk: "total (take (Suc j) bs) = total (take j bs) + input_capacity (bs ! j)"
    using j by (simp add: take_Suc_conv_app_nth)
  from Cons.prems(1) have m: "matches_bands ss (Suc j) (cap + input_capacity s) x = Some k"
    "cap + input_capacity s = total (take (Suc j) bs)" "marginal_q32 s = marginal_q32 (bs ! j)"
    using cap by (auto simp: checked_add_def split: if_splits option.splits)
  then have "s = bs ! j" using tk Cons.prems(2) by (cases s; cases "bs ! j") auto
  moreover have "drop j bs = bs ! j # drop (Suc j) bs" using j by (simp add: Cons_nth_drop_Suc)
  moreover have "ss = take (length ss) (drop (Suc j) bs) \<and> k = total (take (Suc j + length ss) bs)"
    by (rule Cons.IH) (use m Cons.prems(3) in auto)
  ultimately show ?case by simp
qed simp

text \<open>A tape that matches a list of curves was compiled from the same bands.\<close>

lemma tape_matches_binds:
  assumes t: "tape_of cs sel t" "curves_ok cs sel" "length cs \<le> MAX_EDGES" "sel < 2 ^ length cs"
    and m: "tape_matches t ds sub" and sub: "sub < 256" and arr: "arrays_ok ds"
  shows "tape_ready cs sel t sub" "same_bands cs ds sub"
    "\<And>i. i < length ds \<Longrightarrow> bit sub i \<Longrightarrow> valid_curve (ds ! i)"
proof -
  have len: "length ds = length cs" and s: "submask_u8 sub sel"
    using t m by (auto simp: tape_matches_def tape_of_def tape_header_def)
  have "i < MAX_EDGES" if "bit sub i" for i
    using mask_bit_less [of sub 8 i] sub that by (simp add: MAX_EDGES_def)
  then have ss: "submask sub sel" using s by (auto simp: submask_def submask_u8_iff)
  then show "tape_ready cs sel t sub" using t by (simp add: tape_ready_def)
  have venue: "bands (ds ! i) = bands (cs ! i) \<and> cv_len (ds ! i) = cv_len (cs ! i) \<and> cv_len (ds ! i) \<le> MAX_SEGMENTS \<and>
      cv_capacity (ds ! i) = total (bands (ds ! i))" if i: "i < length ds" "bit sub i" for i
  proof -
    have ii: "i < length cs" "bit sel i" using i len ss by (auto simp: submask_def)
    let ?x = "tp_curves t ! i"
    have x: "indexes (cs ! i) ?x" using t(1) ii by (simp add: tape_of_def tape_header_def)
    have c: "cv_len (ds ! i) = ix_len ?x" "cv_len (ds ! i) \<le> MAX_SEGMENTS"
      "matches_bands (bands (ds ! i)) 0 0 ?x = Some (cv_capacity (ds ! i))"
      using m i by (auto simp: tape_matches_def list_all_iff)
    have lens: "length (bands (ds ! i)) = cv_len (ds ! i)" "length (bands (cs ! i)) = cv_len (cs ! i)"
      using arr i(1) c(2) curves_okD [OF t(2) ii] by (auto simp: arrays_ok_def)
    have "cv_len (ds ! i) = cv_len (cs ! i)" using c(1) x by (simp add: indexes_def)
    then show ?thesis using matches_bands_Some [OF x refl c(3)] c(2) lens by (simp del: length_take)
  qed
  show "valid_curve (ds ! i)" if "i < length ds" "bit sub i" for i
    using venue [OF that] curves_okD [OF t(2), of i] that len ss by (auto simp: valid_curve_def submask_def)
  have "segments (cs ! i) ! k = segments (ds ! i) ! k" if "i < length cs" "bit sub i" "k < cv_len (cs ! i)" for i k
    using venue [of i] that len by (metis nth_take)
  then show "same_bands cs ds sub" using venue len by (auto simp: same_bands_def)
qed

lemma built_tape_matches:
  assumes "tape_of cs sel t" "curves_ok cs sel"
  shows "tape_matches t cs sel"
proof -
  have "matches_bands ss j cap x = Some (total (take (j + length ss) bs))"
    if x: "indexes c x" "bs = bands c" "total bs < 2 ^ 64" and "ss = drop j bs" "cap = total (take j bs)" "j \<le> length bs"
    for ss j cap x c bs
    using that(4-6)
  proof (induction ss arbitrary: j cap)
    case (Cons s ss)
    have j: "j < length bs" using Cons.prems by (metis drop_eq_Nil not_less list.distinct(1))
    then have d: "drop j bs = bs ! j # drop (Suc j) bs" by (simp add: Cons_nth_drop_Suc)
    have tk: "total (take (Suc j) bs) = total (take j bs) + input_capacity (bs ! j)"
      using j by (simp add: take_Suc_conv_app_nth)
    have "total (take (Suc j) bs) < 2 ^ 64" using x(3) total_take_le [of "Suc j" bs] by linarith
    moreover have "ix_capacity x ! Suc j = total (take (Suc j) bs)" "ix_rates x ! j = marginal_q32 (bs ! j)"
      using x j by (auto simp: indexes_def nth_append simp del: upt_Suc take_take)
    moreover have "matches_bands ss (Suc j) (total (take (Suc j) bs)) x = Some (total (take (Suc j + length ss) bs))"
      by (rule Cons.IH) (use Cons.prems d j in auto)
    ultimately show ?case using Cons.prems d tk by (simp add: checked_add_def)
  qed simp
  note mb = this
  have "cv_len (cs ! i) = ix_len (tp_curves t ! i) \<and> cv_len (cs ! i) \<le> MAX_SEGMENTS \<and>
      matches_bands (bands (cs ! i)) 0 0 (tp_curves t ! i) = Some (cv_capacity (cs ! i))"
    if i: "i < length cs" "bit sel i" for i
  proof -
    have x: "indexes (cs ! i) (tp_curves t ! i)" using assms(1) i by (simp add: tape_of_def tape_header_def)
    note c = curves_okD [OF assms(2) i]
    then have "total (bands (cs ! i)) < 2 ^ 64" using good_bands_fits(1) [of "bands (cs ! i)"] by simp
    from mb [OF x refl this, of "bands (cs ! i)" 0 0]
    have "matches_bands (bands (cs ! i)) 0 0 (tp_curves t ! i) =
        Some (total (take (0 + length (bands (cs ! i))) (bands (cs ! i))))" by simp
    moreover have "take (0 + length (bands (cs ! i))) (bands (cs ! i)) = bands (cs ! i)"
      by (simp only: add_0 take_all_iff le_refl)
    moreover have "total (bands (cs ! i)) = cv_capacity (cs ! i)" "cv_len (cs ! i) \<le> MAX_SEGMENTS"
      using c by (simp_all add: valid_curve_def)
    moreover have "ix_len (tp_curves t ! i) = cv_len (cs ! i)" using x by (simp add: indexes_def)
    ultimately show ?thesis by (simp only:)
  qed
  moreover have "length cs = tp_edges t" "submask_u8 sel (compiled_mask t)"
    using assms(1) by (simp_all add: tape_of_def tape_header_def submask_u8_iff)
  ultimately show ?thesis unfolding tape_matches_def list_all_iff set_upt by (metis atLeastLessThan_iff)
qed

text \<open>
  \<^bold>\<open>C4.\<close> The tape is an exact acceleration: a tape built over a set of venues answers every query of
  every subset of them with the same result, error included, as the streaming allocator, whenever
  neither runs out of budget.
\<close>

theorem tape_equals_waterfill:
  assumes "build cs sel m0 = (Inr t, m1)" "arrays_ok cs" "submask sub sel"
    and "allocate t amount sub m2 = (r, m3)" "waterfill cs amount sub m4 = (r', m5)"
    and "r \<noteq> fail WorkLimit" "r' \<noteq> fail WorkLimit"
  shows "r = r'"
  by (rule agreeD [OF tape_agrees [OF query_of_build [OF assms(1-3)] assms(2) build_guards(1) [OF assms(1)]] assms(4-7)])

lemma demo_tape:
  "\<exists>t m1 m3. build demo_curves 3 (meter_new 100) = (Inr t, m1) \<and>
     allocate t 200 3 (meter_new 100) = (Inr demo_plan, m3)"
proof -
  have "(case fst (build demo_curves 3 (meter_new 100)) of
      Inl e \<Rightarrow> False | Inr t \<Rightarrow> fst (allocate t 200 3 (meter_new 100)) = Inr demo_plan)" by code_simp
  then show ?thesis
    by (cases "build demo_curves 3 (meter_new 100)") (auto split: sum.splits simp: prod_eq_iff)
qed

lemma tape_equals_waterfill_witness:
  "\<exists>t m1 r m3. build demo_curves 3 (meter_new 100) = (Inr t, m1) \<and>
     allocate t 200 3 (meter_new 100) = (r, m3) \<and> r = fst (waterfill demo_curves 200 3 (meter_new 100))"
proof -
  obtain t m1 m3 where b: "build demo_curves 3 (meter_new 100) = (Inr t, m1)"
    and a: "allocate t 200 3 (meter_new 100) = (Inr demo_plan, m3)" using demo_tape by blast
  obtain m' where w: "waterfill demo_curves 200 3 (meter_new 100) = (Inr demo_plan, m')"
    using demo_waterfill by blast
  have "Inr demo_plan = (Inr demo_plan :: allocation res)"
    by (rule tape_equals_waterfill [OF b demo_arrays_ok _ a w]) (simp_all add: submask_def)
  then show ?thesis using b a w by auto
qed

lemma query_answers:
  assumes q: "tape_ready cs sel t sub" and r: "allocate_inner t lower amount sub cs2 m = (Inr p, m')"
    and cs2: "lower \<longrightarrow> length cs2 = length cs"
  shows "answer cs sub lower cs2 amount p" "0 < amount" "amount \<le> MAX_ATOMS"
    "amount \<le> pairs_total (merged cs sub (\<lambda>_. 0))"
proof -
  show amount: "0 < amount" "amount \<le> MAX_ATOMS" using r by (auto simp: allocate_inner_def split: if_splits)
  have sub: "sub \<noteq> 0" using r by (auto simp: allocate_inner_def split: if_splits)
  show cap: "amount \<le> pairs_total (merged cs sub (\<lambda>_. 0))"
    using allocate_capacity [OF q _ amount sub r] by (cases "pairs_total (merged cs sub (\<lambda>_. 0)) < amount") auto
  show "answer cs sub lower cs2 amount p"
    by (rule yields_Inr [OF allocate_inner_spec [OF q amount sub cs2 cap] r])
qed

text \<open>
  The conservative query keeps the allocation and reports what its parts are worth at the
  curves' lower bounds: \<open>allocate_lower\<close> returns the inputs and mask of \<open>allocate\<close>, and its output is
  the sum of the \<open>lower_quote\<close> of every selected venue at its input.
\<close>

theorem tape_lower_output:
  assumes "build cs sel m0 = (Inr t, m1)" "arrays_ok cs" "submask sub sel"
    and "allocate t amount sub m2 = (Inr p, m3)" "allocate_lower t amount sub cs m4 = (Inr l, m5)"
  shows "inputs l = inputs p \<and> al_mask l = al_mask p \<and>
    (\<exists>q. (\<forall>i. bit sub i \<longrightarrow> lower_quote (cs ! i) (inputs p ! i) = Inr (q i)) \<and>
       al_output l = (\<Sum>i \<in> {i. bit sub i}. q i))"
proof -
  note q = query_of_build [OF assms(1-3)]
  note d = queryD [OF q]
  have len: "length cs \<le> MAX_EDGES" by (rule build_guards [OF assms(1)])
  have a: "allocate_inner t False amount sub [] m2 = (Inr p, m3)"
    and l: "allocate_inner t True amount sub cs m4 = (Inr l, m5)"
    using assms(4,5) by (simp_all add: allocate_def allocate_lower_def)
  note qa = query_answers [OF q a] and ql = query_answers [OF q l]
  have cap: "amount \<le> pairs_total (merged cs sub (\<lambda>_. 0))" using qa(4) by simp
  have p: "plan_of cs sub amount p" using qa(1) by (simp add: answer_plan)
  obtain p0 where p0: "plan_of cs sub amount p0" "l = p0\<lparr>al_output := lower_total cs cs sub (inputs p0)\<rparr>"
    using ql(1) by (auto simp: answer_def)
  then have l_eq: "l = p\<lparr>al_output := lower_total cs cs sub (inputs p)\<rparr>"
    using plan_of_unique [OF p] by simp
  let ?q = "\<lambda>i. integral (bands (cs ! i)) (inputs p ! i) div SCALE - lower_error_atoms (cs ! i)"
  have quotes: "lower_quote (cs ! i) (inputs p ! i) = Inr (?q i)" if "bit sub i" for i
  proof (rule lower_quote_valid)
    show "valid_curve (cs ! i)" using curves_okD [OF d(3)] d(2) [OF that] that by blast
    show "inputs p ! i \<le> cv_capacity (cs ! i)"
      using plan_feasible(2) [OF p d(3) len cap, of i] d(2) [OF that] that len by simp
  qed
  have "lower_total cs cs sub (inputs p) = (\<Sum>i \<in> {i. bit sub i}. ?q i)"
    unfolding lower_total_def d(5) [symmetric]
    by (rule sum_list_distinct_conv_sum_set) (simp add: walk_bits_u8 [OF d(1)])
  with quotes l_eq show ?thesis by (auto intro!: exI [of _ ?q])
qed

lemma tape_lower_output_witness:
  "\<exists>t m1 m3 m5 l. build demo_curves 3 (meter_new 100) = (Inr t, m1) \<and>
     allocate t 200 3 (meter_new 100) = (Inr demo_plan, m3) \<and>
     allocate_lower t 200 3 demo_curves (meter_new 100) = (Inr l, m5) \<and> inputs l = [120, 80, 0, 0, 0, 0, 0, 0]"
proof -
  have "(case fst (build demo_curves 3 (meter_new 100)) of
      Inl e \<Rightarrow> False | Inr t \<Rightarrow> fst (allocate t 200 3 (meter_new 100)) = Inr demo_plan \<and>
        (case fst (allocate_lower t 200 3 demo_curves (meter_new 100)) of Inl e \<Rightarrow> False | Inr l \<Rightarrow> True))"
    by code_simp
  then obtain t m1 m3 m5 l where b: "build demo_curves 3 (meter_new 100) = (Inr t, m1)"
    and a: "allocate t 200 3 (meter_new 100) = (Inr demo_plan, m3)"
    and l: "allocate_lower t 200 3 demo_curves (meter_new 100) = (Inr l, m5)"
    by (cases "build demo_curves 3 (meter_new 100)")
       (auto split: sum.splits simp: prod_eq_iff)
  show ?thesis using tape_lower_output [OF b demo_arrays_ok _ a l] b a l
    by (simp add: submask_def demo_plan_def)
qed

end
