(* ===== verification/Certify.thy ===== *)
theory Certify
  imports Search TapeQuery Book Envelope
begin

text \<open>
  What a search report certifies. The allocators are seen through the interface \<open>allocator\<close>; the
  search is proved against it and the interface is interpreted on the streaming allocator and on the
  residual tape.
\<close>

section \<open>Pieces of the search\<close>

definition exact_of :: "snapshot \<Rightarrow> nat \<Rightarrow> nat" where
  "exact_of s x = (case exact_quote s x of Inr q \<Rightarrow> q | Inl _ \<Rightarrow> 0)"

lemma exact_loop_Inr:
  "exact_loop ss k ins out = Inr r \<Longrightarrow>
     (\<forall>i < length ss. 0 < ins ! (k + i) \<longrightarrow> exact_quote (ss ! i) (ins ! (k + i)) = Inr (exact_of (ss ! i) (ins ! (k + i)))) \<and>
     r = out + (\<Sum>i<length ss. if ins ! (k + i) = 0 then 0 else exact_of (ss ! i) (ins ! (k + i)))"
proof (induction ss arbitrary: k out)
  case (Cons s ss)
  obtain x where x: "k < length ins" "x = ins ! k" using Cons.prems by (auto simp: bindR_Inr index_at_Inr)
  have shift: "(\<Sum>i<length (s # ss). if ins ! (k + i) = 0 then 0 else exact_of ((s # ss) ! i) (ins ! (k + i))) =
      (if x = 0 then 0 else exact_of s x) +
      (\<Sum>i<length ss. if ins ! (Suc k + i) = 0 then 0 else exact_of (ss ! i) (ins ! (Suc k + i)))"
    by (simp add: sum.lessThan_Suc_shift x(2) del: sum.lessThan_Suc cong: if_cong)
  show ?case
  proof (cases "x = 0")
    case True
    then have "exact_loop ss (Suc k) ins out = Inr r" using Cons.prems x by simp
    from Cons.IH [OF this] show ?thesis unfolding shift using True x(2)
      by (auto simp: less_Suc_eq_0_disj)
  next
    case False
    then obtain q where q: "exact_quote s x = Inr q" "exact_loop ss (Suc k) ins (out + q) = Inr r"
      using Cons.prems x by (auto simp: bindR_Inr ok_or_Inr checked_add_Some)
    from Cons.IH [OF q(2)] show ?thesis unfolding shift using False x(2) q(1)
      by (auto simp: less_Suc_eq_0_disj exact_of_def)
  qed
qed simp

lemma and_or_zero:
  "and (or a b) c = (0 :: 64 word) \<longleftrightarrow> and a c = 0 \<and> and b c = 0"
  by (auto simp: bit_eq_iff bit_and_iff bit_or_iff)

lemma independent_loop_disjoint:
  "independent_loop ss k sel res \<Longrightarrow> j < length ss \<Longrightarrow> bit sel (k + j) \<Longrightarrow>
     and res (writable_resources (ss ! j)) = 0 \<and>
     (\<forall>i < j. bit sel (k + i) \<longrightarrow> and (writable_resources (ss ! i)) (writable_resources (ss ! j)) = 0)"
proof (induction ss arbitrary: k res j)
  case (Cons s ss)
  show ?case
  proof (cases j)
    case 0
    then show ?thesis using Cons.prems by (simp split: if_splits)
  next
    case (Suc j')
    let ?res = "if bit sel k then or res (writable_resources s) else res"
    have "independent_loop ss (Suc k) sel ?res" using Cons.prems(1) by (auto split: if_splits)
    from Cons.IH [OF this, of j'] Cons.prems(2,3) Suc
    have ih: "and ?res (writable_resources (ss ! j')) = 0"
      "\<forall>i < j'. bit sel (Suc k + i) \<longrightarrow> and (writable_resources (ss ! i)) (writable_resources (ss ! j')) = 0"
      by auto
    have "and res (writable_resources (ss ! j')) = 0 \<and>
        (bit sel k \<longrightarrow> and (writable_resources s) (writable_resources (ss ! j')) = 0)"
      using ih(1) by (simp add: and_or_zero split: if_splits)
    then show ?thesis using ih(2) Suc by (auto simp: less_Suc_eq_0_disj)
  qed
qed simp

lemma independent_disjoint:
  assumes "independent ss sel" "i < length ss" "j < length ss" "bit sel i" "bit sel j" "i \<noteq> j"
  shows "and (writable_resources (ss ! i)) (writable_resources (ss ! j)) = 0"
proof -
  have "and (writable_resources (ss ! a)) (writable_resources (ss ! b)) = 0"
    if "a < b" "b < length ss" "bit sel a" "bit sel b" for a b
    using independent_loop_disjoint [of ss 0 sel 0 b] assms(1) that by (simp add: independent_def)
  then show ?thesis using assms by (metis and.commute linorder_neqE_nat)
qed

text \<open>The venues the admission loop has passed.\<close>

definition admitted :: "snapshot list \<Rightarrow> curve list \<Rightarrow> nat \<Rightarrow> bool" where
  "admitted ss cs eligible \<longleftrightarrow>
     (\<forall>i < length ss. bit eligible i \<longrightarrow>
        input_mint (ss ! i) \<noteq> output_mint (ss ! i) \<and> atomic (ss ! i) \<and> enabled (ss ! i) \<and>
        cv_capacity (cs ! i) \<le> sn_capacity (ss ! i)) \<and>
     (\<forall>j < length ss. \<forall>i < j. bit eligible i \<longrightarrow> bit eligible j \<longrightarrow>
        input_mint (ss ! i) = input_mint (ss ! j) \<and> output_mint (ss ! i) = output_mint (ss ! j) \<and>
        market (ss ! i) \<noteq> market (ss ! j) \<and> liquidity_id (ss ! i) \<noteq> liquidity_id (ss ! j))"

definition admitted_at ::
  "snapshot list \<Rightarrow> curve list \<Rightarrow> nat \<Rightarrow> (key \<times> key) option \<Rightarrow> nat \<Rightarrow> nat \<Rightarrow> bool"
where
  "admitted_at ss cs eligible pair k i \<longleftrightarrow>
     input_mint (ss ! i) \<noteq> output_mint (ss ! i) \<and> atomic (ss ! i) \<and> enabled (ss ! i) \<and>
     cv_capacity (cs ! i) \<le> sn_capacity (ss ! i) \<and>
     (\<forall>p. pair = Some p \<longrightarrow> p = (input_mint (ss ! i), output_mint (ss ! i))) \<and>
     (\<forall>j < i. bit eligible j \<longrightarrow> market (ss ! j) \<noteq> market (ss ! i) \<and> liquidity_id (ss ! j) \<noteq> liquidity_id (ss ! i)) \<and>
     (\<forall>j. k \<le> j \<longrightarrow> j < i \<longrightarrow> bit eligible j \<longrightarrow>
        input_mint (ss ! j) = input_mint (ss ! i) \<and> output_mint (ss ! j) = output_mint (ss ! i))"

lemma admit_venue_at:
  assumes "admit_venue ss cs eligible pair k = Inr pair'"
  shows "admitted_at ss cs eligible pair k k" "pair' = Some (input_mint (ss ! k), output_mint (ss ! k))"
  using assms
  by (auto simp: admitted_at_def admit_venue_def Let_def bindR_Inr index_at_Inr list_ex_iff
      split: if_splits option.splits)

lemma admitted_at_first:
  assumes "admitted_at ss cs eligible pair k k"
    and i: "admitted_at ss cs eligible (Some (input_mint (ss ! k), output_mint (ss ! k))) (Suc k) i"
  shows "admitted_at ss cs eligible pair k i"
proof -
  have pk: "input_mint (ss ! k) = input_mint (ss ! i)" "output_mint (ss ! k) = output_mint (ss ! i)"
    using i by (simp_all add: admitted_at_def)
  have "input_mint (ss ! j) = input_mint (ss ! i) \<and> output_mint (ss ! j) = output_mint (ss ! i)"
    if "k \<le> j" "j < i" "bit eligible j" for j
  proof (cases "j = k")
    case False
    then have "Suc k \<le> j" using that by simp
    then show ?thesis using i that by (simp add: admitted_at_def)
  qed (use pk in simp)
  moreover have "p = (input_mint (ss ! i), output_mint (ss ! i))" if "pair = Some p" for p
    using assms(1) that pk by (simp add: admitted_at_def)
  ultimately show ?thesis using i by (simp add: admitted_at_def)
qed

lemma admit_loop_Inr:
  "admit_loop ss cs eligible pair [k..<n] = Inr u \<Longrightarrow> k \<le> i \<Longrightarrow> i < n \<Longrightarrow> bit eligible i \<Longrightarrow>
     admitted_at ss cs eligible pair k i"
proof (induction "n - k" arbitrary: k pair)
  case (Suc d)
  then have k: "[k..<n] = k # [Suc k..<n]" by (simp add: upt_conv_Cons)
  have d: "d = n - Suc k" using Suc.hyps(2) by simp
  show ?case
  proof (cases "bit eligible k")
    case False
    then have ki: "Suc k \<le> i" using Suc.prems(2,4) by (metis le_neq_implies_less Suc_leI)
    have "admit_loop ss cs eligible pair [Suc k..<n] = Inr u" using Suc.prems(1) k False by simp
    then have "admitted_at ss cs eligible pair (Suc k) i" using Suc.hyps(1) [OF d] ki Suc.prems(3,4) by blast
    moreover have "Suc k \<le> j" if "k \<le> j" "bit eligible j" for j
      using that False by (metis le_neq_implies_less Suc_leI)
    ultimately show ?thesis unfolding admitted_at_def by blast
  next
    case True
    then obtain pair' where v: "admit_venue ss cs eligible pair k = Inr pair'"
      and l: "admit_loop ss cs eligible pair' [Suc k..<n] = Inr u"
      using Suc.prems(1) k by (auto simp: bindR_Inr)
    show ?thesis
    proof (cases "i = k")
      case True
      then show ?thesis using admit_venue_at(1) [OF v] by simp
    next
      case False
      then have "Suc k \<le> i" using Suc.prems(2) by simp
      then have "admitted_at ss cs eligible pair' (Suc k) i" using Suc.hyps(1) [OF d l] Suc.prems(3,4) by blast
      then show ?thesis using admitted_at_first admit_venue_at [OF v] by blast
    qed
  qed
qed simp

lemma admit_loop_admitted:
  assumes "admit_loop ss cs eligible None [0..<length ss] = Inr u"
  shows "admitted ss cs eligible"
proof -
  have "admitted_at ss cs eligible None 0 i" if "i < length ss" "bit eligible i" for i
    using admit_loop_Inr [OF assms] that by blast
  then show ?thesis unfolding admitted_def admitted_at_def by simp
qed

lemma add_upper_Inr:
  "add_upper cs k eligible u = Inr r \<Longrightarrow>
     r = u + (\<Sum>i<length cs. if bit eligible (k + i) then upper_error_atoms (cs ! i) else 0)"
proof (induction cs arbitrary: k u)
  case (Cons c cs)
  have shift: "(\<Sum>i<length (c # cs). if bit eligible (k + i) then upper_error_atoms ((c # cs) ! i) else 0) =
      (if bit eligible k then upper_error_atoms c else 0) +
      (\<Sum>i<length cs. if bit eligible (Suc k + i) then upper_error_atoms (cs ! i) else 0)"
    by (simp add: sum.lessThan_Suc_shift del: sum.lessThan_Suc cong: if_cong)
  show ?case
  proof (cases "bit eligible k")
    case True
    then have "add_upper cs (Suc k) eligible (u + upper_error_atoms c) = Inr r"
      using Cons.prems by (auto simp: bindR_Inr ok_or_Inr checked_add_Some)
    from Cons.IH [OF this] show ?thesis unfolding shift using True by simp
  next
    case False
    then show ?thesis unfolding shift using Cons.IH [of "Suc k" u] Cons.prems by simp
  qed
qed simp

section \<open>Feasible plans and the shortlist\<close>

definition used_venues :: "allocation \<Rightarrow> nat set" where
  "used_venues p = {i. i < MAX_EDGES \<and> 0 < inputs p ! i}"

definition feasible_plan :: "curve list \<Rightarrow> nat \<Rightarrow> nat \<Rightarrow> allocation \<Rightarrow> bool" where
  "feasible_plan cs sub amount p \<longleftrightarrow>
     length (inputs p) = MAX_EDGES \<and> sum_list (inputs p) = amount \<and>
     (\<forall>j < MAX_EDGES. inputs p ! j \<le> (if j < length cs \<and> bit sub j then cv_capacity (cs ! j) else 0)) \<and>
     (\<forall>j. bit (al_mask p) j \<longleftrightarrow> j \<in> used_venues p)"

lemma plan_of_feasible:
  assumes "plan_of cs sub amount p" "curves_ok cs sub" "length cs \<le> MAX_EDGES"
    "amount \<le> pairs_total (merged cs sub (\<lambda>_. 0))"
  shows "feasible_plan cs sub amount p"
proof -
  note f = plan_feasible [OF assms]
  have "bit (al_mask p) j \<longleftrightarrow> j \<in> used_venues p" for j
    using f(3) [of j] f(4) [of j] assms(3) by (auto simp: used_venues_def)
  then show ?thesis using f assms(1) by (auto simp: feasible_plan_def plan_of_def Let_def)
qed

lemma feasible_plan_output [simp]:
  "feasible_plan cs sub amount (p\<lparr>al_output := q\<rparr>) = feasible_plan cs sub amount p"
  "used_venues (p\<lparr>al_output := q\<rparr>) = used_venues p"
  by (simp_all add: feasible_plan_def used_venues_def)

lemma feasible_plan_used:
  assumes "feasible_plan cs sub amount p" "i \<in> used_venues p"
  shows "i < length cs" "bit sub i" "inputs p ! i \<le> cv_capacity (cs ! i)" "i < MAX_EDGES"
proof -
  have i: "i < MAX_EDGES" "0 < inputs p ! i" using assms(2) by (auto simp: used_venues_def)
  then have "inputs p ! i \<le> (if i < length cs \<and> bit sub i then cv_capacity (cs ! i) else 0)"
    using assms(1) by (auto simp: feasible_plan_def)
  then show "i < length cs" "bit sub i" "inputs p ! i \<le> cv_capacity (cs ! i)" "i < MAX_EDGES"
    using i by (auto split: if_splits)
qed

text \<open>What every shortlisted plan satisfies.\<close>

definition candidate ::
  "snapshot list \<Rightarrow> curve list \<Rightarrow> nat \<Rightarrow> nat \<Rightarrow> nat \<Rightarrow> allocation \<Rightarrow> bool"
where
  "candidate ss cs amount eligible max_legs p \<longleftrightarrow>
     (\<exists>sub. submask_u8 sub eligible \<and> sub < 2 ^ length cs \<and> count_ones sub \<le> max_legs \<and>
        independent ss sub \<and> feasible_plan cs sub amount p)"

lemma shortlist_set: "set (shortlist p fs) \<subseteq> insert p (set fs)"
proof -
  have "set (insert_at k p fs) \<subseteq> insert p (set fs)" for k
    by (auto simp: insert_at_def dest: in_set_takeD in_set_dropD)
  then show ?thesis by (auto simp: shortlist_def dest!: in_set_takeD)
qed

lemma try_query_Some: "try_query query sel m = (Inr (Some p), m') \<Longrightarrow> query sel True m = (Inr p, m')"
  by (auto simp: try_query_def split: prod.splits sum.splits if_splits)

lemma consider_mask_candidates:
  assumes "consider_mask ss eligible max_legs query sel (fs, st) m = (Inr (fs', st'), m')"
    and "\<And>m p m'. submask_u8 sel eligible \<Longrightarrow> query sel True m = (Inr p, m') \<Longrightarrow> feasible_plan cs sel amount p"
    and "sel < 2 ^ length cs" "\<forall>f \<in> set fs. candidate ss cs amount eligible max_legs f"
  shows "\<forall>f \<in> set fs'. candidate ss cs amount eligible max_legs f"
proof (cases "fs' = fs")
  case False
  with assms(1) have s: "submask_u8 sel eligible" "count_ones sel \<le> max_legs" "independent ss sel"
    and "\<exists>p m1 m2. try_query query sel m1 = (Inr (Some p), m2) \<and> fs' = shortlist p fs"
    by (auto simp: consider_mask_def bindS_Inr Let_def split: if_splits option.splits)
  then obtain p m1 m2 where p: "query sel True m1 = (Inr p, m2)" "fs' = shortlist p fs"
    using try_query_Some by blast
  have "candidate ss cs amount eligible max_legs p"
    using s p(1) assms(2,3) by (auto simp: candidate_def)
  then show ?thesis using assms(4) shortlist_set [of p fs] p(2) by auto
qed (use assms in simp)

lemma search_masks_candidates:
  assumes feas: "\<And>sel m p m'. submask_u8 sel eligible \<Longrightarrow> sel < 2 ^ length cs \<Longrightarrow>
      query sel True m = (Inr p, m') \<Longrightarrow> feasible_plan cs sel amount p"
  shows "search_masks ss eligible max_legs query sels st m = (Inr (fs', st'), m') \<Longrightarrow>
     \<forall>sel \<in> set sels. sel < 2 ^ length cs \<Longrightarrow> \<forall>f \<in> set (fst st). candidate ss cs amount eligible max_legs f \<Longrightarrow>
     \<forall>f \<in> set fs'. candidate ss cs amount eligible max_legs f"
proof (induction sels arbitrary: st m)
  case (Cons sel sels)
  obtain fs s where st: "st = (fs, s)" by (cases st)
  from Cons.prems(1) obtain m1 m2 fs1 s1 where
    c: "consider_mask ss eligible max_legs query sel (fs, s) m1 = (Inr (fs1, s1), m2)"
    and rest: "search_masks ss eligible max_legs query sels (fs1, s1) m2 = (Inr (fs', st'), m')"
    unfolding st search_masks.simps by (auto simp only: bindS_Inr split_paired_Ex)
  have "\<forall>f \<in> set fs1. candidate ss cs amount eligible max_legs f"
    by (rule consider_mask_candidates [OF c]) (use Cons.prems feas st in auto)
  then show ?case using Cons.IH [OF rest] Cons.prems(2) by simp
qed auto

text \<open>The chosen plan is a shortlisted one, revalued exactly, and no shortlisted one is better.\<close>

lemma pick_best_Inr:
  "pick_best ss fs best st m = (Inr (r, st'), m') \<Longrightarrow> \<forall>f \<in> set fs. al_mask f \<noteq> 0 \<Longrightarrow>
     (fs = [] \<and> r = best \<or> al_mask best \<noteq> 0 \<and> r = best \<or>
       (\<exists>f \<in> set fs. \<exists>q. exact_output ss f = Inr q \<and> r = f\<lparr>al_output := q\<rparr>)) \<and>
     (al_mask best \<noteq> 0 \<longrightarrow> al_output best \<le> al_output r) \<and>
     (\<forall>f \<in> set fs. \<exists>q. exact_output ss f = Inr q \<and> q \<le> al_output r)"
proof (induction fs arbitrary: best st m)
  case (Cons f fs)
  from Cons.prems(1) obtain k m1 q where q: "exact_output ss f = Inr q"
    and rest: "pick_best ss fs (if al_mask best = 0 \<or> al_output best < q then f\<lparr>al_output := q\<rparr> else best)
        (st\<lparr>exact_simulations := k\<rparr>) m1 = (Inr (r, st'), m')"
    unfolding pick_best.simps by (auto simp only: bindS_Inr liftR_eq)
  have f: "al_mask f \<noteq> 0" using Cons.prems(2) by simp
  have "\<forall>f \<in> set fs. al_mask f \<noteq> 0" using Cons.prems(2) by simp
  note ih = Cons.IH [OF rest this]
  show ?case
  proof (cases "al_mask best = 0 \<or> al_output best < q")
    case True
    then have ih': "(fs = [] \<and> r = f\<lparr>al_output := q\<rparr> \<or> r = f\<lparr>al_output := q\<rparr> \<or>
          (\<exists>f \<in> set fs. \<exists>q. exact_output ss f = Inr q \<and> r = f\<lparr>al_output := q\<rparr>))"
        "q \<le> al_output r" "\<forall>f \<in> set fs. \<exists>q. exact_output ss f = Inr q \<and> q \<le> al_output r"
      using ih f by auto
    have "al_mask best \<noteq> 0 \<longrightarrow> al_output best \<le> al_output r" using True ih'(2) by auto
    then show ?thesis using ih' q by auto
  next
    case False
    then have ih': "r = best \<or> (\<exists>f \<in> set fs. \<exists>q. exact_output ss f = Inr q \<and> r = f\<lparr>al_output := q\<rparr>)"
        "al_output best \<le> al_output r" "\<forall>f \<in> set fs. \<exists>q. exact_output ss f = Inr q \<and> q \<le> al_output r"
      using ih by auto
    have "q \<le> al_output r" using False ih'(2) by auto
    then show ?thesis using ih' q False by auto
  qed
qed auto

section \<open>The allocator interface\<close>

definition report_ok ::
  "snapshot list \<Rightarrow> curve list \<Rightarrow> nat \<Rightarrow> nat \<Rightarrow> nat \<Rightarrow> search_report \<Rightarrow> bool"
where
  "report_ok ss cs amount eligible max_legs rep \<longleftrightarrow>
     (let p = rp_plan rep; U = used_venues p in
      feasible_plan cs eligible amount p \<and> U \<noteq> {} \<and> card U \<le> max_legs \<and>
      (\<forall>i \<in> U. i < length ss \<and> atomic (ss ! i) \<and> enabled (ss ! i) \<and> inputs p ! i \<le> sn_capacity (ss ! i) \<and>
         input_mint (ss ! i) \<noteq> output_mint (ss ! i)) \<and>
      (\<forall>i \<in> U. \<forall>j \<in> U. i \<noteq> j \<longrightarrow>
         input_mint (ss ! i) = input_mint (ss ! j) \<and> output_mint (ss ! i) = output_mint (ss ! j) \<and>
         market (ss ! i) \<noteq> market (ss ! j) \<and> liquidity_id (ss ! i) \<noteq> liquidity_id (ss ! j) \<and>
         and (writable_resources (ss ! i)) (writable_resources (ss ! j)) = 0) \<and>
      (\<forall>i \<in> U. exact_quote (ss ! i) (inputs p ! i) = Inr (exact_of (ss ! i) (inputs p ! i))) \<and>
      al_output p = (\<Sum>i \<in> U. exact_of (ss ! i) (inputs p ! i)))"

definition certificate_ok :: "search_report \<Rightarrow> bool" where
  "certificate_ok rep \<longleftrightarrow>
     achieved_output (rp_certificate rep) = al_output (rp_plan rep) \<and>
     achieved_output (rp_certificate rep) + gap_atoms (rp_certificate rep) = upper_output (rp_certificate rep)"

lemma submask_of_u8: "submask_u8 a b \<Longrightarrow> a < 2 ^ n \<Longrightarrow> n \<le> MAX_EDGES \<Longrightarrow> submask a b"
proof -
  assume ab: "submask_u8 a b" "a < 2 ^ n" "n \<le> MAX_EDGES"
  have "i < MAX_EDGES" if "bit a i" for i using mask_bit_less [OF ab(2) that] ab(3) by simp
  then show ?thesis using ab(1) by (auto simp: submask_def submask_u8_iff)
qed

lemma feasible_nonzero:
  assumes "feasible_plan cs w amount f" "0 < amount"
  shows "used_venues f \<noteq> {}" "al_mask f \<noteq> 0"
proof -
  show "used_venues f \<noteq> {}"
  proof
    assume "used_venues f = {}"
    then have "\<forall>x \<in> set (inputs f). x = 0"
      using assms by (auto simp: used_venues_def feasible_plan_def in_set_conv_nth)
    then have "sum_list (inputs f) = 0" by simp
    moreover have "sum_list (inputs f) = amount" using assms by (simp add: feasible_plan_def)
    ultimately show False using assms(2) by linarith
  qed
  then obtain j where "bit (al_mask f) j" using assms by (auto simp: feasible_plan_def)
  then show "al_mask f \<noteq> 0" unfolding mask_nonzero by blast
qed

lemma exact_output_sum:
  assumes "exact_output ss f = Inr q" "\<forall>i \<in> used_venues f. i < length ss" "length ss \<le> MAX_EDGES"
  shows "q = (\<Sum>i \<in> used_venues f. exact_of (ss ! i) (inputs f ! i))"
    "i \<in> used_venues f \<Longrightarrow> exact_quote (ss ! i) (inputs f ! i) = Inr (exact_of (ss ! i) (inputs f ! i))"
proof -
  have ex: "\<forall>i < length ss. 0 < inputs f ! i \<longrightarrow> exact_quote (ss ! i) (inputs f ! i) = Inr (exact_of (ss ! i) (inputs f ! i))"
    "q = (\<Sum>i<length ss. if inputs f ! i = 0 then 0 else exact_of (ss ! i) (inputs f ! i))"
    using exact_loop_Inr [of ss 0 "inputs f" 0 q] assms(1) by (simp_all add: exact_output_def cong: if_cong)
  have u: "used_venues f = {..<length ss} \<inter> {i. inputs f ! i \<noteq> 0}" using assms(2,3) by (auto simp: used_venues_def)
  show "q = (\<Sum>i \<in> used_venues f. exact_of (ss ! i) (inputs f ! i))"
    unfolding ex(2) u sum.inter_restrict [OF finite_lessThan] by (rule sum.cong) auto
  show "exact_quote (ss ! i) (inputs f ! i) = Inr (exact_of (ss ! i) (inputs f ! i))" if "i \<in> used_venues f"
    using ex(1) assms(2) that by (auto simp: used_venues_def)
qed

text \<open>A shortlisted plan revalued exactly makes a sound report.\<close>

lemma candidate_report:
  assumes cand: "candidate ss cs amount eligible max_legs f" and adm: "admitted ss cs eligible"
    and len: "length ss = length cs" "length cs \<le> MAX_EDGES" and amount: "0 < amount"
    and q: "exact_output ss f = Inr q" and rep: "rp_plan rep = f\<lparr>al_output := q\<rparr>"
  shows "report_ok ss cs amount eligible max_legs rep"
proof -
  obtain w where w: "submask_u8 w eligible" "w < 2 ^ length cs" "count_ones w \<le> max_legs"
    "independent ss w" "feasible_plan cs w amount f" using cand by (auto simp: candidate_def)
  note we = submask_of_u8 [OF w(1,2) len(2)]
  let ?U = "used_venues f"
  have U: "i < length cs \<and> bit w i \<and> bit eligible i \<and> inputs f ! i \<le> cv_capacity (cs ! i)" if "i \<in> ?U" for i
    using feasible_plan_used [OF w(5) that] we by (auto simp: submask_def)
  have feas: "feasible_plan cs eligible amount f"
    using w(5) we unfolding feasible_plan_def submask_def
    by (auto split: if_splits)
  have few: "card ?U \<le> max_legs"
  proof -
    have "card ?U \<le> card (set (filter (bit w) [0..<16]))"
      by (rule card_mono) (use U in \<open>auto simp: used_venues_def MAX_EDGES_def\<close>)
    also have "\<dots> \<le> count_ones w" unfolding count_ones_def by (rule card_length)
    finally show ?thesis using w(3) by simp
  qed
  have res: "and (writable_resources (ss ! i)) (writable_resources (ss ! j)) = 0"
    if "i \<in> ?U" "j \<in> ?U" "i \<noteq> j" for i j
    by (rule independent_disjoint [OF w(4)]) (use U [OF that(1)] U [OF that(2)] that(3) len(1) in auto)
  have pair: "input_mint (ss ! i) = input_mint (ss ! j) \<and> output_mint (ss ! i) = output_mint (ss ! j) \<and>
         market (ss ! i) \<noteq> market (ss ! j) \<and> liquidity_id (ss ! i) \<noteq> liquidity_id (ss ! j)"
    if "i \<in> ?U" "j \<in> ?U" "i \<noteq> j" for i j
  proof -
    have below: "input_mint (ss ! a) = input_mint (ss ! b) \<and> output_mint (ss ! a) = output_mint (ss ! b) \<and>
         market (ss ! a) \<noteq> market (ss ! b) \<and> liquidity_id (ss ! a) \<noteq> liquidity_id (ss ! b)"
      if "a < b" "b < length ss" "bit eligible a" "bit eligible b" for a b
      using adm that unfolding admitted_def by blast
    have ij: "i < length ss" "j < length ss" "bit eligible i" "bit eligible j"
      using U [OF that(1)] U [OF that(2)] len(1) by auto
    show ?thesis
    proof (cases "i < j")
      case True
      then show ?thesis by (rule below [OF _ ij(2,3,4)])
    next
      case False
      then have "j < i" using that(3) by simp
      from below [OF this ij(1,4,3)] show ?thesis by metis
    qed
  qed
  have each: "i < length ss \<and> atomic (ss ! i) \<and> enabled (ss ! i) \<and> inputs f ! i \<le> sn_capacity (ss ! i) \<and>
      input_mint (ss ! i) \<noteq> output_mint (ss ! i)" if "i \<in> ?U" for i
    using U [OF that] len(1) adm by (auto simp: admitted_def intro: order_trans)
  have "\<forall>i \<in> ?U. i < length ss" "length ss \<le> MAX_EDGES" using U len by auto
  note ex = exact_output_sum [OF q this]
  have p: "used_venues (rp_plan rep) = ?U" "inputs (rp_plan rep) = inputs f" "al_output (rp_plan rep) = q"
    "feasible_plan cs eligible amount (rp_plan rep)" using feas by (simp_all add: rep)
  show ?thesis unfolding report_ok_def Let_def p(1,2,3)
  proof (intro conjI ballI impI)
    show "?U \<noteq> {}" by (rule feasible_nonzero(1) [OF w(5) amount])
    fix i assume i: "i \<in> ?U"
    show "i < length ss" "atomic (ss ! i)" "enabled (ss ! i)" "inputs f ! i \<le> sn_capacity (ss ! i)"
      "input_mint (ss ! i) \<noteq> output_mint (ss ! i)" using each [OF i] by blast+
    fix j assume j: "j \<in> ?U" "i \<noteq> j"
    show "input_mint (ss ! i) = input_mint (ss ! j)" "output_mint (ss ! i) = output_mint (ss ! j)"
      "market (ss ! i) \<noteq> market (ss ! j)" "liquidity_id (ss ! i) \<noteq> liquidity_id (ss ! j)"
      using pair [OF i j] by blast+
    show "and (writable_resources (ss ! i)) (writable_resources (ss ! j)) = 0" by (rule res [OF i j])
  qed (use p(4) few ex in \<open>simp_all only:\<close>)
qed

text \<open>
  An allocator answers for a mask with a feasible plan over that mask, and its relaxed answer for
  the prepared mask is not beaten by any split quoted on the curves. \<open>prepared\<close> says what state the
  allocator needs; the streaming allocator needs none, the tape must have been built.
\<close>

locale allocator =
  fixes prepared :: "'t \<Rightarrow> curve list \<Rightarrow> nat \<Rightarrow> bool"
    and ask :: "'t \<Rightarrow> curve list \<Rightarrow> nat \<Rightarrow> alloc_query"
  assumes feasible: "prepared t cs sel \<Longrightarrow> arrays_ok cs \<Longrightarrow> submask sub sel \<Longrightarrow>
      ask t cs amount sub lower m = (Inr p, m') \<Longrightarrow> feasible_plan cs sub amount p"
    and dominates: "prepared t cs sel \<Longrightarrow> arrays_ok cs \<Longrightarrow> ask t cs amount sel False m = (Inr p, m') \<Longrightarrow>
      \<forall>i < length cs. bit sel i \<longrightarrow> quote (cs ! i) (x i) = Inr (q i) \<Longrightarrow>
      (\<Sum>i \<in> {i. i < length cs \<and> bit sel i}. x i) \<le> amount \<Longrightarrow>
      (\<Sum>i \<in> {i. i < length cs \<and> bit sel i}. q i) \<le> al_output p"
begin

lemma search_steps:
  assumes "search_with ss cs amount eligible max_legs (ask t cs amount) m = (Inr rep, m')"
  obtains relaxed upper fs st where
    "length ss = length cs" "0 < length ss" "length cs \<le> MAX_EDGES" "0 < amount" "amount \<le> MAX_ATOMS"
    "admitted ss cs eligible" "\<exists>m1 m2. ask t cs amount eligible False m1 = (Inr relaxed, m2)"
    "upper = al_output relaxed + (\<Sum>i<length cs. if bit eligible i then upper_error_atoms (cs ! i) else 0)"
    "\<exists>st1 m3 m4. search_masks ss eligible max_legs (ask t cs amount) [1..<2 ^ length cs] ([], stats_default) m3 =
       (Inr (fs, st1), m4)"
    "fs \<noteq> []" "\<exists>st1 m5 m6. pick_best ss fs allocation_default st1 m5 = (Inr (rp_plan rep, st), m6)"
    "al_output (rp_plan rep) \<le> upper"
    "rp_certificate rep = \<lparr>upper_output = upper, achieved_output = al_output (rp_plan rep),
       gap_atoms = upper - al_output (rp_plan rep)\<rparr>"
proof -
  from assms have g: "length ss = length cs" "0 < length ss" "length cs \<le> MAX_EDGES" "0 < amount" "amount \<le> MAX_ATOMS"
    by (auto simp: search_with_def split: if_splits)
  with assms have b: "bindS (liftR (admit_loop ss cs eligible None [0..<length ss])) (\<lambda>_.
        bindS (ask t cs amount eligible False) (\<lambda>relaxed.
        bindS (liftR (add_upper cs 0 eligible (al_output relaxed))) (\<lambda>upper.
        bindS (search_masks ss eligible max_legs (ask t cs amount) [1..<2 ^ length cs] ([], stats_default))
          (\<lambda>(finalists, stats).
        if finalists = [] then liftR (fail Capacity)
        else bindS (pick_best ss finalists allocation_default stats) (\<lambda>(best, stats).
          if upper < al_output best then liftR (fail InvalidCurve)
          else bindS (liftR (sub_w upper (al_output best))) (\<lambda>gap.
            ret \<lparr>rp_plan = best,
                 rp_certificate = \<lparr>upper_output = upper, achieved_output = al_output best, gap_atoms = gap\<rparr>,
                 rp_stats = stats\<rparr>)))))) m = (Inr rep, m')"
    by (simp add: search_with_def split: if_splits)
  then obtain u m1 relaxed m2 upper fs st1 m3 best st m4 where
    "admit_loop ss cs eligible None [0..<length ss] = Inr u"
    "ask t cs amount eligible False m1 = (Inr relaxed, m2)"
    "add_upper cs 0 eligible (al_output relaxed) = Inr upper"
    "search_masks ss eligible max_legs (ask t cs amount) [1..<2 ^ length cs] ([], stats_default) m2 = (Inr (fs, st1), m3)"
    "fs \<noteq> []" "pick_best ss fs allocation_default st1 m3 = (Inr (best, st), m4)"
    "al_output best \<le> upper"
    "rep = \<lparr>rp_plan = best,
       rp_certificate = \<lparr>upper_output = upper, achieved_output = al_output best, gap_atoms = upper - al_output best\<rparr>,
       rp_stats = st\<rparr>"
    by (auto simp: bindS_Inr sub_w_Inr split: if_splits)
  with g that [of relaxed upper fs st] admit_loop_admitted add_upper_Inr [of cs 0 eligible "al_output relaxed" upper]
  show thesis by auto
qed

text \<open>Soundness of a report.\<close>

lemma report_sound:
  assumes "search_with ss cs amount eligible max_legs (ask t cs amount) m = (Inr rep, m')"
    and prep: "prepared t cs eligible" and arr: "arrays_ok cs"
  shows "report_ok ss cs amount eligible max_legs rep" "certificate_ok rep"
proof -
  obtain relaxed upper fs st where s: "length ss = length cs" "0 < length ss" "length cs \<le> MAX_EDGES" "0 < amount"
    "amount \<le> MAX_ATOMS" "admitted ss cs eligible"
    and masks: "\<exists>st1 m3 m4. search_masks ss eligible max_legs (ask t cs amount) [1..<2 ^ length cs] ([], stats_default) m3 =
       (Inr (fs, st1), m4)"
    and fs: "fs \<noteq> []"
    and best: "\<exists>st1 m5 m6. pick_best ss fs allocation_default st1 m5 = (Inr (rp_plan rep, st), m6)"
    and cert: "al_output (rp_plan rep) \<le> upper"
    "rp_certificate rep = \<lparr>upper_output = upper, achieved_output = al_output (rp_plan rep),
       gap_atoms = upper - al_output (rp_plan rep)\<rparr>"
    by (rule search_steps [OF assms(1)]) blast
  show "certificate_ok rep" using cert by (simp add: certificate_ok_def)
  obtain st1 m3 m4 where "search_masks ss eligible max_legs (ask t cs amount) [1..<2 ^ length cs] ([], stats_default) m3 =
       (Inr (fs, st1), m4)" using masks by blast
  then have cand: "\<forall>f \<in> set fs. candidate ss cs amount eligible max_legs f"
    by (rule search_masks_candidates [rotated])
       (use feasible [OF prep arr] submask_of_u8 s(3) in auto)
  then have nonzero: "\<forall>f \<in> set fs. al_mask f \<noteq> 0"
    using feasible_nonzero(2) s(4) by (auto simp: candidate_def)
  from best obtain st1 m5 m6 where pb: "pick_best ss fs allocation_default st1 m5 = (Inr (rp_plan rep, st), m6)" by blast
  obtain f q where f: "f \<in> set fs" "exact_output ss f = Inr q" "rp_plan rep = f\<lparr>al_output := q\<rparr>"
    using pick_best_Inr [OF pb nonzero] fs by (auto simp: allocation_default_def)
  show "report_ok ss cs amount eligible max_legs rep"
    by (rule candidate_report [OF cand [rule_format, OF f(1)] s(6,1,3,4) f(2,3)])
qed

text \<open>The certificate bounds every allocation over the eligible venues, not only short plans.\<close>

lemma upper_bounds_all:
  assumes "search_with ss cs amount eligible max_legs (ask t cs amount) m = (Inr rep, m')"
    and prep: "prepared t cs eligible" and arr: "arrays_ok cs"
    and bracket: "\<And>i. i < length cs \<Longrightarrow> bit eligible i \<Longrightarrow>
        quote (cs ! i) (x i) = Inr (q i) \<and> e i \<le> q i + upper_error_atoms (cs ! i)"
    and split: "(\<Sum>i \<in> {i. i < length cs \<and> bit eligible i}. x i) \<le> amount"
  shows "(\<Sum>i \<in> {i. i < length cs \<and> bit eligible i}. e i) \<le> upper_output (rp_certificate rep)"
proof -
  let ?S = "{i. i < length cs \<and> bit eligible i}"
  obtain relaxed upper where r: "\<exists>m1 m2. ask t cs amount eligible False m1 = (Inr relaxed, m2)"
    and u: "upper = al_output relaxed + (\<Sum>i<length cs. if bit eligible i then upper_error_atoms (cs ! i) else 0)"
      "upper_output (rp_certificate rep) = upper"
    by (rule search_steps [OF assms(1)]) auto
  have S: "?S = {..<length cs} \<inter> {i. bit eligible i}" by auto
  have err: "(\<Sum>i<length cs. if bit eligible i then upper_error_atoms (cs ! i) else 0) =
      (\<Sum>i \<in> ?S. upper_error_atoms (cs ! i))"
    unfolding S by (simp add: sum.inter_restrict)
  have "(\<Sum>i \<in> ?S. e i) \<le> (\<Sum>i \<in> ?S. q i + upper_error_atoms (cs ! i))"
    by (rule sum_mono) (use bracket in auto)
  also have "\<dots> = (\<Sum>i \<in> ?S. q i) + (\<Sum>i \<in> ?S. upper_error_atoms (cs ! i))" by (rule sum.distrib)
  also have "(\<Sum>i \<in> ?S. q i) \<le> al_output relaxed"
    using dominates [OF prep arr _ _ split] r bracket by blast
  finally show ?thesis using u err by simp
qed

end

section \<open>The two allocators\<close>

lemma stream_query_plan:
  assumes "stream_query cs amount sub lower m = (Inr p, m')" "arrays_ok cs"
  obtains p0 where "plan_of cs sub amount p0" "curves_ok cs sub" "length cs \<le> MAX_EDGES" "0 < amount"
    "amount \<le> pairs_total (merged cs sub (\<lambda>_. 0))" "\<exists>q. p = p0\<lparr>al_output := q\<rparr>" "\<not> lower \<Longrightarrow> p = p0"
proof -
  obtain p0 m1 where w: "waterfill cs amount sub m = (Inr p0, m1)" and p: "\<exists>q. p = p0\<lparr>al_output := q\<rparr>"
    "\<not> lower \<Longrightarrow> p = p0"
  proof -
    from assms(1) obtain p0 m1 where w: "waterfill cs amount sub m = (Inr p0, m1)"
      "(if lower then bindS (liftR (lower_outputs cs 0 (inputs p0) 0)) (\<lambda>out. ret (p0\<lparr>al_output := out\<rparr>)) else ret p0) m1 = (Inr p, m')"
      by (auto simp only: stream_query_def bindS_Inr)
    have "\<exists>q. p0 = p0\<lparr>al_output := q\<rparr>" by (rule exI [of _ "al_output p0"]) simp
    then have "\<exists>q. p = p0\<lparr>al_output := q\<rparr>" using w(2) by (auto simp: bindS_Inr split: if_splits)
    moreover have "\<not> lower \<Longrightarrow> p = p0" using w(2) by simp
    ultimately show thesis using that [OF w(1)] by blast
  qed
  note g = waterfill_guards [OF w] and pl = waterfill_plan [OF w assms(2)]
  show thesis by (rule that [OF pl(1,3) g(4,1) pl(2) p])
qed

interpretation stream: allocator "\<lambda>(_ :: unit) _ _. True" "\<lambda>_. stream_query"
proof
  fix cs :: "curve list" and amount sub m p m' and lower :: bool
  assume "arrays_ok cs" "stream_query cs amount sub lower m = (Inr p, m')"
  from stream_query_plan [OF this(2,1)] obtain p0 where "plan_of cs sub amount p0" "curves_ok cs sub" "length cs \<le> MAX_EDGES"
    "amount \<le> pairs_total (merged cs sub (\<lambda>_. 0))" "\<exists>q. p = p0\<lparr>al_output := q\<rparr>" by blast
  then show "feasible_plan cs sub amount p" using plan_of_feasible by auto
next
  fix cs :: "curve list" and amount sel m p m' and x q :: "nat \<Rightarrow> nat"
  assume a: "arrays_ok cs" "stream_query cs amount sel False m = (Inr p, m')"
    and quotes: "\<forall>i < length cs. bit sel i \<longrightarrow> quote (cs ! i) (x i) = Inr (q i)"
    and split: "(\<Sum>i \<in> {i. i < length cs \<and> bit sel i}. x i) \<le> amount"
  obtain p0 where p: "plan_of cs sel amount p0" "curves_ok cs sel" "0 < amount"
    "amount \<le> pairs_total (merged cs sel (\<lambda>_. 0))" "p = p0"
    by (rule stream_query_plan [OF a(2,1)]) blast
  show "(\<Sum>i \<in> {i. i < length cs \<and> bit sel i}. q i) \<le> al_output p"
    using plan_dominates [OF p(1-4) quotes split] p(5) by simp
qed

text \<open>
  A tape is prepared for curves and a mask when it was built from curves with the same live bands,
  over a set of venues containing the mask, which is what \<open>matches\<close> checks.
\<close>

definition tape_prepared :: "residual_tape \<Rightarrow> curve list \<Rightarrow> nat \<Rightarrow> bool" where
  "tape_prepared t ds sel \<longleftrightarrow>
     (\<exists>cs csel. tape_ready cs csel t sel \<and> same_bands cs ds sel \<and> cs \<noteq> [] \<and>
        (\<forall>i < length ds. bit sel i \<longrightarrow> valid_curve (ds ! i)))"

lemma same_bands_sub: "same_bands cs ds sel \<Longrightarrow> submask sub sel \<Longrightarrow> same_bands cs ds sub"
  by (auto simp: same_bands_def submask_def)

lemma tape_ready_sub: "tape_ready cs csel t sel \<Longrightarrow> submask sub sel \<Longrightarrow> tape_ready cs csel t sub"
  by (auto simp: tape_ready_def submask_def)

lemma tape_query_plan:
  assumes prep: "tape_prepared t ds sel" and arr: "arrays_ok ds" and sub: "submask sub sel"
    and ask: "tape_query ds t amount sub lower m = (Inr p, m')"
  obtains p0 where "plan_of ds sub amount p0" "curves_ok ds sub" "length ds \<le> MAX_EDGES" "0 < amount"
    "amount \<le> pairs_total (merged ds sub (\<lambda>_. 0))"
    "p = (if lower then p0\<lparr>al_output := lower_total ds ds sub (inputs p0)\<rparr> else p0)"
proof -
  from prep obtain cs csel where r: "tape_ready cs csel t sel" "same_bands cs ds sel"
    and v: "\<forall>i < length ds. bit sel i \<longrightarrow> valid_curve (ds ! i)" by (auto simp: tape_prepared_def)
  note rs = tape_ready_sub [OF r(1) sub] and bs = same_bands_sub [OF r(2) sub]
  have len: "length ds = length cs" "length ds \<le> MAX_EDGES" using r by (auto simp: same_bands_def tape_ready_def)
  have m: "merged cs sub (\<lambda>_. 0) = merged ds sub (\<lambda>_. 0)" by (rule merged_same_bands [OF bs])
  have a: "allocate_inner t lower amount sub (if lower then ds else []) m = (Inr p, m')"
    using ask by (auto simp: tape_query_def allocate_def allocate_lower_def split: if_splits)
  note qa = query_answers [OF rs a]
  have ok: "curves_ok ds sub"
    using v sub by (intro arrays_curves_ok [OF arr]) (auto simp: submask_def)
  have plan: "plan_of cs sub amount = plan_of ds sub amount" by (rule ext) (simp add: plan_of_def m)
  have bands: "bands (cs ! i) = bands (ds ! i)" if "bit sub i" "i < length ds" for i
    using bs that curves_okD [OF ok that(2,1)] curves_okD [OF queryD(3) [OF rs], of i] len
    by (intro nth_equalityI) (auto simp: same_bands_def)
  have low: "lower_total cs ds sub ins = lower_total ds ds sub ins" for ins
    unfolding lower_total_def using bands queryD(2,5) [OF rs] len
    by (intro arg_cong [of _ _ sum_list] map_cong) auto
  from qa(1) obtain p0 where "plan_of ds sub amount p0"
    "p = (if lower then p0\<lparr>al_output := lower_total ds ds sub (inputs p0)\<rparr> else p0)"
    using len by (auto simp: answer_def plan low split: if_splits)
  then show thesis using that [of p0] ok len qa(2,4) len m by auto
qed

interpretation tape: allocator tape_prepared "\<lambda>t cs amount. tape_query cs t amount"
proof
  fix t cs sel amount sub m p m' and lower :: bool
  assume "tape_prepared t cs sel" "arrays_ok cs" "submask sub sel" "tape_query cs t amount sub lower m = (Inr p, m')"
  from tape_query_plan [OF this] obtain p0 where "plan_of cs sub amount p0" "curves_ok cs sub" "length cs \<le> MAX_EDGES"
    "amount \<le> pairs_total (merged cs sub (\<lambda>_. 0))"
    "p = (if lower then p0\<lparr>al_output := lower_total cs cs sub (inputs p0)\<rparr> else p0)" by blast
  then show "feasible_plan cs sub amount p" using plan_of_feasible by auto
next
  fix t cs sel amount m p m' and x q :: "nat \<Rightarrow> nat"
  assume a: "tape_prepared t cs sel" "arrays_ok cs" "tape_query cs t amount sel False m = (Inr p, m')"
    and quotes: "\<forall>i < length cs. bit sel i \<longrightarrow> quote (cs ! i) (x i) = Inr (q i)"
    and split: "(\<Sum>i \<in> {i. i < length cs \<and> bit sel i}. x i) \<le> amount"
  have "submask sel sel" by (simp add: submask_def)
  from tape_query_plan [OF a(1,2) this a(3)] obtain p0 where p: "plan_of cs sel amount p0" "curves_ok cs sel" "0 < amount"
    "amount \<le> pairs_total (merged cs sel (\<lambda>_. 0))" "p = p0" by auto
  show "(\<Sum>i \<in> {i. i < length cs \<and> bit sel i}. q i) \<le> al_output p"
    using plan_dominates [OF p(1-4) quotes split] p(5) by simp
qed

lemma build_prepares:
  assumes "build cs sel m = (Inr t, m')" "arrays_ok cs" "arrays_ok ds" "tape_matches t ds sub" "sub < 256"
  shows "tape_prepared t ds sub"
proof -
  note g = build_guards [OF assms(1)] and t = build_tape [OF assms(1,2)]
  note b = tape_matches_binds [OF t g(2,4) assms(4,5,3)]
  show ?thesis unfolding tape_prepared_def using b g(1) by blast
qed

lemma search_runs:
  assumes "search ss cs amount eligible max_legs m = (Inr rep, m')" "arrays_ok cs"
  obtains t m1 where "tape_prepared t cs eligible"
    "search_with ss cs amount eligible max_legs (tape_query cs t amount) m1 = (Inr rep, m')"
proof -
  from assms(1) obtain t m1 where b: "build cs eligible m = (Inr t, m1)"
    and s: "search_tape ss cs t amount eligible max_legs m1 = (Inr rep, m')"
    by (auto simp: search_def bindS_Inr)
  note g = build_guards [OF b] and t = build_tape [OF b assms(2)]
  have "eligible < 2 ^ MAX_EDGES"
    by (rule less_le_trans [OF g(4)]) (use g(2) in simp)
  then have "eligible < 256" by (simp add: MAX_EDGES_def)
  from build_prepares [OF b assms(2,2) built_tape_matches [OF t] this] show thesis
    using that s by (auto simp: search_tape_def split: if_splits)
qed

section \<open>Both searches are one\<close>

lemma lower_outputs_sum:
  assumes "\<And>i. i < length cs \<Longrightarrow> 0 < ins ! (k + i) \<Longrightarrow> lower_quote (cs ! i) (ins ! (k + i)) = Inr (l (k + i))"
    and "k + length cs \<le> length ins" "out + (\<Sum>i<length cs. if 0 < ins ! (k + i) then l (k + i) else 0) < 2 ^ 64"
  shows "lower_outputs cs k ins out = Inr (out + (\<Sum>i<length cs. if 0 < ins ! (k + i) then l (k + i) else 0))"
  using assms
proof (induction cs arbitrary: k out)
  case (Cons c cs)
  have shift: "(\<Sum>i<length (c # cs). if 0 < ins ! (k + i) then l (k + i) else 0) =
      (if 0 < ins ! k then l k else 0) + (\<Sum>i<length cs. if 0 < ins ! (Suc k + i) then l (Suc k + i) else 0)"
    by (simp add: sum.lessThan_Suc_shift del: sum.lessThan_Suc cong: if_cong)
  let ?out = "if 0 < ins ! k then out + l k else out"
  have "lower_outputs cs (Suc k) ins ?out =
      Inr (?out + (\<Sum>i<length cs. if 0 < ins ! (Suc k + i) then l (Suc k + i) else 0))"
  proof (rule Cons.IH)
    show "lower_quote (cs ! i) (ins ! (Suc k + i)) = Inr (l (Suc k + i))"
      if "i < length cs" "0 < ins ! (Suc k + i)" for i
      using Cons.prems(1) [of "Suc i"] that by simp
  qed (use Cons.prems(2) Cons.prems(3) [unfolded shift] in auto)
  moreover have "lower_quote c (ins ! k) = Inr (l k)" if "0 < ins ! k"
    using Cons.prems(1) [of 0] that by simp
  ultimately show ?case unfolding shift using Cons.prems(2) Cons.prems(3) [unfolded shift]
    by (cases "0 < ins ! k") (auto simp: checked_add_def)
qed simp

lemma plan_lower_outputs:
  assumes p: "plan_of cs sub amount p" and ok: "curves_ok cs sub" and len: "length cs \<le> MAX_EDGES"
    and a: "0 < amount" "amount \<le> MAX_ATOMS" "amount \<le> pairs_total (merged cs sub (\<lambda>_. 0))"
    and sub: "sub < 2 ^ length cs"
  shows "lower_outputs cs 0 (inputs p) 0 = Inr (lower_total cs cs sub (inputs p))"
proof -
  let ?l = "\<lambda>i. integral (bands (cs ! i)) (inputs p ! i) div SCALE - lower_error_atoms (cs ! i)"
  let ?out = "integral (map snd (merged cs sub (\<lambda>_. 0))) amount"
  note f = plan_feasible [OF p ok len a(3)]
  have zero: "inputs p ! i = 0" if "i < length cs" "\<not> bit sub i" for i
    using f(2) [of i] that len by simp
  have lens: "length (inputs p) = MAX_EDGES" using p by (simp add: plan_of_def Let_def)
  have sum: "(\<Sum>i<length cs. inputs p ! i) \<le> amount"
  proof -
    have "(\<Sum>i<length cs. inputs p ! i) \<le> (\<Sum>i<MAX_EDGES. inputs p ! i)"
      by (rule sum_mono2) (use len in auto)
    also have "\<dots> = amount" using f(1) lens by (simp add: sum_list_sum_nth atLeast0LessThan)
    finally show ?thesis .
  qed
  have u8: "sub < 256" using less_le_trans [OF sub power_increasing [of "length cs" 8 2]] len
    by (simp add: MAX_EDGES_def)
  have total: "lower_total cs cs sub (inputs p) = (\<Sum>i<length cs. if 0 < inputs p ! i then ?l i else 0)"
  proof -
    let ?f = "\<lambda>i. if bit sub i then ?l i else 0"
    have "lower_total cs cs sub (inputs p) = sum_list (map ?f (walk_bits sub))"
      unfolding lower_total_def by (intro arg_cong [of _ _ sum_list] map_cong) (auto simp: walk_bits_u8 [OF u8])
    also have "\<dots> = (\<Sum>i<MAX_EDGES. ?f i)" by (rule sum_walk [OF u8]) simp
    also have "\<dots> = (\<Sum>i<length cs. ?f i)"
    proof (rule sum.mono_neutral_right)
      show "\<forall>i \<in> {..<MAX_EDGES} - {..<length cs}. ?f i = 0"
        using mask_bit_less [OF sub] by (metis DiffD2 lessThan_iff)
    qed (use len in auto)
    also have "\<dots> = (\<Sum>i<length cs. if 0 < inputs p ! i then ?l i else 0)"
      by (rule sum.cong) (use zero in auto)
    finally show ?thesis .
  qed
  have "(\<Sum>i<length cs. if 0 < inputs p ! i then ?l i else 0) \<le>
      (\<Sum>i<length cs. (if bit sub i then integral (bands (cs ! i)) (inputs p ! i) else 0) div SCALE)"
    by (rule sum_mono) (use zero in auto)
  also have "\<dots> \<le> (\<Sum>i<length cs. if bit sub i then integral (bands (cs ! i)) (inputs p ! i) else 0) div SCALE"
    by (rule sum_div_le) simp
  also have "\<dots> \<le> ?out div SCALE" by (intro div_le_mono merged_dominates [OF ok a(1,3) sum])
  also have "\<dots> < 2 ^ 64" by (rule merged_output_fits [OF ok a(2)])
  finally have fits: "(\<Sum>i<length cs. if 0 < inputs p ! i then ?l i else 0) < 2 ^ 64" .
  have "lower_quote (cs ! i) (inputs p ! i) = Inr (?l i)" if i: "i < length cs" "0 < inputs p ! i" for i
  proof (rule lower_quote_valid)
    have b: "bit sub i" using zero [OF i(1)] i(2) by (cases "bit sub i") simp_all
    show "valid_curve (cs ! i)" using curves_okD [OF ok i(1) b] by blast
    show "inputs p ! i \<le> cv_capacity (cs ! i)" using f(2) [of i] i b len by simp
  qed
  then show ?thesis using lower_outputs_sum [of cs "inputs p" 0 ?l 0] fits lens len total by (simp cong: if_cong)
qed

lemma tape_stream_agree:
  assumes prep: "tape_prepared t ds sel" and arr: "arrays_ok ds" and sub: "submask sub sel"
  shows "agree (tape_query ds t amount sub lower) (stream_query ds amount sub lower)"
proof (rule agreeI)
  fix m r m' k r' k'
  assume runs: "tape_query ds t amount sub lower m = (r, m')" "stream_query ds amount sub lower k = (r', k')"
    and nw: "r \<noteq> fail WorkLimit" "r' \<noteq> fail WorkLimit"
  from prep obtain cs csel where rd: "tape_ready cs csel t sel" "same_bands cs ds sel" "cs \<noteq> []"
    and v: "\<forall>i < length ds. bit sel i \<longrightarrow> valid_curve (ds ! i)" by (auto simp: tape_prepared_def)
  note rs = tape_ready_sub [OF rd(1) sub] and bs = same_bands_sub [OF rd(2) sub]
  have len: "length ds = length cs" "length ds \<le> MAX_EDGES" "ds \<noteq> []" using rd by (auto simp: same_bands_def tape_ready_def)
  have lt: "sub < 2 ^ length ds" using rs len by (auto simp: tape_ready_def intro: submask_less)
  have m: "merged ds sub (\<lambda>_. 0) = merged cs sub (\<lambda>_. 0)" by (rule merged_same_bands [OF bs, symmetric])
  have valid: "\<forall>i < length ds. bit sub i \<longrightarrow> valid_curve (ds ! i)" using v sub by (auto simp: submask_def)
  note ok = arrays_curves_ok [OF arr valid]
  have a: "allocate_inner t lower amount sub (if lower then ds else []) m = (r, m')"
    using runs(1) by (auto simp: tape_query_def allocate_def allocate_lower_def split: if_splits)
  obtain w k1 where w: "waterfill ds amount sub k = (w, k1)" by fastforce
  have r': "r' = (case w of Inl e \<Rightarrow> Inl e
      | Inr p \<Rightarrow> if lower then bindR (lower_outputs ds 0 (inputs p) 0) (\<lambda>out. Inr (p\<lparr>al_output := out\<rparr>)) else Inr p)"
    using runs(2) w by (auto simp: stream_query_def bindS_def liftR_def ret_def bindR_def split: sum.splits if_splits)
  consider "amount = 0 \<or> MAX_ATOMS < amount" | "\<not> (amount = 0 \<or> MAX_ATOMS < amount)" "sub = 0"
    | (ok) "0 < amount" "amount \<le> MAX_ATOMS" "sub \<noteq> 0" by fastforce
  then show "r = r'"
  proof cases
    case ok: ok
    have ws: "w = fail WorkLimit \<or>
      (if pairs_total (merged ds sub (\<lambda>_. 0)) < amount then w = fail Capacity else \<exists>p. w = Inr p \<and> plan_of ds sub amount p)"
      by (rule waterfill_spec [OF w arr ok(1,2) len(3,2) ok(3) lt valid])
    have wn: "w \<noteq> fail WorkLimit" using nw(2) r' by auto
    show ?thesis
    proof (cases "pairs_total (merged ds sub (\<lambda>_. 0)) < amount")
      case True
      then show ?thesis using ws wn nw r' allocate_capacity [OF rs _ ok a] by (auto simp: m)
    next
      case False
      then obtain p where p: "w = Inr p" "plan_of ds sub amount p" using ws wn by auto
      have cap: "amount \<le> pairs_total (merged ds sub (\<lambda>_. 0))" using False by simp
      have "r' = Inr (if lower then p\<lparr>al_output := lower_total ds ds sub (inputs p)\<rparr> else p)"
        using r' p plan_lower_outputs [OF p(2) arrays_curves_ok [OF arr valid] len(2) ok(1,2) cap lt] by simp
      moreover obtain q where q: "r = Inr q"
        using yieldsD [OF allocate_inner_spec [OF rs ok _ cap [unfolded m]] a] nw(1) len(1) by (auto split: if_splits)
      then obtain p0 where p0: "plan_of ds sub amount p0"
        "q = (if lower then p0\<lparr>al_output := lower_total ds ds sub (inputs p0)\<rparr> else p0)"
        using tape_query_plan [OF prep arr sub] runs(1) by metis
      ultimately show ?thesis using q plan_of_unique [OF p(2) p0(1)] by simp
    qed
  qed (use a w r' len in \<open>auto simp: allocate_inner_def waterfill_def\<close>)
qed

lemma try_query_agree: "agree (q sel True) (q' sel True) \<Longrightarrow> agree (try_query q sel) (try_query q' sel)"
proof (rule agreeI)
  fix m r m' k r' k'
  assume a: "agree (q sel True) (q' sel True)" and t: "try_query q sel m = (r, m')" "try_query q' sel k = (r', k')"
    and nw: "r \<noteq> fail WorkLimit" "r' \<noteq> fail WorkLimit"
  obtain x m1 where x: "q sel True m = (x, m1)" by fastforce
  obtain y k1 where y: "q' sel True k = (y, k1)" by fastforce
  have "x \<noteq> fail WorkLimit" "y \<noteq> fail WorkLimit" using t nw x y by (auto simp: try_query_def)
  then have "x = y" by (rule agreeD [OF a x y])
  then show "r = r'" using t x y by (auto simp: try_query_def split: sum.splits if_splits)
qed

lemma search_masks_agree:
  assumes "\<And>sel. sel \<in> set sels \<Longrightarrow> submask_u8 sel eligible \<Longrightarrow> agree (q sel True) (q' sel True)"
  shows "agree (search_masks ss eligible L q sels st) (search_masks ss eligible L q' sels st)"
  using assms
proof (induction sels arbitrary: st)
  case (Cons sel sels)
  have "agree (consider_mask ss eligible L q sel st) (consider_mask ss eligible L q' sel st)"
  proof (cases "submask_u8 sel eligible")
    case True
    then have "agree (try_query q sel) (try_query q' sel)" using Cons.prems try_query_agree by simp
    then show ?thesis
      by (cases st) (auto simp: consider_mask_def Let_def intro!: agree_intros split: option.split)
  next
    case False
    then show ?thesis by (cases st) (simp add: consider_mask_def agree_ret)
  qed
  then show ?case using Cons by (auto intro!: agree_bindS agree_charge)
qed (simp add: agree_ret)

lemma pick_best_agree: "agree (pick_best ss fs b st) (pick_best ss fs b st)"
  by (induction fs arbitrary: b st) (auto intro!: agree_intros)

lemma search_with_agree:
  assumes "agree (q eligible False) (q' eligible False)"
    and "\<And>sel. sel < 2 ^ length cs \<Longrightarrow> submask_u8 sel eligible \<Longrightarrow> agree (q sel True) (q' sel True)"
  shows "agree (search_with ss cs amount eligible L q) (search_with ss cs amount eligible L q')"
proof -
  have "agree (search_masks ss eligible L q [1..<2 ^ length cs] st) (search_masks ss eligible L q' [1..<2 ^ length cs] st)" for st
    by (rule search_masks_agree) (use assms(2) in auto)
  then show ?thesis unfolding search_with_def using assms(1)
    by (auto intro!: agree_intros pick_best_agree split: prod.split)
qed

section \<open>The search contract\<close>

text \<open>
  \<^bold>\<open>C5.\<close> A report of \<open>search\<close> is executable and its certificate is arithmetically sound: the plan spends
  exactly the amount over at most \<open>max_legs\<close> eligible, enabled, atomic venues trading the same pair,
  within every capacity; no two of them share a market, a liquidity id or a writable resource; the
  reported output is the sum of the venues' exact quotes; and achieved output plus gap is the bound.
\<close>

theorem search_report_sound:
  assumes "search ss cs amount eligible max_legs m = (Inr rep, m')" "arrays_ok cs"
  shows "report_ok ss cs amount eligible max_legs rep \<and> certificate_ok rep"
proof -
  obtain t m1 where t: "tape_prepared t cs eligible"
    "search_with ss cs amount eligible max_legs (tape_query cs t amount) m1 = (Inr rep, m')"
    by (rule search_runs [OF assms])
  from tape.report_sound [OF t(2,1) assms(2)] show ?thesis by blast
qed

lemma compile_brackets:
  assumes "compile s h m = (Inr c, m')" "x \<le> cv_capacity c" "exact_quote s x = Inr e"
  shows "\<exists>q. quote c x = Inr q \<and> e \<le> q + upper_error_atoms c"
proof (cases "sn_model s")
  case (Book levels n)
  then show ?thesis using compiled_book(4,5) [OF assms(1) Book assms(2)] assms(3) by auto
next
  case (ConstantProduct r y fee)
  have "x \<le> min (sn_capacity s) h" using compile_cp_capacity [OF assms(1) ConstantProduct] assms(2) by simp
  from cp_bracket [OF assms(1) ConstantProduct this] assms(3) show ?thesis by auto
qed

text \<open>
  The upper bound of the certificate is a true bound. When every eligible curve is the compiled
  form of its snapshot, no division of at most the amount over all the eligible venues, with any
  number of legs, has exact quotes adding up to more than \<open>upper_output\<close>.
\<close>

theorem search_upper_bound:
  assumes "search ss cs amount eligible max_legs m = (Inr rep, m')" "arrays_ok cs"
    and compiled: "\<forall>i < length cs. bit eligible i \<longrightarrow> (\<exists>h k k'. compile (ss ! i) h k = (Inr (cs ! i), k'))"
    and quotes: "\<forall>i < length cs. bit eligible i \<longrightarrow> x i \<le> cv_capacity (cs ! i) \<and> exact_quote (ss ! i) (x i) = Inr (e i)"
    and split: "(\<Sum>i \<in> {i. i < length cs \<and> bit eligible i}. x i) \<le> amount"
  shows "(\<Sum>i \<in> {i. i < length cs \<and> bit eligible i}. e i) \<le> upper_output (rp_certificate rep)"
proof -
  obtain t m1 where t: "tape_prepared t cs eligible"
    "search_with ss cs amount eligible max_legs (tape_query cs t amount) m1 = (Inr rep, m')"
    by (rule search_runs [OF assms(1,2)])
  have "\<exists>q. i < length cs \<longrightarrow> bit eligible i \<longrightarrow> quote (cs ! i) (x i) = Inr q \<and> e i \<le> q + upper_error_atoms (cs ! i)" for i
    using compiled quotes compile_brackets by blast
  then obtain q where "\<And>i. i < length cs \<Longrightarrow> bit eligible i \<Longrightarrow>
      quote (cs ! i) (x i) = Inr (q i) \<and> e i \<le> q i + upper_error_atoms (cs ! i)" by metis
  from tape.upper_bounds_all [OF t(2,1) assms(2) this split] show ?thesis by blast
qed

text \<open>
  \<^bold>\<open>C6.\<close> The tape search and the streaming reference search are the same function: for a tape that
  matches the curves they return the same report, or the same error, whenever neither runs out of
  budget.
\<close>

theorem search_tape_equals_reference:
  assumes "build cs0 sel m0 = (Inr t, m1)" "arrays_ok cs0" "arrays_ok cs"
    and "tape_matches t cs eligible" "eligible < 256"
    and "search_tape ss cs t amount eligible max_legs m = (r, m')"
    and "search_reference ss cs amount eligible max_legs k = (r', k')"
    and "r \<noteq> fail WorkLimit" "r' \<noteq> fail WorkLimit"
  shows "r = r'"
proof -
  have prep: "tape_prepared t cs eligible" by (rule build_prepares [OF assms(1-5)])
  then have len: "length cs \<le> MAX_EDGES" by (auto simp: tape_prepared_def tape_ready_def same_bands_def)
  have "agree (tape_query cs t amount sub lower) (stream_query cs amount sub lower)" if "submask sub eligible" for sub lower
    by (rule tape_stream_agree [OF prep assms(3) that])
  then have "agree (search_with ss cs amount eligible max_legs (tape_query cs t amount))
      (search_with ss cs amount eligible max_legs (stream_query cs amount))"
    using submask_of_u8 [OF _ _ len] by (intro search_with_agree) (auto simp: submask_def)
  moreover have "search_with ss cs amount eligible max_legs (tape_query cs t amount) m = (r, m')"
    using assms(4,6) by (simp add: search_tape_def)
  ultimately show ?thesis using assms(7-9) agreeD unfolding search_reference_def by metis
qed

section \<open>Two order books searched\<close>

definition demo_snapshots :: "snapshot list" where
  "demo_snapshots =
     map (\<lambda>(k, c). \<lparr>market = k, program = 200, input_mint = 1, output_mint = 2, liquidity_id = k,
         writable_resources = (if k = 7 then 1 else 2), sn_slot = 10, generation = 1, expires_at_slot = 110,
         sn_capacity = cv_capacity c, atomic = True, enabled = True, sn_model = Book (segments c) 2\<rparr>)
       (zip [7, 9] demo_curves)"

lemma demo_search: "\<exists>rep m'. search demo_snapshots demo_curves 200 3 2 (meter_new 1000) = (Inr rep, m')"
proof -
  have "(case fst (search demo_snapshots demo_curves 200 3 2 (meter_new 1000)) of Inl e \<Rightarrow> False | Inr r \<Rightarrow> True)"
    by code_simp
  then show ?thesis
    by (cases "search demo_snapshots demo_curves 200 3 2 (meter_new 1000)") (auto split: sum.splits)
qed

lemma demo_compiled:
  "\<forall>i < length demo_curves. bit (3 :: nat) i \<longrightarrow>
     (\<exists>h k k'. compile (demo_snapshots ! i) h k = (Inr (demo_curves ! i), k'))"
proof -
  have "list_all (\<lambda>i. fst (compile (demo_snapshots ! i) 1000 (meter_new 1000)) = Inr (demo_curves ! i)) [0, 1]"
    by code_simp
  then have "\<forall>i \<in> {0, 1}. fst (compile (demo_snapshots ! i) 1000 (meter_new 1000)) = Inr (demo_curves ! i)" by simp
  moreover have "{i. i < length demo_curves} = {0, 1}" by (auto simp: demo_curves_def)
  ultimately show ?thesis by (metis mem_Collect_eq prod.collapse)
qed

lemma demo_exact_quotes:
  "\<forall>i < length demo_curves. bit (3 :: nat) i \<longrightarrow> [150, 50] ! i \<le> cv_capacity (demo_curves ! i) \<and>
     exact_quote (demo_snapshots ! i) ([150, 50] ! i) = Inr ([350, 100] ! i)"
proof -
  have "list_all (\<lambda>i. [150, 50] ! i \<le> cv_capacity (demo_curves ! i) \<and>
     exact_quote (demo_snapshots ! i) ([150, 50] ! i) = Inr ([350, 100] ! i)) [0, 1]" by code_simp
  then have "\<forall>i \<in> {0, 1}. [150, 50] ! i \<le> cv_capacity (demo_curves ! i) \<and>
     exact_quote (demo_snapshots ! i) ([150, 50] ! i) = Inr ([350, 100] ! i)" by simp
  moreover have "{i. i < length demo_curves} = {0, 1}" by (auto simp: demo_curves_def)
  ultimately show ?thesis by blast
qed

lemma search_report_sound_witness:
  "\<exists>rep m'. search demo_snapshots demo_curves 200 3 2 (meter_new 1000) = (Inr rep, m') \<and>
     report_ok demo_snapshots demo_curves 200 3 2 rep \<and> certificate_ok rep"
  using demo_search search_report_sound [OF _ demo_arrays_ok] by blast

lemma search_upper_bound_witness:
  "\<exists>rep m'. search demo_snapshots demo_curves 200 3 2 (meter_new 1000) = (Inr rep, m') \<and>
     450 \<le> upper_output (rp_certificate rep)"
proof -
  obtain rep m' where r: "search demo_snapshots demo_curves 200 3 2 (meter_new 1000) = (Inr rep, m')"
    using demo_search by blast
  show ?thesis
    using search_upper_bound [OF r demo_arrays_ok demo_compiled demo_exact_quotes] r by (simp add: demo_selected)
qed

lemma search_tape_equals_reference_witness:
  "\<exists>t m1 r m'. build demo_curves 3 (meter_new 1000) = (Inr t, m1) \<and>
     search_tape demo_snapshots demo_curves t 200 3 2 (meter_new 1000) = (r, m') \<and>
     r = fst (search_reference demo_snapshots demo_curves 200 3 2 (meter_new 1000))"
proof -
  have "(case fst (build demo_curves 3 (meter_new 1000)) of Inl e \<Rightarrow> False | Inr t \<Rightarrow>
      tape_matches t demo_curves 3 \<and>
      fst (search_tape demo_snapshots demo_curves t 200 3 2 (meter_new 1000)) \<noteq> fail WorkLimit \<and>
      fst (search_reference demo_snapshots demo_curves 200 3 2 (meter_new 1000)) \<noteq> fail WorkLimit)" by code_simp
  then obtain t m1 where b: "build demo_curves 3 (meter_new 1000) = (Inr t, m1)"
    and f: "tape_matches t demo_curves 3"
      "fst (search_tape demo_snapshots demo_curves t 200 3 2 (meter_new 1000)) \<noteq> fail WorkLimit"
      "fst (search_reference demo_snapshots demo_curves 200 3 2 (meter_new 1000)) \<noteq> fail WorkLimit"
    by (cases "build demo_curves 3 (meter_new 1000)") (auto split: sum.splits)
  have "fst (search_tape demo_snapshots demo_curves t 200 3 2 (meter_new 1000)) =
      fst (search_reference demo_snapshots demo_curves 200 3 2 (meter_new 1000))"
    by (rule search_tape_equals_reference [OF b demo_arrays_ok demo_arrays_ok f(1) _ prod.collapse [symmetric]
          prod.collapse [symmetric] f(2,3)]) simp
  then show ?thesis using b by (metis prod.collapse)
qed

end
