(* ===== verification/Oracle.thy ===== *)
theory Oracle
  imports Masks
begin

text \<open>
  Integer exchange refinement against an exact quote oracle (\<open>optimizer/oracle.rs\<close>). The oracle, a
  closure the caller passes, is a parameter: a state transformer returning (output, cost) or an error.
  The state of a run is the number of calls made and the oracle's own state. The labelled break is
  the result \<open>None\<close> of an exchange round.
\<close>

section \<open>Code\<close>

record exact_plan =
  ep_inputs :: "nat list"
  ep_outputs :: "nat list"
  ep_output :: nat
  ep_costs :: "nat list"
  ep_cost :: nat
  oracle_calls :: nat
  exchanges :: nat
  final_step :: nat
  exhausted :: bool

definition exact_plan_default :: exact_plan where
  "exact_plan_default =
     \<lparr>ep_inputs = replicate MAX_EDGES 0, ep_outputs = replicate MAX_EDGES 0, ep_output = 0,
      ep_costs = replicate MAX_EDGES 0, ep_cost = 0, oracle_calls = 0, exchanges = 0, final_step = 0,
      exhausted = False\<rparr>"

type_synonym 'o quoter = "nat \<Rightarrow> nat \<Rightarrow> 'o \<Rightarrow> (error + nat \<times> nat) \<times> 'o"

definition ask_oracle ::
  "'o quoter \<Rightarrow> nat \<Rightarrow> nat \<Rightarrow> nat \<Rightarrow> nat \<times> 'o \<Rightarrow> (error + nat \<times> nat) \<times> (nat \<times> 'o)"
where
  "ask_oracle orc budget edge amount st =
     (case st of (calls, s) \<Rightarrow>
      if amount = 0 then (Inr (0, 0), (calls, s))
      else if calls = budget then (Inl WorkLimit, (calls, s))
      else (case orc edge amount s of (r, s') \<Rightarrow> (r, (calls + 1, s'))))"

text \<open>One seed: the amount divided evenly over the venues of the mask; the flag is \<open>valid\<close>.\<close>

fun seed_loop ::
  "'o quoter \<Rightarrow> nat \<Rightarrow> nat \<Rightarrow> nat list \<Rightarrow> exact_plan \<Rightarrow> nat \<Rightarrow> nat \<Rightarrow> (nat \<times> 'o, bool \<times> exact_plan) comp"
where
  "seed_loop orc budget sel [] cand left remaining = ret (True, cand)"
| "seed_loop orc budget sel (i # is) cand left remaining =
     (if \<not> bit sel i then seed_loop orc budget sel is cand left remaining
      else bindS (liftR (div_w left remaining)) (\<lambda>input.
        bindS (liftR (store_at (ep_inputs cand) i input)) (\<lambda>ins. \<lambda>st.
          case ask_oracle orc budget i input st of
            (Inl _, st') \<Rightarrow> (Inr (False, cand\<lparr>ep_inputs := ins\<rparr>), st')
          | (Inr (out, c), st') \<Rightarrow>
              bindS (liftR (store_at (ep_costs cand) i c)) (\<lambda>cs.
              bindS (liftR (ok_or (checked_add 64 (ep_cost cand) c) Arithmetic)) (\<lambda>cost.
              bindS (liftR (store_at (ep_outputs cand) i out)) (\<lambda>outs.
              bindS (liftR (ok_or (checked_add 64 (ep_output cand) out) Arithmetic)) (\<lambda>total_out.
              bindS (liftR (sub_w left input)) (\<lambda>left'.
              bindS (liftR (sub_w remaining 1)) (\<lambda>remaining'.
                seed_loop orc budget sel is
                  (cand\<lparr>ep_inputs := ins, ep_costs := cs, ep_cost := cost, ep_outputs := outs, ep_output := total_out\<rparr>)
                  left' remaining')))))) st')))"

fun seeds ::
  "'o quoter \<Rightarrow> nat \<Rightarrow> nat \<Rightarrow> nat \<Rightarrow> nat \<Rightarrow> nat \<Rightarrow> nat list \<Rightarrow> exact_plan \<Rightarrow> (nat \<times> 'o, exact_plan) comp"
where
  "seeds orc edges amount budget cost_limit max_legs [] best = ret best"
| "seeds orc edges amount budget cost_limit max_legs (sel # sels) best =
     (let count = count_ones sel in
      if max_legs < count \<or> amount < count
      then seeds orc edges amount budget cost_limit max_legs sels best
      else bindS (seed_loop orc budget sel [0..<edges] exact_plan_default amount count)
        (\<lambda>(valid, cand). \<lambda>(calls, s).
          let best' = (if valid \<and> ep_cost cand \<le> cost_limit \<and> ep_output best < ep_output cand then cand else best) in
          if calls = budget then (Inr best', (calls, s))
          else seeds orc edges amount budget cost_limit max_legs sels best' (calls, s)))"

text \<open>The exchange of \<open>moved\<close> atoms from one venue to another, compared with the best one so far.\<close>

definition apply_exchange ::
  "exact_plan \<Rightarrow> exact_plan \<Rightarrow> nat \<Rightarrow> nat \<Rightarrow> nat \<Rightarrow> nat \<Rightarrow> nat \<Rightarrow> nat \<Rightarrow> nat \<Rightarrow> nat \<Rightarrow> nat \<Rightarrow> exact_plan res"
where
  "apply_exchange best next_plan cost_limit src dst a b oa ca ob cb =
     bindR (sub_w (ep_cost best) (ep_costs best ! src)) (\<lambda>c1.
     bindR (sub_w c1 (ep_costs best ! dst)) (\<lambda>c2.
     bindR (ok_or (checked_add 64 c2 ca) Arithmetic) (\<lambda>c3.
     bindR (ok_or (checked_add 64 c3 cb) Arithmetic) (\<lambda>cost.
     if cost_limit < cost then Inr next_plan
     else
       bindR (sub_w (ep_output best) (ep_outputs best ! src)) (\<lambda>o1.
       bindR (sub_w o1 (ep_outputs best ! dst)) (\<lambda>o2.
       bindR (ok_or (checked_add 64 o2 oa) Arithmetic) (\<lambda>o3.
       bindR (ok_or (checked_add 64 o3 ob) Arithmetic) (\<lambda>out.
       if ep_output next_plan < out then
         bindR (add_w 32 (exchanges best) 1) (\<lambda>k.
         Inr (best\<lparr>ep_inputs := (ep_inputs best)[src := a, dst := b],
                   ep_outputs := (ep_outputs best)[src := oa, dst := ob],
                   ep_costs := (ep_costs best)[src := ca, dst := cb],
                   ep_cost := cost, ep_output := out, exchanges := k\<rparr>))
       else Inr next_plan))))))))"

definition live_legs :: "nat list \<Rightarrow> nat" where
  "live_legs ins = length (filter (\<lambda>x. 0 < x) ins)"

definition try_exchange ::
  "'o quoter \<Rightarrow> nat \<Rightarrow> nat \<Rightarrow> nat \<Rightarrow> exact_plan \<Rightarrow> nat \<Rightarrow> nat \<Rightarrow> nat \<Rightarrow> exact_plan \<Rightarrow>
     (nat \<times> 'o, exact_plan option) comp"
where
  "try_exchange orc budget cost_limit max_legs best src moved dst next_plan st =
     (if src = dst then (Inr (Some next_plan), st)
      else if ep_inputs best ! dst = 0 \<and> moved < ep_inputs best ! src \<and> live_legs (ep_inputs best) = max_legs
        then (Inr (Some next_plan), st)
      else if budget < min (fst st + 2) (2 ^ 32 - 1) then (Inr None, st)
      else bindS (liftR (bindR (sub_w (ep_inputs best ! src) moved) (\<lambda>a.
            bindR (ok_or (checked_add 64 (ep_inputs best ! dst) moved) Arithmetic) (\<lambda>b. Inr (a, b)))))
        (\<lambda>(a, b). \<lambda>st.
          case ask_oracle orc budget src a st of (qa, st1) \<Rightarrow>
          (case ask_oracle orc budget dst b st1 of (qb, st2) \<Rightarrow>
           (case (qa, qb) of
              (Inr (oa, ca), Inr (ob, cb)) \<Rightarrow>
                (bindR (apply_exchange best next_plan cost_limit src dst a b oa ca ob cb) (\<lambda>p. Inr (Some p)), st2)
            | _ \<Rightarrow> (Inr (Some next_plan), st2)))) st)"

fun dst_loop ::
  "'o quoter \<Rightarrow> nat \<Rightarrow> nat \<Rightarrow> nat \<Rightarrow> exact_plan \<Rightarrow> nat \<Rightarrow> nat \<Rightarrow> nat list \<Rightarrow> exact_plan \<Rightarrow>
     (nat \<times> 'o, exact_plan option) comp"
where
  "dst_loop orc budget cost_limit max_legs best src moved [] next_plan = ret (Some next_plan)"
| "dst_loop orc budget cost_limit max_legs best src moved (dst # dsts) next_plan =
     bindS (try_exchange orc budget cost_limit max_legs best src moved dst next_plan) (\<lambda>r.
       case r of None \<Rightarrow> ret None
       | Some p \<Rightarrow> dst_loop orc budget cost_limit max_legs best src moved dsts p)"

fun src_loop ::
  "'o quoter \<Rightarrow> nat \<Rightarrow> nat \<Rightarrow> nat \<Rightarrow> nat \<Rightarrow> nat \<Rightarrow> exact_plan \<Rightarrow> nat list \<Rightarrow> exact_plan \<Rightarrow>
     (nat \<times> 'o, exact_plan option) comp"
where
  "src_loop orc edges budget cost_limit max_legs step best [] next_plan = ret (Some next_plan)"
| "src_loop orc edges budget cost_limit max_legs step best (src # srcs) next_plan =
     (if ep_inputs best ! src = 0
      then src_loop orc edges budget cost_limit max_legs step best srcs next_plan
      else bindS (dst_loop orc budget cost_limit max_legs best src (min (ep_inputs best ! src) step)
            [0..<edges] next_plan) (\<lambda>r.
        case r of None \<Rightarrow> ret None
        | Some p \<Rightarrow> src_loop orc edges budget cost_limit max_legs step best srcs p))"

text \<open>At most 32 rounds at one exchange scale; the flag says that the refinement was cut off.\<close>

fun rounds ::
  "'o quoter \<Rightarrow> nat \<Rightarrow> nat \<Rightarrow> nat \<Rightarrow> nat \<Rightarrow> nat \<Rightarrow> nat \<Rightarrow> exact_plan \<Rightarrow> (nat \<times> 'o, bool \<times> exact_plan) comp"
where
  "rounds orc edges budget cost_limit max_legs step 0 best = ret (False, best)"
| "rounds orc edges budget cost_limit max_legs step (Suc n) best =
     bindS (src_loop orc edges budget cost_limit max_legs step best [0..<edges] best) (\<lambda>r.
       case r of
         None \<Rightarrow> ret (True, best)
       | Some p \<Rightarrow>
           if ep_output p = ep_output best then ret (False, best)
           else rounds orc edges budget cost_limit max_legs step n p)"

function refine_loop ::
  "'o quoter \<Rightarrow> nat \<Rightarrow> nat \<Rightarrow> nat \<Rightarrow> nat \<Rightarrow> nat \<Rightarrow> exact_plan \<Rightarrow> (nat \<times> 'o, exact_plan) comp"
where
  "refine_loop orc edges budget cost_limit max_legs step best =
     bindS (rounds orc edges budget cost_limit max_legs step 32 (best\<lparr>final_step := step\<rparr>)) (\<lambda>(cut, p).
       if cut then ret p
       else if step \<le> 1 then ret (p\<lparr>final_step := 0\<rparr>)
       else refine_loop orc edges budget cost_limit max_legs (step div 2) p)"
  by pat_completeness auto
termination
  by (relation "measure (\<lambda>(_, _, _, _, _, step, _). step)") auto

declare refine_loop.simps [simp del]

definition refine_bounded_legs ::
  "nat \<Rightarrow> nat \<Rightarrow> nat \<Rightarrow> nat \<Rightarrow> nat \<Rightarrow> 'o quoter \<Rightarrow> 'o \<Rightarrow> exact_plan res \<times> 'o"
where
  "refine_bounded_legs edges amount budget cost_limit max_legs orc s =
     (if edges = 0 \<or> MAX_EDGES < edges \<or> amount = 0 \<or> MAX_ATOMS < amount then (fail Bounds, s)
      else if max_legs = 0 \<or> MAX_LEGS < max_legs then (fail Bounds, s)
      else case
        bindS (seeds orc edges amount budget cost_limit max_legs [1..<2 ^ edges] exact_plan_default)
        (\<lambda>best. \<lambda>(calls, s).
          if ep_output best = 0 then (fail (if calls = budget then WorkLimit else Capacity), (calls, s))
          else bindS (refine_loop orc edges budget cost_limit max_legs (max (amount div 2) 1) best)
            (\<lambda>p. \<lambda>(calls, s).
              (Inr (p\<lparr>oracle_calls := calls, exhausted := final_step p \<noteq> 0\<rparr>), (calls, s))) (calls, s)) (0, s)
      of (r, (_, s')) \<Rightarrow> (r, s'))"

definition refine_bounded :: "nat \<Rightarrow> nat \<Rightarrow> nat \<Rightarrow> nat \<Rightarrow> 'o quoter \<Rightarrow> 'o \<Rightarrow> exact_plan res \<times> 'o" where
  "refine_bounded edges amount budget cost_limit orc s =
     refine_bounded_legs edges amount budget cost_limit MAX_LEGS orc s"

definition refine ::
  "nat \<Rightarrow> nat \<Rightarrow> nat \<Rightarrow> (nat \<Rightarrow> nat \<Rightarrow> 'o \<Rightarrow> (error + nat) \<times> 'o) \<Rightarrow> 'o \<Rightarrow> exact_plan res \<times> 'o"
where
  "refine edges amount budget orc s =
     refine_bounded edges amount budget (2 ^ 64 - 1)
       (\<lambda>i q s. case orc i q s of (Inl e, s') \<Rightarrow> (Inl e, s') | (Inr out, s') \<Rightarrow> (Inr (out, 0), s')) s"

end
