(* ===== verification/Refine.thy ===== *)
theory Refine
  imports Oracle
begin

text \<open>
  The refinement returns an executable plan backed by answers of the oracle, spends the whole amount
  on a bounded number of legs, stays within the cost and call limits, and never panics.
\<close>

section \<open>Legs and sums\<close>

lemma live_legs_sum: "live_legs xs = sum_list (map (\<lambda>x. if 0 < x then 1 else 0) xs)"
  by (induction xs) (auto simp: live_legs_def)

lemma live_legs_update:
  "i < length xs \<Longrightarrow> live_legs (xs[i := v]) + (if 0 < xs ! i then 1 else 0) = live_legs xs + (if 0 < v then 1 else 0)"
  using sum_list_update_nat [of i "map (\<lambda>x. if 0 < x then 1 else 0) xs" "if 0 < v then 1 else 0"]
  by (simp add: live_legs_sum map_update)

lemma sum_two_updates:
  fixes xs :: "nat list"
  assumes "i < length xs" "j < length xs" "i \<noteq> j"
  shows "sum_list (xs[i := a, j := b]) + xs ! i + xs ! j = sum_list xs + a + b"
  using sum_list_update_nat [of j "xs[i := a]" b] sum_list_update_nat [of i xs a] assms by simp

section \<open>What a plan satisfies\<close>

definition answers :: "'o quoter \<Rightarrow> nat \<Rightarrow> nat \<Rightarrow> nat \<times> nat \<Rightarrow> bool" where
  "answers orc edge amount r \<longleftrightarrow>
     (if amount = 0 then r = (0, 0) else \<exists>s. fst (orc edge amount s) = Inr r)"

definition totals_ok :: "'o quoter \<Rightarrow> nat \<Rightarrow> exact_plan \<Rightarrow> bool" where
  "totals_ok orc edges p \<longleftrightarrow>
     length (ep_inputs p) = MAX_EDGES \<and> length (ep_outputs p) = MAX_EDGES \<and> length (ep_costs p) = MAX_EDGES \<and>
     ep_output p = sum_list (ep_outputs p) \<and> ep_cost p = sum_list (ep_costs p) \<and>
     (\<forall>i < MAX_EDGES. edges \<le> i \<longrightarrow> ep_inputs p ! i = 0) \<and>
     (\<forall>i < MAX_EDGES. answers orc i (ep_inputs p ! i) (ep_outputs p ! i, ep_costs p ! i))"

definition plan_good :: "'o quoter \<Rightarrow> nat \<Rightarrow> nat \<Rightarrow> nat \<Rightarrow> nat \<Rightarrow> exact_plan \<Rightarrow> bool" where
  "plan_good orc edges amount cost_limit max_legs p \<longleftrightarrow>
     totals_ok orc edges p \<and> sum_list (ep_inputs p) = amount \<and> ep_cost p \<le> cost_limit \<and>
     live_legs (ep_inputs p) \<le> max_legs"

lemma ask_oracle_answers:
  assumes "ask_oracle orc budget e a st = (r, st')" "fst st \<le> budget"
  shows "\<And>x. r = Inr x \<Longrightarrow> answers orc e a x" "fst st' \<le> budget" "fst st \<le> fst st'"
    "\<And>x. r = Inr x \<Longrightarrow> 0 < a \<Longrightarrow> fst st' = fst st + 1"
proof -
  obtain calls s where st: "st = (calls, s)" by (cases st)
  obtain q s' where q: "orc e a s = (q, s')" by fastforce
  show "answers orc e a x" if "r = Inr x" for x
    using assms(1) that q unfolding st
    by (auto simp: ask_oracle_def answers_def split: if_splits intro!: exI [of _ s])
  show "fst st' \<le> budget" "fst st \<le> fst st'"
    using assms q unfolding st by (auto simp: ask_oracle_def split: if_splits)
  show "fst st' = fst st + 1" if "r = Inr x" "0 < a" for x
    using assms q that unfolding st by (auto simp: ask_oracle_def split: if_splits)
qed

section \<open>Seeds\<close>

definition seed_inv ::
  "'o quoter \<Rightarrow> nat \<Rightarrow> nat \<Rightarrow> nat \<Rightarrow> nat \<Rightarrow> nat list \<Rightarrow> exact_plan \<Rightarrow> nat \<Rightarrow> nat \<Rightarrow> bool"
where
  "seed_inv orc edges amount max_legs sel is cand left remaining \<longleftrightarrow>
     totals_ok orc edges cand \<and> sum_list (ep_inputs cand) + left = amount \<and>
     remaining = length (filter (bit sel) is) \<and> (remaining = 0 \<longrightarrow> left = 0) \<and>
     live_legs (ep_inputs cand) + remaining \<le> max_legs \<and> exchanges cand = 0 \<and>
     distinct is \<and> (\<forall>i \<in> set is. i < edges \<and> ep_inputs cand ! i = 0)"

lemma seed_inv_step:
  assumes inv: "seed_inv orc edges amount max_legs sel (i # is) cand left remaining" and b: "bit sel i"
    and ans: "answers orc i (left div remaining) (out, c)" and e: "edges \<le> MAX_EDGES"
  shows "seed_inv orc edges amount max_legs sel is
    (cand\<lparr>ep_inputs := (ep_inputs cand)[i := left div remaining], ep_costs := (ep_costs cand)[i := c],
          ep_cost := ep_cost cand + c, ep_outputs := (ep_outputs cand)[i := out], ep_output := ep_output cand + out\<rparr>)
    (left - left div remaining) (remaining - 1)"
proof -
  let ?x = "left div remaining"
  from inv have i: "i < edges" "ep_inputs cand ! i = 0" "i \<notin> set is" "distinct is"
    and rem: "remaining = Suc (length (filter (bit sel) is))" and t: "totals_ok orc edges cand"
    and rest: "sum_list (ep_inputs cand) + left = amount" "live_legs (ep_inputs cand) + remaining \<le> max_legs"
      "exchanges cand = 0" "\<forall>j \<in> set is. j < edges \<and> ep_inputs cand ! j = 0"
    using b by (auto simp: seed_inv_def)
  have len: "i < length (ep_inputs cand)" "i < length (ep_outputs cand)" "i < length (ep_costs cand)"
    using t i(1) e by (auto simp: totals_ok_def)
  have "answers orc i (ep_inputs cand ! i) (ep_outputs cand ! i, ep_costs cand ! i)"
    using t i(1) e unfolding totals_ok_def by simp
  then have z: "ep_outputs cand ! i = 0" "ep_costs cand ! i = 0"
    using i(2) by (simp_all add: answers_def)
  have sums: "sum_list ((ep_inputs cand)[i := ?x]) = sum_list (ep_inputs cand) + ?x"
    "sum_list ((ep_outputs cand)[i := out]) = sum_list (ep_outputs cand) + out"
    "sum_list ((ep_costs cand)[i := c]) = sum_list (ep_costs cand) + c"
    using sum_list_update_nat [OF len(1), of ?x] sum_list_update_nat [OF len(2), of out]
      sum_list_update_nat [OF len(3), of c] i(2) z by simp_all
  have le: "?x \<le> left" by simp
  have last: "left - ?x = 0" if "remaining - 1 = 0"
  proof -
    have "remaining = 1" using that rem by simp
    then show ?thesis by simp
  qed
  have "live_legs ((ep_inputs cand)[i := ?x]) \<le> live_legs (ep_inputs cand) + 1"
    using live_legs_update [OF len(1), of ?x] by (auto split: if_splits)
  then show ?thesis
    using t i e rest rem len ans le last sums
    by (auto simp: seed_inv_def totals_ok_def nth_list_update)
qed

lemma seed_loop_safe:
  assumes e: "edges \<le> MAX_EDGES"
  shows "seed_inv orc edges amount max_legs sel is cand left remaining \<Longrightarrow>
    safe (\<lambda>st. fst st \<le> budget) (seed_loop orc budget sel is cand left remaining)
      (\<lambda>(valid, p) st. fst st \<le> budget \<and>
         (valid \<longrightarrow> totals_ok orc edges p \<and> sum_list (ep_inputs p) = amount \<and>
            live_legs (ep_inputs p) \<le> max_legs \<and> exchanges p = 0))"
    (is "_ \<Longrightarrow> safe _ _ ?Q")
proof (induction "is" arbitrary: cand left remaining)
  case Nil
  then show ?case by (auto simp: seed_inv_def intro!: safe_ret)
next
  case (Cons i "is")
  show ?case
  proof (cases "bit sel i")
    case False
    then have "seed_inv orc edges amount max_legs sel is cand left remaining"
      using Cons.prems by (simp add: seed_inv_def)
    then show ?thesis using Cons.IH False by simp
  next
    case True
    let ?x = "left div remaining"
    from Cons.prems True have rem: "remaining \<noteq> 0" and i: "i < edges" and t: "totals_ok orc edges cand"
      by (auto simp: seed_inv_def)
    have len: "i < length (ep_inputs cand)" "i < length (ep_outputs cand)" "i < length (ep_costs cand)"
      using t i e by (auto simp: totals_ok_def)
    show ?thesis
    proof (rule safeI)
      fix st r st' assume st: "fst st \<le> budget"
        and run: "seed_loop orc budget sel (i # is) cand left remaining st = (r, st')"
      obtain q st1 where q: "ask_oracle orc budget i ?x st = (q, st1)" by (rule prod.exhaust)
      note ask = ask_oracle_answers [OF q st]
      show "r \<noteq> Inl Panic \<and> (\<forall>x. r = Inr x \<longrightarrow> ?Q x st')"
      proof (cases q)
        case (Inl z)
        then have "r = Inr (False, cand\<lparr>ep_inputs := (ep_inputs cand)[i := ?x]\<rparr>)" "st' = st1"
          using run True q len rem by (auto simp: div_w_ok)
        then show ?thesis using ask(2) by simp
      next
        case (Inr oc)
        obtain out c where oc: "oc = (out, c)" by (cases oc)
        let ?p = "cand\<lparr>ep_inputs := (ep_inputs cand)[i := ?x], ep_costs := (ep_costs cand)[i := c],
          ep_cost := ep_cost cand + c, ep_outputs := (ep_outputs cand)[i := out], ep_output := ep_output cand + out\<rparr>"
        have inv: "seed_inv orc edges amount max_legs sel is ?p (left - ?x) (remaining - 1)"
          by (rule seed_inv_step [OF Cons.prems True _ e]) (use ask(1) Inr oc in simp)
        show ?thesis
        proof (cases "ep_cost cand + c < 2 ^ 64 \<and> ep_output cand + out < 2 ^ 64")
          case True
          then have "seed_loop orc budget sel is ?p (left - ?x) (remaining - 1) st1 = (r, st')"
            using run \<open>bit sel i\<close> q Inr oc len rem by (simp add: div_w_ok checked_add_def sub_w_ok)
          from safeD [OF Cons.IH [OF inv] ask(2) this] show ?thesis .
        next
          case False
          then have "r = fail Arithmetic"
            using run \<open>bit sel i\<close> q Inr oc len rem
            by (cases "ep_cost cand + c < 2 ^ 64") (auto simp: div_w_ok checked_add_def)
          then show ?thesis by simp
        qed
      qed
    qed
  qed
qed


lemma totals_ok_default: "totals_ok orc edges exact_plan_default"
  by (simp add: totals_ok_def exact_plan_default_def answers_def)

definition best_ok :: "'o quoter \<Rightarrow> nat \<Rightarrow> nat \<Rightarrow> nat \<Rightarrow> nat \<Rightarrow> exact_plan \<Rightarrow> bool" where
  "best_ok orc edges amount cost_limit max_legs p \<longleftrightarrow>
     (ep_output p \<noteq> 0 \<longrightarrow> plan_good orc edges amount cost_limit max_legs p) \<and> exchanges p = 0"

lemma seed_inv_default:
  assumes "sel < 2 ^ edges" "edges \<le> MAX_EDGES" "count_ones sel \<le> max_legs" "sel \<noteq> 0"
  shows "seed_inv orc edges amount max_legs sel [0..<edges] exact_plan_default amount (count_ones sel)"
proof -
  have e: "edges \<le> 16" using assms(2) by (simp add: MAX_EDGES_def)
  have "count_ones sel = length (filter (bit sel) [0..<edges])"
    using assms(1) e by (rule count_ones_filter)
  moreover have "0 < count_ones sel" using assms(4,1) e by (rule count_ones_pos)
  moreover have "live_legs (ep_inputs exact_plan_default) = 0"
    by (simp add: live_legs_def exact_plan_default_def)
  moreover have "\<forall>i \<in> set [0..<edges]. ep_inputs exact_plan_default ! i = 0"
    using assms(2) by (simp add: exact_plan_default_def)
  ultimately show ?thesis using assms(3) totals_ok_default [of orc edges]
    by (simp add: seed_inv_def exact_plan_default_def)
qed

lemma seeds_safe:
  assumes e: "edges \<le> MAX_EDGES"
  shows "\<forall>sel \<in> set sels. 0 < sel \<and> sel < 2 ^ edges \<Longrightarrow> best_ok orc edges amount cost_limit max_legs best \<Longrightarrow>
    safe (\<lambda>st. fst st \<le> budget) (seeds orc edges amount budget cost_limit max_legs sels best)
      (\<lambda>p st. fst st \<le> budget \<and> best_ok orc edges amount cost_limit max_legs p)"
    (is "_ \<Longrightarrow> _ \<Longrightarrow> safe _ _ ?Q")
proof (induction sels arbitrary: best)
  case Nil
  then show ?case by (auto intro!: safe_ret)
next
  case (Cons sel sels)
  show ?case
  proof (cases "max_legs < count_ones sel \<or> amount < count_ones sel")
    case True
    then show ?thesis using Cons by simp
  next
    case False
    have inv: "seed_inv orc edges amount max_legs sel [0..<edges] exact_plan_default amount (count_ones sel)"
      using Cons.prems(1) False by (intro seed_inv_default [OF _ e]) auto
    show ?thesis
      unfolding seeds.simps Let_def if_not_P [OF False]
    proof (rule safe_bindS [OF seed_loop_safe [OF e inv]])
      fix x :: "bool \<times> exact_plan"
      obtain valid cand where x: "x = (valid, cand)" by (cases x)
      let ?b = "if valid \<and> ep_cost cand \<le> cost_limit \<and> ep_output best < ep_output cand then cand else best"
      let ?P = "\<lambda>st :: nat \<times> 'a. fst st \<le> budget \<and> (valid \<longrightarrow> totals_ok orc edges cand \<and>
        sum_list (ep_inputs cand) = amount \<and> live_legs (ep_inputs cand) \<le> max_legs \<and> exchanges cand = 0)"
      have ok: "best_ok orc edges amount cost_limit max_legs ?b" if "?P st" for st
        using that Cons.prems(2) by (auto simp: best_ok_def plan_good_def)
      have rest: "safe ?P (seeds orc edges amount budget cost_limit max_legs sels ?b) ?Q"
      proof (rule safeI)
        fix st r st' assume st: "?P st"
          and run: "seeds orc edges amount budget cost_limit max_legs sels ?b st = (r, st')"
        have safe: "safe (\<lambda>st. fst st \<le> budget) (seeds orc edges amount budget cost_limit max_legs sels ?b) ?Q"
          by (rule Cons.IH [OF _ ok [OF st]]) (use Cons.prems(1) in simp)
        from safeD [OF safe _ run] st show "r \<noteq> Inl Panic \<and> (\<forall>x. r = Inr x \<longrightarrow> ?Q x st')" by simp
      qed
      have "safe ?P (\<lambda>st. if fst st = budget then (Inr ?b, st)
          else seeds orc edges amount budget cost_limit max_legs sels ?b st) ?Q"
      proof (rule safe_test [OF _ safe_pre [OF rest]])
        fix st assume "?P st"
        with ok [OF this] show "Inr ?b \<noteq> Inl Panic \<and> (\<forall>y. Inr ?b = Inr y \<longrightarrow> ?Q y st)" by simp
      qed simp
      then show "safe (case x of (valid, p) \<Rightarrow> \<lambda>st. fst st \<le> budget \<and> (valid \<longrightarrow> totals_ok orc edges p \<and>
            sum_list (ep_inputs p) = amount \<and> live_legs (ep_inputs p) \<le> max_legs \<and> exchanges p = 0))
          (case x of (valid, cand) \<Rightarrow> \<lambda>(calls, s).
            if calls = budget
            then (Inr (if valid \<and> ep_cost cand \<le> cost_limit \<and> ep_output best < ep_output cand then cand else best), (calls, s))
            else seeds orc edges amount budget cost_limit max_legs sels
              (if valid \<and> ep_cost cand \<le> cost_limit \<and> ep_output best < ep_output cand then cand else best) (calls, s)) ?Q"
        unfolding x prod.case by (simp only: case_prod_beta' prod.collapse)
    qed
  qed
qed


section \<open>Exchanges\<close>

definition exchange_inv ::
  "'o quoter \<Rightarrow> nat \<Rightarrow> nat \<Rightarrow> nat \<Rightarrow> nat \<Rightarrow> nat \<Rightarrow> exact_plan \<Rightarrow> exact_plan \<Rightarrow> nat \<times> 'o \<Rightarrow> bool"
where
  "exchange_inv orc edges amount cost_limit max_legs budget best p st \<longleftrightarrow>
     plan_good orc edges amount cost_limit max_legs best \<and> plan_good orc edges amount cost_limit max_legs p \<and>
     ep_output best \<le> ep_output p \<and> exchanges best \<le> fst st \<and> exchanges p \<le> fst st \<and>
     final_step p = final_step best \<and> fst st \<le> budget \<and> budget < 2 ^ 32"

lemma exchange_legs:
  assumes "src < length ins" "dst < length ins" "src \<noteq> dst" "live_legs ins \<le> max_legs"
    "0 < moved" "moved \<le> ins ! src" "\<not> (ins ! dst = 0 \<and> moved < ins ! src \<and> live_legs ins = max_legs)"
  shows "live_legs (ins[src := ins ! src - moved, dst := ins ! dst + moved]) \<le> max_legs"
proof -
  have "live_legs (ins[src := ins ! src - moved]) + 1 = live_legs ins + (if moved < ins ! src then 1 else 0)"
    using live_legs_update [OF assms(1), of "ins ! src - moved"] assms(5,6) by (simp split: if_splits)
  moreover have "live_legs (ins[src := ins ! src - moved, dst := ins ! dst + moved]) + (if 0 < ins ! dst then 1 else 0)
      = live_legs (ins[src := ins ! src - moved]) + 1"
    using live_legs_update [of dst "ins[src := ins ! src - moved]" "ins ! dst + moved"] assms(2,3,5) by simp
  ultimately show ?thesis using assms(4,7) by (auto split: if_splits)
qed

lemma exchange_good:
  assumes good: "plan_good orc edges amount cost_limit max_legs best"
    and i: "src < edges" "dst < edges" "src \<noteq> dst" and e: "edges \<le> MAX_EDGES"
    and moved: "0 < moved" "moved \<le> ep_inputs best ! src"
      "\<not> (ep_inputs best ! dst = 0 \<and> moved < ep_inputs best ! src \<and> live_legs (ep_inputs best) = max_legs)"
    and ab: "a = ep_inputs best ! src - moved" "b = ep_inputs best ! dst + moved"
    and qa: "answers orc src a (oa, ca)" and qb: "answers orc dst b (ob, cb)"
    and cost: "ep_cost best - ep_costs best ! src - ep_costs best ! dst + ca + cb \<le> cost_limit"
  shows "plan_good orc edges amount cost_limit max_legs
    (best\<lparr>ep_inputs := (ep_inputs best)[src := a, dst := b], ep_outputs := (ep_outputs best)[src := oa, dst := ob],
          ep_costs := (ep_costs best)[src := ca, dst := cb],
          ep_cost := ep_cost best - ep_costs best ! src - ep_costs best ! dst + ca + cb,
          ep_output := ep_output best - ep_outputs best ! src - ep_outputs best ! dst + oa + ob, exchanges := k\<rparr>)"
proof -
  from good have t: "totals_ok orc edges best" and amt: "sum_list (ep_inputs best) = amount"
    and legs: "live_legs (ep_inputs best) \<le> max_legs" by (simp_all add: plan_good_def)
  have len: "length (ep_inputs best) = MAX_EDGES" "length (ep_outputs best) = MAX_EDGES"
      "length (ep_costs best) = MAX_EDGES" and tot: "ep_output best = sum_list (ep_outputs best)"
      "ep_cost best = sum_list (ep_costs best)"
    and out: "\<And>j. j < MAX_EDGES \<Longrightarrow> edges \<le> j \<Longrightarrow> ep_inputs best ! j = 0"
    and ans: "\<And>j. j < MAX_EDGES \<Longrightarrow> answers orc j (ep_inputs best ! j) (ep_outputs best ! j, ep_costs best ! j)"
    using t by (simp_all add: totals_ok_def)
  have ij: "src < MAX_EDGES" "dst < MAX_EDGES" using i e by simp_all
  have outs: "sum_list ((ep_outputs best)[src := oa, dst := ob]) =
      sum_list (ep_outputs best) - ep_outputs best ! src - ep_outputs best ! dst + oa + ob"
    using sum_two_updates [of src "ep_outputs best" dst oa ob] ij i(3) len(2)
      two_elems_le_sum_list_nat [of src "ep_outputs best" dst] by simp
  have costs: "sum_list ((ep_costs best)[src := ca, dst := cb]) =
      sum_list (ep_costs best) - ep_costs best ! src - ep_costs best ! dst + ca + cb"
    using sum_two_updates [of src "ep_costs best" dst ca cb] ij i(3) len(3)
      two_elems_le_sum_list_nat [of src "ep_costs best" dst] by simp
  have ins: "sum_list ((ep_inputs best)[src := a, dst := b]) = amount"
    using sum_two_updates [of src "ep_inputs best" dst a b] ij i(3) len(1) ab moved(2) amt by simp
  have live: "live_legs ((ep_inputs best)[src := a, dst := b]) \<le> max_legs"
    unfolding ab by (rule exchange_legs) (use ij len(1) i(3) legs moved in simp_all)
  show ?thesis
    using ins live outs costs cost tot len out ans ij i qa qb
    by (auto simp: plan_good_def totals_ok_def nth_list_update)
qed

lemma apply_exchange_cases:
  assumes t: "totals_ok orc edges best" and i: "src < MAX_EDGES" "dst < MAX_EDGES" "src \<noteq> dst"
    and k: "exchanges best + 1 < 2 ^ 32"
    and run: "apply_exchange best p cost_limit src dst a b oa ca ob cb = r"
  shows "r = fail Arithmetic \<or> r = Inr p \<or>
    (ep_cost best - ep_costs best ! src - ep_costs best ! dst + ca + cb \<le> cost_limit \<and>
     ep_output p < ep_output best - ep_outputs best ! src - ep_outputs best ! dst + oa + ob \<and>
     r = Inr (best\<lparr>ep_inputs := (ep_inputs best)[src := a, dst := b], ep_outputs := (ep_outputs best)[src := oa, dst := ob],
          ep_costs := (ep_costs best)[src := ca, dst := cb],
          ep_cost := ep_cost best - ep_costs best ! src - ep_costs best ! dst + ca + cb,
          ep_output := ep_output best - ep_outputs best ! src - ep_outputs best ! dst + oa + ob,
          exchanges := exchanges best + 1\<rparr>))"
proof -
  have "ep_costs best ! src + ep_costs best ! dst \<le> ep_cost best"
    using two_elems_le_sum_list_nat [of src "ep_costs best" dst] t i by (simp add: totals_ok_def)
  then have c: "sub_w (ep_cost best) (ep_costs best ! src) = Inr (ep_cost best - ep_costs best ! src)"
    "sub_w (ep_cost best - ep_costs best ! src) (ep_costs best ! dst) = Inr (ep_cost best - ep_costs best ! src - ep_costs best ! dst)"
    by (simp_all add: sub_w_ok)
  have "ep_outputs best ! src + ep_outputs best ! dst \<le> ep_output best"
    using two_elems_le_sum_list_nat [of src "ep_outputs best" dst] t i by (simp add: totals_ok_def)
  then have o: "sub_w (ep_output best) (ep_outputs best ! src) = Inr (ep_output best - ep_outputs best ! src)"
    "sub_w (ep_output best - ep_outputs best ! src) (ep_outputs best ! dst) = Inr (ep_output best - ep_outputs best ! src - ep_outputs best ! dst)"
    by (simp_all add: sub_w_ok)
  show ?thesis using run k
    unfolding apply_exchange_def c o bindR_simps checked_add_def add_w_def
    by (auto split: if_splits)
qed

abbreviation round_inv ::
  "'o quoter \<Rightarrow> nat \<Rightarrow> nat \<Rightarrow> nat \<Rightarrow> nat \<Rightarrow> nat \<Rightarrow> exact_plan \<Rightarrow> exact_plan option \<Rightarrow> nat \<times> 'o \<Rightarrow> bool"
where
  "round_inv orc edges amount cost_limit max_legs budget best r st \<equiv>
     exchange_inv orc edges amount cost_limit max_legs budget best (case r of None \<Rightarrow> best | Some p \<Rightarrow> p) st"

lemma exchange_inv_calls:
  "exchange_inv orc edges amount cost_limit max_legs budget best p st \<Longrightarrow> fst st \<le> fst st' \<Longrightarrow> fst st' \<le> budget \<Longrightarrow>
   exchange_inv orc edges amount cost_limit max_legs budget best p st'"
  by (simp add: exchange_inv_def)

lemma exchange_inv_self:
  "exchange_inv orc edges amount cost_limit max_legs budget best p st \<Longrightarrow>
   exchange_inv orc edges amount cost_limit max_legs budget best best st"
  by (simp add: exchange_inv_def)

lemma try_exchange_safe:
  assumes e: "edges \<le> MAX_EDGES" and i: "src < edges" "dst < edges"
    and moved: "0 < moved" "moved \<le> ep_inputs best ! src"
  shows "safe (exchange_inv orc edges amount cost_limit max_legs budget best p)
    (try_exchange orc budget cost_limit max_legs best src moved dst p)
    (round_inv orc edges amount cost_limit max_legs budget best)"
proof (rule safeI)
  fix st r st'
  assume inv: "exchange_inv orc edges amount cost_limit max_legs budget best p st"
    and run: "try_exchange orc budget cost_limit max_legs best src moved dst p st = (r, st')"
  let ?goal = "r \<noteq> Inl Panic \<and> (\<forall>x. r = Inr x \<longrightarrow> round_inv orc edges amount cost_limit max_legs budget best x st')"
  let ?a = "ep_inputs best ! src - moved" and ?b = "ep_inputs best ! dst + moved"
  have same: ?goal if "r = Inr (Some p)" "fst st \<le> fst st'" "fst st' \<le> budget"
    using that exchange_inv_calls [OF inv that(2,3)] by simp
  have calls: "fst st \<le> budget" and good: "plan_good orc edges amount cost_limit max_legs best"
    using inv by (simp_all add: exchange_inv_def)
  show ?goal
  proof (cases "src = dst \<or> (ep_inputs best ! dst = 0 \<and> moved < ep_inputs best ! src \<and> live_legs (ep_inputs best) = max_legs)")
    case True
    then have "r = Inr (Some p) \<and> st' = st"
      using run unfolding try_exchange_def by (cases "src = dst") simp_all
    then show ?thesis using same calls by simp
  next
    case skip: False
    then have ns: "\<not> src = dst" and nl: "\<not> (ep_inputs best ! dst = 0 \<and> moved < ep_inputs best ! src \<and> live_legs (ep_inputs best) = max_legs)"
      by simp_all
    have pre: "bindR (sub_w (ep_inputs best ! src) moved) (\<lambda>a.
        bindR (ok_or (checked_add 64 (ep_inputs best ! dst) moved) Arithmetic) (\<lambda>b. Inr (a, b))) =
        (if ?b < 2 ^ 64 then Inr (?a, ?b) else fail Arithmetic)"
      using moved by (simp add: sub_w_ok checked_add_def)
    note run = run [unfolded try_exchange_def if_not_P [OF ns] if_not_P [OF nl] pre]
    show ?thesis
    proof (cases "budget < min (fst st + 2) (2 ^ 32 - 1) \<or> 2 ^ 64 \<le> ?b")
      case True
      then have "r = Inr None \<and> st' = st \<or> r = fail Arithmetic"
        using run by (cases "budget < min (fst st + 2) (2 ^ 32 - 1)") simp_all
      then show ?thesis using exchange_inv_self [OF inv] by auto
    next
      case False
      then have nb: "\<not> budget < min (fst st + 2) (2 ^ 32 - 1)" and b: "?b < 2 ^ 64" by simp_all
      note run = run [unfolded if_not_P [OF nb] if_P [OF b] liftR_Inr bindS_ret prod.case]
      obtain qa st1 where qa: "ask_oracle orc budget src ?a st = (qa, st1)" by (rule prod.exhaust)
      obtain qb st2 where qb: "ask_oracle orc budget dst ?b st1 = (qb, st2)" by (rule prod.exhaust)
      note asked_a = ask_oracle_answers [OF qa calls]
      note asked_b = ask_oracle_answers [OF qb asked_a(2)]
      have mono: "fst st \<le> fst st2" using asked_a(3) asked_b(3) by simp
      show ?thesis
      proof (cases "\<exists>oa ca ob cb. qa = Inr (oa, ca) \<and> qb = Inr (ob, cb)")
        case miss: False
        then have "r = Inr (Some p)" "st' = st2"
          using run by (auto simp: qa qb split: sum.splits)
        then show ?thesis using same mono asked_b(2) by simp
      next
        case True
        then obtain oa ca ob cb where ans: "qa = Inr (oa, ca)" "qb = Inr (ob, cb)" by blast
        have r: "r = bindR (apply_exchange best p cost_limit src dst ?a ?b oa ca ob cb) (\<lambda>p. Inr (Some p))" "st' = st2"
          using run by (simp_all add: qa qb ans)
        have k: "exchanges best + 1 \<le> fst st2"
          using inv asked_b(4) [OF ans(2)] asked_a(3) moved(1) by (simp add: exchange_inv_def)
        have k': "exchanges best + 1 < 2 ^ 32" using k asked_b(2) inv by (simp add: exchange_inv_def)
        have t: "totals_ok orc edges best" using good by (simp add: plan_good_def)
        have ij: "src < MAX_EDGES" "dst < MAX_EDGES" "src \<noteq> dst" using i e skip by auto
        show ?thesis using apply_exchange_cases [OF t ij k' refl, of p cost_limit ?a ?b oa ca ob cb]
        proof (elim disjE conjE)
          assume "apply_exchange best p cost_limit src dst ?a ?b oa ca ob cb = Inr p"
          then show ?thesis using r same mono asked_b(2) by simp
        next
          assume cost: "ep_cost best - ep_costs best ! src - ep_costs best ! dst + ca + cb \<le> cost_limit"
            and better: "ep_output p < ep_output best - ep_outputs best ! src - ep_outputs best ! dst + oa + ob"
            and new: "apply_exchange best p cost_limit src dst ?a ?b oa ca ob cb =
              Inr (best\<lparr>ep_inputs := (ep_inputs best)[src := ?a, dst := ?b], ep_outputs := (ep_outputs best)[src := oa, dst := ob],
                ep_costs := (ep_costs best)[src := ca, dst := cb],
                ep_cost := ep_cost best - ep_costs best ! src - ep_costs best ! dst + ca + cb,
                ep_output := ep_output best - ep_outputs best ! src - ep_outputs best ! dst + oa + ob,
                exchanges := exchanges best + 1\<rparr>)"
          note exchange_good [OF good i ij(3) e moved _ refl refl asked_a(1) [OF ans(1)] asked_b(1) [OF ans(2)] cost]
          then show ?thesis using inv new r better mono k asked_b(2) skip
            by (simp add: exchange_inv_def)
        qed (use r in simp)
      qed
    qed
  qed
qed

section \<open>Rounds\<close>

lemma dst_loop_safe:
  assumes e: "edges \<le> MAX_EDGES" and src: "src < edges" and moved: "0 < moved" "moved \<le> ep_inputs best ! src"
  shows "\<forall>dst \<in> set dsts. dst < edges \<Longrightarrow>
    safe (exchange_inv orc edges amount cost_limit max_legs budget best p)
      (dst_loop orc budget cost_limit max_legs best src moved dsts p)
      (round_inv orc edges amount cost_limit max_legs budget best)"
proof (induction dsts arbitrary: p)
  case Nil
  then show ?case by (auto intro!: safe_ret)
next
  case (Cons dst dsts)
  have first: "safe (exchange_inv orc edges amount cost_limit max_legs budget best p)
      (try_exchange orc budget cost_limit max_legs best src moved dst p)
      (round_inv orc edges amount cost_limit max_legs budget best)"
    by (rule try_exchange_safe [OF e src _ moved]) (use Cons.prems in simp)
  show ?case unfolding dst_loop.simps
    by (rule safe_bindS [OF first])
      (use Cons.IH Cons.prems in \<open>auto split: option.splits intro!: safe_ret\<close>)
qed

lemma src_loop_safe:
  assumes e: "edges \<le> MAX_EDGES" and step: "0 < step"
  shows "\<forall>src \<in> set srcs. src < edges \<Longrightarrow>
    safe (exchange_inv orc edges amount cost_limit max_legs budget best p)
      (src_loop orc edges budget cost_limit max_legs step best srcs p)
      (round_inv orc edges amount cost_limit max_legs budget best)"
proof (induction srcs arbitrary: p)
  case Nil
  then show ?case by (auto intro!: safe_ret)
next
  case (Cons src srcs)
  show ?case
  proof (cases "ep_inputs best ! src = 0")
    case True
    then show ?thesis using Cons by simp
  next
    case False
    have first: "safe (exchange_inv orc edges amount cost_limit max_legs budget best p)
        (dst_loop orc budget cost_limit max_legs best src (min (ep_inputs best ! src) step) [0..<edges] p)
        (round_inv orc edges amount cost_limit max_legs budget best)"
      by (rule dst_loop_safe [OF e]) (use Cons.prems step False in simp_all)
    show ?thesis unfolding src_loop.simps if_not_P [OF False]
      by (rule safe_bindS [OF first])
        (use Cons.IH Cons.prems in \<open>auto split: option.splits intro!: safe_ret\<close>)
  qed
qed

definition kept :: "'o quoter \<Rightarrow> nat \<Rightarrow> nat \<Rightarrow> nat \<Rightarrow> nat \<Rightarrow> nat \<Rightarrow> nat \<Rightarrow> exact_plan \<Rightarrow> nat \<times> 'o \<Rightarrow> bool" where
  "kept orc edges amount cost_limit max_legs budget least p st \<longleftrightarrow>
     exchange_inv orc edges amount cost_limit max_legs budget p p st \<and> least \<le> ep_output p"

lemma kept_final_step [simp]:
  "kept orc edges amount cost_limit max_legs budget least (p\<lparr>final_step := k\<rparr>) =
     kept orc edges amount cost_limit max_legs budget least p"
  by (simp add: fun_eq_iff kept_def exchange_inv_def plan_good_def totals_ok_def)

lemma rounds_safe:
  assumes e: "edges \<le> MAX_EDGES" and step: "0 < step"
  shows "safe (kept orc edges amount cost_limit max_legs budget least best)
      (rounds orc edges budget cost_limit max_legs step n best)
      (\<lambda>(cut, p). kept orc edges amount cost_limit max_legs budget least p)"
proof (induction n arbitrary: best)
  case 0
  then show ?case by (auto intro!: safe_ret)
next
  case (Suc n)
  let ?Q = "\<lambda>r st. round_inv orc edges amount cost_limit max_legs budget best r st \<and> least \<le> ep_output best"
  have "safe (exchange_inv orc edges amount cost_limit max_legs budget best best)
      (src_loop orc edges budget cost_limit max_legs step best [0..<edges] best)
      (round_inv orc edges amount cost_limit max_legs budget best)"
    by (rule src_loop_safe [OF e step]) simp
  then have first: "safe (kept orc edges amount cost_limit max_legs budget least best)
      (src_loop orc edges budget cost_limit max_legs step best [0..<edges] best) ?Q"
    unfolding safe_def kept_def by blast
  show ?case unfolding rounds.simps
  proof (rule safe_bindS [OF first])
    fix r
    let ?post = "\<lambda>(cut :: bool, p). kept orc edges amount cost_limit max_legs budget least p"
    show "safe (?Q r) (case r of None \<Rightarrow> ret (True, best)
        | Some p \<Rightarrow> if ep_output p = ep_output best then ret (False, best)
            else rounds orc edges budget cost_limit max_legs step n p) ?post"
    proof (cases r)
      case None
      then show ?thesis by (auto simp: kept_def intro!: safe_ret)
    next
      case (Some p)
      have next_round: "safe (?Q (Some p)) (rounds orc edges budget cost_limit max_legs step n p) ?post"
        by (rule safe_pre [OF Suc.IH]) (auto simp: kept_def exchange_inv_def)
      have stop: "safe (?Q (Some p)) (ret (False, best)) ?post"
        by (auto simp: kept_def exchange_inv_def intro!: safe_ret)
      show ?thesis unfolding Some option.case using stop next_round by (intro safe_if) simp_all
    qed
  qed
qed

lemma refine_loop_safe:
  assumes e: "edges \<le> MAX_EDGES"
  shows "0 < step \<Longrightarrow> safe (kept orc edges amount cost_limit max_legs budget least best)
      (refine_loop orc edges budget cost_limit max_legs step best)
      (kept orc edges amount cost_limit max_legs budget least)"
proof (induction step arbitrary: best rule: less_induct)
  case (less step)
  show ?case
  proof (subst refine_loop.simps, rule safe_bindS)
    show "safe (kept orc edges amount cost_limit max_legs budget least best)
        (rounds orc edges budget cost_limit max_legs step 32 (best\<lparr>final_step := step\<rparr>))
        (\<lambda>(cut, p). kept orc edges amount cost_limit max_legs budget least p)"
      using rounds_safe [OF e less.prems, of orc amount cost_limit max_legs budget least "best\<lparr>final_step := step\<rparr>" 32]
      by simp
    fix x :: "bool \<times> exact_plan"
    obtain cut p where x: "x = (cut, p)" by (cases x)
    have again: "safe (kept orc edges amount cost_limit max_legs budget least p)
        (refine_loop orc edges budget cost_limit max_legs (step div 2) p)
        (kept orc edges amount cost_limit max_legs budget least)" if "1 < step"
      using that by (intro less.IH) simp_all
    show "safe (case x of (cut, p) \<Rightarrow> kept orc edges amount cost_limit max_legs budget least p)
        (case x of (cut, p) \<Rightarrow> if cut then ret p else if step \<le> 1 then ret (p\<lparr>final_step := 0\<rparr>)
          else refine_loop orc edges budget cost_limit max_legs (step div 2) p)
        (kept orc edges amount cost_limit max_legs budget least)"
      unfolding x prod.case using again by (auto intro!: safe_if safe_ret)
  qed
qed

section \<open>The call counter\<close>

definition counting :: "(nat \<times> 'o, 'a) comp \<Rightarrow> bool" where
  "counting c \<longleftrightarrow> (\<forall>st r st'. c st = (r, st') \<longrightarrow> fst st \<le> fst st')"

lemma countingD: "counting c \<Longrightarrow> c st = (r, st') \<Longrightarrow> fst st \<le> fst st'"
  unfolding counting_def by blast

lemma counting_ret [simp]: "counting (ret x)"
  by (simp add: counting_def)

lemma counting_bindS:
  assumes "counting c" "\<And>x. counting (f x)"
  shows "counting (bindS c f)"
  unfolding counting_def bindS_def
  using assms by (fastforce simp: counting_def intro: le_trans split: prod.splits sum.splits)

lemma counting_ask: "ask_oracle orc budget e a st = (r, st') \<Longrightarrow> fst st \<le> fst st'"
  by (cases st) (auto simp: ask_oracle_def split: if_splits prod.splits)

lemma counting_liftR [simp]: "counting (liftR x)"
  by (simp add: counting_def)

lemma counting_test: "counting c \<Longrightarrow> counting (\<lambda>st. if C st then (r, st) else c st)"
  by (auto simp: counting_def)

lemma counting_try_exchange: "counting (try_exchange orc budget cost_limit max_legs best src moved dst p)"
proof -
  let ?pre = "bindR (sub_w (ep_inputs best ! src) moved) (\<lambda>a.
    bindR (ok_or (checked_add 64 (ep_inputs best ! dst) moved) Arithmetic) (\<lambda>b. Inr (a, b)))"
  let ?ask = "\<lambda>(a, b). \<lambda>st. case ask_oracle orc budget src a st of (qa, st1) \<Rightarrow>
      (case ask_oracle orc budget dst b st1 of (qb, st2) \<Rightarrow> (case (qa, qb) of
        (Inr (oa, ca), Inr (ob, cb)) \<Rightarrow>
          (bindR (apply_exchange best p cost_limit src dst a b oa ca ob cb) (\<lambda>p. Inr (Some p)), st2)
      | _ \<Rightarrow> (Inr (Some p), st2)))"
  have "counting (?ask (a, b))" for a b
    unfolding counting_def
  proof (intro allI impI)
    fix st :: "nat \<times> 'a" and r st' assume run: "?ask (a, b) st = (r, st')"
    obtain qa st1 where qa: "ask_oracle orc budget src a st = (qa, st1)" by (rule prod.exhaust)
    obtain qb st2 where qb: "ask_oracle orc budget dst b st1 = (qb, st2)" by (rule prod.exhaust)
    have "st' = st2" using run by (auto simp: qa qb split: sum.splits prod.splits)
    then show "fst st \<le> fst st'" using counting_ask [OF qa] counting_ask [OF qb] by simp
  qed
  then have "counting (?ask x)" for x by (cases x) simp
  then have "counting (bindS (liftR ?pre) ?ask)" by (rule counting_bindS [OF counting_liftR])
  then show ?thesis unfolding try_exchange_def [abs_def] by (intro counting_test)
qed

lemma counting_dst_loop: "counting (dst_loop orc budget cost_limit max_legs best src moved dsts p)"
  by (induction dsts arbitrary: p) (auto intro!: counting_bindS counting_try_exchange split: option.splits)

lemma counting_src_loop: "counting (src_loop orc edges budget cost_limit max_legs step best srcs p)"
  by (induction srcs arbitrary: p) (auto intro!: counting_bindS counting_dst_loop split: option.splits)

lemma counting_rounds: "counting (rounds orc edges budget cost_limit max_legs step n best)"
  by (induction n arbitrary: best) (auto intro!: counting_bindS counting_src_loop split: option.splits)

lemma counting_refine_loop: "counting (refine_loop orc edges budget cost_limit max_legs step best)"
proof (induction step arbitrary: best rule: less_induct)
  case (less step)
  show ?case by (subst refine_loop.simps)
      (auto intro!: counting_bindS counting_rounds less.IH split: prod.splits)
qed

section \<open>Single-venue seeds\<close>

lemma seed_loop_skip: "\<forall>j \<in> set is. \<not> bit sel j \<Longrightarrow> seed_loop orc budget sel is cand left remaining = ret (True, cand)"
  by (induction "is") auto

lemma seed_loop_single:
  assumes ans: "\<And>s. fst (orc i amount s) = Inr (out, c)" and small: "out < 2 ^ 64" "c < 2 ^ 64"
    and i: "i < MAX_EDGES" and amount: "0 < amount"
  shows "\<forall>j \<in> set js. bit sel j \<longleftrightarrow> j = i \<Longrightarrow> distinct js \<Longrightarrow> i \<in> set js \<Longrightarrow>
    seed_loop orc budget sel js exact_plan_default amount 1 st = (r, st') \<Longrightarrow>
    fst st' = budget \<or> (\<exists>cand. r = Inr (True, cand) \<and> ep_output cand = out \<and> ep_cost cand = c)"
proof (induction js)
  case (Cons j js)
  show ?case
  proof (cases "j = i")
    case False
    then show ?thesis using Cons by simp
  next
    case True
    have b: "bit sel i" using Cons.prems(1) True by simp
    have rest: "\<forall>k \<in> set js. \<not> bit sel k" using Cons.prems(1,2) True by auto
    obtain calls s where st: "st = (calls, s)" by (cases st)
    obtain s1 where q: "orc i amount s = (Inr (out, c), s1)"
      using ans [of s] by (cases "orc i amount s") auto
    show ?thesis
    proof (cases "calls = budget")
      case full: True
      then show ?thesis using Cons.prems(4) True b i amount
        by (auto simp: st ask_oracle_def div_w_ok exact_plan_default_def)
    next
      case False
      then show ?thesis using Cons.prems(4) True b i amount small
        by (auto simp: st ask_oracle_def q div_w_ok exact_plan_default_def checked_add_def sub_w_ok seed_loop_skip [OF rest])
    qed
  qed
qed simp

lemma seeds_single:
  assumes ans: "\<And>s. fst (orc i amount s) = Inr (out, c)" and small: "out < 2 ^ 64" "c < 2 ^ 64"
    and i: "i < edges" "edges \<le> MAX_EDGES" and amount: "0 < amount" and legs: "0 < max_legs" and c: "c \<le> cost_limit"
  shows "seeds orc edges amount budget cost_limit max_legs sels best st = (Inr p, st') \<Longrightarrow>
    fst st' = budget \<or> (ep_output best \<le> ep_output p \<and> (2 ^ i \<in> set sels \<longrightarrow> out \<le> ep_output p))"
proof (induction sels arbitrary: best st)
  case (Cons sel sels)
  have bits: "bit (2 ^ i :: nat) j \<longleftrightarrow> j = i" for j by (auto simp: bit_exp_iff)
  have i16: "i < 16" using i by (simp add: MAX_EDGES_def)
  have one: "count_ones (2 ^ i) = 1" using i16 by (rule count_ones_exp)
  show ?case
  proof (cases "max_legs < count_ones sel \<or> amount < count_ones sel")
    case True
    then have "sel \<noteq> 2 ^ i" using one legs amount by auto
    then show ?thesis using Cons True by simp
  next
    case False
    obtain q st1 where q: "seed_loop orc budget sel [0..<edges] exact_plan_default amount (count_ones sel) st = (q, st1)"
      by (rule prod.exhaust)
    have "\<not> (\<exists>z. q = Inl z)"
      using Cons.prems unfolding seeds.simps Let_def if_not_P [OF False] by (auto simp: bindS_def q)
    then obtain valid cand where v: "q = Inr (valid, cand)" by (cases q) auto
    let ?b = "if valid \<and> ep_cost cand \<le> cost_limit \<and> ep_output best < ep_output cand then cand else best"
    have best: "ep_output best \<le> ep_output ?b" by simp
    have step: "seeds orc edges amount budget cost_limit max_legs (sel # sels) best st =
        (if fst st1 = budget then (Inr ?b, st1) else seeds orc edges amount budget cost_limit max_legs sels ?b st1)"
      unfolding seeds.simps Let_def if_not_P [OF False] bindS_def q v sum.case prod.case
      by (simp only: case_prod_beta' prod.collapse)
    show ?thesis
    proof (cases "fst st1 = budget")
      case True
      then show ?thesis using Cons.prems unfolding step by auto
    next
      case more: False
      then have run: "seeds orc edges amount budget cost_limit max_legs sels ?b st1 = (Inr p, st')"
        using Cons.prems unfolding step by simp
      have hit: "out \<le> ep_output ?b" if "sel = 2 ^ i"
      proof -
        have "\<exists>cand'. Inr (valid, cand) = (Inr (True, cand') :: (bool \<times> exact_plan) res) \<and> ep_output cand' = out \<and> ep_cost cand' = c"
          using seed_loop_single [where orc = orc and i = i and amount = amount and out = out and c = c and js = "[0..<edges]"
              and sel = sel and budget = budget and st = st and r = q and st' = st1,
              OF ans small _ amount] i more q v that one bits
          by simp
        then show ?thesis using c by auto
      qed
      show ?thesis using Cons.IH [OF run] hit best by auto
    qed
  qed
qed simp

section \<open>The refinement\<close>

lemma refine_bounded_legs_run:
  assumes "refine_bounded_legs edges amount budget cost_limit max_legs orc s = (r, s')" "budget < 2 ^ 32"
  shows "r \<noteq> Inl Panic" "\<And>p. r = Inr p \<Longrightarrow>
    \<exists>best st1 p0 st2. 0 < amount \<and> edges \<le> MAX_EDGES \<and> max_legs \<noteq> 0 \<and>
      seeds orc edges amount budget cost_limit max_legs [1..<2 ^ edges] exact_plan_default (0, s) = (Inr best, st1) \<and>
      refine_loop orc edges budget cost_limit max_legs (max (amount div 2) 1) best st1 = (Inr p0, st2) \<and>
      kept orc edges amount cost_limit max_legs budget (ep_output best) p0 st2 \<and> 0 < ep_output p0 \<and>
      p = p0\<lparr>oracle_calls := fst st2, exhausted := final_step p0 \<noteq> 0\<rparr>"
proof -
  let ?big = "edges = 0 \<or> MAX_EDGES < edges \<or> amount = 0 \<or> MAX_ATOMS < amount"
  let ?legs = "max_legs = 0 \<or> MAX_LEGS < max_legs"
  let ?concl = "\<lambda>p. \<exists>best st1 p0 st2. 0 < amount \<and> edges \<le> MAX_EDGES \<and> max_legs \<noteq> 0 \<and>
      seeds orc edges amount budget cost_limit max_legs [1..<2 ^ edges] exact_plan_default (0, s) = (Inr best, st1) \<and>
      refine_loop orc edges budget cost_limit max_legs (max (amount div 2) 1) best st1 = (Inr p0, st2) \<and>
      kept orc edges amount cost_limit max_legs budget (ep_output best) p0 st2 \<and> 0 < ep_output p0 \<and>
      p = p0\<lparr>oracle_calls := fst st2, exhausted := final_step p0 \<noteq> 0\<rparr>"
  have "r \<noteq> Inl Panic \<and> (\<forall>p. r = Inr p \<longrightarrow> ?concl p)"
  proof (cases "?big \<or> ?legs")
    case True
    then have "r = fail Bounds" using assms(1) by (cases ?big) (simp_all add: refine_bounded_legs_def)
    then show ?thesis by simp
  next
    case False
    then have nb: "\<not> ?big" and nl: "\<not> ?legs" and e: "edges \<le> MAX_EDGES" by simp_all
    note run = assms(1) [unfolded refine_bounded_legs_def if_not_P [OF nb] if_not_P [OF nl]]
    obtain q st1 where q: "seeds orc edges amount budget cost_limit max_legs [1..<2 ^ edges] exact_plan_default (0, s) = (q, st1)"
      by (rule prod.exhaust)
    have def_ok: "best_ok orc edges amount cost_limit max_legs exact_plan_default"
      by (simp add: best_ok_def exact_plan_default_def)
    have q_ok: "q \<noteq> Inl Panic \<and> (\<forall>x. q = Inr x \<longrightarrow> fst st1 \<le> budget \<and> best_ok orc edges amount cost_limit max_legs x)"
      by (rule safeD [OF seeds_safe [OF e _ def_ok] _ q]) simp_all
    show ?thesis
    proof (cases q)
      case (Inl z)
      show ?thesis using run q_ok unfolding bindS_def q Inl by (auto split: prod.splits)
    next
      case (Inr best)
      show ?thesis
      proof (cases "ep_output best = 0")
        case True
        then show ?thesis using run unfolding bindS_def q Inr by (auto split: prod.splits)
      next
        case pos: False
        obtain z st2 where z: "refine_loop orc edges budget cost_limit max_legs (max (amount div 2) 1) best st1 = (z, st2)"
          by (rule prod.exhaust)
        have start: "kept orc edges amount cost_limit max_legs budget (ep_output best) best st1"
          using q_ok Inr pos assms(2) by (simp add: kept_def exchange_inv_def best_ok_def)
        have z_ok: "z \<noteq> Inl Panic \<and> (\<forall>x. z = Inr x \<longrightarrow> kept orc edges amount cost_limit max_legs budget (ep_output best) x st2)"
          by (rule safeD [OF refine_loop_safe [OF e] start z]) simp
        have r: "r = (case z of Inl f \<Rightarrow> Inl f
            | Inr p0 \<Rightarrow> Inr (p0\<lparr>oracle_calls := fst st2, exhausted := final_step p0 \<noteq> 0\<rparr>))"
          using run pos unfolding bindS_def q Inr
          by (auto simp: z [unfolded One_nat_def] case_prod_beta' split: sum.splits)
        show ?thesis
        proof (cases z)
          case (Inl f)
          then show ?thesis using r z_ok by simp
        next
          case (Inr p0)
          then have k: "kept orc edges amount cost_limit max_legs budget (ep_output best) p0 st2" using z_ok by simp
          then have "0 < ep_output p0" using pos by (simp add: kept_def)
          then have "?concl (p0\<lparr>oracle_calls := fst st2, exhausted := final_step p0 \<noteq> 0\<rparr>)"
            by (intro exI [of _ best] exI [of _ st1] exI [of _ p0] exI [of _ st2] conjI refl)
              (use k q [unfolded \<open>q = Inr best\<close>] z [unfolded Inr] nb e nl in \<open>simp_all del: upt_Suc One_nat_def\<close>)
          then show ?thesis using r Inr by simp
        qed
      qed
    qed
  qed
  then show "r \<noteq> Inl Panic" "\<And>p. r = Inr p \<Longrightarrow> ?concl p" by blast+
qed

text \<open>
  \<^bold>\<open>C7.\<close> Refinement against any oracle, stateful or failing, never panics, and a plan it returns is
  executable: the amount is spent exactly, every leg's output and cost are an answer the oracle gave
  for that leg's amount, the totals are the sums, the cost limit, the leg limit and the call limit
  hold, and \<open>exhausted\<close> says whether the last exchange scale was left unfinished.
\<close>

theorem refinement_sound:
  assumes "budget < 2 ^ 32" "refine_bounded_legs edges amount budget cost_limit max_legs orc s = (r, s')"
  shows "r \<noteq> Inl Panic \<and> (\<forall>p. r = Inr p \<longrightarrow>
    sum_list (ep_inputs p) = amount \<and> ep_output p = sum_list (ep_outputs p) \<and> 0 < ep_output p \<and>
    ep_cost p = sum_list (ep_costs p) \<and> ep_cost p \<le> cost_limit \<and> live_legs (ep_inputs p) \<le> max_legs \<and>
    (\<forall>i < MAX_EDGES. edges \<le> i \<longrightarrow> ep_inputs p ! i = 0) \<and>
    (\<forall>i < MAX_EDGES. answers orc i (ep_inputs p ! i) (ep_outputs p ! i, ep_costs p ! i)) \<and>
    oracle_calls p \<le> budget \<and> exchanges p \<le> oracle_calls p \<and> (exhausted p \<longleftrightarrow> final_step p \<noteq> 0))"
  using refine_bounded_legs_run [OF assms(2,1)]
  by (fastforce simp: kept_def exchange_inv_def plan_good_def totals_ok_def)

text \<open>A two-venue oracle of diminishing returns, the second one cheaper.\<close>

definition demo_oracle :: "nat \<Rightarrow> nat \<Rightarrow> nat \<Rightarrow> (error + nat \<times> nat) \<times> nat" where
  "demo_oracle i q k = (Inr (if i = 0 then (100 * q div (q + 50), 7) else (80 * q div (q + 40), 2)), k + 1)"

lemma refinement_sound_witness:
  "case fst (refine_bounded_legs 2 100 200 100 2 demo_oracle 0) of
     Inl _ \<Rightarrow> False
   | Inr p \<Rightarrow> sum_list (ep_inputs p) = 100 \<and> ep_inputs p ! 0 < 100 \<and> oracle_calls p \<le> 200 \<and> ep_cost p \<le> 100"
proof -
  let ?r = "refine_bounded_legs 2 100 200 100 2 demo_oracle 0"
  have ok: "case fst ?r of Inl _ \<Rightarrow> False | Inr p \<Rightarrow> ep_inputs p ! 0 < 100" by code_simp
  then obtain p s' where run: "?r = (Inr p, s')" and p: "ep_inputs p ! 0 < 100"
    by (cases ?r; cases "fst ?r") auto
  show ?thesis using refinement_sound [OF _ run] p by (simp add: run)
qed

text \<open>
  \<^bold>\<open>C8.\<close> When the call budget was not used up, the refined plan is at least as good as sending the
  whole amount to any single venue that answers it consistently and within the cost limit.
\<close>

theorem refinement_beats_single_venue:
  assumes "budget < 2 ^ 32" "refine_bounded_legs edges amount budget cost_limit max_legs orc s = (Inr p, s')"
    "oracle_calls p < budget" "i < edges" "\<And>s. fst (orc i amount s) = Inr (out, c)"
    "out < 2 ^ 64" "c < 2 ^ 64" "c \<le> cost_limit"
  shows "out \<le> ep_output p"
proof -
  obtain best st1 p0 st2 where run: "0 < amount" "edges \<le> MAX_EDGES" "max_legs \<noteq> 0"
      "seeds orc edges amount budget cost_limit max_legs [1..<2 ^ edges] exact_plan_default (0, s) = (Inr best, st1)"
      "refine_loop orc edges budget cost_limit max_legs (max (amount div 2) 1) best st1 = (Inr p0, st2)"
      "kept orc edges amount cost_limit max_legs budget (ep_output best) p0 st2"
      "p = p0\<lparr>oracle_calls := fst st2, exhausted := final_step p0 \<noteq> 0\<rparr>"
    using refine_bounded_legs_run(2) [OF assms(2,1) refl] by blast
  have "fst st1 \<noteq> budget" using countingD [OF counting_refine_loop run(5)] run(7) assms(3) by simp
  moreover have "(2 :: nat) ^ i \<in> set [1..<2 ^ edges]" using assms(4) by simp
  ultimately have "out \<le> ep_output best"
    using seeds_single [where orc = orc and i = i and amount = amount and out = out and c = c, OF assms(5-7,4) run(2,1) _ assms(8) run(4)] run(3) by simp
  then show ?thesis using run(6,7) by (simp add: kept_def)
qed

lemma refinement_beats_single_venue_witness:
  "case fst (refine_bounded_legs 2 100 200 100 2 demo_oracle 0) of Inl _ \<Rightarrow> False | Inr p \<Rightarrow> 66 \<le> ep_output p"
proof -
  let ?r = "refine_bounded_legs 2 100 200 100 2 demo_oracle 0"
  have ok: "case fst ?r of Inl _ \<Rightarrow> False | Inr p \<Rightarrow> oracle_calls p < 200" by code_simp
  then obtain p s' where run: "?r = (Inr p, s')" and p: "oracle_calls p < 200"
    by (cases ?r; cases "fst ?r") auto
  have "66 \<le> ep_output p"
    by (rule refinement_beats_single_venue [OF _ run p, of 0 66 7]) (simp_all add: demo_oracle_def)
  then show ?thesis by (simp add: run)
qed

section \<open>What a cut sweep loses\<close>

text \<open>
  The module promises a best observed allocation. The sweep that the call limit cuts is left through
  \<open>break 'refine\<close>, which drops \<open>next\<close>: with ten calls the exchange to \<open>(1, 4)\<close>, worth 11, is quoted in
  full and the plan returned is the seed worth 9.
\<close>

definition late_oracle :: "nat \<Rightarrow> nat \<Rightarrow> nat \<Rightarrow> (error + nat \<times> nat) \<times> nat" where
  "late_oracle i q k = (Inr (if q = 0 then 0 else if i = 0 then 3 else if q = 4 then 8 else if q = 5 then 8 else 2 * q, 1), k + 1)"

lemma refinement_drops_observed:
  "(case fst (refine_bounded_legs 2 5 10 100 2 late_oracle 0) of Inl _ \<Rightarrow> False
    | Inr p \<Rightarrow> ep_output p = 9 \<and> exhausted p) \<and>
   (case fst (refine_bounded_legs 2 5 100 100 2 late_oracle 0) of Inl _ \<Rightarrow> False | Inr p \<Rightarrow> ep_output p = 11)"
  by code_simp

end
