(* ===== verification/Clearing.thy ===== *)
theory Clearing
  imports Kernel
begin

text \<open>
  Flow folding (\<open>clearing/mod.rs\<close>): a bounded maximum circulation of intents at fixed prices, its
  residuals, the settlement check and the distribution of observed output. An intent is an arc from
  its sold asset to its bought asset; arc \<open>2 i\<close> is intent \<open>i\<close> forward, arc \<open>2 i + 1\<close> undoes it.
\<close>

section \<open>Data\<close>

definition MAX_INTENTS :: nat where "MAX_INTENTS = 32"
definition MAX_ASSETS :: nat where "MAX_ASSETS = 8"
definition MAX_PIVOTS :: nat where "MAX_PIVOTS = 256"

lemmas clearing_bounds = MAX_INTENTS_def MAX_ASSETS_def MAX_PIVOTS_def MAX_ATOMS_def

record flow_intent =
  owner :: key
  nonce :: nat
  sell :: nat
  buy :: nat
  amount :: nat
  min_out :: nat
  expires_at_slot :: nat

record fold_fill =
  input :: nat
  fill_output :: nat

record fold_report =
  fills :: "fold_fill list"
  value_quantum :: nat
  requested_value :: nat
  internally_cleared_value :: nat
  pivots :: nat
  reverse_edge_pivots :: nat
  optimal_at_fixed_prices :: bool

record lot_fold_report =
  lot_fills :: "fold_fill list"
  lot_sizes :: "nat list"
  requested_lots :: nat
  internally_cleared_lots :: nat
  lot_pivots :: nat
  lot_reverse_edge_pivots :: nat
  optimal_at_fixed_lots :: bool

record residual_arc =
  arc_from :: nat
  arc_to :: nat
  arc_order :: nat
  arc_reverse :: bool
  arc_cap :: nat
  arc_cost :: int

definition no_fills :: "fold_fill list" where
  "no_fills = replicate MAX_INTENTS \<lparr>input = 0, fill_output = 0\<rparr>"

section \<open>The residual graph\<close>

fun gcd_u128 :: "nat \<Rightarrow> nat \<Rightarrow> nat" where
  "gcd_u128 a b = (if b = 0 then a else gcd_u128 b (a mod b))"

declare gcd_u128.simps [simp del]

definition arc :: "flow_intent list \<Rightarrow> nat list \<Rightarrow> nat list \<Rightarrow> nat \<Rightarrow> residual_arc res" where
  "arc orders capacities flows index =
     (let i = index div 2; reverse = index mod 2 = 1 in
      bindR (index_at orders i) (\<lambda>t.
      if reverse then
        bindR (index_at flows i) (\<lambda>f.
        Inr \<lparr>arc_from = buy t, arc_to = sell t, arc_order = i, arc_reverse = reverse, arc_cap = f, arc_cost = - 1\<rparr>)
      else
        bindR (index_at capacities i) (\<lambda>c. bindR (index_at flows i) (\<lambda>f. bindR (sub_w c f) (\<lambda>cap.
        Inr \<lparr>arc_from = sell t, arc_to = buy t, arc_order = i, arc_reverse = reverse, arc_cap = cap, arc_cost = 1\<rparr>)))))"

text \<open>\<open>usize::MAX\<close> marks a vertex without predecessor.\<close>

definition NO_ARC :: nat where "NO_ARC = 2 ^ 64 - 1"

type_synonym labels = "int list \<times> nat list \<times> nat option"

definition relax_arc :: "residual_arc \<Rightarrow> nat \<Rightarrow> labels \<Rightarrow> labels res" where
  "relax_arc e j = (\<lambda>(distance, previous, updated).
     if arc_cap e = 0 then Inr (distance, previous, updated)
     else
       bindR (index_at distance (arc_to e)) (\<lambda>d_to.
       bindR (index_at distance (arc_from e)) (\<lambda>d_from.
       bindR (add_i 64 d_from (arc_cost e)) (\<lambda>d.
       if d_to < d then
         bindR (store_at distance (arc_to e) d) (\<lambda>distance'.
         bindR (store_at previous (arc_to e) j) (\<lambda>previous'.
         Inr (distance', previous', Some (arc_to e))))
       else Inr (distance, previous, updated)))))"

fun relax_scan :: "flow_intent list \<Rightarrow> nat list \<Rightarrow> nat list \<Rightarrow> nat list \<Rightarrow> labels \<Rightarrow> labels metered" where
  "relax_scan orders capacities flows [] l = ret l"
| "relax_scan orders capacities flows (j # js) l =
     bindS (charge 1) (\<lambda>_.
     bindS (liftR (arc orders capacities flows j)) (\<lambda>e.
     bindS (liftR (relax_arc e j l)) (\<lambda>l'.
     relax_scan orders capacities flows js l')))"

text \<open>\<open>None\<close> is the early return: no arc improves any label.\<close>

fun relax_rounds :: "flow_intent list \<Rightarrow> nat list \<Rightarrow> nat list \<Rightarrow> nat \<Rightarrow> labels \<Rightarrow> labels option metered" where
  "relax_rounds orders capacities flows 0 l = ret (Some l)"
| "relax_rounds orders capacities flows (Suc n) l =
     bindS (case l of (distance, previous, _) \<Rightarrow>
         relax_scan orders capacities flows [0..<2 * length orders] (distance, previous, None))
       (\<lambda>(distance', previous', updated').
         if updated' = None then ret None
         else relax_rounds orders capacities flows n (distance', previous', updated'))"

definition step_back :: "flow_intent list \<Rightarrow> nat list \<Rightarrow> nat list \<Rightarrow> nat list \<Rightarrow> nat \<Rightarrow> (nat \<times> nat) res" where
  "step_back orders capacities flows previous vertex =
     bindR (index_at previous vertex) (\<lambda>j.
     if j = NO_ARC then fail Arithmetic
     else bindR (arc orders capacities flows j) (\<lambda>e. Inr (j, arc_from e)))"

fun walk_back :: "flow_intent list \<Rightarrow> nat list \<Rightarrow> nat list \<Rightarrow> nat list \<Rightarrow> nat \<Rightarrow> nat \<Rightarrow> nat res" where
  "walk_back orders capacities flows previous 0 vertex = Inr vertex"
| "walk_back orders capacities flows previous (Suc n) vertex =
     bindR (step_back orders capacities flows previous vertex) (\<lambda>(_, vertex').
     walk_back orders capacities flows previous n vertex')"

function collect_cycle ::
  "flow_intent list \<Rightarrow> nat list \<Rightarrow> nat list \<Rightarrow> nat list \<Rightarrow> nat \<Rightarrow> nat \<Rightarrow> nat \<Rightarrow> nat list \<Rightarrow> nat \<Rightarrow> (nat list \<times> nat) res"
where
  "collect_cycle orders capacities flows previous assets start vertex cycle n =
     (if assets \<le> n then fail Arithmetic
      else bindR (step_back orders capacities flows previous vertex) (\<lambda>(j, vertex').
        bindR (store_at cycle n j) (\<lambda>cycle'.
        if vertex' = start then Inr (cycle', n + 1)
        else collect_cycle orders capacities flows previous assets start vertex' cycle' (n + 1))))"
  by pat_completeness auto
termination
  by (relation "measure (\<lambda>(_, _, _, _, assets, _, _, _, n). assets - n)") auto

declare collect_cycle.simps [simp del]

definition improving_cycle ::
  "flow_intent list \<Rightarrow> nat list \<Rightarrow> nat list \<Rightarrow> nat \<Rightarrow> (nat list \<times> nat) option metered"
where
  "improving_cycle orders capacities flows assets =
     bindS (relax_rounds orders capacities flows assets
         (replicate MAX_ASSETS 0, replicate MAX_ASSETS NO_ARC, None)) (\<lambda>r.
       case r of
         None \<Rightarrow> ret None
       | Some (distance, previous, updated) \<Rightarrow>
           liftR (bindR (ok_or updated Arithmetic) (\<lambda>vertex.
             bindR (walk_back orders capacities flows previous assets vertex) (\<lambda>start.
             bindR (collect_cycle orders capacities flows previous assets start start (replicate MAX_ASSETS 0) 0)
               (\<lambda>cycle. Inr (Some cycle))))))"

section \<open>Pivots\<close>

text \<open>The bottleneck, the gain and whether a reverse arc is used.\<close>

fun cycle_scan ::
  "flow_intent list \<Rightarrow> nat list \<Rightarrow> nat list \<Rightarrow> nat list \<Rightarrow> nat \<times> int \<times> bool \<Rightarrow> (nat \<times> int \<times> bool) res"
where
  "cycle_scan orders capacities flows [] acc = Inr acc"
| "cycle_scan orders capacities flows (j # js) (delta, cost, reverse) =
     bindR (arc orders capacities flows j) (\<lambda>e.
     bindR (add_i 64 cost (arc_cost e)) (\<lambda>cost'.
     cycle_scan orders capacities flows js (min delta (arc_cap e), cost', reverse \<or> arc_reverse e)))"

fun push_cycle :: "flow_intent list \<Rightarrow> nat list \<Rightarrow> nat \<Rightarrow> nat list \<Rightarrow> nat list \<Rightarrow> nat list res" where
  "push_cycle orders capacities delta [] flows = Inr flows"
| "push_cycle orders capacities delta (j # js) flows =
     bindR (arc orders capacities flows j) (\<lambda>e.
     bindR (index_at flows (arc_order e)) (\<lambda>f.
     bindR (if arc_reverse e then sub_w f delta else add_w 128 f delta) (\<lambda>f'.
     bindR (store_at flows (arc_order e) f') (\<lambda>flows'.
     push_cycle orders capacities delta js flows'))))"

record pivot_state =
  ps_flows :: "nat list"
  ps_pivots :: nat
  ps_reverse :: nat
  ps_optimal :: bool

definition pivot :: "flow_intent list \<Rightarrow> nat list \<Rightarrow> nat list \<times> nat \<Rightarrow> pivot_state \<Rightarrow> pivot_state res" where
  "pivot orders capacities = (\<lambda>(cycle, len) s.
     let js = take len cycle in
     bindR (cycle_scan orders capacities (ps_flows s) js (2 ^ 128 - 1, 0, False)) (\<lambda>(delta, cost, reverse).
     if cost \<le> 0 \<or> delta = 0 then fail Arithmetic
     else
       bindR (push_cycle orders capacities delta js (ps_flows s)) (\<lambda>flows.
       bindR (add_w 16 (ps_pivots s) 1) (\<lambda>p.
       bindR (add_w 16 (ps_reverse s) (of_bool reverse)) (\<lambda>q.
       Inr (s\<lparr>ps_flows := flows, ps_pivots := p, ps_reverse := q\<rparr>))))))"

fun pivot_loop :: "flow_intent list \<Rightarrow> nat list \<Rightarrow> nat \<Rightarrow> nat \<Rightarrow> pivot_state \<Rightarrow> pivot_state metered" where
  "pivot_loop orders capacities assets 0 s = ret s"
| "pivot_loop orders capacities assets (Suc n) s =
     bindS (improving_cycle orders capacities (ps_flows s) assets) (\<lambda>r.
       case r of
         None \<Rightarrow> ret (s\<lparr>ps_optimal := True\<rparr>)
       | Some cycle \<Rightarrow> bindS (liftR (pivot orders capacities cycle s)) (\<lambda>s'.
           pivot_loop orders capacities assets n s'))"

definition run_pivots :: "flow_intent list \<Rightarrow> nat list \<Rightarrow> nat \<Rightarrow> nat \<Rightarrow> pivot_state metered" where
  "run_pivots orders capacities assets max_pivots =
     bindS (pivot_loop orders capacities assets max_pivots
         \<lparr>ps_flows = replicate MAX_INTENTS 0, ps_pivots = 0, ps_reverse = 0, ps_optimal = False\<rparr>) (\<lambda>s.
       if ps_optimal s then ret s
       else bindS (improving_cycle orders capacities (ps_flows s) assets) (\<lambda>r.
         ret (s\<lparr>ps_optimal := r = None\<rparr>)))"

section \<open>Folding at fixed prices\<close>

fun price_quantum :: "nat list \<Rightarrow> nat \<Rightarrow> nat res" where
  "price_quantum [] quantum = Inr quantum"
| "price_quantum (p # ps) quantum =
     (if p = 0 \<or> 1000000000000 < p then fail InvalidAmount
      else bindR (div_w quantum (gcd_u128 quantum p)) (\<lambda>k.
        bindR (ok_or (checked_mul 128 k p) Arithmetic) (\<lambda>quantum'.
        price_quantum ps quantum')))"

text \<open>The admission of one intent, common to the two folds.\<close>

definition check_intent :: "flow_intent list \<Rightarrow> nat \<Rightarrow> nat \<Rightarrow> nat \<Rightarrow> flow_intent \<Rightarrow> unit res" where
  "check_intent orders assets slot i t =
     (if sell t = buy t \<or> assets \<le> sell t \<or> assets \<le> buy t \<or> amount t = 0 \<or> MAX_ATOMS < amount t
          \<or> MAX_ATOMS < min_out t then fail InvalidAmount
      else if expires_at_slot t < slot then fail Expired
      else if list_ex (\<lambda>a. owner a = owner t \<and> nonce a = nonce t) (take i orders) then fail Duplicate
      else Inr ())"

fun fold_admit ::
  "flow_intent list \<Rightarrow> nat list \<Rightarrow> nat \<Rightarrow> nat \<Rightarrow> nat list \<Rightarrow> nat list \<times> nat \<Rightarrow> (nat list \<times> nat) res"
where
  "fold_admit orders prices quantum slot [] acc = Inr acc"
| "fold_admit orders prices quantum slot (i # is) (capacities, requested) =
     bindR (index_at orders i) (\<lambda>t.
     bindR (check_intent orders (length prices) slot i t) (\<lambda>_.
     bindR (index_at prices (sell t)) (\<lambda>p_sell.
     bindR (index_at prices (buy t)) (\<lambda>p_buy.
     bindR (mul_w 128 (amount t) p_sell) (\<lambda>value.
     bindR (add_w 128 requested value) (\<lambda>requested'.
     bindR (mul_w 128 (min_out t) p_buy) (\<lambda>floor.
     bindR (if floor \<le> value
            then bindR (div_w value quantum) (\<lambda>c. store_at capacities i c)
            else Inr capacities) (\<lambda>capacities'.
     fold_admit orders prices quantum slot is (capacities', requested')))))))))"

text \<open>The postconditions of one fill, common to the two folds.\<close>

definition check_fill :: "flow_intent \<Rightarrow> fold_fill \<Rightarrow> unit res" where
  "check_fill t f =
     (if amount t < input f then fail BalanceInvariant
      else bindR (mul_w 128 (fill_output f) (amount t)) (\<lambda>got.
        bindR (mul_w 128 (input f) (min_out t)) (\<lambda>wanted.
        guardR (wanted \<le> got) BalanceInvariant)))"

record fill_totals =
  ft_fills :: "fold_fill list"
  ft_cleared :: nat
  ft_debit :: "nat list"
  ft_credit :: "nat list"

definition no_totals :: fill_totals where
  "no_totals = \<lparr>ft_fills = no_fills, ft_cleared = 0, ft_debit = replicate MAX_ASSETS 0,
     ft_credit = replicate MAX_ASSETS 0\<rparr>"

definition add_to :: "nat list \<Rightarrow> nat \<Rightarrow> nat \<Rightarrow> nat list res" where
  "add_to xs a v = bindR (index_at xs a) (\<lambda>x. bindR (add_w 128 x v) (\<lambda>y. store_at xs a y))"

fun fold_fills ::
  "flow_intent list \<Rightarrow> nat list \<Rightarrow> nat \<Rightarrow> nat list \<Rightarrow> nat list \<Rightarrow> fill_totals \<Rightarrow> fill_totals res"
where
  "fold_fills orders prices quantum flows [] acc = Inr acc"
| "fold_fills orders prices quantum flows (i # is) acc =
     bindR (index_at orders i) (\<lambda>t.
     bindR (index_at flows i) (\<lambda>flow.
     bindR (ok_or (checked_mul 128 flow quantum) Arithmetic) (\<lambda>value.
     bindR (bindR (index_at prices (sell t)) (\<lambda>p. bindR (div_w value p) as_u64)) (\<lambda>inp.
     bindR (bindR (index_at prices (buy t)) (\<lambda>p. bindR (div_w value p) as_u64)) (\<lambda>out.
     let f = \<lparr>input = inp, fill_output = out\<rparr> in
     bindR (check_fill t f) (\<lambda>_.
     bindR (store_at (ft_fills acc) i f) (\<lambda>fs.
     bindR (add_w 128 (ft_cleared acc) value) (\<lambda>cleared.
     bindR (add_to (ft_debit acc) (sell t) inp) (\<lambda>debit.
     bindR (add_to (ft_credit acc) (buy t) out) (\<lambda>credit.
     fold_fills orders prices quantum flows is
       \<lparr>ft_fills = fs, ft_cleared = cleared, ft_debit = debit, ft_credit = credit\<rparr>))))))))))"

text \<open>The fills and the report of the final flows.\<close>

definition price_report ::
  "flow_intent list \<Rightarrow> nat list \<Rightarrow> nat \<Rightarrow> nat \<Rightarrow> pivot_state \<Rightarrow> fold_report res"
where
  "price_report orders prices quantum requested s =
     bindR (fold_fills orders prices quantum (ps_flows s) [0..<length orders] no_totals) (\<lambda>totals.
     if ft_debit totals \<noteq> ft_credit totals then fail BalanceInvariant
     else Inr \<lparr>fills = ft_fills totals, value_quantum = quantum, requested_value = requested,
            internally_cleared_value = ft_cleared totals, pivots = ps_pivots s,
            reverse_edge_pivots = ps_reverse s, optimal_at_fixed_prices = ps_optimal s\<rparr>)"

definition fold_flow :: "flow_intent list \<Rightarrow> nat list \<Rightarrow> nat \<Rightarrow> nat \<Rightarrow> fold_report metered" where
  "fold_flow orders prices slot max_pivots =
     (if orders = [] \<or> MAX_INTENTS < length orders \<or> length prices < 2 \<or> MAX_ASSETS < length prices
          \<or> MAX_PIVOTS < max_pivots
      then liftR (fail Bounds)
      else
        bindS (liftR (price_quantum prices 1)) (\<lambda>quantum.
        bindS (liftR (fold_admit orders prices quantum slot [0..<length orders] (replicate MAX_INTENTS 0, 0)))
          (\<lambda>(capacities, requested).
        bindS (run_pivots orders capacities (length prices) max_pivots) (\<lambda>s.
        liftR (price_report orders prices quantum requested s)))))"

section \<open>Folding on asset lots\<close>

fun lot_admit ::
  "flow_intent list \<Rightarrow> nat list \<Rightarrow> nat \<Rightarrow> nat list \<Rightarrow> nat list \<times> nat \<Rightarrow> (nat list \<times> nat) res"
where
  "lot_admit orders lots slot [] acc = Inr acc"
| "lot_admit orders lots slot (i # is) (capacities, requested) =
     bindR (index_at orders i) (\<lambda>t.
     bindR (check_intent orders (length lots) slot i t) (\<lambda>_.
     bindR (index_at lots (sell t)) (\<lambda>sell_lot.
     bindR (index_at lots (buy t)) (\<lambda>buy_lot.
     bindR (div_w (amount t) sell_lot) (\<lambda>wanted.
     bindR (ok_or (checked_add 128 requested wanted) Arithmetic) (\<lambda>requested'.
     bindR (mul_w 128 buy_lot (amount t)) (\<lambda>got.
     bindR (mul_w 128 sell_lot (min_out t)) (\<lambda>floor.
     bindR (if floor \<le> got then store_at capacities i wanted else Inr capacities) (\<lambda>capacities'.
     lot_admit orders lots slot is (capacities', requested'))))))))))"

fun fold_lot_fills ::
  "flow_intent list \<Rightarrow> nat list \<Rightarrow> nat list \<Rightarrow> nat list \<Rightarrow> fill_totals \<Rightarrow> fill_totals res"
where
  "fold_lot_fills orders lots flows [] acc = Inr acc"
| "fold_lot_fills orders lots flows (i # is) acc =
     bindR (index_at orders i) (\<lambda>t.
     bindR (index_at flows i) (\<lambda>n.
     bindR (bindR (index_at lots (sell t)) (\<lambda>p. ok_or (checked_mul 128 n p) Arithmetic)) (\<lambda>inp.
     bindR (bindR (index_at lots (buy t)) (\<lambda>p. ok_or (checked_mul 128 n p) Arithmetic)) (\<lambda>out.
     bindR (as_u64 inp) (\<lambda>inp64.
     bindR (as_u64 out) (\<lambda>out64.
     let f = \<lparr>input = inp64, fill_output = out64\<rparr> in
     bindR (check_fill t f) (\<lambda>_.
     bindR (store_at (ft_fills acc) i f) (\<lambda>fs.
     bindR (ok_or (checked_add 128 (ft_cleared acc) n) Arithmetic) (\<lambda>cleared.
     bindR (add_to (ft_debit acc) (sell t) inp) (\<lambda>debit.
     bindR (add_to (ft_credit acc) (buy t) out) (\<lambda>credit.
     fold_lot_fills orders lots flows is
       \<lparr>ft_fills = fs, ft_cleared = cleared, ft_debit = debit, ft_credit = credit\<rparr>)))))))))))"

definition lot_report :: "flow_intent list \<Rightarrow> nat list \<Rightarrow> nat \<Rightarrow> pivot_state \<Rightarrow> lot_fold_report res" where
  "lot_report orders lots requested s =
     bindR (fold_lot_fills orders lots (ps_flows s) [0..<length orders] no_totals) (\<lambda>totals.
     if ft_debit totals \<noteq> ft_credit totals then fail BalanceInvariant
     else Inr \<lparr>lot_fills = ft_fills totals, lot_sizes = lots @ replicate (MAX_ASSETS - length lots) 0,
            requested_lots = requested, internally_cleared_lots = ft_cleared totals,
            lot_pivots = ps_pivots s, lot_reverse_edge_pivots = ps_reverse s,
            optimal_at_fixed_lots = ps_optimal s\<rparr>)"

definition fold_lots :: "flow_intent list \<Rightarrow> nat list \<Rightarrow> nat \<Rightarrow> nat \<Rightarrow> lot_fold_report metered" where
  "fold_lots orders lots slot max_pivots =
     (if orders = [] \<or> MAX_INTENTS < length orders \<or> length lots < 2 \<or> MAX_ASSETS < length lots
          \<or> MAX_PIVOTS < max_pivots \<or> list_ex (\<lambda>l. l = 0 \<or> MAX_ATOMS < l) lots
      then liftR (fail Bounds)
      else
        bindS (liftR (lot_admit orders lots slot [0..<length orders] (replicate MAX_INTENTS 0, 0)))
          (\<lambda>(capacities, requested).
        bindS (run_pivots orders capacities (length lots) max_pivots) (\<lambda>s.
        liftR (lot_report orders lots requested s))))"

end
