(* ===== verification/Settlement.thy ===== *)
theory Settlement
  imports Clearing
begin

text \<open>
  After the fold (\<open>clearing/mod.rs\<close>): validation of a fold report, grouping of the residual intents by
  pair, distribution of the output observed for a group, and the final settlement check. A member
  set is a \<open>u32\<close> mask.
\<close>

section \<open>Validation of reports\<close>

type_synonym flows_at = "nat list \<times> nat list"

definition tally :: "flow_intent \<Rightarrow> fold_fill \<Rightarrow> flows_at \<Rightarrow> flows_at res" where
  "tally t f = (\<lambda>(debit, credit).
     bindR (add_to debit (sell t) (input f)) (\<lambda>debit'.
     bindR (add_to credit (buy t) (fill_output f)) (\<lambda>credit'. Inr (debit', credit'))))"

definition fill_below_floor :: "flow_intent \<Rightarrow> fold_fill \<Rightarrow> bool res" where
  "fill_below_floor t f =
     bindR (mul_w 128 (fill_output f) (amount t)) (\<lambda>got.
     bindR (mul_w 128 (input f) (min_out t)) (\<lambda>wanted. Inr (got < wanted)))"

definition validate_entry :: "flow_intent \<Rightarrow> fold_fill \<Rightarrow> unit res" where
  "validate_entry t f =
     (if MAX_ASSETS \<le> sell t \<or> MAX_ASSETS \<le> buy t \<or> sell t = buy t \<or> amount t = 0 \<or> amount t < input f
         \<or> (input f = 0 \<and> fill_output f \<noteq> 0)
      then fail BalanceInvariant
      else bindR (fill_below_floor t f) (\<lambda>low. guardR (\<not> low) BalanceInvariant))"

fun validate_entries :: "flow_intent list \<Rightarrow> fold_fill list \<Rightarrow> nat list \<Rightarrow> flows_at \<Rightarrow> flows_at res" where
  "validate_entries orders fs [] acc = Inr acc"
| "validate_entries orders fs (i # is) acc =
     bindR (index_at orders i) (\<lambda>t.
     bindR (index_at fs i) (\<lambda>f.
     bindR (validate_entry t f) (\<lambda>_.
     bindR (tally t f acc) (\<lambda>acc'.
     validate_entries orders fs is acc'))))"

definition no_flows :: flows_at where
  "no_flows = (replicate MAX_ASSETS 0, replicate MAX_ASSETS 0)"

definition validate_fold :: "flow_intent list \<Rightarrow> fold_report \<Rightarrow> unit res" where
  "validate_fold orders report =
     (if MAX_INTENTS < length orders then fail Bounds
      else bindR (validate_entries orders (fills report) [0..<length orders] no_flows) (\<lambda>(debit, credit).
        guardR (debit = credit) BalanceInvariant))"

definition validate_lot_entry :: "nat list \<Rightarrow> flow_intent \<Rightarrow> fold_fill \<Rightarrow> nat res" where
  "validate_lot_entry lots t f =
     (if MAX_ASSETS \<le> sell t \<or> MAX_ASSETS \<le> buy t \<or> sell t = buy t \<or> amount t = 0 then fail BalanceInvariant
      else bindR (index_at lots (sell t)) (\<lambda>sell_lot. bindR (index_at lots (buy t)) (\<lambda>buy_lot.
        if sell_lot = 0 \<or> buy_lot = 0 \<or> amount t < input f \<or> (input f = 0 \<and> fill_output f \<noteq> 0)
           \<or> input f mod sell_lot \<noteq> 0 \<or> fill_output f mod buy_lot \<noteq> 0
           \<or> input f div sell_lot \<noteq> fill_output f div buy_lot
        then fail BalanceInvariant
        else bindR (fill_below_floor t f) (\<lambda>low.
          if low then fail BalanceInvariant else Inr (input f div sell_lot)))))"

fun validate_lot_entries ::
  "flow_intent list \<Rightarrow> lot_fold_report \<Rightarrow> nat list \<Rightarrow> nat \<times> flows_at \<Rightarrow> (nat \<times> flows_at) res"
where
  "validate_lot_entries orders report [] acc = Inr acc"
| "validate_lot_entries orders report (i # is) (cleared, acc) =
     bindR (index_at (lot_fills report) i) (\<lambda>f.
     bindR (index_at orders i) (\<lambda>t.
     bindR (validate_lot_entry (lot_sizes report) t f) (\<lambda>n.
     bindR (ok_or (checked_add 128 cleared n) Arithmetic) (\<lambda>cleared'.
     bindR (tally t f acc) (\<lambda>acc'.
     validate_lot_entries orders report is (cleared', acc'))))))"

definition validate_lot_fold :: "flow_intent list \<Rightarrow> lot_fold_report \<Rightarrow> unit res" where
  "validate_lot_fold orders report =
     (if MAX_INTENTS < length orders then fail Bounds
      else bindR (validate_lot_entries orders report [0..<length orders] (0, no_flows))
        (\<lambda>(cleared, debit, credit).
        guardR (debit = credit \<and> cleared = internally_cleared_lots report) BalanceInvariant))"

section \<open>Residual groups\<close>

record residual_group =
  g_sell :: nat
  g_buy :: nat
  g_amount_in :: nat
  g_min_out :: nat
  g_members :: nat

definition group_default :: residual_group where
  "group_default = \<lparr>g_sell = 0, g_buy = 0, g_amount_in = 0, g_min_out = 0, g_members = 0\<rparr>"

text \<open>The \<open>len\<close> groups in use; the rest of the array holds \<open>group_default\<close>.\<close>

type_synonym residuals = "residual_group list"

fun find_group :: "residual_group list \<Rightarrow> flow_intent \<Rightarrow> nat option" where
  "find_group [] t = None"
| "find_group (g # gs) t =
     (if g_sell g = sell t \<and> g_buy g = buy t then Some 0 else map_option Suc (find_group gs t))"

definition join_group :: "nat \<Rightarrow> flow_intent \<Rightarrow> nat \<Rightarrow> nat \<Rightarrow> residual_group \<Rightarrow> residual_group res" where
  "join_group i t left got g =
     bindR (ok_or (checked_add 64 (g_amount_in g) left) Arithmetic) (\<lambda>a.
     if MAX_ATOMS < a then fail InvalidAmount
     else bindR (ok_or (checked_add 64 (g_min_out g) (min_out t - got)) Arithmetic) (\<lambda>m.
       Inr (g\<lparr>g_amount_in := a, g_min_out := m, g_members := or (g_members g) (2 ^ i)\<rparr>)))"

definition add_residual :: "nat \<Rightarrow> flow_intent \<Rightarrow> nat \<Rightarrow> nat \<Rightarrow> residuals \<Rightarrow> residuals res" where
  "add_residual i t left got gs =
     (case find_group gs t of
        Some j \<Rightarrow> bindR (join_group i t left got (gs ! j)) (\<lambda>g. Inr (gs[j := g]))
      | None \<Rightarrow>
          if length gs = MAX_EDGES then fail Bounds
          else bindR (join_group i t left got (group_default\<lparr>g_sell := sell t, g_buy := buy t\<rparr>))
            (\<lambda>g. Inr (gs @ [g])))"

fun residual_loop :: "flow_intent list \<Rightarrow> fold_fill list \<Rightarrow> nat list \<Rightarrow> residuals \<Rightarrow> residuals res" where
  "residual_loop orders fs [] gs = Inr gs"
| "residual_loop orders fs (i # is) gs =
     bindR (index_at orders i) (\<lambda>t.
     bindR (index_at fs i) (\<lambda>f.
     bindR (ok_or (checked_sub (amount t) (input f)) BalanceInvariant) (\<lambda>left.
     if left = 0 then
       (if fill_output f < min_out t then fail MinOut else residual_loop orders fs is gs)
     else bindR (add_residual i t left (fill_output f) gs) (\<lambda>gs'. residual_loop orders fs is gs'))))"

definition build_residuals :: "flow_intent list \<Rightarrow> fold_fill list \<Rightarrow> residuals res" where
  "build_residuals orders fs = residual_loop orders fs [0..<length orders] []"

definition residuals :: "flow_intent list \<Rightarrow> fold_report \<Rightarrow> residuals res" where
  "residuals orders report =
     (if MAX_INTENTS < length orders then fail Bounds
      else bindR (validate_fold orders report) (\<lambda>_. build_residuals orders (fills report)))"

definition residuals_lots :: "flow_intent list \<Rightarrow> lot_fold_report \<Rightarrow> residuals res" where
  "residuals_lots orders report =
     (if MAX_INTENTS < length orders then fail Bounds
      else bindR (validate_lot_fold orders report) (\<lambda>_. build_residuals orders (lot_fills report)))"

section \<open>The settlement check\<close>

fun settle_loop ::
  "flow_intent list \<Rightarrow> nat list \<Rightarrow> nat list \<Rightarrow> nat list \<Rightarrow> int list \<Rightarrow> int list res"
where
  "settle_loop orders debits credits [] net = Inr net"
| "settle_loop orders debits credits (i # is) net =
     bindR (index_at orders i) (\<lambda>t.
     bindR (index_at debits i) (\<lambda>d.
     bindR (index_at credits i) (\<lambda>c.
     if MAX_ASSETS \<le> sell t \<or> MAX_ASSETS \<le> buy t \<or> sell t = buy t \<or> d \<noteq> amount t then fail BalanceInvariant
     else if c < min_out t then fail MinOut
     else
       bindR (index_at net (sell t)) (\<lambda>x.
       bindR (ok_or (checked_i 128 (x + int d)) Arithmetic) (\<lambda>x'.
       bindR (store_at net (sell t) x') (\<lambda>net'.
       bindR (index_at net' (buy t)) (\<lambda>y.
       bindR (ok_or (checked_i 128 (y - int c)) Arithmetic) (\<lambda>y'.
       bindR (store_at net' (buy t) y') (\<lambda>net''.
       settle_loop orders debits credits is net'')))))))))"

definition verify_settlement ::
  "flow_intent list \<Rightarrow> nat list \<Rightarrow> nat list \<Rightarrow> int list \<Rightarrow> unit res"
where
  "verify_settlement orders debits credits external_delta =
     (if MAX_INTENTS < length orders \<or> length orders \<noteq> length debits \<or> length orders \<noteq> length credits
      then fail Bounds
      else bindR (settle_loop orders debits credits [0..<length orders] external_delta) (\<lambda>net.
        guardR (net = replicate MAX_ASSETS 0) BalanceInvariant))"

section \<open>Distribution of observed output\<close>

record shares =
  sh_out :: "nat list"
  sh_allocated :: nat
  sh_first :: "nat option"

text \<open>The lexicographic order on (owner, nonce).\<close>

definition ticket_less :: "flow_intent \<Rightarrow> flow_intent \<Rightarrow> bool" where
  "ticket_less a b \<longleftrightarrow> owner a < owner b \<or> (owner a = owner b \<and> nonce a < nonce b)"

fun share_loop ::
  "flow_intent list \<Rightarrow> fold_fill list \<Rightarrow> residual_group \<Rightarrow> nat \<Rightarrow> nat list \<Rightarrow> shares \<Rightarrow> shares res"
where
  "share_loop orders fs g surplus [] acc = Inr acc"
| "share_loop orders fs g surplus (i # is) acc =
     (if \<not> bit (g_members g) i then share_loop orders fs g surplus is acc
      else
        bindR (index_at orders i) (\<lambda>t.
        bindR (index_at fs i) (\<lambda>f.
        bindR (sub_w (amount t) (input f)) (\<lambda>left.
        bindR (mul_w 128 surplus left) (\<lambda>scaled.
        bindR (bindR (div_w scaled (g_amount_in g)) as_u64) (\<lambda>part.
        bindR (ok_or (checked_add 64 (min_out t - fill_output f) part) Arithmetic) (\<lambda>mine.
        bindR (store_at (sh_out acc) i mine) (\<lambda>out.
        bindR (ok_or (checked_add 64 (sh_allocated acc) mine) Arithmetic) (\<lambda>allocated.
        bindR (case sh_first acc of None \<Rightarrow> Inr (Some i)
               | Some j \<Rightarrow> bindR (index_at orders j) (\<lambda>b.
                   Inr (if ticket_less t b then Some i else Some j))) (\<lambda>first.
        share_loop orders fs g surplus is
          \<lparr>sh_out = out, sh_allocated = allocated, sh_first = first\<rparr>))))))))))"

definition distribute :: "flow_intent list \<Rightarrow> fold_report \<Rightarrow> residual_group \<Rightarrow> nat \<Rightarrow> nat list res" where
  "distribute orders folded g observed =
     bindR (residuals orders folded) (\<lambda>expected.
     if g \<notin> set expected then fail Identity
     else if observed < g_min_out g then fail MinOut
     else
       bindR (share_loop orders (fills folded) g (observed - g_min_out g) [0..<length orders]
           \<lparr>sh_out = replicate MAX_INTENTS 0, sh_allocated = 0, sh_first = None\<rparr>) (\<lambda>acc.
       bindR (ok_or (checked_sub observed (sh_allocated acc)) BalanceInvariant) (\<lambda>dust.
       bindR (ok_or (sh_first acc) Bounds) (\<lambda>i.
       bindR (index_at (sh_out acc) i) (\<lambda>x.
       bindR (add_w 64 x dust) (\<lambda>y.
       store_at (sh_out acc) i y))))))"

end
