(* ===== verification/Cycles.thy ===== *)
theory Cycles
  imports Clearing
begin

text \<open>
  The in-place Bellman-Ford search of \<open>improving_cycle\<close> is exact: apart from an exhausted budget it
  either proves that no residual cycle gains, by potentials, or returns a simple residual cycle of
  positive gain. A ghost function \<open>L\<close> records the round in which a label last changed.
\<close>

section \<open>The residual graph\<close>

definition tail :: "flow_intent list \<Rightarrow> nat \<Rightarrow> nat" where
  "tail orders j = (if odd j then buy (orders ! (j div 2)) else sell (orders ! (j div 2)))"

definition head :: "flow_intent list \<Rightarrow> nat \<Rightarrow> nat" where
  "head orders j = (if odd j then sell (orders ! (j div 2)) else buy (orders ! (j div 2)))"

definition gain :: "nat \<Rightarrow> int" where
  "gain j = (if odd j then - 1 else 1)"

definition room :: "nat list \<Rightarrow> nat list \<Rightarrow> nat \<Rightarrow> nat" where
  "room capacities flows j =
     (if odd j then flows ! (j div 2) else capacities ! (j div 2) - flows ! (j div 2))"

text \<open>Intents between distinct known assets, flows within capacities.\<close>

definition graph_ok :: "flow_intent list \<Rightarrow> nat list \<Rightarrow> nat list \<Rightarrow> nat \<Rightarrow> bool" where
  "graph_ok orders capacities flows assets \<longleftrightarrow>
     length orders \<le> MAX_INTENTS \<and> assets \<le> MAX_ASSETS \<and>
     length capacities = MAX_INTENTS \<and> length flows = MAX_INTENTS \<and>
     (\<forall>i < length orders. sell (orders ! i) < assets \<and> buy (orders ! i) < assets \<and>
        sell (orders ! i) \<noteq> buy (orders ! i) \<and> flows ! i \<le> capacities ! i \<and> capacities ! i < 2 ^ 127)"

lemma half_less: "j < 2 * n \<Longrightarrow> j div 2 < (n :: nat)"
  by linarith

lemma arc_ok:
  assumes "graph_ok orders capacities flows assets" "j < 2 * length orders"
  shows "arc orders capacities flows j = Inr
    \<lparr>arc_from = tail orders j, arc_to = head orders j, arc_order = j div 2, arc_reverse = odd j,
     arc_cap = room capacities flows j, arc_cost = gain j\<rparr>"
proof -
  have i: "j div 2 < length orders" using assms(2) by (rule half_less)
  then have "j div 2 < MAX_INTENTS" "flows ! (j div 2) \<le> capacities ! (j div 2)"
    using assms(1) unfolding graph_ok_def by (meson less_le_trans)+
  then show ?thesis using assms(1) i
    by (simp add: arc_def Let_def sub_w_ok tail_def head_def gain_def room_def graph_ok_def odd_iff_mod_2_eq_one)
qed

lemma arc_ends:
  assumes "graph_ok orders capacities flows assets" "j < 2 * length orders"
  shows "tail orders j < assets" "head orders j < assets" "tail orders j \<noteq> head orders j"
  using assms half_less [OF assms(2)] by (auto simp: graph_ok_def tail_def head_def)

section \<open>Labels\<close>

type_synonym rounds_of = "nat \<Rightarrow> nat"

definition label_ok ::
  "flow_intent list \<Rightarrow> nat list \<Rightarrow> nat list \<Rightarrow> nat \<Rightarrow> int list \<Rightarrow> nat list \<Rightarrow> rounds_of \<Rightarrow> nat \<Rightarrow> bool"
where
  "label_ok orders capacities flows k d p L v \<longleftrightarrow>
     L v \<le> k \<and> (p ! v = NO_ARC \<longleftrightarrow> L v = 0) \<and>
     (0 < L v \<longrightarrow> p ! v < 2 * length orders \<and> head orders (p ! v) = v \<and> 0 < room capacities flows (p ! v) \<and>
        d ! v \<le> d ! tail orders (p ! v) + gain (p ! v) \<and> L v \<le> L (tail orders (p ! v)) + 1)"

definition settled :: "flow_intent list \<Rightarrow> nat list \<Rightarrow> nat list \<Rightarrow> int list \<Rightarrow> nat \<Rightarrow> bool" where
  "settled orders capacities flows d j \<longleftrightarrow>
     (0 < room capacities flows j \<longrightarrow> d ! tail orders j + gain j \<le> d ! head orders j)"

fun pred_walk :: "flow_intent list \<Rightarrow> nat list \<Rightarrow> nat \<Rightarrow> nat list \<Rightarrow> nat \<Rightarrow> bool" where
  "pred_walk orders p v [] w = (v = w)"
| "pred_walk orders p v (j # js) w = (p ! v = j \<and> j \<noteq> NO_ARC \<and> pred_walk orders p (tail orders j) js w)"

definition total_gain :: "nat list \<Rightarrow> int" where
  "total_gain js = sum_list (map gain js)"

definition pred_positive :: "flow_intent list \<Rightarrow> nat \<Rightarrow> nat list \<Rightarrow> bool" where
  "pred_positive orders assets p \<longleftrightarrow>
     (\<forall>v js. v < assets \<longrightarrow> js \<noteq> [] \<longrightarrow> pred_walk orders p v js v \<longrightarrow> 0 < total_gain js)"

text \<open>Round \<open>k\<close>, the first \<open>q\<close> arcs scanned, at most \<open>c\<close> arcs scanned so far.\<close>

definition bf_inv ::
  "flow_intent list \<Rightarrow> nat list \<Rightarrow> nat list \<Rightarrow> nat \<Rightarrow> nat \<Rightarrow> nat \<Rightarrow> nat \<Rightarrow> labels \<Rightarrow> rounds_of \<Rightarrow> bool"
where
  "bf_inv orders capacities flows assets k q c = (\<lambda>(d, p, u) L.
     length d = MAX_ASSETS \<and> length p = MAX_ASSETS \<and>
     (\<forall>v < assets. 0 \<le> d ! v \<and> d ! v \<le> int c) \<and>
     (\<forall>v < assets. label_ok orders capacities flows k d p L v) \<and>
     (\<forall>j < 2 * length orders. L (tail orders j) + (if j < q then 1 else 2) \<le> k \<longrightarrow> settled orders capacities flows d j) \<and>
     (case u of None \<Rightarrow> \<forall>v < assets. L v < k | Some v \<Rightarrow> v < assets \<and> L v = k) \<and>
     pred_positive orders assets p)"

lemma pred_walk_potential:
  assumes "\<And>v. v < assets \<Longrightarrow> p ! v \<noteq> NO_ARC \<Longrightarrow> d v \<le> d (tail orders (p ! v)) + gain (p ! v)"
    and "\<And>v. v < assets \<Longrightarrow> p ! v \<noteq> NO_ARC \<Longrightarrow> tail orders (p ! v) < assets"
  shows "v < assets \<Longrightarrow> pred_walk orders p v js w \<Longrightarrow> d v \<le> d w + total_gain js"
proof (induction js arbitrary: v)
  case (Cons j js)
  then have "d (tail orders j) \<le> d w + total_gain js" using assms(2) [of v] by auto
  then show ?case using assms(1) [of v] Cons.prems by (auto simp: total_gain_def)
qed (simp add: total_gain_def)

lemma pred_walk_strict:
  assumes pot: "\<And>v. v < assets \<Longrightarrow> p ! v \<noteq> NO_ARC \<Longrightarrow> d v \<le> d (tail orders (p ! v)) + gain (p ! v)"
    and inside: "\<And>v. v < assets \<Longrightarrow> p ! v \<noteq> NO_ARC \<Longrightarrow> tail orders (p ! v) < assets"
    and strict: "d x < d (tail orders (p ! x)) + gain (p ! x)"
    and other: "\<And>v. v \<noteq> x \<Longrightarrow> p' ! v = p ! v"
  shows "v < assets \<Longrightarrow> pred_walk orders p v js w \<Longrightarrow>
    pred_walk orders p' v js w \<or> d v < d w + total_gain js"
proof (induction js arbitrary: v)
  case (Cons j js)
  have j: "p ! v = j" "j \<noteq> NO_ARC" and walk: "pred_walk orders p (tail orders j) js w" and t: "tail orders j < assets"
    using Cons.prems inside [of v] by auto
  note rest = pred_walk_potential [where d = d, OF pot inside t walk]
  show ?case
  proof (cases "v = x")
    case True
    then show ?thesis using strict rest j by (auto simp: total_gain_def)
  next
    case False
    then show ?thesis using Cons.IH [OF t walk] pot [OF Cons.prems(1)] j other [of v]
      by (auto simp: total_gain_def)
  qed
qed simp

lemma bf_skip:
  assumes "bf_inv orders capacities flows assets k j c l L" "settled orders capacities flows (fst l) j"
  shows "bf_inv orders capacities flows assets k (Suc j) (Suc c) l L"
proof -
  obtain d p u where l: "l = (d, p, u)" by (cases l)
  have "settled orders capacities flows d i"
    if "i < 2 * length orders" "L (tail orders i) + (if i < Suc j then 1 else 2) \<le> k" for i
  proof (cases "i = j")
    case True
    then show ?thesis using assms(2) l by simp
  next
    case False
    then have "(if i < Suc j then 1 else 2 :: nat) = (if i < j then 1 else 2)" by simp
    then show ?thesis using assms(1) that unfolding bf_inv_def l by auto
  qed
  moreover have "\<forall>v < assets. 0 \<le> d ! v \<and> d ! v \<le> int (Suc c)"
    using assms(1) by (force simp: bf_inv_def l)
  ultimately show ?thesis using assms(1) by (simp add: bf_inv_def l del: of_nat_Suc)
qed

lemma label_update:
  assumes old: "\<And>v. v < assets \<Longrightarrow> label_ok orders capacities flows k d p L v"
    and len: "length d = MAX_ASSETS" "length p = MAX_ASSETS" and x: "x < MAX_ASSETS" "x < assets"
    and t: "t = tail orders j" "t \<noteq> x" and h: "head orders j = x" and j: "j < 2 * length orders" "j \<noteq> NO_ARC"
    and r: "0 < room capacities flows j" and up: "d ! x < d ! t + gain j" and k: "0 < k" "k \<le> L t + 1" "L t \<le> k"
    and inside: "\<And>v. v < assets \<Longrightarrow> 0 < L v \<Longrightarrow> tail orders (p ! v) < MAX_ASSETS"
    and v: "v < assets"
  shows "label_ok orders capacities flows k (d[x := d ! t + gain j]) (p[x := j]) (L(x := k)) v"
proof (cases "v = x")
  case True
  then show ?thesis using len x t h j r k by (simp add: label_ok_def)
next
  case False
  have ok: "label_ok orders capacities flows k d p L v" using old v by blast
  show ?thesis
  proof (cases "0 < L v")
    case False
    then show ?thesis using ok \<open>v \<noteq> x\<close> by (simp add: label_ok_def)
  next
    case True
    have "d ! tail orders (p ! v) \<le> d[x := d ! t + gain j] ! tail orders (p ! v)"
      using up len x(1) by (auto simp: nth_list_update)
    moreover have "L (tail orders (p ! v)) \<le> (L(x := k)) (tail orders (p ! v))"
      using old [OF x(2)] by (simp add: label_ok_def)
    ultimately show ?thesis using ok \<open>v \<noteq> x\<close> True by (auto simp: label_ok_def)
  qed
qed

lemma bf_update:
  assumes g: "graph_ok orders capacities flows assets" and j: "j < 2 * length orders"
    and inv: "bf_inv orders capacities flows assets k j c (d, p, u) L"
    and r: "0 < room capacities flows j" and k: "0 < k"
    and up: "d ! head orders j < d ! tail orders j + gain j"
  shows "bf_inv orders capacities flows assets k (Suc j) (Suc c)
    (d[head orders j := d ! tail orders j + gain j], p[head orders j := j], Some (head orders j)) (L(head orders j := k))"
proof -
  let ?x = "head orders j" and ?t = "tail orders j"
  let ?d = "d[?x := d ! ?t + gain j]" and ?p = "p[?x := j]" and ?L = "L(?x := k)"
  note ends = arc_ends [OF g j]
  have A: "assets \<le> MAX_ASSETS" using g by (simp add: graph_ok_def)
  have xM: "?x < MAX_ASSETS" using A ends(2) by simp
  have len: "length d = MAX_ASSETS" "length p = MAX_ASSETS" using inv by (simp_all add: bf_inv_def)
  have lab: "\<And>v. v < assets \<Longrightarrow> label_ok orders capacities flows k d p L v"
    and rng: "\<And>v. v < assets \<Longrightarrow> 0 \<le> d ! v \<and> d ! v \<le> int c"
    and sett: "\<And>i. i < 2 * length orders \<Longrightarrow> L (tail orders i) + (if i < j then 1 else 2) \<le> k \<Longrightarrow> settled orders capacities flows d i"
    and pos: "pred_positive orders assets p"
    using inv by (simp_all add: bf_inv_def)
  have nj: "j \<noteq> NO_ARC" using g j by (simp add: graph_ok_def NO_ARC_def MAX_INTENTS_def)
  have late: "k \<le> L ?t + 1"
    using sett [OF j] r up by (fastforce simp: settled_def)
  have Lt: "L ?t \<le> k" using lab [OF ends(1)] by (simp add: label_ok_def)
  have inside: "tail orders (p ! v) < assets" if "v < assets" "0 < L v" for v
    using lab [OF that(1)] that(2) arc_ends(1) [OF g, of "p ! v"] by (simp add: label_ok_def)
  have new_labels: "label_ok orders capacities flows k ?d ?p ?L v" if "v < assets" for v
    by (rule label_update [OF lab len _ ends(2) refl ends(3) refl j nj r up k late Lt _ that])
      (use inside ends A in force)+
  have range: "0 \<le> ?d ! v \<and> ?d ! v \<le> int (Suc c)" if "v < assets" for v
    using rng [OF that] rng [OF ends(1)] rng [OF ends(2)] up that A len xM
    by (auto simp: nth_list_update gain_def split: if_splits)
  have settled': "settled orders capacities flows ?d i"
    if i: "i < 2 * length orders" and stale: "?L (tail orders i) + (if i < Suc j then 1 else 2) \<le> k" for i
  proof -
    have ti: "tail orders i \<noteq> ?x" using stale by (auto split: if_splits)
    have hi: "d ! head orders i \<le> ?d ! head orders i"
      using up len xM by (auto simp: nth_list_update)
    show ?thesis
    proof (cases "i = j")
      case True
      then show ?thesis using len ends A by (simp add: settled_def)
    next
      case False
      then have "(if i < Suc j then 1 else 2 :: nat) = (if i < j then 1 else 2)" by simp
      then have "settled orders capacities flows d i" using sett [OF i] stale ti by simp
      then show ?thesis using hi ti by (auto simp: settled_def)
    qed
  qed
  have "pred_positive orders assets ?p" unfolding pred_positive_def
  proof (intro allI impI)
    fix v js assume v: "v < assets" and ne: "js \<noteq> []" and walk: "pred_walk orders ?p v js v"
    have p': "?p ! w = (if w = ?x then j else p ! w)" if "w < assets" for w
      using that xM len by (simp add: nth_list_update)
    have "pred_walk orders p v js v \<or> d ! v < d ! v + total_gain js"
    proof (rule pred_walk_strict [where d = "\<lambda>v. d ! v" and p = ?p and x = ?x and assets = assets, OF _ _ _ _ v walk])
      fix w assume w: "w < assets" "?p ! w \<noteq> NO_ARC"
      show "d ! w \<le> d ! tail orders (?p ! w) + gain (?p ! w)" "tail orders (?p ! w) < assets"
        using w p' [OF w(1)] lab [OF w(1)] inside [OF w(1)] up ends by (auto simp: label_ok_def split: if_splits)
    qed (use p' [OF ends(2)] up in \<open>simp_all add: nth_list_update_neq\<close>)
    then show "0 < total_gain js" using pos v ne by (auto simp: pred_positive_def)
  qed
  then show ?thesis using len range new_labels settled' ends by (auto simp: bf_inv_def)
qed

section \<open>Rounds\<close>

lemma relax_arc_bf:
  assumes g: "graph_ok orders capacities flows assets" and j: "j < 2 * length orders"
    and inv: "bf_inv orders capacities flows assets k j c l L" and k: "0 < k" and c: "c < 2 ^ 40"
  obtains l' L' where "relax_arc \<lparr>arc_from = tail orders j, arc_to = head orders j, arc_order = j div 2, arc_reverse = odd j,
      arc_cap = room capacities flows j, arc_cost = gain j\<rparr> j l = Inr l'"
    "bf_inv orders capacities flows assets k (Suc j) (Suc c) l' L'"
proof -
  obtain d p u where l: "l = (d, p, u)" by (cases l)
  let ?e = "\<lparr>arc_from = tail orders j, arc_to = head orders j, arc_order = j div 2, arc_reverse = odd j,
      arc_cap = room capacities flows j, arc_cost = gain j\<rparr>"
  note ends = arc_ends [OF g j]
  have A: "assets \<le> MAX_ASSETS" using g by (simp add: graph_ok_def)
  have len: "length d = MAX_ASSETS" "length p = MAX_ASSETS" using inv by (simp_all add: bf_inv_def l)
  have xM: "head orders j < length d" "tail orders j < length d" "head orders j < length p" using A ends len by simp_all
  have "0 \<le> d ! tail orders j" "d ! tail orders j \<le> int c" using inv ends by (simp_all add: bf_inv_def l)
  then have sum: "add_i 64 (d ! tail orders j) (gain j) = Inr (d ! tail orders j + gain j)"
    using c by (simp add: add_i_def gain_def)
  have run: "relax_arc ?e j l =
      (if room capacities flows j = 0 then Inr l
       else if d ! head orders j < d ! tail orders j + gain j
         then Inr (d[head orders j := d ! tail orders j + gain j], p[head orders j := j], Some (head orders j)) else Inr l)"
    using xM sum by (simp add: relax_arc_def l)
  show thesis
  proof (cases "0 < room capacities flows j \<and> d ! head orders j < d ! tail orders j + gain j")
    case True
    then show thesis using that bf_update [OF g j inv [unfolded l] _ k] run by simp
  next
    case False
    then have "settled orders capacities flows (fst l) j" by (auto simp: settled_def l)
    from that [OF _ bf_skip [OF inv this]] False run show thesis by auto
  qed
qed

lemma relax_scan_bf:
  assumes g: "graph_ok orders capacities flows assets" and k: "0 < k"
  shows "q \<le> 2 * length orders \<Longrightarrow> c + (2 * length orders - q) < 2 ^ 40 \<Longrightarrow>
    bf_inv orders capacities flows assets k q c l L \<Longrightarrow>
    yields (relax_scan orders capacities flows [q..<2 * length orders] l)
      (\<lambda>l'. \<exists>L'. bf_inv orders capacities flows assets k (2 * length orders) (c + (2 * length orders - q)) l' L')"
proof (induction "2 * length orders - q" arbitrary: q c l L)
  case 0
  then show ?case by (auto intro!: yields_ret)
next
  case (Suc n)
  then have q: "q < 2 * length orders" by simp
  have "c < 2 ^ 40" using Suc.prems(2) by simp
  from relax_arc_bf [OF g q Suc.prems(3) k this] obtain l' L' where
    l': "relax_arc \<lparr>arc_from = tail orders q, arc_to = head orders q, arc_order = q div 2, arc_reverse = odd q,
      arc_cap = room capacities flows q, arc_cost = gain q\<rparr> q l = Inr l'"
    and inv: "bf_inv orders capacities flows assets k (Suc q) (Suc c) l' L'" .
  have rest: "yields (relax_scan orders capacities flows [Suc q..<2 * length orders] l')
      (\<lambda>l'. \<exists>L'. bf_inv orders capacities flows assets k (2 * length orders) (Suc c + (2 * length orders - Suc q)) l' L')"
    by (rule Suc.hyps(1) [OF _ _ _ inv]) (use Suc.hyps(2) Suc.prems q in simp_all)
  have eq: "Suc c + (2 * length orders - Suc q) = c + (2 * length orders - q)" using q by simp
  show ?case
    unfolding upt_conv_Cons [OF q] relax_scan.simps arc_ok [OF g q]
    by (intro yields_charge_then yields_liftR_then [OF refl] yields_liftR_then [OF l']) (rule rest [unfolded eq])
qed

definition potentials :: "flow_intent list \<Rightarrow> nat list \<Rightarrow> nat list \<Rightarrow> bool" where
  "potentials orders capacities flows \<longleftrightarrow>
     (\<exists>d. \<forall>j < 2 * length orders. settled orders capacities flows d j)"

lemma bf_next_round:
  assumes "bf_inv orders capacities flows assets k (2 * length orders) c (d, p, u) L" "u \<noteq> None"
  shows "bf_inv orders capacities flows assets (Suc k) 0 c (d, p, None) L"
proof -
  have "label_ok orders capacities flows (Suc k) d p L v" "L v < Suc k" if "v < assets" for v
    using assms(1) that by (auto simp: bf_inv_def label_ok_def)
  moreover have "settled orders capacities flows d j" if "j < 2 * length orders" "L (tail orders j) + 2 \<le> Suc k" for j
    using assms(1) that by (simp add: bf_inv_def)
  ultimately show ?thesis using assms(1) by (auto simp: bf_inv_def)
qed

lemma bf_stop:
  assumes "graph_ok orders capacities flows assets"
    "bf_inv orders capacities flows assets k (2 * length orders) c (d, p, None) L"
  shows "potentials orders capacities flows"
proof -
  have "settled orders capacities flows d j" if j: "j < 2 * length orders" for j
  proof -
    have "L (tail orders j) < k" using assms(2) arc_ends(1) [OF assms(1) j] by (simp add: bf_inv_def)
    then show ?thesis using assms(2) j by (simp add: bf_inv_def)
  qed
  then show ?thesis by (auto simp: potentials_def)
qed

definition labelled :: "flow_intent list \<Rightarrow> nat list \<Rightarrow> nat list \<Rightarrow> nat \<Rightarrow> nat \<Rightarrow> labels \<Rightarrow> bool" where
  "labelled orders capacities flows assets k l \<longleftrightarrow>
     (\<exists>c L. bf_inv orders capacities flows assets k (2 * length orders) c l L) \<and> snd (snd l) \<noteq> None"

lemma relax_rounds_bf:
  assumes g: "graph_ok orders capacities flows assets"
  shows "k + n = assets \<Longrightarrow> 0 < n \<Longrightarrow> c + n * (2 * length orders) < 2 ^ 40 \<Longrightarrow>
    bf_inv orders capacities flows assets (Suc k) 0 c (d, p, None) L \<Longrightarrow>
    yields (relax_rounds orders capacities flows n (d, p, u))
      (\<lambda>r. case r of None \<Rightarrow> potentials orders capacities flows | Some l \<Rightarrow> labelled orders capacities flows assets assets l)"
proof (induction n arbitrary: k c d p u L)
  case (Suc n)
  let ?m = "2 * length orders"
  have scan: "yields (relax_scan orders capacities flows [0..<?m] (d, p, None))
      (\<lambda>l'. \<exists>L'. bf_inv orders capacities flows assets (Suc k) ?m (c + (?m - 0)) l' L')"
    by (rule relax_scan_bf [OF g]) (use Suc.prems in simp_all)
  show ?case unfolding relax_rounds.simps prod.case
  proof (rule yields_bindS [OF scan])
    fix l' assume "\<exists>L'. bf_inv orders capacities flows assets (Suc k) ?m (c + (?m - 0)) l' L'"
    then obtain L' where inv: "bf_inv orders capacities flows assets (Suc k) ?m (c + ?m) l' L'" by auto
    obtain d' p' u' where l': "l' = (d', p', u')" by (cases l')
    show "yields (case l' of (distance', previous', updated') \<Rightarrow>
          if updated' = None then ret None else relax_rounds orders capacities flows n (distance', previous', updated'))
        (\<lambda>r. case r of None \<Rightarrow> potentials orders capacities flows | Some l \<Rightarrow> labelled orders capacities flows assets assets l)"
    proof (cases "u' = None")
      case True
      then show ?thesis using bf_stop [OF g] inv l' by (auto intro!: yields_ret)
    next
      case moved: False
      show ?thesis
      proof (cases "n = 0")
        case True
        then have "labelled orders capacities flows assets assets l'"
          using inv Suc.prems(1) moved by (auto simp: labelled_def l')
        then show ?thesis using True moved l' by (auto intro!: yields_ret)
      next
        case False
        have "yields (relax_rounds orders capacities flows n (d', p', u'))
            (\<lambda>r. case r of None \<Rightarrow> potentials orders capacities flows | Some l \<Rightarrow> labelled orders capacities flows assets assets l)"
          by (rule Suc.IH [OF _ _ _ bf_next_round [OF inv [unfolded l'] moved]])
            (use Suc.prems False in \<open>simp_all add: algebra_simps\<close>)
        then show ?thesis by (simp only: l' prod.case moved if_False)
      qed
    qed
  qed
qed simp

section \<open>The cycle\<close>

definition pred :: "flow_intent list \<Rightarrow> nat list \<Rightarrow> nat \<Rightarrow> nat" where
  "pred orders p v = tail orders (p ! v)"

definition simple_cycle :: "flow_intent list \<Rightarrow> nat list \<Rightarrow> nat list \<Rightarrow> nat list \<Rightarrow> bool" where
  "simple_cycle orders capacities flows js \<longleftrightarrow>
     js \<noteq> [] \<and> distinct js \<and> (\<forall>j \<in> set js. j < 2 * length orders \<and> 0 < room capacities flows j) \<and>
     (\<forall>a. (\<Sum>j \<leftarrow> js. of_bool (head orders j = a) - of_bool (tail orders j = a)) = (0 :: int)) \<and>
     0 < total_gain js"

lemma labelled_walk:
  assumes inv: "bf_inv orders capacities flows assets k q c (d, p, u) L" and g: "graph_ok orders capacities flows assets"
    and v: "v < assets"
  shows "i \<le> L v \<Longrightarrow> (pred orders p ^^ i) v < assets \<and> L v \<le> L ((pred orders p ^^ i) v) + i"
proof (induction i)
  case (Suc i)
  let ?w = "(pred orders p ^^ i) v"
  have w: "?w < assets" "L v \<le> L ?w + i" using Suc by simp_all
  then have pos: "0 < L ?w" using Suc.prems by simp
  then have "p ! ?w < 2 * length orders" "L ?w \<le> L (tail orders (p ! ?w)) + 1"
    using inv w(1) by (simp_all add: bf_inv_def label_ok_def)
  then show ?case using arc_ends(1) [OF g] w(2) by (simp add: pred_def [of orders p ?w])
qed (use v in simp)

lemma walk_back_steps:
  assumes "\<And>i. i < n \<Longrightarrow> step_back orders capacities flows p ((f ^^ i) v) = Inr (j i, f ((f ^^ i) v))"
  shows "walk_back orders capacities flows p n v = Inr ((f ^^ n) v)"
  using assms
proof (induction n arbitrary: v j)
  case (Suc n)
  have "walk_back orders capacities flows p n (f v) = Inr ((f ^^ n) (f v))"
    by (rule Suc.IH [where j = "\<lambda>i. j (Suc i)"]) (use Suc.prems [of "Suc _"] in \<open>simp add: funpow_swap1\<close>)
  then show ?case using Suc.prems [of 0] by (simp add: funpow_swap1)
qed simp

lemma collect_cycle_orbit:
  assumes step: "\<And>k. step_back orders capacities flows p ((f ^^ k) s) = Inr (p ! ((f ^^ k) s), (f ^^ Suc k) s)"
    and per: "(f ^^ per) s = s" "\<And>k. 0 < k \<Longrightarrow> k < per \<Longrightarrow> (f ^^ k) s \<noteq> s" "per \<le> assets" "assets \<le> MAX_ASSETS"
  shows "n < per \<Longrightarrow> length cycle = MAX_ASSETS \<Longrightarrow>
    \<exists>cycle'. collect_cycle orders capacities flows p assets s ((f ^^ n) s) cycle n = Inr (cycle', per) \<and>
      take per cycle' = take n cycle @ map (\<lambda>k. p ! ((f ^^ k) s)) [n..<per]"
proof (induction "per - n" arbitrary: n cycle)
  case (Suc m)
  let ?c = "cycle[n := p ! ((f ^^ n) s)]"
  have n: "n < assets" "n < length cycle" using Suc.prems per(3,4) by simp_all
  have take_c: "take (Suc n) ?c = take n cycle @ [p ! ((f ^^ n) s)]"
    using n(2) by (simp add: take_Suc_conv_app_nth)
  show ?case
  proof (cases "Suc n = per")
    case True
    then show ?thesis using n per(1) step [of n] take_c
      by (subst collect_cycle.simps) (auto simp: Suc.prems upt_conv_Cons)
  next
    case False
    have "\<exists>cycle'. collect_cycle orders capacities flows p assets s ((f ^^ Suc n) s) ?c (Suc n) = Inr (cycle', per) \<and>
        take per cycle' = take (Suc n) ?c @ map (\<lambda>k. p ! ((f ^^ k) s)) [Suc n..<per]"
      by (rule Suc.hyps(1)) (use Suc False in simp_all)
    moreover have "(f ^^ Suc n) s \<noteq> s" using per(2) [of "Suc n"] Suc.prems False by simp
    ultimately show ?thesis using n step [of n] take_c Suc.prems(1)
      by (subst collect_cycle.simps) (simp add: upt_conv_Cons)
  qed
qed simp

lemma pred_walk_orbit:
  assumes "\<And>k. p ! ((pred orders p ^^ k) s) \<noteq> NO_ARC"
  shows "n \<le> m \<Longrightarrow> pred_walk orders p ((pred orders p ^^ n) s) (map (\<lambda>k. p ! ((pred orders p ^^ k) s)) [n..<m]) ((pred orders p ^^ m) s)"
proof (induction "m - n" arbitrary: n)
  case (Suc i)
  have "pred_walk orders p ((pred orders p ^^ Suc n) s) (map (\<lambda>k. p ! ((pred orders p ^^ k) s)) [Suc n..<m]) ((pred orders p ^^ m) s)"
    by (rule Suc.hyps(1)) (use Suc in simp_all)
  then show ?case using assms Suc
    by (simp add: upt_conv_Cons pred_def [of orders p "(pred orders p ^^ n) s", symmetric])
qed simp

lemma head_tail_sum:
  assumes "\<And>k. head orders (j k) = v k" "\<And>k. tail orders (j k) = v (Suc k)"
  shows "(\<Sum>k \<leftarrow> [0..<n]. of_bool (head orders (j k) = a) - of_bool (tail orders (j k) = a)) =
    (of_bool (v 0 = a) - of_bool (v n = a) :: int)"
  by (induction n) (simp_all add: assms)

text \<open>From a vertex labelled in the last round the walk back reaches a cycle.\<close>

lemma labelled_cycle:
  assumes g: "graph_ok orders capacities flows assets" and a: "0 < assets"
    and l: "labelled orders capacities flows assets assets (d, p, Some v)"
  obtains cycle len s where
    "walk_back orders capacities flows p assets v = Inr s"
    "collect_cycle orders capacities flows p assets s s (replicate MAX_ASSETS 0) 0 = Inr (cycle, len)"
    "simple_cycle orders capacities flows (take len cycle)"
proof -
  obtain q c L where inv: "bf_inv orders capacities flows assets assets q c (d, p, Some v) L"
    using l by (auto simp: labelled_def)
  let ?f = "pred orders p" and ?n = "assets"
  let ?s = "(?f ^^ ?n) v" and ?w = "\<lambda>k. (?f ^^ k) v"
  have v: "v < assets" "L v = assets" using inv by (simp_all add: bf_inv_def)
  note walk = labelled_walk [OF inv g v(1), unfolded v(2)]
  have A: "assets \<le> MAX_ASSETS" using g by (simp add: graph_ok_def)
  obtain m where m: "0 < m" "m \<le> ?n" "(?f ^^ m) ?s = ?s" and early: "\<And>k. \<exists>c < ?n. ?w k = ?w c"
    using orbit_returns [of ?n ?f v] walk by blast
  have lab: "L (?w k) \<noteq> 0 \<and> ?w k < assets" for k
  proof -
    obtain c where c: "c < ?n" "?w k = ?w c" using early by blast
    then show ?thesis using walk [of c] by auto
  qed
  have pr: "p ! ?w k \<noteq> NO_ARC" "p ! ?w k < 2 * length orders" "head orders (p ! ?w k) = ?w k"
      "0 < room capacities flows (p ! ?w k)" for k
    using inv lab [of k] by (auto simp: bf_inv_def label_ok_def)
  have step: "step_back orders capacities flows p (?w k) = Inr (p ! ?w k, ?f (?w k))" for k
    using pr [of k] lab [of k] A inv
    by (simp add: step_back_def arc_ok [OF g pr(2)] pred_def [of orders p "?w k"] bf_inv_def)
  have go_back: "walk_back orders capacities flows p ?n v = Inr ?s"
    by (rule walk_back_steps) (rule step)
  have shift: "(?f ^^ k) ?s = ?w (k + ?n)" for k by (simp add: funpow_add)
  obtain per where per: "0 < per" "per \<le> m" "(?f ^^ per) ?s = ?s" "\<And>k. 0 < k \<Longrightarrow> k < per \<Longrightarrow> (?f ^^ k) ?s \<noteq> ?s"
    using least_period [OF m(1,3)] by blast
  let ?js = "map (\<lambda>k. p ! ((?f ^^ k) ?s)) [0..<per]"
  have step_s: "step_back orders capacities flows p ((?f ^^ k) ?s) = Inr (p ! ((?f ^^ k) ?s), (?f ^^ Suc k) ?s)" for k
    using step [of "k + ?n"] by (simp add: shift)
  obtain cycle where cyc: "collect_cycle orders capacities flows p assets ?s ?s (replicate MAX_ASSETS 0) 0 = Inr (cycle, per)"
      "take per cycle = ?js"
    using collect_cycle_orbit [OF step_s per(3,4) _ A, of 0 "replicate MAX_ASSETS 0"] per(1,2) m(2) by auto
  have ends_at: "head orders (p ! ((?f ^^ k) ?s)) = (?f ^^ k) ?s" "tail orders (p ! ((?f ^^ k) ?s)) = (?f ^^ Suc k) ?s" for k
    using pr(3) [of "k + ?n"] by (simp_all add: shift [symmetric] pred_def [of orders p "(?f ^^ k) ?s"])
  have "inj_on (\<lambda>k. p ! ((?f ^^ k) ?s)) {..<per}"
  proof (rule inj_onI)
    fix i j assume "i \<in> {..<per}" "j \<in> {..<per}" "p ! ((?f ^^ i) ?s) = p ! ((?f ^^ j) ?s)"
    then show "i = j" using orbit_distinct [OF per(3,4)] ends_at(1) by (metis inj_onD)
  qed
  then have dist: "distinct ?js" by (simp add: distinct_map atLeast0LessThan)
  have "pred_walk orders p ((?f ^^ 0) ?s) ?js ((?f ^^ per) ?s)"
    by (rule pred_walk_orbit) (use pr(1) shift in simp_all)
  then have "pred_walk orders p ?s ?js ?s" using per(3) by simp
  moreover have "?s < assets" using lab by blast
  ultimately have pos: "0 < total_gain ?js"
    using inv per(1) unfolding bf_inv_def pred_positive_def by fastforce
  have bal: "(\<Sum>j \<leftarrow> ?js. of_bool (head orders j = a) - of_bool (tail orders j = a)) = (0 :: int)" for a
    using head_tail_sum [where j = "\<lambda>k. p ! ((?f ^^ k) ?s)" and v = "\<lambda>k. (?f ^^ k) ?s" and n = per, OF ends_at]
    by (simp add: comp_def per(3))
  have "simple_cycle orders capacities flows ?js"
    using dist pos bal per(1) pr(2,4) shift by (auto simp: simple_cycle_def)
  then show thesis using that go_back cyc by simp
qed

definition cycle_answer :: "flow_intent list \<Rightarrow> nat list \<Rightarrow> nat list \<Rightarrow> (nat list \<times> nat) option \<Rightarrow> bool" where
  "cycle_answer orders capacities flows r \<longleftrightarrow>
     (case r of None \<Rightarrow> potentials orders capacities flows
      | Some (cycle, len) \<Rightarrow> simple_cycle orders capacities flows (take len cycle))"

lemma improving_cycle_exact:
  assumes g: "graph_ok orders capacities flows assets" and a: "0 < assets"
  shows "yields (improving_cycle orders capacities flows assets) (cycle_answer orders capacities flows)"
proof -
  have A: "assets \<le> MAX_ASSETS" and n: "length orders \<le> MAX_INTENTS" using g by (simp_all add: graph_ok_def)
  have "assets * (2 * length orders) \<le> 8 * (2 * 32)"
    using A n by (intro mult_le_mono) (simp_all add: MAX_ASSETS_def MAX_INTENTS_def)
  then have small: "0 + assets * (2 * length orders) < 2 ^ 40" by simp
  have start: "bf_inv orders capacities flows assets (Suc 0) 0 0 (replicate MAX_ASSETS 0, replicate MAX_ASSETS NO_ARC, None) (\<lambda>_. 0)"
    using A by (auto simp: bf_inv_def label_ok_def pred_positive_def neq_Nil_conv)
  have rounds: "yields (relax_rounds orders capacities flows assets (replicate MAX_ASSETS 0, replicate MAX_ASSETS NO_ARC, None))
      (\<lambda>r. case r of None \<Rightarrow> potentials orders capacities flows | Some l \<Rightarrow> labelled orders capacities flows assets assets l)"
    by (rule relax_rounds_bf [OF g _ a small start]) simp
  show ?thesis unfolding improving_cycle_def
  proof (rule yields_bindS [OF rounds])
    fix r assume r: "case r of None \<Rightarrow> potentials orders capacities flows | Some l \<Rightarrow> labelled orders capacities flows assets assets l"
    show "yields (case r of None \<Rightarrow> ret None
       | Some (distance, previous, updated) \<Rightarrow>
           liftR (bindR (ok_or updated Arithmetic) (\<lambda>vertex.
             bindR (walk_back orders capacities flows previous assets vertex) (\<lambda>start.
             bindR (collect_cycle orders capacities flows previous assets start start (replicate MAX_ASSETS 0) 0)
               (\<lambda>cycle. Inr (Some cycle)))))) (cycle_answer orders capacities flows)"
    proof (cases r)
      case None
      then show ?thesis using r by (auto simp: cycle_answer_def intro!: yields_ret)
    next
      case (Some l)
      then obtain d p v where l: "l = (d, p, Some v)" using r by (cases l) (auto simp: labelled_def)
      obtain cycle len s where "walk_back orders capacities flows p assets v = Inr s"
          "collect_cycle orders capacities flows p assets s s (replicate MAX_ASSETS 0) 0 = Inr (cycle, len)"
          "simple_cycle orders capacities flows (take len cycle)"
        by (rule labelled_cycle [OF g a, of d p v]) (use r Some l in simp_all)
      then show ?thesis by (auto simp: Some l cycle_answer_def intro!: yields_ret)
    qed
  qed
qed

end
