(* ===== verification/Circulation.thy ===== *)
theory Circulation
  imports Cycles
begin

text \<open>
  The pivots of a fold keep a circulation: flows within capacities, in and out of every asset equal.
  Potentials certify that no circulation moves more.
\<close>

section \<open>Circulations\<close>

definition net :: "flow_intent list \<Rightarrow> nat list \<Rightarrow> nat \<Rightarrow> int" where
  "net orders flows a =
     (\<Sum>i < length orders. int (flows ! i) * (of_bool (buy (orders ! i) = a) - of_bool (sell (orders ! i) = a)))"

definition volume :: "flow_intent list \<Rightarrow> nat list \<Rightarrow> nat" where
  "volume orders flows = (\<Sum>i < length orders. flows ! i)"

definition circulation :: "flow_intent list \<Rightarrow> nat list \<Rightarrow> nat \<Rightarrow> nat list \<Rightarrow> bool" where
  "circulation orders capacities assets flows \<longleftrightarrow>
     graph_ok orders capacities flows assets \<and> (\<forall>a. net orders flows a = 0)"

definition arc_net :: "flow_intent list \<Rightarrow> nat list \<Rightarrow> nat \<Rightarrow> int" where
  "arc_net orders js a = (\<Sum>j \<leftarrow> js. of_bool (head orders j = a) - of_bool (tail orders j = a))"

lemma sum_update:
  fixes f :: "nat \<Rightarrow> nat \<Rightarrow> int"
  assumes "i < n" "i < length xs"
  shows "(\<Sum>k < n. f k (xs[i := v] ! k)) = (\<Sum>k < n. f k (xs ! k)) + (f i v - f i (xs ! i))"
proof -
  have "(\<Sum>k < n. f k (xs[i := v] ! k)) = f i v + (\<Sum>k \<in> {..<n} - {i}. f k (xs[i := v] ! k))"
    using assms by (subst sum.remove [of _ i]) simp_all
  also have "(\<Sum>k \<in> {..<n} - {i}. f k (xs[i := v] ! k)) = (\<Sum>k \<in> {..<n} - {i}. f k (xs ! k))"
    by (intro sum.cong) auto
  also have "(\<Sum>k \<in> {..<n} - {i}. f k (xs ! k)) = (\<Sum>k < n. f k (xs ! k)) - f i (xs ! i)"
    using assms by (subst sum.remove [of "{..<n}" i]) simp_all
  finally show ?thesis by simp
qed

definition pushed :: "nat list \<Rightarrow> nat \<Rightarrow> nat \<Rightarrow> nat list" where
  "pushed flows delta j =
     flows[j div 2 := (if odd j then flows ! (j div 2) - delta else flows ! (j div 2) + delta)]"

lemma pushed_arc:
  assumes g: "graph_ok orders capacities flows assets" and j: "j < 2 * length orders"
    and d: "delta \<le> room capacities flows j"
  shows "graph_ok orders capacities (pushed flows delta j) assets"
    "net orders (pushed flows delta j) a = net orders flows a + int delta * arc_net orders [j] a"
    "int (volume orders (pushed flows delta j)) = int (volume orders flows) + int delta * gain j"
    "j' \<noteq> j \<Longrightarrow> room capacities flows j' \<le> room capacities (pushed flows delta j) j'"
    "arc orders capacities flows j = Inr e \<Longrightarrow>
       bindR (index_at flows (arc_order e)) (\<lambda>f. bindR (if arc_reverse e then sub_w f delta else add_w 128 f delta)
         (\<lambda>f'. store_at flows (arc_order e) f')) = Inr (pushed flows delta j)"
proof -
  let ?i = "j div 2"
  let ?v = "if odd j then flows ! ?i - delta else flows ! ?i + delta"
  have i: "?i < length orders" using j by (rule half_less)
  then have len: "?i < length flows" and cap: "flows ! ?i \<le> capacities ! ?i" "capacities ! ?i < 2 ^ 127"
    using g by (auto simp: graph_ok_def)
  have v: "?v \<le> capacities ! ?i" using d cap by (auto simp: room_def split: if_splits)
  have int_v: "int ?v - int (flows ! ?i) = int delta * gain j"
    using d cap by (auto simp: room_def gain_def)
  show "graph_ok orders capacities (pushed flows delta j) assets"
    using g v len unfolding graph_ok_def pushed_def by (auto simp: nth_list_update)
  show "net orders (pushed flows delta j) a = net orders flows a + int delta * arc_net orders [j] a"
  proof -
    have "net orders (pushed flows delta j) a = net orders flows a +
        (int ?v - int (flows ! ?i)) * (of_bool (buy (orders ! ?i) = a) - of_bool (sell (orders ! ?i) = a))"
      unfolding net_def pushed_def
        sum_update [OF i len, of "\<lambda>k x. int x * (of_bool (buy (orders ! k) = a) - of_bool (sell (orders ! k) = a))"]
      by (simp only: left_diff_distrib)
    then show ?thesis unfolding int_v by (simp add: arc_net_def head_def tail_def gain_def)
  qed
  show "int (volume orders (pushed flows delta j)) = int (volume orders flows) + int delta * gain j"
    using sum_update [OF i len, of "\<lambda>k x. int x" ?v] int_v by (simp add: volume_def pushed_def)
  show "j' \<noteq> j \<Longrightarrow> room capacities flows j' \<le> room capacities (pushed flows delta j) j'"
  proof (cases "j' div 2 = ?i")
    case True
    assume "j' \<noteq> j"
    then have "j' mod 2 \<noteq> j mod 2" using True div_mult_mod_eq [of j' 2] div_mult_mod_eq [of j 2] by auto
    then have "odd j' \<longleftrightarrow> even j" by (simp add: mod_2_eq_odd of_bool_eq_iff)
    then show ?thesis using True len by (auto simp: room_def pushed_def)
  next
    case False
    then show ?thesis by (simp add: room_def pushed_def)
  qed
  show "bindR (index_at flows (arc_order e)) (\<lambda>f. bindR (if arc_reverse e then sub_w f delta else add_w 128 f delta)
         (\<lambda>f'. store_at flows (arc_order e) f')) = Inr (pushed flows delta j)"
    if "arc orders capacities flows j = Inr e"
    using that len d v cap unfolding arc_ok [OF g j]
    by (auto simp: room_def pushed_def sub_w_ok add_w_ok)
qed

lemma push_cycle_ok:
  assumes "graph_ok orders capacities flows assets" "distinct js"
    "\<forall>j \<in> set js. j < 2 * length orders \<and> delta \<le> room capacities flows j"
  obtains flows' where "push_cycle orders capacities delta js flows = Inr flows'"
    "graph_ok orders capacities flows' assets"
    "\<And>a. net orders flows' a = net orders flows a + int delta * arc_net orders js a"
    "int (volume orders flows') = int (volume orders flows) + int delta * total_gain js"
proof -
  have "\<exists>flows'. push_cycle orders capacities delta js flows = Inr flows' \<and> graph_ok orders capacities flows' assets \<and>
      (\<forall>a. net orders flows' a = net orders flows a + int delta * arc_net orders js a) \<and>
      int (volume orders flows') = int (volume orders flows) + int delta * total_gain js"
    using assms
  proof (induction js arbitrary: flows)
    case Nil
    then show ?case by (simp add: arc_net_def total_gain_def)
  next
    case (Cons j js)
    have j: "j < 2 * length orders" "delta \<le> room capacities flows j" using Cons.prems by simp_all
    note p = pushed_arc [OF Cons.prems(1) j]
    have "\<forall>k \<in> set js. k < 2 * length orders \<and> delta \<le> room capacities (pushed flows delta j) k"
    proof
      fix k assume k: "k \<in> set js"
      then have "k \<noteq> j" using Cons.prems(2) by auto
      then show "k < 2 * length orders \<and> delta \<le> room capacities (pushed flows delta j) k"
        using Cons.prems(3) k p(4) [of k] by (meson le_trans list.set_intros(2))
    qed
    then obtain flows' where f: "push_cycle orders capacities delta js (pushed flows delta j) = Inr flows'"
        "graph_ok orders capacities flows' assets"
        "\<forall>a. net orders flows' a = net orders (pushed flows delta j) a + int delta * arc_net orders js a"
        "int (volume orders flows') = int (volume orders (pushed flows delta j)) + int delta * total_gain js"
      using Cons.IH [OF p(1)] Cons.prems(2) by auto
    have "push_cycle orders capacities delta (j # js) flows = Inr flows'"
      using p(5) f(1) unfolding push_cycle.simps arc_ok [OF Cons.prems(1) j(1)]
      by (auto simp: monad_simps)
    then show ?case using f(2-4) p(2,3) by (simp add: arc_net_def total_gain_def algebra_simps)
  qed
  then show thesis using that by blast
qed

lemma cycle_scan_ok:
  assumes g: "graph_ok orders capacities flows assets"
  shows "\<forall>j \<in> set js. j < 2 * length orders \<and> 0 < room capacities flows j \<Longrightarrow> 0 < delta \<Longrightarrow>
    \<bar>cost\<bar> + int (length js) < 2 ^ 62 \<Longrightarrow>
    \<exists>delta' reverse'. cycle_scan orders capacities flows js (delta, cost, reverse) = Inr (delta', cost + total_gain js, reverse') \<and>
      0 < delta' \<and> delta' \<le> delta \<and> (\<forall>j \<in> set js. delta' \<le> room capacities flows j)"
proof (induction js arbitrary: delta cost reverse)
  case Nil
  then show ?case by (simp add: total_gain_def)
next
  case (Cons j js)
  have "\<bar>cost + gain j\<bar> \<le> \<bar>cost\<bar> + \<bar>gain j\<bar>" by (rule abs_triangle_ineq)
  then have "\<bar>cost + gain j\<bar> \<le> \<bar>cost\<bar> + 1" by (simp add: gain_def split: if_splits)
  then have c: "\<bar>cost + gain j\<bar> + int (length js) < 2 ^ 62" using Cons.prems(3) by simp
  have "\<exists>delta' reverse'. cycle_scan orders capacities flows js (min delta (room capacities flows j), cost + gain j, reverse \<or> odd j) =
      Inr (delta', cost + gain j + total_gain js, reverse') \<and> 0 < delta' \<and> delta' \<le> min delta (room capacities flows j) \<and>
      (\<forall>j \<in> set js. delta' \<le> room capacities flows j)"
    by (rule Cons.IH) (use Cons.prems c in auto)
  moreover have "add_i 64 cost (gain j) = Inr (cost + gain j)"
  proof -
    have "\<bar>cost + gain j\<bar> < 2 ^ 62" using c by simp
    then have "cost + gain j < 2 ^ 62" "- (2 ^ 62) < cost + gain j" by (simp_all only: abs_less_iff minus_less_iff)
    then show ?thesis by (simp add: add_i_def)
  qed
  ultimately show ?case using Cons.prems(1) by (auto simp: arc_ok [OF g] total_gain_def add.assoc)
qed

section \<open>Optimality\<close>

lemma settled_gain:
  assumes g: "graph_ok orders capacities flows assets" "graph_ok orders capacities other assets"
    and pot: "\<forall>j < 2 * length orders. settled orders capacities flows d j" and i: "i < length orders"
  shows "(int (other ! i) - int (flows ! i)) * (1 - (d ! buy (orders ! i) - d ! sell (orders ! i))) \<le> 0"
proof (cases "flows ! i < other ! i")
  case True
  have "other ! i \<le> capacities ! i" using g(2) i by (simp add: graph_ok_def)
  then have "0 < room capacities flows (2 * i)" using True by (simp add: room_def)
  then have "d ! sell (orders ! i) + 1 \<le> d ! buy (orders ! i)"
    using pot [rule_format, of "2 * i"] i by (simp add: settled_def tail_def head_def gain_def)
  then show ?thesis using True by (intro mult_nonneg_nonpos) simp_all
next
  case False
  show ?thesis
  proof (cases "flows ! i = other ! i")
    case False
    then have "0 < room capacities flows (2 * i + 1)" using \<open>\<not> flows ! i < other ! i\<close> by (simp add: room_def)
    then have "d ! buy (orders ! i) \<le> d ! sell (orders ! i) + 1"
      using pot [rule_format, of "2 * i + 1"] i by (simp add: settled_def tail_def head_def gain_def)
    then show ?thesis using \<open>\<not> flows ! i < other ! i\<close> by (intro mult_nonpos_nonneg) simp_all
  qed simp
qed

lemma potential_sum:
  assumes g: "graph_ok orders capacities flows assets"
  shows "(\<Sum>i < length orders. int (flows ! i) * (d (buy (orders ! i)) - d (sell (orders ! i)))) =
    (\<Sum>a < assets. d a * net orders flows a)"
proof -
  have one: "(\<Sum>a < assets. d a * (x * (of_bool (b = a) - of_bool (s = a)))) = x * (d b - d s)"
    if "b < assets" "s < assets" for b s :: nat and x :: int
  proof -
    have "(\<Sum>a < assets. d a * (x * (of_bool (b = a) - of_bool (s = a)))) =
        (\<Sum>a < assets. if a = b then x * d a else 0) - (\<Sum>a < assets. if a = s then x * d a else 0)"
      unfolding sum_subtractf [symmetric] by (intro sum.cong refl) auto
    then show ?thesis using that by (simp add: right_diff_distrib)
  qed
  have "(\<Sum>a < assets. d a * net orders flows a) =
      (\<Sum>i < length orders. \<Sum>a < assets. d a * (int (flows ! i) * (of_bool (buy (orders ! i) = a) - of_bool (sell (orders ! i) = a))))"
    unfolding net_def sum_distrib_left by (rule sum.swap)
  also have "\<dots> = (\<Sum>i < length orders. int (flows ! i) * (d (buy (orders ! i)) - d (sell (orders ! i))))"
    using g by (intro sum.cong refl one) (auto simp: graph_ok_def)
  finally show ?thesis by simp
qed

lemma potentials_optimal:
  assumes f: "circulation orders capacities assets flows" and h: "circulation orders capacities assets other"
    and pot: "potentials orders capacities flows"
  shows "volume orders other \<le> volume orders flows"
proof -
  obtain d where d: "\<forall>j < 2 * length orders. settled orders capacities flows d j" using pot by (auto simp: potentials_def)
  have g: "graph_ok orders capacities flows assets" "graph_ok orders capacities other assets"
    using f h by (simp_all add: circulation_def)
  have zero: "(\<Sum>i < length orders. int (fs ! i) * (d ! buy (orders ! i) - d ! sell (orders ! i))) = 0"
    if "circulation orders capacities assets fs" for fs
    using potential_sum [of orders capacities fs assets "\<lambda>a. d ! a"] that by (simp add: circulation_def)
  have "(\<Sum>i < length orders. (int (other ! i) - int (flows ! i)) * (1 - (d ! buy (orders ! i) - d ! sell (orders ! i)))) \<le> 0"
    by (intro sum_nonpos settled_gain [OF g d]) simp
  also have "(\<Sum>i < length orders. (int (other ! i) - int (flows ! i)) * (1 - (d ! buy (orders ! i) - d ! sell (orders ! i)))) =
      int (volume orders other) - int (volume orders flows)
      - ((\<Sum>i < length orders. int (other ! i) * (d ! buy (orders ! i) - d ! sell (orders ! i)))
         - (\<Sum>i < length orders. int (flows ! i) * (d ! buy (orders ! i) - d ! sell (orders ! i))))"
    unfolding volume_def of_nat_sum sum_subtractf [symmetric] by (intro sum.cong) (simp_all add: algebra_simps)
  finally show ?thesis using zero [OF f] zero [OF h] by simp
qed

section \<open>Pivots\<close>

text \<open>What the pivots keep, and what an optimal answer means.\<close>

definition pivot_ok :: "flow_intent list \<Rightarrow> nat list \<Rightarrow> nat \<Rightarrow> nat \<Rightarrow> pivot_state \<Rightarrow> bool" where
  "pivot_ok orders capacities assets n s \<longleftrightarrow>
     circulation orders capacities assets (ps_flows s) \<and> ps_pivots s \<le> n \<and> ps_reverse s \<le> n \<and>
     ps_pivots s \<le> volume orders (ps_flows s) \<and>
     (ps_optimal s \<longrightarrow> (\<forall>fs. circulation orders capacities assets fs \<longrightarrow> volume orders fs \<le> volume orders (ps_flows s)))"

lemma simple_cycle_length:
  assumes "simple_cycle orders capacities flows js" "length orders \<le> MAX_INTENTS"
  shows "length js \<le> 64"
proof -
  have "set js \<subseteq> {..<2 * length orders}" "distinct js" using assms(1) by (auto simp: simple_cycle_def)
  then have "length js \<le> 2 * length orders" using card_mono [of "{..<2 * length orders}" "set js"] by (simp add: distinct_card)
  then show ?thesis using assms(2) by (simp add: MAX_INTENTS_def)
qed

lemma pivot_step:
  assumes s: "pivot_ok orders capacities assets n s" and n: "n < 300" and opt: "\<not> ps_optimal s"
    and cyc: "simple_cycle orders capacities (ps_flows s) (take len cycle)"
  obtains s' where "pivot orders capacities (cycle, len) s = Inr s'" "pivot_ok orders capacities assets (Suc n) s'"
    "\<not> ps_optimal s'"
proof -
  let ?js = "take len cycle" and ?fs = "ps_flows s"
  have g: "graph_ok orders capacities ?fs assets" and bal: "\<And>a. net orders ?fs a = 0"
    using s by (simp_all add: pivot_ok_def circulation_def)
  have js: "distinct ?js" "\<forall>j \<in> set ?js. j < 2 * length orders \<and> 0 < room capacities ?fs j"
      "\<And>a. arc_net orders ?js a = 0" "0 < total_gain ?js"
    using cyc by (simp_all add: simple_cycle_def arc_net_def)
  have "length ?js \<le> 64" using simple_cycle_length [OF cyc] g by (simp only: graph_ok_def)
  then have small: "\<bar>0\<bar> + int (length ?js) < 2 ^ 62" by simp
  obtain delta reverse where scan: "cycle_scan orders capacities ?fs ?js (2 ^ 128 - 1, 0, False) = Inr (delta, total_gain ?js, reverse)"
      and delta: "0 < delta" "\<forall>j \<in> set ?js. delta \<le> room capacities ?fs j"
    using cycle_scan_ok [OF g js(2) _ small, of "2 ^ 128 - 1" False] by auto
  have "\<forall>j \<in> set ?js. j < 2 * length orders \<and> delta \<le> room capacities ?fs j" using js(2) delta(2) by auto
  from push_cycle_ok [OF g js(1) this] obtain fs where fs: "push_cycle orders capacities delta ?js ?fs = Inr fs"
      "graph_ok orders capacities fs assets" "\<And>a. net orders fs a = net orders ?fs a + int delta * arc_net orders ?js a"
      "int (volume orders fs) = int (volume orders ?fs) + int delta * total_gain ?js" by blast
  have "int 1 * 1 \<le> int delta * total_gain ?js" using delta(1) js(4) by (intro mult_mono) simp_all
  then have vol: "volume orders ?fs + 1 \<le> volume orders fs" using fs(4) by simp
  let ?s = "s\<lparr>ps_flows := fs, ps_pivots := ps_pivots s + 1, ps_reverse := ps_reverse s + of_bool reverse\<rparr>"
  have "pivot orders capacities (cycle, len) s = Inr ?s"
    using s n js(4) delta(1) unfolding pivot_def prod.case Let_def scan bindR_simps
    by (simp add: fs(1) add_w_def pivot_ok_def)
  moreover have "pivot_ok orders capacities assets (Suc n) ?s"
    using s fs(2,3) bal js(3) vol opt by (simp add: pivot_ok_def circulation_def)
  ultimately show thesis using that opt by simp
qed

lemma pivot_loop_ok:
  assumes a: "0 < assets"
  shows "n + m \<le> 300 \<Longrightarrow> pivot_ok orders capacities assets n s \<Longrightarrow> \<not> ps_optimal s \<Longrightarrow>
    yields (pivot_loop orders capacities assets m s) (pivot_ok orders capacities assets (n + m))"
proof (induction m arbitrary: n s)
  case 0
  then show ?case by (auto intro!: yields_ret)
next
  case (Suc m)
  have g: "graph_ok orders capacities (ps_flows s) assets" and c: "circulation orders capacities assets (ps_flows s)"
    using Suc.prems(2) by (simp_all add: pivot_ok_def circulation_def)
  show ?case unfolding pivot_loop.simps
  proof (rule yields_bindS [OF improving_cycle_exact [OF g a]])
    fix r assume r: "cycle_answer orders capacities (ps_flows s) r"
    show "yields (case r of None \<Rightarrow> ret (s\<lparr>ps_optimal := True\<rparr>)
       | Some cycle \<Rightarrow> bindS (liftR (pivot orders capacities cycle s)) (\<lambda>s'. pivot_loop orders capacities assets m s'))
       (pivot_ok orders capacities assets (n + Suc m))"
    proof (cases r)
      case None
      then have "potentials orders capacities (ps_flows s)" using r by (simp add: cycle_answer_def)
      then have "pivot_ok orders capacities assets (n + Suc m) (s\<lparr>ps_optimal := True\<rparr>)"
        using Suc.prems(2) potentials_optimal [OF c] by (auto simp: pivot_ok_def)
      then show ?thesis by (auto simp: None intro!: yields_ret)
    next
      case (Some cl)
      obtain cycle len where cl: "cl = (cycle, len)" by (cases cl)
      have cyc: "simple_cycle orders capacities (ps_flows s) (take len cycle)" using r by (simp add: Some cl cycle_answer_def)
      have "n < 300" using Suc.prems(1) by simp
      from pivot_step [OF Suc.prems(2) this Suc.prems(3) cyc] obtain s' where
        s': "pivot orders capacities (cycle, len) s = Inr s'" "pivot_ok orders capacities assets (Suc n) s'" "\<not> ps_optimal s'" .
      have "yields (pivot_loop orders capacities assets m s') (pivot_ok orders capacities assets (Suc n + m))"
        by (rule Suc.IH [OF _ s'(2,3)]) (use Suc.prems(1) in simp)
      then show ?thesis by (simp add: Some cl s'(1))
    qed
  qed
qed

lemma run_pivots_ok:
  assumes g: "graph_ok orders capacities (replicate MAX_INTENTS 0) assets" and a: "0 < assets" and m: "m \<le> MAX_PIVOTS"
  shows "yields (run_pivots orders capacities assets m) (pivot_ok orders capacities assets m)"
proof -
  let ?s = "\<lparr>ps_flows = replicate MAX_INTENTS 0, ps_pivots = 0, ps_reverse = 0, ps_optimal = False\<rparr>"
  have "net orders (replicate MAX_INTENTS 0) a = 0" for a
    unfolding net_def using g by (intro sum.neutral) (auto simp: graph_ok_def)
  then have start: "pivot_ok orders capacities assets 0 ?s" using g by (simp add: pivot_ok_def circulation_def)
  have loop: "yields (pivot_loop orders capacities assets m ?s) (pivot_ok orders capacities assets m)"
    using pivot_loop_ok [OF a _ start] m by (simp add: MAX_PIVOTS_def)
  show ?thesis unfolding run_pivots_def
  proof (rule yields_bindS [OF loop])
    fix s assume s: "pivot_ok orders capacities assets m s"
    then have c: "circulation orders capacities assets (ps_flows s)" and gs: "graph_ok orders capacities (ps_flows s) assets"
      by (simp_all add: pivot_ok_def circulation_def)
    have "yields (bindS (improving_cycle orders capacities (ps_flows s) assets) (\<lambda>r. ret (s\<lparr>ps_optimal := r = None\<rparr>)))
        (pivot_ok orders capacities assets m)"
      by (rule yields_bindS [OF improving_cycle_exact [OF gs a]])
        (use s potentials_optimal [OF c] in \<open>auto simp: pivot_ok_def cycle_answer_def split: option.splits intro!: yields_ret\<close>)
    then show "yields (if ps_optimal s then ret s
        else bindS (improving_cycle orders capacities (ps_flows s) assets) (\<lambda>r. ret (s\<lparr>ps_optimal := r = None\<rparr>)))
        (pivot_ok orders capacities assets m)"
      using s by (auto intro!: yields_ret)
  qed
qed

end
