(* ===== verification/FoldSound.thy ===== *)
theory FoldSound
  imports Circulation Settlement
begin

text \<open>
  Both folds, at fixed prices and on asset lots: which errors they can return, and what a report
  satisfies. The final conservation and floor checks of the code never fire.
\<close>

section \<open>Totals per asset\<close>

definition sell_total :: "flow_intent list \<Rightarrow> nat \<Rightarrow> (nat \<Rightarrow> nat) \<Rightarrow> nat \<Rightarrow> nat" where
  "sell_total orders n f a = (\<Sum>k < n. if sell (orders ! k) = a then f k else 0)"

definition buy_total :: "flow_intent list \<Rightarrow> nat \<Rightarrow> (nat \<Rightarrow> nat) \<Rightarrow> nat \<Rightarrow> nat" where
  "buy_total orders n f a = (\<Sum>k < n. if buy (orders ! k) = a then f k else 0)"

lemma total_Suc [simp]:
  "sell_total orders (Suc n) f a = sell_total orders n f a + (if sell (orders ! n) = a then f n else 0)"
  "buy_total orders (Suc n) f a = buy_total orders n f a + (if buy (orders ! n) = a then f n else 0)"
  by (simp_all add: sell_total_def buy_total_def)

lemma total_0 [simp]: "sell_total orders 0 f a = 0" "buy_total orders 0 f a = 0"
  by (simp_all add: sell_total_def buy_total_def)

lemma total_cong:
  assumes "\<And>k. k < n \<Longrightarrow> f k = g k"
  shows "sell_total orders n f a = sell_total orders n g a" "buy_total orders n f a = buy_total orders n g a"
  using assms by (auto simp: sell_total_def buy_total_def intro!: sum.cong)

lemma total_le:
  assumes "\<And>k. k < n \<Longrightarrow> f k \<le> b"
  shows "sell_total orders n f a \<le> n * b" "buy_total orders n f a \<le> n * b"
  using sum_bounded_above [of "{..<n}" "\<lambda>k. if sell (orders ! k) = a then f k else 0" b]
    sum_bounded_above [of "{..<n}" "\<lambda>k. if buy (orders ! k) = a then f k else 0" b] assms
  by (simp_all add: sell_total_def buy_total_def)

lemma circulation_balance:
  assumes "\<And>a. net orders flows a = 0"
  shows "sell_total orders (length orders) (\<lambda>k. flows ! k) a = buy_total orders (length orders) (\<lambda>k. flows ! k) a"
proof -
  have "int (buy_total orders (length orders) (\<lambda>k. flows ! k) a) - int (sell_total orders (length orders) (\<lambda>k. flows ! k) a)
      = net orders flows a"
    unfolding net_def sell_total_def buy_total_def of_nat_sum sum_subtractf [symmetric]
    by (intro sum.cong) auto
  then show ?thesis using assms by simp
qed

lemma scaled_totals:
  assumes bal: "sell_total orders n flow a = buy_total orders n flow a" and p: "0 < (p :: nat)"
    and inp: "\<And>k. k < n \<Longrightarrow> sell (orders ! k) = a \<Longrightarrow> f k * p = flow k * q"
    and out: "\<And>k. k < n \<Longrightarrow> buy (orders ! k) = a \<Longrightarrow> g k * p = flow k * q"
  shows "sell_total orders n f a = buy_total orders n g a"
proof -
  have "sell_total orders n f a * p = sell_total orders n flow a * q"
    unfolding sell_total_def sum_distrib_right using inp by (intro sum.cong) auto
  also have "\<dots> = buy_total orders n flow a * q" using bal by simp
  also have "\<dots> = buy_total orders n g a * p"
    unfolding buy_total_def sum_distrib_right using out by (intro sum.cong) auto
  finally show ?thesis using p by simp
qed

section \<open>The fills\<close>

text \<open>One fill against its intent: no more than sold, no worse than the limit price.\<close>

definition fill_ok :: "flow_intent \<Rightarrow> fold_fill \<Rightarrow> bool" where
  "fill_ok t f \<longleftrightarrow> input f \<le> amount t \<and> input f * min_out t \<le> fill_output f * amount t"

definition intent_ok :: "nat \<Rightarrow> flow_intent \<Rightarrow> bool" where
  "intent_ok assets t \<longleftrightarrow> sell t \<noteq> buy t \<and> sell t < assets \<and> buy t < assets \<and> 0 < amount t \<and>
     amount t \<le> MAX_ATOMS \<and> min_out t \<le> MAX_ATOMS"

definition totals_upto :: "flow_intent list \<Rightarrow> nat \<Rightarrow> fill_totals \<Rightarrow> bool" where
  "totals_upto orders n acc \<longleftrightarrow>
     length (ft_fills acc) = MAX_INTENTS \<and> length (ft_debit acc) = MAX_ASSETS \<and> length (ft_credit acc) = MAX_ASSETS \<and>
     (\<forall>k < n. fill_ok (orders ! k) (ft_fills acc ! k) \<and> input (ft_fills acc ! k) < 2 ^ 64 \<and> fill_output (ft_fills acc ! k) < 2 ^ 64) \<and>
     (\<forall>a < MAX_ASSETS. ft_debit acc ! a = sell_total orders n (\<lambda>k. input (ft_fills acc ! k)) a) \<and>
     (\<forall>a < MAX_ASSETS. ft_credit acc ! a = buy_total orders n (\<lambda>k. fill_output (ft_fills acc ! k)) a)"

lemma totals_upto_0: "totals_upto orders 0 no_totals"
  by (simp add: totals_upto_def no_totals_def no_fills_def sell_total_def buy_total_def)

lemma check_fill_ok:
  assumes "fill_ok t f" "input f < 2 ^ 64" "fill_output f < 2 ^ 64" "intent_ok assets t"
  shows "check_fill t f = Inr ()"
proof -
  have "amount t < 2 ^ 64" "min_out t < 2 ^ 64" using assms(4) by (simp_all add: intent_ok_def MAX_ATOMS_def)
  then have "fill_output f * amount t < 2 ^ 64 * 2 ^ 64" "input f * min_out t < 2 ^ 64 * 2 ^ 64"
    using assms(2,3) by (intro mult_strict_mono'; simp)+
  then show ?thesis using assms(1) by (simp add: check_fill_def fill_ok_def mul_w_def)
qed

lemma add_to_ok:
  "a < length xs \<Longrightarrow> xs ! a + v < 2 ^ 128 \<Longrightarrow> add_to xs a v = Inr (xs[a := xs ! a + v])"
  by (simp add: add_to_def add_w_def)

lemma totals_step:
  assumes inv: "totals_upto orders n acc" and n: "n < MAX_INTENTS" and assets: "assets \<le> MAX_ASSETS"
    and t: "intent_ok assets (orders ! n)" and f: "fill_ok (orders ! n) f" "input f < 2 ^ 64" "fill_output f < 2 ^ 64"
  obtains debit credit where
    "add_to (ft_debit acc) (sell (orders ! n)) (input f) = Inr debit"
    "add_to (ft_credit acc) (buy (orders ! n)) (fill_output f) = Inr credit"
    "totals_upto orders (Suc n) \<lparr>ft_fills = (ft_fills acc)[n := f], ft_cleared = c, ft_debit = debit, ft_credit = credit\<rparr>"
proof -
  let ?s = "sell (orders ! n)" and ?b = "buy (orders ! n)" and ?fs = "(ft_fills acc)[n := f]"
  have len: "length (ft_fills acc) = MAX_INTENTS" "length (ft_debit acc) = MAX_ASSETS" "length (ft_credit acc) = MAX_ASSETS"
    and old: "\<And>k. k < n \<Longrightarrow> fill_ok (orders ! k) (ft_fills acc ! k) \<and> input (ft_fills acc ! k) < 2 ^ 64 \<and> fill_output (ft_fills acc ! k) < 2 ^ 64"
    and deb: "\<And>a. a < MAX_ASSETS \<Longrightarrow> ft_debit acc ! a = sell_total orders n (\<lambda>k. input (ft_fills acc ! k)) a"
    and cre: "\<And>a. a < MAX_ASSETS \<Longrightarrow> ft_credit acc ! a = buy_total orders n (\<lambda>k. fill_output (ft_fills acc ! k)) a"
    using inv by (simp_all add: totals_upto_def)
  have sb: "?s < MAX_ASSETS" "?b < MAX_ASSETS" using t assets by (simp_all add: intent_ok_def)
  have "n * 2 ^ 64 \<le> 32 * 2 ^ 64" using n by (intro mult_le_mono) (simp_all add: MAX_INTENTS_def)
  then have "ft_debit acc ! ?s \<le> 32 * 2 ^ 64" "ft_credit acc ! ?b \<le> 32 * 2 ^ 64"
    unfolding deb [OF sb(1)] cre [OF sb(2)]
    using total_le [of n "\<lambda>k. input (ft_fills acc ! k)" "2 ^ 64" orders ?s] total_le [of n "\<lambda>k. fill_output (ft_fills acc ! k)" "2 ^ 64" orders ?b]
      old by (meson le_trans less_imp_le)+
  then have add: "add_to (ft_debit acc) ?s (input f) = Inr ((ft_debit acc)[?s := ft_debit acc ! ?s + input f])"
    "add_to (ft_credit acc) ?b (fill_output f) = Inr ((ft_credit acc)[?b := ft_credit acc ! ?b + fill_output f])"
    using sb len f(2,3) by (simp_all add: add_to_ok)
  have same: "sell_total orders n (\<lambda>k. input (?fs ! k)) a = sell_total orders n (\<lambda>k. input (ft_fills acc ! k)) a"
    "buy_total orders n (\<lambda>k. fill_output (?fs ! k)) a = buy_total orders n (\<lambda>k. fill_output (ft_fills acc ! k)) a" for a
    by (rule total_cong; simp)+
  have fills': "\<forall>k < Suc n. fill_ok (orders ! k) (?fs ! k) \<and> input (?fs ! k) < 2 ^ 64 \<and> fill_output (?fs ! k) < 2 ^ 64"
    using len(1) n f old by (simp add: nth_list_update less_Suc_eq)
  have deb': "(ft_debit acc)[?s := ft_debit acc ! ?s + input f] ! a = sell_total orders (Suc n) (\<lambda>k. input (?fs ! k)) a"
    "(ft_credit acc)[?b := ft_credit acc ! ?b + fill_output f] ! a = buy_total orders (Suc n) (\<lambda>k. fill_output (?fs ! k)) a"
    if "a < MAX_ASSETS" for a
    unfolding total_Suc same deb [OF that, symmetric] cre [OF that, symmetric]
    using len sb that n by (cases "?s = a"; cases "?b = a"; simp)+
  have "totals_upto orders (Suc n) \<lparr>ft_fills = ?fs, ft_cleared = c,
      ft_debit = (ft_debit acc)[?s := ft_debit acc ! ?s + input f],
      ft_credit = (ft_credit acc)[?b := ft_credit acc ! ?b + fill_output f]\<rparr>"
    using len fills' deb' by (simp add: totals_upto_def)
  then show thesis using that add by blast
qed

section \<open>Admission\<close>

abbreviation fold_errors :: "fault set" where
  "fold_errors \<equiv> {Err Bounds, Err InvalidAmount, Err Arithmetic, Err Expired, Err Duplicate, Err WorkLimit}"

lemma gcd_u128: "gcd_u128 a b = gcd a b"
proof (induction a b rule: gcd_u128.induct)
  case (1 a b)
  show ?case
  proof (cases "b = 0")
    case False
    then have "gcd_u128 a b = gcd_u128 b (a mod b)" by (subst gcd_u128.simps) simp
    also have "\<dots> = gcd b (a mod b)" using "1" False by simp
    also have "\<dots> = gcd a b" by (rule gcd_red_nat [symmetric])
    finally show ?thesis .
  qed (simp add: gcd_u128.simps)
qed

lemma price_quantum_fits:
  "0 < q \<Longrightarrow> q < 2 ^ 128 \<Longrightarrow> fits fold_errors (price_quantum ps q)
     (\<lambda>q'. 0 < q' \<and> q' < 2 ^ 128 \<and> q dvd q' \<and> (\<forall>p \<in> set ps. 0 < p \<and> p \<le> 1000000000000 \<and> p dvd q'))"
proof (induction ps arbitrary: q)
  case (Cons p ps)
  let ?q = "q div gcd q p * p"
  show ?case
  proof (cases "p = 0 \<or> 1000000000000 < p \<or> 2 ^ 128 \<le> ?q")
    case True
    then show ?thesis using Cons.prems by (auto simp: gcd_u128 div_w_def checked_mul_def)
  next
    case False
    have lcm: "?q = lcm q p" by (simp add: lcm_nat_def div_mult_swap mult.commute)
    then have "0 < ?q" using False Cons.prems(1) by (simp add: lcm_pos_nat)
    then have "fits fold_errors (price_quantum ps ?q)
        (\<lambda>q'. 0 < q' \<and> q' < 2 ^ 128 \<and> ?q dvd q' \<and> (\<forall>p \<in> set ps. 0 < p \<and> p \<le> 1000000000000 \<and> p dvd q'))"
      using Cons.IH False by simp
    then have "fits fold_errors (price_quantum ps ?q)
        (\<lambda>q'. 0 < q' \<and> q' < 2 ^ 128 \<and> q dvd q' \<and> (\<forall>p \<in> set (p # ps). 0 < p \<and> p \<le> 1000000000000 \<and> p dvd q'))"
      by (rule fits_mono) (use False lcm in \<open>auto intro: dvd_trans\<close>)
    then show ?thesis using False Cons.prems(1) by (simp add: gcd_u128 div_w_def checked_mul_def)
  qed
qed simp

text \<open>The admitted intents, and the lots each may clear.\<close>

definition fold_admitted :: "flow_intent list \<Rightarrow> nat \<Rightarrow> nat \<Rightarrow> nat \<Rightarrow> bool" where
  "fold_admitted orders assets slot n \<longleftrightarrow>
     (\<forall>i < n. intent_ok assets (orders ! i) \<and> slot \<le> expires_at_slot (orders ! i) \<and>
        (\<forall>j < i. \<not> (owner (orders ! j) = owner (orders ! i) \<and> nonce (orders ! j) = nonce (orders ! i))))"

definition price_capacity :: "nat list \<Rightarrow> nat \<Rightarrow> flow_intent \<Rightarrow> nat" where
  "price_capacity prices quantum t =
     (if min_out t * prices ! buy t \<le> amount t * prices ! sell t then amount t * prices ! sell t div quantum else 0)"

definition capacities_upto :: "flow_intent list \<Rightarrow> (flow_intent \<Rightarrow> nat) \<Rightarrow> nat \<Rightarrow> nat list \<Rightarrow> bool" where
  "capacities_upto orders cap n cs \<longleftrightarrow>
     length cs = MAX_INTENTS \<and> (\<forall>i < MAX_INTENTS. cs ! i = (if i < n then cap (orders ! i) else 0))"

lemma capacities_step:
  assumes "capacities_upto orders cap n cs" "n < MAX_INTENTS"
  shows "cap (orders ! n) = c \<Longrightarrow> capacities_upto orders cap (Suc n) (cs[n := c])"
    "cap (orders ! n) = 0 \<Longrightarrow> capacities_upto orders cap (Suc n) cs"
  using assms by (auto simp: capacities_upto_def nth_list_update less_Suc_eq)

lemma check_intent_fits:
  assumes "fold_admitted orders assets slot n" "n < length orders"
  shows "fits fold_errors (check_intent orders assets slot n (orders ! n)) (\<lambda>_. fold_admitted orders assets slot (Suc n))"
proof -
  have dup: "list_ex (\<lambda>a. owner a = owner (orders ! n) \<and> nonce a = nonce (orders ! n)) (take n orders) \<longleftrightarrow>
      (\<exists>j < n. owner (orders ! j) = owner (orders ! n) \<and> nonce (orders ! j) = nonce (orders ! n))"
  proof -
    have "set (take n orders) = nth orders ` {0..<n}" using assms(2) by (simp add: nth_image)
    then show ?thesis unfolding list_ex_iff by auto
  qed
  show ?thesis using assms(1) unfolding check_intent_def dup
    by (auto simp: fold_admitted_def intent_ok_def less_Suc_eq not_le not_less)
qed

section \<open>The fold at fixed prices\<close>

definition prices_ok :: "nat list \<Rightarrow> nat \<Rightarrow> bool" where
  "prices_ok prices quantum \<longleftrightarrow> 0 < quantum \<and> quantum < 2 ^ 128 \<and>
     (\<forall>p \<in> set prices. 0 < p \<and> p \<le> 1000000000000 \<and> p dvd quantum)"

lemma price_bounds:
  assumes "prices_ok prices quantum" "intent_ok (length prices) t"
  shows "0 < prices ! sell t" "0 < prices ! buy t" "prices ! sell t dvd quantum" "prices ! buy t dvd quantum"
    "amount t * prices ! sell t \<le> 10 ^ 26" "min_out t * prices ! buy t \<le> 10 ^ 26"
proof -
  have p: "prices ! sell t \<in> set prices" "prices ! buy t \<in> set prices" using assms(2) by (simp_all add: intent_ok_def)
  then show "0 < prices ! sell t" "0 < prices ! buy t" "prices ! sell t dvd quantum" "prices ! buy t dvd quantum"
    using assms(1) by (simp_all add: prices_ok_def)
  have "amount t * prices ! sell t \<le> MAX_ATOMS * 1000000000000" "min_out t * prices ! buy t \<le> MAX_ATOMS * 1000000000000"
    using p assms by (intro mult_le_mono; simp add: prices_ok_def intent_ok_def)+
  then show "amount t * prices ! sell t \<le> 10 ^ 26" "min_out t * prices ! buy t \<le> 10 ^ 26"
    by (simp_all add: MAX_ATOMS_def)
qed

lemma fold_admit_fits:
  assumes p: "prices_ok prices quantum" and n: "length orders \<le> MAX_INTENTS"
  shows "i \<le> length orders \<Longrightarrow> fold_admitted orders (length prices) slot i \<Longrightarrow>
    capacities_upto orders (price_capacity prices quantum) i cs \<Longrightarrow>
    req = (\<Sum>k < i. amount (orders ! k) * prices ! sell (orders ! k)) \<Longrightarrow> req \<le> i * 10 ^ 26 \<Longrightarrow>
    fits fold_errors (fold_admit orders prices quantum slot [i..<length orders] (cs, req))
      (\<lambda>(cs', req'). fold_admitted orders (length prices) slot (length orders) \<and>
         capacities_upto orders (price_capacity prices quantum) (length orders) cs' \<and>
         req' = (\<Sum>k < length orders. amount (orders ! k) * prices ! sell (orders ! k)))"
    (is "_ \<Longrightarrow> _ \<Longrightarrow> _ \<Longrightarrow> _ \<Longrightarrow> _ \<Longrightarrow> fits _ _ ?Q")
proof (induction "length orders - i" arbitrary: i cs req)
  case (Suc k)
  then have i: "i < length orders" "i < MAX_INTENTS" using n by simp_all
  let ?t = "orders ! i"
  show ?case
  proof (cases "check_intent orders (length prices) slot i ?t")
    case (Inl f)
    then show ?thesis using check_intent_fits [OF Suc.prems(2) i(1)] i by (simp add: upt_conv_Cons)
  next
    case (Inr u)
    then have adm: "fold_admitted orders (length prices) slot (Suc i)" using check_intent_fits [OF Suc.prems(2) i(1)] by simp
    then have t: "intent_ok (length prices) ?t" by (simp add: fold_admitted_def)
    then have ends: "sell ?t < length prices" "buy ?t < length prices" by (simp_all add: intent_ok_def)
    note b = price_bounds [OF p t]
    have "i * 10 ^ 26 \<le> 32 * 10 ^ 26" using i(2) by (intro mult_le_mono) (simp_all add: MAX_INTENTS_def)
    then have req: "req + amount ?t * prices ! sell ?t < 2 ^ 128" "req + amount ?t * prices ! sell ?t \<le> Suc i * 10 ^ 26"
      using Suc.prems(5) b(5) by simp_all
    let ?cs = "if min_out ?t * prices ! buy ?t \<le> amount ?t * prices ! sell ?t
      then cs[i := amount ?t * prices ! sell ?t div quantum] else cs"
    have cap: "capacities_upto orders (price_capacity prices quantum) (Suc i) ?cs"
      using capacities_step [OF Suc.prems(3) i(2)]
      by (cases "min_out ?t * prices ! buy ?t \<le> amount ?t * prices ! sell ?t") (simp_all add: price_capacity_def)
    have "fits fold_errors (fold_admit orders prices quantum slot [Suc i..<length orders] (?cs, req + amount ?t * prices ! sell ?t)) ?Q"
      by (rule Suc.hyps(1) [OF _ _ adm cap _ req(2)]) (use Suc.hyps(2) Suc.prems(4) i in simp_all)
    moreover have "mul_w 128 (amount ?t) (prices ! sell ?t) = Inr (amount ?t * prices ! sell ?t)"
      "mul_w 128 (min_out ?t) (prices ! buy ?t) = Inr (min_out ?t * prices ! buy ?t)"
      using b(5,6) by (simp_all add: mul_w_def)
    moreover have "(if min_out ?t * prices ! buy ?t \<le> amount ?t * prices ! sell ?t
        then bindR (div_w (amount ?t * prices ! sell ?t) quantum) (\<lambda>c. store_at cs i c) else Inr cs) = Inr ?cs"
      using p Suc.prems(3) i(2) by (simp add: div_w_def prices_ok_def capacities_upto_def)
    ultimately show ?thesis
      unfolding upt_conv_Cons [OF i(1)] fold_admit.simps using i ends req(1) Inr by (simp add: add_w_ok)
  qed
qed simp

lemma price_capacity_graph:
  assumes p: "prices_ok prices quantum" and n: "length orders \<le> MAX_INTENTS" "length prices \<le> MAX_ASSETS"
    and adm: "fold_admitted orders (length prices) slot (length orders)"
    and cap: "capacities_upto orders (price_capacity prices quantum) (length orders) cs"
  shows "graph_ok orders cs (replicate MAX_INTENTS 0) (length prices)"
proof -
  have "cs ! i < 2 ^ 127" if i: "i < length orders" for i
  proof -
    let ?t = "orders ! i"
    have "intent_ok (length prices) ?t" using adm i by (simp add: fold_admitted_def)
    then have "amount ?t * prices ! sell ?t \<le> 10 ^ 26" by (rule price_bounds [OF p])
    then have "price_capacity prices quantum ?t \<le> 10 ^ 26"
      using le_trans [OF div_le_dividend] by (simp add: price_capacity_def)
    then show ?thesis using cap i n(1) by (simp add: capacities_upto_def)
  qed
  then show ?thesis using n adm cap by (auto simp: graph_ok_def fold_admitted_def intent_ok_def capacities_upto_def)
qed

text \<open>A flow within the capacity of an intent is a fill within its limits.\<close>

lemma price_fill_ok:
  assumes p: "prices_ok prices quantum" and t: "intent_ok (length prices) t" and flow: "flow \<le> price_capacity prices quantum t"
  shows "flow * quantum div prices ! sell t * prices ! sell t = flow * quantum"
    "flow * quantum div prices ! buy t * prices ! buy t = flow * quantum"
    "flow * quantum \<le> 10 ^ 26" "flow * quantum div prices ! sell t \<le> amount t"
    "fill_ok t \<lparr>input = flow * quantum div prices ! sell t, fill_output = flow * quantum div prices ! buy t\<rparr>"
proof -
  note b = price_bounds [OF p t]
  let ?v = "flow * quantum" and ?ps = "prices ! sell t" and ?pb = "prices ! buy t"
  show eqs: "?v div ?ps * ?ps = ?v" "?v div ?pb * ?pb = ?v" using b(3,4) by (simp_all add: dvd_mult)
  have "price_capacity prices quantum t * quantum \<le> amount t * ?ps"
    by (simp add: price_capacity_def)
  then have v: "?v \<le> amount t * ?ps" using flow by (meson le_trans mult_le_mono1)
  then show "?v \<le> 10 ^ 26" using b(5) by simp
  show inp: "?v div ?ps \<le> amount t"
    using v b(1) by (metis div_le_mono nonzero_mult_div_cancel_right not_less_zero)
  have "?v div ?ps * min_out t \<le> ?v div ?pb * amount t"
  proof (cases "flow = 0")
    case False
    then have limit_met: "min_out t * ?pb \<le> amount t * ?ps" using flow by (auto simp: price_capacity_def split: if_splits)
    have "(?v div ?ps * min_out t) * (?ps * ?pb) = ?v * (min_out t * ?pb)" using eqs(1) by (metis mult.assoc mult.commute)
    also have "\<dots> \<le> ?v * (amount t * ?ps)" using limit_met by (rule mult_le_mono2)
    also have "\<dots> = (?v div ?pb * amount t) * (?ps * ?pb)" using eqs(2) by (metis mult.assoc mult.commute)
    finally show ?thesis using b(1,2) by simp
  qed simp
  then show "fill_ok t \<lparr>input = ?v div ?ps, fill_output = ?v div ?pb\<rparr>" using inp by (simp add: fill_ok_def)
qed

definition price_fills :: "flow_intent list \<Rightarrow> nat list \<Rightarrow> nat \<Rightarrow> nat list \<Rightarrow> nat \<Rightarrow> fold_fill list \<Rightarrow> bool" where
  "price_fills orders prices quantum flows n fs \<longleftrightarrow>
     (\<forall>k < n. input (fs ! k) * prices ! sell (orders ! k) = flows ! k * quantum \<and>
        fill_output (fs ! k) * prices ! buy (orders ! k) = flows ! k * quantum)"

lemma fold_fills_fits:
  assumes p: "prices_ok prices quantum" and n: "length orders \<le> MAX_INTENTS" "length prices \<le> MAX_ASSETS"
    and adm: "fold_admitted orders (length prices) slot (length orders)" and len: "length flows = MAX_INTENTS"
    and flows: "\<And>k. k < length orders \<Longrightarrow> flows ! k \<le> price_capacity prices quantum (orders ! k)"
  shows "i \<le> length orders \<Longrightarrow> totals_upto orders i acc \<Longrightarrow> price_fills orders prices quantum flows i (ft_fills acc) \<Longrightarrow>
    ft_cleared acc = (\<Sum>k < i. flows ! k * quantum) \<Longrightarrow> ft_cleared acc \<le> i * 10 ^ 26 \<Longrightarrow>
    fits fold_errors (fold_fills orders prices quantum flows [i..<length orders] acc)
      (\<lambda>acc'. totals_upto orders (length orders) acc' \<and> price_fills orders prices quantum flows (length orders) (ft_fills acc') \<and>
         ft_cleared acc' = (\<Sum>k < length orders. flows ! k * quantum))"
    (is "_ \<Longrightarrow> _ \<Longrightarrow> _ \<Longrightarrow> _ \<Longrightarrow> _ \<Longrightarrow> fits _ _ ?Q")
proof (induction "length orders - i" arbitrary: i acc)
  case (Suc m)
  then have i: "i < length orders" "i < MAX_INTENTS" using n by simp_all
  let ?t = "orders ! i" and ?v = "flows ! i * quantum"
  let ?inp = "?v div prices ! sell ?t" and ?out = "?v div prices ! buy ?t"
  have t: "intent_ok (length prices) ?t" using adm i by (simp add: fold_admitted_def)
  then have ends: "sell ?t < length prices" "buy ?t < length prices" by (simp_all add: intent_ok_def)
  note b = price_bounds [OF p t] and f = price_fill_ok [OF p t flows [OF i(1)]]
  have inp: "?inp < 2 ^ 64" using f(4) t by (simp add: intent_ok_def MAX_ATOMS_def)
  have val: "checked_mul 128 (flows ! i) quantum = Some ?v" using f(3) by (simp add: checked_mul_def)
  show ?case
  proof (cases "?out < 2 ^ 64")
    case False
    then have "fold_fills orders prices quantum flows [i..<length orders] acc = fail Arithmetic"
      unfolding upt_conv_Cons [OF i(1)] fold_fills.simps
      using i(1,2) len val ends b(1,2) inp by (simp add: div_w_def as_u64_def)
    then show ?thesis by simp
  next
    case True
    let ?f = "\<lparr>input = ?inp, fill_output = ?out\<rparr>"
    have cf: "check_fill ?t ?f = Inr ()" using f(5) inp True t by (intro check_fill_ok) simp_all
    obtain debit credit where tot: "add_to (ft_debit acc) (sell ?t) ?inp = Inr debit"
        "add_to (ft_credit acc) (buy ?t) ?out = Inr credit"
        "totals_upto orders (Suc i) \<lparr>ft_fills = (ft_fills acc)[i := ?f], ft_cleared = ft_cleared acc + ?v, ft_debit = debit, ft_credit = credit\<rparr>"
      using totals_step [OF Suc.prems(2) i(2) n(2) t f(5), of "ft_cleared acc + ?v"] inp True by auto
    let ?acc = "\<lparr>ft_fills = (ft_fills acc)[i := ?f], ft_cleared = ft_cleared acc + ?v, ft_debit = debit, ft_credit = credit\<rparr>"
    have pf: "price_fills orders prices quantum flows (Suc i) (ft_fills ?acc)"
      using Suc.prems(2,3) f(1,2) i(2) by (auto simp: price_fills_def totals_upto_def nth_list_update less_Suc_eq)
    have "i * 10 ^ 26 \<le> 32 * 10 ^ 26" using i(2) by (intro mult_le_mono) (simp_all add: MAX_INTENTS_def)
    then have cl: "ft_cleared acc + ?v < 2 ^ 128" "ft_cleared ?acc \<le> Suc i * 10 ^ 26" using Suc.prems(5) f(3) by simp_all
    have rest: "fits fold_errors (fold_fills orders prices quantum flows [Suc i..<length orders] ?acc) ?Q"
      by (rule Suc.hyps(1) [OF _ _ tot(3) pf _ cl(2)]) (use Suc.hyps(2) Suc.prems(4) i in simp_all)
    have "fold_fills orders prices quantum flows [i..<length orders] acc =
        fold_fills orders prices quantum flows [Suc i..<length orders] ?acc"
      unfolding upt_conv_Cons [OF i(1)] fold_fills.simps
      using i(1,2) len val ends b(1,2) inp True cf tot(1,2) cl(1) Suc.prems(2)
      by (simp add: div_w_def as_u64_def add_w_def totals_upto_def)
    then show ?thesis using rest by simp
  qed
qed simp

text \<open>What a report promises: fills within the limits, and conservation of every asset.\<close>

definition conserved :: "flow_intent list \<Rightarrow> fold_fill list \<Rightarrow> bool" where
  "conserved orders fs \<longleftrightarrow> length fs = MAX_INTENTS \<and>
     (\<forall>i < length orders. fill_ok (orders ! i) (fs ! i) \<and> input (fs ! i) < 2 ^ 64 \<and> fill_output (fs ! i) < 2 ^ 64) \<and>
     (\<forall>a. sell_total orders (length orders) (\<lambda>i. input (fs ! i)) a =
          buy_total orders (length orders) (\<lambda>i. fill_output (fs ! i)) a)"

lemma balanced_totals:
  assumes t: "totals_upto orders (length orders) acc"
    and bal: "\<And>a. sell_total orders (length orders) (\<lambda>i. input (ft_fills acc ! i)) a =
      buy_total orders (length orders) (\<lambda>i. fill_output (ft_fills acc ! i)) a"
  shows "ft_debit acc = ft_credit acc" "conserved orders (ft_fills acc)"
proof -
  show "ft_debit acc = ft_credit acc"
    by (rule nth_equalityI) (use t bal in \<open>simp_all add: totals_upto_def\<close>)
  show "conserved orders (ft_fills acc)" using t bal by (simp add: conserved_def totals_upto_def)
qed

lemma outside_totals:
  assumes "\<And>i. i < n \<Longrightarrow> intent_ok assets (orders ! i)" "assets \<le> a"
  shows "sell_total orders n f a = 0" "buy_total orders n f a = 0"
proof -
  have "sell (orders ! i) \<noteq> a \<and> buy (orders ! i) \<noteq> a" if "i < n" for i
    using assms(1) [OF that] assms(2) by (auto simp: intent_ok_def)
  then show "sell_total orders n f a = 0" "buy_total orders n f a = 0"
    by (simp_all add: sell_total_def buy_total_def)
qed

lemma price_balance:
  assumes p: "prices_ok prices quantum" and adm: "fold_admitted orders (length prices) slot (length orders)"
    and c: "\<And>a. net orders flows a = 0" and pf: "price_fills orders prices quantum flows (length orders) fs"
  shows "sell_total orders (length orders) (\<lambda>i. input (fs ! i)) a = buy_total orders (length orders) (\<lambda>i. fill_output (fs ! i)) a"
proof (cases "a < length prices")
  case True
  then have "0 < prices ! a" using p by (simp add: prices_ok_def)
  then show ?thesis
    by (rule scaled_totals [OF circulation_balance [OF c], where q = quantum])
      (use pf in \<open>auto simp: price_fills_def\<close>)
next
  case False
  have "intent_ok (length prices) (orders ! i)" if "i < length orders" for i
    using adm that by (simp add: fold_admitted_def)
  from outside_totals [OF this] False show ?thesis by simp
qed

section \<open>Validation accepts\<close>

definition tally_upto :: "flow_intent list \<Rightarrow> fold_fill list \<Rightarrow> nat \<Rightarrow> flows_at \<Rightarrow> bool" where
  "tally_upto orders fs n = (\<lambda>(debit, credit). length debit = MAX_ASSETS \<and> length credit = MAX_ASSETS \<and>
     (\<forall>a < MAX_ASSETS. debit ! a = sell_total orders n (\<lambda>k. input (fs ! k)) a \<and>
        credit ! a = buy_total orders n (\<lambda>k. fill_output (fs ! k)) a))"

lemma tally_step:
  assumes c: "conserved orders fs" and n: "n < length orders" "length orders \<le> MAX_INTENTS"
    and t: "intent_ok assets (orders ! n)" "assets \<le> MAX_ASSETS" and inv: "tally_upto orders fs n acc"
  obtains acc' where "tally (orders ! n) (fs ! n) acc = Inr acc'" "tally_upto orders fs (Suc n) acc'"
proof -
  obtain debit credit where acc: "acc = (debit, credit)" by (cases acc)
  let ?s = "sell (orders ! n)" and ?b = "buy (orders ! n)"
  have len: "length debit = MAX_ASSETS" "length credit = MAX_ASSETS"
    and tot: "\<And>a. a < MAX_ASSETS \<Longrightarrow> debit ! a = sell_total orders n (\<lambda>k. input (fs ! k)) a"
      "\<And>a. a < MAX_ASSETS \<Longrightarrow> credit ! a = buy_total orders n (\<lambda>k. fill_output (fs ! k)) a"
    using inv by (simp_all add: tally_upto_def acc)
  have sb: "?s < MAX_ASSETS" "?b < MAX_ASSETS" using t by (simp_all add: intent_ok_def)
  have small: "input (fs ! k) \<le> 2 ^ 64" "fill_output (fs ! k) \<le> 2 ^ 64" if "k < length orders" for k
    using c that by (auto simp: conserved_def less_imp_le)
  have "n * 2 ^ 64 \<le> 32 * 2 ^ 64" using n by (intro mult_le_mono) (simp_all add: MAX_INTENTS_def)
  moreover have "debit ! ?s \<le> n * 2 ^ 64" "credit ! ?b \<le> n * 2 ^ 64"
    unfolding tot(1) [OF sb(1)] tot(2) [OF sb(2)] by (rule total_le; use small n in simp)+
  ultimately have add: "add_to debit ?s (input (fs ! n)) = Inr (debit[?s := debit ! ?s + input (fs ! n)])"
    "add_to credit ?b (fill_output (fs ! n)) = Inr (credit[?b := credit ! ?b + fill_output (fs ! n)])"
    using sb len small [OF n(1)] by (simp_all add: add_to_ok)
  have "tally_upto orders fs (Suc n) (debit[?s := debit ! ?s + input (fs ! n)], credit[?b := credit ! ?b + fill_output (fs ! n)])"
    using len sb tot by (auto simp: tally_upto_def nth_list_update)
  then show thesis using that add by (simp add: tally_def acc)
qed

lemma tally_upto_0: "tally_upto orders fs 0 no_flows"
  by (simp add: tally_upto_def no_flows_def sell_total_def buy_total_def)

lemma tally_balanced:
  "conserved orders fs \<Longrightarrow> tally_upto orders fs (length orders) (debit, credit) \<Longrightarrow> debit = credit"
  by (rule nth_equalityI) (simp_all add: tally_upto_def conserved_def)

lemma fill_not_below:
  assumes "fill_ok t f" "input f < 2 ^ 64" "fill_output f < 2 ^ 64" "intent_ok assets t"
  shows "fill_below_floor t f = Inr False"
  using check_fill_ok [OF assms] assms(1)
  by (auto simp: check_fill_def fill_below_floor_def fill_ok_def monad_simps split: if_splits)

lemma validate_entries_accepts:
  assumes c: "conserved orders fs" and n: "length orders \<le> MAX_INTENTS" "assets \<le> MAX_ASSETS"
    and t: "\<And>i. i < length orders \<Longrightarrow> intent_ok assets (orders ! i)"
    and z: "\<And>i. i < length orders \<Longrightarrow> input (fs ! i) = 0 \<Longrightarrow> fill_output (fs ! i) = 0"
  shows "i \<le> length orders \<Longrightarrow> tally_upto orders fs i acc \<Longrightarrow>
    \<exists>acc'. validate_entries orders fs [i..<length orders] acc = Inr acc' \<and> tally_upto orders fs (length orders) acc'"
proof (induction "length orders - i" arbitrary: i acc)
  case (Suc m)
  then have i: "i < length orders" by simp
  obtain acc' where tal: "tally (orders ! i) (fs ! i) acc = Inr acc'" "tally_upto orders fs (Suc i) acc'"
    using tally_step [OF c i n(1) t [OF i] n(2) Suc.prems(2)] by blast
  have f: "fill_ok (orders ! i) (fs ! i)" "input (fs ! i) < 2 ^ 64" "fill_output (fs ! i) < 2 ^ 64" "length fs = MAX_INTENTS"
    using c i by (simp_all add: conserved_def)
  have "\<not> (input (fs ! i) = 0 \<and> fill_output (fs ! i) \<noteq> 0)" 
    using z [OF i] by (cases "input (fs ! i) = 0") simp_all
  then have "validate_entry (orders ! i) (fs ! i) = Inr ()"
    using fill_not_below [OF f(1-3) t [OF i]] t [OF i] n(2) f(1)
    unfolding validate_entry_def by (simp add: intent_ok_def fill_ok_def)
  moreover have "\<exists>acc''. validate_entries orders fs [Suc i..<length orders] acc' = Inr acc'' \<and> tally_upto orders fs (length orders) acc''"
    by (rule Suc.hyps(1) [OF _ _ tal(2)]) (use Suc i in simp_all)
  ultimately show ?case using i n(1) f(4) tal(1) by (auto simp: upt_conv_Cons)
qed simp

section \<open>The fold\<close>

definition fold_run ::
  "flow_intent list \<Rightarrow> nat list \<Rightarrow> nat \<Rightarrow> nat \<Rightarrow> fold_report \<Rightarrow> nat list \<Rightarrow> pivot_state \<Rightarrow> bool"
where
  "fold_run orders prices slot max_pivots report capacities s \<longleftrightarrow>
     length orders \<le> MAX_INTENTS \<and> length prices \<le> MAX_ASSETS \<and> prices_ok prices (value_quantum report) \<and>
     fold_admitted orders (length prices) slot (length orders) \<and>
     capacities_upto orders (price_capacity prices (value_quantum report)) (length orders) capacities \<and>
     pivot_ok orders capacities (length prices) max_pivots s \<and>
     price_fills orders prices (value_quantum report) (ps_flows s) (length orders) (fills report) \<and>
     requested_value report = (\<Sum>k < length orders. amount (orders ! k) * prices ! sell (orders ! k)) \<and>
     internally_cleared_value report = (\<Sum>k < length orders. ps_flows s ! k * value_quantum report) \<and>
     optimal_at_fixed_prices report = ps_optimal s \<and> pivots report = ps_pivots s \<and>
     conserved orders (fills report)"

lemma price_report_fits:
  assumes p: "prices_ok prices quantum" and n: "length orders \<le> MAX_INTENTS" "length prices \<le> MAX_ASSETS"
    and adm: "fold_admitted orders (length prices) slot (length orders)"
    and cap: "capacities_upto orders (price_capacity prices quantum) (length orders) cs"
    and req: "req = (\<Sum>k < length orders. amount (orders ! k) * prices ! sell (orders ! k))"
    and s: "pivot_ok orders cs (length prices) max_pivots s"
  shows "fits fold_errors (price_report orders prices quantum req s)
    (\<lambda>report. fold_run orders prices slot max_pivots report cs s)"
proof -
  have len: "length (ps_flows s) = MAX_INTENTS" and bal: "\<And>a. net orders (ps_flows s) a = 0"
    using s by (simp_all add: pivot_ok_def circulation_def graph_ok_def)
  have flows: "ps_flows s ! k \<le> price_capacity prices quantum (orders ! k)" if "k < length orders" for k
    using s cap that n(1) by (simp add: pivot_ok_def circulation_def graph_ok_def capacities_upto_def)
  have pf0: "price_fills orders prices quantum (ps_flows s) 0 (ft_fills no_totals)" by (simp add: price_fills_def)
  show ?thesis unfolding price_report_def
  proof (rule fits_bindR [OF fold_fills_fits [OF p n adm len flows _ totals_upto_0 pf0]])
    fix acc assume "totals_upto orders (length orders) acc \<and>
        price_fills orders prices quantum (ps_flows s) (length orders) (ft_fills acc) \<and>
        ft_cleared acc = (\<Sum>k < length orders. ps_flows s ! k * quantum)"
    then have t: "totals_upto orders (length orders) acc"
      and pf: "price_fills orders prices quantum (ps_flows s) (length orders) (ft_fills acc)"
      and cl: "ft_cleared acc = (\<Sum>k < length orders. ps_flows s ! k * quantum)" by simp_all
    note tots = balanced_totals [OF t price_balance [OF p adm bal pf]]
    show "fits fold_errors (if ft_debit acc \<noteq> ft_credit acc then fail BalanceInvariant
        else Inr \<lparr>fills = ft_fills acc, value_quantum = quantum, requested_value = req,
             internally_cleared_value = ft_cleared acc, pivots = ps_pivots s,
             reverse_edge_pivots = ps_reverse s, optimal_at_fixed_prices = ps_optimal s\<rparr>)
        (\<lambda>report. fold_run orders prices slot max_pivots report cs s)"
      using tots n p adm cap s pf cl req by (simp add: fold_run_def)
  qed (simp_all add: no_totals_def)
qed

lemma run_pivots_meets:
  assumes "graph_ok orders cs (replicate MAX_INTENTS 0) assets" "0 < assets" "m \<le> MAX_PIVOTS"
  shows "meets fold_errors (run_pivots orders cs assets m) (pivot_ok orders cs assets m)"
  using run_pivots_ok [OF assms] by (fastforce simp: yields_def intro!: meetsI)

lemma fold_flow_run:
  "meets fold_errors (fold_flow orders prices slot max_pivots) (\<lambda>report. \<exists>cs s. fold_run orders prices slot max_pivots report cs s)"
    (is "meets _ _ ?Q")
proof (cases "orders = [] \<or> MAX_INTENTS < length orders \<or> length prices < 2 \<or> MAX_ASSETS < length prices \<or> MAX_PIVOTS < max_pivots")
  case True
  then show ?thesis by (auto simp: fold_flow_def intro!: meets_liftR)
next
  case False
  then have n: "length orders \<le> MAX_INTENTS" "length prices \<le> MAX_ASSETS" "max_pivots \<le> MAX_PIVOTS" "0 < length prices"
    by auto
  show ?thesis unfolding fold_flow_def if_not_P [OF False]
  proof (rule meets_liftR_then [OF price_quantum_fits], goal_cases)
    case (3 quantum)
    then have p: "prices_ok prices quantum" by (simp add: prices_ok_def)
    have start: "fold_admitted orders (length prices) slot 0" "capacities_upto orders (price_capacity prices quantum) 0 (replicate MAX_INTENTS 0)"
      by (simp_all add: fold_admitted_def capacities_upto_def)
    show ?case
    proof (rule meets_liftR_then [OF fold_admit_fits [OF p n(1) _ start]], goal_cases)
      case (4 x)
      then obtain cs req where x: "x = (cs, req)" and adm: "fold_admitted orders (length prices) slot (length orders)"
          and cap: "capacities_upto orders (price_capacity prices quantum) (length orders) cs"
          and req: "req = (\<Sum>k < length orders. amount (orders ! k) * prices ! sell (orders ! k))" by auto
      have g: "graph_ok orders cs (replicate MAX_INTENTS 0) (length prices)"
        by (rule price_capacity_graph [OF p n(1,2) adm cap])
      show ?case unfolding x prod.case
        by (rule meets_bindS [OF run_pivots_meets [OF g n(4,3)]])
          (auto intro!: meets_liftR fits_mono [OF price_report_fits [OF p n(1,2) adm cap req]])
    qed simp_all
  qed simp_all
qed

lemma price_fills_zero:
  assumes "fold_run orders prices slot max_pivots report cs s" "i < length orders" "input (fills report ! i) = 0"
  shows "fill_output (fills report ! i) = 0"
proof -
  have f: "input (fills report ! i) * prices ! sell (orders ! i) = ps_flows s ! i * value_quantum report"
      "fill_output (fills report ! i) * prices ! buy (orders ! i) = ps_flows s ! i * value_quantum report"
    using assms(1,2) by (simp_all add: fold_run_def price_fills_def)
  have "prices_ok prices (value_quantum report)" "intent_ok (length prices) (orders ! i)"
    using assms(1,2) by (simp_all add: fold_run_def fold_admitted_def)
  then have "0 < prices ! buy (orders ! i)" by (rule price_bounds(2))
  moreover have "fill_output (fills report ! i) * prices ! buy (orders ! i) = 0"
    unfolding f(2) f(1) [symmetric] using assms(3) by simp
  ultimately show ?thesis by simp
qed

lemma fold_run_validates:
  assumes "fold_run orders prices slot max_pivots report cs s"
  shows "validate_fold orders report = Inr ()"
proof -
  have c: "conserved orders (fills report)" and n: "length orders \<le> MAX_INTENTS" "length prices \<le> MAX_ASSETS"
    and t: "\<And>i. i < length orders \<Longrightarrow> intent_ok (length prices) (orders ! i)"
    using assms by (simp_all add: fold_run_def fold_admitted_def)
  have "\<exists>acc. validate_entries orders (fills report) [0..<length orders] no_flows = Inr acc \<and>
      tally_upto orders (fills report) (length orders) acc"
    by (rule validate_entries_accepts [OF c n t price_fills_zero [OF assms] _ tally_upto_0]) simp_all
  then obtain debit credit where v: "validate_entries orders (fills report) [0..<length orders] no_flows = Inr (debit, credit)"
      "tally_upto orders (fills report) (length orders) (debit, credit)" by auto
  show ?thesis unfolding validate_fold_def v(1) using tally_balanced [OF c v(2)] n(1) by simp
qed

lemma fold_flow_fits:
  "fits fold_errors (fst (fold_flow orders prices slot max_pivots m)) (\<lambda>report. \<exists>cs s. fold_run orders prices slot max_pivots report cs s)"
  using fold_flow_run by (simp add: meets_def)

text \<open>
  \<^bold>\<open>C9.\<close> Folding at fixed prices returns one of six errors or a report; it never panics, and the
  conservation and limit checks at its end never fire. In a report every fill respects its intent's
  amount and limit price, every asset is conserved, the totals are those of the fills, and the
  validator accepts it.
\<close>

theorem fold_report_sound:
  "fits {Err Bounds, Err InvalidAmount, Err Arithmetic, Err Expired, Err Duplicate, Err WorkLimit}
     (fst (fold_flow orders prices slot max_pivots m))
     (\<lambda>report. conserved orders (fills report) \<and> validate_fold orders report = Inr () \<and>
        requested_value report = (\<Sum>k < length orders. amount (orders ! k) * prices ! sell (orders ! k)) \<and>
        internally_cleared_value report = (\<Sum>k < length orders. input (fills report ! k) * prices ! sell (orders ! k)) \<and>
        pivots report \<le> max_pivots)"
proof -
  show ?thesis
  proof (rule fits_mono [OF fold_flow_fits], elim exE)
    fix report cs s assume r: "fold_run orders prices slot max_pivots report cs s"
    have "internally_cleared_value report = (\<Sum>k < length orders. input (fills report ! k) * prices ! sell (orders ! k))"
      using r unfolding fold_run_def price_fills_def by (auto intro!: sum.cong)
    then show "conserved orders (fills report) \<and> validate_fold orders report = Inr () \<and>
        requested_value report = (\<Sum>k < length orders. amount (orders ! k) * prices ! sell (orders ! k)) \<and>
        internally_cleared_value report = (\<Sum>k < length orders. input (fills report ! k) * prices ! sell (orders ! k)) \<and>
        pivots report \<le> max_pivots"
      using r fold_run_validates [OF r] by (simp add: fold_run_def pivot_ok_def)
  qed
qed

text \<open>Any other clearing in whole quanta, within the capacities and conserving every asset.\<close>

definition clearing_within :: "flow_intent list \<Rightarrow> (flow_intent \<Rightarrow> nat) \<Rightarrow> nat list \<Rightarrow> bool" where
  "clearing_within orders cap flows \<longleftrightarrow> length flows = MAX_INTENTS \<and>
     (\<forall>i < length orders. flows ! i \<le> cap (orders ! i)) \<and>
     (\<forall>a. sell_total orders (length orders) (\<lambda>i. flows ! i) a = buy_total orders (length orders) (\<lambda>i. flows ! i) a)"

lemma clearing_circulation:
  assumes "clearing_within orders cap flows" "graph_ok orders cs fs assets" "capacities_upto orders cap (length orders) cs"
  shows "circulation orders cs assets flows"
proof -
  have "net orders flows a = int (buy_total orders (length orders) (\<lambda>i. flows ! i) a)
      - int (sell_total orders (length orders) (\<lambda>i. flows ! i) a)" for a
    unfolding net_def sell_total_def buy_total_def of_nat_sum sum_subtractf [symmetric]
    by (intro sum.cong) auto
  then show ?thesis using assms by (auto simp: circulation_def clearing_within_def graph_ok_def capacities_upto_def)
qed

text \<open>
  \<^bold>\<open>C10.\<close> When a fold reports \<open>optimal_at_fixed_prices\<close>, no clearing of the same intents in whole
  value quanta, within the same limits and conserving every asset, clears more value.
\<close>

theorem fold_optimal:
  assumes "fst (fold_flow orders prices slot max_pivots m) = Inr report" "optimal_at_fixed_prices report"
    "clearing_within orders (price_capacity prices (value_quantum report)) flows"
  shows "(\<Sum>k < length orders. flows ! k * value_quantum report) \<le> internally_cleared_value report"
proof -
  obtain cs s where r: "fold_run orders prices slot max_pivots report cs s"
    using fold_flow_fits [of orders prices slot max_pivots m] assms(1) by auto
  then have p: "pivot_ok orders cs (length prices) max_pivots s" and o: "ps_optimal s"
    and cap: "capacities_upto orders (price_capacity prices (value_quantum report)) (length orders) cs"
    and v: "internally_cleared_value report = volume orders (ps_flows s) * value_quantum report"
    using assms(2) by (simp_all add: fold_run_def volume_def sum_distrib_right)
  have "circulation orders cs (length prices) flows"
    using p by (intro clearing_circulation [OF assms(3) _ cap]) (auto simp: pivot_ok_def circulation_def)
  then have "volume orders flows \<le> volume orders (ps_flows s)" using p o by (simp add: pivot_ok_def)
  then show ?thesis unfolding v by (simp add: volume_def sum_distrib_right [symmetric])
qed

text \<open>Three owners trading around a ring of three assets.\<close>

definition demo_intents :: "flow_intent list" where
  "demo_intents =
     [\<lparr>owner = 1, nonce = 0, sell = 0, buy = 1, amount = 10, min_out = 4, expires_at_slot = 9\<rparr>,
      \<lparr>owner = 2, nonce = 0, sell = 1, buy = 2, amount = 6, min_out = 3, expires_at_slot = 9\<rparr>,
      \<lparr>owner = 3, nonce = 0, sell = 2, buy = 0, amount = 4, min_out = 7, expires_at_slot = 9\<rparr>]"

lemma fold_optimal_witness:
  "case fst (fold_flow demo_intents [1, 2, 2] 5 8 (meter_new 1000)) of Inl _ \<Rightarrow> False
   | Inr report \<Rightarrow> 3 * 2 \<le> internally_cleared_value report"
proof -
  let ?r = "fst (fold_flow demo_intents [1, 2, 2] 5 8 (meter_new 1000))"
  let ?flows = "[1, 1, 1] @ replicate 29 0"
  have "case ?r of Inl _ \<Rightarrow> False | Inr report \<Rightarrow> optimal_at_fixed_prices report \<and> value_quantum report = 2" by code_simp
  then obtain report where r: "?r = Inr report" "optimal_at_fixed_prices report" "value_quantum report = 2"
    by (cases ?r) auto
  have "clearing_within demo_intents (price_capacity [1, 2, 2] 2) ?flows"
    by (auto simp: clearing_within_def demo_intents_def price_capacity_def MAX_INTENTS_def sell_total_def buy_total_def
        numeral_3_eq_3 lessThan_Suc less_Suc_eq)
  then have "clearing_within demo_intents (price_capacity [1, 2, 2] (value_quantum report)) ?flows" by (simp only: r(3))
  note le = fold_optimal [OF r(1,2) this]
  have "(\<Sum>k < length demo_intents. ?flows ! k * 2) = (3 * 2 :: nat)"
    by (simp add: demo_intents_def numeral_3_eq_3 lessThan_Suc)
  then have "3 * 2 \<le> internally_cleared_value report" using le unfolding r(3) by linarith
  then show ?thesis unfolding r(1) sum.case .
qed

end
