(* ===== verification/FoldLots.thy ===== *)
theory FoldLots
  imports FoldSound
begin

text \<open>The same promises for the fold on asset lots, where an intent clears whole lots.\<close>

definition lots_ok :: "nat list \<Rightarrow> bool" where
  "lots_ok lots \<longleftrightarrow> (\<forall>l \<in> set lots. 0 < l \<and> l \<le> MAX_ATOMS)"

definition lot_capacity :: "nat list \<Rightarrow> flow_intent \<Rightarrow> nat" where
  "lot_capacity lots t =
     (if lots ! sell t * min_out t \<le> lots ! buy t * amount t then amount t div lots ! sell t else 0)"

lemma lot_bounds:
  assumes "lots_ok lots" "intent_ok (length lots) t"
  shows "0 < lots ! sell t" "0 < lots ! buy t" "lots ! sell t \<le> MAX_ATOMS" "lots ! buy t \<le> MAX_ATOMS"
    "lots ! buy t * amount t < 2 ^ 128" "lots ! sell t * min_out t < 2 ^ 128"
proof -
  have l: "lots ! sell t \<in> set lots" "lots ! buy t \<in> set lots" using assms(2) by (simp_all add: intent_ok_def)
  then show b: "0 < lots ! sell t" "0 < lots ! buy t" "lots ! sell t \<le> MAX_ATOMS" "lots ! buy t \<le> MAX_ATOMS"
    using assms(1) by (simp_all add: lots_ok_def)
  have "lots ! buy t * amount t \<le> MAX_ATOMS * MAX_ATOMS" "lots ! sell t * min_out t \<le> MAX_ATOMS * MAX_ATOMS"
    using b assms(2) by (intro mult_le_mono; simp add: intent_ok_def)+
  then show "lots ! buy t * amount t < 2 ^ 128" "lots ! sell t * min_out t < 2 ^ 128" by (simp_all add: MAX_ATOMS_def)
qed

lemma lot_admit_fits:
  assumes p: "lots_ok lots" and n: "length orders \<le> MAX_INTENTS"
  shows "i \<le> length orders \<Longrightarrow> fold_admitted orders (length lots) slot i \<Longrightarrow>
    capacities_upto orders (lot_capacity lots) i cs \<Longrightarrow>
    req = (\<Sum>k < i. amount (orders ! k) div lots ! sell (orders ! k)) \<Longrightarrow>
    fits fold_errors (lot_admit orders lots slot [i..<length orders] (cs, req))
      (\<lambda>(cs', req'). fold_admitted orders (length lots) slot (length orders) \<and>
         capacities_upto orders (lot_capacity lots) (length orders) cs' \<and>
         req' = (\<Sum>k < length orders. amount (orders ! k) div lots ! sell (orders ! k)))"
    (is "_ \<Longrightarrow> _ \<Longrightarrow> _ \<Longrightarrow> _ \<Longrightarrow> fits _ _ ?Q")
proof (induction "length orders - i" arbitrary: i cs req)
  case (Suc k)
  then have i: "i < length orders" "i < MAX_INTENTS" using n by simp_all
  let ?t = "orders ! i"
  show ?case
  proof (cases "check_intent orders (length lots) slot i ?t")
    case (Inl f)
    then show ?thesis using check_intent_fits [OF Suc.prems(2) i(1)] i by (simp add: upt_conv_Cons)
  next
    case (Inr u)
    then have adm: "fold_admitted orders (length lots) slot (Suc i)" using check_intent_fits [OF Suc.prems(2) i(1)] by simp
    then have t: "intent_ok (length lots) ?t" by (simp add: fold_admitted_def)
    then have ends: "sell ?t < length lots" "buy ?t < length lots" by (simp_all add: intent_ok_def)
    note b = lot_bounds [OF p t]
    let ?w = "amount ?t div lots ! sell ?t"
    let ?cs = "if lots ! sell ?t * min_out ?t \<le> lots ! buy ?t * amount ?t then cs[i := ?w] else cs"
    have cap: "capacities_upto orders (lot_capacity lots) (Suc i) ?cs"
      using capacities_step [OF Suc.prems(3) i(2)]
      by (cases "lots ! sell ?t * min_out ?t \<le> lots ! buy ?t * amount ?t") (simp_all add: lot_capacity_def)
    have rest: "fits fold_errors (lot_admit orders lots slot [Suc i..<length orders] (?cs, req + ?w)) ?Q"
      by (rule Suc.hyps(1) [OF _ _ adm cap]) (use Suc.hyps(2) Suc.prems(4) i in simp_all)
    have store: "(if lots ! sell ?t * min_out ?t \<le> lots ! buy ?t * amount ?t then store_at cs i ?w else Inr cs) = Inr ?cs"
      using Suc.prems(3) i(2) by (simp add: capacities_upto_def)
    have "fits fold_errors (lot_admit orders lots slot [i..<length orders] (cs, req)) ?Q"
    proof (cases "req + ?w < 2 ^ 128")
      case True
      then have "lot_admit orders lots slot [i..<length orders] (cs, req) =
          lot_admit orders lots slot [Suc i..<length orders] (?cs, req + ?w)"
        unfolding upt_conv_Cons [OF i(1)] lot_admit.simps
        using i ends b Inr store by (simp add: div_w_def checked_add_def mul_w_ok)
      then show ?thesis using rest by simp
    next
      case False
      then have "lot_admit orders lots slot [i..<length orders] (cs, req) = fail Arithmetic"
        unfolding upt_conv_Cons [OF i(1)] lot_admit.simps
        using i ends b Inr by (simp add: div_w_def checked_add_def)
      then show ?thesis by simp
    qed
    then show ?thesis .
  qed
qed simp

lemma lot_capacity_graph:
  assumes n: "length orders \<le> MAX_INTENTS" "length lots \<le> MAX_ASSETS"
    and adm: "fold_admitted orders (length lots) slot (length orders)"
    and cap: "capacities_upto orders (lot_capacity lots) (length orders) cs"
  shows "graph_ok orders cs (replicate MAX_INTENTS 0) (length lots)"
proof -
  have "cs ! i < 2 ^ 127" if i: "i < length orders" for i
  proof -
    have "intent_ok (length lots) (orders ! i)" using adm i by (simp add: fold_admitted_def)
    then have "lot_capacity lots (orders ! i) \<le> MAX_ATOMS"
      using le_trans [OF div_le_dividend] by (simp add: lot_capacity_def intent_ok_def)
    then show ?thesis using cap i n(1) by (simp add: capacities_upto_def MAX_ATOMS_def)
  qed
  then show ?thesis using n adm cap by (auto simp: graph_ok_def fold_admitted_def intent_ok_def capacities_upto_def)
qed

lemma lot_fill_ok:
  assumes p: "lots_ok lots" and t: "intent_ok (length lots) t" and flow: "flow \<le> lot_capacity lots t"
  shows "flow * lots ! sell t \<le> amount t" "flow * lots ! buy t < 2 ^ 128" "flow \<le> MAX_ATOMS"
    "fill_ok t \<lparr>input = flow * lots ! sell t, fill_output = flow * lots ! buy t\<rparr>"
proof -
  note b = lot_bounds [OF p t]
  have "lot_capacity lots t \<le> amount t div lots ! sell t" by (simp add: lot_capacity_def)
  then have f: "flow \<le> amount t div lots ! sell t" using flow by simp
  then have "flow * lots ! sell t \<le> amount t div lots ! sell t * lots ! sell t" by simp
  also have "\<dots> \<le> amount t" by (rule div_times_less_eq_dividend)
  finally show inp: "flow * lots ! sell t \<le> amount t" .
  show small: "flow \<le> MAX_ATOMS" using f t le_trans [OF div_le_dividend] by (simp add: intent_ok_def) (meson div_le_dividend le_trans)
  have "flow * lots ! buy t \<le> MAX_ATOMS * MAX_ATOMS" using small b(4) by (rule mult_le_mono)
  then show "flow * lots ! buy t < 2 ^ 128" by (simp add: MAX_ATOMS_def)
  have "flow * lots ! sell t * min_out t \<le> flow * lots ! buy t * amount t"
  proof (cases "flow = 0")
    case False
    then have "lots ! sell t * min_out t \<le> lots ! buy t * amount t" using flow by (auto simp: lot_capacity_def split: if_splits)
    then show ?thesis unfolding mult.assoc by (rule mult_le_mono2)
  qed simp
  then show "fill_ok t \<lparr>input = flow * lots ! sell t, fill_output = flow * lots ! buy t\<rparr>" using inp by (simp add: fill_ok_def)
qed

definition lot_fills_of :: "flow_intent list \<Rightarrow> nat list \<Rightarrow> nat list \<Rightarrow> nat \<Rightarrow> fold_fill list \<Rightarrow> bool" where
  "lot_fills_of orders lots flows n fs \<longleftrightarrow>
     (\<forall>k < n. fs ! k = \<lparr>input = flows ! k * lots ! sell (orders ! k), fill_output = flows ! k * lots ! buy (orders ! k)\<rparr>)"

lemma fold_lot_fills_fits:
  assumes p: "lots_ok lots" and n: "length orders \<le> MAX_INTENTS" "length lots \<le> MAX_ASSETS"
    and adm: "fold_admitted orders (length lots) slot (length orders)" and len: "length flows = MAX_INTENTS"
    and flows: "\<And>k. k < length orders \<Longrightarrow> flows ! k \<le> lot_capacity lots (orders ! k)"
  shows "i \<le> length orders \<Longrightarrow> totals_upto orders i acc \<Longrightarrow> lot_fills_of orders lots flows i (ft_fills acc) \<Longrightarrow>
    ft_cleared acc = (\<Sum>k < i. flows ! k) \<Longrightarrow> ft_cleared acc \<le> i * MAX_ATOMS \<Longrightarrow>
    fits fold_errors (fold_lot_fills orders lots flows [i..<length orders] acc)
      (\<lambda>acc'. totals_upto orders (length orders) acc' \<and> lot_fills_of orders lots flows (length orders) (ft_fills acc') \<and>
         ft_cleared acc' = (\<Sum>k < length orders. flows ! k))"
    (is "_ \<Longrightarrow> _ \<Longrightarrow> _ \<Longrightarrow> _ \<Longrightarrow> _ \<Longrightarrow> fits _ _ ?Q")
proof (induction "length orders - i" arbitrary: i acc)
  case (Suc m)
  then have i: "i < length orders" "i < MAX_INTENTS" using n by simp_all
  let ?t = "orders ! i" and ?n = "flows ! i"
  let ?inp = "?n * lots ! sell ?t" and ?out = "?n * lots ! buy ?t"
  have t: "intent_ok (length lots) ?t" using adm i by (simp add: fold_admitted_def)
  then have ends: "sell ?t < length lots" "buy ?t < length lots" by (simp_all add: intent_ok_def)
  note f = lot_fill_ok [OF p t flows [OF i(1)]]
  have inp: "?inp < 2 ^ 64" using f(1) t by (simp add: intent_ok_def MAX_ATOMS_def)
  have muls: "checked_mul 128 ?n (lots ! sell ?t) = Some ?inp" "checked_mul 128 ?n (lots ! buy ?t) = Some ?out"
    using inp f(2) by (simp_all add: checked_mul_def)
  show ?case
  proof (cases "?out < 2 ^ 64")
    case False
    then have "fold_lot_fills orders lots flows [i..<length orders] acc = fail Arithmetic"
      unfolding upt_conv_Cons [OF i(1)] fold_lot_fills.simps
      using i(1,2) len muls ends inp by (simp add: as_u64_def)
    then show ?thesis by simp
  next
    case True
    let ?f = "\<lparr>input = ?inp, fill_output = ?out\<rparr>"
    have cf: "check_fill ?t ?f = Inr ()" using f(4) inp True t by (intro check_fill_ok) simp_all
    obtain debit credit where tot: "add_to (ft_debit acc) (sell ?t) ?inp = Inr debit"
        "add_to (ft_credit acc) (buy ?t) ?out = Inr credit"
        "totals_upto orders (Suc i) \<lparr>ft_fills = (ft_fills acc)[i := ?f], ft_cleared = ft_cleared acc + ?n, ft_debit = debit, ft_credit = credit\<rparr>"
      using totals_step [OF Suc.prems(2) i(2) n(2) t f(4), of "ft_cleared acc + ?n"] inp True by auto
    let ?acc = "\<lparr>ft_fills = (ft_fills acc)[i := ?f], ft_cleared = ft_cleared acc + ?n, ft_debit = debit, ft_credit = credit\<rparr>"
    have pf: "lot_fills_of orders lots flows (Suc i) (ft_fills ?acc)"
      using Suc.prems(2,3) i(2) by (auto simp: lot_fills_of_def totals_upto_def nth_list_update less_Suc_eq)
    have "i * MAX_ATOMS \<le> 32 * MAX_ATOMS" using i(2) by (intro mult_le_mono) (simp_all add: MAX_INTENTS_def)
    then have cl: "ft_cleared acc + ?n < 2 ^ 128" "ft_cleared ?acc \<le> Suc i * MAX_ATOMS"
      using Suc.prems(5) f(3) by (simp_all add: MAX_ATOMS_def)
    have rest: "fits fold_errors (fold_lot_fills orders lots flows [Suc i..<length orders] ?acc) ?Q"
      by (rule Suc.hyps(1) [OF _ _ tot(3) pf _ cl(2)]) (use Suc.hyps(2) Suc.prems(4) i in simp_all)
    have "fold_lot_fills orders lots flows [i..<length orders] acc =
        fold_lot_fills orders lots flows [Suc i..<length orders] ?acc"
      unfolding upt_conv_Cons [OF i(1)] fold_lot_fills.simps
      using i(1,2) len muls ends inp True cf tot(1,2) cl(1) Suc.prems(2)
      by (simp add: as_u64_def checked_add_def totals_upto_def)
    then show ?thesis using rest by simp
  qed
qed simp

definition lot_run ::
  "flow_intent list \<Rightarrow> nat list \<Rightarrow> nat \<Rightarrow> nat \<Rightarrow> lot_fold_report \<Rightarrow> nat list \<Rightarrow> pivot_state \<Rightarrow> bool"
where
  "lot_run orders lots slot max_pivots report capacities s \<longleftrightarrow>
     length orders \<le> MAX_INTENTS \<and> length lots \<le> MAX_ASSETS \<and> lots_ok lots \<and>
     fold_admitted orders (length lots) slot (length orders) \<and>
     capacities_upto orders (lot_capacity lots) (length orders) capacities \<and>
     pivot_ok orders capacities (length lots) max_pivots s \<and>
     lot_fills_of orders lots (ps_flows s) (length orders) (lot_fills report) \<and>
     lot_sizes report = lots @ replicate (MAX_ASSETS - length lots) 0 \<and>
     requested_lots report = (\<Sum>k < length orders. amount (orders ! k) div lots ! sell (orders ! k)) \<and>
     internally_cleared_lots report = volume orders (ps_flows s) \<and>
     optimal_at_fixed_lots report = ps_optimal s \<and> lot_pivots report = ps_pivots s \<and>
     conserved orders (lot_fills report)"

lemma lot_balance:
  assumes "lots_ok lots" and adm: "fold_admitted orders (length lots) slot (length orders)"
    and c: "\<And>a. net orders flows a = 0" and pf: "lot_fills_of orders lots flows (length orders) fs"
  shows "sell_total orders (length orders) (\<lambda>i. input (fs ! i)) a = buy_total orders (length orders) (\<lambda>i. fill_output (fs ! i)) a"
  by (rule scaled_totals [OF circulation_balance [OF c], where q = "lots ! a" and p = 1])
    (use pf in \<open>auto simp: lot_fills_of_def\<close>)

lemma lot_report_fits:
  assumes p: "lots_ok lots" and n: "length orders \<le> MAX_INTENTS" "length lots \<le> MAX_ASSETS"
    and adm: "fold_admitted orders (length lots) slot (length orders)"
    and cap: "capacities_upto orders (lot_capacity lots) (length orders) cs"
    and req: "req = (\<Sum>k < length orders. amount (orders ! k) div lots ! sell (orders ! k))"
    and s: "pivot_ok orders cs (length lots) max_pivots s"
  shows "fits fold_errors (lot_report orders lots req s) (\<lambda>report. lot_run orders lots slot max_pivots report cs s)"
proof -
  have len: "length (ps_flows s) = MAX_INTENTS" and bal: "\<And>a. net orders (ps_flows s) a = 0"
    using s by (simp_all add: pivot_ok_def circulation_def graph_ok_def)
  have flows: "ps_flows s ! k \<le> lot_capacity lots (orders ! k)" if "k < length orders" for k
    using s cap that n(1) by (simp add: pivot_ok_def circulation_def graph_ok_def capacities_upto_def)
  have pf0: "lot_fills_of orders lots (ps_flows s) 0 (ft_fills no_totals)" by (simp add: lot_fills_of_def)
  show ?thesis unfolding lot_report_def
  proof (rule fits_bindR [OF fold_lot_fills_fits [OF p n adm len flows _ totals_upto_0 pf0]])
    fix acc assume "totals_upto orders (length orders) acc \<and>
        lot_fills_of orders lots (ps_flows s) (length orders) (ft_fills acc) \<and>
        ft_cleared acc = (\<Sum>k < length orders. ps_flows s ! k)"
    then have t: "totals_upto orders (length orders) acc"
      and pf: "lot_fills_of orders lots (ps_flows s) (length orders) (ft_fills acc)"
      and cl: "ft_cleared acc = (\<Sum>k < length orders. ps_flows s ! k)" by simp_all
    note tots = balanced_totals [OF t lot_balance [OF p adm bal pf]]
    show "fits fold_errors (if ft_debit acc \<noteq> ft_credit acc then fail BalanceInvariant
        else Inr \<lparr>lot_fills = ft_fills acc, lot_sizes = lots @ replicate (MAX_ASSETS - length lots) 0,
            requested_lots = req, internally_cleared_lots = ft_cleared acc,
            lot_pivots = ps_pivots s, lot_reverse_edge_pivots = ps_reverse s,
            optimal_at_fixed_lots = ps_optimal s\<rparr>)
        (\<lambda>report. lot_run orders lots slot max_pivots report cs s)"
      using tots n p adm cap s pf cl req by (simp add: lot_run_def volume_def)
  qed (simp_all add: no_totals_def)
qed

lemma fold_lots_run:
  "fits fold_errors (fst (fold_lots orders lots slot max_pivots m)) (\<lambda>report. \<exists>cs s. lot_run orders lots slot max_pivots report cs s)"
proof -
  have "meets fold_errors (fold_lots orders lots slot max_pivots) (\<lambda>report. \<exists>cs s. lot_run orders lots slot max_pivots report cs s)"
  proof (cases "orders = [] \<or> MAX_INTENTS < length orders \<or> length lots < 2 \<or> MAX_ASSETS < length lots
      \<or> MAX_PIVOTS < max_pivots \<or> list_ex (\<lambda>l. l = 0 \<or> MAX_ATOMS < l) lots")
    case True
    then show ?thesis unfolding fold_lots_def if_P [OF True] by (intro meets_liftR) simp
  next
    case False
    then have n: "length orders \<le> MAX_INTENTS" "length lots \<le> MAX_ASSETS" "max_pivots \<le> MAX_PIVOTS" "0 < length lots"
      and p: "lots_ok lots" by (auto simp: lots_ok_def list_ex_iff not_le not_less)
    have start: "fold_admitted orders (length lots) slot 0" "capacities_upto orders (lot_capacity lots) 0 (replicate MAX_INTENTS 0)"
      by (simp_all add: fold_admitted_def capacities_upto_def)
    show ?thesis unfolding fold_lots_def if_not_P [OF False]
    proof (rule meets_liftR_then [OF lot_admit_fits [OF p n(1) _ start]], goal_cases)
      case (3 x)
      then obtain cs req where x: "x = (cs, req)" and adm: "fold_admitted orders (length lots) slot (length orders)"
          and cap: "capacities_upto orders (lot_capacity lots) (length orders) cs"
          and req: "req = (\<Sum>k < length orders. amount (orders ! k) div lots ! sell (orders ! k))" by auto
      have g: "graph_ok orders cs (replicate MAX_INTENTS 0) (length lots)"
        by (rule lot_capacity_graph [OF n(1,2) adm cap])
      show ?case unfolding x prod.case
        by (rule meets_bindS [OF run_pivots_meets [OF g n(4,3)]])
          (auto intro!: meets_liftR fits_mono [OF lot_report_fits [OF p n(1,2) adm cap req]])
    qed simp_all
  qed
  then show ?thesis by (simp add: meets_def)
qed

section \<open>The lot validator accepts\<close>

lemma validate_lot_entry_accepts:
  assumes p: "lots_ok lots" and t: "intent_ok (length lots) t" "length lots \<le> MAX_ASSETS"
    and f: "f = \<lparr>input = n * lots ! sell t, fill_output = n * lots ! buy t\<rparr>" "fill_ok t f"
      "input f < 2 ^ 64" "fill_output f < 2 ^ 64"
  shows "validate_lot_entry (lots @ replicate (MAX_ASSETS - length lots) 0) t f = Inr n"
proof -
  note b = lot_bounds [OF p t(1)]
  have ends: "sell t < length lots" "buy t < length lots" using t by (simp_all add: intent_ok_def)
  then have lots: "(lots @ replicate (MAX_ASSETS - length lots) 0) ! sell t = lots ! sell t"
    "(lots @ replicate (MAX_ASSETS - length lots) 0) ! buy t = lots ! buy t" by (simp_all add: nth_append)
  have "fill_below_floor t f = Inr False" by (rule fill_not_below [OF f(2-4) t(1)])
  moreover have "input f div lots ! sell t = n" "fill_output f div lots ! buy t = n"
    "input f mod lots ! sell t = 0" "fill_output f mod lots ! buy t = 0" "input f = 0 \<longrightarrow> fill_output f = 0"
    using b(1,2) by (simp_all add: f(1))
  moreover have "input f \<le> amount t" using f(2) by (simp add: fill_ok_def)
  ultimately show ?thesis using b(1,2) t ends
    by (auto simp: validate_lot_entry_def intent_ok_def lots)
qed

lemma validate_lot_entries_accepts:
  assumes r: "lot_run orders lots slot max_pivots report cs s"
  shows "i \<le> length orders \<Longrightarrow> tally_upto orders (lot_fills report) i acc \<Longrightarrow> cleared = (\<Sum>k < i. ps_flows s ! k) \<Longrightarrow>
    cleared \<le> i * MAX_ATOMS \<Longrightarrow>
    \<exists>acc'. validate_lot_entries orders report [i..<length orders] (cleared, acc) = Inr (volume orders (ps_flows s), acc') \<and>
      tally_upto orders (lot_fills report) (length orders) acc'"
proof (induction "length orders - i" arbitrary: i cleared acc)
  case (Suc m)
  then have i: "i < length orders" by simp
  have n: "length orders \<le> MAX_INTENTS" "length lots \<le> MAX_ASSETS" and p: "lots_ok lots" and c: "conserved orders (lot_fills report)"
    and t: "intent_ok (length lots) (orders ! i)"
    and eq: "lot_fills report ! i = \<lparr>input = ps_flows s ! i * lots ! sell (orders ! i), fill_output = ps_flows s ! i * lots ! buy (orders ! i)\<rparr>"
    and lot: "lot_sizes report = lots @ replicate (MAX_ASSETS - length lots) 0"
    using r i by (simp_all add: lot_run_def fold_admitted_def lot_fills_of_def)
  obtain acc' where tal: "tally (orders ! i) (lot_fills report ! i) acc = Inr acc'" "tally_upto orders (lot_fills report) (Suc i) acc'"
    using tally_step [OF c i n(1) t n(2) Suc.prems(2)] by blast
  have f: "fill_ok (orders ! i) (lot_fills report ! i)" "input (lot_fills report ! i) < 2 ^ 64"
      "fill_output (lot_fills report ! i) < 2 ^ 64" "length (lot_fills report) = MAX_INTENTS"
    using c i by (simp_all add: conserved_def)
  have entry: "validate_lot_entry (lot_sizes report) (orders ! i) (lot_fills report ! i) = Inr (ps_flows s ! i)"
    unfolding lot by (rule validate_lot_entry_accepts [OF p t n(2) eq f(1-3)])
  have "cs ! i = lot_capacity lots (orders ! i)" using r i n(1) by (simp add: lot_run_def capacities_upto_def)
  moreover have "ps_flows s ! i \<le> cs ! i"
    using r i unfolding lot_run_def pivot_ok_def circulation_def graph_ok_def by blast
  ultimately have "ps_flows s ! i \<le> lot_capacity lots (orders ! i)" by simp
  then have small: "ps_flows s ! i \<le> MAX_ATOMS" by (rule lot_fill_ok [OF p t])
  have "i * MAX_ATOMS \<le> 32 * MAX_ATOMS" using i n(1) by (intro mult_le_mono) (simp_all add: MAX_INTENTS_def)
  then have cl: "cleared + ps_flows s ! i < 2 ^ 128" "cleared + ps_flows s ! i \<le> Suc i * MAX_ATOMS"
    using Suc.prems(4) small by (simp_all add: MAX_ATOMS_def)
  have "\<exists>acc''. validate_lot_entries orders report [Suc i..<length orders] (cleared + ps_flows s ! i, acc') =
        Inr (volume orders (ps_flows s), acc'') \<and> tally_upto orders (lot_fills report) (length orders) acc''"
    by (rule Suc.hyps(1) [OF _ _ tal(2) _ cl(2)]) (use Suc i in simp_all)
  then show ?case using i n(1) f(4) tal(1) entry cl(1) by (auto simp: upt_conv_Cons checked_add_def)
qed (auto simp: volume_def)

lemma lot_run_validates:
  assumes r: "lot_run orders lots slot max_pivots report cs s"
  shows "validate_lot_fold orders report = Inr ()"
proof -
  have c: "conserved orders (lot_fills report)" and n: "length orders \<le> MAX_INTENTS"
    and v: "internally_cleared_lots report = volume orders (ps_flows s)" using r by (simp_all add: lot_run_def)
  have "\<exists>acc. validate_lot_entries orders report [0..<length orders] (0, no_flows) = Inr (volume orders (ps_flows s), acc) \<and>
      tally_upto orders (lot_fills report) (length orders) acc"
    by (rule validate_lot_entries_accepts [OF r _ tally_upto_0]) simp_all
  then obtain debit credit where
    e: "validate_lot_entries orders report [0..<length orders] (0, no_flows) = Inr (volume orders (ps_flows s), debit, credit)"
      "tally_upto orders (lot_fills report) (length orders) (debit, credit)" by auto
  show ?thesis unfolding validate_lot_fold_def e(1) using tally_balanced [OF c e(2)] n v by simp
qed

text \<open>
  Folding on asset lots never panics and never trips its final checks: it returns one of six
  errors, or a report in which every intent trades whole lots at the lot rate within its limits, every
  asset is conserved, and the lot validator accepts the report.
\<close>

theorem lot_report_sound:
  "fits {Err Bounds, Err InvalidAmount, Err Arithmetic, Err Expired, Err Duplicate, Err WorkLimit}
     (fst (fold_lots orders lots slot max_pivots m))
     (\<lambda>report. conserved orders (lot_fills report) \<and> validate_lot_fold orders report = Inr () \<and>
        (\<exists>flows. lot_fills_of orders lots flows (length orders) (lot_fills report) \<and>
           internally_cleared_lots report = volume orders flows) \<and>
        requested_lots report = (\<Sum>k < length orders. amount (orders ! k) div lots ! sell (orders ! k)) \<and>
        lot_pivots report \<le> max_pivots)"
proof (rule fits_mono [OF fold_lots_run], elim exE)
  fix report cs s assume r: "lot_run orders lots slot max_pivots report cs s"
  then show "conserved orders (lot_fills report) \<and> validate_lot_fold orders report = Inr () \<and>
        (\<exists>flows. lot_fills_of orders lots flows (length orders) (lot_fills report) \<and>
           internally_cleared_lots report = volume orders flows) \<and>
        requested_lots report = (\<Sum>k < length orders. amount (orders ! k) div lots ! sell (orders ! k)) \<and>
        lot_pivots report \<le> max_pivots"
    using lot_run_validates [OF r] by (auto simp: lot_run_def pivot_ok_def)
qed

text \<open>
  \<^bold>\<open>C11.\<close> When a lot fold reports \<open>optimal_at_fixed_lots\<close>, no clearing of the same intents in whole lots,
  within the same limits and conserving every asset, clears more lots.
\<close>

theorem lot_optimal:
  assumes "fst (fold_lots orders lots slot max_pivots m) = Inr report" "optimal_at_fixed_lots report"
    "clearing_within orders (lot_capacity lots) flows"
  shows "volume orders flows \<le> internally_cleared_lots report"
proof -
  obtain cs s where r: "lot_run orders lots slot max_pivots report cs s"
    using fold_lots_run [of orders lots slot max_pivots m] assms(1) by auto
  then have p: "pivot_ok orders cs (length lots) max_pivots s" and o: "ps_optimal s"
    and cap: "capacities_upto orders (lot_capacity lots) (length orders) cs"
    and v: "internally_cleared_lots report = volume orders (ps_flows s)"
    using assms(2) by (simp_all add: lot_run_def)
  have "circulation orders cs (length lots) flows"
    using p by (intro clearing_circulation [OF assms(3) _ cap]) (auto simp: pivot_ok_def circulation_def)
  then show ?thesis unfolding v using p o by (simp add: pivot_ok_def)
qed

lemma lot_optimal_witness:
  "case fst (fold_lots demo_intents [2, 1, 1] 5 8 (meter_new 1000)) of Inl _ \<Rightarrow> False
   | Inr report \<Rightarrow> 9 \<le> internally_cleared_lots report"
proof -
  let ?r = "fst (fold_lots demo_intents [2, 1, 1] 5 8 (meter_new 1000))"
  let ?flows = "[3, 3, 3] @ replicate 29 0"
  have "case ?r of Inl _ \<Rightarrow> False | Inr report \<Rightarrow> optimal_at_fixed_lots report" by code_simp
  then obtain report where r: "?r = Inr report" "optimal_at_fixed_lots report"
    by (cases ?r) auto
  have "clearing_within demo_intents (lot_capacity [2, 1, 1]) ?flows"
    by (auto simp: clearing_within_def demo_intents_def lot_capacity_def MAX_INTENTS_def sell_total_def buy_total_def
        numeral_3_eq_3 lessThan_Suc less_Suc_eq)
  note le = lot_optimal [OF r this]
  have "volume demo_intents ?flows = 9"
    by (simp add: volume_def demo_intents_def numeral_3_eq_3 lessThan_Suc)
  then have "9 \<le> internally_cleared_lots report" using le by linarith
  then show ?thesis unfolding r(1) sum.case .
qed

end
