(* ===== verification/Residuals.thy ===== *)
theory Residuals
  imports FoldSound
begin

text \<open>
  What the validator guarantees of a report it did not produce, the residual groups built from it,
  and the exact distribution of the output observed for a group.
\<close>

section \<open>The validator\<close>

definition fold_report_ok :: "flow_intent list \<Rightarrow> fold_fill list \<Rightarrow> nat \<Rightarrow> bool" where
  "fold_report_ok orders fs n \<longleftrightarrow>
     (\<forall>i < n. fill_ok (orders ! i) (fs ! i) \<and> sell (orders ! i) < MAX_ASSETS \<and> buy (orders ! i) < MAX_ASSETS \<and>
        sell (orders ! i) \<noteq> buy (orders ! i) \<and> 0 < amount (orders ! i))"

lemma validate_entries_sound:
  "i \<le> n \<Longrightarrow> n = length orders \<Longrightarrow> validate_entries orders fs [i..<n] acc = Inr acc' \<Longrightarrow>
   tally_upto orders fs i acc \<Longrightarrow> fold_report_ok orders fs i \<Longrightarrow> tally_upto orders fs n acc' \<and> fold_report_ok orders fs n"
proof (induction "n - i" arbitrary: i acc)
  case (Suc m)
  then have i: "i < n" by simp
  obtain acc1 where fs: "i < length fs" and e: "validate_entry (orders ! i) (fs ! i) = Inr ()"
      and t: "tally (orders ! i) (fs ! i) acc = Inr acc1"
      and rest: "validate_entries orders fs [Suc i..<n] acc1 = Inr acc'"
    using Suc.prems(3) i Suc.prems(2) by (auto simp: upt_conv_Cons monad_simps)
  have ok: "fold_report_ok orders fs (Suc i)"
    using Suc.prems(5) e
    by (auto simp: fold_report_ok_def validate_entry_def fill_below_floor_def fill_ok_def monad_simps less_Suc_eq split: if_splits)
  then have sb: "sell (orders ! i) < MAX_ASSETS" "buy (orders ! i) < MAX_ASSETS" by (simp_all add: fold_report_ok_def)
  obtain debit credit where acc: "acc = (debit, credit)" by (cases acc)
  have "tally_upto orders fs (Suc i) acc1"
    using t Suc.prems(4) sb unfolding acc tally_upto_def tally_def add_to_def
    by (auto simp: monad_simps nth_list_update)
  then show ?case using Suc.hyps(1) [of "Suc i" acc1] Suc.hyps(2) i Suc.prems(2) rest ok by simp
qed simp

lemma validate_fold_sound:
  assumes "validate_fold orders report = Inr ()"
  shows "fold_report_ok orders (fills report) (length orders)" "length orders \<le> MAX_INTENTS"
    "sell_total orders (length orders) (\<lambda>k. input (fills report ! k)) a =
       buy_total orders (length orders) (\<lambda>k. fill_output (fills report ! k)) a"
proof -
  obtain debit credit where v: "validate_entries orders (fills report) [0..<length orders] no_flows = Inr (debit, credit)"
      "debit = credit" and n: "length orders \<le> MAX_INTENTS"
    using assms by (auto simp: validate_fold_def monad_simps split: if_splits)
  show "length orders \<le> MAX_INTENTS" by (rule n)
  have t: "tally_upto orders (fills report) (length orders) (debit, credit)"
    and r: "fold_report_ok orders (fills report) (length orders)"
    using validate_entries_sound [OF _ refl v(1) tally_upto_0] by (simp_all add: fold_report_ok_def)
  show "fold_report_ok orders (fills report) (length orders)" by (rule r)
  show "sell_total orders (length orders) (\<lambda>k. input (fills report ! k)) a =
       buy_total orders (length orders) (\<lambda>k. fill_output (fills report ! k)) a"
  proof (cases "a < MAX_ASSETS")
    case True
    then have "debit ! a = sell_total orders (length orders) (\<lambda>k. input (fills report ! k)) a"
      "credit ! a = buy_total orders (length orders) (\<lambda>k. fill_output (fills report ! k)) a"
      using t by (simp_all add: tally_upto_def)
    then show ?thesis using v(2) by simp
  next
    case False
    then have "sell (orders ! i) \<noteq> a \<and> buy (orders ! i) \<noteq> a" if "i < length orders" for i
      using r that by (auto simp: fold_report_ok_def)
    then show ?thesis by (simp add: sell_total_def buy_total_def)
  qed
qed

section \<open>Groups\<close>

definition residual :: "flow_intent list \<Rightarrow> fold_fill list \<Rightarrow> nat \<Rightarrow> nat" where
  "residual orders fs i = amount (orders ! i) - input (fs ! i)"

definition owed :: "flow_intent list \<Rightarrow> fold_fill list \<Rightarrow> nat \<Rightarrow> nat" where
  "owed orders fs i = min_out (orders ! i) - fill_output (fs ! i)"

definition of_pair :: "residual_group \<Rightarrow> flow_intent \<Rightarrow> bool" where
  "of_pair g t \<longleftrightarrow> g_sell g = sell t \<and> g_buy g = buy t"

definition in_group :: "flow_intent list \<Rightarrow> fold_fill list \<Rightarrow> residual_group \<Rightarrow> nat \<Rightarrow> bool" where
  "in_group orders fs g i \<longleftrightarrow> of_pair g (orders ! i) \<and> 0 < residual orders fs i"

definition member_sum :: "flow_intent list \<Rightarrow> fold_fill list \<Rightarrow> residual_group \<Rightarrow> nat \<Rightarrow> (nat \<Rightarrow> nat) \<Rightarrow> nat" where
  "member_sum orders fs g n f = (\<Sum>i < n. if in_group orders fs g i then f i else 0)"

lemma member_sum_Suc [simp]:
  "member_sum orders fs g 0 f = 0"
  "member_sum orders fs g (Suc n) f = member_sum orders fs g n f + (if in_group orders fs g n then f n else 0)"
  by (simp_all add: member_sum_def)

definition group_ok :: "flow_intent list \<Rightarrow> fold_fill list \<Rightarrow> nat \<Rightarrow> residual_group \<Rightarrow> bool" where
  "group_ok orders fs n g \<longleftrightarrow>
     (\<forall>i. bit (g_members g) i \<longleftrightarrow> i < n \<and> in_group orders fs g i) \<and>
     g_amount_in g = member_sum orders fs g n (residual orders fs) \<and> 0 < g_amount_in g \<and> g_amount_in g \<le> MAX_ATOMS \<and>
     g_min_out g = member_sum orders fs g n (owed orders fs) \<and> g_min_out g < 2 ^ 64"

definition groups_upto :: "flow_intent list \<Rightarrow> fold_fill list \<Rightarrow> nat \<Rightarrow> residual_group list \<Rightarrow> bool" where
  "groups_upto orders fs n gs \<longleftrightarrow>
     length gs \<le> MAX_EDGES \<and> distinct (map (\<lambda>g. (g_sell g, g_buy g)) gs) \<and> (\<forall>g \<in> set gs. group_ok orders fs n g) \<and>
     (\<forall>i < n. input (fs ! i) \<le> amount (orders ! i) \<and>
        (if residual orders fs i = 0 then min_out (orders ! i) \<le> fill_output (fs ! i)
         else \<exists>g \<in> set gs. of_pair g (orders ! i)))"

lemma find_group_Some: "find_group gs t = Some j \<Longrightarrow> j < length gs \<and> of_pair (gs ! j) t"
  by (induction gs t arbitrary: j rule: find_group.induct) (auto simp: of_pair_def split: if_splits)

lemma find_group_None: "find_group gs t = None \<Longrightarrow> g \<in> set gs \<Longrightarrow> \<not> of_pair g t"
  by (induction gs t rule: find_group.induct) (auto simp: of_pair_def split: if_splits)

lemma in_group_cong: "g_sell h = g_sell g \<Longrightarrow> g_buy h = g_buy g \<Longrightarrow> in_group orders fs h = in_group orders fs g"
  by (rule ext) (simp add: in_group_def of_pair_def)

lemma group_other:
  assumes "group_ok orders fs n g" "\<not> in_group orders fs g n"
  shows "group_ok orders fs (Suc n) g"
  using assms by (auto simp: group_ok_def less_Suc_eq)

lemma join_group_ok:
  assumes j: "join_group n (orders ! n) (residual orders fs n) (fill_output (fs ! n)) g = Inr h"
    and mem: "in_group orders fs g n"
    and old: "\<And>i. bit (g_members g) i \<longleftrightarrow> i < n \<and> in_group orders fs g i"
      "g_amount_in g = member_sum orders fs g n (residual orders fs)" "g_min_out g = member_sum orders fs g n (owed orders fs)"
  shows "group_ok orders fs (Suc n) h" "g_sell h = g_sell g" "g_buy h = g_buy g"
proof -
  have h: "h = g\<lparr>g_amount_in := g_amount_in g + residual orders fs n, g_min_out := g_min_out g + owed orders fs n,
        g_members := or (g_members g) (2 ^ n)\<rparr>"
      "g_amount_in g + residual orders fs n \<le> MAX_ATOMS" "g_min_out g + owed orders fs n < 2 ^ 64"
    using j by (auto simp: join_group_def owed_def monad_simps split: if_splits)
  show ends: "g_sell h = g_sell g" "g_buy h = g_buy g" by (simp_all add: h(1))
  have same: "in_group orders fs h = in_group orders fs g" by (rule in_group_cong [OF ends])
  have "member_sum orders fs h = member_sum orders fs g" by (rule ext)+ (simp add: member_sum_def same)
  then have sums: "g_amount_in h = member_sum orders fs h (Suc n) (residual orders fs)"
    "g_min_out h = member_sum orders fs h (Suc n) (owed orders fs)"
    using mem same by (simp_all add: h(1) old(2,3))
  have members: "g_members h = or (g_members g) (2 ^ n)" by (simp add: h(1))
  have bits: "bit (g_members h) i \<longleftrightarrow> i < Suc n \<and> in_group orders fs h i" for i
    unfolding same members bit_or_iff old(1)
    by (cases "i = n") (use mem in \<open>simp_all add: bit_exp_iff less_Suc_eq\<close>)
  have "0 < residual orders fs n" using mem by (simp add: in_group_def)
  then show "group_ok orders fs (Suc n) h"
    unfolding group_ok_def using sums bits h(2,3) by (simp add: h(1))
qed

lemma groups_step:
  assumes inv: "groups_upto orders fs n gs" and le: "input (fs ! n) \<le> amount (orders ! n)"
    and left: "0 < residual orders fs n"
    and add: "add_residual n (orders ! n) (residual orders fs n) (fill_output (fs ! n)) gs = Inr gs'"
  shows "groups_upto orders fs (Suc n) gs'"
proof (cases "find_group gs (orders ! n)")
  case None
  let ?g = "group_default\<lparr>g_sell := sell (orders ! n), g_buy := buy (orders ! n)\<rparr>"
  obtain h where h: "join_group n (orders ! n) (residual orders fs n) (fill_output (fs ! n)) ?g = Inr h"
      "gs' = gs @ [h]" "length gs < MAX_EDGES"
    using add None inv by (auto simp: add_residual_def groups_upto_def monad_simps split: if_splits)
  have none: "\<not> in_group orders fs g n" if "g \<in> set gs" for g
    using find_group_None [OF None that] by (simp add: in_group_def)
  have mem: "in_group orders fs ?g n" using left by (simp add: in_group_def of_pair_def)
  have empty: "\<not> in_group orders fs ?g i" if "i < n" for i
  proof
    assume "in_group orders fs ?g i"
    then have "0 < residual orders fs i" "sell (orders ! i) = sell (orders ! n)" "buy (orders ! i) = buy (orders ! n)"
      by (simp_all add: in_group_def of_pair_def)
    moreover from this(1) that inv obtain g where "g \<in> set gs" "of_pair g (orders ! i)"
      unfolding groups_upto_def by fastforce
    ultimately show False using find_group_None [OF None] by (auto simp: of_pair_def)
  qed
  have zero: "member_sum orders fs ?g n f = 0" for f using empty by (simp add: member_sum_def)
  have ok: "group_ok orders fs (Suc n) h" and ends: "g_sell h = sell (orders ! n)" "g_buy h = buy (orders ! n)"
    using join_group_ok [OF h(1) mem] empty zero by (auto simp: group_default_def)
  have "\<forall>g \<in> set gs. \<not> of_pair g (orders ! n)" using find_group_None [OF None] by blast
  then have "distinct (map (\<lambda>g. (g_sell g, g_buy g)) gs')"
    using inv ends by (auto simp: groups_upto_def h(2) of_pair_def)
  moreover have "\<forall>g \<in> set gs'. group_ok orders fs (Suc n) g"
    using inv ok none group_other by (auto simp: h(2) groups_upto_def)
  moreover have "of_pair h (orders ! n)" using ends by (simp add: of_pair_def)
  ultimately show ?thesis
    using inv h(3) le left by (auto simp: groups_upto_def less_Suc_eq h(2))
next
  case (Some j)
  note found = find_group_Some [OF Some]
  obtain h where h: "join_group n (orders ! n) (residual orders fs n) (fill_output (fs ! n)) (gs ! j) = Inr h" "gs' = gs[j := h]"
    using add Some by (auto simp: add_residual_def monad_simps)
  have gj: "group_ok orders fs n (gs ! j)" using inv found by (simp add: groups_upto_def)
  have mem: "in_group orders fs (gs ! j) n" using left found by (simp add: in_group_def)
  have old: "\<And>i. bit (g_members (gs ! j)) i \<longleftrightarrow> i < n \<and> in_group orders fs (gs ! j) i"
      "g_amount_in (gs ! j) = member_sum orders fs (gs ! j) n (residual orders fs)"
      "g_min_out (gs ! j) = member_sum orders fs (gs ! j) n (owed orders fs)"
    using gj by (simp_all add: group_ok_def)
  note ok = join_group_ok(1) [OF h(1) mem old] and ends = join_group_ok(2,3) [OF h(1) mem old]
  have pairs: "map (\<lambda>g. (g_sell g, g_buy g)) gs' = map (\<lambda>g. (g_sell g, g_buy g)) gs"
    using found ends by (simp add: h(2) map_update list_update_same_conv)
  have d: "distinct (map (\<lambda>g. (g_sell g, g_buy g)) gs)" using inv by (simp add: groups_upto_def)
  have other: "group_ok orders fs (Suc n) (gs' ! k)" if k: "k < length gs'" for k
  proof (cases "k = j")
    case True
    then show ?thesis using ok found by (simp add: h(2))
  next
    case False
    then have "(g_sell (gs ! k), g_buy (gs ! k)) \<noteq> (g_sell (gs ! j), g_buy (gs ! j))"
      using d found k by (auto simp: h(2) distinct_conv_nth)
    then have "\<not> in_group orders fs (gs ! k) n" using found by (auto simp: in_group_def of_pair_def)
    then show ?thesis using group_other [of orders fs n "gs ! k"] inv k False by (simp add: h(2) groups_upto_def)
  qed
  have pair_kept: "(\<exists>g \<in> set gs'. of_pair g t) \<longleftrightarrow> (\<exists>g \<in> set gs. of_pair g t)" for t
  proof -
    have "(\<exists>g \<in> set hs. of_pair g t) \<longleftrightarrow> (sell t, buy t) \<in> set (map (\<lambda>g. (g_sell g, g_buy g)) hs)" for hs
      by (force simp: of_pair_def image_iff)
    then show ?thesis by (simp only: pairs)
  qed
  have "\<forall>g \<in> set gs'. group_ok orders fs (Suc n) g" using other by (auto simp: in_set_conv_nth)
  moreover have "\<exists>g \<in> set gs. of_pair g (orders ! n)" using found by auto
  ultimately show ?thesis
    using inv le left pairs d unfolding groups_upto_def pair_kept
    by (auto simp: less_Suc_eq h(2))
qed

lemma residual_loop_groups:
  "i \<le> n \<Longrightarrow> n = length orders \<Longrightarrow> groups_upto orders fs i gs \<Longrightarrow> residual_loop orders fs [i..<n] gs = Inr gs' \<Longrightarrow>
   groups_upto orders fs n gs'"
proof (induction "n - i" arbitrary: i gs)
  case (Suc m)
  then have i: "i < n" by simp
  have run: "residual_loop orders fs (i # [Suc i..<n]) gs = Inr gs'" using Suc.prems(4) i by (simp add: upt_conv_Cons)
  then have le: "input (fs ! i) \<le> amount (orders ! i)" using i Suc.prems(2) by (auto simp: monad_simps split: if_splits)
  have next_step: "groups_upto orders fs n gs'" if "groups_upto orders fs (Suc i) gs1" "residual_loop orders fs [Suc i..<n] gs1 = Inr gs'" for gs1
    using Suc.hyps(1) [of "Suc i" gs1] Suc.hyps(2) Suc.prems(2) i that by simp
  show ?case
  proof (cases "residual orders fs i = 0")
    case True
    then have "min_out (orders ! i) \<le> fill_output (fs ! i)" "residual_loop orders fs [Suc i..<n] gs = Inr gs'"
      using run by (auto simp: monad_simps residual_def split: if_splits)
    moreover have "group_ok orders fs (Suc i) g" if "g \<in> set gs" for g
      using group_other [of orders fs i g] Suc.prems(3) that True by (simp add: groups_upto_def in_group_def)
    ultimately have "groups_upto orders fs (Suc i) gs" using Suc.prems(3) le True
      by (auto simp: groups_upto_def less_Suc_eq)
    then show ?thesis using next_step \<open>residual_loop orders fs [Suc i..<n] gs = Inr gs'\<close> by blast
  next
    case False
    then obtain gs1 where "add_residual i (orders ! i) (residual orders fs i) (fill_output (fs ! i)) gs = Inr gs1"
        "residual_loop orders fs [Suc i..<n] gs1 = Inr gs'"
      using run by (auto simp: monad_simps residual_def split: if_splits)
    then show ?thesis using groups_step [OF Suc.prems(3) le] False next_step by blast
  qed
qed simp

lemma residuals_groups:
  assumes "residuals orders report = Inr gs"
  shows "groups_upto orders (fills report) (length orders) gs" "validate_fold orders report = Inr ()"
proof -
  have v: "validate_fold orders report = Inr ()" and b: "build_residuals orders (fills report) = Inr gs"
    using assms by (auto simp: residuals_def monad_simps split: if_splits)
  show "validate_fold orders report = Inr ()" by (rule v)
  have empty: "groups_upto orders (fills report) 0 []" by (simp add: groups_upto_def)
  show "groups_upto orders (fills report) (length orders) gs"
    by (rule residual_loop_groups [OF le0 refl empty b [unfolded build_residuals_def]])
qed

section \<open>Distribution\<close>

definition part :: "flow_intent list \<Rightarrow> fold_fill list \<Rightarrow> residual_group \<Rightarrow> nat \<Rightarrow> nat \<Rightarrow> nat" where
  "part orders fs g surplus i = owed orders fs i + surplus * residual orders fs i div g_amount_in g"

definition shares_upto ::
  "flow_intent list \<Rightarrow> fold_fill list \<Rightarrow> residual_group \<Rightarrow> nat \<Rightarrow> nat \<Rightarrow> shares \<Rightarrow> bool"
where
  "shares_upto orders fs g surplus n acc \<longleftrightarrow>
     length (sh_out acc) = MAX_INTENTS \<and>
     (\<forall>k < MAX_INTENTS. sh_out acc ! k = (if k < n \<and> in_group orders fs g k then part orders fs g surplus k else 0)) \<and>
     sh_allocated acc = member_sum orders fs g n (part orders fs g surplus) \<and>
     (case sh_first acc of None \<Rightarrow> \<forall>k < n. \<not> in_group orders fs g k | Some j \<Rightarrow> j < n \<and> in_group orders fs g j)"

lemma member_sum_mono: "i \<le> n \<Longrightarrow> member_sum orders fs g i f \<le> member_sum orders fs g n f"
  unfolding member_sum_def by (rule sum_mono2) auto

lemma member_sum_part:
  "member_sum orders fs g n (part orders fs g surplus) \<le>
     member_sum orders fs g n (owed orders fs) + surplus * member_sum orders fs g n (residual orders fs) div g_amount_in g"
proof (induction n)
  case (Suc n)
  have "surplus * member_sum orders fs g n (residual orders fs) div g_amount_in g + surplus * residual orders fs n div g_amount_in g
      \<le> (surplus * member_sum orders fs g n (residual orders fs) + surplus * residual orders fs n) div g_amount_in g"
    by (rule div_add_le)
  then show ?case using Suc by (simp add: part_def distrib_left)
qed simp

lemma parts_fit:
  assumes g: "group_ok orders fs n g" and obs: "g_min_out g \<le> observed"
  shows "member_sum orders fs g n (part orders fs g (observed - g_min_out g)) \<le> observed"
  using member_sum_part [of orders fs g n "observed - g_min_out g"] g obs by (simp add: group_ok_def)

lemma share_loop_ok:
  assumes g: "group_ok orders fs n g" and obs: "g_min_out g \<le> observed" "observed < 2 ^ 64" and n: "n = length orders"
    "n \<le> MAX_INTENTS" "n \<le> length fs" and amt: "\<And>k. k < n \<Longrightarrow> in_group orders fs g k \<Longrightarrow> input (fs ! k) \<le> amount (orders ! k)"
  shows "i \<le> n \<Longrightarrow> shares_upto orders fs g (observed - g_min_out g) i acc \<Longrightarrow>
    \<exists>acc'. share_loop orders fs g (observed - g_min_out g) [i..<n] acc = Inr acc' \<and>
      shares_upto orders fs g (observed - g_min_out g) n acc'"
proof (induction "n - i" arbitrary: i acc)
  case (Suc m)
  let ?s = "observed - g_min_out g"
  have i: "i < n" "i < MAX_INTENTS" "i < length orders" "i < length fs" using Suc.hyps(2) n by simp_all
  show ?case
  proof (cases "in_group orders fs g i")
    case False
    then have "\<not> bit (g_members g) i" using g by (simp add: group_ok_def)
    moreover have "shares_upto orders fs g ?s (Suc i) acc"
      using Suc.prems(2) False by (auto simp: shares_upto_def less_Suc_eq split: option.splits)
    ultimately show ?thesis using Suc.hyps(1) [of "Suc i" acc] Suc.hyps(2) i by (simp add: upt_conv_Cons)
  next
    case True
    let ?p = "part orders fs g ?s i"
    have mem: "bit (g_members g) i" and pos: "g_amount_in g \<noteq> 0" and small: "g_amount_in g \<le> MAX_ATOMS"
      using g True i by (simp_all add: group_ok_def)
    have "member_sum orders fs g (Suc i) (part orders fs g ?s) \<le> observed"
      using member_sum_mono [of "Suc i" n] parts_fit [OF g obs(1)] i(1) by (meson Suc_leI le_trans)
    then have alloc: "sh_allocated acc + ?p \<le> observed" using True Suc.prems(2) by (simp add: shares_upto_def)
    have "residual orders fs i \<le> member_sum orders fs g n (residual orders fs)"
      unfolding member_sum_def using True i(1) by (intro order_trans [OF _ member_le_sum [of i]]) auto
    then have "residual orders fs i \<le> MAX_ATOMS" using g by (simp add: group_ok_def)
    then have "?s * residual orders fs i \<le> 2 ^ 64 * MAX_ATOMS" using obs(2) by (intro mult_le_mono) simp_all
    then have scaled: "?s * residual orders fs i < 2 ^ 128" by (simp add: MAX_ATOMS_def)
    have quot: "?s * residual orders fs i div g_amount_in g < 2 ^ 64" using alloc obs(2) by (simp add: part_def)
    obtain first where first: "(case sh_first acc of None \<Rightarrow> Inr (Some i)
               | Some j \<Rightarrow> bindR (index_at orders j) (\<lambda>b. Inr (if ticket_less (orders ! i) b then Some i else Some j))) = Inr (Some first)"
        "first = i \<or> sh_first acc = Some first"
    proof (cases "sh_first acc")
      case None
      then show thesis using that [of i] by simp
    next
      case (Some j)
      then have "j < length orders" using Suc.prems(2) i by (simp add: shares_upto_def)
      then show thesis using that [of "if ticket_less (orders ! i) (orders ! j) then i else j"] Some by auto
    qed
    let ?acc = "\<lparr>sh_out = (sh_out acc)[i := ?p], sh_allocated = sh_allocated acc + ?p, sh_first = Some first\<rparr>"
    have step: "share_loop orders fs g ?s [i..<n] acc = share_loop orders fs g ?s [Suc i..<n] ?acc"
      unfolding upt_conv_Cons [OF i(1)]
      using mem i amt [OF i(1) True] scaled pos quot alloc obs(2) first(1) Suc.prems(2)
      by (simp add: sub_w_ok mul_w_ok div_w_ok as_u64_ok checked_add_def residual_def [symmetric] owed_def [symmetric]
          part_def [symmetric] shares_upto_def)
    have "shares_upto orders fs g ?s (Suc i) ?acc"
      using Suc.prems(2) i True first(2) by (auto simp: shares_upto_def nth_list_update less_Suc_eq)
    then show ?thesis unfolding step using Suc.hyps(1) [of "Suc i" ?acc] Suc.hyps(2) i by simp
  qed
qed simp

lemma distribute_ok:
  assumes res: "residuals orders folded = Inr gs" and g: "g \<in> set gs" and len: "length (fills folded) = MAX_INTENTS"
    and obs: "g_min_out g \<le> observed" "observed < 2 ^ 64"
  obtains out where "distribute orders folded g observed = Inr out" "length out = MAX_INTENTS"
    "(\<Sum>i < length orders. out ! i) = observed"
    "\<And>i. i < MAX_INTENTS \<Longrightarrow> \<not> (i < length orders \<and> in_group orders (fills folded) g i) \<Longrightarrow> out ! i = 0"
    "\<And>i. i < length orders \<Longrightarrow> in_group orders (fills folded) g i \<Longrightarrow> min_out (orders ! i) \<le> fill_output (fills folded ! i) + out ! i"
proof -
  let ?n = "length orders" and ?s = "observed - g_min_out g"
  let ?fs = "fills folded"
  have inv: "groups_upto orders ?fs ?n gs" and n: "?n \<le> MAX_INTENTS"
    using residuals_groups [OF res] validate_fold_sound(2) by blast+
  have ok: "group_ok orders ?fs ?n g" using inv g by (simp add: groups_upto_def)
  have amt: "input (?fs ! k) \<le> amount (orders ! k)" if "k < ?n" for k using inv that by (simp add: groups_upto_def)
  let ?acc0 = "\<lparr>sh_out = replicate MAX_INTENTS 0, sh_allocated = 0, sh_first = None\<rparr>"
  have "shares_upto orders ?fs g ?s 0 ?acc0" by (simp add: shares_upto_def)
  then obtain acc where run: "share_loop orders ?fs g ?s [0..<?n] ?acc0 = Inr acc" and fin: "shares_upto orders ?fs g ?s ?n acc"
    using share_loop_ok [OF ok obs refl n _ amt, of 0 ?acc0] n len by auto
  have "member_sum orders ?fs g ?n (residual orders ?fs) \<noteq> 0" using ok by (simp add: group_ok_def)
  then obtain k where "k < ?n" "in_group orders ?fs g k" by (auto simp: member_sum_def split: if_splits)
  then obtain j where j: "sh_first acc = Some j" "j < ?n" "in_group orders ?fs g j"
    using fin by (cases "sh_first acc") (auto simp: shares_upto_def)
  have alloc: "sh_allocated acc \<le> observed" using fin parts_fit [OF ok obs(1)] by (simp add: shares_upto_def)
  let ?x = "sh_out acc ! j" and ?dust = "observed - sh_allocated acc"
  have sums: "(\<Sum>i < ?n. sh_out acc ! i) = sh_allocated acc"
    using fin n unfolding shares_upto_def member_sum_def by (auto intro!: sum.cong)
  have "?x \<le> (\<Sum>i < ?n. sh_out acc ! i)" using j(2) by (intro member_le_sum) auto
  then have x: "?x + ?dust \<le> observed" using sums alloc by simp
  let ?out = "(sh_out acc)[j := ?x + ?dust]"
  have jl: "j < length (sh_out acc)" using fin j(2) n by (simp add: shares_upto_def)
  have "distribute orders folded g observed = Inr ?out"
    unfolding distribute_def res bindR_simps using g obs run alloc j(1) jl x
    by (simp add: checked_sub_def add_w_def)
  moreover have "length ?out = MAX_INTENTS" using fin by (simp add: shares_upto_def)
  moreover have "int (\<Sum>i < ?n. ?out ! i) = int observed"
  proof -
    have "(\<Sum>i < ?n. int (sh_out acc ! i)) = int (sh_allocated acc)" unfolding sums [symmetric] by simp
    then show ?thesis using sum_update [OF j(2) jl, of "\<lambda>k x. int x" "?x + ?dust"] alloc by (simp add: of_nat_diff)
  qed
  moreover have "?out ! i = 0" if "i < MAX_INTENTS" "\<not> (i < ?n \<and> in_group orders ?fs g i)" for i
  proof -
    have "i \<noteq> j" using that(2) j by blast
    then show ?thesis using that fin by (auto simp: shares_upto_def)
  qed
  moreover have "min_out (orders ! i) \<le> fill_output (?fs ! i) + ?out ! i" if "i < ?n" "in_group orders ?fs g i" for i
  proof -
    have "sh_out acc ! i = part orders ?fs g ?s i" using fin that n by (simp add: shares_upto_def)
    then have "owed orders ?fs i \<le> ?out ! i" using jl by (cases "i = j") (simp_all add: part_def)
    then show ?thesis by (simp add: owed_def)
  qed
  ultimately show thesis using that by (metis of_nat_eq_iff)
qed

text \<open>
  \<^bold>\<open>C12.\<close> Distributing the output observed for a residual group pays out exactly the observed amount,
  only to members of the group, and brings every member up to its minimum.
\<close>

theorem distribute_exact:
  assumes "residuals orders folded = Inr gs" "g \<in> set gs" "length (fills folded) = MAX_INTENTS"
    "g_min_out g \<le> observed" "observed < 2 ^ 64"
  shows "\<exists>out. distribute orders folded g observed = Inr out \<and> length out = MAX_INTENTS \<and>
    (\<Sum>i < length orders. out ! i) = observed \<and>
    (\<forall>i < MAX_INTENTS. if bit (g_members g) i then min_out (orders ! i) \<le> fill_output (fills folded ! i) + out ! i
       else out ! i = 0)"
proof -
  obtain out where "distribute orders folded g observed = Inr out" "length out = MAX_INTENTS"
    "(\<Sum>i < length orders. out ! i) = observed"
    "\<And>i. i < MAX_INTENTS \<Longrightarrow> \<not> (i < length orders \<and> in_group orders (fills folded) g i) \<Longrightarrow> out ! i = 0"
    "\<And>i. i < length orders \<Longrightarrow> in_group orders (fills folded) g i \<Longrightarrow> min_out (orders ! i) \<le> fill_output (fills folded ! i) + out ! i"
    by (rule distribute_ok [OF assms]) blast
  moreover have "bit (g_members g) i \<longleftrightarrow> i < length orders \<and> in_group orders (fills folded) g i" for i
    using residuals_groups(1) [OF assms(1)] assms(2) by (simp add: groups_upto_def group_ok_def)
  ultimately show ?thesis by (intro exI [of _ out]) simp
qed

definition demo_report :: fold_report where
  "demo_report = \<lparr>fills = map (\<lambda>(a, b). \<lparr>input = a, fill_output = b\<rparr>) [(8, 4), (4, 4), (4, 8)]
       @ replicate 29 \<lparr>input = 0, fill_output = 0\<rparr>,
     value_quantum = 2, requested_value = 30, internally_cleared_value = 24, pivots = 1,
     reverse_edge_pivots = 0, optimal_at_fixed_prices = True\<rparr>"

definition demo_groups :: "residual_group list" where
  "demo_groups =
     [\<lparr>g_sell = 0, g_buy = 1, g_amount_in = 2, g_min_out = 0, g_members = 1\<rparr>,
      \<lparr>g_sell = 1, g_buy = 2, g_amount_in = 2, g_min_out = 0, g_members = 2\<rparr>]"

lemma demo_residuals:
  "residuals demo_intents demo_report = Inr demo_groups" "length (fills demo_report) = MAX_INTENTS" "demo_groups \<noteq> []"
    "g_min_out (hd demo_groups) \<le> 50"
  by code_simp+

lemma distribute_exact_witness:
  "\<exists>out. distribute demo_intents demo_report (hd demo_groups) 50 = Inr out \<and> (\<Sum>i < length demo_intents. out ! i) = 50"
proof -
  have "(50 :: nat) < 2 ^ 64" by simp
  from distribute_exact [OF demo_residuals(1) hd_in_set [OF demo_residuals(3)] demo_residuals(2,4) this]
  show ?thesis by blast
qed

section \<open>Settlement\<close>

text \<open>Net tokens the cell receives of each asset, by the intents processed so far.\<close>

definition net_upto :: "flow_intent list \<Rightarrow> nat list \<Rightarrow> nat list \<Rightarrow> int list \<Rightarrow> nat \<Rightarrow> nat \<Rightarrow> int" where
  "net_upto orders debits credits delta n a =
     delta ! a + int (sell_total orders n (\<lambda>k. debits ! k) a) - int (buy_total orders n (\<lambda>k. credits ! k) a)"

definition entry_settles :: "flow_intent \<Rightarrow> nat \<Rightarrow> nat \<Rightarrow> bool" where
  "entry_settles t d c \<longleftrightarrow> sell t < MAX_ASSETS \<and> buy t < MAX_ASSETS \<and> sell t \<noteq> buy t \<and> d = amount t \<and> min_out t \<le> c"

lemma net_upto_Suc:
  "net_upto orders debits credits delta (Suc n) a = net_upto orders debits credits delta n a
     + (if sell (orders ! n) = a then int (debits ! n) else 0) - (if buy (orders ! n) = a then int (credits ! n) else 0)"
  by (simp add: net_upto_def)

lemma settle_loop_sound:
  "i \<le> n \<Longrightarrow> settle_loop orders debits credits [i..<n] bal = Inr bal' \<Longrightarrow> length bal = MAX_ASSETS \<Longrightarrow>
   (\<forall>a < MAX_ASSETS. bal ! a = net_upto orders debits credits delta i a) \<Longrightarrow>
   (\<forall>k < i. entry_settles (orders ! k) (debits ! k) (credits ! k)) \<Longrightarrow>
   length bal' = MAX_ASSETS \<and> (\<forall>a < MAX_ASSETS. bal' ! a = net_upto orders debits credits delta n a) \<and>
   (\<forall>k < n. entry_settles (orders ! k) (debits ! k) (credits ! k))"
proof (induction "n - i" arbitrary: i bal)
  case (Suc m)
  let ?t = "orders ! i"
  from Suc.hyps(2) have i: "i < n" by simp
  obtain bal1 where ok: "entry_settles ?t (debits ! i) (credits ! i)"
      and rest: "settle_loop orders debits credits [Suc i..<n] bal1 = Inr bal'"
      and bal1: "bal1 = bal[sell ?t := bal ! sell ?t + int (debits ! i),
          buy ?t := bal[sell ?t := bal ! sell ?t + int (debits ! i)] ! buy ?t - int (credits ! i)]"
    using Suc.prems(2) by (auto simp: upt_conv_Cons [OF i] entry_settles_def monad_simps checked_i_def split: if_splits)
  have "\<forall>a < MAX_ASSETS. bal1 ! a = net_upto orders debits credits delta (Suc i) a"
    using ok Suc.prems(3,4) unfolding bal1 net_upto_Suc by (auto simp: entry_settles_def nth_list_update)
  then show ?case
    using Suc.hyps(1) [of "Suc i" bal1] Suc.hyps(2) i rest Suc.prems(3,5) ok bal1 by (auto simp: less_Suc_eq)
qed simp

lemma settle_loop_complete:
  assumes d: "\<And>k. k < n \<Longrightarrow> entry_settles (orders ! k) (debits ! k) (credits ! k) \<and> debits ! k < 2 ^ 64 \<and> credits ! k < 2 ^ 64"
    and n: "n \<le> length orders" "n \<le> length debits" "n \<le> length credits" "n \<le> MAX_INTENTS"
  shows "i \<le> n \<Longrightarrow> length bal = MAX_ASSETS \<Longrightarrow> (\<forall>a < MAX_ASSETS. bal ! a = net_upto orders debits credits delta i a) \<Longrightarrow>
    (\<forall>a < MAX_ASSETS. \<bar>bal ! a\<bar> \<le> 2 ^ 100 + int i * 2 ^ 64) \<Longrightarrow>
    \<exists>bal'. settle_loop orders debits credits [i..<n] bal = Inr bal' \<and> length bal' = MAX_ASSETS \<and>
      (\<forall>a < MAX_ASSETS. bal' ! a = net_upto orders debits credits delta n a)"
proof (induction "n - i" arbitrary: i bal)
  case (Suc m)
  let ?t = "orders ! i" and ?d = "debits ! i" and ?c = "credits ! i"
  from Suc.hyps(2) have i: "i < n" by simp
  have ok: "entry_settles ?t ?d ?c" and small: "int ?d < 2 ^ 64" "int ?c < 2 ^ 64" using d [OF i] by simp_all
  have sb: "sell ?t < MAX_ASSETS" "buy ?t < MAX_ASSETS" "sell ?t \<noteq> buy ?t" using ok by (simp_all add: entry_settles_def)
  have "int i \<le> 32" using i n(4) by (simp add: MAX_INTENTS_def)
  then have bnd: "\<bar>bal ! a\<bar> \<le> 2 ^ 100 + 32 * 2 ^ 64" if "a < MAX_ASSETS" for a
  proof -
    have "int i * 2 ^ 64 \<le> 32 * 2 ^ 64" using \<open>int i \<le> 32\<close> by (intro mult_right_mono) simp_all
    then show ?thesis using Suc.prems(4) that by force
  qed
  let ?bal1 = "bal[sell ?t := bal ! sell ?t + int ?d, buy ?t := bal ! buy ?t - int ?c]"
  have "checked_i 128 (bal ! sell ?t + int ?d) = Some (bal ! sell ?t + int ?d)"
    "checked_i 128 (bal ! buy ?t - int ?c) = Some (bal ! buy ?t - int ?c)"
    using bnd [OF sb(1)] bnd [OF sb(2)] small by (simp_all add: checked_i_def abs_le_iff)
  then have step: "settle_loop orders debits credits [i..<n] bal = settle_loop orders debits credits [Suc i..<n] ?bal1"
    unfolding upt_conv_Cons [OF i] using ok sb i n Suc.prems(2) by (simp add: entry_settles_def)
  have eq: "\<forall>a < MAX_ASSETS. ?bal1 ! a = net_upto orders debits credits delta (Suc i) a"
    using sb Suc.prems(2,3) unfolding net_upto_Suc by (auto simp: nth_list_update)
  have "\<forall>a < MAX_ASSETS. \<bar>?bal1 ! a\<bar> \<le> 2 ^ 100 + int (Suc i) * 2 ^ 64"
  proof (intro allI impI)
    fix a assume a: "a < MAX_ASSETS"
    have "\<bar>?bal1 ! a\<bar> \<le> \<bar>bal ! a\<bar> + 2 ^ 64"
      using small sb Suc.prems(2) by (cases "a = sell ?t"; cases "a = buy ?t") auto
    then show "\<bar>?bal1 ! a\<bar> \<le> 2 ^ 100 + int (Suc i) * 2 ^ 64"
      using Suc.prems(4) [rule_format, OF a] by simp
  qed
  then show ?case unfolding step using Suc.hyps(1) [of "Suc i" ?bal1] Suc.hyps(2) i Suc.prems(2) eq by simp
qed simp

text \<open>
  \<^bold>\<open>C13.\<close> A settlement the check accepts is final for every intent and exact for every asset: each intent
  is debited its full amount and credited at least its minimum, and what the cell received from the
  venues plus all debits equals all credits, asset by asset.
\<close>

theorem settlement_exact:
  assumes "verify_settlement orders debits credits delta = Inr ()" "length delta = MAX_ASSETS"
  shows "length debits = length orders \<and> length credits = length orders \<and>
    (\<forall>k < length orders. debits ! k = amount (orders ! k) \<and> min_out (orders ! k) \<le> credits ! k) \<and>
    (\<forall>a < MAX_ASSETS. delta ! a + int (sell_total orders (length orders) (\<lambda>k. debits ! k) a) =
       int (buy_total orders (length orders) (\<lambda>k. credits ! k) a))"
proof -
  let ?bad = "MAX_INTENTS < length orders \<or> length orders \<noteq> length debits \<or> length orders \<noteq> length credits"
  have nb: "\<not> ?bad"
  proof
    assume ?bad
    then show False using assms(1) by (simp add: verify_settlement_def)
  qed
  then have len: "length debits = length orders" "length credits = length orders" by simp_all
  obtain bal where run: "settle_loop orders debits credits [0..<length orders] delta = Inr bal"
      and zero: "bal = replicate MAX_ASSETS 0"
    using assms(1) unfolding verify_settlement_def if_not_P [OF nb] bindR_Inr guardR_Inr by blast
  have "\<forall>a < MAX_ASSETS. delta ! a = net_upto orders debits credits delta 0 a"
    by (simp add: net_upto_def sell_total_def buy_total_def)
  then have "\<forall>a < MAX_ASSETS. bal ! a = net_upto orders debits credits delta (length orders) a"
      "\<forall>k < length orders. entry_settles (orders ! k) (debits ! k) (credits ! k)"
    using settle_loop_sound [OF _ run assms(2), of delta] by simp_all
  then have bal0: "\<And>a. a < MAX_ASSETS \<Longrightarrow> 0 = net_upto orders debits credits delta (length orders) a"
    and each: "\<And>k. k < length orders \<Longrightarrow> entry_settles (orders ! k) (debits ! k) (credits ! k)"
    using zero by simp_all
  have "delta ! a + int (sell_total orders (length orders) (\<lambda>k. debits ! k) a) =
       int (buy_total orders (length orders) (\<lambda>k. credits ! k) a)" if "a < MAX_ASSETS" for a
    using bal0 [OF that] unfolding net_upto_def by linarith
  then show ?thesis using len each by (simp add: entry_settles_def)
qed

definition demo_delta :: "int list" where "demo_delta = [- 3, 2, 1, 0, 0, 0, 0, 0]"
definition demo_debits :: "nat list" where "demo_debits = [10, 6, 4]"
definition demo_credits :: "nat list" where "demo_credits = [8, 5, 7]"

lemma settlement_exact_witness:
  "min_out (demo_intents ! 2) \<le> demo_credits ! 2 \<and>
   demo_delta ! 0 + int (sell_total demo_intents 3 (\<lambda>k. demo_debits ! k) 0) =
     int (buy_total demo_intents 3 (\<lambda>k. demo_credits ! k) 0)"
proof -
  have v: "verify_settlement demo_intents demo_debits demo_credits demo_delta = Inr ()" by code_simp
  have l: "length demo_delta = MAX_ASSETS" "length demo_intents = 3" by code_simp+
  show ?thesis using settlement_exact [OF v l(1), unfolded l(2)] by (simp add: MAX_ASSETS_def)
qed

end
