(* ===== verification/Cell.thy ===== *)
theory Cell
  imports Residuals
begin

text \<open>
  The components composed: a fold, the external execution of its residual groups, the distribution of
  what was observed and the final settlement check. If every group is executed at or above its
  minimum, the settlement check accepts.
\<close>

section \<open>Groups partition the residual intents\<close>

lemma its_group:
  assumes "groups_upto orders fs n gs" "i < n" "residual orders fs i \<noteq> 0"
  obtains j where "j < length gs" "of_pair (gs ! j) (orders ! i)"
proof -
  have "if residual orders fs i = 0 then min_out (orders ! i) \<le> fill_output (fs ! i)
      else \<exists>g \<in> set gs. of_pair g (orders ! i)" using assms(1,2) unfolding groups_upto_def by blast
  then obtain g where "g \<in> set gs" "of_pair g (orders ! i)" using assms(3) by auto
  then show thesis using that by (auto simp: in_set_conv_nth)
qed

lemma one_group:
  assumes inv: "groups_upto orders fs n gs" and i: "i < n"
  shows "(\<Sum>j < length gs. if in_group orders fs (gs ! j) i then residual orders fs i else 0) = residual orders fs i"
proof (cases "residual orders fs i = 0")
  case True
  then show ?thesis by (simp add: in_group_def)
next
  case False
  then obtain j where j: "j < length gs" "of_pair (gs ! j) (orders ! i)" by (rule its_group [OF inv i])
  have "of_pair (gs ! k) (orders ! i) \<longleftrightarrow> k = j" if "k < length gs" for k
  proof
    have d: "distinct (map (\<lambda>g. (g_sell g, g_buy g)) gs)" using inv by (simp add: groups_upto_def)
    assume "of_pair (gs ! k) (orders ! i)"
    then have "map (\<lambda>g. (g_sell g, g_buy g)) gs ! k = map (\<lambda>g. (g_sell g, g_buy g)) gs ! j"
      using j that by (simp add: of_pair_def)
    then show "k = j" using nth_eq_iff_index_eq [OF d] j(1) that by simp
  qed (use j in simp)
  then have "(\<Sum>k < length gs. if in_group orders fs (gs ! k) i then residual orders fs i else 0) =
      (\<Sum>k < length gs. if k = j then residual orders fs i else 0)"
    using False by (intro sum.cong) (auto simp: in_group_def)
  then show ?thesis using j(1) by simp
qed

lemma residual_totals:
  assumes inv: "groups_upto orders fs n gs"
  shows "sell_total orders n (residual orders fs) a = (\<Sum>j < length gs. if g_sell (gs ! j) = a then g_amount_in (gs ! j) else 0)"
proof -
  have "sell_total orders n (residual orders fs) a =
      (\<Sum>i < n. \<Sum>j < length gs. if in_group orders fs (gs ! j) i \<and> g_sell (gs ! j) = a then residual orders fs i else 0)"
    unfolding sell_total_def
  proof (rule sum.cong [OF refl])
    fix i assume "i \<in> {..<n}"
    then have one: "(\<Sum>j < length gs. if in_group orders fs (gs ! j) i then residual orders fs i else 0) = residual orders fs i"
      using one_group [OF inv] by simp
    have "(\<Sum>j < length gs. if in_group orders fs (gs ! j) i \<and> g_sell (gs ! j) = a then residual orders fs i else 0) =
        (if sell (orders ! i) = a then (\<Sum>j < length gs. if in_group orders fs (gs ! j) i then residual orders fs i else 0) else 0)"
      by (auto simp: in_group_def of_pair_def intro!: sum.cong sum.neutral)
    then show "(if sell (orders ! i) = a then residual orders fs i else 0) =
        (\<Sum>j < length gs. if in_group orders fs (gs ! j) i \<and> g_sell (gs ! j) = a then residual orders fs i else 0)"
      by (simp only: one)
  qed
  also have "\<dots> = (\<Sum>j < length gs. \<Sum>i < n. if in_group orders fs (gs ! j) i \<and> g_sell (gs ! j) = a then residual orders fs i else 0)"
    by (rule sum.swap)
  also have "\<dots> = (\<Sum>j < length gs. if g_sell (gs ! j) = a then g_amount_in (gs ! j) else 0)"
  proof (rule sum.cong [OF refl])
    fix j assume "j \<in> {..<length gs}"
    then have "group_ok orders fs n (gs ! j)" using inv by (simp add: groups_upto_def)
    then show "(\<Sum>i < n. if in_group orders fs (gs ! j) i \<and> g_sell (gs ! j) = a then residual orders fs i else 0) =
        (if g_sell (gs ! j) = a then g_amount_in (gs ! j) else 0)"
      by (simp add: group_ok_def member_sum_def)
  qed
  finally show ?thesis .
qed

lemma total_add:
  "sell_total orders n (\<lambda>k. f k + g k) a = sell_total orders n f a + sell_total orders n g a"
  "buy_total orders n (\<lambda>k. f k + g k) a = buy_total orders n f a + buy_total orders n g a"
  by (induction n) simp_all

lemma total_sum:
  "buy_total orders n (\<lambda>k. \<Sum>j < m. f j k) a = (\<Sum>j < (m :: nat). buy_total orders n (f j) a)"
  by (induction m) (simp_all add: total_add(2), simp add: buy_total_def)

section \<open>The cell\<close>

text \<open>The credits of the intents, and the tokens the cell nets from the venues.\<close>

definition cell_credits :: "flow_intent list \<Rightarrow> fold_report \<Rightarrow> nat list list \<Rightarrow> nat list" where
  "cell_credits orders report outs =
     map (\<lambda>i. fill_output (fills report ! i) + (\<Sum>j < length outs. outs ! j ! i)) [0..<length orders]"

definition venue_delta :: "residual_group list \<Rightarrow> nat list \<Rightarrow> int list" where
  "venue_delta gs observed =
     map (\<lambda>a. int (\<Sum>j < length gs. if g_buy (gs ! j) = a then observed ! j else 0)
            - int (\<Sum>j < length gs. if g_sell (gs ! j) = a then g_amount_in (gs ! j) else 0)) [0..<MAX_ASSETS]"

lemma distributed_totals:
  assumes res: "residuals orders report = Inr gs" and j: "g \<in> set gs" and len: "length (fills report) = MAX_INTENTS"
    and obs: "g_min_out g \<le> observed" "observed < 2 ^ 64" and d: "distribute orders report g observed = Inr out"
  shows "buy_total orders (length orders) (\<lambda>i. out ! i) a = (if g_buy g = a then observed else 0)"
    "\<And>i. i < length orders \<Longrightarrow> in_group orders (fills report) g i \<Longrightarrow> min_out (orders ! i) \<le> fill_output (fills report ! i) + out ! i"
proof -
  obtain out' where o: "distribute orders report g observed = Inr out'" "(\<Sum>i < length orders. out' ! i) = observed"
    "\<And>i. i < MAX_INTENTS \<Longrightarrow> \<not> (i < length orders \<and> in_group orders (fills report) g i) \<Longrightarrow> out' ! i = 0"
    "\<And>i. i < length orders \<Longrightarrow> in_group orders (fills report) g i \<Longrightarrow> min_out (orders ! i) \<le> fill_output (fills report ! i) + out' ! i"
    by (rule distribute_ok [OF res j len obs]) blast
  have out: "out' = out" using o(1) d by simp
  show "\<And>i. i < length orders \<Longrightarrow> in_group orders (fills report) g i \<Longrightarrow> min_out (orders ! i) \<le> fill_output (fills report ! i) + out ! i"
    using o(4) out by simp
  have n: "length orders \<le> MAX_INTENTS" using residuals_groups(2) [OF res] by (rule validate_fold_sound)
  have zero: "out ! i = 0" if "i < length orders" "buy (orders ! i) \<noteq> g_buy g" for i
    using o(3) [of i] that n out by (auto simp: in_group_def of_pair_def)
  show "buy_total orders (length orders) (\<lambda>i. out ! i) a = (if g_buy g = a then observed else 0)"
  proof (cases "g_buy g = a")
    case True
    then have "buy_total orders (length orders) (\<lambda>i. out ! i) a = (\<Sum>i < length orders. out ! i)"
      using zero unfolding buy_total_def by (intro sum.cong) auto
    then show ?thesis using True o(2) out by simp
  next
    case False
    then show ?thesis using zero by (auto simp: buy_total_def intro!: sum.neutral)
  qed
qed

lemma cell_balance:
  assumes res: "residuals orders report = Inr gs" and len: "length (fills report) = MAX_INTENTS"
    and outs: "length outs = length gs" "length observed = length gs"
    and d: "\<And>j. j < length gs \<Longrightarrow> g_min_out (gs ! j) \<le> observed ! j \<and> observed ! j < 2 ^ 64 \<and>
      distribute orders report (gs ! j) (observed ! j) = Inr (outs ! j)"
    and a: "a < MAX_ASSETS"
  shows "net_upto orders (map amount orders) (cell_credits orders report outs) (venue_delta gs observed) (length orders) a = 0"
proof -
  let ?n = "length orders" and ?fs = "fills report"
  have inv: "groups_upto orders ?fs ?n gs" by (rule residuals_groups [OF res])
  have amt: "amount (orders ! i) = input (?fs ! i) + residual orders ?fs i" if "i < ?n" for i
    using inv that by (simp add: groups_upto_def residual_def)
  have "sell_total orders ?n (\<lambda>k. map amount orders ! k) a = sell_total orders ?n (\<lambda>k. input (?fs ! k) + residual orders ?fs k) a"
    using amt by (intro total_cong) simp
  then have deb: "sell_total orders ?n (\<lambda>k. map amount orders ! k) a =
      sell_total orders ?n (\<lambda>k. input (?fs ! k)) a + (\<Sum>j < length gs. if g_sell (gs ! j) = a then g_amount_in (gs ! j) else 0)"
    by (simp add: total_add residual_totals [OF inv])
  have "buy_total orders ?n (\<lambda>k. cell_credits orders report outs ! k) a =
      buy_total orders ?n (\<lambda>k. fill_output (?fs ! k) + (\<Sum>j < length outs. outs ! j ! k)) a"
    by (intro total_cong) (simp add: cell_credits_def)
  also have "\<dots> = buy_total orders ?n (\<lambda>k. fill_output (?fs ! k)) a + (\<Sum>j < length gs. buy_total orders ?n (\<lambda>k. outs ! j ! k) a)"
    by (simp add: total_add total_sum outs(1))
  also have "(\<Sum>j < length gs. buy_total orders ?n (\<lambda>k. outs ! j ! k) a) =
      (\<Sum>j < length gs. if g_buy (gs ! j) = a then observed ! j else 0)"
  proof (rule sum.cong [OF refl])
    fix j assume "j \<in> {..<length gs}"
    then have j: "j < length gs" by simp
    have dj: "g_min_out (gs ! j) \<le> observed ! j" "observed ! j < 2 ^ 64"
        "distribute orders report (gs ! j) (observed ! j) = Inr (outs ! j)" using d [OF j] by simp_all
    show "buy_total orders ?n (\<lambda>k. outs ! j ! k) a = (if g_buy (gs ! j) = a then observed ! j else 0)"
      by (rule distributed_totals(1) [OF res nth_mem [OF j] len dj])
  qed
  finally have cre: "buy_total orders ?n (\<lambda>k. cell_credits orders report outs ! k) a =
      buy_total orders ?n (\<lambda>k. fill_output (?fs ! k)) a + (\<Sum>j < length gs. if g_buy (gs ! j) = a then observed ! j else 0)" .
  have "sell_total orders ?n (\<lambda>k. input (?fs ! k)) a = buy_total orders ?n (\<lambda>k. fill_output (?fs ! k)) a"
    by (rule validate_fold_sound(3) [OF residuals_groups(2) [OF res]])
  then show ?thesis unfolding net_upto_def deb cre using a by (simp add: venue_delta_def)
qed

lemma cell_entries:
  assumes res: "residuals orders report = Inr gs" and len: "length (fills report) = MAX_INTENTS"
    and outs: "length outs = length gs" "length observed = length gs"
    and d: "\<And>j. j < length gs \<Longrightarrow> g_min_out (gs ! j) \<le> observed ! j \<and> observed ! j < 2 ^ 64 \<and>
      distribute orders report (gs ! j) (observed ! j) = Inr (outs ! j)"
    and i: "i < length orders"
  shows "entry_settles (orders ! i) (map amount orders ! i) (cell_credits orders report outs ! i)"
proof -
  let ?fs = "fills report"
  have inv: "groups_upto orders ?fs (length orders) gs" and ok: "fold_report_ok orders ?fs (length orders)"
    using residuals_groups [OF res] validate_fold_sound(1) by blast+
  have "min_out (orders ! i) \<le> fill_output (?fs ! i) + (\<Sum>j < length outs. outs ! j ! i)"
  proof (cases "residual orders ?fs i = 0")
    case True
    have "if residual orders ?fs i = 0 then min_out (orders ! i) \<le> fill_output (?fs ! i)
         else \<exists>g \<in> set gs. of_pair g (orders ! i)" using inv i unfolding groups_upto_def by blast
    then show ?thesis using True by simp
  next
    case False
    then obtain j where j: "j < length gs" "of_pair (gs ! j) (orders ! i)" by (rule its_group [OF inv i])
    have dj: "g_min_out (gs ! j) \<le> observed ! j" "observed ! j < 2 ^ 64"
        "distribute orders report (gs ! j) (observed ! j) = Inr (outs ! j)" using d [OF j(1)] by simp_all
    have "in_group orders ?fs (gs ! j) i" using False j(2) by (simp add: in_group_def)
    then have "min_out (orders ! i) \<le> fill_output (?fs ! i) + outs ! j ! i"
      by (rule distributed_totals(2) [OF res nth_mem [OF j(1)] len dj i])
    also have "outs ! j ! i \<le> (\<Sum>j < length outs. outs ! j ! i)"
      using j(1) outs(1) by (intro member_le_sum) auto
    finally show ?thesis by simp
  qed
  then show ?thesis using ok i by (simp add: entry_settles_def fold_report_ok_def cell_credits_def)
qed

text \<open>
  \<^bold>\<open>C14.\<close> The cell composes: if every residual group of a validated report is executed for its amount
  at or above its minimum and the output is distributed, the settlement check accepts the full debits,
  the resulting credits and the net of the venue balances.
\<close>

theorem cell_settles:
  assumes "residuals orders report = Inr gs" "length (fills report) = MAX_INTENTS"
    "length outs = length gs" "length observed = length gs"
    "\<And>j. j < length gs \<Longrightarrow> g_min_out (gs ! j) \<le> observed ! j \<and> observed ! j < 2 ^ 64 \<and>
      distribute orders report (gs ! j) (observed ! j) = Inr (outs ! j)"
    "\<And>i. i < length orders \<Longrightarrow> amount (orders ! i) < 2 ^ 64 \<and> cell_credits orders report outs ! i < 2 ^ 64"
  shows "verify_settlement orders (map amount orders) (cell_credits orders report outs) (venue_delta gs observed) = Inr ()"
proof -
  let ?n = "length orders" and ?delta = "venue_delta gs observed" and ?c = "cell_credits orders report outs"
  have n: "?n \<le> MAX_INTENTS" by (rule validate_fold_sound [OF residuals_groups(2) [OF assms(1)]])
  have inv: "groups_upto orders (fills report) ?n gs" by (rule residuals_groups [OF assms(1)])
  have gs: "length gs \<le> 8" "g_amount_in (gs ! j) \<le> 2 ^ 64" if "j < length gs" for j
  proof -
    show "length gs \<le> 8" using inv by (simp add: groups_upto_def MAX_EDGES_def)
    have "group_ok orders (fills report) ?n (gs ! j)" using inv that by (simp add: groups_upto_def)
    then have "g_amount_in (gs ! j) \<le> MAX_ATOMS" unfolding group_ok_def by blast
    then show "g_amount_in (gs ! j) \<le> 2 ^ 64" by (simp add: MAX_ATOMS_def)
  qed
  have g8: "length gs \<le> 8" using inv by (simp add: groups_upto_def MAX_EDGES_def)
  have entries: "entry_settles (orders ! k) (map amount orders ! k) (?c ! k) \<and> map amount orders ! k < 2 ^ 64 \<and> ?c ! k < 2 ^ 64"
    if "k < ?n" for k using cell_entries [OF assms(1-5) that] assms(6) [OF that] that by simp
  have start: "\<forall>a < MAX_ASSETS. ?delta ! a = net_upto orders (map amount orders) ?c ?delta 0 a"
    by (simp add: net_upto_def sell_total_def buy_total_def)
  have bnd: "\<forall>a < MAX_ASSETS. \<bar>?delta ! a\<bar> \<le> 2 ^ 100 + int 0 * 2 ^ 64"
  proof (intro allI impI)
    fix a assume a: "a < MAX_ASSETS"
    let ?o = "\<Sum>j < length gs. if g_buy (gs ! j) = a then observed ! j else 0"
    let ?i = "\<Sum>j < length gs. if g_sell (gs ! j) = a then g_amount_in (gs ! j) else 0"
    have "?o \<le> length gs * 2 ^ 64" "?i \<le> length gs * 2 ^ 64"
      using sum_bounded_above [of "{..<length gs}" "\<lambda>j. if g_buy (gs ! j) = a then observed ! j else 0" "2 ^ 64"]
        sum_bounded_above [of "{..<length gs}" "\<lambda>j. if g_sell (gs ! j) = a then g_amount_in (gs ! j) else 0" "2 ^ 64"]
        assms(5) gs(2) by (simp_all add: less_imp_le)
    then have "?o \<le> 8 * 2 ^ 64" "?i \<le> 8 * 2 ^ 64" using g8 by (meson le_trans mult_le_mono1)+
    moreover have "int x \<le> 2 ^ 100" if "x \<le> 8 * 2 ^ 64" for x :: nat using that by simp
    ultimately have "int ?o \<le> 2 ^ 100" "int ?i \<le> 2 ^ 100" by blast+
    moreover have "?delta ! a = int ?o - int ?i" using a by (simp add: venue_delta_def)
    ultimately show "\<bar>?delta ! a\<bar> \<le> 2 ^ 100 + int 0 * 2 ^ 64" by linarith
  qed
  have lens: "?n \<le> length orders" "?n \<le> length (map amount orders)" "?n \<le> length ?c" "length ?delta = MAX_ASSETS"
    by (simp_all add: cell_credits_def venue_delta_def)
  have "\<exists>bal. settle_loop orders (map amount orders) ?c [0..<?n] ?delta = Inr bal \<and> length bal = MAX_ASSETS \<and>
      (\<forall>a < MAX_ASSETS. bal ! a = net_upto orders (map amount orders) ?c ?delta ?n a)"
    by (rule settle_loop_complete [OF entries lens(1-3) n le0 lens(4) start bnd])
  then obtain bal where run: "settle_loop orders (map amount orders) ?c [0..<?n] ?delta = Inr bal" "length bal = MAX_ASSETS"
      "\<forall>a < MAX_ASSETS. bal ! a = net_upto orders (map amount orders) ?c ?delta ?n a" by blast
  have "bal = replicate MAX_ASSETS 0"
    by (rule nth_equalityI) (use run(2,3) cell_balance [OF assms(1-5)] in simp_all)
  then show ?thesis using run(1) n by (simp add: verify_settlement_def cell_credits_def)
qed

lemma cell_settles_witness:
  "verify_settlement demo_intents (map amount demo_intents)
     (cell_credits demo_intents demo_report [[5] @ replicate 31 0, [0, 6] @ replicate 30 0]) (venue_delta demo_groups [5, 6]) = Inr ()"
proof (rule cell_settles)
  have len: "length demo_groups = 2" "length demo_intents = 3" by code_simp+
  show "residuals demo_intents demo_report = Inr demo_groups" "length (fills demo_report) = MAX_INTENTS"
    by (rule demo_residuals)+
  fix j assume "j < length demo_groups"
  then have "j = 0 \<or> j = 1" using len by linarith
  moreover have "g_min_out (demo_groups ! 0) \<le> [5, 6] ! 0 \<and> [5, 6 :: nat] ! 0 < 2 ^ 64 \<and>
      distribute demo_intents demo_report (demo_groups ! 0) ([5, 6] ! 0) = Inr ([[5] @ replicate 31 0, [0, 6] @ replicate 30 0] ! 0)"
    by code_simp
  moreover have "g_min_out (demo_groups ! 1) \<le> [5, 6] ! 1 \<and> [5, 6 :: nat] ! 1 < 2 ^ 64 \<and>
      distribute demo_intents demo_report (demo_groups ! 1) ([5, 6] ! 1) = Inr ([[5] @ replicate 31 0, [0, 6] @ replicate 30 0] ! 1)"
    by code_simp
  ultimately show "g_min_out (demo_groups ! j) \<le> [5, 6] ! j \<and> [5, 6 :: nat] ! j < 2 ^ 64 \<and>
      distribute demo_intents demo_report (demo_groups ! j) ([5, 6] ! j) = Inr ([[5] @ replicate 31 0, [0, 6] @ replicate 30 0] ! j)"
    by blast
next
  fix i assume "i < length demo_intents"
  then have "i \<in> {0, 1, 2}" by (auto simp: demo_intents_def)
  moreover have "\<forall>i \<in> {0, 1, 2}. amount (demo_intents ! i) < 2 ^ 64 \<and>
      cell_credits demo_intents demo_report [[5] @ replicate 31 0, [0, 6] @ replicate 30 0] ! i < 2 ^ 64"
    by code_simp
  ultimately show "amount (demo_intents ! i) < 2 ^ 64 \<and>
      cell_credits demo_intents demo_report [[5] @ replicate 31 0, [0, 6] @ replicate 30 0] ! i < 2 ^ 64" by blast
qed (simp_all add: demo_groups_def)

end
