(* ===== verification/OneBook.thy ===== *)
theory OneBook
  imports Kernel
begin

text \<open>
  The OneBook kernel (\<open>onebook/mod.rs\<close>): continuous price/time matching of signed orders across
  settlement claims, and compilation of executable slices into sorted virtual depth.
\<close>

section \<open>Data\<close>

definition MAX_BOOK_ORDERS :: nat where "MAX_BOOK_ORDERS = 16"
definition MAX_CLAIMS :: nat where "MAX_CLAIMS = 8"
definition MAX_MATCHES :: nat where "MAX_MATCHES = 32"
definition MAX_VIRTUAL_LEVELS :: nat where "MAX_VIRTUAL_LEVELS = 32"

lemmas book_bounds = MAX_BOOK_ORDERS_def MAX_CLAIMS_def MAX_MATCHES_def MAX_VIRTUAL_LEVELS_def

datatype side = Buy | Sell

record book_order =
  owner :: key
  nonce :: nat
  instrument :: key
  side :: side
  exposure_q32 :: nat
  limit_price_q32 :: nat
  acceptable_claims :: "key list"
  claim_count :: nat
  delivered_claim :: key
  max_conversion_bps :: nat
  expires_at_slot :: nat
  arrival_sequence :: nat

record claim_fill =
  f_buyer :: nat
  f_seller :: nat
  f_claim :: key
  f_exposure :: nat
  f_price :: nat

definition fill_default :: claim_fill where
  "fill_default = \<lparr>f_buyer = 0, f_seller = 0, f_claim = 0, f_exposure = 0, f_price = 0\<rparr>"

record match_report =
  fills :: "claim_fill list"
  fill_count :: nat
  filled :: "nat list"
  residual :: "nat list"

definition report_default :: match_report where
  "report_default = \<lparr>fills = replicate MAX_MATCHES fill_default, fill_count = 0,
     filled = replicate MAX_BOOK_ORDERS 0, residual = replicate MAX_BOOK_ORDERS 0\<rparr>"

section \<open>Admission\<close>

definition contains_claim :: "book_order \<Rightarrow> key \<Rightarrow> bool res" where
  "contains_claim t claim =
     (if length (acceptable_claims t) < claim_count t then Inl Panic
      else Inr (claim \<in> set (take (claim_count t) (acceptable_claims t))))"

fun claims_loop :: "book_order \<Rightarrow> nat list \<Rightarrow> unit res" where
  "claims_loop t [] = Inr ()"
| "claims_loop t (i # is) =
     bindR (index_at (acceptable_claims t) i) (\<lambda>claim.
     if claim = 0 \<or> claim \<in> set (take i (acceptable_claims t)) then fail Duplicate
     else claims_loop t is)"

definition validate_order :: "book_order \<Rightarrow> nat \<Rightarrow> unit res" where
  "validate_order t slot =
     (if owner t = 0 \<or> instrument t = 0 \<or> exposure_q32 t = 0 \<or> MAX_ATOMS < exposure_q32 t
         \<or> limit_price_q32 t = 0 \<or> claim_count t = 0 \<or> MAX_CLAIMS < claim_count t
         \<or> 10000 < max_conversion_bps t \<or> expires_at_slot t < slot
      then fail InvalidAmount
      else bindR (claims_loop t [0..<claim_count t]) (\<lambda>_.
        case side t of
          Buy \<Rightarrow> if delivered_claim t \<noteq> 0 then fail Identity else Inr ()
        | Sell \<Rightarrow> if delivered_claim t = 0 then fail Identity
                  else bindR (contains_claim t (delivered_claim t)) (\<lambda>found.
                    if found then Inr () else fail Identity)))"

definition crosses :: "book_order \<Rightarrow> book_order \<Rightarrow> bool res" where
  "crosses buyer seller =
     bindR (add_w 16 10000 (max_conversion_bps buyer)) (\<lambda>scale.
     bindR (ok_or (checked_mul 128 (limit_price_q32 seller) scale) Arithmetic) (\<lambda>adjusted_ask.
     bindR (contains_claim buyer (delivered_claim seller)) (\<lambda>accepted.
     if \<not> accepted then Inr False
     else bindR (ok_or (checked_mul 128 (limit_price_q32 buyer) 10000) Arithmetic) (\<lambda>bid.
       Inr (adjusted_ask \<le> bid)))))"

fun admit_orders :: "book_order list \<Rightarrow> nat \<Rightarrow> nat list \<Rightarrow> unit res" where
  "admit_orders orders slot [] = Inr ()"
| "admit_orders orders slot (i # is) =
     bindR (index_at orders i) (\<lambda>t.
     bindR (validate_order t slot) (\<lambda>_.
     if list_ex (\<lambda>prior. owner prior = owner t \<and> nonce prior = nonce t) (take i orders) then fail Duplicate
     else bindR (index_at orders 0) (\<lambda>first.
       if instrument first \<noteq> instrument t then fail Identity
       else admit_orders orders slot is)))"

section \<open>Matching\<close>

text \<open>
  The tuple comparison of the code: higher bid, earlier buyer, lower ask, earlier seller, then the
  indices.
\<close>

definition before :: "book_order list \<Rightarrow> nat \<times> nat \<Rightarrow> nat \<times> nat \<Rightarrow> bool" where
  "before orders = (\<lambda>(b, s) (b', s').
     let bt = orders ! b; st = orders ! s; bt' = orders ! b'; st' = orders ! s' in
     limit_price_q32 bt' < limit_price_q32 bt \<or> (limit_price_q32 bt' = limit_price_q32 bt \<and>
     (arrival_sequence bt < arrival_sequence bt' \<or> (arrival_sequence bt = arrival_sequence bt' \<and>
     (limit_price_q32 st < limit_price_q32 st' \<or> (limit_price_q32 st = limit_price_q32 st' \<and>
     (arrival_sequence st < arrival_sequence st' \<or> (arrival_sequence st = arrival_sequence st' \<and>
     (b < b' \<or> (b = b' \<and> s < s'))))))))))"

definition consider_seller ::
  "book_order list \<Rightarrow> nat list \<Rightarrow> nat \<Rightarrow> nat \<Rightarrow> (nat \<times> nat) option \<Rightarrow> (nat \<times> nat) option res"
where
  "consider_seller orders res b s best =
     bindR (index_at orders b) (\<lambda>buyer.
     bindR (index_at orders s) (\<lambda>seller.
     if side seller \<noteq> Sell then Inr best
     else bindR (index_at res s) (\<lambda>left.
       if left = 0 then Inr best
       else bindR (crosses buyer seller) (\<lambda>ok.
         if \<not> ok then Inr best
         else Inr (case best of None \<Rightarrow> Some (b, s)
                   | Some pair \<Rightarrow> if before orders (b, s) pair then Some (b, s) else best)))))"

fun scan_sellers ::
  "book_order list \<Rightarrow> nat list \<Rightarrow> nat \<Rightarrow> nat list \<Rightarrow> (nat \<times> nat) option \<Rightarrow> (nat \<times> nat) option metered"
where
  "scan_sellers orders res b [] best = ret best"
| "scan_sellers orders res b (s # ss) best =
     bindS (charge 1) (\<lambda>_.
     bindS (liftR (consider_seller orders res b s best)) (\<lambda>best'.
     scan_sellers orders res b ss best'))"

fun scan_buyers ::
  "book_order list \<Rightarrow> nat list \<Rightarrow> nat list \<Rightarrow> (nat \<times> nat) option \<Rightarrow> (nat \<times> nat) option metered"
where
  "scan_buyers orders res [] best = ret best"
| "scan_buyers orders res (b # bs) best =
     bindS (liftR (bindR (index_at orders b) (\<lambda>buyer.
        if side buyer \<noteq> Buy then Inr False
        else bindR (index_at res b) (\<lambda>left. Inr (left \<noteq> 0))))) (\<lambda>live.
       if \<not> live then scan_buyers orders res bs best
       else bindS (scan_sellers orders res b [0..<length orders] best) (\<lambda>best'.
         scan_buyers orders res bs best'))"

definition apply_match :: "book_order list \<Rightarrow> nat \<Rightarrow> nat \<Rightarrow> match_report \<Rightarrow> match_report res" where
  "apply_match orders b s report =
     bindR (index_at (residual report) b) (\<lambda>rb.
     bindR (index_at (residual report) s) (\<lambda>rs.
     let exposure = min rb rs; position = fill_count report in
     if MAX_MATCHES \<le> position then fail Bounds
     else
       bindR (index_at orders s) (\<lambda>seller.
       bindR (store_at (fills report) position
         \<lparr>f_buyer = b, f_seller = s, f_claim = delivered_claim seller, f_exposure = exposure,
          f_price = limit_price_q32 seller\<rparr>) (\<lambda>fs.
       bindR (add_w 8 position 1) (\<lambda>n.
       bindR (sub_w rb exposure) (\<lambda>rb'.
       bindR (store_at (residual report) b rb') (\<lambda>res1.
       bindR (bindR (index_at res1 s) (\<lambda>x. sub_w x exposure)) (\<lambda>rs'.
       bindR (store_at res1 s rs') (\<lambda>res2.
       bindR (bindR (index_at (filled report) b) (\<lambda>x. ok_or (checked_add 64 x exposure) Arithmetic)) (\<lambda>fb.
       bindR (store_at (filled report) b fb) (\<lambda>fl1.
       bindR (bindR (index_at fl1 s) (\<lambda>x. ok_or (checked_add 64 x exposure) Arithmetic)) (\<lambda>fsl.
       bindR (store_at fl1 s fsl) (\<lambda>fl2.
       Inr \<lparr>fills = fs, fill_count = n, filled = fl2, residual = res2\<rparr>)))))))))))))"

function match_loop :: "book_order list \<Rightarrow> match_report \<Rightarrow> match_report metered" where
  "match_loop orders report =
     bindS (scan_buyers orders (residual report) [0..<length orders] None) (\<lambda>best.
       case best of
         None \<Rightarrow> ret report
       | Some (b, s) \<Rightarrow>
           (case apply_match orders b s report of
              Inl e \<Rightarrow> liftR (Inl e)
            | Inr report' \<Rightarrow> match_loop orders report'))"
  by pat_completeness auto
termination
  by (relation "measure (\<lambda>(_, report). MAX_MATCHES - fill_count report)")
    (auto simp: apply_match_def Let_def monad_simps split: if_splits)

declare match_loop.simps [simp del]

definition match_continuous :: "book_order list \<Rightarrow> nat \<Rightarrow> match_report metered" where
  "match_continuous orders slot =
     (if length orders < 2 \<or> MAX_BOOK_ORDERS < length orders then liftR (fail Bounds)
      else bindS (liftR (admit_orders orders slot [0..<length orders])) (\<lambda>_.
        match_loop orders (report_default\<lparr>residual :=
          map exposure_q32 orders @ replicate (MAX_BOOK_ORDERS - length orders) 0\<rparr>)))"

section \<open>Virtual depth\<close>

record executable_slice =
  sl_claim :: key
  sl_source :: key
  sl_state_hash :: key
  sl_input :: nat
  sl_exposure :: nat
  sl_bps :: nat
  sl_expires :: nat

record virtual_level =
  v_claim :: key
  v_source :: key
  v_state_hash :: key
  v_price :: nat
  v_exposure :: nat
  v_input :: nat
  v_bps :: nat
  v_expires :: nat

text \<open>The \<open>level_count\<close> levels in use.\<close>

record virtual_book =
  levels :: "virtual_level list"
  total_exposure :: nat
  state_hash :: key

definition level_le :: "virtual_level \<Rightarrow> virtual_level \<Rightarrow> bool" where
  "level_le a b \<longleftrightarrow> v_price a < v_price b \<or> (v_price a = v_price b \<and>
     (v_claim a < v_claim b \<or> (v_claim a = v_claim b \<and> v_source a \<le> v_source b)))"

definition slice_level :: "executable_slice \<Rightarrow> key \<Rightarrow> nat \<Rightarrow> virtual_level res" where
  "slice_level sl hash slot =
     (if sl_claim sl = 0 \<or> sl_source sl = 0 \<or> sl_state_hash sl \<noteq> hash \<or> sl_input sl = 0 \<or> MAX_ATOMS < sl_input sl
         \<or> sl_exposure sl = 0 \<or> MAX_ATOMS < sl_exposure sl \<or> 10000 < sl_bps sl \<or> sl_expires sl < slot
      then fail InvalidAmount
      else
        bindR (ok_or (checked_mul 128 (sl_input sl) SCALE) Arithmetic) (\<lambda>x.
        bindR (ok_or (checked_mul 128 x SCALE) Arithmetic) (\<lambda>numerator.
        bindR (ceil_div numerator (sl_exposure sl)) (\<lambda>p.
        bindR (as_u64 p) (\<lambda>price.
        Inr \<lparr>v_claim = sl_claim sl, v_source = sl_source sl, v_state_hash = hash, v_price = price,
             v_exposure = sl_exposure sl, v_input = sl_input sl, v_bps = sl_bps sl, v_expires = sl_expires sl\<rparr>)))))"

text \<open>The position after shifting the greater levels right.\<close>

fun level_position :: "virtual_level list \<Rightarrow> virtual_level \<Rightarrow> nat \<Rightarrow> nat" where
  "level_position ls l 0 = 0"
| "level_position ls l (Suc p) = (if level_le (ls ! p) l then Suc p else level_position ls l p)"

fun virtual_loop :: "executable_slice list \<Rightarrow> nat \<Rightarrow> virtual_book \<Rightarrow> virtual_book metered" where
  "virtual_loop [] slot book = ret book"
| "virtual_loop (sl # sls) slot book =
     bindS (charge 1) (\<lambda>_.
     bindS (liftR (slice_level sl (state_hash book) slot)) (\<lambda>l.
     let ls = insert_at (level_position (levels book) l (length (levels book))) l (levels book) in
     bindS (liftR (if MAX_VIRTUAL_LEVELS < length ls then Inl Panic else Inr ())) (\<lambda>_.
     bindS (liftR (ok_or (checked_add 128 (total_exposure book) (sl_exposure sl)) Arithmetic)) (\<lambda>total.
     virtual_loop sls slot (book\<lparr>levels := ls, total_exposure := total\<rparr>)))))"

definition compile_virtual_book :: "executable_slice list \<Rightarrow> nat \<Rightarrow> virtual_book metered" where
  "compile_virtual_book slices slot =
     (if slices = [] \<or> MAX_VIRTUAL_LEVELS < length slices then liftR (fail Bounds)
      else if sl_state_hash (hd slices) = 0 then liftR (fail Identity)
      else virtual_loop slices slot \<lparr>levels = [], total_exposure = 0, state_hash = sl_state_hash (hd slices)\<rparr>)"

end
