(* ===== verification/Matching.thy ===== *)
theory Matching
  imports OneBook
begin

text \<open>
  Continuous matching respects every signed limit, conserves exposure, fills in price/time priority
  and leaves no crossing pair; the virtual book is the sorted list of its slices.
\<close>

section \<open>Admitted orders\<close>

text \<open>What the types of the source fix: array lengths and integer widths.\<close>

definition order_typed :: "book_order \<Rightarrow> bool" where
  "order_typed t \<longleftrightarrow> length (acceptable_claims t) = MAX_CLAIMS \<and> limit_price_q32 t < 2 ^ 64"

definition accepts :: "book_order \<Rightarrow> key \<Rightarrow> bool" where
  "accepts t claim \<longleftrightarrow> claim \<in> set (take (claim_count t) (acceptable_claims t))"

definition order_ok :: "nat \<Rightarrow> book_order \<Rightarrow> bool" where
  "order_ok slot t \<longleftrightarrow> order_typed t \<and> 0 < exposure_q32 t \<and> exposure_q32 t \<le> MAX_ATOMS \<and> 0 < limit_price_q32 t \<and>
     0 < claim_count t \<and> claim_count t \<le> MAX_CLAIMS \<and> max_conversion_bps t \<le> 10000 \<and> slot \<le> expires_at_slot t \<and>
     distinct (take (claim_count t) (acceptable_claims t)) \<and> 0 \<notin> set (take (claim_count t) (acceptable_claims t)) \<and>
     (case side t of Buy \<Rightarrow> delivered_claim t = 0 | Sell \<Rightarrow> delivered_claim t \<noteq> 0 \<and> accepts t (delivered_claim t))"

abbreviation book_errors :: "fault set" where
  "book_errors \<equiv> {Err Bounds, Err InvalidAmount, Err Duplicate, Err Identity, Err WorkLimit}"

lemma claims_loop_fits:
  assumes "claim_count t \<le> length (acceptable_claims t)"
  shows "i \<le> claim_count t \<Longrightarrow> distinct (take i (acceptable_claims t)) \<Longrightarrow> 0 \<notin> set (take i (acceptable_claims t)) \<Longrightarrow>
    fits book_errors (claims_loop t [i..<claim_count t])
      (\<lambda>_. distinct (take (claim_count t) (acceptable_claims t)) \<and> 0 \<notin> set (take (claim_count t) (acceptable_claims t)))"
proof (induction "claim_count t - i" arbitrary: i)
  case (Suc m)
  then have i: "i < claim_count t" "i < length (acceptable_claims t)" using assms by simp_all
  let ?c = "acceptable_claims t ! i"
  show ?case
  proof (cases "?c = 0 \<or> ?c \<in> set (take i (acceptable_claims t))")
    case True
    then show ?thesis using i by (simp add: upt_conv_Cons)
  next
    case False
    have "take (Suc i) (acceptable_claims t) = take i (acceptable_claims t) @ [?c]"
      using i(2) by (rule take_Suc_conv_app_nth)
    then have "distinct (take (Suc i) (acceptable_claims t))" "0 \<notin> set (take (Suc i) (acceptable_claims t))"
      using Suc.prems(2,3) False by simp_all
    then show ?thesis using Suc.hyps(1) [of "Suc i"] Suc.hyps(2) i False by (simp add: upt_conv_Cons)
  qed
qed simp

lemma validate_order_fits:
  assumes "order_typed t"
  shows "fits book_errors (validate_order t slot) (\<lambda>_. order_ok slot t)"
proof (cases "owner t = 0 \<or> instrument t = 0 \<or> exposure_q32 t = 0 \<or> MAX_ATOMS < exposure_q32 t
         \<or> limit_price_q32 t = 0 \<or> claim_count t = 0 \<or> MAX_CLAIMS < claim_count t
         \<or> 10000 < max_conversion_bps t \<or> expires_at_slot t < slot")
  case True
  then show ?thesis by (simp add: validate_order_def)
next
  case False
  then have c: "claim_count t \<le> length (acceptable_claims t)" using assms by (auto simp: order_typed_def)
  have claims: "fits book_errors (claims_loop t [0..<claim_count t])
      (\<lambda>_. distinct (take (claim_count t) (acceptable_claims t)) \<and> 0 \<notin> set (take (claim_count t) (acceptable_claims t)))"
    by (rule claims_loop_fits [OF c]) simp_all
  show ?thesis unfolding validate_order_def if_not_P [OF False]
    by (rule fits_bindR [OF claims])
      (use False c assms in \<open>auto simp: order_ok_def accepts_def contains_claim_def split: side.splits\<close>)
qed

definition book_ok :: "book_order list \<Rightarrow> nat \<Rightarrow> nat \<Rightarrow> bool" where
  "book_ok orders slot n \<longleftrightarrow>
     (\<forall>i < n. order_ok slot (orders ! i) \<and> instrument (orders ! i) = instrument (orders ! 0) \<and>
        (\<forall>j < i. \<not> (owner (orders ! j) = owner (orders ! i) \<and> nonce (orders ! j) = nonce (orders ! i))))"

lemma admit_orders_fits:
  assumes typed: "\<And>i. i < length orders \<Longrightarrow> order_typed (orders ! i)"
  shows "i \<le> length orders \<Longrightarrow> book_ok orders slot i \<Longrightarrow>
    fits book_errors (admit_orders orders slot [i..<length orders]) (\<lambda>_. book_ok orders slot (length orders))"
proof (induction "length orders - i" arbitrary: i)
  case (Suc m)
  then have i: "i < length orders" by simp
  let ?t = "orders ! i"
  have dup: "list_ex (\<lambda>prior. owner prior = owner ?t \<and> nonce prior = nonce ?t) (take i orders) \<longleftrightarrow>
      (\<exists>j < i. owner (orders ! j) = owner ?t \<and> nonce (orders ! j) = nonce ?t)"
  proof -
    have "set (take i orders) = nth orders ` {0..<i}" using i by (simp add: nth_image)
    then show ?thesis unfolding list_ex_iff by auto
  qed
  show ?case unfolding upt_conv_Cons [OF i] admit_orders.simps index_at_ok [OF i] bindR_simps
  proof (rule fits_bindR [OF validate_order_fits [OF typed [OF i]]])
    fix u :: unit assume ok: "order_ok slot ?t"
    have rest: "fits book_errors (admit_orders orders slot [Suc i..<length orders]) (\<lambda>_. book_ok orders slot (length orders))"
      if "book_ok orders slot (Suc i)" using Suc.hyps(1) [of "Suc i"] Suc.hyps(2) i that by simp
    have first: "index_at orders 0 = Inr (orders ! 0)" using i by (intro index_at_ok) auto
    let ?dup = "\<exists>j < i. owner (orders ! j) = owner ?t \<and> nonce (orders ! j) = nonce ?t"
    show "fits book_errors (if list_ex (\<lambda>prior. owner prior = owner ?t \<and> nonce prior = nonce ?t) (take i orders) then fail Duplicate
        else bindR (index_at orders 0) (\<lambda>first. if instrument first \<noteq> instrument ?t then fail Identity
          else admit_orders orders slot [Suc i..<length orders])) (\<lambda>_. book_ok orders slot (length orders))"
      unfolding dup first bindR_simps
    proof (cases "?dup \<or> instrument (orders ! 0) \<noteq> instrument ?t")
      case True
      then show "fits book_errors (if ?dup then fail Duplicate else if instrument (orders ! 0) \<noteq> instrument ?t then fail Identity
          else admit_orders orders slot [Suc i..<length orders]) (\<lambda>_. book_ok orders slot (length orders))"
        by (cases ?dup) simp_all
    next
      case False
      then have "book_ok orders slot (Suc i)" using Suc.prems(2) ok unfolding book_ok_def less_Suc_eq by metis
      then show "fits book_errors (if ?dup then fail Duplicate else if instrument (orders ! 0) \<noteq> instrument ?t then fail Identity
          else admit_orders orders slot [Suc i..<length orders]) (\<lambda>_. book_ok orders slot (length orders))"
        using rest False by simp
    qed
  qed
qed simp

section \<open>Crossing and priority\<close>

definition crossing :: "book_order \<Rightarrow> book_order \<Rightarrow> bool" where
  "crossing buyer seller \<longleftrightarrow> accepts buyer (delivered_claim seller) \<and>
     limit_price_q32 seller * (10000 + max_conversion_bps buyer) \<le> limit_price_q32 buyer * 10000"

lemma crosses_eq:
  assumes "order_ok slot buyer" "order_ok slot seller"
  shows "crosses buyer seller = Inr (crossing buyer seller)"
proof -
  have bps: "max_conversion_bps buyer \<le> 10000" and p: "limit_price_q32 buyer < 2 ^ 64" "limit_price_q32 seller < 2 ^ 64"
    and c: "claim_count buyer \<le> length (acceptable_claims buyer)"
    using assms by (auto simp: order_ok_def order_typed_def)
  have "limit_price_q32 seller * (10000 + max_conversion_bps buyer) \<le> 2 ^ 64 * 20000"
    using p bps by (intro mult_le_mono) simp_all
  then have "limit_price_q32 seller * (10000 + max_conversion_bps buyer) < 2 ^ 128" by simp
  moreover have "limit_price_q32 buyer * 10000 < 2 ^ 128" using p by simp
  ultimately show ?thesis using bps c
    by (simp add: crosses_def add_w_ok checked_mul_def contains_claim_def crossing_def accepts_def)
qed

text \<open>The live crossing pairs.\<close>

definition live :: "book_order list \<Rightarrow> nat list \<Rightarrow> nat \<Rightarrow> nat \<Rightarrow> bool" where
  "live orders res b s \<longleftrightarrow> b < length orders \<and> s < length orders \<and> side (orders ! b) = Buy \<and> side (orders ! s) = Sell \<and>
     0 < res ! b \<and> 0 < res ! s \<and> crossing (orders ! b) (orders ! s)"

lemma before_trans: "before orders p q \<Longrightarrow> before orders q r \<Longrightarrow> before orders p r"
  unfolding before_def Let_def by (cases p; cases q; cases r) (simp only: prod.case, linarith)

definition best_among :: "book_order list \<Rightarrow> (nat \<times> nat \<Rightarrow> bool) \<Rightarrow> (nat \<times> nat) option \<Rightarrow> bool" where
  "best_among orders C best \<longleftrightarrow>
     (case best of None \<Rightarrow> \<forall>p. \<not> C p | Some q \<Rightarrow> C q \<and> (\<forall>p. C p \<longrightarrow> \<not> before orders p q))"

lemma best_among_add:
  assumes "best_among orders C best" "\<not> before orders p p"
  shows "best_among orders (\<lambda>q. C q \<or> q = p)
    (case best of None \<Rightarrow> Some p | Some q \<Rightarrow> if before orders p q then Some p else best)"
proof (cases best)
  case None
  then show ?thesis using assms by (simp add: best_among_def)
next
  case (Some q)
  have "\<not> before orders r p" if "before orders p q" "C r" for r
    using before_trans [of orders r p q] that assms(1) [unfolded best_among_def Some option.case] by blast
  then show ?thesis using assms Some by (auto simp: best_among_def)
qed

lemma best_among_cong: "(\<And>p. C p = D p) \<Longrightarrow> best_among orders C best = best_among orders D best"
proof -
  assume "\<And>p. C p = D p"
  then have "C = D" by (rule ext)
  then show ?thesis by simp
qed

lemma before_irrefl: "\<not> before orders p p"
  by (cases p) (simp add: before_def Let_def)

lemma scan_sellers_best:
  assumes ok: "book_ok orders slot (length orders)" and res: "length orders \<le> length res"
    and b: "b < length orders" "side (orders ! b) = Buy" "0 < res ! b"
  shows "s \<le> length orders \<Longrightarrow> best_among orders (\<lambda>(x, y). C (x, y) \<or> (x = b \<and> y < s \<and> live orders res b y)) best \<Longrightarrow>
    yields (scan_sellers orders res b [s..<length orders] best)
      (best_among orders (\<lambda>(x, y). C (x, y) \<or> (x = b \<and> live orders res b y)))"
proof (induction "length orders - s" arbitrary: s best)
  case 0
  then have eq: "(case p of (x, y) \<Rightarrow> C (x, y) \<or> (x = b \<and> y < s \<and> live orders res b y)) =
      (case p of (x, y) \<Rightarrow> C (x, y) \<or> (x = b \<and> live orders res b y))" for p
    by (cases p) (auto simp: live_def)
  have "s = length orders" using 0 by simp
  then show ?case using 0(3) unfolding best_among_cong [OF eq] by (auto intro: yields_ret)
next
  case (Suc m)
  then have s: "s < length orders" "s < length res" using res by simp_all
  let ?C = "\<lambda>(x, y). C (x, y) \<or> (x = b \<and> y < s \<and> live orders res b y)"
  let ?best = "if live orders res b s
    then (case best of None \<Rightarrow> Some (b, s) | Some pair \<Rightarrow> if before orders (b, s) pair then Some (b, s) else best) else best"
  have oks: "order_ok slot (orders ! b)" "order_ok slot (orders ! s)" using ok b s by (simp_all add: book_ok_def)
  have step: "consider_seller orders res b s best = Inr ?best"
    using b s crosses_eq [OF oks] by (simp add: consider_seller_def live_def)
  have "best_among orders (\<lambda>(x, y). C (x, y) \<or> (x = b \<and> y < Suc s \<and> live orders res b y)) ?best"
  proof (cases "live orders res b s")
    case True
    have eq: "(?C p \<or> p = (b, s)) = (case p of (x, y) \<Rightarrow> C (x, y) \<or> (x = b \<and> y < Suc s \<and> live orders res b y))" for p
      using True by (cases p) (auto simp: less_Suc_eq)
    show ?thesis using best_among_add [OF Suc.prems(2) before_irrefl, of "(b, s)"] True
      unfolding best_among_cong [OF eq] by simp
  next
    case False
    have eq: "?C p = (case p of (x, y) \<Rightarrow> C (x, y) \<or> (x = b \<and> y < Suc s \<and> live orders res b y))" for p
      using False by (cases p) (auto simp: less_Suc_eq)
    show ?thesis using Suc.prems(2) False unfolding best_among_cong [OF eq] by simp
  qed
  then have "yields (scan_sellers orders res b [Suc s..<length orders] ?best)
      (best_among orders (\<lambda>(x, y). C (x, y) \<or> (x = b \<and> live orders res b y)))"
    using Suc.hyps(1) [of "Suc s" ?best] Suc.hyps(2) s by simp
  then show ?case unfolding upt_conv_Cons [OF s(1)] scan_sellers.simps
    by (intro yields_charge_then yields_liftR_then [OF step])
qed

lemma scan_buyers_best:
  assumes ok: "book_ok orders slot (length orders)" and res: "length orders \<le> length res"
  shows "b \<le> length orders \<Longrightarrow> best_among orders (\<lambda>(x, y). x < b \<and> live orders res x y) best \<Longrightarrow>
    yields (scan_buyers orders res [b..<length orders] best) (best_among orders (\<lambda>(x, y). live orders res x y))"
proof (induction "length orders - b" arbitrary: b best)
  case 0
  then have eq: "(case p of (x, y) \<Rightarrow> x < b \<and> live orders res x y) = (case p of (x, y) \<Rightarrow> live orders res x y)" for p
    by (cases p) (auto simp: live_def)
  have "b = length orders" using 0 by simp
  then show ?case using 0(3) unfolding best_among_cong [OF eq] by (auto intro: yields_ret)
next
  case (Suc m)
  then have b: "b < length orders" "b < length res" using res by simp_all
  show ?case
  proof (cases "side (orders ! b) = Buy \<and> 0 < res ! b")
    case True
    have scan: "yields (scan_sellers orders res b [0..<length orders] best)
        (best_among orders (\<lambda>(x, y). (case (x, y) of (x, y) \<Rightarrow> x < b \<and> live orders res x y) \<or> (x = b \<and> live orders res b y)))"
      by (rule scan_sellers_best [OF ok res b(1)]) (use True Suc.prems(2) in simp_all)
    have eq: "(case p of (x, y) \<Rightarrow> (case (x, y) of (x, y) \<Rightarrow> x < b \<and> live orders res x y) \<or> (x = b \<and> live orders res b y)) =
        (case p of (x, y) \<Rightarrow> x < Suc b \<and> live orders res x y)" for p
      by (cases p) (auto simp: less_Suc_eq)
    show ?thesis unfolding upt_conv_Cons [OF b(1)] scan_buyers.simps
      using True b Suc.hyps Suc.prems
      by (auto intro!: yields_bindS [OF scan [unfolded best_among_cong [OF eq]]])
  next
    case False
    have eq: "(case p of (x, y) \<Rightarrow> x < b \<and> live orders res x y) = (case p of (x, y) \<Rightarrow> x < Suc b \<and> live orders res x y)" for p
      using False by (cases p) (auto simp: less_Suc_eq live_def)
    have "yields (scan_buyers orders res [Suc b..<length orders] best) (best_among orders (\<lambda>(x, y). live orders res x y))"
      using Suc.hyps(1) [of "Suc b" best] Suc.hyps(2) b Suc.prems(2) unfolding best_among_cong [OF eq] by simp
    then show ?thesis unfolding upt_conv_Cons [OF b(1)] scan_buyers.simps
      using False b by (cases "side (orders ! b)") simp_all
  qed
qed

section \<open>Priority execution\<close>

text \<open>
  The specification: from the fills so far, what is left of every order; each next fill trades the
  whole overlap of the live pair that no other live pair precedes, at the seller's limit.
\<close>

definition party :: "nat \<Rightarrow> claim_fill \<Rightarrow> nat" where
  "party i f = (if f_buyer f = i \<or> f_seller f = i then f_exposure f else 0)"

definition traded :: "claim_fill list \<Rightarrow> nat \<Rightarrow> nat" where
  "traded fs i = sum_list (map (party i) fs)"

definition left_over :: "book_order list \<Rightarrow> claim_fill list \<Rightarrow> nat list" where
  "left_over orders fs = map (\<lambda>i. exposure_q32 (orders ! i) - traded fs i) [0..<length orders]"

definition match_of :: "book_order list \<Rightarrow> nat list \<Rightarrow> nat \<Rightarrow> nat \<Rightarrow> claim_fill" where
  "match_of orders res b s = \<lparr>f_buyer = b, f_seller = s, f_claim = delivered_claim (orders ! s),
     f_exposure = min (res ! b) (res ! s), f_price = limit_price_q32 (orders ! s)\<rparr>"

text \<open>
  Price/time priority, said without the comparison the code uses: of the live pairs those with the highest
  bid, of these those with the earliest buyer, then the lowest ask, the earliest seller, and the least
  positions in the array last.
\<close>

definition least_by :: "(nat \<times> nat \<Rightarrow> int) \<Rightarrow> (nat \<times> nat) set \<Rightarrow> (nat \<times> nat) set" where
  "least_by f P = {p \<in> P. \<forall>q \<in> P. f p \<le> f q}"

definition priority_pairs :: "book_order list \<Rightarrow> nat list \<Rightarrow> (nat \<times> nat) set" where
  "priority_pairs orders res =
     least_by (\<lambda>(b, s). int s) (least_by (\<lambda>(b, s). int b)
       (least_by (\<lambda>(b, s). int (arrival_sequence (orders ! s))) (least_by (\<lambda>(b, s). int (limit_price_q32 (orders ! s)))
         (least_by (\<lambda>(b, s). int (arrival_sequence (orders ! b))) (least_by (\<lambda>(b, s). - int (limit_price_q32 (orders ! b)))
           {(b, s). live orders res b s})))))"

lemma least_byI: "p \<in> P \<Longrightarrow> (\<And>q. q \<in> P \<Longrightarrow> f p \<le> f q) \<Longrightarrow> p \<in> least_by f P"
  by (simp add: least_by_def)

lemma least_by_eq: "p \<in> least_by f P \<Longrightarrow> q \<in> least_by f P \<Longrightarrow> f p = f q"
  by (simp add: least_by_def order_antisym)

lemma least_by_in: "p \<in> least_by f P \<Longrightarrow> p \<in> P"
  by (simp add: least_by_def)

text \<open>The pair no live pair comes \<open>before\<close> is the one of price/time priority.\<close>

lemma unbeaten_is_priority:
  assumes live: "live orders res b s" and top: "\<And>x y. live orders res x y \<Longrightarrow> \<not> before orders (x, y) (b, s)"
  shows "(b, s) \<in> priority_pairs orders res"
proof -
  let ?p1 = "least_by (\<lambda>(b, s). - int (limit_price_q32 (orders ! b))) {(b, s). live orders res b s}"
  let ?p2 = "least_by (\<lambda>(b, s). int (arrival_sequence (orders ! b))) ?p1"
  let ?p3 = "least_by (\<lambda>(b, s). int (limit_price_q32 (orders ! s))) ?p2"
  let ?p4 = "least_by (\<lambda>(b, s). int (arrival_sequence (orders ! s))) ?p3"
  let ?p5 = "least_by (\<lambda>(b, s). int b) ?p4"
  have keys: "limit_price_q32 (orders ! x) \<le> limit_price_q32 (orders ! b)
      \<and> (limit_price_q32 (orders ! x) = limit_price_q32 (orders ! b) \<longrightarrow> arrival_sequence (orders ! b) \<le> arrival_sequence (orders ! x)
        \<and> (arrival_sequence (orders ! b) = arrival_sequence (orders ! x) \<longrightarrow> limit_price_q32 (orders ! s) \<le> limit_price_q32 (orders ! y)
          \<and> (limit_price_q32 (orders ! s) = limit_price_q32 (orders ! y) \<longrightarrow> arrival_sequence (orders ! s) \<le> arrival_sequence (orders ! y)
            \<and> (arrival_sequence (orders ! s) = arrival_sequence (orders ! y) \<longrightarrow> b \<le> x \<and> (b = x \<longrightarrow> s \<le> y)))))"
    if "live orders res x y" for x y
    using top [OF that] unfolding before_def Let_def prod.case by linarith
  have 1: "(b, s) \<in> ?p1" by (rule least_byI) (use live keys in auto)
  have 2: "(b, s) \<in> ?p2"
  proof (rule least_byI [OF 1])
    fix q assume q: "q \<in> ?p1"
    then have "live orders res (fst q) (snd q)" by (auto dest!: least_by_in)
    then show "(case (b, s) of (b, s) \<Rightarrow> int (arrival_sequence (orders ! b))) \<le> (case q of (b, s) \<Rightarrow> int (arrival_sequence (orders ! b)))"
      using keys least_by_eq [OF q 1] by (auto simp: case_prod_beta)
  qed
  have 3: "(b, s) \<in> ?p3"
  proof (rule least_byI [OF 2])
    fix q assume q2: "q \<in> ?p2"
    note q1 = least_by_in [OF q2]
    then have "live orders res (fst q) (snd q)" by (auto dest!: least_by_in)
    then show "(case (b, s) of (b, s) \<Rightarrow> int (limit_price_q32 (orders ! s))) \<le> (case q of (b, s) \<Rightarrow> int (limit_price_q32 (orders ! s)))"
      using keys least_by_eq [OF q1 1] least_by_eq [OF q2 2] by (auto simp: case_prod_beta)
  qed
  have 4: "(b, s) \<in> ?p4"
  proof (rule least_byI [OF 3])
    fix q assume q3: "q \<in> ?p3"
    note q2 = least_by_in [OF q3]
    note q1 = least_by_in [OF q2]
    then have "live orders res (fst q) (snd q)" by (auto dest!: least_by_in)
    then show "(case (b, s) of (b, s) \<Rightarrow> int (arrival_sequence (orders ! s))) \<le> (case q of (b, s) \<Rightarrow> int (arrival_sequence (orders ! s)))"
      using keys least_by_eq [OF q1 1] least_by_eq [OF q2 2] least_by_eq [OF q3 3] by (auto simp: case_prod_beta)
  qed
  have low: "b \<le> fst q \<and> (b = fst q \<longrightarrow> s \<le> snd q)" if q4: "q \<in> ?p4" for q
  proof -
    note q3 = least_by_in [OF q4]
    note q2 = least_by_in [OF q3]
    note q1 = least_by_in [OF q2]
    then have "live orders res (fst q) (snd q)" by (auto dest!: least_by_in)
    then show ?thesis
      using keys [of "fst q" "snd q"] least_by_eq [OF q1 1] least_by_eq [OF q2 2] least_by_eq [OF q3 3] least_by_eq [OF q4 4]
      by (auto simp: case_prod_beta)
  qed
  have 5: "(b, s) \<in> ?p5" by (rule least_byI [OF 4]) (use low in \<open>auto simp: case_prod_beta\<close>)
  have "(b, s) \<in> least_by (\<lambda>(b, s). int s) ?p5"
  proof (rule least_byI [OF 5])
    fix q assume q: "q \<in> ?p5"
    show "(case (b, s) of (b, s) \<Rightarrow> int s) \<le> (case q of (b, s) \<Rightarrow> int s)"
      using low [OF least_by_in [OF q]] least_by_eq [OF q 5] by (auto simp: case_prod_beta)
  qed
  then show ?thesis by (simp only: priority_pairs_def)
qed

inductive executes :: "book_order list \<Rightarrow> claim_fill list \<Rightarrow> bool" for orders where
  start: "executes orders []"
| trade: "executes orders fs \<Longrightarrow> live orders (left_over orders fs) b s \<Longrightarrow> (b, s) \<in> priority_pairs orders (left_over orders fs) \<Longrightarrow>
    executes orders (fs @ [match_of orders (left_over orders fs) b s])"

lemma left_over_simps [simp]:
  "length (left_over orders fs) = length orders"
  "i < length orders \<Longrightarrow> left_over orders fs ! i = exposure_q32 (orders ! i) - traded fs i"
  by (simp_all add: left_over_def)

lemma traded_simps [simp]: "traded [] i = 0" "traded (fs @ [f]) i = traded fs i + party i f"
  by (simp_all add: traded_def)

lemma live_distinct: "live orders res b s \<Longrightarrow> b \<noteq> s"
  by (auto simp: live_def)

lemma party_match: "party i (match_of orders res b s) = (if i = b \<or> i = s then min (res ! b) (res ! s) else 0)"
  by (auto simp: party_def match_of_def)

lemma executes_bounded: "executes orders fs \<Longrightarrow> i < length orders \<Longrightarrow> traded fs i \<le> exposure_q32 (orders ! i)"
proof (induction rule: executes.induct)
  case (trade fs b s)
  have bs: "b < length orders" "s < length orders" using trade.hyps(2) unfolding live_def by blast+
  then show ?case using trade.IH trade.prems by (auto simp: party_match)
qed simp

text \<open>Every fill exhausts an order, so there are fewer fills than orders.\<close>

definition exhausted_orders :: "book_order list \<Rightarrow> claim_fill list \<Rightarrow> nat set" where
  "exhausted_orders orders fs = {i. i < length orders \<and> left_over orders fs ! i = 0}"

lemma executes_length: "executes orders fs \<Longrightarrow> length fs \<le> card (exhausted_orders orders fs)"
proof (induction rule: executes.induct)
  case (trade fs b s)
  let ?f = "match_of orders (left_over orders fs) b s"
  have live: "b < length orders" "s < length orders" "0 < left_over orders fs ! b" "0 < left_over orders fs ! s"
    using trade.hyps(2) unfolding live_def by blast+
  obtain x where x: "x = b \<or> x = s" "left_over orders (fs @ [?f]) ! x = 0"
  proof -
    let ?x = "if left_over orders fs ! b \<le> left_over orders fs ! s then b else s"
    have "left_over orders fs ! ?x = min (left_over orders fs ! b) (left_over orders fs ! s)" by (simp add: min_def)
    moreover have "left_over orders (fs @ [?f]) ! ?x =
        left_over orders fs ! ?x - min (left_over orders fs ! b) (left_over orders fs ! s)"
      using live(1,2) by (simp add: party_match left_over_def)
    ultimately have "left_over orders (fs @ [?f]) ! ?x = 0" by simp
    then show thesis using that [of ?x] by simp
  qed
  have "insert x (exhausted_orders orders fs) \<subseteq> exhausted_orders orders (fs @ [?f])"
    using x live by (auto simp: exhausted_orders_def)
  moreover have "x \<notin> exhausted_orders orders fs" using x live by (auto simp: exhausted_orders_def)
  moreover have "finite (exhausted_orders orders gs)" for gs by (simp add: exhausted_orders_def)
  ultimately have "Suc (card (exhausted_orders orders fs)) \<le> card (exhausted_orders orders (fs @ [?f]))"
    using card_mono [of "exhausted_orders orders (fs @ [?f])" "insert x (exhausted_orders orders fs)"] by simp
  then show ?case using trade.IH by simp
qed simp

lemma executes_room:
  assumes "executes orders fs" "live orders (left_over orders fs) b s"
  shows "length fs + 2 \<le> length orders"
proof -
  have live: "b < length orders" "s < length orders" "0 < left_over orders fs ! b" "0 < left_over orders fs ! s" "b \<noteq> s"
    using assms(2) live_distinct [OF assms(2)] unfolding live_def by blast+
  have "exhausted_orders orders fs \<subseteq> {..<length orders} - {b, s}"
    using live by (auto simp: exhausted_orders_def)
  then have "card (exhausted_orders orders fs) \<le> card ({..<length orders} - {b, s})" by (intro card_mono) auto
  also have "\<dots> = length orders - 2" using live by (simp add: card_Diff_subset)
  moreover have "2 \<le> length orders"
    using card_mono [of "{..<length orders}" "{b, s}"] live by simp
  ultimately show ?thesis using executes_length [OF assms(1)] by linarith
qed

text \<open>Rule induction gives what every single fill guarantees.\<close>

definition fill_fair :: "book_order list \<Rightarrow> claim_fill \<Rightarrow> bool" where
  "fill_fair orders f \<longleftrightarrow> f_buyer f < length orders \<and> f_seller f < length orders \<and>
     side (orders ! f_buyer f) = Buy \<and> side (orders ! f_seller f) = Sell \<and> 0 < f_exposure f \<and>
     f_claim f = delivered_claim (orders ! f_seller f) \<and> accepts (orders ! f_buyer f) (f_claim f) \<and>
     f_price f = limit_price_q32 (orders ! f_seller f) \<and>
     f_price f * (10000 + max_conversion_bps (orders ! f_buyer f)) \<le> limit_price_q32 (orders ! f_buyer f) * 10000"

lemma executes_fair: "executes orders fs \<Longrightarrow> f \<in> set fs \<Longrightarrow> fill_fair orders f"
proof (induction rule: executes.induct)
  case (trade fs b s)
  then show ?case by (auto simp: fill_fair_def match_of_def live_def crossing_def)
qed simp

section \<open>The loop implements the specification\<close>

abbreviation pad :: "nat list \<Rightarrow> nat list" where
  "pad xs \<equiv> xs @ replicate (MAX_BOOK_ORDERS - length xs) 0"

definition report_of :: "book_order list \<Rightarrow> claim_fill list \<Rightarrow> match_report" where
  "report_of orders fs = \<lparr>fills = fs @ replicate (MAX_MATCHES - length fs) fill_default, fill_count = length fs,
     filled = pad (map (traded fs) [0..<length orders]), residual = pad (left_over orders fs)\<rparr>"

lemma left_over_step:
  assumes "b < length orders" "s < length orders" "b \<noteq> s"
  shows "(left_over orders fs)[b := left_over orders fs ! b - e, s := left_over orders fs ! s - e] =
      left_over orders (fs @ [f\<lparr>f_buyer := b, f_seller := s, f_exposure := e\<rparr>])"
  using assms by (intro nth_equalityI) (auto simp: nth_list_update party_def)

lemma traded_step:
  assumes "b < length orders" "s < length orders" "b \<noteq> s"
  shows "(map (traded fs) [0..<length orders])[b := traded fs b + e, s := traded fs s + e] =
      map (traded (fs @ [f\<lparr>f_buyer := b, f_seller := s, f_exposure := e\<rparr>])) [0..<length orders]"
  using assms by (intro nth_equalityI) (auto simp: nth_list_update party_def)

lemma match_of_update:
  "(match_of orders res b s)\<lparr>f_buyer := b, f_seller := s, f_exposure := min (res ! b) (res ! s)\<rparr> = match_of orders res b s"
  by (simp add: match_of_def)

lemma apply_match_run:
  assumes len: "length (residual r) = MAX_BOOK_ORDERS" "length (filled r) = MAX_BOOK_ORDERS" "length (fills r) = MAX_MATCHES"
    and pos: "fill_count r < MAX_MATCHES" and bs: "b < length orders" "s < length orders" "b \<noteq> s" "length orders \<le> MAX_BOOK_ORDERS"
    and e: "e = min (residual r ! b) (residual r ! s)" "filled r ! b + e < 2 ^ 64" "filled r ! s + e < 2 ^ 64"
  shows "apply_match orders b s r = Inr \<lparr>fills = (fills r)[fill_count r := match_of orders (residual r) b s],
    fill_count = fill_count r + 1, filled = (filled r)[b := filled r ! b + e, s := filled r ! s + e],
    residual = (residual r)[b := residual r ! b - e, s := residual r ! s - e]\<rparr>"
proof -
  have "b < MAX_BOOK_ORDERS" "s < MAX_BOOK_ORDERS" using bs by simp_all
  moreover have "add_w 8 (fill_count r) 1 = Inr (fill_count r + 1)" using pos by (simp add: add_w_def book_bounds)
  moreover have "e \<le> residual r ! b" "e \<le> residual r ! s" using e(1) by simp_all
  ultimately show ?thesis
    using len pos bs e(2,3) by (simp add: apply_match_def e(1) [symmetric] Let_def sub_w_ok checked_add_def match_of_def)
qed

lemma apply_match_ok:
  assumes run: "executes orders fs" and live: "live orders (left_over orders fs) b s"
    and size: "length orders \<le> MAX_BOOK_ORDERS" and ok: "book_ok orders slot (length orders)"
  shows "apply_match orders b s (report_of orders fs) = Inr (report_of orders (fs @ [match_of orders (left_over orders fs) b s]))"
proof -
  let ?e = "min (left_over orders fs ! b) (left_over orders fs ! s)" and ?n = "length orders"
  let ?f = "match_of orders (left_over orders fs) b s"
  have bs: "b < ?n" "s < ?n" "b \<noteq> s" using live live_distinct [OF live] by (simp_all add: live_def)
  have room: "length fs < MAX_MATCHES" using executes_room [OF run live] size by (simp add: book_bounds)
  have fb: "traded fs x + ?e < 2 ^ 64" if "x = b \<or> x = s" for x
  proof -
    have "x < ?n" using that bs by blast
    then have "traded fs x \<le> exposure_q32 (orders ! x)" "exposure_q32 (orders ! x) \<le> MAX_ATOMS"
      using executes_bounded [OF run] ok by (simp_all add: book_ok_def order_ok_def)
    moreover have "?e \<le> exposure_q32 (orders ! b)" using bs by simp
    moreover have "exposure_q32 (orders ! b) \<le> MAX_ATOMS" using ok bs by (simp add: book_ok_def order_ok_def)
    ultimately show ?thesis by (simp add: MAX_ATOMS_def)
  qed
  have fills: "(fs @ replicate (MAX_MATCHES - length fs) fill_default)[length fs := ?f] =
      (fs @ [?f]) @ replicate (MAX_MATCHES - length (fs @ [?f])) fill_default"
    using room by (cases "MAX_MATCHES - length fs") (simp_all add: list_update_append)
  have res: "(pad (left_over orders fs))[b := left_over orders fs ! b - ?e, s := left_over orders fs ! s - ?e] =
      pad (left_over orders (fs @ [?f]))"
    using bs left_over_step [OF bs, of fs ?e ?f] unfolding match_of_update by (simp add: list_update_append)
  have tr: "(pad (map (traded fs) [0..<?n]))[b := traded fs b + ?e, s := traded fs s + ?e] =
      pad (map (traded (fs @ [?f])) [0..<?n])"
    using bs traded_step [OF bs, of fs ?e ?f] unfolding match_of_update by (simp add: list_update_append)
  have at: "filled (report_of orders fs) ! x = traded fs x" "residual (report_of orders fs) ! x = left_over orders fs ! x"
    if "x < ?n" for x using that by (simp_all add: report_of_def nth_append)
  have f: "match_of orders (residual (report_of orders fs)) b s = ?f"
    unfolding match_of_def at(2) [OF bs(1)] at(2) [OF bs(2)] by (rule refl)
  have len: "length (residual (report_of orders fs)) = MAX_BOOK_ORDERS" "length (filled (report_of orders fs)) = MAX_BOOK_ORDERS"
    "length (fills (report_of orders fs)) = MAX_MATCHES" "fill_count (report_of orders fs) < MAX_MATCHES"
    using size room by (simp_all add: report_of_def)
  have sum: "filled (report_of orders fs) ! b + ?e < 2 ^ 64" "filled (report_of orders fs) ! s + ?e < 2 ^ 64"
    unfolding at(1) [OF bs(1)] at(1) [OF bs(2)] using fb by blast+
  have e: "?e = min (residual (report_of orders fs) ! b) (residual (report_of orders fs) ! s)"
    unfolding at(2) [OF bs(1)] at(2) [OF bs(2)] by (rule refl)
  show ?thesis
    unfolding apply_match_run [OF len bs size e sum] f at [OF bs(1)] at [OF bs(2)]
    unfolding report_of_def match_report.simps fills tr res by simp
qed

lemma live_pad: "live orders (pad (left_over orders fs)) b s = live orders (left_over orders fs) b s"
  unfolding live_def by (auto simp: nth_append)

lemma match_loop_yields:
  assumes size: "length orders \<le> MAX_BOOK_ORDERS" and ok: "book_ok orders slot (length orders)"
  shows "executes orders fs \<Longrightarrow> yields (match_loop orders (report_of orders fs))
    (\<lambda>r. \<exists>gs. executes orders gs \<and> r = report_of orders gs \<and> (\<forall>b s. \<not> live orders (left_over orders gs) b s))"
proof (induction "MAX_BOOK_ORDERS - length fs" arbitrary: fs rule: less_induct)
  case less
  let ?res = "residual (report_of orders fs)"
  have res: "?res = pad (left_over orders fs)" by (simp add: report_of_def)
  have scan: "yields (scan_buyers orders ?res [0..<length orders] None) (best_among orders (\<lambda>(x, y). live orders ?res x y))"
    by (rule scan_buyers_best [OF ok]) (simp_all add: res best_among_def split_beta)
  show ?case unfolding match_loop.simps [of orders "report_of orders fs"]
  proof (rule yields_bindS [OF scan])
    fix best assume best: "best_among orders (\<lambda>(x, y). live orders ?res x y) best"
    show "yields (case best of None \<Rightarrow> ret (report_of orders fs)
       | Some (b, s) \<Rightarrow> (case apply_match orders b s (report_of orders fs) of
              Inl e \<Rightarrow> liftR (Inl e) | Inr report' \<Rightarrow> match_loop orders report'))
      (\<lambda>r. \<exists>gs. executes orders gs \<and> r = report_of orders gs \<and> (\<forall>b s. \<not> live orders (left_over orders gs) b s))"
    proof (cases best)
      case None
      then have "\<forall>b s. \<not> live orders (left_over orders fs) b s"
        using best unfolding best_among_def res live_pad by (auto simp del: left_over_simps)
      then show ?thesis using None less.prems by (auto intro!: yields_ret)
    next
      case (Some p)
      obtain b s where p: "p = (b, s)" by fastforce
      have live: "live orders (left_over orders fs) b s"
        and top: "\<And>b' s'. live orders (left_over orders fs) b' s' \<Longrightarrow> \<not> before orders (b', s') (b, s)"
        using best unfolding best_among_def res live_pad Some p by (auto simp del: left_over_simps)
      let ?gs = "fs @ [match_of orders (left_over orders fs) b s]"
      have "executes orders ?gs" by (rule executes.trade [OF less.prems live unbeaten_is_priority [OF live top]])
      moreover have "MAX_BOOK_ORDERS - length ?gs < MAX_BOOK_ORDERS - length fs"
        using executes_room [OF less.prems live] size by simp
      ultimately show ?thesis using less.hyps [of ?gs] apply_match_ok [OF less.prems live size ok] Some p by simp
    qed
  qed
qed

end
