(* ===== verification/VirtualBook.thy ===== *)
theory VirtualBook
  imports Matching "HOL-Library.Multiset"
begin

text \<open>
  What callers rely on: continuous matching implements priority execution and is fair to every
  order, and the virtual book is the price-sorted list of its slices, each at the least Q64 price
  that covers its input.
\<close>

section \<open>Matching\<close>

lemma admitted:
  assumes typed: "\<forall>t \<in> set orders. order_typed t" and run: "match_continuous orders slot m = (r, m')"
  shows "fits book_errors r (\<lambda>q. book_ok orders slot (length orders) \<and> length orders \<le> MAX_BOOK_ORDERS \<and>
    (\<exists>fs. executes orders fs \<and> q = report_of orders fs \<and> (\<forall>b s. \<not> live orders (left_over orders fs) b s)))"
proof (cases "length orders < 2 \<or> MAX_BOOK_ORDERS < length orders")
  case True
  then show ?thesis using run by (auto simp: match_continuous_def liftR_def)
next
  case False
  have adm: "fits book_errors (admit_orders orders slot [0..<length orders]) (\<lambda>_. book_ok orders slot (length orders))"
    by (rule admit_orders_fits) (use typed in \<open>auto simp: book_ok_def\<close>)
  show ?thesis
  proof (cases "admit_orders orders slot [0..<length orders]")
    case (Inl f)
    then show ?thesis using run adm False by (auto simp: match_continuous_def)
  next
    case (Inr u)
    have ok: "book_ok orders slot (length orders)" using adm Inr by simp
    have size: "length orders \<le> MAX_BOOK_ORDERS" using False by simp
    have init: "report_default\<lparr>residual := map exposure_q32 orders @ replicate (MAX_BOOK_ORDERS - length orders) 0\<rparr> =
        report_of orders []"
    proof -
      have "left_over orders [] = map exposure_q32 orders" by (rule nth_equalityI) simp_all
      moreover have "pad (map (traded []) [0..<length orders]) = replicate MAX_BOOK_ORDERS 0"
        using size by (intro nth_equalityI) (auto simp: nth_append)
      ultimately show ?thesis by (simp add: report_default_def report_of_def)
    qed
    have "match_loop orders (report_of orders []) m = (r, m')"
      using run False Inr by (simp add: match_continuous_def init)
    then show ?thesis
      using yieldsD [OF match_loop_yields [OF size ok executes.start]] ok size by fastforce
  qed
qed

text \<open>\<^bold>\<open>C15.\<close>
  Continuous matching is priority execution: the fills it reports are a run of the specification
  \<open>executes\<close>, every fill one of \<open>priority_pairs\<close> at that moment: among the live pairs the highest bid, of
  these the earliest buyer, then the lowest ask, then the earliest seller; and
  it stops only when no live bid crosses a live ask. Nothing else can come back but the listed
  admission errors and an exhausted budget; it never panics.\<close>

theorem match_is_priority_execution:
  assumes "\<forall>t \<in> set orders. order_typed t" "match_continuous orders slot m = (r, m')"
  shows "(\<exists>fs. executes orders fs \<and> r = Inr (report_of orders fs) \<and> (\<forall>b s. \<not> live orders (left_over orders fs) b s)) \<or>
    (\<exists>f \<in> book_errors. r = Inl f)"
  using admitted [OF assms] by (cases r) auto

text \<open>\<^bold>\<open>C16.\<close>
  Every reported fill respects both signatures: the claim is the one the seller delivers and the
  buyer accepts, the price is the seller's limit and, grossed up by the buyer's conversion
  allowance, within the buyer's limit; and for every order the filled exposure is the sum of its
  fills and, with the residual, the whole signed exposure.\<close>

theorem match_respects_orders:
  assumes "\<forall>t \<in> set orders. order_typed t" "match_continuous orders slot m = (Inr r, m')"
  shows "(\<forall>k < fill_count r. fill_fair orders (fills r ! k)) \<and>
    (\<forall>i < length orders. filled r ! i = sum_list (map (party i) (take (fill_count r) (fills r))) \<and>
       filled r ! i + residual r ! i = exposure_q32 (orders ! i))"
proof -
  obtain fs where fs: "executes orders fs" "r = report_of orders fs" using admitted [OF assms] by auto
  have "fill_fair orders (fills r ! k)" if "k < fill_count r" for k
    using that executes_fair [OF fs(1), of "fs ! k"] unfolding fs(2) by (simp add: report_of_def nth_append)
  moreover have "filled r ! i = sum_list (map (party i) (take (fill_count r) (fills r)))"
    "filled r ! i + residual r ! i = exposure_q32 (orders ! i)" if "i < length orders" for i
    using that executes_bounded [OF fs(1) that] unfolding fs(2) by (simp_all add: report_of_def nth_append traded_def)
  ultimately show ?thesis by blast
qed

definition demo_order :: "key \<Rightarrow> side \<Rightarrow> nat \<Rightarrow> nat \<Rightarrow> nat \<Rightarrow> book_order" where
  "demo_order who s amount price seq = \<lparr>owner = who, nonce = 1, instrument = 9, side = s, exposure_q32 = amount,
     limit_price_q32 = price, acceptable_claims = [5, 6, 0, 0, 0, 0, 0, 0], claim_count = 2,
     delivered_claim = (case s of Buy \<Rightarrow> 0 | Sell \<Rightarrow> 6), max_conversion_bps = 100, expires_at_slot = 50, arrival_sequence = seq\<rparr>"

definition demo_orders :: "book_order list" where
  "demo_orders = [demo_order 1 Buy 100 2000 0, demo_order 2 Sell 60 1900 1]"

lemma demo_orders_typed: "\<forall>t \<in> set demo_orders. order_typed t"
  by (simp add: demo_orders_def demo_order_def order_typed_def MAX_CLAIMS_def)

definition demo_match :: "match_report" where
  "demo_match = \<lparr>fills = \<lparr>f_buyer = 0, f_seller = 1, f_claim = 6, f_exposure = 60, f_price = 1900\<rparr> # replicate 31 fill_default,
     fill_count = 1, filled = [60, 60, 0, 0, 0, 0, 0, 0, 0, 0, 0, 0, 0, 0, 0, 0],
     residual = [40, 0, 0, 0, 0, 0, 0, 0, 0, 0, 0, 0, 0, 0, 0, 0]\<rparr>"

lemma demo_match_run: "fst (match_continuous demo_orders 10 (meter_new 100)) = Inr demo_match"
  by code_simp

text \<open>The later bid is the better one.\<close>

definition priority_orders :: "book_order list" where
  "priority_orders = [demo_order 1 Buy 100 1950 0, demo_order 2 Buy 60 2000 1, demo_order 3 Sell 60 1900 2]"

lemma priority_orders_typed: "\<forall>t \<in> set priority_orders. order_typed t"
  by (simp add: priority_orders_def demo_order_def order_typed_def MAX_CLAIMS_def)

definition priority_fills :: "claim_fill list" where
  "priority_fills = [\<lparr>f_buyer = 1, f_seller = 2, f_claim = 6, f_exposure = 60, f_price = 1900\<rparr>]"

definition priority_match :: match_report where
  "priority_match = \<lparr>fills = priority_fills @ replicate 31 fill_default, fill_count = 1,
     filled = [0, 60, 60, 0, 0, 0, 0, 0, 0, 0, 0, 0, 0, 0, 0, 0], residual = [100, 0, 0, 0, 0, 0, 0, 0, 0, 0, 0, 0, 0, 0, 0, 0]\<rparr>"

lemma priority_admitted: "admit_orders priority_orders 10 [0..<length priority_orders] = Inr ()"
  by (simp add: priority_orders_def demo_order_def validate_order_def contains_claim_def index_at_def upt_rec book_bounds MAX_ATOMS_def)

lemma priority_loop:
  "fst (match_loop priority_orders (report_default\<lparr>residual := [100, 60, 60, 0, 0, 0, 0, 0, 0, 0, 0, 0, 0, 0, 0, 0]\<rparr>) (meter_new 100)) = Inr priority_match"
  by code_simp

lemma priority_run: "fst (match_continuous priority_orders 10 (meter_new 100)) = Inr priority_match"
proof -
  have "map exposure_q32 priority_orders @ replicate (MAX_BOOK_ORDERS - length priority_orders) 0 = [100, 60, 60, 0, 0, 0, 0, 0, 0, 0, 0, 0, 0, 0, 0, 0]"
    by (simp add: priority_orders_def demo_order_def MAX_BOOK_ORDERS_def numeral_eq_Suc)
  moreover have "length priority_orders = 3" by (simp add: priority_orders_def)
  ultimately show ?thesis using priority_admitted priority_loop by (simp add: match_continuous_def MAX_BOOK_ORDERS_def)
qed

lemma report_fills: "take (fill_count (report_of orders fs)) (fills (report_of orders fs)) = fs"
  by (simp add: report_of_def)

lemma match_is_priority_execution_witness: "executes priority_orders priority_fills"
proof -
  obtain m' where run: "match_continuous priority_orders 10 (meter_new 100) = (Inr priority_match, m')"
    using priority_run by (metis prod.collapse)
  obtain fs where fs: "executes priority_orders fs" "priority_match = report_of priority_orders fs"
    using match_is_priority_execution [OF priority_orders_typed run] by auto
  have "take (fill_count priority_match) (fills priority_match) = priority_fills"
    by (simp add: priority_match_def priority_fills_def)
  then have "priority_fills = fs" unfolding fs(2) report_fills by simp
  then show ?thesis using fs(1) by simp
qed

lemma match_respects_orders_witness:
  "filled demo_match ! 0 + residual demo_match ! 0 = exposure_q32 (demo_orders ! 0)
   \<and> filled demo_match ! 1 + residual demo_match ! 1 = exposure_q32 (demo_orders ! 1)"
proof -
  have "\<forall>i < length demo_orders. filled demo_match ! i + residual demo_match ! i = exposure_q32 (demo_orders ! i)"
    using match_respects_orders [OF demo_orders_typed, of 10 "meter_new 100" demo_match] demo_match_run
    by (metis prod.collapse)
  then show ?thesis by (simp add: demo_orders_def)
qed

section \<open>Virtual depth\<close>

lemma level_le_total: "\<not> level_le a b \<Longrightarrow> level_le b a"
  by (auto simp: level_le_def)

lemma level_le_trans: "level_le a b \<Longrightarrow> level_le b c \<Longrightarrow> level_le a c"
  unfolding level_le_def by (elim disjE conjE) auto

lemma level_position_bound: "level_position ls l p \<le> p"
  by (induction p) (auto simp: le_SucI)

lemma level_position_spec:
  assumes "sorted_wrt level_le ls" "p \<le> length ls"
  shows "(\<forall>j < level_position ls l p. level_le (ls ! j) l) \<and> (\<forall>j. level_position ls l p \<le> j \<and> j < p \<longrightarrow> level_le l (ls ! j))"
  using assms(2)
proof (induction p)
  case (Suc p)
  show ?case
  proof (cases "level_le (ls ! p) l")
    case True
    have "level_le (ls ! j) l" if "j < Suc p" for j
    proof (cases "j = p")
      case False
      then have "level_le (ls ! j) (ls ! p)"
        using that Suc.prems sorted_wrt_nth_less [OF assms(1)] by simp
      then show ?thesis using True level_le_trans by blast
    qed (use True in simp)
    then show ?thesis using True by auto
  next
    case False
    then show ?thesis using Suc level_le_total [OF False] by (auto simp: less_Suc_eq)
  qed
qed simp

lemma insert_level_sorted:
  assumes sorted: "sorted_wrt level_le ls"
  shows "sorted_wrt level_le (insert_at (level_position ls l (length ls)) l ls)"
proof -
  let ?p = "level_position ls l (length ls)"
  have pos: "?p \<le> length ls" by (rule level_position_bound)
  have spec: "\<forall>x \<in> set (take ?p ls). level_le x l" "\<forall>x \<in> set (drop ?p ls). level_le l x"
    using level_position_spec [OF sorted order_refl, of l] pos by (auto simp: in_set_conv_nth)
  have halves: "sorted_wrt level_le (take ?p ls @ drop ?p ls)" using sorted by simp
  show ?thesis using spec halves unfolding insert_at_def sorted_wrt_append
    by (auto simp: sorted_wrt_append intro: level_le_trans)
qed

lemma mset_insert_at: "mset (insert_at i l ls) = add_mset l (mset ls)"
  unfolding insert_at_def by (metis append_take_drop_id mset.simps(2) mset_append union_mset_add_mset_right)

text \<open>A level carries its slice at the least price whose product covers the input.\<close>

definition level_of :: "executable_slice \<Rightarrow> key \<Rightarrow> nat \<Rightarrow> virtual_level \<Rightarrow> bool" where
  "level_of sl hash slot l \<longleftrightarrow> v_claim l = sl_claim sl \<and> v_source l = sl_source sl \<and> v_state_hash l = hash \<and> sl_state_hash sl = hash \<and>
     v_exposure l = sl_exposure sl \<and> v_input l = sl_input sl \<and> v_bps l = sl_bps sl \<and> v_expires l = sl_expires sl \<and>
     slot \<le> v_expires l \<and> 0 < v_exposure l \<and> v_price l < 2 ^ 64 \<and>
     (\<forall>p. v_price l \<le> p \<longleftrightarrow> v_input l * SCALE * SCALE \<le> v_exposure l * p)"

abbreviation depth_errors :: "fault set" where
  "depth_errors \<equiv> {Err Bounds, Err InvalidAmount, Err Identity, Err Arithmetic, Err WorkLimit}"

lemma slice_level_fits: "fits depth_errors (slice_level sl hash slot) (level_of sl hash slot)"
proof (cases "sl_claim sl = 0 \<or> sl_source sl = 0 \<or> sl_state_hash sl \<noteq> hash \<or> sl_input sl = 0 \<or> MAX_ATOMS < sl_input sl
         \<or> sl_exposure sl = 0 \<or> MAX_ATOMS < sl_exposure sl \<or> 10000 < sl_bps sl \<or> sl_expires sl < slot")
  case True
  then show ?thesis unfolding slice_level_def by simp
next
  case False
  have e: "0 < sl_exposure sl" and i: "sl_input sl \<le> MAX_ATOMS" using False by simp_all
  have small: "sl_input sl * SCALE * SCALE \<le> MAX_ATOMS * SCALE * SCALE" using i by (intro mult_le_mono) simp_all
  also have "\<dots> < 2 ^ 127" by (simp add: bounds_defs)
  finally have n: "sl_input sl * SCALE * SCALE < 2 ^ 127" .
  let ?n = "sl_input sl * SCALE * SCALE"
  obtain c where c: "ceil_div ?n (sl_exposure sl) = Inr c" using ceil_div_ok [OF e n] by blast
  have "sl_input sl * SCALE \<le> ?n" by (simp add: SCALE_def)
  then have "sl_input sl * SCALE < 2 ^ 127" using n by (rule le_less_trans)
  then have mul: "checked_mul 128 (sl_input sl) SCALE = Some (sl_input sl * SCALE)" "checked_mul 128 (sl_input sl * SCALE) SCALE = Some ?n"
    using n less_trans [of _ "2 ^ 127" "2 ^ 128 :: nat"] by (simp_all add: checked_mul_def)
  have le: "c \<le> p \<longleftrightarrow> ?n \<le> sl_exposure sl * p" for p
    using ceil_div_ge [OF c] ceil_div_least [OF c, of p] mult_le_mono2 [of c p "sl_exposure sl"] by linarith
  show ?thesis unfolding slice_level_def if_not_P [OF False]
    using False c le by (simp add: mul as_u64_def level_of_def)
qed

lemma virtual_loop_meets:
  "sorted_wrt level_le (levels book) \<Longrightarrow> length (levels book) + length sls \<le> MAX_VIRTUAL_LEVELS \<Longrightarrow>
   total_exposure book = sum_list (map v_exposure (levels book)) \<Longrightarrow>
   meets depth_errors (virtual_loop sls slot book) (\<lambda>b. sorted_wrt level_le (levels b) \<and> state_hash b = state_hash book \<and>
     total_exposure b = sum_list (map v_exposure (levels b)) \<and>
     (\<exists>ls. mset (levels b) = mset (levels book) + mset ls \<and> list_all2 (\<lambda>sl l. level_of sl (state_hash book) slot l) sls ls))"
proof (induction sls arbitrary: book)
  case Nil
  then show ?case by (auto intro!: meets_ret)
next
  case (Cons sl sls)
  show ?case unfolding virtual_loop.simps
  proof (rule meets_bindS)
    show "meets depth_errors (charge 1) (\<lambda>_. True)"
      by (rule meetsI) (auto simp: charge_def fits_def split: option.splits if_splits)
  next
    fix u
    show "meets depth_errors (bindS (liftR (slice_level sl (state_hash book) slot)) (\<lambda>l.
     let ls = insert_at (level_position (levels book) l (length (levels book))) l (levels book) in
     bindS (liftR (if MAX_VIRTUAL_LEVELS < length ls then Inl Panic else Inr ())) (\<lambda>_.
     bindS (liftR (ok_or (checked_add 128 (total_exposure book) (sl_exposure sl)) Arithmetic)) (\<lambda>total.
     virtual_loop sls slot (book\<lparr>levels := ls, total_exposure := total\<rparr>)))))
     (\<lambda>b. sorted_wrt level_le (levels b) \<and> state_hash b = state_hash book \<and>
     total_exposure b = sum_list (map v_exposure (levels b)) \<and>
     (\<exists>ls. mset (levels b) = mset (levels book) + mset ls \<and> list_all2 (\<lambda>sl l. level_of sl (state_hash book) slot l) (sl # sls) ls))"
    proof (rule meets_liftR_then [OF slice_level_fits])
      fix l assume l: "level_of sl (state_hash book) slot l"
      let ?ls = "insert_at (level_position (levels book) l (length (levels book))) l (levels book)"
      have len: "length ?ls = Suc (length (levels book))" by (rule length_insert_at [OF level_position_bound])
      have sum: "sum_list (map v_exposure ?ls) = total_exposure book + sl_exposure sl"
        using Cons.prems(3) l mset_insert_at [of _ l "levels book"]
        by (metis (no_types, lifting) add.commute image_mset_add_mset level_of_def mset_map sum_mset.add_mset sum_mset_sum_list)
      show "meets depth_errors (let ls = ?ls in bindS (liftR (if MAX_VIRTUAL_LEVELS < length ls then Inl Panic else Inr ())) (\<lambda>_.
         bindS (liftR (ok_or (checked_add 128 (total_exposure book) (sl_exposure sl)) Arithmetic)) (\<lambda>total.
         virtual_loop sls slot (book\<lparr>levels := ls, total_exposure := total\<rparr>))))
       (\<lambda>b. sorted_wrt level_le (levels b) \<and> state_hash b = state_hash book \<and>
         total_exposure b = sum_list (map v_exposure (levels b)) \<and>
         (\<exists>ls. mset (levels b) = mset (levels book) + mset ls \<and> list_all2 (\<lambda>sl l. level_of sl (state_hash book) slot l) (sl # sls) ls))"
        unfolding Let_def
      proof (rule meets_liftR_then)
        show "fits depth_errors (if MAX_VIRTUAL_LEVELS < length ?ls then Inl Panic else Inr ()) (\<lambda>_. True)"
          using len Cons.prems(2) by simp
      next
        fix v :: unit
        show "meets depth_errors (bindS (liftR (ok_or (checked_add 128 (total_exposure book) (sl_exposure sl)) Arithmetic)) (\<lambda>total.
          virtual_loop sls slot (book\<lparr>levels := ?ls, total_exposure := total\<rparr>)))
         (\<lambda>b. sorted_wrt level_le (levels b) \<and> state_hash b = state_hash book \<and>
         total_exposure b = sum_list (map v_exposure (levels b)) \<and>
         (\<exists>ls. mset (levels b) = mset (levels book) + mset ls \<and> list_all2 (\<lambda>sl l. level_of sl (state_hash book) slot l) (sl # sls) ls))"
        proof (rule meets_liftR_then [where P = "\<lambda>t. t = total_exposure book + sl_exposure sl"])
          show "fits depth_errors (ok_or (checked_add 128 (total_exposure book) (sl_exposure sl)) Arithmetic)
              (\<lambda>t. t = total_exposure book + sl_exposure sl)"
            by (simp add: checked_add_def)
        next
          fix t assume t: "t = total_exposure book + sl_exposure sl"
          let ?b = "book\<lparr>levels := ?ls, total_exposure := t\<rparr>"
          have IH: "meets depth_errors (virtual_loop sls slot ?b) (\<lambda>b. sorted_wrt level_le (levels b) \<and> state_hash b = state_hash ?b \<and>
             total_exposure b = sum_list (map v_exposure (levels b)) \<and>
             (\<exists>ls. mset (levels b) = mset (levels ?b) + mset ls \<and> list_all2 (\<lambda>sl l. level_of sl (state_hash ?b) slot l) sls ls))"
            by (rule Cons.IH) (use insert_level_sorted [OF Cons.prems(1)] len Cons.prems(2) sum t in simp_all)
          show "meets depth_errors (virtual_loop sls slot ?b) (\<lambda>b. sorted_wrt level_le (levels b) \<and> state_hash b = state_hash book \<and>
             total_exposure b = sum_list (map v_exposure (levels b)) \<and>
             (\<exists>ls. mset (levels b) = mset (levels book) + mset ls \<and> list_all2 (\<lambda>sl l. level_of sl (state_hash book) slot l) (sl # sls) ls))"
          proof (rule meets_mono [OF IH], elim conjE exE, intro conjI)
            fix b ls assume "mset (levels b) = mset (levels ?b) + mset ls" "list_all2 (\<lambda>sl l. level_of sl (state_hash ?b) slot l) sls ls"
            then show "\<exists>ls. mset (levels b) = mset (levels book) + mset ls \<and>
                list_all2 (\<lambda>sl l. level_of sl (state_hash book) slot l) (sl # sls) ls"
              using l by (intro exI [of _ "l # ls"]) (simp add: mset_insert_at)
          qed simp_all
        qed
      qed
    qed
  qed
qed

text \<open>A compiled virtual book is the slices themselves, one level each, sorted by price, claim and
  source; a level's price is the least Q64 price that covers the slice's input; the total is the sum
  of the levels and all of them carry one state hash. No input panics.\<close>

theorem virtual_book_sorted:
  "fits depth_errors (fst (compile_virtual_book slices slot m)) (\<lambda>b. sorted_wrt level_le (levels b) \<and>
     total_exposure b = sum_list (map v_exposure (levels b)) \<and>
     (\<exists>ls. mset (levels b) = mset ls \<and> list_all2 (\<lambda>sl l. level_of sl (state_hash b) slot l) slices ls))"
proof (cases "slices = [] \<or> MAX_VIRTUAL_LEVELS < length slices")
  case True
  then show ?thesis by (auto simp: compile_virtual_book_def liftR_def)
next
  case False
  show ?thesis
  proof (cases "sl_state_hash (hd slices) = 0")
    case True
    then show ?thesis using False by (auto simp: compile_virtual_book_def liftR_def)
  next
    case hash: False
    let ?b = "\<lparr>levels = [], total_exposure = 0, state_hash = sl_state_hash (hd slices)\<rparr>"
    have "meets depth_errors (virtual_loop slices slot ?b) (\<lambda>b. sorted_wrt level_le (levels b) \<and> state_hash b = state_hash ?b \<and>
     total_exposure b = sum_list (map v_exposure (levels b)) \<and>
     (\<exists>ls. mset (levels b) = mset (levels ?b) + mset ls \<and> list_all2 (\<lambda>sl l. level_of sl (state_hash ?b) slot l) slices ls))"
      by (rule virtual_loop_meets) (use False in simp_all)
    then have "fits depth_errors (fst (virtual_loop slices slot ?b m)) (\<lambda>b. sorted_wrt level_le (levels b) \<and> state_hash b = state_hash ?b \<and>
     total_exposure b = sum_list (map v_exposure (levels b)) \<and>
     (\<exists>ls. mset (levels b) = mset (levels ?b) + mset ls \<and> list_all2 (\<lambda>sl l. level_of sl (state_hash ?b) slot l) slices ls))"
      unfolding meets_def by blast
    then show ?thesis unfolding compile_virtual_book_def if_not_P [OF False] if_not_P [OF hash]
      by (rule fits_mono) auto
  qed
qed

end
