(* ===== verification/Fair.thy ===== *)
theory Fair
  imports Kernel
begin

text \<open>
  Execution-policy bands (\<open>fair/mod.rs\<close>): interval consensus of independent groups under a fault
  budget, the signed floor it tightens, and the fixed-price crossing inside a band.
\<close>

section \<open>Consensus\<close>

definition MAX_GROUPS :: nat where "MAX_GROUPS = 16"

record interval =
  iv_group :: nat
  iv_low :: nat
  iv_high :: nat

record band =
  bd_low :: nat
  bd_high :: nat
  bd_groups :: nat
  bd_quorum :: nat

fun check_intervals :: "interval list \<Rightarrow> interval list \<Rightarrow> unit res" where
  "check_intervals prior [] = Inr ()"
| "check_intervals prior (x # xs) =
     (if iv_low x = 0 \<or> iv_high x < iv_low x \<or> list_ex (\<lambda>y. iv_group y = iv_group x) prior then fail InvalidCurve
      else check_intervals (prior @ [x]) xs)"

definition endpoints :: "interval list \<Rightarrow> nat list" where
  "endpoints xs = sort (concat (map (\<lambda>x. [iv_low x, iv_high x]) xs))"

definition through :: "interval list \<Rightarrow> nat \<Rightarrow> nat \<Rightarrow> nat" where
  "through xs p right = length (filter (\<lambda>x. iv_low x \<le> p \<and> right \<le> iv_high x) xs)"

definition covered :: "interval list \<Rightarrow> nat \<Rightarrow> nat \<Rightarrow> bool" where
  "covered xs quorum p \<longleftrightarrow> quorum \<le> length (filter (\<lambda>x. iv_low x \<le> p \<and> p \<le> iv_high x) xs)"

fun band_loop :: "interval list \<Rightarrow> nat \<Rightarrow> nat list \<Rightarrow> nat option \<Rightarrow> nat \<Rightarrow> bool \<Rightarrow> (nat option \<times> nat) res" where
  "band_loop xs quorum [] low high ended = Inr (low, high)"
| "band_loop xs quorum (p # ps) low high ended =
     bindR
       (if covered xs quorum p
        then if ended then fail InvalidCurve
             else Inr (case low of None \<Rightarrow> Some p | Some l \<Rightarrow> Some l, p, ended)
        else Inr (low, high, ended \<or> low \<noteq> None)) (\<lambda>(low, high, ended).
     band_loop xs quorum ps low high
       (ended \<or> (ps \<noteq> [] \<and> p < hd ps \<and> low \<noteq> None \<and> through xs p (hd ps) < quorum)))"

definition consensus :: "interval list \<Rightarrow> nat \<Rightarrow> nat \<Rightarrow> band res" where
  "consensus xs faults max_width_bps =
     (let n = length xs in
      if \<not> (3 \<le> n \<and> n \<le> MAX_GROUPS) \<or> faults = 0 \<or> n \<le> faults \<or> n \<le> 2 * faults \<or> max_width_bps = 0 \<or> 2000 < max_width_bps
      then fail Bounds
      else
        bindR (check_intervals [] xs) (\<lambda>_.
        bindR (sub_w n faults) (\<lambda>quorum.
        bindR (band_loop xs quorum (endpoints xs) None 0 False) (\<lambda>(low, high).
        bindR (ok_or low VenueUnavailable) (\<lambda>low.
        bindR (sub_w high low) (\<lambda>width.
        bindR (mul_w 128 width 10000) (\<lambda>lhs.
        bindR (mul_w 128 low max_width_bps) (\<lambda>rhs.
        if rhs < lhs then fail InvalidCurve
        else Inr \<lparr>bd_low = low, bd_high = high, bd_groups = n, bd_quorum = quorum\<rparr>))))))))"

section \<open>Floors and crossings\<close>

datatype base_side = BuyBase | SellBase

definition midpoint :: "band \<Rightarrow> nat res" where
  "midpoint b =
     (if bd_low b = 0 \<or> bd_high b < bd_low b then fail Bounds
      else bindR (sub_w (bd_high b) (bd_low b)) (\<lambda>w. add_w 64 (bd_low b) (w div 2)))"

definition ceil_w :: "nat \<Rightarrow> nat \<Rightarrow> nat res" where
  "ceil_w a b = (if b = 0 then Inl Panic else Inr (a div b + of_bool (a mod b \<noteq> 0)))"

definition min_output :: "band \<Rightarrow> nat \<Rightarrow> base_side \<Rightarrow> nat \<Rightarrow> nat res" where
  "min_output b input s user_floor =
     (if input = 0 \<or> user_floor = 0 \<or> bd_low b = 0 \<or> bd_high b < bd_low b then fail Bounds
      else
        bindR (case s of
                 BuyBase \<Rightarrow> bindR (mul_w 128 input SCALE) (\<lambda>x. ceil_w x (bd_high b))
               | SellBase \<Rightarrow> bindR (mul_w 128 input (bd_low b)) (\<lambda>x. ceil_w x SCALE)) (\<lambda>model.
        bindR (as_u64 model) (\<lambda>floor. Inr (max user_floor floor))))"

record crossing_result =
  cr_base :: nat
  cr_quote :: nat
  cr_buyer_residual :: nat
  cr_seller_residual :: nat
  cr_price :: nat

definition cross :: "band \<Rightarrow> nat \<Rightarrow> nat \<Rightarrow> nat \<Rightarrow> nat \<Rightarrow> crossing_result res" where
  "cross b buy_quote buy_min_base sell_base sell_min_quote =
     (if buy_quote = 0 \<or> buy_min_base = 0 \<or> sell_base = 0 \<or> sell_min_quote = 0 \<or> bd_low b = 0 \<or> bd_high b < bd_low b
      then fail Bounds
      else
        bindR (midpoint b) (\<lambda>p.
        bindR (mul_w 128 buy_quote SCALE) (\<lambda>x.
        bindR (div_w x p) (\<lambda>x.
        bindR (as_u64 x) (\<lambda>affordable.
        let base = min sell_base affordable in
        bindR (mul_w 128 base p) (\<lambda>x.
        bindR (ceil_w x SCALE) (\<lambda>x.
        bindR (as_u64 x) (\<lambda>qt.
        if base = 0 \<or> qt = 0 \<or> buy_quote < qt
           \<or> base * bd_high b < qt * SCALE \<or> qt * SCALE < base * bd_low b
           \<or> base * buy_quote < qt * buy_min_base \<or> qt * sell_base < base * sell_min_quote
        then fail MinOut
        else Inr \<lparr>cr_base = base, cr_quote = qt, cr_buyer_residual = buy_quote - qt,
                  cr_seller_residual = sell_base - base, cr_price = p\<rparr>))))))))"

section \<open>The band is the quorum region\<close>

lemma through_covered: "quorum \<le> through xs p right \<Longrightarrow> p \<le> y \<Longrightarrow> y \<le> right \<Longrightarrow> covered xs quorum y"
proof -
  assume a: "quorum \<le> through xs p right" "p \<le> y" "y \<le> right"
  have "length (filter (\<lambda>x. iv_low x \<le> p \<and> right \<le> iv_high x) xs) \<le> length (filter (\<lambda>x. iv_low x \<le> y \<and> y \<le> iv_high x) xs)"
    using a(2,3) by (induction xs) auto
  then show "covered xs quorum y" using a(1) unfolding covered_def through_def by linarith
qed

definition scan_inv :: "interval list \<Rightarrow> nat \<Rightarrow> nat list \<Rightarrow> nat list \<Rightarrow> nat option \<Rightarrow> nat \<Rightarrow> bool \<Rightarrow> bool" where
  "scan_inv xs quorum pre rest low high ended \<longleftrightarrow>
     (case low of
        None \<Rightarrow> \<not> ended \<and> (\<forall>x \<in> set pre. \<not> covered xs quorum x)
      | Some l \<Rightarrow> l \<le> high \<and> high \<in> set pre \<and> (\<forall>y. l \<le> y \<and> y \<le> high \<longrightarrow> covered xs quorum y) \<and>
          (\<forall>x \<in> set pre. covered xs quorum x \<longrightarrow> l \<le> x \<and> x \<le> high) \<and>
          (\<not> ended \<and> rest \<noteq> [] \<longrightarrow> (\<forall>y. high \<le> y \<and> y \<le> hd rest \<longrightarrow> covered xs quorum y)))"

lemma scan_lookahead:
  assumes "covered xs quorum p" "rest \<noteq> []" "p \<le> hd rest" "\<not> (p < hd rest \<and> through xs p (hd rest) < quorum)"
  shows "\<forall>y. p \<le> y \<and> y \<le> hd rest \<longrightarrow> covered xs quorum y"
  using assms through_covered [of quorum xs p "hd rest"] by (cases "p < hd rest") auto

lemma band_loop_scan:
  assumes "sorted (pre @ rest)" "scan_inv xs quorum pre rest low high ended"
    "band_loop xs quorum rest low high ended = Inr (low', high')"
  shows "scan_inv xs quorum (pre @ rest) [] low' high' True \<or> (low' = None \<and> (\<forall>x \<in> set (pre @ rest). \<not> covered xs quorum x))"
  using assms
proof (induction rest arbitrary: pre low high ended)
  case Nil
  have eq: "low' = low" "high' = high" using Nil(3) by simp_all
  show ?case
  proof (cases low)
    case None
    then show ?thesis using Nil(2) eq by (simp add: scan_inv_def)
  next
    case (Some l)
    then show ?thesis using Nil(2) unfolding eq scan_inv_def Some option.case append_Nil2 by blast
  qed
next
  case (Cons p ps)
  have sorted: "sorted ((pre @ [p]) @ ps)" using Cons.prems(1) by simp
  have le: "\<forall>x \<in> set pre. x \<le> p" "ps \<noteq> [] \<Longrightarrow> p \<le> hd ps" using Cons.prems(1) by (auto simp: sorted_append)
  let ?ended = "\<lambda>low e. e \<or> (ps \<noteq> [] \<and> p < hd ps \<and> low \<noteq> None \<and> through xs p (hd ps) < quorum)"
  have step: "scan_inv xs quorum ((pre @ [p]) @ ps) [] low' high' True \<or> (low' = None \<and> (\<forall>x \<in> set ((pre @ [p]) @ ps). \<not> covered xs quorum x))"
    if "scan_inv xs quorum (pre @ [p]) ps l h e" "band_loop xs quorum ps l h e = Inr (low', high')" for l h e
    by (rule Cons.IH [OF sorted that])
  show ?case
  proof (cases "covered xs quorum p")
    case True
    then have ended: "\<not> ended" using Cons.prems(3) by (auto split: if_splits)
    let ?l = "case low of None \<Rightarrow> p | Some l \<Rightarrow> l"
    define e where "e = ?ended (Some ?l) False"
    have run: "band_loop xs quorum ps (Some ?l) p e = Inr (low', high')"
      using Cons.prems(3) True ended unfolding e_def by (cases low) simp_all
    have look: "\<not> e \<and> ps \<noteq> [] \<longrightarrow> (\<forall>y. p \<le> y \<and> y \<le> hd ps \<longrightarrow> covered xs quorum y)"
      using scan_lookahead [OF True _ le(2)] unfolding e_def by blast
    have "scan_inv xs quorum (pre @ [p]) ps (Some ?l) p e"
    proof (cases low)
      case None
      have "\<forall>y. p \<le> y \<and> y \<le> p \<longrightarrow> covered xs quorum y" using True le_antisym by metis
      moreover have "\<forall>x \<in> set pre. \<not> covered xs quorum x" using Cons.prems(2) None by (simp add: scan_inv_def)
      ultimately show ?thesis using None look unfolding scan_inv_def by simp
    next
      case (Some l)
      then have old: "l \<le> high" "high \<in> set pre" "\<forall>y. l \<le> y \<and> y \<le> high \<longrightarrow> covered xs quorum y"
        "\<forall>x \<in> set pre. covered xs quorum x \<longrightarrow> l \<le> x \<and> x \<le> high" "\<forall>y. high \<le> y \<and> y \<le> p \<longrightarrow> covered xs quorum y"
        using Cons.prems(2) ended unfolding scan_inv_def Some option.case list.sel by blast+
      have "\<forall>y. l \<le> y \<and> y \<le> p \<longrightarrow> covered xs quorum y" using old(3,5) nat_le_linear by blast
      moreover have hp: "high \<le> p" using le(1) old(2) by blast
      moreover have "\<forall>x \<in> set (pre @ [p]). covered xs quorum x \<longrightarrow> l \<le> x \<and> x \<le> p"
        using old(1,4) hp le(1) by auto
      moreover have "l \<le> p" "p \<in> set (pre @ [p])" using old(1) hp by simp_all
      ultimately show ?thesis using look unfolding scan_inv_def Some option.case by blast
    qed
    from step [OF this run] show ?thesis by simp
  next
    case False
    have run: "band_loop xs quorum ps low high (?ended low (ended \<or> low \<noteq> None)) = Inr (low', high')"
      using Cons.prems(3) False by simp
    have "scan_inv xs quorum (pre @ [p]) ps low high (?ended low (ended \<or> low \<noteq> None))"
    proof (cases low)
      case None
      then show ?thesis using Cons.prems(2) False by (simp add: scan_inv_def)
    next
      case (Some l)
      then have old: "l \<le> high" "high \<in> set pre" "\<forall>y. l \<le> y \<and> y \<le> high \<longrightarrow> covered xs quorum y"
        "\<forall>x \<in> set pre. covered xs quorum x \<longrightarrow> l \<le> x \<and> x \<le> high"
        using Cons.prems(2) unfolding scan_inv_def Some option.case by blast+
      moreover have "high \<in> set (pre @ [p])" using old(2) by simp
      moreover have "\<forall>x \<in> set (pre @ [p]). covered xs quorum x \<longrightarrow> l \<le> x \<and> x \<le> high" using old(4) False by auto
      ultimately show ?thesis unfolding scan_inv_def Some option.case by blast
    qed
    from step [OF this run] show ?thesis by simp
  qed
qed

lemma set_endpoints: "set (endpoints xs) = iv_low ` set xs \<union> iv_high ` set xs"
  by (auto simp: endpoints_def)

text \<open>A covered point lies between two covered endpoints.\<close>

lemma covered_between:
  assumes "covered xs quorum p" "0 < quorum"
  shows "\<exists>a \<in> set (endpoints xs). \<exists>b \<in> set (endpoints xs). a \<le> p \<and> p \<le> b \<and> covered xs quorum a \<and> covered xs quorum b"
proof -
  let ?S = "filter (\<lambda>x. iv_low x \<le> p \<and> p \<le> iv_high x) xs"
  have S: "?S \<noteq> []" using assms unfolding covered_def by (metis le_zero_eq length_0_conv not_less)
  let ?a = "Max (iv_low ` set ?S)" and ?b = "Min (iv_high ` set ?S)"
  have a: "?a \<in> iv_low ` set ?S" "\<forall>x \<in> set ?S. iv_low x \<le> ?a" and b: "?b \<in> iv_high ` set ?S" "\<forall>x \<in> set ?S. ?b \<le> iv_high x"
    using S by (auto intro!: Max_in Min_in)
  have ap: "?a \<le> p" "p \<le> ?b" using a(1) b(1) by auto
  have "quorum \<le> length (filter (\<lambda>x. iv_low x \<le> y \<and> y \<le> iv_high x) xs)" if y: "\<forall>x \<in> set ?S. iv_low x \<le> y \<and> y \<le> iv_high x" for y
  proof -
    have "length ?S \<le> length (filter (\<lambda>x. iv_low x \<le> y \<and> y \<le> iv_high x) xs)"
      using y by (induction xs) auto
    then show ?thesis using assms(1) unfolding covered_def by linarith
  qed
  moreover have "\<forall>x \<in> set ?S. iv_low x \<le> ?a \<and> ?a \<le> iv_high x" using a(2) ap(1) by fastforce
  moreover have "\<forall>x \<in> set ?S. iv_low x \<le> ?b \<and> ?b \<le> iv_high x" using b(2) ap(2) by fastforce
  ultimately have "covered xs quorum ?a" "covered xs quorum ?b" unfolding covered_def by blast+
  moreover have "?a \<in> set (endpoints xs)" "?b \<in> set (endpoints xs)" using a(1) b(1) unfolding set_endpoints by auto
  ultimately show ?thesis using ap by blast
qed

lemma consensus_exact:
  assumes "consensus xs faults width = Inr b"
  shows "2 * faults < length xs \<and> bd_quorum b = length xs - faults \<and> 0 < faults \<and>
    (\<forall>p. (bd_low b \<le> p \<and> p \<le> bd_high b) = covered xs (length xs - faults) p) \<and> bd_low b \<le> bd_high b \<and>
    (bd_high b - bd_low b) * 10000 \<le> bd_low b * width"
proof -
  let ?q = "length xs - faults"
  have guard: "\<not> (\<not> (3 \<le> length xs \<and> length xs \<le> MAX_GROUPS) \<or> faults = 0 \<or> length xs \<le> faults \<or> length xs \<le> 2 * faults \<or>
      width = 0 \<or> 2000 < width)"
    using assms unfolding consensus_def Let_def by (rule contrapos_pn) simp
  have n: "2 * faults < length xs" "0 < faults" "faults \<le> length xs" using guard by linarith+
  obtain low high where run: "band_loop xs ?q (endpoints xs) None 0 False = Inr (Some low, high)"
    and wide: "(if low * width < (high - low) * 10000 then fail InvalidCurve
        else Inr \<lparr>bd_low = low, bd_high = high, bd_groups = length xs, bd_quorum = ?q\<rparr>) = Inr b" "low \<le> high"
    using assms n unfolding consensus_def Let_def if_not_P [OF guard]
    by (clarsimp simp only: bindR_Inr ok_or_Inr sub_w_Inr mul_w_Inr prod.case split_paired_Ex)
  have b: "bd_low b = low" "bd_high b = high" "bd_quorum b = ?q" "low \<le> high" "(high - low) * 10000 \<le> low * width"
    using wide by (auto split: if_splits)
  have "scan_inv xs ?q [] (endpoints xs) None 0 False" by (simp add: scan_inv_def)
  moreover have "sorted ([] @ endpoints xs)" by (simp add: endpoints_def)
  ultimately have inv: "scan_inv xs ?q (endpoints xs) [] (Some low) high True"
    using band_loop_scan [OF _ _ run, of "[]"] by simp
  have "(low \<le> p \<and> p \<le> high) = covered xs ?q p" for p
  proof
    show "low \<le> p \<and> p \<le> high \<Longrightarrow> covered xs ?q p" using inv by (simp add: scan_inv_def)
  next
    assume "covered xs ?q p"
    moreover have "0 < ?q" using n by simp
    ultimately obtain u v where "u \<in> set (endpoints xs)" "v \<in> set (endpoints xs)" "u \<le> p" "p \<le> v" "covered xs ?q u" "covered xs ?q v"
      using covered_between by blast
    moreover from this have "low \<le> u" "v \<le> high" using inv unfolding scan_inv_def option.case by blast+
    ultimately show "low \<le> p \<and> p \<le> high" by (meson order_trans)
  qed
  then show ?thesis using b n by simp
qed

text \<open>\<^bold>\<open>C17.\<close>
  Consensus returns exactly the region a quorum supports: a price is inside the band if and only if
  all but at most \<open>faults\<close> of the intervals contain it. The band is not empty and no wider than the
  policy allows.\<close>

theorem consensus_is_quorum_region:
  assumes "consensus xs faults width = Inr b"
  shows "(\<forall>p. (bd_low b \<le> p \<and> p \<le> bd_high b) \<longleftrightarrow> length xs - faults \<le> length (filter (\<lambda>x. iv_low x \<le> p \<and> p \<le> iv_high x) xs)) \<and>
    bd_low b \<le> bd_high b \<and> (bd_high b - bd_low b) * 10000 \<le> bd_low b * width"
  using consensus_exact [OF assms] unfolding covered_def by blast

text \<open>\<^bold>\<open>C18.\<close>
  Faults are tolerated: with at most \<open>faults\<close> corrupted groups, a value every honest interval
  contains is in the band, and every price of the band is in the interval of an honest group.\<close>

theorem consensus_tolerates_faults:
  assumes run: "consensus xs faults width = Inr b" and few: "length (filter (\<lambda>x. \<not> honest x) xs) \<le> faults"
  shows "(\<forall>v. (\<forall>x \<in> set xs. honest x \<longrightarrow> iv_low x \<le> v \<and> v \<le> iv_high x) \<longrightarrow> bd_low b \<le> v \<and> v \<le> bd_high b) \<and>
    (\<forall>p. bd_low b \<le> p \<and> p \<le> bd_high b \<longrightarrow> (\<exists>x \<in> set xs. honest x \<and> iv_low x \<le> p \<and> p \<le> iv_high x))"
proof -
  let ?in = "\<lambda>p x. iv_low x \<le> p \<and> p \<le> iv_high x"
  have split: "length (filter honest xs) + length (filter (\<lambda>x. \<not> honest x) xs) = length xs"
    by (rule sum_length_filter_compl)
  have exact: "(bd_low b \<le> p \<and> p \<le> bd_high b) = (length xs - faults \<le> length (filter (?in p) xs))" for p
    using consensus_exact [OF run] unfolding covered_def by blast
  have n: "2 * faults < length xs" using consensus_exact [OF run] by blast
  have "length xs - faults \<le> length (filter (?in v) xs)" if "\<forall>x \<in> set xs. honest x \<longrightarrow> ?in v x" for v
  proof -
    have "length (filter honest xs) \<le> length (filter (?in v) xs)" using that by (induction xs) auto
    then show ?thesis using split few by linarith
  qed
  moreover have "\<exists>x \<in> set xs. honest x \<and> ?in p x" if "length xs - faults \<le> length (filter (?in p) xs)" for p
  proof (rule ccontr)
    assume "\<not> (\<exists>x \<in> set xs. honest x \<and> ?in p x)"
    then have "length (filter (?in p) xs) \<le> length (filter (\<lambda>x. \<not> honest x) xs)" by (induction xs) auto
    then show False using that few n by linarith
  qed
  ultimately show ?thesis unfolding exact by blast
qed

definition demo_votes :: "interval list" where
  "demo_votes = [\<lparr>iv_group = 1, iv_low = 1000, iv_high = 1020\<rparr>, \<lparr>iv_group = 2, iv_low = 1005, iv_high = 1030\<rparr>,
     \<lparr>iv_group = 3, iv_low = 10, iv_high = 20\<rparr>]"

definition demo_band :: band where
  "demo_band = \<lparr>bd_low = 1005, bd_high = 1020, bd_groups = 3, bd_quorum = 2\<rparr>"

lemma demo_consensus: "consensus demo_votes 1 200 = Inr demo_band"
  by code_simp

lemma consensus_is_quorum_region_witness: "bd_low demo_band \<le> bd_high demo_band"
  using consensus_is_quorum_region [OF demo_consensus] by blast

lemma consensus_tolerates_faults_witness: "\<exists>x \<in> set demo_votes. iv_group x \<noteq> 3 \<and> iv_low x \<le> 1010 \<and> 1010 \<le> iv_high x"
  using consensus_tolerates_faults [OF demo_consensus, of "\<lambda>x. iv_group x \<noteq> 3"] by (simp add: demo_votes_def demo_band_def)

section \<open>Floors and crossings hold\<close>

lemma ceil_w_iff: "ceil_w a b = Inr c \<Longrightarrow> c \<le> m \<longleftrightarrow> a \<le> b * m"
proof -
  assume c: "ceil_w a b = Inr c"
  then have b: "0 < b" and ceq: "c = a div b + of_bool (a mod b \<noteq> 0)" by (auto simp: ceil_w_def split: if_splits)
  have "a \<le> b * c" unfolding ceq by (rule div_ceil_ge [OF b])
  moreover have "a \<le> b * m \<Longrightarrow> c \<le> m" unfolding ceq by (rule div_ceil_le [OF b])
  ultimately show "c \<le> m \<longleftrightarrow> a \<le> b * m" using mult_le_mono2 [of c m b] by linarith
qed

text \<open>The floor only tightens the signed one, and the larger of the signed floor and the least output
  the worst price of the band pays is what is returned.\<close>

theorem min_output_tightens:
  assumes "min_output b amount s user_floor = Inr r"
  shows "user_floor \<le> r \<and> (\<forall>m. r \<le> m \<longleftrightarrow> user_floor \<le> m \<and>
    (case s of BuyBase \<Rightarrow> amount * SCALE \<le> bd_high b * m | SellBase \<Rightarrow> amount * bd_low b \<le> SCALE * m))"
  using assms by (cases s) (auto simp: min_output_def monad_simps ceil_w_iff split: if_splits)

lemma min_output_tightens_witness: "\<forall>m. 950 \<le> m \<longleftrightarrow> (950::nat) \<le> m \<and> 4000000000 * bd_low demo_band \<le> SCALE * m"
proof -
  have "min_output demo_band 4000000000 SellBase 950 = Inr 950" by code_simp
  from min_output_tightens [OF this] show ?thesis by simp
qed

text \<open>\<^bold>\<open>C19.\<close>
  A crossing moves one base amount against one quote amount at a price inside the band, never more
  than either party offered, never worse than either party's limit, and what is not moved is the
  residual of its owner. With machine-sized arguments it never panics.\<close>

theorem cross_fair:
  assumes "bd_high b < 2 ^ 64" "buy_quote < 2 ^ 64" "buy_min_base < 2 ^ 64" "sell_base < 2 ^ 64" "sell_min_quote < 2 ^ 64"
  shows "fits {Err Bounds, Err Arithmetic, Err MinOut} (cross b buy_quote buy_min_base sell_base sell_min_quote) (\<lambda>c.
    0 < cr_base c \<and> 0 < cr_quote c \<and> cr_quote c + cr_buyer_residual c = buy_quote \<and> cr_base c + cr_seller_residual c = sell_base \<and>
    cr_base c * bd_low b \<le> cr_quote c * SCALE \<and> cr_quote c * SCALE \<le> cr_base c * bd_high b \<and>
    cr_quote c * buy_min_base \<le> cr_base c * buy_quote \<and> cr_base c * sell_min_quote \<le> cr_quote c * sell_base)"
proof (cases "buy_quote = 0 \<or> buy_min_base = 0 \<or> sell_base = 0 \<or> sell_min_quote = 0 \<or> bd_low b = 0 \<or> bd_high b < bd_low b")
  case True
  then show ?thesis by (simp add: cross_def)
next
  case False
  let ?p = "bd_low b + (bd_high b - bd_low b) div 2"
  have p: "0 < ?p" "?p < 2 ^ 64" using False assms(1) by linarith+
  have mid: "midpoint b = Inr ?p" using False p by (simp add: midpoint_def sub_w_ok add_w_ok)
  have wide: "x * y < 2 ^ 128" if "x < 2 ^ 64" "y < (2 :: nat) ^ 64" for x y
    using mult_strict_mono [OF that] by (cases "x = 0") simp_all
  have S: "SCALE < 2 ^ 64" by (simp add: SCALE_def)
  have muls: "mul_w 128 buy_quote SCALE = Inr (buy_quote * SCALE)"
    "mul_w 128 (min sell_base x) ?p = Inr (min sell_base x * ?p)" for x
    using wide [OF assms(2) S] wide [of "min sell_base x" ?p] assms(4) p(2) by (simp_all add: mul_w_ok)
  have div: "div_w x ?p = Inr (x div ?p)" for x using p(1) by (simp add: div_w_ok)
  have ceil: "ceil_w x SCALE = Inr (x div SCALE + of_bool (x mod SCALE \<noteq> 0))" for x
    using SCALE_pos by (simp add: ceil_w_def del: SCALE_pos)
  have u64: "fits {Err Bounds, Err Arithmetic, Err MinOut} (as_u64 x) (\<lambda>_. True)" for x by (simp add: as_u64_def)
  show ?thesis
    unfolding cross_def if_not_P [OF False] mid muls div ceil bindR_simps Let_def
  proof (rule fits_bindR [OF u64], rule fits_bindR [OF u64])
    fix affordable qt
    let ?base = "min sell_base affordable"
    let ?bad = "?base = 0 \<or> qt = 0 \<or> buy_quote < qt
           \<or> ?base * bd_high b < qt * SCALE \<or> qt * SCALE < ?base * bd_low b
           \<or> ?base * buy_quote < qt * buy_min_base \<or> qt * sell_base < ?base * sell_min_quote"
    show "fits {Err Bounds, Err Arithmetic, Err MinOut} (if ?bad then fail MinOut
        else Inr \<lparr>cr_base = ?base, cr_quote = qt, cr_buyer_residual = buy_quote - qt,
                  cr_seller_residual = sell_base - ?base, cr_price = ?p\<rparr>)
      (\<lambda>c. 0 < cr_base c \<and> 0 < cr_quote c \<and> cr_quote c + cr_buyer_residual c = buy_quote \<and> cr_base c + cr_seller_residual c = sell_base \<and>
    cr_base c * bd_low b \<le> cr_quote c * SCALE \<and> cr_quote c * SCALE \<le> cr_base c * bd_high b \<and>
    cr_quote c * buy_min_base \<le> cr_base c * buy_quote \<and> cr_base c * sell_min_quote \<le> cr_quote c * sell_base)"
    proof (cases ?bad)
      case False
      then show ?thesis unfolding if_not_P [OF False] by (simp add: not_less)
    qed simp
  qed
qed

lemma cross_fair_witness:
  "1013 * SCALE \<le> 4295967296 * bd_high demo_band"
proof -
  have "cross demo_band 2000 100 4295967296 500 =
      Inr \<lparr>cr_base = 4295967296, cr_quote = 1013, cr_buyer_residual = 987, cr_seller_residual = 0, cr_price = 1012\<rparr>" by code_simp
  from fits_Inr [OF cross_fair this] show ?thesis by (simp add: demo_band_def)
qed

end
