(* ===== verification/Admission.thy ===== *)
theory Admission
  imports Kernel
begin

text \<open>
  The admission lane (\<open>runtime/admission.rs\<close>): a bounded table of requests with tombstones, a
  round-robin dispatcher that reserves read/write footprints, and completion by ticket; as a state
  machine with its reachable states.
\<close>

unbundle bit_operations_syntax

section \<open>State\<close>

definition QUEUE_CAPACITY :: nat where "QUEUE_CAPACITY = 256"
definition OWNER_CAPACITY :: nat where "OWNER_CAPACITY = 32"

lemmas lane_bounds = QUEUE_CAPACITY_def OWNER_CAPACITY_def

record request =
  rq_owner :: key
  rq_nonce :: nat
  rq_reads :: "64 word"
  rq_writes :: "64 word"
  rq_deadline :: nat

record ticket =
  tk_index :: nat
  tk_generation :: nat

record entry =
  en_request :: request
  en_generation :: nat
  en_in_flight :: bool
  en_completed :: bool

record admission =
  ad_entries :: "entry option list"
  ad_generation :: nat
  ad_cursor :: nat

definition admission_default :: admission where
  "admission_default = \<lparr>ad_entries = replicate QUEUE_CAPACITY None, ad_generation = 0, ad_cursor = 0\<rparr>"

section \<open>Operations\<close>

definition purge :: "nat \<Rightarrow> entry option \<Rightarrow> entry option" where
  "purge now = (\<lambda>Some e \<Rightarrow> if \<not> en_in_flight e \<and> rq_deadline (en_request e) < now then None else Some e | None \<Rightarrow> None)"

fun count_owned :: "request \<Rightarrow> entry option list \<Rightarrow> nat \<Rightarrow> nat res" where
  "count_owned r [] owned = Inr owned"
| "count_owned r (None # es) owned = count_owned r es owned"
| "count_owned r (Some e # es) owned =
     (if rq_owner (en_request e) = rq_owner r
      then if rq_nonce (en_request e) = rq_nonce r then fail Duplicate
           else count_owned r es (owned + of_bool (\<not> en_completed e))
      else count_owned r es owned)"

fun free_position :: "entry option list \<Rightarrow> nat option" where
  "free_position [] = None"
| "free_position (x # xs) = (if x = None then Some 0 else map_option Suc (free_position xs))"

definition admit :: "request \<Rightarrow> nat \<Rightarrow> (admission, ticket) comp" where
  "admit r now = (\<lambda>s.
     if rq_deadline r < now then (fail Expired, s)
     else
       let es = map (purge now) (ad_entries s); s1 = s\<lparr>ad_entries := es\<rparr> in
       case count_owned r es 0 of
         Inl e \<Rightarrow> (Inl e, s1)
       | Inr owned \<Rightarrow>
           if OWNER_CAPACITY \<le> owned then (fail OwnerLimit, s1)
           else (case free_position es of
             None \<Rightarrow> (fail QueueFull, s1)
           | Some i \<Rightarrow>
               (case checked_add 64 (ad_generation s) 1 of
                  None \<Rightarrow> (fail Arithmetic, s1)
                | Some g \<Rightarrow>
                    (Inr \<lparr>tk_index = i, tk_generation = g\<rparr>,
                     s1\<lparr>ad_generation := g,
                        ad_entries := es[i := Some \<lparr>en_request = r, en_generation = g, en_in_flight = False, en_completed = False\<rparr>]\<rparr>))))"

fun held :: "(request \<Rightarrow> 64 word) \<Rightarrow> entry option list \<Rightarrow> 64 word" where
  "held f [] = 0"
| "held f (None # es) = held f es"
| "held f (Some e # es) = (if en_in_flight e then f (en_request e) OR held f es else held f es)"

definition blocked :: "64 word \<Rightarrow> 64 word \<Rightarrow> request \<Rightarrow> bool" where
  "blocked reads writes r \<longleftrightarrow> rq_writes r AND (reads OR writes) \<noteq> 0 \<or> rq_reads r AND writes \<noteq> 0"

fun dispatch_loop :: "nat \<Rightarrow> 64 word \<Rightarrow> 64 word \<Rightarrow> nat list \<Rightarrow> admission \<Rightarrow> (ticket \<times> request) option \<times> admission" where
  "dispatch_loop now reads writes [] s = (None, s)"
| "dispatch_loop now reads writes (offset # offsets) s =
     (let i = (ad_cursor s + offset) mod QUEUE_CAPACITY in
      case ad_entries s ! i of
        None \<Rightarrow> dispatch_loop now reads writes offsets s
      | Some e \<Rightarrow>
          if en_in_flight e \<or> en_completed e \<or> rq_deadline (en_request e) < now \<or> blocked reads writes (en_request e)
          then dispatch_loop now reads writes offsets s
          else (Some (\<lparr>tk_index = i, tk_generation = en_generation e\<rparr>, en_request e),
                s\<lparr>ad_entries := (ad_entries s)[i := Some (e\<lparr>en_in_flight := True\<rparr>)],
                  ad_cursor := (i + 1) mod QUEUE_CAPACITY\<rparr>))"

definition dispatch :: "nat \<Rightarrow> admission \<Rightarrow> (ticket \<times> request) option \<times> admission" where
  "dispatch now s =
     dispatch_loop now (held rq_reads (ad_entries s)) (held rq_writes (ad_entries s)) [0..<QUEUE_CAPACITY] s"

definition complete :: "ticket \<Rightarrow> (admission, unit) comp" where
  "complete t = (\<lambda>s.
     case (if tk_index t < length (ad_entries s) then ad_entries s ! tk_index t else None) of
       None \<Rightarrow> (fail InvalidTicket, s)
     | Some e \<Rightarrow>
         if en_generation e \<noteq> tk_generation t \<or> \<not> en_in_flight e \<or> en_completed e then (fail InvalidTicket, s)
         else (Inr (), s\<lparr>ad_entries := (ad_entries s)[tk_index t := Some (e\<lparr>en_in_flight := False, en_completed := True\<rparr>)]\<rparr>))"

section \<open>The state machine\<close>

inductive lane_step :: "admission \<Rightarrow> admission \<Rightarrow> bool" where
  admit: "admit r now s = (res, s') \<Longrightarrow> lane_step s s'"
| dispatch: "dispatch now s = (picked, s') \<Longrightarrow> lane_step s s'"
| complete: "complete t s = (res, s') \<Longrightarrow> lane_step s s'"

inductive reachable :: "admission \<Rightarrow> bool" where
  start: "reachable admission_default"
| step: "reachable s \<Longrightarrow> lane_step s s' \<Longrightarrow> reachable s'"

inductive_cases lane_stepE: "lane_step s s'"

text \<open>The entry in a slot, and the parts of the invariant.\<close>

definition slot_at :: "admission \<Rightarrow> nat \<Rightarrow> entry option" where
  "slot_at s i = (if i < length (ad_entries s) then ad_entries s ! i else None)"

definition same_id :: "request \<Rightarrow> request \<Rightarrow> bool" where
  "same_id r q \<longleftrightarrow> rq_owner r = rq_owner q \<and> rq_nonce r = rq_nonce q"

definition shaped :: "admission \<Rightarrow> bool" where
  "shaped s \<longleftrightarrow> length (ad_entries s) = QUEUE_CAPACITY \<and> ad_cursor s < QUEUE_CAPACITY \<and>
     (\<forall>i e. slot_at s i = Some e \<longrightarrow> en_generation e \<le> ad_generation s \<and> \<not> (en_in_flight e \<and> en_completed e))"

definition unique :: "admission \<Rightarrow> bool" where
  "unique s \<longleftrightarrow> (\<forall>i j e f. slot_at s i = Some e \<and> slot_at s j = Some f \<and> i \<noteq> j \<longrightarrow>
     en_generation e \<noteq> en_generation f \<and> \<not> same_id (en_request e) (en_request f))"

definition isolated :: "admission \<Rightarrow> bool" where
  "isolated s \<longleftrightarrow> (\<forall>i j e f. slot_at s i = Some e \<and> slot_at s j = Some f \<and> i \<noteq> j \<and> en_in_flight e \<and> en_in_flight f \<longrightarrow>
     rq_writes (en_request e) AND (rq_reads (en_request f) OR rq_writes (en_request f)) = 0)"

definition open_of :: "key \<Rightarrow> entry option list \<Rightarrow> nat" where
  "open_of who es = length (filter (\<lambda>x. case x of None \<Rightarrow> False | Some e \<Rightarrow> rq_owner (en_request e) = who \<and> \<not> en_completed e) es)"

definition lane_ok :: "admission \<Rightarrow> bool" where
  "lane_ok s \<longleftrightarrow> shaped s \<and> unique s \<and> isolated s \<and> (\<forall>who. open_of who (ad_entries s) \<le> OWNER_CAPACITY)"

section \<open>Every operation keeps the invariant\<close>

lemma slot_at_update [simp]:
  "slot_at (s\<lparr>ad_cursor := c\<rparr>) i = slot_at s i"
  "slot_at (s\<lparr>ad_generation := g\<rparr>) i = slot_at s i"
  "i < length (ad_entries s) \<Longrightarrow> slot_at (s\<lparr>ad_entries := (ad_entries s)[i := x]\<rparr>) j = (if j = i then x else slot_at s j)"
  by (simp_all add: slot_at_def)

lemma slot_at_mem: "slot_at s i = Some e \<Longrightarrow> Some e \<in> set (ad_entries s)"
  by (metis nth_mem option.distinct(1) slot_at_def)

lemma purge_Some: "purge now x = Some e \<Longrightarrow> x = Some e"
  by (auto simp: purge_def split: option.splits if_splits)

lemma slot_at_purged: "slot_at (s\<lparr>ad_entries := map (purge now) (ad_entries s)\<rparr>) i = Some e \<Longrightarrow> slot_at s i = Some e"
  by (auto simp: slot_at_def dest: purge_Some split: if_splits)

lemma open_of_purged: "open_of who (map (purge now) es) \<le> open_of who es"
proof (induction es)
  case (Cons x es)
  then show ?case by (cases x) (auto simp: open_of_def purge_def)
qed (simp add: open_of_def)

lemma purge_ok:
  assumes "lane_ok s"
  shows "lane_ok (s\<lparr>ad_entries := map (purge now) (ad_entries s)\<rparr>)"
proof -
  let ?t = "s\<lparr>ad_entries := map (purge now) (ad_entries s)\<rparr>"
  have "shaped ?t" using assms slot_at_purged [of now s] unfolding lane_ok_def shaped_def by auto
  moreover have "unique ?t" using assms slot_at_purged [of now s] unfolding lane_ok_def unique_def by blast
  moreover have "isolated ?t" using assms slot_at_purged [of now s] unfolding lane_ok_def isolated_def by blast
  moreover have "open_of who (ad_entries ?t) \<le> OWNER_CAPACITY" for who
    using assms open_of_purged [of who now "ad_entries s"] unfolding lane_ok_def by (auto intro: le_trans)
  ultimately show ?thesis unfolding lane_ok_def by blast
qed

lemma open_of_Cons [simp]:
  "open_of who [] = 0" "open_of who (None # es) = open_of who es"
  "open_of who (Some e # es) = of_bool (rq_owner (en_request e) = who \<and> \<not> en_completed e) + open_of who es"
  by (simp_all add: open_of_def)

lemma count_owned_open: "count_owned r es n = Inr owned \<Longrightarrow> owned = n + open_of (rq_owner r) es"
  by (induction r es n rule: count_owned.induct) (simp_all split: if_splits)

lemma count_owned_fresh: "count_owned r es n = Inr owned \<Longrightarrow> Some e \<in> set es \<Longrightarrow> \<not> same_id (en_request e) r"
proof (induction r es n rule: count_owned.induct)
  case (3 r f es n)
  then show ?case by (cases "f = e") (simp_all add: same_id_def split: if_splits)
qed simp_all

lemma free_position_Some: "free_position es = Some i \<Longrightarrow> i < length es \<and> es ! i = None"
  by (induction es arbitrary: i) (auto split: if_splits)

lemma open_of_insert:
  assumes "i < length es" "es ! i = None"
  shows "open_of who (es[i := Some e]) = open_of who es + of_bool (rq_owner (en_request e) = who \<and> \<not> en_completed e)"
  using assms
proof (induction es arbitrary: i)
  case (Cons x es)
  then show ?case by (cases i) (auto simp: open_of_def)
qed simp

lemma open_of_change:
  assumes "i < length es" "es ! i = Some e" "rq_owner (en_request e') = rq_owner (en_request e)" "en_completed e \<longrightarrow> en_completed e'"
  shows "open_of who (es[i := Some e']) \<le> open_of who es"
  using assms
proof (induction es arbitrary: i)
  case (Cons x es)
  then show ?case by (cases i) (auto simp: open_of_def)
qed simp

lemma admit_ok:
  assumes ok: "lane_ok s" and run: "admit r now s = (q, s')"
  shows "lane_ok s'"
proof -
  let ?es = "map (purge now) (ad_entries s)"
  let ?s = "s\<lparr>ad_entries := ?es\<rparr>"
  have purged: "lane_ok ?s" by (rule purge_ok [OF ok])
  show ?thesis
  proof (cases "s' = s \<or> s' = ?s")
    case True
    then show ?thesis using ok purged by blast
  next
    case False
    obtain owned i g where c: "count_owned r ?es 0 = Inr owned" "owned < OWNER_CAPACITY" and f: "free_position ?es = Some i"
      and g: "checked_add 64 (ad_generation s) 1 = Some g"
      and s': "s' = ?s\<lparr>ad_generation := g, ad_entries := ?es[i := Some \<lparr>en_request = r, en_generation = g, en_in_flight = False, en_completed = False\<rparr>]\<rparr>"
      using run False by (auto simp: admit_def Let_def split: if_splits sum.splits option.splits)
    let ?e = "\<lparr>en_request = r, en_generation = g, en_in_flight = False, en_completed = False\<rparr>"
    have i: "i < length (ad_entries ?s)" "?es ! i = None" using free_position_Some [OF f] by simp_all
    have g': "g = Suc (ad_generation ?s)" using g by (simp add: checked_add_Some)
    have slot: "slot_at s' j = (if j = i then Some ?e else slot_at ?s j)" for j
      using i by (simp add: s' slot_at_def)
    have fresh: "en_generation e < g \<and> \<not> same_id (en_request e) r" if "slot_at ?s j = Some e" for j e
    proof -
      have "en_generation e \<le> ad_generation ?s" using purged that unfolding lane_ok_def shaped_def by blast
      moreover have "Some e \<in> set ?es" using slot_at_mem [OF that] by simp
      ultimately show ?thesis using count_owned_fresh [OF c(1)] unfolding g' by simp
    qed
    have "shaped s'" using purged slot fresh unfolding lane_ok_def shaped_def
      by (auto simp: s' g' split: if_splits intro: le_SucI)
    moreover have "unique s'" unfolding unique_def slot
    proof (intro allI impI, elim conjE)
      fix j k e f assume "(if j = i then Some ?e else slot_at ?s j) = Some e" "(if k = i then Some ?e else slot_at ?s k) = Some f" "j \<noteq> k"
      then show "en_generation e \<noteq> en_generation f \<and> \<not> same_id (en_request e) (en_request f)"
        using purged fresh [of j e] fresh [of k f] unfolding lane_ok_def unique_def
        by (cases "j = i"; cases "k = i") (auto simp: same_id_def)
    qed
    moreover have "isolated s'" using purged unfolding lane_ok_def isolated_def slot by (auto split: if_splits)
    moreover have "open_of who (ad_entries s') \<le> OWNER_CAPACITY" for who
      using purged open_of_insert [of i ?es who ?e] i count_owned_open [OF c(1)] c(2) unfolding lane_ok_def
      by (cases "rq_owner r = who") (auto simp: s')
    ultimately show ?thesis unfolding lane_ok_def by blast
  qed
qed

lemma or_word_zero: "m AND (a OR b) = 0 \<longleftrightarrow> m AND a = 0 \<and> m AND b = 0" for m a b :: "64 word"
  by (simp add: bit.conj_disj_distrib or_eq_0_iff)

lemma held_zero:
  "m AND held f es = 0 \<longleftrightarrow> (\<forall>e. Some e \<in> set es \<and> en_in_flight e \<longrightarrow> m AND f (en_request e) = 0)"
proof (induction f es rule: held.induct)
  case (3 f e es)
  then show ?case by (auto simp: or_word_zero)
qed simp_all

lemma dispatch_loop_run:
  assumes "dispatch_loop now reads writes offsets s = (picked, s')"
  shows "(picked = None \<and> s' = s \<and> (\<forall>off \<in> set offsets. \<forall>e. ad_entries s ! ((ad_cursor s + off) mod QUEUE_CAPACITY) = Some e \<longrightarrow>
      en_in_flight e \<or> en_completed e \<or> rq_deadline (en_request e) < now \<or> blocked reads writes (en_request e))) \<or>
    (\<exists>i e. i < QUEUE_CAPACITY \<and> ad_entries s ! i = Some e \<and> picked = Some (\<lparr>tk_index = i, tk_generation = en_generation e\<rparr>, en_request e) \<and>
      \<not> en_in_flight e \<and> \<not> en_completed e \<and> now \<le> rq_deadline (en_request e) \<and> \<not> blocked reads writes (en_request e) \<and>
      s' = s\<lparr>ad_entries := (ad_entries s)[i := Some (e\<lparr>en_in_flight := True\<rparr>)], ad_cursor := (i + 1) mod QUEUE_CAPACITY\<rparr>)"
  using assms
proof (induction offsets)
  case (Cons offset offsets)
  let ?i = "(ad_cursor s + offset) mod QUEUE_CAPACITY"
  have i: "?i < QUEUE_CAPACITY" by (simp add: lane_bounds)
  show ?case
  proof (cases "ad_entries s ! ?i")
    case None
    then show ?thesis using Cons by (auto simp: Let_def)
  next
    case (Some e)
    show ?thesis
    proof (cases "en_in_flight e \<or> en_completed e \<or> rq_deadline (en_request e) < now \<or> blocked reads writes (en_request e)")
      case True
      then show ?thesis using Cons Some by (auto simp: Let_def)
    next
      case False
      then show ?thesis using Cons.prems Some i
        by (intro disjI2 exI [of _ ?i] exI [of _ e]) (auto simp: Let_def not_less)
    qed
  qed
qed simp

lemma dispatch_run:
  assumes run: "dispatch now s = (picked, s')" and len: "length (ad_entries s) = QUEUE_CAPACITY"
  defines "B \<equiv> blocked (held rq_reads (ad_entries s)) (held rq_writes (ad_entries s))"
  shows "(picked = None \<and> s' = s \<and> (\<forall>i e. slot_at s i = Some e \<longrightarrow>
      en_in_flight e \<or> en_completed e \<or> rq_deadline (en_request e) < now \<or> B (en_request e))) \<or>
    (\<exists>i e. i < QUEUE_CAPACITY \<and> slot_at s i = Some e \<and> picked = Some (\<lparr>tk_index = i, tk_generation = en_generation e\<rparr>, en_request e) \<and>
      \<not> en_in_flight e \<and> \<not> en_completed e \<and> now \<le> rq_deadline (en_request e) \<and> \<not> B (en_request e) \<and>
      s' = s\<lparr>ad_entries := (ad_entries s)[i := Some (e\<lparr>en_in_flight := True\<rparr>)], ad_cursor := (i + 1) mod QUEUE_CAPACITY\<rparr>)"
  using dispatch_loop_run [OF run [unfolded dispatch_def]]
proof (elim disjE conjE exE)
  assume p: "picked = None" "s' = s" and all: "\<forall>off \<in> set [0..<QUEUE_CAPACITY]. \<forall>e. ad_entries s ! ((ad_cursor s + off) mod QUEUE_CAPACITY) = Some e \<longrightarrow>
      en_in_flight e \<or> en_completed e \<or> rq_deadline (en_request e) < now \<or>
      blocked (held rq_reads (ad_entries s)) (held rq_writes (ad_entries s)) (en_request e)"
  have "en_in_flight e \<or> en_completed e \<or> rq_deadline (en_request e) < now \<or> B (en_request e)" if e: "slot_at s i = Some e" for i e
  proof -
    let ?N = QUEUE_CAPACITY
    have i: "i < ?N" "ad_entries s ! i = Some e" using e len by (auto simp: slot_at_def split: if_splits)
    let ?off = "(i + (?N - ad_cursor s mod ?N)) mod ?N"
    have "(ad_cursor s + ?off) mod ?N = (ad_cursor s mod ?N + (i + (?N - ad_cursor s mod ?N))) mod ?N"
      by (simp add: mod_simps)
    also have "ad_cursor s mod ?N + (i + (?N - ad_cursor s mod ?N)) = i + ?N"
      using mod_less_divisor [of ?N "ad_cursor s"] by (simp add: lane_bounds)
    also have "(i + ?N) mod ?N = i" using i(1) by simp
    finally have "(ad_cursor s + ?off) mod ?N = i" .
    moreover have "?off \<in> set [0..<?N]" by (simp add: lane_bounds)
    ultimately show ?thesis using all i(2) unfolding B_def by metis
  qed
  then show ?thesis using p by blast
next
  fix i e assume "i < QUEUE_CAPACITY" "ad_entries s ! i = Some e"
    "picked = Some (\<lparr>tk_index = i, tk_generation = en_generation e\<rparr>, en_request e)" "\<not> en_in_flight e" "\<not> en_completed e"
    "now \<le> rq_deadline (en_request e)" "\<not> blocked (held rq_reads (ad_entries s)) (held rq_writes (ad_entries s)) (en_request e)"
    "s' = s\<lparr>ad_entries := (ad_entries s)[i := Some (e\<lparr>en_in_flight := True\<rparr>)], ad_cursor := (i + 1) mod QUEUE_CAPACITY\<rparr>"
  then show ?thesis using len unfolding B_def by (intro disjI2 exI [of _ i] exI [of _ e]) (simp add: slot_at_def)
qed

lemma and_comm_zero: "(a :: 64 word) AND b = 0 \<longleftrightarrow> b AND a = 0"
  by (simp add: and.commute)

lemma dispatch_ok:
  assumes ok: "lane_ok s" and run: "dispatch now s = (picked, s')"
  shows "lane_ok s'"
proof -
  have shaped: "shaped s" and unique: "unique s" and isolated: "isolated s" and opens: "\<forall>who. open_of who (ad_entries s) \<le> OWNER_CAPACITY"
    using ok by (simp_all add: lane_ok_def)
  have len: "length (ad_entries s) = QUEUE_CAPACITY" using shaped by (simp add: shaped_def)
  show ?thesis
  proof (cases "s' = s")
    case False
    then obtain i e where i: "i < length (ad_entries s)" "slot_at s i = Some e" and e: "\<not> en_in_flight e" "\<not> en_completed e"
      and free: "\<not> blocked (held rq_reads (ad_entries s)) (held rq_writes (ad_entries s)) (en_request e)"
      and s': "s' = s\<lparr>ad_entries := (ad_entries s)[i := Some (e\<lparr>en_in_flight := True\<rparr>)], ad_cursor := (i + 1) mod QUEUE_CAPACITY\<rparr>"
      using dispatch_run [OF run len] len by auto
    let ?e = "e\<lparr>en_in_flight := True\<rparr>"
    have slot: "slot_at s' j = (if j = i then Some ?e else slot_at s j)" for j using i(1) by (simp add: s' slot_at_def)
    have at: "ad_entries s ! i = Some e" using i by (simp add: slot_at_def)
    have clear: "rq_writes (en_request e) AND (rq_reads (en_request f) OR rq_writes (en_request f)) = 0"
      "rq_reads (en_request e) AND rq_writes (en_request f) = 0" if "slot_at s j = Some f" "en_in_flight f" for j f
    proof -
      have "Some f \<in> set (ad_entries s)" by (rule slot_at_mem [OF that(1)])
      then have "rq_writes (en_request e) AND rq_reads (en_request f) = 0" "rq_writes (en_request e) AND rq_writes (en_request f) = 0"
        "rq_reads (en_request e) AND rq_writes (en_request f) = 0"
        using free that(2) unfolding blocked_def or_word_zero held_zero by blast+
      then show "rq_writes (en_request e) AND (rq_reads (en_request f) OR rq_writes (en_request f)) = 0"
        "rq_reads (en_request e) AND rq_writes (en_request f) = 0" unfolding or_word_zero by blast+
    qed
    have "shaped s'" using shaped slot i e len unfolding shaped_def
      by (auto simp: s' lane_bounds split: if_splits)
    moreover have "unique s'" using unique i(2) unfolding unique_def slot by (auto split: if_splits)
    moreover have "isolated s'" unfolding isolated_def slot
    proof (intro allI impI, elim conjE)
      fix j k g f assume g: "(if j = i then Some ?e else slot_at s j) = Some g" and f: "(if k = i then Some ?e else slot_at s k) = Some f"
        and ne: "j \<noteq> k" and fly: "en_in_flight g" "en_in_flight f"
      show "rq_writes (en_request g) AND (rq_reads (en_request f) OR rq_writes (en_request f)) = 0"
      proof (cases "j = i")
        case True
        then show ?thesis using g f ne fly clear(1) by auto
      next
        case jn: False
        then have g': "slot_at s j = Some g" using g by simp
        show ?thesis
        proof (cases "k = i")
          case True
          then have req: "en_request f = en_request e" using f by auto
          show ?thesis using clear [OF g' fly(1)] unfolding req or_word_zero and_comm_zero [of "rq_writes (en_request g)"] by blast
        next
          case False
          then have f': "slot_at s k = Some f" using f by simp
          show ?thesis using isolated g' f' ne fly unfolding isolated_def by blast
        qed
      qed
    qed
    moreover have "open_of who (ad_entries s') \<le> OWNER_CAPACITY" for who
      using open_of_change [OF i(1) at, of ?e who] opens by (auto simp: s' intro: le_trans)
    ultimately show ?thesis unfolding lane_ok_def by blast
  qed (use ok in simp)
qed

lemma complete_run:
  assumes "complete t s = (q, s')"
  shows "(s' = s \<and> q = fail InvalidTicket) \<or> (\<exists>e. slot_at s (tk_index t) = Some e \<and> q = Inr () \<and> en_generation e = tk_generation t \<and> en_in_flight e \<and>
    \<not> en_completed e \<and> s' = s\<lparr>ad_entries := (ad_entries s)[tk_index t := Some (e\<lparr>en_in_flight := False, en_completed := True\<rparr>)]\<rparr>)"
  using assms unfolding complete_def slot_at_def [symmetric]
  by (cases "slot_at s (tk_index t)") (auto split: if_splits)

lemma complete_ok:
  assumes ok: "lane_ok s" and run: "complete t s = (q, s')"
  shows "lane_ok s'"
proof (cases "s' = s")
  case False
  let ?i = "tk_index t"
  obtain e where e: "slot_at s ?i = Some e" and s': "s' = s\<lparr>ad_entries := (ad_entries s)[?i := Some (e\<lparr>en_in_flight := False, en_completed := True\<rparr>)]\<rparr>"
    using complete_run [OF run] False by auto
  let ?e = "e\<lparr>en_in_flight := False, en_completed := True\<rparr>"
  have i: "?i < length (ad_entries s)" "ad_entries s ! ?i = Some e" using e by (auto simp: slot_at_def split: if_splits)
  have slot: "slot_at s' j = (if j = ?i then Some ?e else slot_at s j)" for j using i(1) by (simp add: s' slot_at_def)
  have "shaped s'" using ok slot e unfolding lane_ok_def shaped_def by (auto simp: s' split: if_splits)
  moreover have "unique s'" using ok e unfolding lane_ok_def unique_def slot by (auto split: if_splits)
  moreover have "isolated s'" using ok unfolding lane_ok_def isolated_def slot by (auto split: if_splits)
  moreover have "open_of who (ad_entries s') \<le> OWNER_CAPACITY" for who
    using open_of_change [OF i, of ?e who] ok unfolding lane_ok_def by (auto simp: s' intro: le_trans)
  ultimately show ?thesis unfolding lane_ok_def by blast
qed (use ok in simp)

lemma lane_step_ok: "lane_step s s' \<Longrightarrow> lane_ok s \<Longrightarrow> lane_ok s'"
  by (elim lane_stepE) (auto intro: admit_ok dispatch_ok complete_ok)

lemma default_ok: "lane_ok admission_default"
proof -
  have "slot_at admission_default i = None" for i by (simp add: slot_at_def admission_default_def)
  moreover have "open_of who (replicate n None) = 0" for who n by (induction n) simp_all
  ultimately show ?thesis
    by (simp add: lane_ok_def shaped_def unique_def isolated_def) (simp add: admission_default_def lane_bounds)
qed

lemma reachable_ok: "reachable s \<Longrightarrow> lane_ok s"
  by (induction rule: reachable.induct) (blast intro: default_ok lane_step_ok)+

end
