(* ===== verification/Lane.thy ===== *)
theory Lane
  imports Admission
begin

text \<open>
  What the admission lane guarantees in every reachable state: the isolation of in-flight
  footprints, at-most-once completion, and a dispatcher that never idles while a request could run.
\<close>

section \<open>Isolation\<close>

text \<open>\<^bold>\<open>C20.\<close>
  In every reachable state two in-flight requests have disjoint footprints (neither writes what the
  other reads or writes), no two held requests share an owner and nonce or a generation, no owner has
  more than 32 open requests, and the table keeps its 256 slots and a cursor inside them.\<close>

theorem lane_isolated:
  assumes "reachable s"
  shows "(\<forall>i j e f. slot_at s i = Some e \<and> slot_at s j = Some f \<and> i \<noteq> j \<longrightarrow>
      en_generation e \<noteq> en_generation f \<and> \<not> same_id (en_request e) (en_request f) \<and>
      (en_in_flight e \<and> en_in_flight f \<longrightarrow> rq_writes (en_request e) AND (rq_reads (en_request f) OR rq_writes (en_request f)) = 0)) \<and>
    (\<forall>who. open_of who (ad_entries s) \<le> 32) \<and> length (ad_entries s) = 256 \<and> ad_cursor s < 256"
  using reachable_ok [OF assms] unfolding lane_ok_def shaped_def unique_def isolated_def lane_bounds by blast

section \<open>At-most-once completion\<close>

text \<open>A spent ticket: its generation was issued, and no open entry carries it.\<close>

definition ticket_spent :: "ticket \<Rightarrow> admission \<Rightarrow> bool" where
  "ticket_spent t s \<longleftrightarrow> tk_generation t \<le> ad_generation s \<and>
     (\<forall>e. slot_at s (tk_index t) = Some e \<and> en_generation e = tk_generation t \<longrightarrow> en_completed e)"

lemma spent_admit:
  assumes spent: "ticket_spent t s" and run: "admit r now s = (q, s')"
  shows "ticket_spent t s'"
proof -
  let ?es = "map (purge now) (ad_entries s)"
  let ?s = "s\<lparr>ad_entries := ?es\<rparr>"
  have purged: "ticket_spent t ?s" using spent slot_at_purged [of now s] unfolding ticket_spent_def by auto
  show ?thesis
  proof (cases "s' = s \<or> s' = ?s")
    case True
    then show ?thesis using spent purged by blast
  next
    case False
    obtain i g where f: "free_position ?es = Some i" and g: "checked_add 64 (ad_generation s) 1 = Some g"
      and s': "s' = ?s\<lparr>ad_generation := g, ad_entries := ?es[i := Some \<lparr>en_request = r, en_generation = g, en_in_flight = False, en_completed = False\<rparr>]\<rparr>"
      using run False by (auto simp: admit_def Let_def split: if_splits sum.splits option.splits)
    have "i < length (ad_entries ?s)" using free_position_Some [OF f] by simp
    then have "slot_at s' j = (if j = i then Some \<lparr>en_request = r, en_generation = g, en_in_flight = False, en_completed = False\<rparr> else slot_at ?s j)" for j
      by (simp add: s' slot_at_def)
    moreover have "g = Suc (ad_generation s)" using g by (simp add: checked_add_Some)
    ultimately show ?thesis using purged unfolding ticket_spent_def by (auto simp: s' split: if_splits)
  qed
qed

lemma spent_step:
  assumes ok: "lane_ok s" and step: "lane_step s s'" and spent: "ticket_spent t s"
  shows "ticket_spent t s'"
  using step
proof (cases rule: lane_step.cases)
  case (admit r now q)
  then show ?thesis using spent_admit [OF spent] by blast
next
  case (dispatch now picked)
  have "length (ad_entries s) = QUEUE_CAPACITY" using ok by (simp add: lane_ok_def shaped_def)
  from dispatch_run [OF dispatch this] show ?thesis
  proof (elim disjE conjE exE)
    fix i e assume "i < QUEUE_CAPACITY" "slot_at s i = Some e"
      "s' = s\<lparr>ad_entries := (ad_entries s)[i := Some (e\<lparr>en_in_flight := True\<rparr>)], ad_cursor := (i + 1) mod QUEUE_CAPACITY\<rparr>"
    then show ?thesis using spent \<open>length (ad_entries s) = QUEUE_CAPACITY\<close> unfolding ticket_spent_def
      by (auto simp: slot_at_def nth_list_update split: if_splits)
  qed (use spent in simp)
next
  case (complete u q)
  from complete_run [OF complete] show ?thesis
  proof (elim disjE conjE exE)
    fix e assume "slot_at s (tk_index u) = Some e"
      "s' = s\<lparr>ad_entries := (ad_entries s)[tk_index u := Some (e\<lparr>en_in_flight := False, en_completed := True\<rparr>)]\<rparr>"
    then show ?thesis using spent unfolding ticket_spent_def by (auto simp: slot_at_def nth_list_update split: if_splits)
  qed (use spent in simp)
qed

lemma reachable_steps: "lane_step\<^sup>*\<^sup>* s s' \<Longrightarrow> reachable s \<Longrightarrow> reachable s'"
  by (induction rule: rtranclp_induct) (auto intro: reachable.step)

lemma spent_steps: "lane_step\<^sup>*\<^sup>* s s' \<Longrightarrow> reachable s \<Longrightarrow> ticket_spent t s \<Longrightarrow> ticket_spent t s'"
proof (induction rule: rtranclp_induct)
  case (step y z)
  then show ?case using spent_step reachable_ok reachable_steps by blast
qed simp

text \<open>\<^bold>\<open>C21.\<close>
  A ticket completes at most once: after it completed, whatever is admitted, dispatched or completed
  later, completing it again is an invalid ticket and changes nothing, even when its slot was purged
  and reused.\<close>

theorem ticket_completes_once:
  assumes "reachable s" "complete t s = (Inr (), s1)" "lane_step\<^sup>*\<^sup>* s1 s2"
  shows "complete t s2 = (fail InvalidTicket, s2)"
proof -
  obtain e where e: "slot_at s (tk_index t) = Some e" "en_generation e = tk_generation t"
    "s1 = s\<lparr>ad_entries := (ad_entries s)[tk_index t := Some (e\<lparr>en_in_flight := False, en_completed := True\<rparr>)]\<rparr>"
    using complete_run [OF assms(2)] by auto
  have "en_generation e \<le> ad_generation s" using reachable_ok [OF assms(1)] e(1) unfolding lane_ok_def shaped_def by blast
  then have "ticket_spent t s1" using e unfolding ticket_spent_def by (auto simp: slot_at_def split: if_splits)
  moreover have "reachable s1" using reachable.step [OF assms(1) lane_step.complete [OF assms(2)]] .
  ultimately have "ticket_spent t s2" using spent_steps [OF assms(3)] by blast
  then show ?thesis using complete_run [of t s2 "fst (complete t s2)" "snd (complete t s2)"]
    unfolding ticket_spent_def by (cases "complete t s2") auto
qed

section \<open>Work conservation\<close>

definition runnable :: "nat \<Rightarrow> admission \<Rightarrow> entry \<Rightarrow> bool" where
  "runnable now s e \<longleftrightarrow> \<not> en_in_flight e \<and> \<not> en_completed e \<and> now \<le> rq_deadline (en_request e) \<and>
     (\<forall>j f. slot_at s j = Some f \<and> en_in_flight f \<longrightarrow>
        rq_writes (en_request e) AND (rq_reads (en_request f) OR rq_writes (en_request f)) = 0 \<and>
        rq_reads (en_request e) AND rq_writes (en_request f) = 0)"

lemma mem_slot_at: "Some e \<in> set (ad_entries s) \<Longrightarrow> \<exists>i. slot_at s i = Some e"
  by (metis in_set_conv_nth slot_at_def)

lemma runnable_iff:
  "runnable now s e \<longleftrightarrow> \<not> (en_in_flight e \<or> en_completed e \<or> rq_deadline (en_request e) < now \<or>
     blocked (held rq_reads (ad_entries s)) (held rq_writes (ad_entries s)) (en_request e))"
  unfolding runnable_def blocked_def or_word_zero held_zero de_Morgan_disj not_less
  using slot_at_mem [of s] mem_slot_at [of _ s] by blast

text \<open>\<^bold>\<open>C22.\<close>
  The dispatcher is work conserving: it returns nothing only when no held request could run next to
  the requests in flight, and otherwise it starts one that can, under a ticket that will complete.\<close>

theorem dispatch_progress:
  assumes "reachable s" "dispatch now s = (picked, s')"
  shows "(picked = None \<longleftrightarrow> \<not> (\<exists>i e. slot_at s i = Some e \<and> runnable now s e)) \<and>
    (\<forall>t r. picked = Some (t, r) \<longrightarrow> (\<exists>e. slot_at s (tk_index t) = Some e \<and> en_request e = r \<and> runnable now s e) \<and>
       fst (complete t s') = Inr ())"
proof -
  have len: "length (ad_entries s) = QUEUE_CAPACITY" using reachable_ok [OF assms(1)] by (simp add: lane_ok_def shaped_def)
  from dispatch_run [OF assms(2) len] show ?thesis
  proof (elim disjE conjE exE)
    fix i e assume "i < QUEUE_CAPACITY" and e: "slot_at s i = Some e" and p: "picked = Some (\<lparr>tk_index = i, tk_generation = en_generation e\<rparr>, en_request e)"
      and open_e: "\<not> en_in_flight e" "\<not> en_completed e" "now \<le> rq_deadline (en_request e)"
        "\<not> blocked (held rq_reads (ad_entries s)) (held rq_writes (ad_entries s)) (en_request e)"
      and s': "s' = s\<lparr>ad_entries := (ad_entries s)[i := Some (e\<lparr>en_in_flight := True\<rparr>)], ad_cursor := (i + 1) mod QUEUE_CAPACITY\<rparr>"
    have "runnable now s e" unfolding runnable_iff using open_e by simp
    moreover have "fst (complete \<lparr>tk_index = i, tk_generation = en_generation e\<rparr> s') = Inr ()"
      using \<open>i < QUEUE_CAPACITY\<close> len open_e by (simp add: complete_def s')
    ultimately show ?thesis using e p by auto
  next
    assume "picked = None" "\<forall>i e. slot_at s i = Some e \<longrightarrow> en_in_flight e \<or> en_completed e \<or> rq_deadline (en_request e) < now \<or>
        blocked (held rq_reads (ad_entries s)) (held rq_writes (ad_entries s)) (en_request e)"
    then show ?thesis unfolding runnable_iff by blast
  qed
qed

section \<open>A run\<close>

definition demo_request :: request where
  "demo_request = \<lparr>rq_owner = 7, rq_nonce = 1, rq_reads = 1, rq_writes = 2, rq_deadline = 90\<rparr>"

definition demo_entry :: "bool \<Rightarrow> bool \<Rightarrow> entry option" where
  "demo_entry fly fin = Some \<lparr>en_request = demo_request, en_generation = 1, en_in_flight = fly, en_completed = fin\<rparr>"

definition demo_lane :: "entry option \<Rightarrow> nat \<Rightarrow> admission" where
  "demo_lane e c = \<lparr>ad_entries = e # replicate 255 None, ad_generation = 1, ad_cursor = c\<rparr>"

abbreviation "demo_ticket \<equiv> \<lparr>tk_index = 0, tk_generation = 1\<rparr>"

lemma empty_lane: "ad_entries admission_default = None # replicate 255 None"
  using replicate_Suc [of 255 "None :: entry option"] by (simp add: admission_default_def lane_bounds)

lemma map_purge_empty: "map (purge now) (replicate n None) = replicate n None"
  by (induction n) (simp_all add: purge_def)

lemma count_owned_empty: "count_owned r (replicate n None) k = Inr k"
  by (induction n) simp_all

lemma held_empty: "held f (replicate n None) = 0"
  by (induction n) simp_all

lemma demo_admit: "admit demo_request 5 admission_default = (Inr demo_ticket, demo_lane (demo_entry False False) 0)"
  by (simp add: admit_def empty_lane map_purge_empty count_owned_empty purge_def checked_add_def lane_bounds Let_def demo_lane_def demo_entry_def)
    (simp add: demo_request_def admission_default_def)

lemma demo_dispatch: "dispatch 6 (demo_lane (demo_entry False False) 0) = (Some (demo_ticket, demo_request), demo_lane (demo_entry True False) 1)"
proof -
  have "[0..<QUEUE_CAPACITY] = 0 # [1..<QUEUE_CAPACITY]" by (simp add: lane_bounds upt_conv_Cons)
  then show ?thesis
    by (simp add: dispatch_def demo_lane_def demo_entry_def held_empty blocked_def Let_def lane_bounds demo_request_def)
qed

lemma demo_complete: "complete demo_ticket (demo_lane (demo_entry True False) 1) = (Inr (), demo_lane (demo_entry False True) 1)"
  by (simp add: complete_def demo_lane_def demo_entry_def)

lemma demo_reachable:
  "reachable (demo_lane (demo_entry False False) 0)" "reachable (demo_lane (demo_entry True False) 1)"
proof -
  show a: "reachable (demo_lane (demo_entry False False) 0)"
    by (rule reachable.step [OF reachable.start lane_step.admit [OF demo_admit]])
  show "reachable (demo_lane (demo_entry True False) 1)"
    by (rule reachable.step [OF a lane_step.dispatch [OF demo_dispatch]])
qed

lemma lane_isolated_witness: "open_of 7 (ad_entries (demo_lane (demo_entry True False) 1)) \<le> 32"
  using lane_isolated [OF demo_reachable(2)] by blast

lemma ticket_completes_once_witness:
  "complete demo_ticket (demo_lane (demo_entry False True) 1) = (fail InvalidTicket, demo_lane (demo_entry False True) 1)"
  by (rule ticket_completes_once [OF demo_reachable(2) demo_complete rtranclp.rtrancl_refl])

lemma dispatch_progress_witness: "\<exists>i e. slot_at (demo_lane (demo_entry False False) 0) i = Some e \<and> runnable 6 (demo_lane (demo_entry False False) 0) e"
  using dispatch_progress [OF demo_reachable(1) demo_dispatch] by blast

end
