(* ===== verification/Bytes.thy ===== *)
theory Bytes
  imports Kernel
begin

text \<open>
  Account bytes as the adapters read them (\<open>adapters/lib.rs\<close>): checked ranges, little-endian
  integers, 32-byte keys, and the instruction buffers they write. A byte is a natural number below 256.
\<close>

section \<open>Reading\<close>

definition get_range :: "nat list \<Rightarrow> nat \<Rightarrow> nat \<Rightarrow> nat list option" where
  "get_range d lo hi = (if lo \<le> hi \<and> hi \<le> length d then Some (take (hi - lo) (drop lo d)) else None)"

fun from_le :: "nat list \<Rightarrow> nat" where
  "from_le [] = 0"
| "from_le (b # bs) = b + 256 * from_le bs"

fun to_le :: "nat \<Rightarrow> nat \<Rightarrow> nat list" where
  "to_le 0 v = []"
| "to_le (Suc n) v = v mod 256 # to_le n (v div 256)"

definition key_of :: "nat list \<Rightarrow> key" where
  "key_of bs = of_nat (from_le (rev bs))"

definition key_at :: "nat list \<Rightarrow> nat \<Rightarrow> key res" where
  "key_at data offset =
     bindR (add_w 64 offset 32) (\<lambda>e. bindR (or_fault (get_range data offset e) (Dex DexLayout)) (\<lambda>bs. Inr (key_of bs)))"

definition u64_at :: "nat list \<Rightarrow> nat \<Rightarrow> nat res" where
  "u64_at data offset =
     bindR (add_w 64 offset 8) (\<lambda>e. bindR (or_fault (get_range data offset e) (Dex DexLayout)) (\<lambda>bs. Inr (from_le bs)))"

definition u32_at :: "nat list \<Rightarrow> nat \<Rightarrow> nat res" where
  "u32_at data offset =
     bindR (add_w 64 offset 4) (\<lambda>e. bindR (or_fault (get_range data offset e) (Dex DexLayout)) (\<lambda>bs. Inr (from_le bs)))"

definition token_amount :: "nat list \<Rightarrow> nat res" where
  "token_amount data =
     (if length data \<noteq> 165 \<or> data ! 108 \<noteq> 1 then Inl (Dex DexLayout) else u64_at data 64)"

section \<open>Writing\<close>

text \<open>\<open>copy_from_slice\<close> into a range of a buffer.\<close>

definition write_at :: "nat \<Rightarrow> nat list \<Rightarrow> nat list \<Rightarrow> nat list" where
  "write_at offset bs data = take offset data @ bs @ drop (offset + length bs) data"

section \<open>Laws\<close>

definition bytes_ok :: "nat list \<Rightarrow> bool" where
  "bytes_ok d \<longleftrightarrow> (\<forall>b \<in> set d. b < 256)"

lemma length_to_le [simp]: "length (to_le n v) = n"
  by (induction n arbitrary: v) simp_all

lemma from_le_to_le: "from_le (to_le n v) = v mod 256 ^ n"
proof (induction n arbitrary: v)
  case (Suc n)
  have "v mod 256 + 256 * (v div 256 mod 256 ^ n) = v mod (256 * 256 ^ n)"
    by (simp add: mod_mult2_eq)
  then show ?case by (simp add: Suc)
qed simp

lemma to_le_from_le: "bytes_ok bs \<Longrightarrow> to_le (length bs) (from_le bs) = bs"
  by (induction bs) (auto simp: bytes_ok_def)

lemma bytes_ok_to_le: "bytes_ok (to_le n v)"
  by (induction n arbitrary: v) (auto simp: bytes_ok_def)

lemma from_le_bound: "bytes_ok bs \<Longrightarrow> from_le bs < 256 ^ length bs"
proof (induction bs)
  case (Cons b bs)
  then have "b < 256" "from_le bs < 256 ^ length bs" by (simp_all add: bytes_ok_def)
  then have "b + 256 * from_le bs < 256 * (from_le bs + 1)" by simp
  also have "\<dots> \<le> 256 * 256 ^ length bs" using \<open>from_le bs < _\<close> by (intro mult_le_mono) simp_all
  finally show ?case by simp
qed simp

lemma bytes_ok_range: "bytes_ok d \<Longrightarrow> get_range d lo hi = Some bs \<Longrightarrow> bytes_ok bs \<and> length bs = hi - lo"
  by (auto simp: bytes_ok_def get_range_def split: if_splits dest!: in_set_takeD in_set_dropD)

abbreviation dex_faults :: "fault set" where
  "dex_faults \<equiv> range Dex"

lemma u64_at_fits:
  assumes "bytes_ok d" "offset < 2 ^ 63"
  shows "fits dex_faults (u64_at d offset) (\<lambda>v. v < 2 ^ 64)"
proof (cases "get_range d offset (offset + 8)")
  case None
  then show ?thesis using assms(2) by (simp add: u64_at_def add_w_ok)
next
  case (Some bs)
  then have "bytes_ok bs" "length bs = 8" using bytes_ok_range [OF assms(1) Some] by simp_all
  then have "from_le bs < 2 ^ 64" using from_le_bound [of bs] by simp
  then show ?thesis using assms(2) Some by (simp add: u64_at_def add_w_ok)
qed

lemma u32_at_fits:
  assumes "bytes_ok d" "offset < 2 ^ 63"
  shows "fits dex_faults (u32_at d offset) (\<lambda>v. v < 2 ^ 32)"
proof (cases "get_range d offset (offset + 4)")
  case None
  then show ?thesis using assms(2) by (simp add: u32_at_def add_w_ok)
next
  case (Some bs)
  then have "bytes_ok bs" "length bs = 4" using bytes_ok_range [OF assms(1) Some] by simp_all
  then have "from_le bs < 2 ^ 32" using from_le_bound [of bs] by simp
  then show ?thesis using assms(2) Some by (simp add: u32_at_def add_w_ok)
qed

lemma key_at_fits: "offset < 2 ^ 63 \<Longrightarrow> fits dex_faults (key_at d offset) (\<lambda>_. True)"
  by (cases "get_range d offset (offset + 32)") (simp_all add: key_at_def add_w_ok)

text \<open>What a buffer write leaves where.\<close>

lemma length_write_at [simp]: "offset + length bs \<le> length d \<Longrightarrow> length (write_at offset bs d) = length d"
  by (simp add: write_at_def)

lemma get_range_write_same:
  "offset + length bs \<le> length d \<Longrightarrow> hi = offset + length bs \<Longrightarrow> get_range (write_at offset bs d) offset hi = Some bs"
  by (simp add: get_range_def write_at_def)

lemma nth_write_at:
  "offset + length bs \<le> length d \<Longrightarrow> i < length d \<Longrightarrow>
   write_at offset bs d ! i = (if offset \<le> i \<and> i < offset + length bs then bs ! (i - offset) else d ! i)"
  by (auto simp: write_at_def nth_append min_def)

lemma get_range_write_other:
  assumes "offset + length bs \<le> length d" "hi \<le> offset \<or> offset + length bs \<le> lo"
  shows "get_range (write_at offset bs d) lo hi = get_range d lo hi"
proof (cases "lo \<le> hi \<and> hi \<le> length d")
  case True
  have "take (hi - lo) (drop lo (write_at offset bs d)) = take (hi - lo) (drop lo d)"
    by (rule nth_equalityI) (use True assms in \<open>auto simp: nth_write_at\<close>)
  then show ?thesis using assms by (simp add: get_range_def)
next
  case False
  then show ?thesis using assms by (auto simp: get_range_def)
qed

lemma u64_at_write:
  assumes "v < 2 ^ 64" "offset + 8 \<le> length d" "offset < 2 ^ 63"
  shows "u64_at (write_at offset (to_le 8 v) d) offset = Inr v"
proof -
  have "get_range (write_at offset (to_le 8 v) d) offset (offset + 8) = Some (to_le 8 v)"
    by (rule get_range_write_same) (use assms in simp_all)
  moreover have "from_le (to_le 8 v) = v" unfolding from_le_to_le using assms(1) by simp
  moreover have "add_w 64 offset 8 = Inr (offset + 8)" using assms(3) by (intro add_w_ok) simp
  ultimately show ?thesis by (simp add: u64_at_def)
qed

lemma u64_at_write_other:
  "offset + length bs \<le> length d \<Longrightarrow> k + 8 \<le> offset \<or> offset + length bs \<le> k \<Longrightarrow> u64_at (write_at offset bs d) k = u64_at d k"
  unfolding u64_at_def by (cases "k + 8 < 2 ^ 64") (simp_all add: add_w_def get_range_write_other)

end
