(* ===== verification/Adapters.thy ===== *)
theory Adapters
  imports Bytes
begin

text \<open>
  The Phoenix and Raydium CPMM adapters (\<open>adapters/lib.rs\<close>): headers decoded from account bytes, the
  instruction bytes they emit and the CPMM quote. Errors of this crate are \<open>Dex\<close> faults.
\<close>

definition ADAPTER_MAX_MATCHES :: nat where "ADAPTER_MAX_MATCHES = 16"
definition MAX_INPUT :: nat where "MAX_INPUT = 100000000000000"
definition PHOENIX_IOC_LEN :: nat where "PHOENIX_IOC_LEN = 73"

abbreviation dex :: "dex_error \<Rightarrow> 'a res" where
  "dex e \<equiv> Inl (Dex e)"

section \<open>Phoenix header and order\<close>

record phoenix_header =
  ph_base_mint :: key
  ph_quote_mint :: key
  ph_base_vault :: key
  ph_quote_vault :: key
  ph_base_lot :: nat
  ph_quote_lot :: nat
  ph_sequence :: nat

definition header_decode :: "nat list \<Rightarrow> phoenix_header res" where
  "header_decode data =
     (if length data < 576 \<or> take 8 data \<noteq> [119, 223, 113, 115, 183, 32, 88, 113] then dex DexLayout
      else
        bindR (u64_at data 8) (\<lambda>status.
        if status \<noteq> 1 then dex DexStatus
        else
          bindR (key_at data 48) (\<lambda>base_mint. bindR (key_at data 128) (\<lambda>quote_mint.
          bindR (key_at data 80) (\<lambda>base_vault. bindR (key_at data 160) (\<lambda>quote_vault.
          bindR (u64_at data 112) (\<lambda>base_lot. bindR (u64_at data 192) (\<lambda>quote_lot.
          bindR (u64_at data 272) (\<lambda>sequence.
          if base_lot = 0 \<or> quote_lot = 0 then dex DexLayout
          else Inr \<lparr>ph_base_mint = base_mint, ph_quote_mint = quote_mint, ph_base_vault = base_vault,
            ph_quote_vault = quote_vault, ph_base_lot = base_lot, ph_quote_lot = quote_lot, ph_sequence = sequence\<rparr>)))))))))"

text \<open>The 80-byte buffer; every write is inside it.\<close>

definition phoenix_ioc :: "phoenix_header \<Rightarrow> bool \<Rightarrow> nat \<Rightarrow> nat \<Rightarrow> nat \<Rightarrow> nat list res" where
  "phoenix_ioc header sell_base amount matches last_slot =
     (if amount = 0 \<or> MAX_INPUT < amount \<or> matches = 0 \<or> ADAPTER_MAX_MATCHES < matches then dex DexAmount
      else
        let data = ((replicate 80 0)[1 := 2])[2 := of_bool sell_base] in
        bindR (div_w amount (if sell_base then ph_base_lot header else ph_quote_lot header)) (\<lambda>lots.
        if lots = 0 then dex DexAmount
        else
          let data = write_at (if sell_base then 4 else 12) (to_le 8 lots) data;
              data = write_at 38 (to_le 8 matches) (data[37 := 1]);
              data = write_at 64 (to_le 8 last_slot) (data[63 := 1])
          in Inr data))"

section \<open>Raydium CPMM\<close>

record raydium_pool =
  rp_config :: key
  rp_vaults :: "key \<times> key"
  rp_mints :: "key \<times> key"
  rp_token_programs :: "key \<times> key"
  rp_observation :: key
  rp_excluded :: "nat \<times> nat"
  rp_creator_mode :: nat
  rp_creator_enabled :: bool

definition excluded_at :: "nat list \<Rightarrow> nat \<Rightarrow> nat res" where
  "excluded_at data i =
     bindR (u64_at data (341 + 8 * i)) (\<lambda>x. bindR (u64_at data (357 + 8 * i)) (\<lambda>y.
       or_fault (case checked_add 64 x y of
           None \<Rightarrow> None
         | Some z \<Rightarrow> (case u64_at data (397 + 8 * i) of Inl e \<Rightarrow> None | Inr w \<Rightarrow> checked_add 64 z w)) (Dex DexArithmetic)))"

definition pool_decode :: "nat list \<Rightarrow> nat \<Rightarrow> raydium_pool res" where
  "pool_decode data timestamp =
     (if length data \<noteq> 637 \<or> take 8 data \<noteq> [247, 237, 227, 245, 215, 195, 222, 70] then dex DexLayout
      else
        bindR (if odd (data ! 329 div 4) then Inr True else bindR (u64_at data 373) (\<lambda>opened. Inr (timestamp < opened))) (\<lambda>shut.
        if shut then dex DexStatus
        else if 2 < data ! 389 \<or> 1 < data ! 390 then dex DexLayout
        else
          bindR (excluded_at data 0) (\<lambda>e0. bindR (excluded_at data 1) (\<lambda>e1.
          bindR (key_at data 8) (\<lambda>config. bindR (key_at data 72) (\<lambda>v0. bindR (key_at data 104) (\<lambda>v1.
          bindR (key_at data 168) (\<lambda>m0. bindR (key_at data 200) (\<lambda>m1.
          bindR (key_at data 232) (\<lambda>t0. bindR (key_at data 264) (\<lambda>t1. bindR (key_at data 296) (\<lambda>observation.
          Inr \<lparr>rp_config = config, rp_vaults = (v0, v1), rp_mints = (m0, m1), rp_token_programs = (t0, t1),
            rp_observation = observation, rp_excluded = (e0, e1), rp_creator_mode = data ! 389,
            rp_creator_enabled = (data ! 390 = 1)\<rparr>))))))))))))"

definition ceil_fee :: "nat \<Rightarrow> nat \<Rightarrow> nat res" where
  "ceil_fee amount rate =
     bindR (mul_w 128 amount rate) (\<lambda>x.
       let fee = x div 1000000 + of_bool (x mod 1000000 \<noteq> 0) in
       if fee < 2 ^ 64 then Inr fee else dex DexArithmetic)"

definition pick :: "bool \<Rightarrow> 'a \<times> 'a \<Rightarrow> 'a" where
  "pick zero p = (if zero then fst p else snd p)"

text \<open>The exchange itself, on the tradable reserves.\<close>

definition pool_exchange :: "bool \<Rightarrow> nat \<Rightarrow> nat \<Rightarrow> nat \<Rightarrow> nat \<Rightarrow> nat \<Rightarrow> nat res" where
  "pool_exchange on_input trade creator amount rin rout =
     bindR (bindR (add_w 64 trade (if on_input then creator else 0)) (ceil_fee amount)) (\<lambda>fee.
     bindR (or_fault (checked_sub amount fee) (Dex DexAmount)) (\<lambda>net.
     bindR (mul_w 128 net rout) (\<lambda>numerator.
     bindR (bindR (add_w 128 rin net) (div_w numerator)) (\<lambda>q.
     bindR (if q < 2 ^ 64 then Inr q else dex DexArithmetic) (\<lambda>gross.
     bindR (if on_input then Inr 0 else ceil_fee gross creator) (\<lambda>out_fee.
     bindR (or_fault (checked_sub gross out_fee) (Dex DexArithmetic)) (\<lambda>out.
     if out = 0 then dex DexAmount else Inr out)))))))"

definition pool_quote :: "raydium_pool \<Rightarrow> nat list \<Rightarrow> nat \<times> nat \<Rightarrow> bool \<Rightarrow> nat \<Rightarrow> nat res" where
  "pool_quote pool config balances zero_for_one amount =
     (if length config \<noteq> 236 \<or> take 8 config \<noteq> [218, 244, 33, 104, 203, 203, 43, 111] then dex DexLayout
      else if amount = 0 \<or> MAX_INPUT < amount then dex DexAmount
      else
        bindR (u64_at config 12) (\<lambda>trade.
        bindR (if rp_creator_enabled pool then u64_at config 108 else Inr 0) (\<lambda>creator.
        bindR (or_fault (checked_add 64 trade creator) (Dex DexArithmetic)) (\<lambda>total.
        if 1000000 \<le> total then dex DexUnsupported
        else
          bindR (or_fault (checked_sub (pick zero_for_one balances) (pick zero_for_one (rp_excluded pool))) (Dex DexArithmetic)) (\<lambda>rin.
          bindR (or_fault (checked_sub (pick (\<not> zero_for_one) balances) (pick (\<not> zero_for_one) (rp_excluded pool))) (Dex DexArithmetic)) (\<lambda>rout.
          if rin = 0 \<or> rout = 0 then dex DexAmount
          else pool_exchange (rp_creator_mode pool = 0 \<or> rp_creator_mode pool = (if zero_for_one then 1 else 2))
            trade creator amount rin rout))))))"

definition raydium_swap :: "nat \<Rightarrow> nat \<Rightarrow> nat list" where
  "raydium_swap amount min_out =
     write_at 16 (to_le 8 min_out) (write_at 8 (to_le 8 amount)
       (write_at 0 [143, 190, 90, 218, 196, 30, 51, 222] (replicate 24 0)))"

section \<open>The instruction bytes say what was asked\<close>

text \<open>An immediate-or-cancel instruction reads back what was signed: the side, the whole lots the
  amount pays for (so never more than the amount), the match bound and the expiry slot, in the
  side's own field, with no minimum fill and no limit price.\<close>

theorem phoenix_ioc_roundtrip:
  assumes "phoenix_ioc header sell amount matches slot = Inr data" "slot < 2 ^ 64"
  defines "lot \<equiv> if sell then ph_base_lot header else ph_quote_lot header"
  shows "length data = 80 \<and> data ! 1 = 2 \<and> data ! 2 = of_bool sell \<and> data ! 37 = 1 \<and> data ! 63 = 1 \<and> data ! 3 = 0 \<and>
    u64_at data (if sell then 4 else 12) = Inr (amount div lot) \<and> u64_at data (if sell then 12 else 4) = Inr 0 \<and>
    u64_at data 38 = Inr matches \<and> u64_at data 64 = Inr slot \<and> 0 < amount div lot \<and> amount div lot * lot \<le> amount"
proof -
  have amount: "amount \<le> MAX_INPUT" "0 < matches" "matches \<le> 16" and lot: "lot \<noteq> 0" "amount div lot \<noteq> 0"
    and data: "data = write_at 64 (to_le 8 slot) ((write_at 38 (to_le 8 matches)
      ((write_at (if sell then 4 else 12) (to_le 8 (amount div lot)) (((replicate 80 0)[1 := 2])[2 := of_bool sell]))[37 := 1]))[63 := 1])"
    using assms(1) unfolding phoenix_ioc_def lot_def Let_def ADAPTER_MAX_MATCHES_def
    by (auto simp: monad_simps split: if_splits)
  have lots: "amount div lot < 2 ^ 64"
    using le_less_trans [OF div_le_dividend [of amount lot], of "2 ^ 64"] amount(1) by (simp add: MAX_INPUT_def)
  have at: "u64_at (d[k := x]) j = u64_at d j" if "k < j \<or> j + 8 \<le> k" for d k j and x :: nat
  proof -
    have "take 8 (drop j (d[k := x])) = take 8 (drop j d)"
      using that by (intro nth_equalityI) auto
    then show ?thesis by (simp add: u64_at_def get_range_def add_w_def)
  qed
  have zeros: "u64_at (replicate 80 0) k = Inr 0" if "k \<le> 72" for k
  proof -
    have "from_le (replicate n 0) = 0" for n by (induction n) simp_all
    then show ?thesis using that by (simp add: u64_at_def get_range_def add_w_def)
  qed
  note rules = u64_at_write u64_at_write_other at zeros nth_write_at
  show ?thesis
  proof (cases sell)
    case True
    then show ?thesis using amount lot lots assms(2) unfolding data by (simp add: rules)
  next
    case False
    then show ?thesis using amount lot lots assms(2) unfolding data by (simp add: rules)
  qed
qed

definition demo_header :: phoenix_header where
  "demo_header = \<lparr>ph_base_mint = 1, ph_quote_mint = 2, ph_base_vault = 3, ph_quote_vault = 4, ph_base_lot = 1000, ph_quote_lot = 10, ph_sequence = 1\<rparr>"

lemma phoenix_ioc_roundtrip_witness: "\<exists>data. phoenix_ioc demo_header True 5500 4 77 = Inr data \<and> u64_at data 4 = Inr 5"
proof -
  obtain data where "phoenix_ioc demo_header True 5500 4 77 = Inr data"
    by (simp add: phoenix_ioc_def Let_def MAX_INPUT_def ADAPTER_MAX_MATCHES_def demo_header_def div_w_def)
  from this phoenix_ioc_roundtrip [OF this] show ?thesis by (auto simp: demo_header_def)
qed

section \<open>The CPMM quote keeps the product\<close>

lemma ceil_fee_fits: "amount < 2 ^ 64 \<Longrightarrow> rate < 2 ^ 64 \<Longrightarrow> fits dex_faults (ceil_fee amount rate) (\<lambda>_. True)"
proof -
  assume "amount < 2 ^ 64" "rate < 2 ^ 64"
  then have "amount * rate < 2 ^ 128" using mult_strict_mono [of amount "2 ^ 64" rate "2 ^ 64"] by (cases "rate = 0") simp_all
  then show ?thesis by (simp add: ceil_fee_def mul_w_ok Let_def)
qed

lemma swap_product:
  fixes net rin rout q :: nat
  assumes "q \<le> net * rout div (rin + net)" "0 < rin"
  shows "rin * rout \<le> (rin + net) * (rout - q)" "rout \<noteq> 0 \<Longrightarrow> q < rout"
proof -
  have le: "(rin + net) * q \<le> net * rout"
    using assms(1) by (metis (no_types) le_trans mult_le_mono2 times_div_less_eq_dividend)
  then have "rin * rout + (rin + net) * q \<le> (rin + net) * rout" by (simp add: algebra_simps)
  then show "rin * rout \<le> (rin + net) * (rout - q)" by (simp add: diff_mult_distrib2)
  show "rout \<noteq> 0 \<Longrightarrow> q < rout"
  proof (rule ccontr)
    assume "rout \<noteq> 0" "\<not> q < rout"
    then have "(rin + net) * rout \<le> net * rout" using le mult_le_mono2 [of rout q "rin + net"] by linarith
    then show False using assms(2) \<open>rout \<noteq> 0\<close> by simp
  qed
qed

lemma mul_fits_128: "x < 2 ^ 64 \<Longrightarrow> y < 2 ^ 64 \<Longrightarrow> mul_w 128 x y = Inr (x * y)"
  using mult_strict_mono [of x "2 ^ 64" y "2 ^ 64"] by (cases "y = 0") (simp_all add: mul_w_ok)

lemma or_fault_fits: "fits dex_faults (or_fault m (Dex e)) (\<lambda>x. m = Some x)"
  by (cases m) simp_all

lemma pool_exchange_fits:
  assumes "amount < 2 ^ 64" "trade + creator < 2 ^ 64" "0 < rin" "rin < 2 ^ 64" "0 < rout" "rout < 2 ^ 64"
  shows "fits dex_faults (pool_exchange on trade creator amount rin rout)
    (\<lambda>out. 0 < out \<and> out < rout \<and> rin * rout \<le> (rin + amount) * (rout - out))"
proof -
  let ?rate = "trade + (if on then creator else 0)"
  have rate: "?rate < 2 ^ 64" using assms(2) by simp
  have add: "add_w 64 trade (if on then creator else 0) = Inr ?rate" by (rule add_w_ok [OF rate])
  show ?thesis unfolding pool_exchange_def add bindR_simps
  proof (rule fits_bindR [OF ceil_fee_fits [OF assms(1) rate]], rule fits_bindR [OF or_fault_fits], goal_cases)
    case (1 fee net)
    then have net: "net \<le> amount" by (auto simp: checked_sub_Some)
    have mul: "mul_w 128 net rout = Inr (net * rout)" using net assms(1,6) by (intro mul_fits_128) simp_all
    have addr: "add_w 128 rin net = Inr (rin + net)" using net assms(1,4) by (intro add_w_ok) simp
    have div: "div_w (net * rout) (rin + net) = Inr (net * rout div (rin + net))" using assms(3) by (simp add: div_w_ok)
    show ?case unfolding mul addr div bindR_simps
    proof (rule fits_bindR [where P = "\<lambda>gross. gross = net * rout div (rin + net) \<and> gross < 2 ^ 64"], simp, elim conjE,
        rule fits_bindR [where P = "\<lambda>_. True"], goal_cases)
      case (1 gross)
      then show ?case using ceil_fee_fits [of gross creator] assms(2) by simp
    next
      case (2 gross out_fee)
      show ?case
      proof (rule fits_bindR [OF or_fault_fits], goal_cases)
        case (1 out)
        then have "out \<le> net * rout div (rin + net)" using 2 by (simp add: checked_sub_Some)
        from swap_product [OF this assms(3)] assms(5)
        have "out < rout" "rin * rout \<le> (rin + net) * (rout - out)" by simp_all
        moreover have "(rin + net) * (rout - out) \<le> (rin + amount) * (rout - out)" using net by (intro mult_le_mono) simp_all
        ultimately have "out < rout \<and> rin * rout \<le> (rin + amount) * (rout - out)" using le_trans by blast
        then show ?case by simp
      qed
    qed
  qed
qed

text \<open>\<^bold>\<open>C24.\<close>
  A CPMM quote never panics, never drains the pool, and never lowers the product of the reserves
  after the input is added and the output paid, whatever the fee mode; fees only add to the pool.\<close>

theorem pool_quote_keeps_product:
  fixes pool :: raydium_pool and zero :: bool
  assumes "bytes_ok config" "fst balances < 2 ^ 64" "snd balances < 2 ^ 64"
  defines "rin \<equiv> pick zero balances - pick zero (rp_excluded pool)"
    and "rout \<equiv> pick (\<not> zero) balances - pick (\<not> zero) (rp_excluded pool)"
  shows "fits dex_faults (pool_quote pool config balances zero amount)
    (\<lambda>out. 0 < out \<and> out < rout \<and> rin * rout \<le> (rin + amount) * (rout - out))"
proof (cases "(length config \<noteq> 236 \<or> take 8 config \<noteq> [218, 244, 33, 104, 203, 203, 43, 111]) \<or> (amount = 0 \<or> MAX_INPUT < amount)")
  case True
  then show ?thesis by (auto simp: pool_quote_def)
next
  case False
  then have g: "\<not> (length config \<noteq> 236 \<or> take 8 config \<noteq> [218, 244, 33, 104, 203, 203, 43, 111])" "\<not> (amount = 0 \<or> MAX_INPUT < amount)"
    by blast+
  have amount: "amount < 2 ^ 64" using g(2) by (simp add: MAX_INPUT_def)
  have bal: "pick z balances < 2 ^ 64" for z using assms(2,3) by (simp add: pick_def)
  have u64: "fits dex_faults (u64_at config k) (\<lambda>v. v < 2 ^ 64)" if "k < 2 ^ 63" for k by (rule u64_at_fits [OF assms(1) that])
  have creators: "fits dex_faults (if rp_creator_enabled pool then u64_at config 108 else Inr 0) (\<lambda>_. True)"
    using fits_mono [OF u64 [of 108]] by simp
  show ?thesis unfolding pool_quote_def if_not_P [OF g(1)] if_not_P [OF g(2)]
  proof (rule fits_bindR [OF u64], simp, rule fits_bindR [OF creators], rule fits_bindR [OF or_fault_fits], goal_cases)
    case (1 trade creator total)
    then have total: "trade + creator < 2 ^ 64" by (simp add: checked_add_Some)
    show ?case
    proof (cases "1000000 \<le> total")
      case low: False
      show ?thesis unfolding if_not_P [OF low]
      proof (rule fits_bindR [OF or_fault_fits], rule fits_bindR [OF or_fault_fits], goal_cases)
        case (1 ri ro)
        then have ri: "ri = rin" "ro = rout" by (simp_all add: checked_sub_Some rin_def rout_def)
        have "rin < 2 ^ 64" "rout < 2 ^ 64" using bal [of zero] bal [of "\<not> zero"] by (simp_all add: rin_def rout_def)
        then show ?case unfolding ri using pool_exchange_fits [OF amount total] by simp
      qed
    qed simp
  qed
qed

definition demo_cpmm :: raydium_pool where
  "demo_cpmm = \<lparr>rp_config = 1, rp_vaults = (2, 3), rp_mints = (4, 5), rp_token_programs = (6, 6), rp_observation = 7,
     rp_excluded = (100, 200), rp_creator_mode = 0, rp_creator_enabled = False\<rparr>"

definition demo_config :: "nat list" where
  "demo_config = write_at 12 (to_le 8 2500) (write_at 0 [218, 244, 33, 104, 203, 203, 43, 111] (replicate 236 0))"

lemma pool_quote_keeps_product_witness:
  "1000000 * 2000000 \<le> (1000000 + 10000) * (2000000 - (19752 :: nat)) \<and> pool_quote demo_cpmm demo_config (1000100, 2000200) True 10000 = Inr 19752"
proof -
  have run: "pool_quote demo_cpmm demo_config (1000100, 2000200) True 10000 = Inr 19752" by code_simp
  have "bytes_ok demo_config" unfolding bytes_ok_def by code_simp
  from fits_Inr [OF pool_quote_keeps_product [OF this] run] show ?thesis using run by (simp add: pick_def demo_cpmm_def)
qed

end
