(* ===== verification/Phoenix.thy ===== *)
theory Phoenix
  imports Adapters
begin

text \<open>
  The read-only walk of a Phoenix order book (\<open>adapters/lib.rs\<close>): in-order traversal of a binary tree
  laid out in account bytes, at most 32 levels deep and 16 orders long.
\<close>

section \<open>The book in account bytes\<close>

record phoenix_book =
  pb_data :: "nat list"
  pb_header :: phoenix_header
  pb_bids :: nat
  pb_asks :: nat
  pb_seats :: nat
  pb_traders :: nat

record fill =
  fl_input :: nat
  fl_output :: nat
  fl_encountered :: nat

definition book_decode :: "nat list \<Rightarrow> phoenix_book res" where
  "book_decode data =
     bindR (header_decode data) (\<lambda>header.
     bindR (u64_at data 16) (\<lambda>bids. bindR (u64_at data 24) (\<lambda>asks. bindR (u64_at data 32) (\<lambda>seats.
     if bids \<notin> {512, 1024, 2048, 4096} \<or> asks \<noteq> bids \<or> seats \<notin> {128, 2 * bids + 1, 2 * bids + 129} then dex DexUnsupported
     else
       let traders = 880 + 32 + bids * 64 + 32 + asks * 64 in
       if length data \<noteq> traders + 32 + seats * 144 then dex DexLayout
       else
         bindR (u64_at data 832) (\<lambda>units. if units = 0 then dex DexLayout
         else bindR (u64_at data 840) (\<lambda>tick. if tick = 0 then dex DexLayout
         else bindR (u64_at data 856) (\<lambda>fee. if 10000 \<le> fee then dex DexLayout
         else Inr \<lparr>pb_data = data, pb_header = header, pb_bids = bids, pb_asks = asks, pb_seats = seats, pb_traders = traders\<rparr>)))))))"

text \<open>The capacity is far below the width of \<open>usize\<close>.\<close>

definition node_at :: "nat \<Rightarrow> nat \<Rightarrow> nat \<Rightarrow> nat \<Rightarrow> nat res" where
  "node_at tree index capacity stride =
     (if index = 0 \<or> capacity < index then dex DexLayout else Inr (tree + 32 + (index - 1) * stride))"

fun wallet_walk :: "phoenix_book \<Rightarrow> key \<Rightarrow> bool \<Rightarrow> nat \<Rightarrow> nat \<Rightarrow> unit res" where
  "wallet_walk b wallet sell 0 index = dex DexLayout"
| "wallet_walk b wallet sell (Suc n) index =
     (if index = 0 then Inr ()
      else
        bindR (node_at (pb_traders b) index (pb_seats b) 144) (\<lambda>node.
        bindR (key_at (pb_data b) (node + 16)) (\<lambda>maker.
        if wallet = maker
        then bindR (u64_at (pb_data b) (node + (if sell then 72 else 56))) (\<lambda>free.
          if free = 0 then Inr () else dex DexUnsupported)
        else bindR (u32_at (pb_data b) (if wallet < maker then node else node + 4)) (\<lambda>index.
          wallet_walk b wallet sell n index))))"

definition check_wallet :: "phoenix_book \<Rightarrow> key \<Rightarrow> bool \<Rightarrow> unit res" where
  "check_wallet b wallet sell = bindR (u32_at (pb_data b) (pb_traders b)) (wallet_walk b wallet sell 32)"

section \<open>The walk\<close>

text \<open>
  The descent pushes the left spine onto an array of 32 indices, live up to \<open>height\<close>: an index past its
  end panics, which the test of the height prevents.
\<close>

function descend :: "phoenix_book \<Rightarrow> nat \<Rightarrow> nat \<Rightarrow> nat \<Rightarrow> nat list \<Rightarrow> nat \<Rightarrow> (nat list \<times> nat) res" where
  "descend b tree capacity index stack height =
     (if index = 0 then Inr (stack, height)
      else if height = 32 then dex DexLayout
      else
        case store_at stack height index of
          Inl e \<Rightarrow> Inl e
        | Inr stack' \<Rightarrow>
            (case bindR (node_at tree index capacity 64) (u32_at (pb_data b)) of
               Inl e \<Rightarrow> Inl e
             | Inr left \<Rightarrow> descend b tree capacity left stack' (height + 1)))"
  by pat_completeness auto
termination
  by (relation "measure (\<lambda>(_, _, _, _, stack, height). length stack - height)") (auto simp: store_at_Inr)

record walk_tally =
  ta_base_budget :: nat
  ta_quote_budget :: nat
  ta_base :: nat
  ta_quote :: nat

text \<open>One encountered order: the new tally and whether the walk stops.\<close>

definition take_order ::
  "phoenix_book \<Rightarrow> key \<Rightarrow> nat \<Rightarrow> nat \<Rightarrow> nat \<Rightarrow> nat \<Rightarrow> walk_tally \<Rightarrow> (walk_tally \<times> bool) res"
where
  "take_order b wallet tick slot time node w =
     bindR (u64_at (pb_data b) (node + 16)) (\<lambda>price. bindR (u64_at (pb_data b) (node + 40)) (\<lambda>lots.
     bindR (u64_at (pb_data b) (node + 48)) (\<lambda>expiry. bindR (u64_at (pb_data b) (node + 56)) (\<lambda>expiry_time.
     if lots = 0 \<or> (expiry \<noteq> 0 \<and> expiry < slot) \<or> (expiry_time \<noteq> 0 \<and> expiry_time < time) then Inr (w, False)
     else
       bindR (u64_at (pb_data b) (node + 32)) (\<lambda>maker.
       bindR (if maker < 2 ^ 32 then node_at (pb_traders b) maker (pb_seats b) 144 else dex DexLayout) (\<lambda>maker_node.
       bindR (key_at (pb_data b) (maker_node + 16)) (\<lambda>maker_key.
       if maker_key = wallet then dex DexUnsupported
       else
         bindR (or_fault (checked_mul 64 price tick) (Dex DexArithmetic)) (\<lambda>rate.
         if rate = 0 then dex DexLayout
         else
           bindR (div_w (ta_quote_budget w) rate) (\<lambda>affordable.
           let lots_taken = min (min lots (ta_base_budget w)) affordable in
           bindR (or_fault (checked_mul 64 lots_taken rate) (Dex DexArithmetic)) (\<lambda>cost.
           bindR (or_fault (checked_add 64 (ta_base w) lots_taken) (Dex DexArithmetic)) (\<lambda>base.
           bindR (or_fault (checked_add 64 (ta_quote w) cost) (Dex DexArithmetic)) (\<lambda>qt.
           bindR (sub_w (ta_base_budget w) lots_taken) (\<lambda>base_budget.
           bindR (sub_w (ta_quote_budget w) cost) (\<lambda>quote_budget.
           Inr (\<lparr>ta_base_budget = base_budget, ta_quote_budget = quote_budget, ta_base = base, ta_quote = qt\<rparr>,
             lots_taken < lots)))))))))))))))"

function book_walk ::
  "phoenix_book \<Rightarrow> key \<Rightarrow> nat \<Rightarrow> nat \<Rightarrow> nat \<Rightarrow> nat \<Rightarrow> nat \<Rightarrow> nat \<Rightarrow> nat \<Rightarrow> nat \<Rightarrow> nat list \<Rightarrow> nat \<Rightarrow> walk_tally \<Rightarrow> (walk_tally \<times> nat) res"
where
  "book_walk b wallet tick slot time tree capacity matches encountered index stack height w =
     (if \<not> (encountered < matches \<and> 0 < ta_base_budget w \<and> 0 < ta_quote_budget w) then Inr (w, encountered)
      else
        bindR (descend b tree capacity index stack height) (\<lambda>(stack, height).
        if height = 0 then Inr (w, encountered)
        else
          bindR (index_at stack (height - 1)) (\<lambda>here.
          bindR (node_at tree here capacity 64) (\<lambda>node.
          bindR (u32_at (pb_data b) (node + 4)) (\<lambda>right.
          bindR (take_order b wallet tick slot time node w) (\<lambda>(w, stop).
          if stop then Inr (w, encountered + 1)
          else book_walk b wallet tick slot time tree capacity matches (encountered + 1) right stack (height - 1) w))))))"
  by pat_completeness auto
termination
  by (relation "measure (\<lambda>(b, wallet, tick, slot, time, tree, capacity, matches, encountered, index, stack, height, w). matches - encountered)") auto

declare descend.simps [simp del] book_walk.simps [simp del]

definition U64_MAX :: nat where "U64_MAX = 18446744073709551615"

definition quote_budget_of :: "nat \<Rightarrow> nat \<Rightarrow> nat \<Rightarrow> nat res" where
  "quote_budget_of lots units fee =
     bindR (or_fault (checked_mul 64 lots units) (Dex DexArithmetic)) (\<lambda>adjusted.
     bindR (mul_w 128 U64_MAX fee) (\<lambda>x.
     bindR (add_w 128 U64_MAX (x div 10000 + of_bool (x mod 10000 \<noteq> 0))) (\<lambda>divisor.
     bindR (mul_w 128 adjusted U64_MAX) (\<lambda>y.
     bindR (div_w y divisor) (\<lambda>z. if z < 2 ^ 64 then Inr z else dex DexArithmetic)))))"

definition fees_of :: "nat \<Rightarrow> nat \<Rightarrow> nat \<Rightarrow> nat res" where
  "fees_of matched_quote fee units =
     bindR (mul_w 128 matched_quote fee) (\<lambda>x.
     let y = x div 10000 + of_bool (x mod 10000 \<noteq> 0) in
     if 2 ^ 64 \<le> y then dex DexArithmetic
     else bindR (div_w y units) (\<lambda>z. Inr (z + of_bool (y mod units \<noteq> 0))))"

definition settle_fill :: "phoenix_header \<Rightarrow> bool \<Rightarrow> nat \<Rightarrow> nat \<Rightarrow> nat \<Rightarrow> walk_tally \<Rightarrow> nat \<Rightarrow> fill res" where
  "settle_fill header sell input units fee w encountered =
     bindR (fees_of (ta_quote w) fee units) (\<lambda>fees.
     bindR (or_fault (checked_mul 64 (ta_base w) (ph_base_lot header)) (Dex DexArithmetic)) (\<lambda>base.
     bindR (div_w (ta_quote w) units) (\<lambda>lots.
     bindR (or_fault (if sell then checked_sub lots fees
                      else checked_add 64 (lots + of_bool (ta_quote w mod units \<noteq> 0)) fees) (Dex DexArithmetic)) (\<lambda>quote_lots.
     bindR (or_fault (checked_mul 64 quote_lots (ph_quote_lot header)) (Dex DexArithmetic)) (\<lambda>qt.
     if input < (if sell then base else qt) then dex DexArithmetic
     else Inr \<lparr>fl_input = (if sell then base else qt), fl_output = (if sell then qt else base), fl_encountered = encountered\<rparr>)))))"

definition book_quote :: "phoenix_book \<Rightarrow> key \<Rightarrow> bool \<Rightarrow> nat \<Rightarrow> nat \<Rightarrow> nat \<Rightarrow> nat \<Rightarrow> fill res" where
  "book_quote b wallet sell input matches slot time =
     (if input = 0 \<or> MAX_INPUT < input \<or> matches = 0 \<or> ADAPTER_MAX_MATCHES < matches then dex DexAmount
      else
        bindR (check_wallet b wallet sell) (\<lambda>_.
        bindR (u64_at (pb_data b) 832) (\<lambda>units. bindR (u64_at (pb_data b) 840) (\<lambda>tick. bindR (u64_at (pb_data b) 856) (\<lambda>fee.
        bindR (if sell then div_w input (ph_base_lot (pb_header b)) else Inr U64_MAX) (\<lambda>base_budget.
        bindR (if sell then Inr U64_MAX
               else bindR (div_w input (ph_quote_lot (pb_header b))) (\<lambda>lots. quote_budget_of lots units fee)) (\<lambda>quote_budget.
        let tree = (if sell then 880 else 880 + 32 + pb_bids b * 64); capacity = (if sell then pb_bids b else pb_asks b) in
        bindR (u32_at (pb_data b) tree) (\<lambda>index.
        bindR (book_walk b wallet tick slot time tree capacity matches 0 index (replicate 32 0) 0
          \<lparr>ta_base_budget = base_budget, ta_quote_budget = quote_budget, ta_base = 0, ta_quote = 0\<rparr>) (\<lambda>(w, encountered).
        settle_fill (pb_header b) sell input units fee w encountered)))))))))"

section \<open>Quotes are total and bounded\<close>

text \<open>What decoding establishes about a book.\<close>

definition book_valid :: "phoenix_book \<Rightarrow> bool" where
  "book_valid b \<longleftrightarrow> bytes_ok (pb_data b) \<and> pb_bids b \<le> 4096 \<and> pb_asks b \<le> 4096 \<and> pb_seats b \<le> 8321 \<and> pb_traders b < 2 ^ 32 \<and>
     0 < ph_base_lot (pb_header b) \<and> 0 < ph_quote_lot (pb_header b) \<and>
     (\<forall>units. u64_at (pb_data b) 832 = Inr units \<longrightarrow> 0 < units) \<and> (\<forall>fee. u64_at (pb_data b) 856 = Inr fee \<longrightarrow> fee < 10000)"

lemma header_decode_lots:
  "header_decode data = Inr h \<Longrightarrow> 0 < ph_base_lot h \<and> 0 < ph_quote_lot h"
  unfolding header_decode_def by (auto simp: monad_simps split: if_splits)

lemma fits_any: "fits UNIV r (\<lambda>_. True)"
  by (cases r) simp_all

lemma book_decode_valid:
  assumes "bytes_ok data"
  shows "fits UNIV (book_decode data) book_valid"
  unfolding book_decode_def
proof (rule fits_bindR [OF fits_any], rule fits_bindR [OF fits_any], rule fits_bindR [OF fits_any], rule fits_bindR [OF fits_any], goal_cases)
  case (1 header bids asks seats)
  note h = header_decode_lots [OF 1(1)]
  show ?case
  proof (cases "bids \<notin> {512, 1024, 2048, 4096} \<or> asks \<noteq> bids \<or> seats \<notin> {128, 2 * bids + 1, 2 * bids + 129}")
    case False
    then have "bids \<le> 4096" "asks = bids" by auto
    moreover from this have "seats \<le> 8321" using False by auto
    moreover have "880 + 32 + bids * 64 + 32 + asks * 64 < 2 ^ 32" using calculation by simp
    ultimately show ?thesis unfolding if_not_P [OF False] Let_def using h assms
      by (auto simp: book_valid_def monad_simps fits_iff split: if_splits)
  qed simp
qed

lemma book_decode_data: "book_decode data = Inr b \<Longrightarrow> pb_data b = data"
  unfolding book_decode_def by (auto simp: monad_simps Let_def split: if_splits)

lemma node_fits: "fits dex_faults (node_at tree index capacity stride) (\<lambda>n. n \<le> tree + 32 + capacity * stride)"
  by (auto simp: node_at_def intro!: mult_le_mono1)

lemma fields_fit:
  assumes "book_valid b" "n < 2 ^ 62" "k < 1000"
  shows "fits dex_faults (u64_at (pb_data b) (n + k)) (\<lambda>v. v < 2 ^ 64)"
    "fits dex_faults (u32_at (pb_data b) (n + k)) (\<lambda>v. v < 2 ^ 32)"
    "fits dex_faults (key_at (pb_data b) (n + k)) (\<lambda>_. True)"
proof -
  have "bytes_ok (pb_data b)" using assms(1) by (simp add: book_valid_def)
  moreover have "n + k < 2 ^ 63" using assms(2,3) by simp
  ultimately show "fits dex_faults (u64_at (pb_data b) (n + k)) (\<lambda>v. v < 2 ^ 64)"
    "fits dex_faults (u32_at (pb_data b) (n + k)) (\<lambda>v. v < 2 ^ 32)"
    "fits dex_faults (key_at (pb_data b) (n + k)) (\<lambda>_. True)"
    using u64_at_fits u32_at_fits key_at_fits by blast+
qed

lemma tree_node_fits:
  assumes "tree < 2 ^ 33" "capacity \<le> 8321" "stride \<le> 144"
  shows "fits dex_faults (node_at tree index capacity stride) (\<lambda>n. n < 2 ^ 62)"
proof (rule fits_mono [OF node_fits])
  fix n assume "n \<le> tree + 32 + capacity * stride"
  moreover have "capacity * stride \<le> 8321 * 144" using assms(2,3) by (rule mult_le_mono)
  ultimately show "n < 2 ^ 62" using assms(1) by simp
qed

lemma wallet_walk_fits:
  assumes valid: "book_valid b"
  shows "fits dex_faults (wallet_walk b wallet sell n index) (\<lambda>_. True)"
proof (induction n arbitrary: index)
  case (Suc n)
  show ?case
  proof (cases "index = 0")
    case False
    have node: "fits dex_faults (node_at (pb_traders b) index (pb_seats b) 144) (\<lambda>n. n < 2 ^ 62)"
      by (rule tree_node_fits) (use valid in \<open>auto simp: book_valid_def\<close>)
    show ?thesis unfolding wallet_walk.simps if_not_P [OF False]
    proof (rule fits_bindR [OF node], goal_cases)
      case (1 node)
      note fields = fields_fit [OF valid 1(2)]
      show ?case
      proof (rule fits_bindR [OF fields(3)], simp, goal_cases)
        case (1 maker)
        have free: "fits dex_faults (u64_at (pb_data b) (node + (if sell then 72 else 56))) (\<lambda>_. True)"
          by (rule fits_mono [OF fields(1)]) simp_all
        have "fits dex_faults (u32_at (pb_data b) (node + (if wallet < maker then 0 else 4))) (\<lambda>_. True)"
          by (rule fits_mono [OF fields(2)]) simp_all
        then have child: "fits dex_faults (u32_at (pb_data b) (if wallet < maker then node else node + 4)) (\<lambda>_. True)"
          by (cases "wallet < maker") simp_all
        show ?case
        proof (cases "wallet = maker")
          case True
          have "fits dex_faults (bindR (u64_at (pb_data b) (node + (if sell then 72 else 56))) (\<lambda>free.
              if free = 0 then Inr () else dex DexUnsupported)) (\<lambda>_. True)"
            by (rule fits_bindR [OF free]) simp
          then show ?thesis using True by simp
        next
          case False
          then show ?thesis using fits_bindR [OF child, of "wallet_walk b wallet sell n"] Suc.IH by simp
        qed
      qed
    qed
  qed simp
qed simp

lemma left_child_fits:
  assumes "book_valid b" "tree < 2 ^ 33" "capacity \<le> 8321"
  shows "fits dex_faults (bindR (node_at tree index capacity 64) (u32_at (pb_data b))) (\<lambda>_. True)"
proof (rule fits_bindR [OF tree_node_fits])
  fix node :: nat assume "node < 2 ^ 62"
  then show "fits dex_faults (u32_at (pb_data b) node) (\<lambda>_. True)"
    using fits_mono [OF fields_fit(2) [OF assms(1), of node 0]] by simp
qed (use assms in simp_all)

text \<open>
  \<open>spine b tree capacity n index\<close>: from the node \<open>index\<close> exactly \<open>n\<close> nodes hang on the chain of left children.
\<close>

fun spine :: "phoenix_book \<Rightarrow> nat \<Rightarrow> nat \<Rightarrow> nat \<Rightarrow> nat \<Rightarrow> bool" where
  "spine b tree capacity 0 index \<longleftrightarrow> index = 0"
| "spine b tree capacity (Suc n) index \<longleftrightarrow> index \<noteq> 0 \<and>
     (case bindR (node_at tree index capacity 64) (u32_at (pb_data b)) of Inl e \<Rightarrow> False | Inr left \<Rightarrow> spine b tree capacity n left)"

lemma descend_fits:
  assumes "book_valid b" "tree < 2 ^ 33" "capacity \<le> 8321" "length stack = 32" "height \<le> 32"
  shows "fits dex_faults (descend b tree capacity index stack height) (\<lambda>(stack', height').
    length stack' = 32 \<and> height \<le> height' \<and> height' \<le> 32 \<and> spine b tree capacity (height' - height) index)"
  using assms
proof (induction b tree capacity index stack height rule: descend.induct)
  case (1 b tree capacity index stack height)
  let ?child = "bindR (node_at tree index capacity 64) (u32_at (pb_data b))"
  show ?case
  proof (cases "index = 0 \<or> height = 32")
    case False
    then have store: "store_at stack height index = Inr (stack[height := index])" using 1(5,6) by simp
    show ?thesis
    proof (cases ?child)
      case (Inl e)
      then show ?thesis using left_child_fits [OF 1(2-4), of index] False store by (subst descend.simps) simp
    next
      case (Inr left)
      have "fits dex_faults (descend b tree capacity left (stack[height := index]) (height + 1)) (\<lambda>(stack', height').
          length stack' = 32 \<and> height + 1 \<le> height' \<and> height' \<le> 32 \<and> spine b tree capacity (height' - (height + 1)) left)"
        by (rule 1(1) [OF _ _ store Inr 1(2-4)]) (use False 1(5,6) in simp_all)
      then have "fits dex_faults (descend b tree capacity left (stack[height := index]) (height + 1)) (\<lambda>(stack', height').
          length stack' = 32 \<and> height \<le> height' \<and> height' \<le> 32 \<and> spine b tree capacity (height' - height) index)"
      proof (rule fits_mono, goal_cases)
        case (1 p)
        obtain st h where p: "p = (st, h)" by fastforce
        have "height < h" using 1(2) by (simp add: p)
        then have "h - height = Suc (h - (height + 1))" by simp
        then show ?case using 1(2) False Inr by (simp add: p)
      qed
      then show ?thesis using False store Inr by (subst descend.simps) simp
    qed
  qed (use 1 in \<open>subst descend.simps, auto\<close>)
qed

lemma take_order_fits:
  assumes valid: "book_valid b" and node: "node < 2 ^ 62"
  shows "fits dex_faults (take_order b wallet tick slot time node w) (\<lambda>(w', _).
    ta_base_budget w' + ta_base w' = ta_base_budget w + ta_base w \<and> ta_quote_budget w' + ta_quote w' = ta_quote_budget w + ta_quote w)"
proof -
  have u64: "fits dex_faults (u64_at (pb_data b) (node + k)) (\<lambda>_. True)" if "k < 1000" for k
    by (rule fits_mono [OF fields_fit(1) [OF valid node that]]) simp
  have seat: "fits dex_faults (if maker < 2 ^ 32 then node_at (pb_traders b) maker (pb_seats b) 144 else dex DexLayout) (\<lambda>n. n < 2 ^ 62)" for maker
  proof (cases "maker < 2 ^ 32")
    case True
    have "fits dex_faults (node_at (pb_traders b) maker (pb_seats b) 144) (\<lambda>n. n < 2 ^ 62)"
      by (rule tree_node_fits) (use valid in \<open>auto simp: book_valid_def\<close>)
    then show ?thesis using True by simp
  qed simp
  show ?thesis unfolding take_order_def
  proof (rule fits_bindR [OF u64], simp, rule fits_bindR [OF u64], simp, rule fits_bindR [OF u64], simp, rule fits_bindR [OF u64], simp, goal_cases)
    case (1 price lots expiry expiry_time)
    show ?case
    proof (cases "lots = 0 \<or> (expiry \<noteq> 0 \<and> expiry < slot) \<or> (expiry_time \<noteq> 0 \<and> expiry_time < time)")
      case False
      show ?thesis unfolding if_not_P [OF False]
      proof (rule fits_bindR [OF u64], simp, rule fits_bindR [OF seat], goal_cases)
        case (1 maker maker_node)
        show ?case
        proof (rule fits_bindR [OF fields_fit(3) [OF valid 1(4)]], simp, goal_cases)
          case (1 maker_key)
          show ?case
          proof (cases "maker_key = wallet")
            case False
            show ?thesis unfolding if_not_P [OF False]
            proof (rule fits_bindR [OF or_fault_fits], goal_cases)
              case (1 rate)
              show ?case
              proof (cases "rate = 0")
                case False
                then have div: "div_w (ta_quote_budget w) rate = Inr (ta_quote_budget w div rate)" by (simp add: div_w_ok)
                let ?lots = "min (min lots (ta_base_budget w)) (ta_quote_budget w div rate)"
                have "?lots * rate \<le> ta_quote_budget w div rate * rate" by (intro mult_le_mono) simp_all
                also have "\<dots> \<le> ta_quote_budget w" by simp
                finally obtain L where L: "L = ?lots" "L \<le> ta_base_budget w" "L * rate \<le> ta_quote_budget w" by simp
                show ?thesis unfolding if_not_P [OF False] div bindR_simps Let_def L(1) [symmetric]
                proof (rule fits_bindR [OF or_fault_fits], rule fits_bindR [OF or_fault_fits], rule fits_bindR [OF or_fault_fits], goal_cases)
                  case (1 cost base qt)
                  then have eqs: "cost = L * rate" "base = ta_base w + L" "qt = ta_quote w + L * rate"
                    by (simp_all add: checked_mul_Some checked_add_Some)
                  show ?case unfolding eqs sub_w_ok [OF L(2)] sub_w_ok [OF L(3)] bindR_simps fits_simps prod.case walk_tally.simps
                    using L(2,3) by linarith
                qed
              qed simp
            qed
          qed simp
        qed
      qed
    qed simp
  qed
qed

lemma book_walk_fits:
  assumes "book_valid b" "tree < 2 ^ 33" "capacity \<le> 8321" "encountered \<le> matches" "length stack = 32" "height \<le> 32"
  shows "fits dex_faults (book_walk b wallet tick slot time tree capacity matches encountered index stack height w) (\<lambda>(w', n).
    n \<le> matches \<and> ta_base_budget w' + ta_base w' = ta_base_budget w + ta_base w \<and>
    ta_quote_budget w' + ta_quote w' = ta_quote_budget w + ta_quote w \<and>
    (n = encountered \<or> (\<exists>k. 0 < height + k \<and> height + k \<le> 32 \<and> spine b tree capacity k index)))"
  using assms
proof (induction b wallet tick slot time tree capacity matches encountered index stack height w rule: book_walk.induct)
  case (1 b wallet tick slot time tree capacity matches encountered index stack height w)
  let ?S = "\<exists>k. 0 < height + k \<and> height + k \<le> 32 \<and> spine b tree capacity k index"
  let ?Q = "\<lambda>w (w', n). n \<le> matches \<and> ta_base_budget w' + ta_base w' = ta_base_budget w + ta_base w \<and>
    ta_quote_budget w' + ta_quote w' = ta_quote_budget w + ta_quote w"
  show ?case
  proof (cases "\<not> (encountered < matches \<and> 0 < ta_base_budget w \<and> 0 < ta_quote_budget w)")
    case True
    then show ?thesis using 1(5) by (subst book_walk.simps) simp
  next
    case live: False
    show ?thesis
    proof (subst book_walk.simps, subst if_not_P [OF live], rule fits_bindR [OF descend_fits [OF 1(2-4,6,7)]], goal_cases)
      case stack: (1 x)
      obtain st h where x: "x = (st, h)" by fastforce
      have st: "length st = 32" "height \<le> h" "h \<le> 32" "spine b tree capacity (h - height) index" using stack(2) by (simp_all add: x)
      show ?case unfolding x prod.case
      proof (cases "h = 0")
        case True
        then show "fits dex_faults (if h = 0 then Inr (w, encountered)
            else bindR (index_at st (h - 1)) (\<lambda>here. bindR (node_at tree here capacity 64) (\<lambda>node. bindR (u32_at (pb_data b) (node + 4)) (\<lambda>right.
              bindR (take_order b wallet tick slot time node w) (\<lambda>(w, stop).
              if stop then Inr (w, encountered + 1)
              else book_walk b wallet tick slot time tree capacity matches (encountered + 1) right st (h - 1) w))))) (\<lambda>(w', n).
            n \<le> matches \<and> ta_base_budget w' + ta_base w' = ta_base_budget w + ta_base w \<and>
            ta_quote_budget w' + ta_quote w' = ta_quote_budget w + ta_quote w \<and> (n = encountered \<or> ?S))"
          using 1(5) by simp
      next
        case False
        then have deep: ?S using st by (intro exI [of _ "h - height"]) simp
        have here: "index_at st (h - 1) = Inr (st ! (h - 1))" using False st(1,3) by simp
        show "fits dex_faults (if h = 0 then Inr (w, encountered)
            else bindR (index_at st (h - 1)) (\<lambda>here. bindR (node_at tree here capacity 64) (\<lambda>node. bindR (u32_at (pb_data b) (node + 4)) (\<lambda>right.
              bindR (take_order b wallet tick slot time node w) (\<lambda>(w, stop).
              if stop then Inr (w, encountered + 1)
              else book_walk b wallet tick slot time tree capacity matches (encountered + 1) right st (h - 1) w))))) (\<lambda>(w', n).
            n \<le> matches \<and> ta_base_budget w' + ta_base w' = ta_base_budget w + ta_base w \<and>
            ta_quote_budget w' + ta_quote w' = ta_quote_budget w + ta_quote w \<and> (n = encountered \<or> ?S))"
          unfolding if_not_P [OF False] here bindR_simps
        proof (rule fits_bindR [OF tree_node_fits [OF 1(3,4)]], simp, goal_cases)
          case node: (1 node)
          have right: "fits dex_faults (u32_at (pb_data b) (node + 4)) (\<lambda>_. True)"
            by (rule fits_mono [OF fields_fit(2) [OF 1(2) node(2)]]) simp_all
          show ?case
          proof (rule fits_bindR [OF right], rule fits_bindR [OF take_order_fits [OF 1(2) node(2)]], goal_cases)
            case (1 right p)
            obtain w' stop where p: "p = (w', stop)" by fastforce
            show ?case
            proof (cases stop)
              case True
              then show ?thesis using 1 p live deep by simp
            next
              case stop: False
              have "fits dex_faults (book_walk b wallet tick slot time tree capacity matches (encountered + 1) right st (h - 1) w') (\<lambda>(w2, n).
                  ?Q w' (w2, n) \<and> (n = encountered + 1 \<or> (\<exists>k. 0 < h - 1 + k \<and> h - 1 + k \<le> 32 \<and> spine b tree capacity k right)))"
                using "1.IH" [OF live False stop \<open>book_valid b\<close> \<open>tree < 2 ^ 33\<close> \<open>capacity \<le> 8321\<close>] live st(1,3) by simp
              then show ?thesis using 1(4) p stop deep by (auto elim!: fits_mono)
            qed
          qed
        qed
      qed
    qed
  qed
qed

lemma quote_budget_fits:
  assumes "fee < 10000"
  shows "fits dex_faults (quote_budget_of lots units fee) (\<lambda>v. v < 2 ^ 64)"
  unfolding quote_budget_of_def
proof (rule fits_bindR [OF or_fault_fits], goal_cases)
  case (1 adjusted)
  then have "adjusted < 2 ^ 64" by (simp add: checked_mul_Some)
  then have mul: "mul_w 128 U64_MAX fee = Inr (U64_MAX * fee)" "mul_w 128 adjusted U64_MAX = Inr (adjusted * U64_MAX)"
    using mul_fits_128 [of U64_MAX fee] mul_fits_128 [of adjusted U64_MAX] assms by (simp_all add: U64_MAX_def)
  let ?x = "U64_MAX * fee div 10000 + of_bool (U64_MAX * fee mod 10000 \<noteq> 0)"
  have "?x \<le> U64_MAX * fee + 1" by (intro add_mono div_le_dividend) simp
  also have "\<dots> \<le> U64_MAX * 10000 + 1" using assms by simp
  finally have "U64_MAX + ?x < 2 ^ 128" by (simp add: U64_MAX_def)
  then have "add_w 128 U64_MAX ?x = Inr (U64_MAX + ?x)" by (rule add_w_ok)
  moreover have "div_w y (U64_MAX + ?x) = Inr (y div (U64_MAX + ?x))" for y by (rule div_w_ok) (simp add: U64_MAX_def)
  ultimately show ?case by (simp add: mul)
qed

lemma settle_fill_fits:
  assumes "0 < units" "fee < 10000" "ta_quote w < 2 ^ 64"
  shows "fits dex_faults (settle_fill header sell amount units fee w n) (\<lambda>f. fl_input f \<le> amount \<and> fl_encountered f = n \<and>
    (if sell then fl_input f else fl_output f) = ta_base w * ph_base_lot header)"
proof -
  have fees: "fits dex_faults (fees_of (ta_quote w) fee units) (\<lambda>_. True)"
    using mul_fits_128 [of "ta_quote w" fee] assms by (simp add: fees_of_def Let_def div_w_ok)
  show ?thesis unfolding settle_fill_def
  proof (rule fits_bindR [OF fees], rule fits_bindR [OF or_fault_fits], goal_cases)
    case (1 fees base)
    then have base: "base = ta_base w * ph_base_lot header" by (simp add: checked_mul_Some)
    have div: "div_w (ta_quote w) units = Inr (ta_quote w div units)" using assms(1) by (simp add: div_w_ok)
    show ?case unfolding div bindR_simps
      by (rule fits_bindR [OF or_fault_fits], rule fits_bindR [OF or_fault_fits]) (cases sell; simp add: base)
  qed
qed

text \<open>\<^bold>\<open>C23.\<close>
  Quoting a decoded book is total: whatever the account bytes hold, cyclic or corrupt trees
  included, the walk ends after at most the signed number of orders, never leaves the account, its
  stack of 32 levels or the integer widths (no panic), an order is encountered only below a root whose
  left spine has at most 32 nodes, and a fill spends no more than the input, a sale only whole lots the
  input pays for.\<close>

theorem book_quote_bounded:
  assumes "bytes_ok data" "book_decode data = Inr b"
  shows "fits dex_faults (book_quote b wallet sell amount matches slot time) (\<lambda>f.
    fl_input f \<le> amount \<and> fl_encountered f \<le> matches \<and>
    (let tree = (if sell then 880 else 880 + 32 + pb_bids b * 64); capacity = (if sell then pb_bids b else pb_asks b)
     in fl_encountered f = 0 \<or> (\<exists>root n. u32_at data tree = Inr root \<and> 0 < n \<and> n \<le> 32 \<and> spine b tree capacity n root)) \<and>
    (\<exists>lots. (if sell then fl_input f else fl_output f) = lots * ph_base_lot (pb_header b) \<and>
       (sell \<longrightarrow> lots \<le> amount div ph_base_lot (pb_header b))))"
proof (cases "amount = 0 \<or> MAX_INPUT < amount \<or> matches = 0 \<or> ADAPTER_MAX_MATCHES < matches")
  case True
  then show ?thesis by (simp add: book_quote_def)
next
  case False
  have valid: "book_valid b" by (rule fits_Inr [OF book_decode_valid [OF assms(1)] assms(2)])
  then have lots: "0 < ph_base_lot (pb_header b)" "0 < ph_quote_lot (pb_header b)" by (simp_all add: book_valid_def)
  let ?base = "if sell then amount div ph_base_lot (pb_header b) else U64_MAX"
  have base: "(if sell then div_w amount (ph_base_lot (pb_header b)) else Inr U64_MAX) = Inr ?base" using lots by (simp add: div_w_ok)
  have u64: "fits dex_faults (u64_at (pb_data b) k) (\<lambda>_. True)" if "k < 1000" for k
    using fits_mono [OF fields_fit(1) [OF valid _ that, of 0]] by simp
  have wallet: "fits dex_faults (check_wallet b wallet sell) (\<lambda>_. True)"
  proof -
    have "pb_traders b < 2 ^ 62" using valid by (simp add: book_valid_def)
    then have "fits dex_faults (u32_at (pb_data b) (pb_traders b)) (\<lambda>_. True)"
      using fits_mono [OF fields_fit(2) [OF valid, of "pb_traders b" 0]] by simp
    then show ?thesis unfolding check_wallet_def by (rule fits_bindR) (rule wallet_walk_fits [OF valid])
  qed
  show ?thesis unfolding book_quote_def if_not_P [OF False] base bindR_simps
  proof (rule fits_bindR [OF wallet], rule fits_bindR [OF u64], simp, rule fits_bindR [OF u64], simp, rule fits_bindR [OF u64], simp, goal_cases)
    case (1 _ units tick fee)
    have units: "0 < units" and fee: "fee < 10000" using 1 valid unfolding book_valid_def by blast+
    have qb: "fits dex_faults (if sell then Inr U64_MAX
        else bindR (div_w amount (ph_quote_lot (pb_header b))) (\<lambda>lots. quote_budget_of lots units fee)) (\<lambda>v. v < 2 ^ 64)"
      using lots quote_budget_fits [OF fee] by (simp add: div_w_ok U64_MAX_def)
    let ?tree = "if sell then 880 else 880 + 32 + pb_bids b * 64" and ?cap = "if sell then pb_bids b else pb_asks b"
    have tree: "?tree < 2 ^ 33" "?tree < 2 ^ 62" "?cap \<le> 8321" using valid by (auto simp: book_valid_def)
    have root: "fits dex_faults (u32_at (pb_data b) ?tree) (\<lambda>_. True)"
      using fits_mono [OF fields_fit(2) [OF valid tree(2), of 0]] by simp
    show ?case
    proof (rule fits_bindR [OF qb], unfold Let_def, rule fits_bindR [OF root], rule fits_bindR [OF book_walk_fits [OF valid tree(1,3)]], simp, simp, simp, goal_cases)
      case prem: (1 budget index p)
      obtain w n where p: "p = (w, n)" by fastforce
      have w: "n \<le> matches" "ta_base w \<le> ?base" "ta_quote w < 2 ^ 64" using prem(2,6) unfolding p by simp_all
      have deep: "n = 0 \<or> (\<exists>root k. u32_at data ?tree = Inr root \<and> 0 < k \<and> k \<le> 32 \<and> spine b ?tree ?cap k root)"
        using prem(3,6) book_decode_data [OF assms(2)] unfolding p prod.case by auto
      show ?case unfolding p prod.case
        by (rule fits_mono [OF settle_fill_fits [OF units fee w(3)]]) (use w deep in \<open>auto split: if_splits\<close>)
    qed
  qed
qed

text \<open>An empty 512-level market.\<close>

definition demo_market :: "nat list" where
  "demo_market = write_at 0 [119, 223, 113, 115, 183, 32, 88, 113] (write_at 8 (to_le 8 1) (write_at 16 (to_le 8 512)
     (write_at 24 (to_le 8 512) (write_at 32 (to_le 8 128) (write_at 112 (to_le 8 1000) (write_at 192 (to_le 8 10)
     (write_at 832 (to_le 8 1) (write_at 840 (to_le 8 1) (write_at 856 (to_le 8 5) (replicate 84944 0))))))))))"

lemma key_at_in: "k + 32 \<le> length d \<Longrightarrow> k < 2 ^ 63 \<Longrightarrow> \<exists>x. key_at d k = Inr x"
  by (simp add: key_at_def add_w_ok get_range_def)

lemma u64_at_in: "k + 8 \<le> length d \<Longrightarrow> k < 2 ^ 63 \<Longrightarrow> \<exists>x. u64_at d k = Inr x"
  by (simp add: u64_at_def add_w_ok get_range_def)

lemma bytes_ok_write: "bytes_ok bs \<Longrightarrow> bytes_ok d \<Longrightarrow> bytes_ok (write_at k bs d)"
  by (auto simp: bytes_ok_def write_at_def dest: in_set_takeD in_set_dropD)

lemma demo_market_bytes: "bytes_ok demo_market"
proof -
  have "bytes_ok (replicate 84944 0)" "bytes_ok [119, 223, 113, 115, 183, 32, 88, 113]" by (simp_all add: bytes_ok_def)
  then show ?thesis unfolding demo_market_def by (intro bytes_ok_write bytes_ok_to_le)
qed

lemma demo_market_length: "length demo_market = 84944"
  by (simp add: demo_market_def)

lemma demo_market_fields:
  "take 8 demo_market = [119, 223, 113, 115, 183, 32, 88, 113]" "u64_at demo_market 8 = Inr 1" "u64_at demo_market 16 = Inr 512"
  "u64_at demo_market 24 = Inr 512" "u64_at demo_market 32 = Inr 128" "u64_at demo_market 112 = Inr 1000"
  "u64_at demo_market 192 = Inr 10" "u64_at demo_market 832 = Inr 1" "u64_at demo_market 840 = Inr 1" "u64_at demo_market 856 = Inr 5"
  unfolding demo_market_def by (simp_all add: u64_at_write u64_at_write_other) (simp add: write_at_def)

lemma demo_market_decodes: "\<exists>b. book_decode demo_market = Inr b"
proof -
  note keys = key_at_in [of _ demo_market, unfolded demo_market_length]
  obtain k1 k2 k3 k4 s where "key_at demo_market 48 = Inr k1" "key_at demo_market 128 = Inr k2" "key_at demo_market 80 = Inr k3"
    "key_at demo_market 160 = Inr k4" "u64_at demo_market 272 = Inr s"
    using keys [of 48] keys [of 128] keys [of 80] keys [of 160] u64_at_in [of 272 demo_market, unfolded demo_market_length] by auto
  then show ?thesis by (simp add: book_decode_def header_decode_def demo_market_fields demo_market_length)
qed

lemma book_quote_bounded_witness:
  "\<exists>b. book_decode demo_market = Inr b \<and> fits dex_faults (book_quote b 9 True 100 4 0 0) (\<lambda>f. fl_input f \<le> 100 \<and> fl_encountered f \<le> 4)"
proof -
  obtain b where b: "book_decode demo_market = Inr b" using demo_market_decodes by blast
  have "fits dex_faults (book_quote b 9 True 100 4 0 0) (\<lambda>f. fl_input f \<le> 100 \<and> fl_encountered f \<le> 4)"
    by (rule fits_mono [OF book_quote_bounded [OF demo_market_bytes b]]) simp
  then show ?thesis using b by simp
qed

end
