(* ===== verification/Graph.thy ===== *)
theory Graph
  imports Adapters
begin

text \<open>
  The typed swap graph (\<open>adapters/graph.rs\<close>): the venues, the account positions each binds, the swap
  instructions they take, and the decoding of a signed graph from instruction bytes.
\<close>

section \<open>Venues\<close>

definition GRAPH_MAX_ASSETS :: nat where "GRAPH_MAX_ASSETS = 5"
definition GRAPH_MAX_LEGS :: nat where "GRAPH_MAX_LEGS = 4"
definition MAX_CANDIDATES :: nat where "MAX_CANDIDATES = 8"
definition MAX_CPI_ACCOUNTS :: nat where "MAX_CPI_ACCOUNTS = 24"
definition MAX_ACCOUNTS :: nat where "MAX_ACCOUNTS = 64"
definition HEADER_LEN :: nat where "HEADER_LEN = 36"
definition LEG_HEADER_LEN :: nat where "LEG_HEADER_LEN = 14"

lemmas graph_bounds = GRAPH_MAX_ASSETS_def GRAPH_MAX_LEGS_def MAX_CANDIDATES_def MAX_CPI_ACCOUNTS_def
  MAX_ACCOUNTS_def HEADER_LEN_def LEG_HEADER_LEN_def

datatype venue = Phoenix | RaydiumCpmm | OrcaWhirlpool | RaydiumClmm | MeteoraDlmm | MeteoraDammV2
  | RaydiumAmmV4 | ByrealClmm | Riptide

definition venue_of :: "nat \<Rightarrow> venue res" where
  "venue_of v =
     (if v < 9 then Inr ([Phoenix, RaydiumCpmm, OrcaWhirlpool, RaydiumClmm, MeteoraDlmm, MeteoraDammV2,
        RaydiumAmmV4, ByrealClmm, Riptide] ! v)
      else dex DexUnsupported)"

fun account_bounds :: "venue \<Rightarrow> nat \<times> nat" where
  "account_bounds Phoenix = (9, 9)"
| "account_bounds RaydiumCpmm = (13, 13)"
| "account_bounds OrcaWhirlpool = (15, 15)"
| "account_bounds RaydiumClmm = (14, 20)"
| "account_bounds ByrealClmm = (14, 20)"
| "account_bounds MeteoraDlmm = (17, 22)"
| "account_bounds MeteoraDammV2 = (14, 14)"
| "account_bounds RaydiumAmmV4 = (8, 8)"
| "account_bounds Riptide = (12, 13)"

text \<open>Pool, signer, source, destination.\<close>

fun bindings :: "venue \<Rightarrow> bool \<Rightarrow> nat \<times> nat \<times> nat \<times> nat" where
  "bindings Phoenix d = (2, 3, if d then 4 else 5, if d then 5 else 4)"
| "bindings RaydiumCpmm d = (3, 0, 4, 5)"
| "bindings OrcaWhirlpool d = (4, 3, if d then 7 else 9, if d then 9 else 7)"
| "bindings RaydiumClmm d = (2, 0, 3, 4)"
| "bindings ByrealClmm d = (2, 0, 3, 4)"
| "bindings MeteoraDlmm d = (0, 10, 4, 5)"
| "bindings MeteoraDammV2 d = (1, 8, 2, 3)"
| "bindings RaydiumAmmV4 d = (1, 7, 5, 6)"
| "bindings Riptide d = (1, 0, if d then 4 else 5, if d then 5 else 4)"

fun writable :: "venue \<Rightarrow> nat \<Rightarrow> bool" where
  "writable Phoenix i = (i \<in> {2, 4, 5, 6, 7})"
| "writable RaydiumCpmm i = (i \<in> {0, 3, 4, 5, 6, 7, 12})"
| "writable OrcaWhirlpool i = (i \<in> {4, 7, 8, 9, 10, 11, 12, 13, 14})"
| "writable RaydiumClmm i = (i \<in> {2, 3, 4, 5, 6, 7} \<or> 13 \<le> i)"
| "writable ByrealClmm i = (i \<in> {2, 3, 4, 5, 6, 7} \<or> 13 \<le> i)"
| "writable MeteoraDlmm i = (i \<in> {0, 1, 2, 3, 4, 5, 8, 9} \<or> 16 \<le> i)"
| "writable MeteoraDammV2 i = (i \<in> {1, 2, 3, 4, 5, 11})"
| "writable RaydiumAmmV4 i = (i \<in> {1, 3, 4, 5, 6})"
| "writable Riptide i = (i \<in> {1, 4, 5, 6, 7})"

definition writable_with_owner :: "venue \<Rightarrow> nat \<Rightarrow> bool \<Rightarrow> bool" where
  "writable_with_owner v position owned \<longleftrightarrow> writable v position \<and> \<not> (v = ByrealClmm \<and> 13 \<le> position \<and> \<not> owned)"

fun swap_layout :: "venue \<Rightarrow> (nat list \<times> nat) res" where
  "swap_layout Phoenix = dex DexUnsupported"
| "swap_layout RaydiumCpmm = Inr ([143, 190, 90, 218, 196, 30, 51, 222], 24)"
| "swap_layout OrcaWhirlpool = Inr ([43, 4, 237, 11, 26, 201, 30, 98], 43)"
| "swap_layout RaydiumClmm = Inr ([43, 4, 237, 11, 26, 201, 30, 98], 41)"
| "swap_layout ByrealClmm = Inr ([229, 46, 213, 132, 105, 40, 40, 228], 41)"
| "swap_layout MeteoraDlmm = Inr ([65, 75, 63, 76, 235, 91, 91, 136], 28)"
| "swap_layout MeteoraDammV2 = Inr ([65, 75, 63, 76, 235, 91, 91, 136], 25)"
| "swap_layout RaydiumAmmV4 = Inr ([16], 17)"
| "swap_layout Riptide = Inr ([2], 12)"

text \<open>The 80-byte destination and the length in use.\<close>

definition swap_data :: "venue \<Rightarrow> nat \<Rightarrow> bool \<Rightarrow> (nat list \<times> nat) res" where
  "swap_data v input direction =
     (if input = 0 \<or> MAX_INPUT < input then dex DexAmount
      else
        bindR (swap_layout v) (\<lambda>(disc, len).
        let dst = write_at (length disc) (to_le 8 input) (write_at 0 disc (replicate 80 0));
            dst = (case v of
                OrcaWhirlpool \<Rightarrow> (dst[40 := 1])[41 := of_bool direction]
              | RaydiumClmm \<Rightarrow> dst[40 := 1]
              | ByrealClmm \<Rightarrow> dst[40 := 1]
              | Riptide \<Rightarrow> dst[9 := of_bool direction]
              | _ \<Rightarrow> dst)
        in Inr (dst, len)))"

section \<open>Graphs\<close>

record asset =
  as_token :: nat
  as_mint :: nat
  as_program :: nat

record leg =
  lg_venue :: venue
  lg_source :: nat
  lg_destination :: nat
  lg_direction :: bool
  lg_budget :: nat
  lg_program :: nat
  lg_accounts :: "nat list"

text \<open>The assets and legs in use.\<close>

record graph =
  gr_sequence :: nat
  gr_input :: nat
  gr_min_out :: nat
  gr_deadline :: nat
  gr_assets :: "asset list"
  gr_legs :: "leg list"
  gr_reflow_calls :: nat
  gr_seed_input :: nat

fun decode_assets :: "nat list \<Rightarrow> nat \<Rightarrow> nat \<Rightarrow> nat \<Rightarrow> (asset list \<times> nat) res" where
  "decode_assets d account_count 0 cursor = Inr ([], cursor)"
| "decode_assets d account_count (Suc n) cursor =
     bindR (or_fault (get_range d cursor (cursor + 3)) (Dex DexLayout)) (\<lambda>s.
     if list_ex (\<lambda>i. i < 2 \<or> account_count \<le> i) s then dex DexLayout
     else bindR (decode_assets d account_count n (cursor + 3)) (\<lambda>(rest, cursor).
       Inr (\<lparr>as_token = s ! 0, as_mint = s ! 1, as_program = s ! 2\<rparr> # rest, cursor)))"

definition decode_leg :: "nat list \<Rightarrow> nat \<Rightarrow> nat \<Rightarrow> nat \<Rightarrow> (leg \<times> nat) res" where
  "decode_leg d account_count asset_count cursor =
     bindR (or_fault (get_range d cursor (cursor + LEG_HEADER_LEN)) (Dex DexLayout)) (\<lambda>s.
     bindR (venue_of (s ! 0)) (\<lambda>v.
     let n = s ! 13; (lo, hi) = account_bounds v in
     if s ! 2 \<le> s ! 1 \<or> asset_count \<le> s ! 2 \<or> 1 < s ! 3 \<or> account_count \<le> s ! 12 \<or> n < lo \<or> hi < n then dex DexLayout
     else
       bindR (u64_at s 4) (\<lambda>budget.
       if budget = 0 \<or> (MAX_INPUT < budget \<and> budget \<noteq> 2 ^ 64 - 1) then dex DexAmount
       else
         bindR (or_fault (get_range d (cursor + LEG_HEADER_LEN) (cursor + LEG_HEADER_LEN + n)) (Dex DexLayout)) (\<lambda>indices.
         if list_ex (\<lambda>i. account_count \<le> i \<or> i = 1) indices then dex DexLayout
         else Inr (\<lparr>lg_venue = v, lg_source = s ! 1, lg_destination = s ! 2, lg_direction = (s ! 3 = 1),
           lg_budget = budget, lg_program = s ! 12, lg_accounts = indices\<rparr>, cursor + LEG_HEADER_LEN + n)))))"

fun decode_legs :: "nat list \<Rightarrow> nat \<Rightarrow> nat \<Rightarrow> nat \<Rightarrow> nat \<Rightarrow> (leg list \<times> nat) res" where
  "decode_legs d account_count asset_count 0 cursor = Inr ([], cursor)"
| "decode_legs d account_count asset_count (Suc n) cursor =
     bindR (decode_leg d account_count asset_count cursor) (\<lambda>(l, cursor).
     bindR (decode_legs d account_count asset_count n cursor) (\<lambda>(rest, cursor). Inr (l # rest, cursor)))"

definition graph_decode :: "nat list \<Rightarrow> nat \<Rightarrow> graph res" where
  "graph_decode d account_count =
     (if length d < HEADER_LEN \<or> d ! 0 \<notin> {2, 4, 9} \<or> (d ! 0 = 2 \<and> d ! 3 \<noteq> 0)
         \<or> (d ! 0 \<in> {4, 9} \<and> \<not> (8 \<le> d ! 3 \<and> d ! 3 \<le> 64)) \<or> (d ! 0 = 9 \<and> d ! 1 \<noteq> 2)
         \<or> \<not> (2 \<le> d ! 1 \<and> d ! 1 \<le> GRAPH_MAX_ASSETS)
         \<or> \<not> (1 \<le> d ! 2 \<and> d ! 2 \<le> (if d ! 0 \<noteq> 2 then MAX_CANDIDATES else GRAPH_MAX_LEGS))
         \<or> \<not> (6 \<le> account_count \<and> account_count \<le> MAX_ACCOUNTS)
      then dex DexLayout
      else
        bindR (u64_at d 4) (\<lambda>sequence. bindR (u64_at d 12) (\<lambda>input.
        bindR (u64_at d 20) (\<lambda>min_out. bindR (u64_at d 28) (\<lambda>deadline.
        if input = 0 \<or> MAX_INPUT < input \<or> min_out = 0 then dex DexAmount
        else
          bindR (decode_assets d account_count (d ! 1) HEADER_LEN) (\<lambda>(assets, cursor).
          bindR (if d ! 0 = 9
                 then bindR (u64_at d cursor) (\<lambda>seed. if seed = 0 \<or> input \<le> seed then dex DexAmount else Inr (seed, cursor + 8))
                 else Inr (0, cursor)) (\<lambda>(seed, cursor).
          bindR (decode_legs d account_count (d ! 1) (d ! 2) cursor) (\<lambda>(legs, cursor).
          bindR (index_at legs 0) (\<lambda>first.
          if lg_budget first < seed then dex DexAmount
          else if cursor \<noteq> length d then dex DexLayout
          else Inr \<lparr>gr_sequence = sequence, gr_input = input, gr_min_out = min_out, gr_deadline = deadline,
            gr_assets = assets, gr_legs = legs, gr_reflow_calls = (if d ! 0 \<noteq> 2 then d ! 3 else 0),
            gr_seed_input = seed\<rparr>)))))))))"

section \<open>Swap instructions\<close>

text \<open>
  For every venue but Phoenix the emitted swap instruction is the venue's discriminator followed by
  the exact input, which reads back from the buffer; the used length covers it and the buffer stays
  80 bytes.
\<close>

lemma swap_data_roundtrip:
  assumes "swap_data v amount direction = Inr (dst, len)"
  shows "\<exists>disc. swap_layout v = Inr (disc, len) \<and> length dst = 80 \<and> take (length disc) dst = disc \<and>
    u64_at dst (length disc) = Inr amount \<and> length disc + 8 \<le> len \<and> len \<le> 80 \<and> v \<noteq> Phoenix"
proof -
  have amount: "amount < 2 ^ 64" using assms by (simp add: swap_data_def MAX_INPUT_def split: if_splits)
  have upd: "u64_at (d[k := x]) j = u64_at d j" if "j + 8 \<le> k" for d k j and x :: nat
  proof -
    have "take 8 (drop j (d[k := x])) = take 8 (drop j d)" using that by (intro nth_equalityI) auto
    then show ?thesis by (simp add: u64_at_def get_range_def add_w_def)
  qed
  obtain disc where layout: "swap_layout v = Inr (disc, len)"
    using assms by (auto simp: swap_data_def monad_simps Let_def split: if_splits)
  have lens: "length disc + 8 \<le> len" "len \<le> 80" "v \<noteq> Phoenix" "v \<in> {OrcaWhirlpool, RaydiumClmm, ByrealClmm} \<Longrightarrow> length disc = 8"
    "v = Riptide \<Longrightarrow> length disc = 1"
    using layout by (cases v; auto)+
  let ?B = "write_at (length disc) (to_le 8 amount) (write_at 0 disc (replicate 80 0))"
  have room: "length disc + 8 \<le> 80" using lens(1,2) by simp
  have B: "length ?B = 80" "take (length disc) ?B = disc" "u64_at ?B (length disc) = Inr amount"
    using room amount by (simp_all add: u64_at_write) (simp add: write_at_def)
  have dst: "dst = (case v of OrcaWhirlpool \<Rightarrow> (?B[40 := 1])[41 := of_bool direction] | RaydiumClmm \<Rightarrow> ?B[40 := 1]
      | ByrealClmm \<Rightarrow> ?B[40 := 1] | Riptide \<Rightarrow> ?B[9 := of_bool direction] | _ \<Rightarrow> ?B)"
    using assms layout unfolding swap_data_def Let_def by (auto split: if_splits)
  define good where "good d \<longleftrightarrow> length d = 80 \<and> take (length disc) d = disc \<and> u64_at d (length disc) = Inr amount" for d
  have keep: "good (d[k := x])" if "good d" "length disc + 8 \<le> k" for d k x
    using that upd unfolding good_def by (simp add: take_update_cancel)
  have "good ?B" using B by (simp add: good_def)
  then have "good dst" using lens(4,5) unfolding dst by (cases v) (simp_all add: keep)
  then have "length dst = 80 \<and> take (length disc) dst = disc \<and> u64_at dst (length disc) = Inr amount" by (simp only: good_def)
  then show ?thesis using layout lens by blast
qed

section \<open>A decoded graph is well typed\<close>

definition asset_ok :: "nat \<Rightarrow> asset \<Rightarrow> bool" where
  "asset_ok account_count a \<longleftrightarrow> (\<forall>i \<in> {as_token a, as_mint a, as_program a}. 2 \<le> i \<and> i < account_count)"

text \<open>
  A leg moves forward in the asset order, its budget is bounded or unlimited, its account list fits
  its venue, names existing accounts and never the nonce, and the venue's pool, signer, source and
  destination are four of its accounts.
\<close>

definition leg_ok :: "nat \<Rightarrow> nat \<Rightarrow> leg \<Rightarrow> bool" where
  "leg_ok account_count asset_count l \<longleftrightarrow> lg_source l < lg_destination l \<and> lg_destination l < asset_count \<and>
     0 < lg_budget l \<and> (lg_budget l \<le> MAX_INPUT \<or> lg_budget l = 2 ^ 64 - 1) \<and> lg_program l < account_count \<and>
     fst (account_bounds (lg_venue l)) \<le> length (lg_accounts l) \<and> length (lg_accounts l) \<le> MAX_CPI_ACCOUNTS \<and>
     (\<forall>i \<in> set (lg_accounts l). i < account_count \<and> i \<noteq> 1) \<and>
     (case bindings (lg_venue l) (lg_direction l) of (pool, signer, source, destination) \<Rightarrow>
        {pool, signer, source, destination} \<subseteq> {..<length (lg_accounts l)} \<and> distinct [pool, signer, source, destination] \<and>
        writable (lg_venue l) pool \<and> writable (lg_venue l) source \<and> writable (lg_venue l) destination)"

definition graph_ok :: "nat \<Rightarrow> graph \<Rightarrow> bool" where
  "graph_ok account_count g \<longleftrightarrow> 0 < gr_input g \<and> gr_input g \<le> MAX_INPUT \<and> 0 < gr_min_out g \<and>
     2 \<le> length (gr_assets g) \<and> length (gr_assets g) \<le> 5 \<and> (\<forall>a \<in> set (gr_assets g). asset_ok account_count a) \<and>
     gr_legs g \<noteq> [] \<and> length (gr_legs g) \<le> (if gr_reflow_calls g = 0 then 4 else 8) \<and> gr_reflow_calls g \<le> 64 \<and>
     (\<forall>l \<in> set (gr_legs g). leg_ok account_count (length (gr_assets g)) l) \<and>
     gr_seed_input g < gr_input g \<and> gr_seed_input g \<le> lg_budget (hd (gr_legs g))"

lemma venue_bindings:
  "case bindings v dir of (pool, signer, source, destination) \<Rightarrow>
     {pool, signer, source, destination} \<subseteq> {..<fst (account_bounds v)} \<and> distinct [pool, signer, source, destination] \<and>
     writable v pool \<and> writable v source \<and> writable v destination"
  by (cases v; cases dir) simp_all

lemma account_bounds_max: "snd (account_bounds v) \<le> MAX_CPI_ACCOUNTS"
  by (cases v) (simp_all add: graph_bounds)

lemma decode_assets_ok:
  assumes "cursor + 3 * n < 2 ^ 63"
  shows "fits dex_faults (decode_assets d account_count n cursor)
    (\<lambda>(assets, c). length assets = n \<and> c = cursor + 3 * n \<and> (\<forall>a \<in> set assets. asset_ok account_count a))"
  using assms
proof (induction n arbitrary: cursor)
  case (Suc n)
  show ?case unfolding decode_assets.simps
  proof (rule fits_bindR [OF or_fault_fits], goal_cases)
    case (1 s)
    then have len: "length s = 3" by (auto simp: get_range_def split: if_splits)
    show ?case
    proof (cases "list_ex (\<lambda>i. i < 2 \<or> account_count \<le> i) s")
      case False
      then have ok: "\<forall>i \<in> {s ! 0, s ! 1, s ! 2}. 2 \<le> i \<and> i < account_count"
        using len unfolding list_ex_iff by (auto simp: not_less not_le)
      have IH: "fits dex_faults (decode_assets d account_count n (cursor + 3))
          (\<lambda>(assets, c). length assets = n \<and> c = cursor + 3 + 3 * n \<and> (\<forall>a \<in> set assets. asset_ok account_count a))"
        by (rule Suc.IH) (use Suc.prems in simp)
      show ?thesis unfolding if_not_P [OF False]
        by (rule fits_bindR [OF IH]) (use ok in \<open>auto simp: asset_ok_def\<close>)
    qed simp
  qed
qed simp

lemma decode_leg_ok:
  assumes "bytes_ok d"
  shows "fits dex_faults (decode_leg d account_count asset_count cursor) (\<lambda>(l, c). leg_ok account_count asset_count l)"
  unfolding decode_leg_def
proof (rule fits_bindR [OF or_fault_fits], goal_cases)
  case (1 s)
  have s: "bytes_ok s" "length s = 14" using bytes_ok_range [OF assms 1(2)] by (simp_all add: LEG_HEADER_LEN_def)
  have venue: "fits dex_faults (venue_of (s ! 0)) (\<lambda>_. True)" by (simp add: venue_of_def)
  show ?case
  proof (rule fits_bindR [OF venue], goal_cases)
    case (1 v)
    obtain lo hi where b: "account_bounds v = (lo, hi)" by fastforce
    show ?case unfolding Let_def b prod.case
    proof (cases "s ! 2 \<le> s ! 1 \<or> asset_count \<le> s ! 2 \<or> 1 < s ! 3 \<or> account_count \<le> s ! 12 \<or> s ! 13 < lo \<or> hi < s ! 13", goal_cases)
      case 2
      have u64: "fits dex_faults (u64_at s 4) (\<lambda>_. True)" using fits_mono [OF u64_at_fits [OF s(1), of 4]] by simp
      show ?case unfolding if_not_P [OF 2]
      proof (rule fits_bindR [OF u64], goal_cases)
        case (1 budget)
        show ?case
        proof (cases "budget = 0 \<or> (MAX_INPUT < budget \<and> budget \<noteq> 2 ^ 64 - 1)")
          case budget: False
          show ?thesis unfolding if_not_P [OF budget]
          proof (rule fits_bindR [OF or_fault_fits], goal_cases)
            case (1 indices)
            then have len: "length indices = s ! 13" by (auto simp: get_range_def split: if_splits)
            show ?case
            proof (cases "list_ex (\<lambda>i. account_count \<le> i \<or> i = 1) indices")
              case False
              then have idx: "\<forall>i \<in> set indices. i < account_count \<and> i \<noteq> 1" by (auto simp: list_ex_iff)
              have "hi \<le> MAX_CPI_ACCOUNTS" "fst (account_bounds v) = lo" using account_bounds_max [of v] b by simp_all
              then show ?thesis using 2 budget idx len b venue_bindings [of v "s ! 3 = 1"] False
                by (auto simp: leg_ok_def)
            qed simp
          qed
        qed simp
      qed
    qed simp
  qed
qed

lemma decode_legs_ok:
  assumes "bytes_ok d"
  shows "fits dex_faults (decode_legs d account_count asset_count n cursor)
    (\<lambda>(legs, c). length legs = n \<and> (\<forall>l \<in> set legs. leg_ok account_count asset_count l))"
proof (induction n arbitrary: cursor)
  case (Suc n)
  show ?case unfolding decode_legs.simps
  proof (rule fits_bindR [OF decode_leg_ok [OF assms]], goal_cases)
    case (1 p)
    obtain l c where p: "p = (l, c)" by fastforce
    show ?case unfolding p prod.case by (rule fits_bindR [OF Suc.IH]) (use 1(2) p in auto)
  qed
qed simp

lemma graph_decode_ok:
  assumes "bytes_ok d"
  shows "fits dex_faults (graph_decode d account_count) (graph_ok account_count)"
proof -
  let ?bad = "length d < HEADER_LEN \<or> d ! 0 \<notin> {2, 4, 9} \<or> (d ! 0 = 2 \<and> d ! 3 \<noteq> 0)
         \<or> (d ! 0 \<in> {4, 9} \<and> \<not> (8 \<le> d ! 3 \<and> d ! 3 \<le> 64)) \<or> (d ! 0 = 9 \<and> d ! 1 \<noteq> 2)
         \<or> \<not> (2 \<le> d ! 1 \<and> d ! 1 \<le> GRAPH_MAX_ASSETS)
         \<or> \<not> (1 \<le> d ! 2 \<and> d ! 2 \<le> (if d ! 0 \<noteq> 2 then MAX_CANDIDATES else GRAPH_MAX_LEGS))
         \<or> \<not> (6 \<le> account_count \<and> account_count \<le> MAX_ACCOUNTS)"
  show ?thesis
  proof (cases ?bad)
    case True
    then show ?thesis unfolding graph_decode_def by (simp only: if_True fits_simps) auto
  next
    case False
    have u64: "fits dex_faults (u64_at d k) (\<lambda>_. True)" if "k < 2 ^ 63" for k
      using fits_mono [OF u64_at_fits [OF assms that]] by simp
    show ?thesis unfolding graph_decode_def if_not_P [OF False]
    proof (rule fits_bindR [OF u64], simp, rule fits_bindR [OF u64], simp, rule fits_bindR [OF u64], simp, rule fits_bindR [OF u64], simp, goal_cases)
      case (1 sequence amount min_out deadline)
      show ?case
      proof (cases "amount = 0 \<or> MAX_INPUT < amount \<or> min_out = 0")
        case amount: False
        have "HEADER_LEN + 3 * (d ! 1) < 2 ^ 63" using False by (simp add: graph_bounds)
        note assets = decode_assets_ok [OF this, of d account_count]
        show ?thesis unfolding if_not_P [OF amount]
        proof (rule fits_bindR [OF assets], goal_cases)
          case assets: (1 p)
          obtain as cursor where p: "p = (as, cursor)" by fastforce
          have as: "length as = d ! 1" "\<forall>a \<in> set as. asset_ok account_count a" "cursor < 2 ^ 62"
            using assets(2) False by (simp_all add: p graph_bounds)
          have seed: "fits dex_faults (if d ! 0 = 9
                 then bindR (u64_at d cursor) (\<lambda>seed. if seed = 0 \<or> amount \<le> seed then dex DexAmount else Inr (seed, cursor + 8))
                 else Inr (0, cursor)) (\<lambda>(seed, _). seed < amount)"
            using as(3) u64 [of cursor] amount by (auto intro!: fits_bindR [where P = "\<lambda>_. True"])
          show ?case unfolding p prod.case
          proof (rule fits_bindR [OF seed], goal_cases)
            case (1 q)
            obtain seed cursor2 where q: "q = (seed, cursor2)" by fastforce
            show ?case unfolding q prod.case
            proof (rule fits_bindR [OF decode_legs_ok [OF assms, of account_count "d ! 1" "d ! 2"]], goal_cases)
              case legs: (1 r)
              obtain ls cursor3 where r: "r = (ls, cursor3)" by fastforce
              have ls: "length ls = d ! 2" "\<forall>l \<in> set ls. leg_ok account_count (d ! 1) l" using legs(2) by (simp_all add: r)
              then have ne: "ls \<noteq> []" using False by auto
              have graph: "graph_ok account_count \<lparr>gr_sequence = sequence, gr_input = amount, gr_min_out = min_out, gr_deadline = deadline,
                gr_assets = as, gr_legs = ls, gr_reflow_calls = (if d ! 0 \<noteq> 2 then d ! 3 else 0), gr_seed_input = seed\<rparr>"
                if "seed \<le> lg_budget (ls ! 0)"
                using that 1(2) as ls ne amount False by (auto simp: graph_ok_def q graph_bounds hd_conv_nth)
              have "index_at ls 0 = Inr (ls ! 0)" using ne by simp
              then show ?case unfolding r prod.case using graph by auto
            qed
          qed
        qed
      qed simp
    qed
  qed
qed

text \<open>\<^bold>\<open>C25.\<close>
  Decoding never panics, and a decoded graph is well typed: sizes, budgets and indices in bounds,
  assets off the wallet and nonce slots, every leg forward in the asset order with the accounts its
  venue binds, a seed smaller than the input and within the first budget.\<close>

theorem graph_decode_typed:
  assumes "bytes_ok d"
  shows "fits dex_faults (graph_decode d account_count) (graph_ok account_count)"
  by (rule graph_decode_ok [OF assms])

definition demo_graph :: "nat list" where
  "demo_graph = [2, 2, 1, 0] @ to_le 8 5 @ to_le 8 1000 @ to_le 8 900 @ to_le 8 77 @ [2, 3, 4, 5, 6, 4] @
     [6, 0, 1, 1] @ to_le 8 1000 @ [7, 8] @ [8, 9, 10, 11, 12, 2, 5, 0]"

lemma graph_decode_typed_witness: "\<exists>g. graph_decode demo_graph 13 = Inr g \<and> graph_ok 13 g"
proof -
  have "bytes_ok demo_graph" unfolding bytes_ok_def by code_simp
  moreover have "(case graph_decode demo_graph 13 of Inl e \<Rightarrow> False | Inr g \<Rightarrow> True)" by code_simp
  ultimately show ?thesis using graph_decode_typed [of demo_graph 13] by (cases "graph_decode demo_graph 13") auto
qed

end
