(* ===== verification/Native.thy ===== *)
theory Native
  imports Bytes
begin

text \<open>
  The native quoting crate's root (\<open>native/src/lib.rs\<close>): checked reads, the Token-2022 transfer fee and
  the scaled-UI multiplier, whose IEEE bytes are mapped to Q32 without floating point.
\<close>

abbreviation nat_err :: "native_error \<Rightarrow> 'a res" where
  "nat_err e \<equiv> Inl (Native e)"

abbreviation native_faults :: "fault set" where
  "native_faults \<equiv> range Native"

section \<open>Reading\<close>

definition bytes_at :: "nat list \<Rightarrow> nat \<Rightarrow> nat \<Rightarrow> nat list res" where
  "bytes_at d offset n =
     bindR (or_fault (checked_add 64 offset n) (Native NatLayout)) (\<lambda>e. or_fault (get_range d offset e) (Native NatLayout))"

definition n_u64_at :: "nat list \<Rightarrow> nat \<Rightarrow> nat res" where
  "n_u64_at d offset = bindR (bytes_at d offset 8) (\<lambda>bs. Inr (from_le bs))"

definition n_u128_at :: "nat list \<Rightarrow> nat \<Rightarrow> nat res" where
  "n_u128_at d offset = bindR (bytes_at d offset 16) (\<lambda>bs. Inr (from_le bs))"

definition n_u32_at :: "nat list \<Rightarrow> nat \<Rightarrow> nat res" where
  "n_u32_at d offset = bindR (bytes_at d offset 4) (\<lambda>bs. Inr (from_le bs))"

definition n_u16_at :: "nat list \<Rightarrow> nat \<Rightarrow> nat res" where
  "n_u16_at d offset = bindR (bytes_at d offset 2) (\<lambda>bs. Inr (from_le bs))"

definition signed64 :: "nat \<Rightarrow> int" where
  "signed64 v = (if v < 2 ^ 63 then int v else int v - 2 ^ 64)"

section \<open>Transfer fees\<close>

record transfer_fee =
  tf_bps :: nat
  tf_maximum :: nat

definition transfer_fee_default :: transfer_fee where
  "transfer_fee_default = \<lparr>tf_bps = 0, tf_maximum = 0\<rparr>"

text \<open>One known extension; \<open>seen\<close> lists the kinds already met (the bits of the mask).\<close>

definition fee_extension :: "nat list \<Rightarrow> nat \<Rightarrow> nat \<Rightarrow> nat \<Rightarrow> transfer_fee \<Rightarrow> transfer_fee res" where
  "fee_extension ext kind len epoch fee =
     (if kind = 1 then
        if len \<noteq> 108 then nat_err NatLayout
        else
          bindR (n_u64_at ext 90) (\<lambda>newer.
          let off = (if newer \<le> epoch then 90 else 72) in
          bindR (n_u64_at ext (off + 8)) (\<lambda>maximum. bindR (n_u16_at ext (off + 16)) (\<lambda>bps.
          if 10000 < bps then nat_err NatLayout else Inr \<lparr>tf_bps = bps, tf_maximum = maximum\<rparr>)))
      else if kind = 14 \<and> (len \<noteq> 64 \<or> list_ex (\<lambda>x. x \<noteq> 0) (drop 32 ext)) then nat_err NatUnsupported
      else if kind = 16 \<and> len \<noteq> 129 then nat_err NatUnsupported
      else if kind = 26 \<and> (len \<noteq> 33 \<or> ext ! 32 \<noteq> 0) then nat_err NatUnsupported
      else if kind = 6 \<and> (len \<noteq> 1 \<or> ext ! 0 \<noteq> 1) then nat_err NatUnsupported
      else Inr fee)"

function fee_extensions :: "nat list \<Rightarrow> nat \<Rightarrow> nat \<Rightarrow> nat list \<Rightarrow> transfer_fee \<Rightarrow> transfer_fee res" where
  "fee_extensions mint epoch p seen fee =
     (if length mint \<le> p \<or> list_all (\<lambda>b. b = 0) (drop p mint) then Inr fee
      else
        bindR (n_u16_at mint p) (\<lambda>kind. bindR (n_u16_at mint (p + 2)) (\<lambda>len.
        if kind \<notin> {1, 3, 4, 6, 10, 12, 14, 16, 18, 19, 25, 26} \<or> kind \<in> set seen then nat_err NatUnsupported
        else
          bindR (or_fault (get_range mint (p + 4) (p + 4 + len)) (Native NatLayout)) (\<lambda>ext.
          bindR (fee_extension ext kind len epoch fee) (\<lambda>fee.
          fee_extensions mint epoch (p + (4 + len)) (kind # seen) fee)))))"
  by pat_completeness auto
termination by (relation "measure (\<lambda>(mint, _, p, _, _). length mint - p)") auto

declare fee_extensions.simps [simp del]

definition transfer_fee_decode :: "nat list \<Rightarrow> nat \<Rightarrow> transfer_fee res" where
  "transfer_fee_decode mint epoch =
     (if length mint < 82 \<or> mint ! 45 \<noteq> 1 then nat_err NatLayout
      else if length mint = 82 then Inr transfer_fee_default
      else if length mint < 166 \<or> mint ! 165 \<noteq> 1 \<or> list_ex (\<lambda>x. x \<noteq> 0) (take 83 (drop 82 mint)) then nat_err NatLayout
      else fee_extensions mint epoch 166 [] transfer_fee_default)"

definition fee_net :: "transfer_fee \<Rightarrow> nat \<Rightarrow> nat res" where
  "fee_net fee amount =
     bindR (mul_w 128 amount (tf_bps fee)) (\<lambda>x.
       or_fault (checked_sub amount (min (x div 10000 + of_bool (x mod 10000 \<noteq> 0)) (tf_maximum fee))) (Native NatArithmetic))"

section \<open>Scaled UI amounts\<close>

record scaled_ui =
  sc_decimals :: nat
  sc_multiplier :: nat
  sc_effective :: int
  sc_next :: nat

text \<open>
  \<open>checked_shl\<close> fails only on the shift amount and drops bits past the width; \<open>checked_shr\<close> past the
  width is 0 here.
\<close>

definition positive_f64_q32 :: "nat \<Rightarrow> nat res" where
  "positive_f64_q32 bits =
     (if bits div 2 ^ 63 \<noteq> 0 then nat_err NatUnsupported
      else
        let exponent = bits div 2 ^ 52 mod 2 ^ 11; fraction = bits mod 2 ^ 52 in
        if exponent = 0 \<or> exponent = 2047 then nat_err NatUnsupported
        else
          let significand = 2 ^ 52 + fraction in
          bindR (if 1043 \<le> exponent
                 then if exponent - 1043 < 128 then Inr (significand * 2 ^ (exponent - 1043) mod 2 ^ 128) else nat_err NatArithmetic
                 else Inr (if 1043 - exponent < 128 then significand div 2 ^ (1043 - exponent) else 0)) (\<lambda>fixed.
          if fixed = 0 then nat_err NatUnsupported
          else if fixed < 2 ^ 64 then Inr fixed else nat_err NatArithmetic))"

function scaled_extensions :: "nat list \<Rightarrow> nat \<Rightarrow> nat list \<Rightarrow> (nat \<times> int \<times> nat) option \<Rightarrow> (nat \<times> int \<times> nat) option res" where
  "scaled_extensions mint position seen scaled =
     (if length mint \<le> position \<or> list_all (\<lambda>b. b = 0) (drop position mint) then Inr scaled
      else
        bindR (n_u16_at mint position) (\<lambda>kind. bindR (n_u16_at mint (position + 2)) (\<lambda>len.
        if 64 \<le> kind \<or> kind \<in> set seen then nat_err NatUnsupported
        else
          bindR (or_fault (get_range mint (position + 4) (position + 4 + len)) (Native NatLayout)) (\<lambda>v.
          bindR (if kind = 25
                 then if len \<noteq> 56 then nat_err NatLayout
                      else
                        bindR (bindR (n_u64_at v 32) positive_f64_q32) (\<lambda>current.
                        bindR (n_u64_at v 40) (\<lambda>effective.
                        bindR (bindR (n_u64_at v 48) positive_f64_q32) (\<lambda>later.
                        Inr (Some (current, signed64 effective, later)))))
                 else Inr scaled) (\<lambda>scaled.
          scaled_extensions mint (position + 4 + len) (kind # seen) scaled)))))"
  by pat_completeness auto
termination by (relation "measure (\<lambda>(mint, p, _, _). length mint - p)") auto

declare scaled_extensions.simps [simp del]

definition scaled_decode :: "nat list \<Rightarrow> int \<Rightarrow> scaled_ui res" where
  "scaled_decode mint timestamp =
     (if length mint < 166 \<or> mint ! 45 \<noteq> 1 \<or> mint ! 165 \<noteq> 1 \<or> list_ex (\<lambda>x. x \<noteq> 0) (take 83 (drop 82 mint)) then nat_err NatLayout
      else
        bindR (scaled_extensions mint 166 [] None) (\<lambda>scaled.
        bindR (or_fault scaled (Native NatUnsupported)) (\<lambda>(current, effective, later).
        Inr \<lparr>sc_decimals = mint ! 44, sc_multiplier = (if effective \<le> timestamp then later else current),
          sc_effective = effective, sc_next = later\<rparr>)))"

definition exposure_q32_of :: "scaled_ui \<Rightarrow> nat \<Rightarrow> nat \<Rightarrow> nat \<Rightarrow> nat \<Rightarrow> nat res" where
  "exposure_q32_of sc raw numerator denominator bps =
     (if raw = 0 \<or> numerator = 0 \<or> denominator = 0 \<or> bps = 0 \<or> 10000 < bps then nat_err NatArithmetic
      else if (2 :: nat) ^ 128 \<le> 10 ^ sc_decimals sc then nat_err NatArithmetic
      else
        bindR (or_fault (checked_mul 128 (10 ^ sc_decimals sc) denominator) (Native NatArithmetic)) (\<lambda>d.
        bindR (or_fault (checked_mul 128 d 10000) (Native NatArithmetic)) (\<lambda>d.
        bindR (or_fault (checked_mul 128 raw (sc_multiplier sc)) (Native NatArithmetic)) (\<lambda>x.
        bindR (or_fault (checked_mul 128 x numerator) (Native NatArithmetic)) (\<lambda>x.
        bindR (or_fault (checked_mul 128 x bps) (Native NatArithmetic)) (\<lambda>x.
        bindR (div_w x d) (\<lambda>v. if v < 2 ^ 64 then Inr v else nat_err NatArithmetic)))))))"

section \<open>Exactness\<close>

lemma native_or_fits: "fits native_faults (or_fault m (Native e)) (\<lambda>x. m = Some x)"
  by (cases m) simp_all

lemma bytes_at_fits: "fits native_faults (bytes_at d offset n) (\<lambda>bs. get_range d offset (offset + n) = Some bs)"
  unfolding bytes_at_def
  by (rule fits_bindR [OF native_or_fits], rule fits_mono [OF native_or_fits]) (simp add: checked_add_Some)

lemma n_fits:
  assumes "bytes_ok d"
  shows "fits native_faults (n_u64_at d k) (\<lambda>v. v < 2 ^ 64)" "fits native_faults (n_u128_at d k) (\<lambda>v. v < 2 ^ 128)"
    "fits native_faults (n_u32_at d k) (\<lambda>v. v < 2 ^ 32)" "fits native_faults (n_u16_at d k) (\<lambda>v. v < 2 ^ 16)"
proof -
  have bound: "from_le bs < 256 ^ n" if "get_range d k (k + n) = Some bs" for bs n
    using from_le_bound [of bs] bytes_ok_range [OF assms that] by simp
  show "fits native_faults (n_u64_at d k) (\<lambda>v. v < 2 ^ 64)" "fits native_faults (n_u128_at d k) (\<lambda>v. v < 2 ^ 128)"
    "fits native_faults (n_u32_at d k) (\<lambda>v. v < 2 ^ 32)" "fits native_faults (n_u16_at d k) (\<lambda>v. v < 2 ^ 16)"
    unfolding n_u64_at_def n_u128_at_def n_u32_at_def n_u16_at_def
    by (rule fits_bindR [OF bytes_at_fits], use bound in fastforce)+
qed

text \<open>A shift that loses bits leaves at least \<open>2 ^ 76\<close> or nothing.\<close>

lemma shift_exact:
  fixes s k :: nat
  assumes "s < 2 ^ 53" "k < 128" "s * 2 ^ k mod 2 ^ 128 < 2 ^ 64" "s * 2 ^ k mod 2 ^ 128 \<noteq> 0"
  shows "s * 2 ^ k mod 2 ^ 128 = s * 2 ^ k"
proof (rule ccontr)
  assume "s * 2 ^ k mod 2 ^ 128 \<noteq> s * 2 ^ k"
  then have big: "2 ^ 128 \<le> s * 2 ^ k" by (meson mod_less not_less)
  have "76 \<le> k"
  proof (rule ccontr)
    assume "\<not> 76 \<le> k"
    then have "(2 :: nat) ^ k \<le> 2 ^ 75" by (intro power_increasing) simp_all
    then have "s * 2 ^ k < 2 ^ 53 * 2 ^ 75" using assms(1) by (intro mult_less_le_imp_less) simp_all
    then show False using big by simp
  qed
  have "(2 :: nat) ^ 128 = 2 ^ (128 - k) * 2 ^ k" using assms(2) by (simp flip: power_add)
  then have "s * 2 ^ k mod 2 ^ 128 = (s mod 2 ^ (128 - k)) * 2 ^ k" by (simp add: mult_mod_left)
  then have "2 ^ k \<le> s * 2 ^ k mod 2 ^ 128" using assms(4) by (cases "s mod 2 ^ (128 - k)") simp_all
  moreover have "(2 :: nat) ^ 76 \<le> 2 ^ k" using \<open>76 \<le> k\<close> by (intro power_increasing) simp_all
  ultimately show False using assms(3) by simp
qed

text \<open>The decoded multiplier is the IEEE-754 value times \<open>2 ^ 32\<close>, rounded down: with exponent field \<open>e\<close>
  and significand \<open>s\<close>, the value is \<open>s * 2 ^ (e - 1075)\<close>, so the result is the floor of
  \<open>s * 2 ^ e / 2 ^ 1043\<close>. Signs, zero, subnormals, infinities and values out of range are refused.\<close>

theorem f64_is_floor:
  assumes "positive_f64_q32 bits = Inr v"
  defines "e \<equiv> bits div 2 ^ 52 mod 2 ^ 11" and "s \<equiv> 2 ^ 52 + bits mod 2 ^ 52"
  shows "v * 2 ^ 1043 \<le> s * 2 ^ e \<and> s * 2 ^ e < (v + 1) * 2 ^ 1043 \<and> 0 < v \<and> v < 2 ^ 64 \<and> bits < 2 ^ 63 \<and> 0 < e \<and> e < 2047"
proof -
  have e: "e \<noteq> 0" "e \<noteq> 2047" and bits: "bits div 2 ^ 63 = 0" and v: "v \<noteq> 0" "v < 2 ^ 64"
    and run: "(if 1043 \<le> e then if e - 1043 < 128 then Inr (s * 2 ^ (e - 1043) mod 2 ^ 128) else nat_err NatArithmetic
       else Inr (if 1043 - e < 128 then s div 2 ^ (1043 - e) else 0)) = Inr v"
    using assms(1) unfolding positive_f64_q32_def Let_def e_def [symmetric] s_def [symmetric]
    by (auto simp: bindR_Inr split: if_splits)
  have "e < 2 ^ 11" unfolding e_def by (rule mod_less_divisor) simp
  then have e2: "e < 2047" using e(2) by simp
  have s: "s < 2 ^ 53" using mod_less_divisor [of "2 ^ 52" bits] unfolding s_def by simp
  have "v * 2 ^ 1043 \<le> s * 2 ^ e \<and> s * 2 ^ e < (v + 1) * 2 ^ 1043"
  proof (cases "1043 \<le> e")
    case True
    then have "v = s * 2 ^ (e - 1043) mod 2 ^ 128" "e - 1043 < 128" using run by (auto split: if_splits)
    then have "v = s * 2 ^ (e - 1043)" using shift_exact [OF s, of "e - 1043"] v by simp
    moreover have "(2 :: nat) ^ e = 2 ^ (e - 1043) * 2 ^ 1043"
      by (subst power_add [symmetric], subst le_add_diff_inverse2 [OF True], rule refl)
    ultimately have "v * 2 ^ 1043 = s * 2 ^ e" by (simp add: mult.assoc)
    then show ?thesis by simp
  next
    case False
    then have veq: "v = s div 2 ^ (1043 - e)" using run v(1) by (auto split: if_splits)
    have "e \<le> 1043" using False by simp
    then have pow: "(2 :: nat) ^ 1043 = 2 ^ (1043 - e) * 2 ^ e"
      using power_add [of "2 :: nat" "1043 - e" e] by (simp only: le_add_diff_inverse2)
    have "v * 2 ^ (1043 - e) \<le> s" unfolding veq by simp
    then have "v * 2 ^ (1043 - e) * 2 ^ e \<le> s * 2 ^ e" by (intro mult_le_mono1)
    moreover have "s < (v + 1) * 2 ^ (1043 - e)" unfolding veq using dividend_less_div_times [of "2 ^ (1043 - e)" s] by simp
    then have "s * 2 ^ e < (v + 1) * 2 ^ (1043 - e) * 2 ^ e" by (intro mult_strict_right_mono) simp_all
    ultimately show ?thesis unfolding pow by (simp only: mult.assoc)
  qed
  moreover have "bits < 2 ^ 63" using bits by (simp add: div_eq_0_iff)
  ultimately show ?thesis using v e e2 by simp
qed

lemma f64_is_floor_witness: "(6442450944 :: nat) * 2 ^ 1043 \<le> (2 ^ 52 + 2 ^ 51) * 2 ^ 1023"
proof -
  have "positive_f64_q32 4609434218613702656 = Inr 6442450944" by (simp add: positive_f64_q32_def)
  from f64_is_floor [OF this] show ?thesis by simp
qed

text \<open>\<^bold>\<open>C26.\<close>
  Exposure is the exact quotient rounded down, never more than the unscaled claim, and the only
  failures are arithmetic refusals: no input panics.\<close>

theorem exposure_is_floor:
  "fits {Native NatArithmetic} (exposure_q32_of sc raw numerator denominator bps) (\<lambda>v.
     v * (10 ^ sc_decimals sc * denominator * 10000) \<le> raw * sc_multiplier sc * numerator * bps \<and>
     raw * sc_multiplier sc * numerator * bps < (v + 1) * (10 ^ sc_decimals sc * denominator * 10000) \<and> v < 2 ^ 64 \<and>
     v * (10 ^ sc_decimals sc * denominator) \<le> raw * sc_multiplier sc * numerator)"
proof (cases "raw = 0 \<or> numerator = 0 \<or> denominator = 0 \<or> bps = 0 \<or> 10000 < bps")
  case True
  then show ?thesis by (simp add: exposure_q32_of_def)
next
  case False
  have opt: "fits {Native NatArithmetic} (or_fault m (Native NatArithmetic)) (\<lambda>x. m = Some x)" for m :: "nat option"
    by (cases m) simp_all
  show ?thesis
  proof (cases "2 ^ 128 \<le> (10 :: nat) ^ sc_decimals sc")
    case wide: False
    show ?thesis unfolding exposure_q32_of_def if_not_P [OF False] if_not_P [OF wide]
    proof (rule fits_bindR [OF opt], rule fits_bindR [OF opt], rule fits_bindR [OF opt], rule fits_bindR [OF opt], rule fits_bindR [OF opt], goal_cases)
      case (1 d0 d x0 x1 x)
      then have d: "d = 10 ^ sc_decimals sc * denominator * 10000" and x: "x = raw * sc_multiplier sc * numerator * bps"
        by (simp_all add: checked_mul_Some)
      have pos: "0 < d" using d False by simp
      have div: "div_w x d = Inr (x div d)" using pos by (simp add: div_w_ok)
      have le: "x div d * d \<le> x" "x < (x div d + 1) * d" using dividend_less_div_times [OF pos, of x] by simp_all
      have "x \<le> raw * sc_multiplier sc * numerator * 10000" unfolding x using False by (intro mult_le_mono2) simp
      then have "x div d * (10 ^ sc_decimals sc * denominator) * 10000 \<le> raw * sc_multiplier sc * numerator * 10000"
        using order_trans [OF le(1)] unfolding d by (simp only: mult.assoc)
      then have "x div d * (10 ^ sc_decimals sc * denominator) \<le> raw * sc_multiplier sc * numerator" by (rule mult_right_le_imp_le) simp
      then show ?case using le unfolding div bindR_simps d [symmetric] x [symmetric] by simp
    qed
  qed (simp add: exposure_q32_of_def)
qed

text \<open>What a transfer costs: at most the maximum, and the rate rounded up unless the maximum caps it.\<close>

lemma fee_net_bounds:
  assumes "fee_net fee amount = Inr n"
  shows "n \<le> amount" "amount - n \<le> tf_maximum fee" "amount - n = tf_maximum fee \<or> amount * tf_bps fee \<le> 10000 * (amount - n)"
proof -
  define c where "c = amount * tf_bps fee div 10000 + of_bool (amount * tf_bps fee mod 10000 \<noteq> 0)"
  have n: "min c (tf_maximum fee) \<le> amount" "n = amount - min c (tf_maximum fee)"
    using assms unfolding fee_net_def by (auto simp: monad_simps c_def simp del: of_bool_eq_iff split: if_splits)
  have "amount * tf_bps fee \<le> 10000 * c"
    using div_mult_mod_eq [of "amount * tf_bps fee" 10000] mod_less_divisor [of 10000 "amount * tf_bps fee"]
    unfolding c_def by (cases "amount * tf_bps fee mod 10000 = 0") simp_all
  then show "n \<le> amount" "amount - n \<le> tf_maximum fee" "amount - n = tf_maximum fee \<or> amount * tf_bps fee \<le> 10000 * (amount - n)"
    using n by (auto simp: min_def)
qed

lemma fee_net_fits:
  assumes "amount < 2 ^ 64" "tf_bps fee < 2 ^ 16"
  shows "fits native_faults (fee_net fee amount) (\<lambda>n. n \<le> amount)"
proof -
  have "amount * tf_bps fee < 2 ^ 64 * 2 ^ 16" using assms by (intro mult_strict_mono) simp_all
  then have m: "mul_w 128 amount (tf_bps fee) = Inr (amount * tf_bps fee)" by (intro mul_w_ok) simp
  show ?thesis unfolding fee_net_def m bindR_simps
    by (rule fits_mono [OF native_or_fits]) (auto simp: checked_sub_Some)
qed

end
