(* ===== verification/Surface.thy ===== *)
theory Surface
  imports Native
begin

text \<open>
  The sampled output surface of an opaque venue (\<open>native/src/surface.rs\<close>): a bounded list of knots,
  appended in input order or inserted between two neighbours, and linear interpolation between them.
  The array of the code is its used prefix \<open>knots[..len]\<close>, as a list.
\<close>

abbreviation MAX_KNOTS :: nat where
  "MAX_KNOTS \<equiv> 129"

record knot =
  kn_input :: nat
  kn_output :: nat
  kn_cu :: nat

record surface =
  sf_knots :: "knot list"
  sf_generation :: nat

definition surface_new :: "nat \<Rightarrow> surface" where
  "surface_new generation = \<lparr>sf_knots = [\<lparr>kn_input = 0, kn_output = 0, kn_cu = 0\<rparr>], sf_generation = generation\<rparr>"

definition surface_push :: "knot \<Rightarrow> surface \<Rightarrow> surface res" where
  "surface_push k s =
     (let ks = sf_knots s in
      if length ks = MAX_KNOTS \<or> kn_input k \<le> kn_input (last ks) \<or> kn_output k < kn_output (last ks) then nat_err NatUnsupported
      else Inr (s\<lparr>sf_knots := ks @ [k]\<rparr>))"

text \<open>\<open>partition_point\<close> on a list ordered by input: the index of the first knot not below.\<close>

definition knots_below :: "nat \<Rightarrow> knot list \<Rightarrow> nat" where
  "knots_below x ks = length (takeWhile (\<lambda>k. kn_input k < x) ks)"

definition insert_refinement :: "knot \<Rightarrow> surface \<Rightarrow> surface res" where
  "insert_refinement k s =
     (let ks = sf_knots s; i = knots_below (kn_input k) ks in
      if length ks = MAX_KNOTS \<or> i = 0 \<or> i = length ks \<or> kn_input (ks ! i) = kn_input k
         \<or> kn_output k < kn_output (ks ! (i - 1)) \<or> kn_output (ks ! i) < kn_output k then nat_err NatUnsupported
      else Inr (s\<lparr>sf_knots := insert_at i k ks\<rparr>))"

definition abs_diff :: "nat \<Rightarrow> nat \<Rightarrow> nat" where
  "abs_diff a b = (if a \<le> b then b - a else a - b)"

text \<open>The estimate on one segment, once the bracketing knots are known.\<close>

definition interpolate :: "knot \<Rightarrow> knot \<Rightarrow> nat \<Rightarrow> (nat \<times> nat) res" where
  "interpolate a b amount =
     bindR (sub_w (kn_output b) (kn_output a)) (\<lambda>rise. bindR (sub_w amount (kn_input a)) (\<lambda>run.
     bindR (mul_w 128 rise run) (\<lambda>x. bindR (sub_w (kn_input b) (kn_input a)) (\<lambda>span.
     bindR (div_w x span) (\<lambda>q. bindR (add_w 64 (kn_output a) (q mod 2 ^ 64)) (\<lambda>out.
     bindR (mul_w 128 (abs_diff (kn_cu a) (kn_cu b)) run) (\<lambda>y. bindR (div_w y span) (\<lambda>z.
     let delta = z mod 2 ^ 64 in
     bindR (or_fault (if kn_cu a \<le> kn_cu b then checked_add 64 (kn_cu a) delta else checked_sub (kn_cu a) delta) (Native NatArithmetic)) (\<lambda>cu.
     Inr (out, cu))))))))))"

definition surface_estimate :: "surface \<Rightarrow> nat \<Rightarrow> nat \<Rightarrow> (nat \<times> nat) res" where
  "surface_estimate s amount generation =
     (if generation \<noteq> sf_generation s then nat_err NatStale
      else
        let ks = sf_knots s; i = knots_below amount ks in
        if i = length ks then nat_err NatCapacity
        else if kn_input (ks ! i) = amount then Inr (kn_output (ks ! i), kn_cu (ks ! i))
        else if i = 0 then nat_err NatCapacity
        else interpolate (ks ! (i - 1)) (ks ! i) amount)"

text \<open>Where to sample next: the widest change of slope, weighted by the width of the interval.\<close>

definition knot_slope :: "knot \<Rightarrow> knot \<Rightarrow> nat res" where
  "knot_slope a b =
     bindR (sub_w (kn_output b) (kn_output a)) (\<lambda>rise. bindR (sub_w (kn_input b) (kn_input a)) (\<lambda>run.
     div_w (rise * 2 ^ 32) run))"

definition refine_step :: "knot list \<Rightarrow> nat \<times> nat \<Rightarrow> nat \<Rightarrow> (nat \<times> nat) res" where
  "refine_step ks best i =
     (let a = ks ! (i - 1); b = ks ! i in
      bindR (sub_w (kn_input b) (kn_input a)) (\<lambda>width.
      if width < 2 then Inr best
      else
        bindR (knot_slope a b) (\<lambda>here.
        bindR (if 1 < i then bindR (knot_slope (ks ! (i - 2)) a) (\<lambda>s. Inr (abs_diff here s)) else Inr 0) (\<lambda>left.
        bindR (if i + 1 < length ks then bindR (knot_slope b (ks ! (i + 1))) (\<lambda>s. Inr (abs_diff here s)) else Inr 0) (\<lambda>right.
        let priority = min (max left right * width) (2 ^ 128 - 1) in
        if fst best < priority then bindR (add_w 64 (kn_input a) (width div 2)) (\<lambda>x. Inr (priority, x)) else Inr best)))))"

fun refine_scan :: "knot list \<Rightarrow> nat \<times> nat \<Rightarrow> nat list \<Rightarrow> (nat \<times> nat) res" where
  "refine_scan ks best [] = Inr best"
| "refine_scan ks best (i # is) = bindR (refine_step ks best i) (\<lambda>best. refine_scan ks best is)"

definition refinement_input :: "surface \<Rightarrow> nat option res" where
  "refinement_input s =
     (let ks = sf_knots s in
      if length ks = MAX_KNOTS \<or> length ks < 3 then Inr None
      else bindR (refine_scan ks (0, 0) [1..<length ks]) (\<lambda>best. Inr (if 0 < fst best then Some (snd best) else None)))"

section \<open>Invariant\<close>

definition knot_fits :: "knot \<Rightarrow> bool" where
  "knot_fits k \<longleftrightarrow> kn_input k < 2 ^ 64 \<and> kn_output k < 2 ^ 64 \<and> kn_cu k < 2 ^ 64"

definition knot_before :: "knot \<Rightarrow> knot \<Rightarrow> bool" where
  "knot_before a b \<longleftrightarrow> kn_input a < kn_input b \<and> kn_output a \<le> kn_output b"

definition knots_ok :: "knot list \<Rightarrow> bool" where
  "knots_ok ks \<longleftrightarrow> ks \<noteq> [] \<and> length ks \<le> MAX_KNOTS \<and> kn_input (hd ks) = 0 \<and> sorted_wrt knot_before ks \<and> list_all knot_fits ks"

text \<open>The surfaces a client can build.\<close>

inductive sampled :: "surface \<Rightarrow> bool" where
  new: "sampled (surface_new generation)"
| push: "sampled s \<Longrightarrow> knot_fits k \<Longrightarrow> surface_push k s = Inr s' \<Longrightarrow> sampled s'"
| refine: "sampled s \<Longrightarrow> knot_fits k \<Longrightarrow> insert_refinement k s = Inr s' \<Longrightarrow> sampled s'"

lemma knot_before_trans: "knot_before a b \<Longrightarrow> knot_before b c \<Longrightarrow> knot_before a c"
  by (simp add: knot_before_def)

lemma knots_nth: "knots_ok ks \<Longrightarrow> i < j \<Longrightarrow> j < length ks \<Longrightarrow> knot_before (ks ! i) (ks ! j)"
  by (simp add: knots_ok_def sorted_wrt_iff_nth_less)

lemma knots_nth_fits: "knots_ok ks \<Longrightarrow> i < length ks \<Longrightarrow> knot_fits (ks ! i)"
  by (simp add: knots_ok_def list_all_length)

lemma knots_below_le: "knots_below x ks \<le> length ks"
  by (simp add: knots_below_def length_takeWhile_le)

lemma knots_below_low: "i < knots_below x ks \<Longrightarrow> kn_input (ks ! i) < x"
  using nth_mem [of i "takeWhile (\<lambda>k. kn_input k < x) ks"] set_takeWhileD takeWhile_nth unfolding knots_below_def by metis

lemma knots_below_high: "knots_below x ks < length ks \<Longrightarrow> x \<le> kn_input (ks ! knots_below x ks)"
  using nth_length_takeWhile [of "\<lambda>k. kn_input k < x" ks] unfolding knots_below_def by simp

lemma knots_below_mono: "x \<le> y \<Longrightarrow> knots_below x ks \<le> knots_below y ks"
  unfolding knots_below_def by (induction ks) auto

lemma knots_ok_push: "knots_ok (sf_knots s) \<Longrightarrow> knot_fits k \<Longrightarrow> surface_push k s = Inr s' \<Longrightarrow> knots_ok (sf_knots s')"
proof -
  assume ok: "knots_ok (sf_knots s)" and fits: "knot_fits k" and "surface_push k s = Inr s'"
  then have new: "sf_knots s' = sf_knots s @ [k]" "length (sf_knots s) \<noteq> MAX_KNOTS" and last: "knot_before (last (sf_knots s)) k"
    by (auto simp: surface_push_def Let_def knot_before_def split: if_splits)
  have "knot_before a k" if a: "a \<in> set (sf_knots s)" for a
  proof -
    obtain i where i: "i < length (sf_knots s)" "a = sf_knots s ! i" using a by (auto simp: in_set_conv_nth)
    have "a = last (sf_knots s) \<or> knot_before a (last (sf_knots s))"
      using i knots_nth [OF ok, of i "length (sf_knots s) - 1"] ok by (cases "i = length (sf_knots s) - 1") (auto simp: knots_ok_def last_conv_nth)
    then show ?thesis using last knot_before_trans by blast
  qed
  then show "knots_ok (sf_knots s')" using ok fits new by (auto simp: knots_ok_def sorted_wrt_append)
qed

lemma knots_ok_insert: "knots_ok (sf_knots s) \<Longrightarrow> knot_fits k \<Longrightarrow> insert_refinement k s = Inr s' \<Longrightarrow> knots_ok (sf_knots s')"
proof -
  let ?ks = "sf_knots s" let ?i = "knots_below (kn_input k) ?ks"
  assume ok: "knots_ok ?ks" and fits: "knot_fits k" and "insert_refinement k s = Inr s'"
  then have new: "sf_knots s' = insert_at ?i k ?ks" "length ?ks \<noteq> MAX_KNOTS" and i: "?i \<noteq> 0" "?i \<noteq> length ?ks"
    and k: "kn_input (?ks ! ?i) \<noteq> kn_input k" "kn_output (?ks ! (?i - 1)) \<le> kn_output k" "kn_output k \<le> kn_output (?ks ! ?i)"
    by (auto simp: insert_refinement_def Let_def split: if_splits)
  have ilt: "?i < length ?ks" using i knots_below_le [of "kn_input k" ?ks] by simp
  have high: "knot_before k (?ks ! ?i)" using knots_below_high [OF ilt] k by (simp add: knot_before_def)
  have low: "knot_before (?ks ! (?i - 1)) k" using knots_below_low [of "?i - 1" "kn_input k" ?ks] i k by (simp add: knot_before_def)
  have "knot_before (?ks ! j) k" if "j < ?i" for j
    using low knot_before_trans [OF knots_nth [OF ok, of j "?i - 1"] low] that ilt by (cases "j = ?i - 1") simp_all
  moreover have "knot_before k (?ks ! j)" if "?i \<le> j" "j < length ?ks" for j
    using high knot_before_trans [OF high knots_nth [OF ok, of ?i j]] that by (cases "j = ?i") simp_all
  ultimately have "sorted_wrt knot_before (insert_at ?i k ?ks)"
    using knots_nth [OF ok] ilt unfolding sorted_wrt_iff_nth_less by (auto simp: nth_insert_at less_imp_le_nat)
  moreover have "list_all knot_fits (insert_at ?i k ?ks)"
    using ok fits by (auto simp: knots_ok_def insert_at_def list_all_iff dest: in_set_takeD in_set_dropD)
  moreover have "hd (insert_at ?i k ?ks) = hd ?ks" using i ok by (cases ?ks; cases ?i) (simp_all add: insert_at_def knots_ok_def)
  ultimately show "knots_ok (sf_knots s')" using ok new ilt by (simp add: knots_ok_def)
qed

lemma sampled_ok: "sampled s \<Longrightarrow> knots_ok (sf_knots s)"
proof (induction rule: sampled.induct)
  case (new generation)
  show ?case by (simp add: surface_new_def knots_ok_def knot_fits_def)
qed (blast intro: knots_ok_push knots_ok_insert)+

section \<open>Estimates\<close>

text \<open>Linear interpolation, rounded down.\<close>

definition lerp :: "nat \<Rightarrow> nat \<Rightarrow> nat \<Rightarrow> nat \<Rightarrow> nat" where
  "lerp lo rise run span = lo + rise * run div span"

lemma lerp_le: "run \<le> span \<Longrightarrow> lerp lo rise run span \<le> lo + rise"
proof -
  assume "run \<le> span"
  then have "rise * run div span \<le> rise * span div span" by (intro div_le_mono mult_le_mono2)
  then show ?thesis unfolding lerp_def by (cases "span = 0") simp_all
qed

lemma lerp_mono: "run \<le> run' \<Longrightarrow> lerp lo rise run span \<le> lerp lo rise run' span"
  unfolding lerp_def by (intro add_left_mono div_le_mono mult_le_mono2)

lemma abs_diff_less: "a < n \<Longrightarrow> b < n \<Longrightarrow> abs_diff a b < n"
  by (auto simp: abs_diff_def)

lemma interpolate_value:
  assumes "knot_fits a" "knot_fits b" "knot_before a b" "kn_input a \<le> amount" "amount \<le> kn_input b"
  shows "\<exists>cu. interpolate a b amount = Inr (lerp (kn_output a) (kn_output b - kn_output a) (amount - kn_input a) (kn_input b - kn_input a), cu)
    \<and> min (kn_cu a) (kn_cu b) \<le> cu \<and> cu \<le> max (kn_cu a) (kn_cu b)"
proof -
  let ?rise = "kn_output b - kn_output a" let ?run = "amount - kn_input a" let ?span = "kn_input b - kn_input a"
  let ?d = "abs_diff (kn_cu a) (kn_cu b)"
  have run: "?run \<le> ?span" "?run < 2 ^ 64" "?span \<noteq> 0" using assms by (auto simp: knot_fits_def knot_before_def)
  have fits: "?rise < 2 ^ 64" "?d < 2 ^ 64" "kn_output b < 2 ^ 64" using assms abs_diff_less by (auto simp: knot_fits_def)
  have wide: "x * ?run < 2 ^ 128" if "x < 2 ^ 64" for x
  proof -
    have "x * ?run < 2 ^ 64 * 2 ^ 64" using that run by (intro mult_strict_mono) simp_all
    then show ?thesis by simp
  qed
  have part: "x * ?run div ?span \<le> x" for x using lerp_le [OF run(1), of 0 x] by (simp add: lerp_def)
  have small: "x * ?run div ?span mod 2 ^ 64 = x * ?run div ?span" if "x < 2 ^ 64" for x
    using part [of x] that by (intro mod_less) (rule le_less_trans)
  have out: "kn_output a + ?rise * ?run div ?span < 2 ^ 64" using part [of ?rise] fits assms(3) by (auto simp: knot_before_def)
  let ?delta = "?d * ?run div ?span"
  obtain cu where cu: "(if kn_cu a \<le> kn_cu b then checked_add 64 (kn_cu a) ?delta else checked_sub (kn_cu a) ?delta) = Some cu"
    "min (kn_cu a) (kn_cu b) \<le> cu" "cu \<le> max (kn_cu a) (kn_cu b)"
  proof (cases "kn_cu a \<le> kn_cu b")
    case True
    then have "kn_cu a + ?delta \<le> kn_cu b" using part [of ?d] by (simp add: abs_diff_def)
    then show ?thesis using True assms(2) by (intro that [of "kn_cu a + ?delta"]) (simp_all add: checked_add_def knot_fits_def)
  next
    case False
    then have "?delta \<le> kn_cu a - kn_cu b" using part [of ?d] by (simp add: abs_diff_def)
    then show ?thesis using False by (intro that [of "kn_cu a - ?delta"]) (simp_all add: checked_sub_def)
  qed
  have "interpolate a b amount = Inr (lerp (kn_output a) ?rise ?run ?span, cu)"
    unfolding interpolate_def Let_def
    using assms(3,4) sub_w_ok [of "kn_input a" "kn_input b"] sub_w_ok [of "kn_output a" "kn_output b"] sub_w_ok [OF assms(4)]
      mul_w_ok [OF wide [OF fits(1)]] mul_w_ok [OF wide [OF fits(2)]] add_w_ok [OF out]
    by (simp only: knot_before_def bindR_simps div_w_ok [OF run(3)] small [OF fits(1)] small [OF fits(2)] cu(1) or_fault_simps
      lerp_def less_imp_le)
  then show ?thesis using cu(2,3) by blast
qed

text \<open>The output estimate as a function of the amount: exact at a knot, linear in between.\<close>

definition line_at :: "knot list \<Rightarrow> nat \<Rightarrow> nat \<Rightarrow> nat" where
  "line_at ks i x =
     (if i = 0 then kn_output (ks ! 0)
      else lerp (kn_output (ks ! (i - 1))) (kn_output (ks ! i) - kn_output (ks ! (i - 1))) (x - kn_input (ks ! (i - 1)))
             (kn_input (ks ! i) - kn_input (ks ! (i - 1))))"

lemma estimate_value:
  assumes ok: "knots_ok (sf_knots s)" and x: "amount \<le> kn_input (last (sf_knots s))"
  defines "i \<equiv> knots_below amount (sf_knots s)"
  shows "i < length (sf_knots s) \<and> (\<exists>cu. surface_estimate s amount (sf_generation s) = Inr (line_at (sf_knots s) i amount, cu)
    \<and> min (kn_cu (sf_knots s ! (i - 1))) (kn_cu (sf_knots s ! i)) \<le> cu \<and> cu \<le> max (kn_cu (sf_knots s ! (i - 1))) (kn_cu (sf_knots s ! i)))"
proof -
  let ?ks = "sf_knots s"
  have ne: "?ks \<noteq> []" using ok by (simp add: knots_ok_def)
  have i: "i < length ?ks"
  proof (rule ccontr)
    assume "\<not> i < length ?ks"
    then have "length ?ks - 1 < knots_below amount ?ks" using ne unfolding i_def by (cases ?ks) simp_all
    then have "kn_input (?ks ! (length ?ks - 1)) < amount" by (rule knots_below_low)
    then show False using x ne by (simp add: last_conv_nth)
  qed
  have le: "amount \<le> kn_input (?ks ! i)" using knots_below_high i unfolding i_def by blast
  show ?thesis
  proof (cases "i = 0")
    case True
    then have "kn_input (?ks ! i) = amount" using le ok hd_conv_nth [OF ne] by (simp add: knots_ok_def)
    then show ?thesis using i True by (simp add: surface_estimate_def Let_def i_def [symmetric] line_at_def)
  next
    case False
    have low: "kn_input (?ks ! (i - 1)) < amount" using False unfolding i_def by (intro knots_below_low) simp
    have kb: "knot_before (?ks ! (i - 1)) (?ks ! i)" using knots_nth [OF ok, of "i - 1" i] False i by simp
    show ?thesis
    proof (cases "kn_input (?ks ! i) = amount")
      case True
      then have "line_at ?ks i amount = kn_output (?ks ! i)" using False kb low by (simp add: line_at_def lerp_def knot_before_def)
      then show ?thesis using i True by (simp add: surface_estimate_def Let_def i_def [symmetric])
    next
      case inside: False
      have "surface_estimate s amount (sf_generation s) = interpolate (?ks ! (i - 1)) (?ks ! i) amount"
        using i inside False by (simp add: surface_estimate_def Let_def i_def [symmetric])
      then show ?thesis
        using i False interpolate_value [OF knots_nth_fits [OF ok, of "i - 1"] knots_nth_fits [OF ok i] kb less_imp_le [OF low] le]
        by (simp add: line_at_def)
    qed
  qed
qed

lemma line_bounds:
  assumes ok: "knots_ok ks" and x: "x \<le> kn_input (ks ! i)" "i < length ks"
  shows "line_at ks i x \<le> kn_output (ks ! i)" "kn_output (ks ! (i - 1)) \<le> line_at ks i x"
proof -
  have kb: "knot_before (ks ! (i - 1)) (ks ! i)" if "i \<noteq> 0" using knots_nth [OF ok, of "i - 1" i] that x by simp
  show "line_at ks i x \<le> kn_output (ks ! i)"
    using kb lerp_le [OF diff_le_mono [OF x(1), of "kn_input (ks ! (i - 1))"], where lo = "kn_output (ks ! (i - 1))"
      and rise = "kn_output (ks ! i) - kn_output (ks ! (i - 1))"]
    by (auto simp: line_at_def knot_before_def)
  show "kn_output (ks ! (i - 1)) \<le> line_at ks i x" by (simp add: line_at_def lerp_def)
qed

lemma line_mono:
  assumes ok: "knots_ok ks" and xy: "x \<le> y" "y \<le> kn_input (last ks)"
    and len: "knots_below x ks < length ks" "knots_below y ks < length ks"
  shows "line_at ks (knots_below x ks) x \<le> line_at ks (knots_below y ks) y"
proof (cases "knots_below x ks = knots_below y ks")
  case True
  then show ?thesis using xy(1) by (simp add: line_at_def lerp_mono)
next
  case False
  then have less: "knots_below x ks < knots_below y ks" using knots_below_mono [OF xy(1), of ks] by simp
  have "line_at ks (knots_below x ks) x \<le> kn_output (ks ! knots_below x ks)"
    by (rule line_bounds(1) [OF ok knots_below_high [OF len(1)] len(1)])
  also have "\<dots> \<le> kn_output (ks ! (knots_below y ks - 1))"
    using knots_nth [OF ok, of "knots_below x ks" "knots_below y ks - 1"] less len
    by (cases "knots_below x ks = knots_below y ks - 1") (simp_all add: knot_before_def)
  also have "\<dots> \<le> line_at ks (knots_below y ks) y" by (rule line_bounds(2) [OF ok knots_below_high [OF len(2)] len(2)])
  finally show ?thesis .
qed

lemma knots_below_nth: "knots_ok ks \<Longrightarrow> j < length ks \<Longrightarrow> knots_below (kn_input (ks ! j)) ks = j"
proof -
  assume ok: "knots_ok ks" and j: "j < length ks"
  let ?i = "knots_below (kn_input (ks ! j)) ks"
  have "\<not> ?i < j" using knots_below_high [of "kn_input (ks ! j)" ks] knots_nth [OF ok, of ?i j] j by (auto simp: knot_before_def)
  moreover have "\<not> j < ?i" using knots_below_low [of j "kn_input (ks ! j)" ks] by auto
  ultimately show ?thesis by simp
qed

lemma knots_last:
  assumes "knots_ok ks" "i < length ks"
  shows "kn_input (ks ! i) \<le> kn_input (last ks)" "kn_output (ks ! i) \<le> kn_output (last ks)"
proof -
  have "ks \<noteq> []" using assms(2) by auto
  then have "i = length ks - 1 \<or> knot_before (ks ! i) (last ks)"
    using knots_nth [OF assms(1), of i "length ks - 1"] assms(2) by (cases "i = length ks - 1") (simp_all add: last_conv_nth)
  then show "kn_input (ks ! i) \<le> kn_input (last ks)" "kn_output (ks ! i) \<le> kn_output (last ks)"
    using \<open>ks \<noteq> []\<close> by (auto simp: knot_before_def last_conv_nth)
qed

lemma estimate_capacity:
  assumes "knots_ok (sf_knots s)" "kn_input (last (sf_knots s)) < amount"
  shows "surface_estimate s amount (sf_generation s) = nat_err NatCapacity"
proof -
  let ?ks = "sf_knots s" let ?i = "knots_below amount ?ks"
  have "?i = length ?ks"
  proof (rule ccontr)
    assume "?i \<noteq> length ?ks"
    then have i: "?i < length ?ks" using knots_below_le [of amount ?ks] by simp
    have "kn_input (?ks ! ?i) \<le> kn_input (last ?ks)"
      by (rule knots_last(1) [OF assms(1) i])
    then show False using knots_below_high [OF i] assms(2) by simp
  qed
  then show ?thesis by (simp add: surface_estimate_def Let_def)
qed

lemma estimate_at_knot:
  "knots_ok (sf_knots s) \<Longrightarrow> k \<in> set (sf_knots s) \<Longrightarrow> surface_estimate s (kn_input k) (sf_generation s) = Inr (kn_output k, kn_cu k)"
  by (auto simp: in_set_conv_nth surface_estimate_def Let_def knots_below_nth)

text \<open>The estimates of a sampled surface: another generation is stale, an amount past the last knot is out of
  capacity, and between them every amount has an estimate that never decreases with the amount, is exact
  at each knot and never exceeds the largest sample. Nothing panics and no estimate overflows.\<close>

theorem surface_estimate_monotone:
  assumes "sampled s"
  shows "(generation \<noteq> sf_generation s \<longrightarrow> surface_estimate s x generation = nat_err NatStale)
    \<and> (kn_input (last (sf_knots s)) < x \<longrightarrow> surface_estimate s x (sf_generation s) = nat_err NatCapacity)
    \<and> (x \<le> y \<and> y \<le> kn_input (last (sf_knots s)) \<longrightarrow>
         (\<exists>u v c d. surface_estimate s x (sf_generation s) = Inr (u, c) \<and> surface_estimate s y (sf_generation s) = Inr (v, d)
            \<and> u \<le> v \<and> v \<le> kn_output (last (sf_knots s))))
    \<and> (\<forall>k \<in> set (sf_knots s). surface_estimate s (kn_input k) (sf_generation s) = Inr (kn_output k, kn_cu k))"
proof (intro conjI impI)
  let ?ks = "sf_knots s"
  have ok: "knots_ok ?ks" using assms by (rule sampled_ok)
  show "surface_estimate s x generation = nat_err NatStale" if "generation \<noteq> sf_generation s"
    using that by (simp add: surface_estimate_def)
  show "surface_estimate s x (sf_generation s) = nat_err NatCapacity" if "kn_input (last ?ks) < x"
    by (rule estimate_capacity [OF ok that])
  show "\<forall>k \<in> set ?ks. surface_estimate s (kn_input k) (sf_generation s) = Inr (kn_output k, kn_cu k)"
    using estimate_at_knot [OF ok] by blast
  assume xy: "x \<le> y \<and> y \<le> kn_input (last ?ks)"
  then have x: "x \<le> kn_input (last ?ks)" by simp
  note ex = estimate_value [OF ok x] and ey = estimate_value [OF ok conjunct2 [OF xy]]
  have mono: "line_at ?ks (knots_below x ?ks) x \<le> line_at ?ks (knots_below y ?ks) y"
    using xy ex ey by (intro line_mono [OF ok]) blast+
  have len: "knots_below y ?ks < length ?ks" using ey by blast
  have "line_at ?ks (knots_below y ?ks) y \<le> kn_output (?ks ! knots_below y ?ks)"
    by (rule line_bounds(1) [OF ok knots_below_high [OF len] len])
  also have "\<dots> \<le> kn_output (last ?ks)"
    by (rule knots_last(2) [OF ok len])
  finally show "\<exists>u v c d. surface_estimate s x (sf_generation s) = Inr (u, c) \<and> surface_estimate s y (sf_generation s) = Inr (v, d)
            \<and> u \<le> v \<and> v \<le> kn_output (last ?ks)"
    using ex ey mono by blast
qed

definition demo_surface :: surface where
  "demo_surface = \<lparr>sf_knots = [\<lparr>kn_input = 0, kn_output = 0, kn_cu = 0\<rparr>, \<lparr>kn_input = 100, kn_output = 90, kn_cu = 50\<rparr>,
     \<lparr>kn_input = 300, kn_output = 200, kn_cu = 70\<rparr>], sf_generation = 4\<rparr>"

lemma demo_surface_sampled: "sampled demo_surface"
proof -
  let ?a = "\<lparr>kn_input = 100, kn_output = 90, kn_cu = 50\<rparr>" let ?b = "\<lparr>kn_input = 300, kn_output = 200, kn_cu = 70\<rparr>"
  let ?s = "\<lparr>sf_knots = [\<lparr>kn_input = 0, kn_output = 0, kn_cu = 0\<rparr>, ?b], sf_generation = 4\<rparr>"
  have "sampled ?s" by (rule push [OF new [of 4], of ?b]) (simp_all add: knot_fits_def surface_push_def surface_new_def)
  then show ?thesis
    by (rule refine [of _ ?a])
      (simp_all add: knot_fits_def insert_refinement_def knots_below_def insert_at_def demo_surface_def)
qed

lemma surface_estimate_monotone_witness:
  "surface_estimate demo_surface 150 3 = nat_err NatStale \<and> surface_estimate demo_surface 301 4 = nat_err NatCapacity
   \<and> surface_estimate demo_surface 100 4 = Inr (90, 50)
   \<and> (\<exists>u v c d. surface_estimate demo_surface 50 4 = Inr (u, c) \<and> surface_estimate demo_surface 150 4 = Inr (v, d) \<and> u \<le> v \<and> v \<le> 200)"
  using surface_estimate_monotone [OF demo_surface_sampled, of 3 150 150] surface_estimate_monotone [OF demo_surface_sampled, of 3 301 301]
    surface_estimate_monotone [OF demo_surface_sampled, of 3 50 150]
  by (simp add: demo_surface_def)

section \<open>Refinement\<close>

text \<open>A point strictly inside a gap between neighbouring knots.\<close>

definition in_gap :: "knot list \<Rightarrow> nat \<Rightarrow> nat \<Rightarrow> bool" where
  "in_gap ks i x \<longleftrightarrow> Suc i < length ks \<and> kn_input (ks ! i) < x \<and> x < kn_input (ks ! Suc i)"

definition best_ok :: "knot list \<Rightarrow> nat \<times> nat \<Rightarrow> bool" where
  "best_ok ks best \<longleftrightarrow> (0 < fst best \<longrightarrow> (\<exists>i. in_gap ks i (snd best)))"

lemma knot_slope_fits: "knot_before a b \<Longrightarrow> fits {} (knot_slope a b) (\<lambda>_. True)"
  by (simp add: knot_slope_def knot_before_def sub_w_ok div_w_ok)

lemma refine_step_fits:
  assumes ok: "knots_ok ks" and i: "0 < i" "i < length ks" and best: "best_ok ks best"
  shows "fits {} (refine_step ks best i) (best_ok ks)"
proof -
  let ?a = "ks ! (i - 1)" let ?b = "ks ! i"
  have kb: "knot_before ?a ?b" using knots_nth [OF ok, of "i - 1" i] i by simp
  have width: "sub_w (kn_input ?b) (kn_input ?a) = Inr (kn_input ?b - kn_input ?a)" using kb by (simp add: knot_before_def sub_w_ok)
  have mid: "add_w 64 (kn_input ?a) ((kn_input ?b - kn_input ?a) div 2) = Inr (kn_input ?a + (kn_input ?b - kn_input ?a) div 2)"
  proof (rule add_w_ok)
    have "kn_input ?a + (kn_input ?b - kn_input ?a) div 2 \<le> kn_input ?b" using kb by (auto simp: knot_before_def)
    then show "kn_input ?a + (kn_input ?b - kn_input ?a) div 2 < 2 ^ 64"
      using knots_nth_fits [OF ok i(2)] unfolding knot_fits_def by (blast intro: le_less_trans)
  qed
  have gap: "in_gap ks (i - 1) (kn_input ?a + (kn_input ?b - kn_input ?a) div 2)" if "\<not> kn_input ?b - kn_input ?a < 2"
    using that i by (simp add: in_gap_def)
  have left: "fits {} (if 1 < i then bindR (knot_slope (ks ! (i - 2)) ?a) (\<lambda>s. Inr (abs_diff here s)) else Inr 0) (\<lambda>_. True)" for here
    using fits_bindR [OF knot_slope_fits [OF knots_nth [OF ok, of "i - 2" "i - 1"]], of "\<lambda>s. Inr (abs_diff here s)" "\<lambda>_. True"] i by simp
  have right: "fits {} (if i + 1 < length ks then bindR (knot_slope ?b (ks ! (i + 1))) (\<lambda>s. Inr (abs_diff here s)) else Inr 0) (\<lambda>_. True)" for here
    using fits_bindR [OF knot_slope_fits [OF knots_nth [OF ok, of i "i + 1"]], of "\<lambda>s. Inr (abs_diff here s)" "\<lambda>_. True"] by simp
  show ?thesis
  proof (cases "kn_input ?b - kn_input ?a < 2")
    case True
    show ?thesis unfolding refine_step_def Let_def width bindR_simps if_P [OF True] using best by simp
  next
    case False
    show ?thesis unfolding refine_step_def Let_def width bindR_simps if_not_P [OF False] mid
    proof (rule fits_bindR [OF knot_slope_fits [OF kb]], rule fits_bindR [OF left], rule fits_bindR [OF right], goal_cases)
      case 1
      then show ?case using best gap [OF False] by (auto simp: best_ok_def)
    qed
  qed
qed

lemma refine_scan_fits:
  assumes "knots_ok ks" "\<forall>i \<in> set is. 0 < i \<and> i < length ks" "best_ok ks best"
  shows "fits {} (refine_scan ks best is) (best_ok ks)"
  using assms
proof (induction "is" arbitrary: best)
  case (Cons i "is")
  then show ?case unfolding refine_scan.simps
    by (intro fits_bindR [OF refine_step_fits]) simp_all
qed simp

lemma gap_insert:
  assumes ok: "knots_ok (sf_knots s)" and gap: "in_gap (sf_knots s) i (kn_input k)" and room: "length (sf_knots s) \<noteq> MAX_KNOTS"
    and between: "kn_output (sf_knots s ! i) \<le> kn_output k" "kn_output k \<le> kn_output (sf_knots s ! Suc i)"
  shows "insert_refinement k s = Inr (s\<lparr>sf_knots := insert_at (Suc i) k (sf_knots s)\<rparr>)"
proof -
  let ?ks = "sf_knots s"
  have "knots_below (kn_input (?ks ! Suc i)) ?ks = Suc i" "knots_below (kn_input (?ks ! i)) ?ks = i"
    using gap ok by (simp_all add: in_gap_def knots_below_nth)
  then have le: "i \<le> knots_below (kn_input k) ?ks" "knots_below (kn_input k) ?ks \<le> Suc i"
    using gap knots_below_mono unfolding in_gap_def by (metis less_imp_le)+
  have "knots_below (kn_input k) ?ks \<noteq> i"
    using knots_below_high [of "kn_input k" ?ks] gap by (auto simp: in_gap_def)
  then have "knots_below (kn_input k) ?ks = Suc i" using le by simp
  then show ?thesis using gap room between by (simp add: insert_refinement_def Let_def in_gap_def)
qed

text \<open>Choosing the next sample never panics, and a chosen amount lies strictly between two neighbouring
  knots of a surface with room: any sample taken there whose output lies between theirs is inserted
  between them, so every refinement shortens a gap.\<close>

theorem surface_refines:
  assumes "sampled s"
  shows "fits {} (refinement_input s) (\<lambda>next. \<forall>x. next = Some x \<longrightarrow> (\<exists>i. in_gap (sf_knots s) i x \<and>
    (\<forall>k. kn_input k = x \<and> kn_output (sf_knots s ! i) \<le> kn_output k \<and> kn_output k \<le> kn_output (sf_knots s ! Suc i) \<longrightarrow>
       insert_refinement k s = Inr (s\<lparr>sf_knots := insert_at (Suc i) k (sf_knots s)\<rparr>))))"
proof (cases "length (sf_knots s) = MAX_KNOTS \<or> length (sf_knots s) < 3")
  case True
  then show ?thesis by (simp add: refinement_input_def Let_def)
next
  case False
  have ok: "knots_ok (sf_knots s)" using assms by (rule sampled_ok)
  show ?thesis unfolding refinement_input_def Let_def if_not_P [OF False]
  proof (rule fits_bindR [OF refine_scan_fits [OF ok]], goal_cases)
    case (3 best)
    then show ?case using gap_insert [OF ok] False by (auto simp: best_ok_def)
  qed (simp_all add: best_ok_def)
qed

lemma surface_refines_witness:
  "refinement_input demo_surface = Inr (Some 200) \<and> (\<exists>i. in_gap (sf_knots demo_surface) i 200)"
proof -
  have "refinement_input demo_surface = Inr (Some 200)" by code_simp
  then show ?thesis using surface_refines [OF demo_surface_sampled] by auto
qed

end
