(* ===== verification/Memo.thy ===== *)
theory Memo
  imports Native "HOL-Library.Word"
begin

unbundle bit_operations_syntax

text \<open>
  The quote memo of a worker (\<open>native/src/memo.rs\<close>): an open-addressing table of 4096 entries probed at
  most 16 times, cleared by moving to a new epoch when the namespace changes. The closure that
  evaluates a missing quote is its result; a panicking closure stores nothing.
\<close>

abbreviation MEMO_CAPACITY :: nat where
  "MEMO_CAPACITY \<equiv> 4096"

abbreviation PROBES :: nat where
  "PROBES \<equiv> 16"

record memo_entry =
  me_epoch :: nat
  me_input :: nat
  me_edge :: nat
  me_value :: "nat res"

record quote_memo =
  qm_entries :: "memo_entry list"
  qm_namespace :: "nat list option"
  qm_epoch :: nat
  qm_hits :: nat
  qm_evaluations :: nat
  qm_fallbacks :: nat

definition memo_default :: quote_memo where
  "memo_default =
     \<lparr>qm_entries = replicate MEMO_CAPACITY \<lparr>me_epoch = 0, me_input = 0, me_edge = 0, me_value = nat_err NatCapacity\<rparr>,
      qm_namespace = None, qm_epoch = 0, qm_hits = 0, qm_evaluations = 0, qm_fallbacks = 0\<rparr>"

definition memo_begin :: "nat list \<Rightarrow> quote_memo \<Rightarrow> quote_memo" where
  "memo_begin namespace m =
     (let m = m\<lparr>qm_hits := 0, qm_evaluations := 0, qm_fallbacks := 0\<rparr> in
      if qm_namespace m \<noteq> Some namespace then
        (case checked_add 64 (qm_epoch m) 1 of
           Some e \<Rightarrow> m\<lparr>qm_namespace := Some namespace, qm_epoch := e\<rparr>
         | None \<Rightarrow> m\<lparr>qm_namespace := Some namespace, qm_entries := map (\<lambda>e. e\<lparr>me_epoch := 0\<rparr>) (qm_entries m), qm_epoch := 1\<rparr>)
      else m)"

text \<open>The hash wraps at 64 bits.\<close>

definition memo_slot :: "nat \<Rightarrow> nat \<Rightarrow> nat" where
  "memo_slot edge amount =
     (let x = (word_of_nat amount :: 64 word) XOR (word_of_nat edge * 0x9e3779b97f4a7c15);
          x = (x XOR drop_bit 30 x) * 0xbf58476d1ce4e5b9;
          x = (x XOR drop_bit 27 x) * 0x94d049bb133111eb;
          x = x XOR drop_bit 31 x
      in unat (x AND 4095))"

definition count_hit :: "(quote_memo, unit) comp" where
  "count_hit m = (case add_w 64 (qm_hits m) 1 of Inl e \<Rightarrow> (Inl e, m) | Inr n \<Rightarrow> (Inr (), m\<lparr>qm_hits := n\<rparr>))"

definition count_evaluation :: "(quote_memo, unit) comp" where
  "count_evaluation m = (case add_w 64 (qm_evaluations m) 1 of Inl e \<Rightarrow> (Inl e, m) | Inr n \<Rightarrow> (Inr (), m\<lparr>qm_evaluations := n\<rparr>))"

definition count_fallback :: "(quote_memo, unit) comp" where
  "count_fallback m = (case add_w 64 (qm_fallbacks m) 1 of Inl e \<Rightarrow> (Inl e, m) | Inr n \<Rightarrow> (Inr (), m\<lparr>qm_fallbacks := n\<rparr>))"

definition memo_store :: "nat \<Rightarrow> nat \<Rightarrow> nat \<Rightarrow> nat res \<Rightarrow> (quote_memo, nat) comp" where
  "memo_store i edge amount f m =
     (if f = Inl Panic then (f, m)
      else (f, m\<lparr>qm_entries := (qm_entries m)[i := \<lparr>me_epoch = qm_epoch m, me_input = amount, me_edge = edge mod 256, me_value = f\<rparr>]\<rparr>))"

fun memo_probe :: "nat list \<Rightarrow> nat \<Rightarrow> nat \<Rightarrow> nat \<Rightarrow> nat res \<Rightarrow> (quote_memo, nat) comp" where
  "memo_probe [] start edge amount f m = bindS count_fallback (\<lambda>_. bindS count_evaluation (\<lambda>_. liftR f)) m"
| "memo_probe (p # ps) start edge amount f m =
     (let i = (start + p) mod MEMO_CAPACITY; e = qm_entries m ! i in
      if me_epoch e \<noteq> qm_epoch m then bindS count_evaluation (\<lambda>_. memo_store i edge amount f) m
      else if me_input e = amount \<and> me_edge e = edge mod 256 then bindS count_hit (\<lambda>_. liftR (me_value e)) m
      else memo_probe ps start edge amount f m)"

definition memo_quote :: "nat \<Rightarrow> nat \<Rightarrow> nat res \<Rightarrow> (quote_memo, nat) comp" where
  "memo_quote edge amount f m =
     (if qm_namespace m = None \<or> 8 \<le> edge then (nat_err NatLayout, m)
      else memo_probe [0..<PROBES] (memo_slot edge amount) edge amount f m)"

section \<open>Transparency\<close>

text \<open>
  The uses of a memo: \<open>G namespace edge amount\<close> is the quote the closure computes. A panic
  unwinds the worker, so only states without one are reached.
\<close>

inductive memo_reachable :: "(nat list \<Rightarrow> nat \<Rightarrow> nat \<Rightarrow> nat res) \<Rightarrow> quote_memo \<Rightarrow> bool" for G where
  start: "memo_reachable G memo_default"
| enter: "memo_reachable G m \<Longrightarrow> memo_reachable G (memo_begin namespace m)"
| ask: "memo_reachable G m \<Longrightarrow> qm_namespace m = Some namespace \<Longrightarrow>
    memo_quote edge amount (G namespace edge amount) m = (r, m') \<Longrightarrow> r \<noteq> Inl Panic \<Longrightarrow> memo_reachable G m'"

definition memo_ok :: "(nat list \<Rightarrow> nat \<Rightarrow> nat \<Rightarrow> nat res) \<Rightarrow> quote_memo \<Rightarrow> bool" where
  "memo_ok G m \<longleftrightarrow> length (qm_entries m) = MEMO_CAPACITY \<and> (\<forall>e \<in> set (qm_entries m). me_epoch e \<le> qm_epoch m)
     \<and> (\<forall>namespace. qm_namespace m = Some namespace \<longrightarrow>
         (\<forall>e \<in> set (qm_entries m). me_epoch e = qm_epoch m \<longrightarrow> me_value e = G namespace (me_edge e) (me_input e)))"

lemma count_simps [simp]:
  "qm_hits m + 1 < 2 ^ 64 \<Longrightarrow> count_hit m = (Inr (), m\<lparr>qm_hits := qm_hits m + 1\<rparr>)"
  "qm_evaluations m + 1 < 2 ^ 64 \<Longrightarrow> count_evaluation m = (Inr (), m\<lparr>qm_evaluations := qm_evaluations m + 1\<rparr>)"
  "qm_fallbacks m + 1 < 2 ^ 64 \<Longrightarrow> count_fallback m = (Inr (), m\<lparr>qm_fallbacks := qm_fallbacks m + 1\<rparr>)"
  by (simp_all add: count_hit_def count_evaluation_def count_fallback_def add_w_ok)

lemma count_cases:
  "count_hit m = (Inr (), m\<lparr>qm_hits := qm_hits m + 1\<rparr>) \<or> count_hit m = (Inl Panic, m)"
  "count_evaluation m = (Inr (), m\<lparr>qm_evaluations := qm_evaluations m + 1\<rparr>) \<or> count_evaluation m = (Inl Panic, m)"
  "count_fallback m = (Inr (), m\<lparr>qm_fallbacks := qm_fallbacks m + 1\<rparr>) \<or> count_fallback m = (Inl Panic, m)"
  by (simp_all add: count_hit_def count_evaluation_def count_fallback_def add_w_def)

text \<open>One probe, by what it finds.\<close>

lemma memo_probe_cases:
  obtains (fresh) "me_epoch (qm_entries m ! ((start + p) mod MEMO_CAPACITY)) \<noteq> qm_epoch m"
      "\<And>f. memo_probe (p # ps) start edge amount f m =
         bindS count_evaluation (\<lambda>_. memo_store ((start + p) mod MEMO_CAPACITY) edge amount f) m"
    | (hit) "me_epoch (qm_entries m ! ((start + p) mod MEMO_CAPACITY)) = qm_epoch m"
      "me_input (qm_entries m ! ((start + p) mod MEMO_CAPACITY)) = amount"
      "me_edge (qm_entries m ! ((start + p) mod MEMO_CAPACITY)) = edge mod 256"
      "\<And>f. memo_probe (p # ps) start edge amount f m =
         bindS count_hit (\<lambda>_. liftR (me_value (qm_entries m ! ((start + p) mod MEMO_CAPACITY)))) m"
    | (other) "me_epoch (qm_entries m ! ((start + p) mod MEMO_CAPACITY)) = qm_epoch m"
      "\<not> (me_input (qm_entries m ! ((start + p) mod MEMO_CAPACITY)) = amount
         \<and> me_edge (qm_entries m ! ((start + p) mod MEMO_CAPACITY)) = edge mod 256)"
      "\<And>f. memo_probe (p # ps) start edge amount f m = memo_probe ps start edge amount f m"
proof -
  let ?e = "qm_entries m ! ((start + p) mod MEMO_CAPACITY)"
  consider "me_epoch ?e \<noteq> qm_epoch m" | "me_epoch ?e = qm_epoch m" "me_input ?e = amount \<and> me_edge ?e = edge mod 256"
    | "me_epoch ?e = qm_epoch m" "\<not> (me_input ?e = amount \<and> me_edge ?e = edge mod 256)" by blast
  then show thesis
  proof cases
    case 1
    then show ?thesis by (intro fresh) (simp_all add: Let_def)
  next
    case 2
    then show ?thesis by (intro hit) (simp_all add: Let_def)
  next
    case 3
    then show ?thesis by (intro other) (auto simp: Let_def)
  qed
qed

declare memo_probe.simps(2) [simp del]

text \<open>What a probe without a panic leaves: the table but for at most one fresh entry of the current epoch.\<close>

lemma memo_probe_frame:
  assumes "memo_probe ps start edge amount f m = (r, m')" "r \<noteq> Inl Panic"
  shows "qm_epoch m' = qm_epoch m \<and> qm_namespace m' = qm_namespace m \<and>
    (qm_entries m' = qm_entries m \<or>
      (\<exists>i. me_epoch (qm_entries m ! i) \<noteq> qm_epoch m \<and>
        qm_entries m' = (qm_entries m)[i := \<lparr>me_epoch = qm_epoch m, me_input = amount, me_edge = edge mod 256, me_value = f\<rparr>]))"
  using assms
proof (induction ps)
  case Nil
  then show ?case using count_cases [of m] count_cases [of "m\<lparr>qm_fallbacks := qm_fallbacks m + 1\<rparr>"]
    by (auto simp: bindS_def split: prod.splits sum.splits)
next
  case (Cons p ps)
  show ?case
  proof (cases rule: memo_probe_cases [of m start p ps edge amount])
    case fresh
    then have "m' = m\<lparr>qm_evaluations := qm_evaluations m + 1, qm_entries := (qm_entries m)[(start + p) mod MEMO_CAPACITY :=
        \<lparr>me_epoch = qm_epoch m, me_input = amount, me_edge = edge mod 256, me_value = f\<rparr>]\<rparr>"
      using Cons.prems count_cases(2) [of m] by (auto simp: bindS_def memo_store_def split: if_splits)
    then show ?thesis using fresh(1) by (auto intro!: exI [of _ "(start + p) mod MEMO_CAPACITY"])
  next
    case hit
    then show ?thesis using Cons.prems count_cases(1) [of m] by (auto simp: bindS_def liftR_def)
  next
    case other
    then show ?thesis using Cons by simp
  qed
qed

lemma memo_ok_quote:
  assumes ok: "memo_ok G m" and ns: "qm_namespace m = Some namespace"
    and run: "memo_quote edge amount (G namespace edge amount) m = (r, m')" "r \<noteq> Inl Panic"
  shows "memo_ok G m'"
proof (cases "8 \<le> edge")
  case True
  then show ?thesis using ok run by (simp add: memo_quote_def)
next
  case False
  then have "memo_probe [0..<PROBES] (memo_slot edge amount) edge amount (G namespace edge amount) m = (r, m')"
    using run ns by (simp add: memo_quote_def)
  note frame = memo_probe_frame [OF this run(2)]
  have "edge mod 256 = edge" using False by simp
  then show ?thesis using ok ns frame unfolding memo_ok_def
    by (auto dest!: set_update_subset_insert [THEN subsetD])
qed

lemma memo_ok_begin: "memo_ok G m \<Longrightarrow> memo_ok G (memo_begin namespace m)"
  unfolding memo_begin_def memo_ok_def Let_def
  by (auto simp: checked_add_def split: option.splits)

lemma memo_reachable_ok: "memo_reachable G m \<Longrightarrow> memo_ok G m"
proof (induction rule: memo_reachable.induct)
  case start
  show ?case by (simp add: memo_ok_def memo_default_def)
next
  case (enter m namespace)
  then show ?case by (intro memo_ok_begin)
next
  case (ask m namespace edge amount r m')
  then show ?case using memo_ok_quote by blast
qed

definition counters_free :: "quote_memo \<Rightarrow> bool" where
  "counters_free m \<longleftrightarrow> qm_hits m + 1 < 2 ^ 64 \<and> qm_evaluations m + 1 < 2 ^ 64 \<and> qm_fallbacks m + 1 < 2 ^ 64"

lemma memo_probe_answers:
  assumes "memo_ok G m" "qm_namespace m = Some namespace" "edge < 8" "counters_free m" "\<forall>p \<in> set ps. p < MEMO_CAPACITY"
  shows "\<exists>m'. memo_probe ps start edge amount (G namespace edge amount) m = (G namespace edge amount, m')
    \<and> qm_hits m' + qm_evaluations m' = qm_hits m + qm_evaluations m + 1"
  using assms(5)
proof (induction ps)
  case Nil
  then show ?case using assms(4) by (simp add: counters_free_def bindS_def liftR_def)
next
  case (Cons p ps)
  let ?i = "(start + p) mod MEMO_CAPACITY"
  have mem: "qm_entries m ! ?i \<in> set (qm_entries m)" using assms(1) by (intro nth_mem) (simp add: memo_ok_def)
  show ?case
  proof (cases rule: memo_probe_cases [of m start p ps edge amount])
    case fresh
    then show ?thesis using assms(4) by (simp add: counters_free_def bindS_def memo_store_def)
  next
    case hit
    then have "me_value (qm_entries m ! ?i) = G namespace edge amount"
      using assms(1,2,3) mem unfolding memo_ok_def by fastforce
    then show ?thesis using hit assms(4) by (simp add: counters_free_def bindS_def liftR_def)
  next
    case other
    then show ?thesis using Cons by simp
  qed
qed

text \<open>An answer that did not fall back is found again, without evaluating the closure.\<close>

lemma memo_probe_again:
  assumes "memo_probe ps start edge amount f m = (r, m')" "r \<noteq> Inl Panic" "qm_fallbacks m' = qm_fallbacks m"
    "length (qm_entries m) = MEMO_CAPACITY" "qm_hits m' + 1 < 2 ^ 64"
  shows "memo_probe ps start edge amount f' m' = (r, m'\<lparr>qm_hits := qm_hits m' + 1\<rparr>)"
  using assms(1)
proof (induction ps)
  case Nil
  then show ?case using assms(2,3) count_cases [of m] count_cases [of "m\<lparr>qm_fallbacks := qm_fallbacks m + 1\<rparr>"]
    by (auto simp: bindS_def liftR_def split: prod.splits sum.splits)
next
  case (Cons p ps)
  let ?i = "(start + p) mod MEMO_CAPACITY" let ?e = "qm_entries m ! ?i"
  show ?case
  proof (cases rule: memo_probe_cases [of m start p ps edge amount])
    case fresh
    then have m': "m' = m\<lparr>qm_evaluations := qm_evaluations m + 1,
        qm_entries := (qm_entries m)[?i := \<lparr>me_epoch = qm_epoch m, me_input = amount, me_edge = edge mod 256, me_value = f\<rparr>]\<rparr>" "r = f"
      using Cons.prems assms(2) count_cases(2) [of m] by (auto simp: bindS_def memo_store_def split: if_splits)
    then show ?thesis using assms(4,5) by (simp add: memo_probe.simps(2) bindS_def liftR_def)
  next
    case hit
    then have m': "m' = m\<lparr>qm_hits := qm_hits m + 1\<rparr>" "r = me_value ?e"
      using Cons.prems assms(2) count_cases(1) [of m] by (auto simp: bindS_def liftR_def)
    then show ?thesis using hit(1-3) assms(5) by (simp add: memo_probe.simps(2) bindS_def liftR_def)
  next
    case other
    then have run: "memo_probe ps start edge amount f m = (r, m')" using Cons.prems by simp
    have "qm_entries m' ! ?i = ?e" "qm_epoch m' = qm_epoch m"
      using memo_probe_frame [OF run assms(2)] other(1) by (metis nth_list_update_neq, blast)
    then have "memo_probe (p # ps) start edge amount f' m' = memo_probe ps start edge amount f' m'"
      using other(1,2) by (auto simp: memo_probe.simps(2) Let_def)
    then show ?thesis using Cons.IH [OF run] by simp
  qed
qed

text \<open>\<^bold>\<open>C27.\<close>
  The memo is transparent: in every state reached by entering namespaces and asking quotes, a quote
  returns what its closure computes for the current namespace, edge and amount, never a value of
  another namespace, edge, amount or epoch (also across the epoch's wrap-around), and counts one hit or
  one evaluation. Asked again, it is a hit with the same answer unless the 16 probes were taken.\<close>

theorem memo_transparent:
  assumes "memo_reachable G m" "qm_namespace m = Some namespace" "edge < 8" "counters_free m"
  shows "\<exists>m'. memo_quote edge amount (G namespace edge amount) m = (G namespace edge amount, m')
    \<and> qm_hits m' + qm_evaluations m' = qm_hits m + qm_evaluations m + 1
    \<and> (G namespace edge amount \<noteq> Inl Panic \<and> qm_fallbacks m' = qm_fallbacks m \<and> qm_hits m' + 1 < 2 ^ 64 \<longrightarrow>
        (\<forall>f. memo_quote edge amount f m' = (G namespace edge amount, m'\<lparr>qm_hits := qm_hits m' + 1\<rparr>)))"
proof -
  have ok: "memo_ok G m" by (rule memo_reachable_ok [OF assms(1)])
  have quote: "memo_quote edge amount f m' = memo_probe [0..<PROBES] (memo_slot edge amount) edge amount f m'"
    if "qm_namespace m' = Some namespace" for f m'
    using that assms(3) by (simp add: memo_quote_def)
  obtain m' where run: "memo_probe [0..<PROBES] (memo_slot edge amount) edge amount (G namespace edge amount) m = (G namespace edge amount, m')"
    and count: "qm_hits m' + qm_evaluations m' = qm_hits m + qm_evaluations m + 1"
    using memo_probe_answers [OF ok assms(2-4), of "[0..<PROBES]"] by auto
  have "memo_quote edge amount f m' = (G namespace edge amount, m'\<lparr>qm_hits := qm_hits m' + 1\<rparr>)"
    if "G namespace edge amount \<noteq> Inl Panic" "qm_fallbacks m' = qm_fallbacks m" "qm_hits m' + 1 < 2 ^ 64" for f
  proof -
    have "qm_namespace m' = Some namespace" using memo_probe_frame [OF run that(1)] assms(2) by simp
    then show ?thesis using memo_probe_again [OF run that(1,2) _ that(3)] ok by (simp add: quote memo_ok_def)
  qed
  then show ?thesis using run count quote [OF assms(2)] by simp
qed

lemma memo_transparent_witness:
  "\<exists>m'. memo_quote 3 7 (Inr 10) (memo_begin [1] memo_default) = (Inr 10, m')"
proof -
  have "memo_reachable (\<lambda>ns edge x. Inr (x + edge)) (memo_begin [1] memo_default)" by (intro memo_reachable.intros)
  from memo_transparent [OF this, of "[1]" 3 7]
  have "\<exists>m'. memo_quote 3 7 (Inr (7 + 3)) (memo_begin [1] memo_default) = (Inr (7 + 3), m')"
    by (auto simp: memo_begin_def memo_default_def counters_free_def checked_add_def)
  then show ?thesis by simp
qed

end
