(* ===== verification/Damm.thy ===== *)
theory Damm
  imports Native Adapters
begin

text \<open>
  The DAMM v2 quote (\<open>native/src/damm.rs\<close>): the pool decoded with its scheduled and volatility fees, and
  a single-range exchange along the constant-product curve in integer square-root prices.
\<close>

abbreviation nat_arith :: "'a option \<Rightarrow> 'a res" where
  "nat_arith m \<equiv> or_fault m (Native NatArithmetic)"

section \<open>Arithmetic\<close>

abbreviation DAMM_DEN :: nat where
  "DAMM_DEN \<equiv> 1000000000"

text \<open>The fee is narrowed to 64 bits before the checked subtraction.\<close>

definition damm_fee_amount :: "nat \<Rightarrow> nat \<Rightarrow> nat res" where
  "damm_fee_amount q rate =
     bindR (mul_w 128 q rate) (\<lambda>x. nat_arith (checked_sub q ((x div DAMM_DEN + of_bool (x mod DAMM_DEN \<noteq> 0)) mod 2 ^ 64)))"

definition narrowed :: "nat \<Rightarrow> nat res" where
  "narrowed x = (if x < 2 ^ 128 then Inr x else nat_err NatArithmetic)"

definition narrowed64 :: "nat \<Rightarrow> nat res" where
  "narrowed64 x = (if x < 2 ^ 64 then Inr x else nat_err NatArithmetic)"

definition div_up :: "nat \<Rightarrow> nat \<Rightarrow> nat res" where
  "div_up n d =
     (if d = 0 then nat_err NatArithmetic
      else if n mod d = 0 then Inr (n div d) else nat_arith (checked_add 256 (n div d) 1))"

text \<open>Square and multiply in Q64, rounding down at each product.\<close>

function damm_power :: "nat \<Rightarrow> nat \<Rightarrow> nat \<Rightarrow> nat res" where
  "damm_power n base factor =
     (if n = 0 then Inr factor
      else
        bindR (if n mod 2 = 1 then bindR (mul_w 256 factor base) (\<lambda>x. narrowed (x div 2 ^ 64)) else Inr factor) (\<lambda>factor.
        let n = n div 2 in
        bindR (if 0 < n then bindR (mul_w 256 base base) (\<lambda>x. narrowed (x div 2 ^ 64)) else Inr base) (\<lambda>base.
        damm_power n base factor)))"
  by pat_completeness auto
termination by (relation "measure (\<lambda>(n, _, _). n)") auto

declare damm_power.simps [simp del]

definition scheduled_fee :: "nat list \<Rightarrow> nat \<Rightarrow> nat \<Rightarrow> nat res" where
  "scheduled_fee p point activation =
     bindR (n_u64_at p 8) (\<lambda>initial. bindR (index_at p 16) (\<lambda>mode.
     if 1 < mode then nat_err NatUnsupported
     else
       bindR (n_u64_at p 24) (\<lambda>frequency.
       if frequency = 0 then Inr initial
       else
         bindR (or_fault (checked_sub point activation) (Native NatCapacity)) (\<lambda>elapsed. bindR (n_u16_at p 22) (\<lambda>limit.
         let periods = min (elapsed div frequency) limit in
         bindR (n_u64_at p 32) (\<lambda>reduction.
         if mode = 0 then bindR (nat_arith (checked_mul 64 periods reduction)) (\<lambda>x. nat_arith (checked_sub initial x))
         else
           bindR (nat_arith (checked_sub (2 ^ 64) (reduction * 2 ^ 64 div 10000))) (\<lambda>base.
           bindR (damm_power periods base (2 ^ 64)) (\<lambda>factor.
           if factor = 0 then nat_err NatArithmetic
           else bindR (mul_w 128 factor initial) (\<lambda>x. narrowed64 (x div 2 ^ 64))))))))))"

section \<open>The curve\<close>

record damm_curve =
  dc_sqrt :: nat
  dc_min :: nat
  dc_max :: nat
  dc_liquidity :: nat
  dc_fee :: nat
  dc_mode :: nat
  dc_fees :: "transfer_fee \<times> transfer_fee"

text \<open>The variable part of the fee, from the stored volatility accumulator.\<close>

definition volatility_fee :: "nat list \<Rightarrow> nat \<Rightarrow> nat \<Rightarrow> nat res" where
  "volatility_fee pool time fee =
     (if pool ! 56 = 1 then
        bindR (n_u64_at pool 80) (\<lambda>updated.
        if time < updated then nat_err NatStale
        else
          bindR (n_u128_at pool 120) (\<lambda>volatility. bindR (n_u32_at pool 64) (\<lambda>cap.
          if cap < volatility then nat_err NatLayout
          else
            bindR (n_u16_at pool 72) (\<lambda>bin. bindR (nat_arith (checked_mul 128 volatility bin)) (\<lambda>x.
            bindR (nat_arith (checked_mul 128 x x)) (\<lambda>xx.
            bindR (case n_u32_at pool 68 of Inl _ \<Rightarrow> nat_err NatArithmetic | Inr c \<Rightarrow> nat_arith (checked_mul 128 xx c)) (\<lambda>y.
            nat_arith (checked_add 128 fee (y div 100000000000 + of_bool (y mod 100000000000 \<noteq> 0))))))))))
      else Inr fee)"

definition damm_decode :: "nat list \<Rightarrow> transfer_fee \<times> transfer_fee \<Rightarrow> nat \<Rightarrow> nat \<Rightarrow> damm_curve res" where
  "damm_decode pool fees slot time =
     (if length pool \<noteq> 1112 then nat_err NatLayout
      else
        bindR (bytes_at pool 0 8) (\<lambda>tag.
        if tag \<noteq> [241, 154, 109, 4, 17, 177, 109, 188] then nat_err NatLayout
        else if 1 < pool ! 480 \<or> pool ! 481 \<noteq> 0 \<or> 1 < pool ! 484 \<or> 1 < pool ! 485 \<or> 1 < pool ! 486 \<or> 1 < pool ! 56 then nat_err NatUnsupported
        else
          bindR (n_u64_at pool 472) (\<lambda>activation.
          let point = (if pool ! 480 = 0 then slot else time) in
          if point < activation then nat_err NatCapacity
          else
            bindR (scheduled_fee pool point activation) (\<lambda>scheduled. bindR (volatility_fee pool time scheduled) (\<lambda>fee.
            let fee = min fee (if pool ! 486 = 0 then 500000000 else 990000000) in
            bindR (n_u128_at pool 424) (\<lambda>low. bindR (n_u128_at pool 440) (\<lambda>high.
            bindR (n_u128_at pool 456) (\<lambda>sqrt. bindR (n_u128_at pool 360) (\<lambda>liquidity.
            if low = 0 \<or> high \<le> low \<or> sqrt < low \<or> high < sqrt \<or> liquidity = 0 then nat_err NatLayout
            else Inr \<lparr>dc_sqrt = sqrt, dc_min = low, dc_max = high, dc_liquidity = liquidity, dc_fee = fee, dc_mode = pool ! 484,
              dc_fees = fees\<rparr>)))))))))"

definition damm_next :: "damm_curve \<Rightarrow> nat \<Rightarrow> bool \<Rightarrow> nat res" where
  "damm_next c net a_to_b =
     (let l = dc_liquidity c; p = dc_sqrt c in
      if a_to_b then
        bindR (mul_w 256 l p) (\<lambda>n. bindR (mul_w 256 net p) (\<lambda>x. bindR (nat_arith (checked_add 256 l x)) (\<lambda>d.
        bindR (div_up n d) narrowed)))
      else bindR (bindR (div_w (net * 2 ^ 128 mod 2 ^ 256) l) narrowed) (\<lambda>d. nat_arith (checked_add 128 p d)))"

definition damm_out :: "damm_curve \<Rightarrow> nat \<Rightarrow> bool \<Rightarrow> nat res" where
  "damm_out c next a_to_b =
     (let l = dc_liquidity c; p = dc_sqrt c in
      if a_to_b then
        bindR (nat_arith (checked_sub p next)) (\<lambda>d. bindR (mul_w 256 l d) (\<lambda>x. Inr (x div 2 ^ 128)))
      else
        bindR (nat_arith (checked_sub next p)) (\<lambda>d. bindR (mul_w 256 l d) (\<lambda>n. bindR (mul_w 256 p next) (\<lambda>pn. div_w n pn))))"

definition damm_quote :: "damm_curve \<Rightarrow> nat \<Rightarrow> bool \<Rightarrow> nat res" where
  "damm_quote c amount a_to_b =
     (if amount = 0 \<or> MAX_INPUT < amount then nat_err NatCapacity
      else
        bindR (fee_net (fst (dc_fees c)) amount) (\<lambda>net.
        let fee_input = (dc_mode c = 1 \<and> \<not> a_to_b) in
        bindR (if fee_input then damm_fee_amount net (dc_fee c) else Inr net) (\<lambda>net.
        bindR (damm_next c net a_to_b) (\<lambda>next.
        if next < dc_min c \<or> dc_max c < next then nat_err NatCapacity
        else
          bindR (bindR (damm_out c next a_to_b) narrowed64) (\<lambda>out.
          bindR (if fee_input then Inr out else damm_fee_amount out (dc_fee c)) (\<lambda>out.
          bindR (fee_net (snd (dc_fees c)) out) (\<lambda>out.
          if out = 0 then nat_err NatCapacity else Inr out)))))))"

section \<open>Well-formed curves\<close>

definition fees_ok :: "transfer_fee \<times> transfer_fee \<Rightarrow> bool" where
  "fees_ok fees \<longleftrightarrow> tf_bps (fst fees) < 2 ^ 16 \<and> tf_bps (snd fees) < 2 ^ 16"

definition damm_ok :: "damm_curve \<Rightarrow> bool" where
  "damm_ok c \<longleftrightarrow> 0 < dc_min c \<and> dc_min c < dc_max c \<and> dc_min c \<le> dc_sqrt c \<and> dc_sqrt c \<le> dc_max c \<and> dc_max c < 2 ^ 128
     \<and> 0 < dc_liquidity c \<and> dc_liquidity c < 2 ^ 128 \<and> dc_fee c \<le> 990000000 \<and> fees_ok (dc_fees c)"

lemma nat_arith_fits: "fits native_faults (nat_arith m) (\<lambda>x. m = Some x)"
  by (rule native_or_fits)

lemma narrowed_fits: "fits native_faults (narrowed x) (\<lambda>y. y = x \<and> x < 2 ^ 128)" "fits native_faults (narrowed64 x) (\<lambda>y. y = x \<and> x < 2 ^ 64)"
  by (simp_all add: narrowed_def narrowed64_def)

lemma mul_fits:
  assumes "a < 2 ^ m" "b < 2 ^ n" "m + n \<le> w"
  shows "mul_w w a b = Inr (a * b)"
proof (rule mul_w_ok)
  have "a * b < 2 ^ m * 2 ^ n" using assms(1,2) by (intro mult_strict_mono) simp_all
  also have "\<dots> = 2 ^ (m + n)" by (simp add: power_add)
  also have "\<dots> \<le> 2 ^ w" using assms(3) by (intro power_increasing) simp_all
  finally show "a * b < 2 ^ w" .
qed

lemma damm_power_step:
  assumes "a \<le> 2 ^ 64" "b \<le> 2 ^ 64"
  shows "fits native_faults (bindR (mul_w 256 a b) (\<lambda>x. narrowed (x div 2 ^ 64))) (\<lambda>f. f \<le> 2 ^ 64)"
proof -
  have le: "a * b \<le> 2 ^ 64 * 2 ^ 64" using assms by (rule mult_le_mono)
  then have "a * b div 2 ^ 64 \<le> 2 ^ 64 * 2 ^ 64 div 2 ^ 64" by (rule div_le_mono)
  moreover have "mul_w 256 a b = Inr (a * b)" using le by (intro mul_w_ok) simp
  ultimately show ?thesis by (simp add: narrowed_def)
qed

lemma damm_power_fits:
  "base \<le> 2 ^ 64 \<Longrightarrow> factor \<le> 2 ^ 64 \<Longrightarrow> fits native_faults (damm_power n base factor) (\<lambda>f. f \<le> 2 ^ 64)"
proof (induction n arbitrary: base factor rule: less_induct)
  case (less n)
  show ?case
  proof (cases "n = 0")
    case True
    then show ?thesis using less by (simp add: damm_power.simps)
  next
    case False
    have factor: "fits native_faults (if n mod 2 = 1 then bindR (mul_w 256 factor base) (\<lambda>x. narrowed (x div 2 ^ 64)) else Inr factor) (\<lambda>f. f \<le> 2 ^ 64)"
      using damm_power_step [OF less.prems(2,1)] less.prems(2) by simp
    have base: "fits native_faults (if 0 < n div 2 then bindR (mul_w 256 base base) (\<lambda>x. narrowed (x div 2 ^ 64)) else Inr base) (\<lambda>b. b \<le> 2 ^ 64)"
      using damm_power_step [OF less.prems(1,1)] less.prems(1) by simp
    show ?thesis
      by (subst damm_power.simps, unfold if_not_P [OF False] Let_def, rule fits_bindR [OF factor], rule fits_bindR [OF base], rule less.IH)
        (use False in simp_all)
  qed
qed

lemma damm_fee_amount_fits:
  assumes "q < 2 ^ 64" "rate \<le> 990000000"
  shows "fits native_faults (damm_fee_amount q rate) (\<lambda>n. n \<le> q)"
proof -
  have "mul_w 128 q rate = Inr (q * rate)" using assms by (intro mul_fits [of _ 64 _ 64]) simp_all
  then show ?thesis unfolding damm_fee_amount_def by (simp only: bindR_simps) (rule fits_mono [OF nat_arith_fits], auto simp: checked_sub_Some)
qed

lemma scheduled_fee_fits:
  assumes "bytes_ok p" "16 < length p"
  shows "fits native_faults (scheduled_fee p point activation) (\<lambda>fee. fee < 2 ^ 64)"
  unfolding scheduled_fee_def
proof (rule fits_bindR [OF n_fits(1) [OF assms(1)]], goal_cases)
  case (1 initial)
  show ?case
  proof (cases "1 < p ! 16")
    case True
    then show ?thesis using assms(2) by simp
  next
    case mode: False
    have index: "index_at p 16 = Inr (p ! 16)" using assms(2) by simp
    show ?thesis unfolding index bindR_simps if_not_P [OF mode]
    proof (rule fits_bindR [OF n_fits(1) [OF assms(1)]], goal_cases)
      case (1 frequency)
      show ?case
      proof (cases "frequency = 0")
        case True
        then show ?thesis using \<open>initial < 2 ^ 64\<close> by simp
      next
        case False
        show ?thesis unfolding if_not_P [OF False] Let_def
        proof (rule fits_bindR [OF native_or_fits], rule fits_bindR [OF n_fits(4) [OF assms(1)]], rule fits_bindR [OF n_fits(1) [OF assms(1)]], goal_cases)
          case (1 elapsed limit reduction)
          let ?periods = "min (elapsed div frequency) limit"
          have linear: "fits native_faults (bindR (nat_arith (checked_mul 64 ?periods reduction)) (\<lambda>x. nat_arith (checked_sub initial x))) (\<lambda>fee. fee < 2 ^ 64)"
            by (rule fits_bindR [OF nat_arith_fits], rule fits_mono [OF nat_arith_fits])
              (use \<open>initial < 2 ^ 64\<close> in \<open>auto simp: checked_sub_Some\<close>)
          have expo: "fits native_faults (bindR (nat_arith (checked_sub (2 ^ 64) (reduction * 2 ^ 64 div 10000))) (\<lambda>base.
            bindR (damm_power ?periods base (2 ^ 64)) (\<lambda>factor.
            if factor = 0 then nat_err NatArithmetic
            else bindR (mul_w 128 factor initial) (\<lambda>x. narrowed64 (x div 2 ^ 64))))) (\<lambda>fee. fee < 2 ^ 64)"
          proof (rule fits_bindR [OF nat_arith_fits], goal_cases)
            case (1 base)
            then have "base \<le> 2 ^ 64" by (auto simp: checked_sub_Some)
            then show ?case
            proof (rule fits_bindR [OF damm_power_fits [OF _ order_refl]], goal_cases)
              case (1 factor)
              have "factor * initial < 2 ^ 128"
              proof -
                have "factor * initial \<le> 2 ^ 64 * initial" using 1(2) by (rule mult_le_mono1)
                also have "\<dots> < 2 ^ 64 * 2 ^ 64" using \<open>initial < 2 ^ 64\<close> by simp
                finally show ?thesis by simp
              qed
              then show ?case using narrowed_fits(2) [THEN fits_mono] by (simp add: mul_w_ok)
            qed
          qed
          show ?case using linear expo by simp
        qed
      qed
    qed
  qed
qed

lemma volatility_fee_fits:
  assumes "bytes_ok pool"
  shows "fits native_faults (volatility_fee pool time fee) (\<lambda>_. True)"
proof (cases "pool ! 56 = 1")
  case False
  then show ?thesis by (simp add: volatility_fee_def)
next
  case True
  have any: "fits native_faults (nat_arith m) (\<lambda>_. True)" for m :: "nat option" by (cases m) simp_all
  have c: "fits native_faults (case n_u32_at pool 68 of Inl _ \<Rightarrow> nat_err NatArithmetic | Inr c \<Rightarrow> nat_arith (f c)) (\<lambda>_. True)"
    for f :: "nat \<Rightarrow> nat option"
    using any by (cases "n_u32_at pool 68") simp_all
  show ?thesis unfolding volatility_fee_def if_P [OF True]
  proof (rule fits_bindR [OF n_fits(1) [OF assms]], goal_cases)
    case (1 updated)
    show ?case
    proof (cases "time < updated")
      case fresh: False
      show ?thesis unfolding if_not_P [OF fresh]
      proof (rule fits_bindR [OF n_fits(2) [OF assms]], rule fits_bindR [OF n_fits(3) [OF assms]], goal_cases)
        case (1 volatility cap)
        show ?case
        proof (cases "cap < volatility")
          case capped: False
          show ?thesis unfolding if_not_P [OF capped]
            by (rule fits_bindR [OF n_fits(4) [OF assms]], rule fits_bindR [OF any], rule fits_bindR [OF any], rule fits_bindR [OF c], rule any)
        qed simp
      qed
    qed simp
  qed
qed

text \<open>Decoding never panics and yields a well-formed curve.\<close>

lemma damm_decode_fits:
  assumes "bytes_ok pool" "fees_ok fees"
  shows "fits native_faults (damm_decode pool fees slot time) damm_ok"
proof (cases "length pool \<noteq> 1112")
  case True
  then show ?thesis by (simp add: damm_decode_def)
next
  case len: False
  note n64 = n_fits(1) [OF assms(1)] and n128 = n_fits(2) [OF assms(1)]
  show ?thesis unfolding damm_decode_def if_not_P [OF len]
  proof (rule fits_bindR [OF bytes_at_fits], goal_cases)
    case (1 tag)
    show ?case
    proof (cases "tag \<noteq> [241, 154, 109, 4, 17, 177, 109, 188]")
      case tag: False
      show ?thesis
      proof (cases "1 < pool ! 480 \<or> pool ! 481 \<noteq> 0 \<or> 1 < pool ! 484 \<or> 1 < pool ! 485 \<or> 1 < pool ! 486 \<or> 1 < pool ! 56")
        case True
        then show ?thesis unfolding if_not_P [OF tag] if_P [OF True] by simp
      next
        case flags: False
        show ?thesis unfolding if_not_P [OF tag] if_not_P [OF flags] Let_def
        proof (rule fits_bindR [OF n64], goal_cases)
          case (1 activation)
          show ?case
          proof (cases "(if pool ! 480 = 0 then slot else time) < activation")
            case started: False
            show ?thesis unfolding if_not_P [OF started]
            proof (rule fits_bindR [OF scheduled_fee_fits [OF assms(1)]], use len in simp, rule fits_bindR [OF volatility_fee_fits [OF assms(1)]],
                rule fits_bindR [OF n128], rule fits_bindR [OF n128], rule fits_bindR [OF n128], rule fits_bindR [OF n128], goal_cases)
              case (1 scheduled fee low high sqrt liquidity)
              then show ?case using assms(2) by (auto simp: damm_ok_def min_def)
            qed
          qed simp
        qed
      qed
    qed simp
  qed
qed

section \<open>Quotes\<close>

lemma div_up_fits:
  assumes "0 < d"
  shows "fits native_faults (div_up n d) (\<lambda>q. n \<le> q * d)"
proof (cases "n mod d = 0")
  case True
  then have "n = n div d * d" by (simp add: minus_mod_eq_div_mult [symmetric])
  then show ?thesis using assms True by (simp add: div_up_def)
next
  case False
  have "n \<le> (n div d + 1) * d" using dividend_less_div_times [OF assms, of n] by simp
  then show ?thesis using assms False by (simp add: div_up_def) (rule fits_mono [OF nat_arith_fits], simp add: checked_add_Some)
qed

lemma damm_next_fits:
  assumes "damm_ok c" "net < 2 ^ 64"
  shows "fits native_faults (damm_next c net True) (\<lambda>n. dc_liquidity c * dc_sqrt c \<le> n * (dc_liquidity c + net * dc_sqrt c))"
    "fits native_faults (damm_next c net False) (\<lambda>n. dc_sqrt c \<le> n \<and> dc_liquidity c * (n - dc_sqrt c) \<le> net * 2 ^ 128)"
proof -
  let ?l = "dc_liquidity c" let ?p = "dc_sqrt c"
  have l: "0 < ?l" "?l < 2 ^ 128" and p: "?p < 2 ^ 128" using assms(1) by (auto simp: damm_ok_def)
  have lp: "mul_w 256 ?l ?p = Inr (?l * ?p)" by (rule mul_fits [OF l(2) p]) simp
  have np: "mul_w 256 net ?p = Inr (net * ?p)" by (rule mul_fits [OF assms(2) p]) simp
  show "fits native_faults (damm_next c net True) (\<lambda>n. ?l * ?p \<le> n * (?l + net * ?p))"
    unfolding damm_next_def Let_def lp np bindR_simps if_P [OF TrueI]
  proof (rule fits_bindR [OF nat_arith_fits], goal_cases)
    case (1 d)
    then have d: "d = ?l + net * ?p" by (simp add: checked_add_Some)
    show ?case using l unfolding d
      by (intro fits_bindR [OF div_up_fits] fits_mono [OF narrowed_fits(1)]) simp_all
  qed
  have shift: "net * 2 ^ 128 mod 2 ^ 256 = net * 2 ^ 128" using assms(2) by simp
  show "fits native_faults (damm_next c net False) (\<lambda>n. ?p \<le> n \<and> ?l * (n - ?p) \<le> net * 2 ^ 128)"
    unfolding damm_next_def Let_def shift if_not_P [OF not_False_eq_True [THEN iffD2, OF TrueI]] div_w_ok [OF gr_implies_not0 [OF l(1)]] bindR_simps
  proof (rule fits_bindR [OF narrowed_fits(1)], goal_cases)
    case (1 d)
    then have "?l * d \<le> net * 2 ^ 128" by (simp only: mult.commute [of ?l] div_times_less_eq_dividend)
    then show ?case by (intro fits_mono [OF nat_arith_fits]) (auto simp: checked_add_Some)
  qed
qed

lemma damm_out_fits:
  assumes "damm_ok c" "next < 2 ^ 128"
  shows "fits native_faults (damm_out c next True) (\<lambda>x. next \<le> dc_sqrt c \<and> x * 2 ^ 128 \<le> dc_liquidity c * (dc_sqrt c - next))"
    "fits native_faults (damm_out c next False) (\<lambda>x. dc_sqrt c \<le> next \<and> x * (dc_sqrt c * next) \<le> dc_liquidity c * (next - dc_sqrt c))"
proof -
  let ?l = "dc_liquidity c" let ?p = "dc_sqrt c"
  have l: "0 < ?l" "?l < 2 ^ 128" and p: "?p < 2 ^ 128" "0 < ?p" using assms(1) by (auto simp: damm_ok_def)
  have ld: "mul_w 256 ?l d = Inr (?l * d)" if "d < 2 ^ 128" for d by (rule mul_fits [OF l(2) that]) simp
  show "fits native_faults (damm_out c next True) (\<lambda>x. next \<le> ?p \<and> x * 2 ^ 128 \<le> ?l * (?p - next))"
    unfolding damm_out_def Let_def if_P [OF TrueI]
  proof (rule fits_bindR [OF nat_arith_fits], goal_cases)
    case (1 d)
    then have d: "next \<le> ?p" "d = ?p - next" by (simp_all add: checked_sub_Some)
    then have "d < 2 ^ 128" using p by simp
    then show ?case using d by (simp add: ld div_times_less_eq_dividend)
  qed
  show "fits native_faults (damm_out c next False) (\<lambda>x. ?p \<le> next \<and> x * (?p * next) \<le> ?l * (next - ?p))"
    unfolding damm_out_def Let_def if_not_P [OF not_False_eq_True [THEN iffD2, OF TrueI]]
  proof (rule fits_bindR [OF nat_arith_fits], goal_cases)
    case (1 d)
    then have d: "?p \<le> next" "d = next - ?p" by (simp_all add: checked_sub_Some)
    then have "d < 2 ^ 128" using assms(2) by simp
    moreover have "mul_w 256 ?p next = Inr (?p * next)" by (rule mul_fits [OF p(1) assms(2)]) simp
    ultimately show ?case using d p by (simp add: ld div_w_ok div_times_less_eq_dividend)
  qed
qed

text \<open>A constant-product exchange only improves for the pool when less comes in or less goes out.\<close>

lemma curve_sell:
  fixes l p n i x :: nat
  assumes "x * q \<le> l * (p - next)" "l * p \<le> next * (l + n * p)" "next \<le> p" "n \<le> i" "y \<le> x"
  shows "y * q * (l + i * p) \<le> l * i * p * p"
proof -
  let ?A = "x * q"
  have "?A * (l + n * p) \<le> l * (p - next) * (l + n * p)" using assms(1) by (rule mult_le_mono1)
  also have "\<dots> = l * (p * (l + n * p) - next * (l + n * p))" by (simp add: diff_mult_distrib mult.assoc)
  also have "\<dots> \<le> l * (p * (l + n * p) - l * p)" using assms(2) by (intro mult_le_mono2 diff_le_mono2)
  also have "\<dots> = l * n * p * p" by (simp add: distrib_left mult_ac)
  finally have A: "?A * (l + n * p) \<le> l * n * p * p" .
  have "?A \<le> l * p" using assms(1) by (rule order_trans) (intro mult_le_mono2 diff_le_self)
  then have "?A * ((i - n) * p) \<le> l * p * ((i - n) * p)" by (rule mult_le_mono1)
  then have "?A * (l + n * p) + ?A * ((i - n) * p) \<le> l * n * p * p + l * p * ((i - n) * p)" using A by (rule add_mono [rotated])
  moreover have "(l + n * p) + (i - n) * p = l + i * p" using assms(4) by (simp flip: add_mult_distrib)
  moreover have "l * n * p * p + l * p * ((i - n) * p) = l * (n + (i - n)) * p * p" by (simp add: algebra_simps)
  ultimately have "?A * (l + i * p) \<le> l * i * p * p" using assms(4) by (simp flip: distrib_left)
  moreover have "y * q * (l + i * p) \<le> ?A * (l + i * p)" using assms(5) by (intro mult_le_mono1)
  ultimately show ?thesis by (rule order_trans [rotated])
qed

lemma curve_buy:
  fixes l p n i x :: nat
  assumes "x * (p * next) \<le> l * (next - p)" "l * (next - p) \<le> n * q" "p \<le> next" "n \<le> i" "y \<le> x" "0 < p"
  shows "y * p * (l * p + i * q) \<le> l * i * q"
proof -
  let ?A = "x * p" let ?d = "next - p"
  have nx: "next = p + ?d" using assms(3) by simp
  have Ad: "?A * (p + ?d) \<le> l * ?d" using assms(1) nx by (simp add: mult.assoc)
  have "?A \<le> l"
  proof (cases "?d = 0")
    case True
    then show ?thesis using Ad assms(6) by simp
  next
    case False
    have "?A * ?d \<le> ?A * (p + ?d)" by (rule mult_le_mono2) simp
    then have "?A * ?d \<le> l * ?d" using Ad by (rule order_trans)
    then show ?thesis using False by (simp only: mult_le_cancel2)
  qed
  have ld: "l * ?d \<le> i * q" using assms(2,4) by (meson mult_le_mono1 order_trans)
  then obtain e where e: "i * q = l * ?d + e" using le_Suc_ex by blast
  have "?A * (l * p + i * q) = l * (?A * (p + ?d)) + ?A * e" unfolding e by (simp only: distrib_left mult_ac add_ac)
  also have "\<dots> \<le> l * (l * ?d) + l * e"
    using Ad \<open>?A \<le> l\<close> by (intro add_mono mult_le_mono2 mult_le_mono1)
  also have "\<dots> = l * i * q" using e by (simp only: distrib_left mult.assoc)
  finally have "?A * (l * p + i * q) \<le> l * i * q" .
  moreover have "y * p * (l * p + i * q) \<le> ?A * (l * p + i * q)" using assms(5) by (intro mult_le_mono1)
  ultimately show ?thesis by (rule order_trans [rotated])
qed

text \<open>\<^bold>\<open>C28.\<close>
  On a well-formed curve a quote never panics and never overpays: with liquidity \<open>L\<close> and square-root
  price \<open>p\<close>, selling \<open>i\<close> pays at most \<open>L i p^2 / (2^128 (L + i p))\<close> and buying with \<open>i\<close> pays at most
  \<open>L i 2^128 / (p (L p + i 2^128))\<close>, the exact constant-product outputs without any fee.\<close>

theorem damm_quote_keeps_curve:
  assumes "damm_ok c"
  shows "fits native_faults (damm_quote c amount a_to_b) (\<lambda>out. 0 < out \<and> out < 2 ^ 64 \<and>
    (if a_to_b then out * 2 ^ 128 * (dc_liquidity c + amount * dc_sqrt c) \<le> dc_liquidity c * amount * dc_sqrt c * dc_sqrt c
     else out * dc_sqrt c * (dc_liquidity c * dc_sqrt c + amount * 2 ^ 128) \<le> dc_liquidity c * amount * 2 ^ 128))"
proof (cases "amount = 0 \<or> MAX_INPUT < amount")
  case True
  then show ?thesis by (simp add: damm_quote_def)
next
  case False
  have amount: "amount < 2 ^ 64" using False by (simp add: MAX_INPUT_def)
  have fees: "tf_bps (fst (dc_fees c)) < 2 ^ 16" "tf_bps (snd (dc_fees c)) < 2 ^ 16" and rate: "dc_fee c \<le> 990000000" and p: "0 < dc_sqrt c"
    and high: "dc_max c < 2 ^ 128" using assms by (auto simp: damm_ok_def fees_ok_def)
  have charge: "fits native_faults (if b then damm_fee_amount q (dc_fee c) else Inr q) (\<lambda>n. n \<le> q)"
    "fits native_faults (if b then Inr q else damm_fee_amount q (dc_fee c)) (\<lambda>n. n \<le> q)" if "q < 2 ^ 64" for b q
    using damm_fee_amount_fits [OF that rate] by simp_all
  show ?thesis unfolding damm_quote_def if_not_P [OF False] Let_def
  proof (rule fits_bindR [OF fee_net_fits [OF amount fees(1)]], rule fits_bindR [OF charge(1)], goal_cases)
    case (1 net)
    then show ?case using amount by simp
  next
    case (2 net0 net)
    then have net: "net \<le> amount" "net < 2 ^ 64" using amount by simp_all
    have nxt: "fits native_faults (damm_next c net a_to_b) (\<lambda>n. if a_to_b
        then dc_liquidity c * dc_sqrt c \<le> n * (dc_liquidity c + net * dc_sqrt c)
        else dc_sqrt c \<le> n \<and> dc_liquidity c * (n - dc_sqrt c) \<le> net * 2 ^ 128)"
      using damm_next_fits [OF assms net(2)] by (cases a_to_b) simp_all
    show ?case
    proof (rule fits_bindR [OF nxt], goal_cases)
      case (1 n)
      show ?case
      proof (cases "n < dc_min c \<or> dc_max c < n")
        case inside: False
        then have n: "n < 2 ^ 128" using high by simp
        have out: "fits native_faults (bindR (damm_out c n a_to_b) narrowed64) (\<lambda>x. x < 2 ^ 64 \<and> (if a_to_b
          then n \<le> dc_sqrt c \<and> x * 2 ^ 128 \<le> dc_liquidity c * (dc_sqrt c - n)
          else dc_sqrt c \<le> n \<and> x * (dc_sqrt c * n) \<le> dc_liquidity c * (n - dc_sqrt c)))"
          using damm_out_fits [OF assms n] by (cases a_to_b) (auto intro!: fits_bindR fits_mono [OF narrowed_fits(2)])
        show ?thesis unfolding if_not_P [OF inside]
        proof (rule fits_bindR [OF out], rule fits_bindR [OF charge(2)], goal_cases)
          case (1 x)
          then show ?case by simp
        next
          case (2 x y)
          then have y: "y \<le> x" "y < 2 ^ 64" by simp_all
          show ?case
          proof (rule fits_bindR [OF fee_net_fits [OF y(2) fees(2)]], goal_cases)
            case (1 z)
            then have z: "z \<le> x" "z < 2 ^ 64" using y by simp_all
            show ?case
            proof (cases a_to_b)
              case True
              then show ?thesis using z 2(2) \<open>if a_to_b then _ else _\<close> curve_sell [OF _ _ _ net(1) z(1), of "2 ^ 128" "dc_liquidity c" "dc_sqrt c" n]
                by simp
            next
              case False
              then show ?thesis using z 2(2) \<open>if a_to_b then _ else _\<close> curve_buy [OF _ _ _ net(1) z(1) p, of n "dc_liquidity c" "2 ^ 128"]
                by simp
            qed
          qed
        qed
      qed simp
    qed
  qed
qed

definition demo_damm :: damm_curve where
  "demo_damm = \<lparr>dc_sqrt = 2 ^ 64, dc_min = 2 ^ 60, dc_max = 2 ^ 70, dc_liquidity = 2 ^ 100, dc_fee = 2500000, dc_mode = 0,
     dc_fees = (transfer_fee_default, \<lparr>tf_bps = 10, tf_maximum = 1000\<rparr>)\<rparr>"

lemma damm_quote_keeps_curve_witness:
  "damm_quote demo_damm 1000000 True = Inr 996487 \<and>
   (996487 :: nat) * 2 ^ 128 * (2 ^ 100 + 1000000 * 2 ^ 64) \<le> 2 ^ 100 * 1000000 * 2 ^ 64 * 2 ^ 64"
proof -
  have "damm_ok demo_damm" by (simp add: damm_ok_def demo_damm_def fees_ok_def transfer_fee_default_def)
  moreover have "damm_quote demo_damm 1000000 True = Inr 996487" by code_simp
  ultimately show ?thesis using damm_quote_keeps_curve [of demo_damm 1000000 True] by (simp add: demo_damm_def)
qed

end
