(* ===== verification/Host.thy ===== *)
theory Host
  imports Book Envelope
begin

text \<open>
  The execution host of \<open>runtime/mod.rs\<close>: balances, pins and the trait's operations as a record over a
  host state, its contract as a locale, and the in-memory host of \<open>runtime/fixture.rs\<close>.
\<close>

section \<open>The interface\<close>

record balances =
  bal_input :: nat
  bal_output :: nat

record edge_pin =
  pin_market :: key
  pin_program :: key
  pin_liquidity :: key
  pin_resources :: "64 word"
  pin_generation :: nat

definition pin_of :: "snapshot \<Rightarrow> edge_pin" where
  "pin_of s = \<lparr>pin_market = market s, pin_program = program s, pin_liquidity = liquidity_id s,
     pin_resources = writable_resources s, pin_generation = generation s\<rparr>"

record 'h host_ops =
  h_slot :: "'h \<Rightarrow> nat"
  h_snapshot :: "'h \<Rightarrow> nat \<Rightarrow> snapshot res"
  h_balances :: "'h \<Rightarrow> balances res"
  h_invoke :: "nat \<Rightarrow> nat \<Rightarrow> ('h, unit) comp"

text \<open>
  What a faithful host promises of an invocation that returns: the slot stays, balances can be
  read, and the venue took at most the request and paid its own exact quote of what it took.
\<close>

locale execution_host =
  fixes ops :: "'h host_ops"
  assumes slot_kept: "h_invoke ops i a h = (Inr u, h') \<Longrightarrow> h_slot ops h' = h_slot ops h"
    and balances_read: "\<exists>b. h_balances ops h = Inr b"
    and invoke_pays: "h_invoke ops i a h = (Inr u, h') \<Longrightarrow> h_balances ops h = Inr b \<Longrightarrow> h_balances ops h' = Inr b' \<Longrightarrow>
      \<exists>s spent q. h_snapshot ops h i = Inr s \<and> spent \<le> a \<and> exact_quote s spent = Inr q
        \<and> bal_input b = bal_input b' + spent \<and> bal_output b' = bal_output b + q"

section \<open>The in-memory host\<close>

record fixture_host =
  fx_venues :: "snapshot list"
  fx_len :: nat
  fx_balances :: balances
  fx_slot :: nat
  fx_caps :: "nat list"
  fx_fatal :: nat
  fx_calls :: nat

definition fixture_new :: "snapshot list \<Rightarrow> nat \<Rightarrow> nat \<Rightarrow> fixture_host res" where
  "fixture_new venues amount slot =
     (if venues = [] \<or> MAX_EDGES < length venues then fail Bounds
      else Inr \<lparr>fx_venues = venues @ replicate (MAX_EDGES - length venues) (hd venues), fx_len = length venues,
        fx_balances = \<lparr>bal_input = amount, bal_output = 0\<rparr>, fx_slot = slot, fx_caps = replicate MAX_EDGES (2 ^ 64 - 1),
        fx_fatal = 0, fx_calls = 0\<rparr>)"

definition fixture_snapshot :: "fixture_host \<Rightarrow> nat \<Rightarrow> snapshot res" where
  "fixture_snapshot h i = (if fx_len h \<le> i then fail Bounds else index_at (fx_venues h) i)"

definition updS :: "('s \<Rightarrow> 's) \<Rightarrow> ('s, unit) comp" where
  "updS f = (\<lambda>s. (Inr (), f s))"

definition set_venue :: "nat \<Rightarrow> snapshot \<Rightarrow> fixture_host \<Rightarrow> fixture_host" where
  "set_venue i s h = h\<lparr>fx_venues := (fx_venues h)[i := s]\<rparr>"

definition set_balances :: "nat \<Rightarrow> nat \<Rightarrow> fixture_host \<Rightarrow> fixture_host" where
  "set_balances i out h = h\<lparr>fx_balances := \<lparr>bal_input = i, bal_output = out\<rparr>\<rparr>"

text \<open>The levels an execution leaves, first to last.\<close>

fun book_rest :: "segment list \<Rightarrow> nat \<Rightarrow> segment list" where
  "book_rest [] remaining = []"
| "book_rest (l # ls) remaining =
     (let tk = min remaining (input_capacity l) in
      (if tk < input_capacity l then [l\<lparr>input_capacity := input_capacity l - tk\<rparr>] else []) @ book_rest ls (remaining - tk))"

text \<open>The venue after taking \<open>spent\<close> for \<open>out\<close>; every assignment of the code is one update.\<close>

definition venue_fill :: "nat \<Rightarrow> snapshot \<Rightarrow> nat \<Rightarrow> nat \<Rightarrow> (fixture_host, unit) comp" where
  "venue_fill i s spent out =
     bindS (case sn_model s of
         ConstantProduct reserve_in reserve_out fee \<Rightarrow>
           bindS (liftR (ok_or (checked_add 64 reserve_in spent) Arithmetic)) (\<lambda>rin.
           bindS (updS (set_venue i (s\<lparr>sn_model := ConstantProduct rin reserve_out fee\<rparr>))) (\<lambda>_.
           bindS (liftR (sub_w reserve_out out)) (\<lambda>rout.
           let s = s\<lparr>sn_model := ConstantProduct rin rout fee\<rparr> in
           bindS (updS (set_venue i s)) (\<lambda>_. ret s))))
       | Book levels n \<Rightarrow>
           let rest = book_rest (take n levels) spent; s = s\<lparr>sn_model := Book (pad_segments rest) (length rest)\<rparr> in
           bindS (updS (set_venue i s)) (\<lambda>_. ret s)) (\<lambda>s.
     bindS (liftR (sub_w (sn_capacity s) spent)) (\<lambda>capacity.
     let s = s\<lparr>sn_capacity := capacity\<rparr> in
     bindS (updS (set_venue i s)) (\<lambda>_.
     bindS (liftR (add_w 64 (generation s) 1)) (\<lambda>g.
     updS (set_venue i (s\<lparr>generation := g\<rparr>))))))"

definition fixture_fill :: "nat \<Rightarrow> nat \<Rightarrow> snapshot \<Rightarrow> nat \<Rightarrow> (fixture_host, unit) comp" where
  "fixture_fill i amount s cap h =
     (if \<not> enabled s \<or> expires_at_slot s < fx_slot h then (fail FatalCpi, h)
      else
        let spent = min (min amount cap) (sn_capacity s) in
        bindS (liftR (exact_quote s spent)) (\<lambda>out.
        bindS (liftR (ok_or (checked_sub (bal_input (fx_balances h)) spent) BalanceInvariant)) (\<lambda>left.
        bindS (updS (set_balances left (bal_output (fx_balances h)))) (\<lambda>_.
        bindS (liftR (ok_or (checked_add 64 (bal_output (fx_balances h)) out) Arithmetic)) (\<lambda>got.
        bindS (updS (set_balances left got)) (\<lambda>_.
        venue_fill i s spent out))))) h)"

definition fixture_invoke :: "nat \<Rightarrow> nat \<Rightarrow> (fixture_host, unit) comp" where
  "fixture_invoke i amount h =
     (if fx_len h \<le> i then (fail Bounds, h)
      else
        bindS (liftR (add_w 8 (fx_calls h) 1)) (\<lambda>k.
        bindS (updS (\<lambda>h. h\<lparr>fx_calls := k\<rparr>)) (\<lambda>_.
        bindS (liftR (if i < 8 then Inr () else Inl Panic)) (\<lambda>_.
        if bit (fx_fatal h) i then liftR (fail FatalCpi)
        else
          bindS (liftR (index_at (fx_venues h) i)) (\<lambda>s. bindS (liftR (index_at (fx_caps h) i)) (\<lambda>cap.
          fixture_fill i amount s cap))))) h)"

definition fixture_ops :: "fixture_host host_ops" where
  "fixture_ops = \<lparr>h_slot = fx_slot, h_snapshot = fixture_snapshot, h_balances = (\<lambda>h. Inr (fx_balances h)), h_invoke = fixture_invoke\<rparr>"

section \<open>The contract holds\<close>

lemma updS_Inr [simp]: "updS f s = (Inr u, s') \<longleftrightarrow> s' = f s"
  by (auto simp: updS_def)

lemma venue_fill_frame:
  "venue_fill i s spent out h = (Inr u, h') \<Longrightarrow> fx_slot h' = fx_slot h \<and> fx_balances h' = fx_balances h \<and> fx_len h' = fx_len h"
  unfolding venue_fill_def
  by (auto simp: bindS_Inr Let_def set_venue_def split: model.splits)

lemma fixture_invoke_pays:
  assumes "fixture_invoke i amount h = (Inr u, h')"
  obtains s spent q where "fixture_snapshot h i = Inr s" "spent \<le> amount" "exact_quote s spent = Inr q"
    "bal_input (fx_balances h) = bal_input (fx_balances h') + spent" "bal_output (fx_balances h') = bal_output (fx_balances h) + q"
    "fx_slot h' = fx_slot h"
proof -
  from assms obtain k s cap where s: "\<not> fx_len h \<le> i" "index_at (fx_venues h) i = Inr s"
    and fill: "fixture_fill i amount s cap (h\<lparr>fx_calls := k\<rparr>) = (Inr u, h')"
    unfolding fixture_invoke_def by (auto simp: bindS_Inr split: if_splits)
  let ?spent = "min (min amount cap) (sn_capacity s)"
  from fill obtain q where q: "exact_quote s ?spent = Inr q" "?spent \<le> bal_input (fx_balances h)"
    and rest: "venue_fill i s ?spent q (set_balances (bal_input (fx_balances h) - ?spent) (bal_output (fx_balances h) + q)
       (set_balances (bal_input (fx_balances h) - ?spent) (bal_output (fx_balances h)) (h\<lparr>fx_calls := k\<rparr>))) = (Inr u, h')"
    unfolding fixture_fill_def
    by (auto simp: bindS_Inr ok_or_Inr checked_sub_Some checked_add_Some Let_def simp del: min_less_iff_conj split: if_splits)
  note frame = venue_fill_frame [OF rest]
  show thesis
  proof (rule that [OF _ _ q(1)])
    show "fixture_snapshot h i = Inr s" using s by (simp add: fixture_snapshot_def)
    show "bal_input (fx_balances h) = bal_input (fx_balances h') + ?spent" using frame q(2) by (simp add: set_balances_def)
  qed (use frame in \<open>simp_all add: set_balances_def\<close>)
qed

interpretation fixture: execution_host fixture_ops
proof
  fix i a u and h h' :: fixture_host
  assume run: "h_invoke fixture_ops i a h = (Inr u, h')"
  then have run: "fixture_invoke i a h = (Inr u, h')" by (simp add: fixture_ops_def)
  then show "h_slot fixture_ops h' = h_slot fixture_ops h" by (auto elim: fixture_invoke_pays simp: fixture_ops_def)
  fix b b'
  assume "h_balances fixture_ops h = Inr b" "h_balances fixture_ops h' = Inr b'"
  then have b: "b = fx_balances h" "b' = fx_balances h'" by (simp_all add: fixture_ops_def)
  show "\<exists>s spent q. h_snapshot fixture_ops h i = Inr s \<and> spent \<le> a \<and> exact_quote s spent = Inr q
        \<and> bal_input b = bal_input b' + spent \<and> bal_output b' = bal_output b + q"
    using run unfolding b by (auto elim!: fixture_invoke_pays simp: fixture_ops_def)
qed (simp add: fixture_ops_def)

end
