(* ===== verification/Reflow.thy ===== *)
theory Reflow
  imports Host Certify
begin

text \<open>
  Reflow execution (\<open>reflow/mod.rs\<close>): read the venues, compile what changed, solve for the residual,
  invoke one leg, observe the balances, and again until nothing is left. The state is the host and
  the work meter; the other locals of the loop are a record.
\<close>

section \<open>Data\<close>

record reflow_intent =
  ri_input_mint :: key
  ri_output_mint :: key
  ri_amount_in :: nat
  ri_min_out :: nat
  ri_expires_at_slot :: nat
  ri_max_snapshot_age :: nat

record reflow_limits =
  rl_max_legs :: nat
  rl_max_reflows :: nat
  rl_max_work :: nat

definition reflow_limits_default :: reflow_limits where
  "reflow_limits_default = \<lparr>rl_max_legs = 4, rl_max_reflows = 3, rl_max_work = 200000\<rparr>"

record leg_trace =
  lt_edge :: nat
  lt_requested :: nat
  lt_spent :: nat
  lt_received :: nat
  lt_residual :: nat
  lt_eligible :: nat
  lt_chosen :: nat

definition leg_default :: leg_trace where
  "leg_default = \<lparr>lt_edge = 0, lt_requested = 0, lt_spent = 0, lt_received = 0, lt_residual = 0, lt_eligible = 0, lt_chosen = 0\<rparr>"

record receipt =
  rc_initial :: search_report
  rc_input_spent :: nat
  rc_output_received :: nat
  rc_legs :: nat
  rc_reflows :: nat
  rc_work_units :: nat
  rc_curves_compiled :: nat
  rc_tape_builds :: nat
  rc_trace :: "leg_trace list"

definition report_default :: search_report where
  "report_default = \<lparr>rp_plan = allocation_default,
     rp_certificate = \<lparr>upper_output = 0, achieved_output = 0, gap_atoms = 0\<rparr>, rp_stats = stats_default\<rparr>"

definition receipt_default :: receipt where
  "receipt_default = \<lparr>rc_initial = report_default, rc_input_spent = 0, rc_output_received = 0, rc_legs = 0, rc_reflows = 0,
     rc_work_units = 0, rc_curves_compiled = 0, rc_tape_builds = 0, rc_trace = replicate MAX_LEGS leg_default\<rparr>"

record reflow_state =
  rs_before :: balances
  rs_remaining :: nat
  rs_used :: nat
  rs_resources :: "64 word"
  rs_receipt :: receipt
  rs_snapshots :: "snapshot list"
  rs_curves :: "curve list"
  rs_tape :: "residual_tape option"

section \<open>One reading of the venues\<close>

record pin_scan =
  ps_snapshots :: "snapshot list"
  ps_curves :: "curve list"
  ps_compiled :: nat
  ps_dirty :: bool
  ps_eligible :: nat

definition pin_identity :: "reflow_intent \<Rightarrow> edge_pin \<Rightarrow> snapshot \<Rightarrow> bool" where
  "pin_identity intent pin s \<longleftrightarrow>
     market s = pin_market pin \<and> program s = pin_program pin \<and> liquidity_id s = pin_liquidity pin \<and>
     input_mint s = ri_input_mint intent \<and> output_mint s = ri_output_mint intent \<and> writable_resources s = pin_resources pin"

definition pin_available :: "reflow_intent \<Rightarrow> edge_pin \<Rightarrow> nat \<Rightarrow> snapshot \<Rightarrow> bool" where
  "pin_available intent pin slot s \<longleftrightarrow>
     enabled s \<and> atomic s \<and> sn_capacity s \<noteq> 0 \<and> slot \<le> expires_at_slot s \<and> sn_slot s \<le> slot
     \<and> slot - sn_slot s \<le> ri_max_snapshot_age intent \<and> pin_generation pin \<le> generation s"

definition scan_pin ::
  "'h host_ops \<Rightarrow> 'h \<Rightarrow> reflow_intent \<Rightarrow> nat \<Rightarrow> nat \<Rightarrow> 64 word \<Rightarrow> edge_pin \<Rightarrow> nat \<Rightarrow> pin_scan \<Rightarrow> pin_scan metered"
where
  "scan_pin ops h intent slot spent_mask resources pin i st =
     bindS (charge 1) (\<lambda>_. bindS (liftR (h_snapshot ops h i)) (\<lambda>s.
     if \<not> pin_identity intent pin s then liftR (fail Identity)
     else if bit spent_mask i \<or> and resources (writable_resources s) \<noteq> 0 then ret st
     else if \<not> pin_available intent pin slot s then ret st
     else
       bindS (if cv_len (ps_curves st ! i) = 0 \<or> ps_snapshots st ! i \<noteq> s then
                bindS (compile s (ri_amount_in intent)) (\<lambda>c. bindS (liftR (add_w 16 (ps_compiled st) 1)) (\<lambda>k.
                ret (st\<lparr>ps_curves := (ps_curves st)[i := c], ps_compiled := k, ps_dirty := True\<rparr>)))
              else ret st) (\<lambda>st.
       ret (st\<lparr>ps_snapshots := (ps_snapshots st)[i := s], ps_eligible := or (ps_eligible st) (2 ^ i)\<rparr>))))"

fun scan_pins ::
  "'h host_ops \<Rightarrow> 'h \<Rightarrow> reflow_intent \<Rightarrow> nat \<Rightarrow> nat \<Rightarrow> 64 word \<Rightarrow> edge_pin list \<Rightarrow> nat \<Rightarrow> pin_scan \<Rightarrow> pin_scan metered"
where
  "scan_pins ops h intent slot spent_mask resources [] i st = ret st"
| "scan_pins ops h intent slot spent_mask resources (pin # pins) i st =
     bindS (scan_pin ops h intent slot spent_mask resources pin i st)
       (scan_pins ops h intent slot spent_mask resources pins (Suc i))"

text \<open>The selected venue that expires first; the lower index on a tie.\<close>

fun earliest :: "snapshot list \<Rightarrow> nat list \<Rightarrow> nat list \<Rightarrow> nat option \<Rightarrow> nat option" where
  "earliest snapshots xs [] best = best"
| "earliest snapshots xs (i # is) best =
     earliest snapshots xs is
       (if xs ! i = 0 then best
        else case best of
          None \<Rightarrow> Some i
        | Some j \<Rightarrow> if expires_at_slot (snapshots ! i) < expires_at_slot (snapshots ! j) then Some i else best)"

section \<open>The loop\<close>

type_synonym ('h, 'a) exec = "('h \<times> work_meter, 'a) comp"

definition on_meter :: "'a metered \<Rightarrow> ('h, 'a) exec" where
  "on_meter c = (\<lambda>(h, m). case c m of (r, m') \<Rightarrow> (r, (h, m')))"

definition on_host :: "('h, 'a) comp \<Rightarrow> ('h, 'a) exec" where
  "on_host c = (\<lambda>(h, m). case c h of (r, h') \<Rightarrow> (r, (h', m)))"

text \<open>Reading the host leaves it.\<close>

definition scan_host :: "'h host_ops \<Rightarrow> edge_pin list \<Rightarrow> reflow_intent \<Rightarrow> nat \<Rightarrow> reflow_state \<Rightarrow> ('h, pin_scan) exec" where
  "scan_host ops pins intent slot st = (\<lambda>(h, m).
     on_meter (scan_pins ops h intent slot (rs_used st) (rs_resources st) pins 0
       \<lparr>ps_snapshots = rs_snapshots st, ps_curves = rs_curves st, ps_compiled = rc_curves_compiled (rs_receipt st),
        ps_dirty = (rs_tape st = None), ps_eligible = 0\<rparr>) (h, m))"

definition read_host :: "('h \<Rightarrow> 'a res) \<Rightarrow> ('h, 'a) exec" where
  "read_host f = (\<lambda>(h, m). (f h, (h, m)))"

text \<open>Solving for the residual: the tape is rebuilt only when a curve was compiled.\<close>

definition solve_residual ::
  "edge_pin list \<Rightarrow> reflow_limits \<Rightarrow> reflow_state \<Rightarrow> pin_scan \<Rightarrow> nat \<Rightarrow> (residual_tape \<times> nat \<times> search_report) metered"
where
  "solve_residual pins limits st sc reflows =
     (let curves = take (length pins) (ps_curves sc); snapshots = take (length pins) (ps_snapshots sc); rec = rs_receipt st in
      bindS (if ps_dirty sc then
               bindS (build curves (ps_eligible sc)) (\<lambda>t. bindS (liftR (add_w 8 (rc_tape_builds rec) 1)) (\<lambda>k. ret (Some t, k)))
             else ret (rs_tape st, rc_tape_builds rec)) (\<lambda>(tape, builds).
      bindS (liftR (sub_w (rl_max_legs limits) (rc_legs rec))) (\<lambda>legs_left.
      bindS (liftR (sub_w (rl_max_reflows limits) reflows)) (\<lambda>reflows_left.
      bindS (liftR (ok_or tape InvalidCurve)) (\<lambda>t.
      bindS (search_tape snapshots curves t (rs_remaining st) (ps_eligible sc) (min legs_left (reflows_left + 1))) (\<lambda>report.
      ret (t, builds, report)))))))"

text \<open>What one leg must show in the observed balances.\<close>

definition observe :: "balances \<Rightarrow> balances \<Rightarrow> nat \<Rightarrow> nat \<Rightarrow> (nat \<times> nat) res" where
  "observe before after request remaining =
     bindR (ok_or (checked_sub (bal_input before) (bal_input after)) BalanceInvariant) (\<lambda>spent.
     bindR (ok_or (checked_sub (bal_output after) (bal_output before)) BalanceInvariant) (\<lambda>received.
     if request < spent \<or> remaining < spent \<or> (spent = 0 \<and> received \<noteq> 0) \<or> (0 < spent \<and> received = 0) then fail BalanceInvariant
     else Inr (spent, received)))"

definition reflow_leg ::
  "'h host_ops \<Rightarrow> edge_pin list \<Rightarrow> reflow_intent \<Rightarrow> reflow_limits \<Rightarrow> nat \<Rightarrow> reflow_state \<Rightarrow> ('h, reflow_state) exec"
where
  "reflow_leg ops pins intent limits slot st =
     (let rec = rs_receipt st in
      bindS (liftR (if rc_legs rec = 0 then Inr (rc_reflows rec)
                    else if rl_max_reflows limits \<le> rc_reflows rec then fail Bounds else add_w 8 (rc_reflows rec) 1)) (\<lambda>reflows.
      bindS (read_host (\<lambda>h. Inr (h_slot ops h))) (\<lambda>now.
      if now \<noteq> slot then liftR (fail Stale)
      else
        bindS (scan_host ops pins intent slot st) (\<lambda>sc.
        if ps_eligible sc = 0 then liftR (fail Capacity)
        else
          bindS (on_meter (solve_residual pins limits st sc reflows)) (\<lambda>(tape, builds, report).
          bindS (liftR (ok_or (earliest (ps_snapshots sc) (inputs (rp_plan report)) [0..<length pins] None) Capacity)) (\<lambda>edge.
          let request = inputs (rp_plan report) ! edge in
          bindS (on_meter (charge 1)) (\<lambda>_.
          bindS (on_host (h_invoke ops edge request)) (\<lambda>_.
          bindS (read_host (h_balances ops)) (\<lambda>after.
          bindS (liftR (observe (rs_before st) after request (rs_remaining st))) (\<lambda>(spent, received).
          bindS (liftR (sub_w (rs_remaining st) spent)) (\<lambda>remaining.
          let leg = \<lparr>lt_edge = edge, lt_requested = request, lt_spent = spent, lt_received = received, lt_residual = remaining,
                lt_eligible = ps_eligible sc, lt_chosen = al_mask (rp_plan report)\<rparr> in
          bindS (liftR (store_at (rc_trace rec) (rc_legs rec) leg)) (\<lambda>trace.
          bindS (liftR (add_w 8 (rc_legs rec) 1)) (\<lambda>legs.
          ret \<lparr>rs_before = after, rs_remaining = remaining, rs_used = or (rs_used st) (2 ^ edge),
               rs_resources = or (rs_resources st) (writable_resources (ps_snapshots sc ! edge)),
               rs_receipt = rec\<lparr>rc_initial := (if rc_legs rec = 0 then report else rc_initial rec), rc_reflows := reflows,
                 rc_curves_compiled := ps_compiled sc, rc_tape_builds := builds, rc_trace := trace, rc_legs := legs\<rparr>,
               rs_snapshots = ps_snapshots sc, rs_curves = ps_curves sc, rs_tape = Some tape\<rparr>)))))))))))))"

text \<open>The first argument is the number of legs left, \<open>max_legs - legs\<close>; each round executes one.\<close>

fun reflow_loop ::
  "nat \<Rightarrow> 'h host_ops \<Rightarrow> edge_pin list \<Rightarrow> reflow_intent \<Rightarrow> reflow_limits \<Rightarrow> nat \<Rightarrow> reflow_state \<Rightarrow> ('h, reflow_state) exec"
where
  "reflow_loop 0 ops pins intent limits slot st = liftR (fail Bounds)"
| "reflow_loop (Suc legs_left) ops pins intent limits slot st =
     bindS (reflow_leg ops pins intent limits slot st) (\<lambda>st.
     if rs_remaining st = 0 then ret st else reflow_loop legs_left ops pins intent limits slot st)"

definition pins_alias :: "edge_pin list \<Rightarrow> bool" where
  "pins_alias pins \<longleftrightarrow>
     list_ex (\<lambda>i. list_ex (\<lambda>j. pin_market (pins ! i) = pin_market (pins ! j) \<or> pin_liquidity (pins ! i) = pin_liquidity (pins ! j))
       [0..<i]) [0..<length pins]"

text \<open>The final accounting.\<close>

definition close_receipt :: "reflow_intent \<Rightarrow> balances \<Rightarrow> reflow_state \<Rightarrow> work_meter \<Rightarrow> receipt res" where
  "close_receipt intent start st m =
     bindR (ok_or (checked_sub (bal_input start) (bal_input (rs_before st))) BalanceInvariant) (\<lambda>spent.
     bindR (ok_or (checked_sub (bal_output (rs_before st)) (bal_output start)) BalanceInvariant) (\<lambda>received.
     if spent \<noteq> ri_amount_in intent then fail BalanceInvariant
     else if received < ri_min_out intent then fail MinOut
     else Inr ((rs_receipt st)\<lparr>rc_input_spent := spent, rc_output_received := received, rc_work_units := work_meter.used m\<rparr>)))"

definition execute ::
  "'h host_ops \<Rightarrow> edge_pin list \<Rightarrow> reflow_intent \<Rightarrow> reflow_limits \<Rightarrow> ('h, receipt) comp"
where
  "execute ops pins intent limits h =
     (if pins = [] \<or> MAX_EDGES < length pins \<or> rl_max_legs limits = 0 \<or> MAX_LEGS < rl_max_legs limits
         \<or> MAX_REFLOWS < rl_max_reflows limits then (fail Bounds, h)
      else if ri_amount_in intent = 0 \<or> MAX_ATOMS < ri_amount_in intent \<or> ri_input_mint intent = ri_output_mint intent
        then (fail InvalidAmount, h)
      else if pins_alias pins then (fail AliasedLiquidity, h)
      else if ri_expires_at_slot intent < h_slot ops h then (fail Expired, h)
      else
        case h_balances ops h of
          Inl e \<Rightarrow> (Inl e, h)
        | Inr start \<Rightarrow>
            if bal_input start < ri_amount_in intent then (fail BalanceInvariant, h)
            else
              case h_snapshot ops h 0 of
                Inl e \<Rightarrow> (Inl e, h)
              | Inr s0 \<Rightarrow>
                  case bindS (reflow_loop (rl_max_legs limits) ops pins intent limits (h_slot ops h)
                      \<lparr>rs_before = start, rs_remaining = ri_amount_in intent, rs_used = 0, rs_resources = 0,
                       rs_receipt = receipt_default, rs_snapshots = replicate MAX_EDGES s0,
                       rs_curves = replicate MAX_EDGES curve_default, rs_tape = None\<rparr>) (\<lambda>st (h, m).
                      (close_receipt intent start st m, (h, m))) (h, meter_new (rl_max_work limits)) of
                    (r, (h', _)) \<Rightarrow> (r, h'))"

definition fixture_atomic :: "edge_pin list \<Rightarrow> reflow_intent \<Rightarrow> reflow_limits \<Rightarrow> (fixture_host, receipt) comp" where
  "fixture_atomic pins intent limits h =
     (case execute fixture_ops pins intent limits h of (Inl e, _) \<Rightarrow> (Inl e, h) | (Inr receipt, staged) \<Rightarrow> (Inr receipt, staged))"

section \<open>Runs of invocations\<close>

text \<open>A run of legs: each was invoked in turn and its trace is the change of the balances around it.\<close>

inductive leg_run :: "'h host_ops \<Rightarrow> leg_trace list \<Rightarrow> 'h \<Rightarrow> 'h \<Rightarrow> bool" for ops where
  none: "leg_run ops [] h h"
| leg: "leg_run ops ts h h1 \<Longrightarrow> h_balances ops h1 = Inr b \<Longrightarrow> h_invoke ops (lt_edge t) (lt_requested t) h1 = (Inr (), h2) \<Longrightarrow>
    h_balances ops h2 = Inr b' \<Longrightarrow> bal_input b = bal_input b' + lt_spent t \<Longrightarrow> bal_output b' = bal_output b + lt_received t \<Longrightarrow>
    leg_run ops (ts @ [t]) h h2"

text \<open>A number of invocations that returned.\<close>

inductive invoked :: "'h host_ops \<Rightarrow> nat \<Rightarrow> 'h \<Rightarrow> 'h \<Rightarrow> bool" for ops where
  none: "invoked ops 0 h h"
| call: "invoked ops n h h1 \<Longrightarrow> h_invoke ops i a h1 = (Inr (), h2) \<Longrightarrow> invoked ops (Suc n) h h2"

lemma leg_run_invoked: "leg_run ops ts h h' \<Longrightarrow> invoked ops (length ts) h h'"
  by (induction rule: leg_run.induct) (auto intro: invoked.intros)

lemma leg_run_totals:
  "leg_run ops ts h h' \<Longrightarrow> h_balances ops h = Inr b \<Longrightarrow> h_balances ops h' = Inr b' \<Longrightarrow>
   bal_input b = bal_input b' + sum_list (map lt_spent ts) \<and> bal_output b' = bal_output b + sum_list (map lt_received ts)"
  by (induction arbitrary: b' rule: leg_run.induct) auto

lemma on_meter_eq [simp]: "on_meter c (h, m) = (r, s') \<longleftrightarrow> (\<exists>m'. c m = (r, m') \<and> s' = (h, m'))"
  by (cases "c m") (auto simp: on_meter_def)

lemma on_host_eq [simp]: "on_host c (h, m) = (r, s') \<longleftrightarrow> (\<exists>h'. c h = (r, h') \<and> s' = (h', m))"
  by (cases "c h") (auto simp: on_host_def)

lemma read_host_eq [simp]: "read_host f (h, m) = (r, s') \<longleftrightarrow> r = f h \<and> s' = (h, m)"
  by (auto simp: read_host_def)

section \<open>What the scan keeps\<close>

definition scan_ok :: "pin_scan \<Rightarrow> bool" where
  "scan_ok st \<longleftrightarrow> arrays_ok (ps_curves st) \<and> length (ps_curves st) = MAX_EDGES \<and> length (ps_snapshots st) = MAX_EDGES"

lemma compile_array:
  assumes "compile s h m = (Inr c, m')"
  shows "length (segments c) = MAX_SEGMENTS"
proof (cases "sn_model s")
  case (Book levels n)
  note g = compile_guards [OF assms]
  show ?thesis using compile_book_Inr(9) [OF compile_book_model [OF assms Book]] g by simp
next
  case (ConstantProduct r y fee)
  note g = compile_guards [OF assms]
  have "compile_cp r y fee (min (sn_capacity s) h) m = (Inr c, m')"
    using assms ConstantProduct by (auto simp: compile_def Let_def split: if_splits)
  from compile_cp_Inr(8) [OF this] g show ?thesis by simp
qed

lemma arrays_ok_update: "arrays_ok cs \<Longrightarrow> length (segments c) = MAX_SEGMENTS \<Longrightarrow> arrays_ok (cs[i := c])"
  unfolding arrays_ok_def by (auto dest: set_update_subset_insert [THEN subsetD])

lemma scan_pin_ok:
  assumes "scan_pin ops h intent slot spent_mask resources pin i st m = (Inr st', m')" "scan_ok st"
  shows "scan_ok st' \<and> (\<forall>j. bit (ps_eligible st') j \<longrightarrow> bit (ps_eligible st) j \<or> (j = i \<and> \<not> bit spent_mask j))
    \<and> (ps_dirty st \<longrightarrow> ps_dirty st')"
  using assms unfolding scan_pin_def scan_ok_def
  by (auto simp: bindS_Inr bit_or_iff bit_exp_iff possible_bit_def split: if_splits dest!: compile_array intro: arrays_ok_update)

lemma scan_pins_ok:
  "scan_pins ops h intent slot spent_mask resources pins i st m = (Inr st', m') \<Longrightarrow> scan_ok st \<Longrightarrow>
   scan_ok st' \<and> (\<forall>j. bit (ps_eligible st') j \<longrightarrow> bit (ps_eligible st) j \<or> (i \<le> j \<and> j < i + length pins \<and> \<not> bit spent_mask j))
    \<and> (ps_dirty st \<longrightarrow> ps_dirty st')"
proof (induction pins arbitrary: i st m)
  case (Cons pin pins)
  from Cons.prems(1) obtain st1 m1 where s: "scan_pin ops h intent slot spent_mask resources pin i st m = (Inr st1, m1)"
    and rest: "scan_pins ops h intent slot spent_mask resources pins (Suc i) st1 m1 = (Inr st', m')" by (auto simp: bindS_Inr)
  note one = scan_pin_ok [OF s Cons.prems(2)]
  note more = Cons.IH [OF rest conjunct1 [OF one]]
  have "bit (ps_eligible st) j \<or> (i \<le> j \<and> j < i + length (pin # pins) \<and> \<not> bit spent_mask j)" if "bit (ps_eligible st') j" for j
    using more one that by fastforce
  then show ?case using one more by blast
qed simp

lemma earliest_Some: "earliest ss xs is best = Some e \<Longrightarrow> best = Some e \<or> (e \<in> set is \<and> xs ! e \<noteq> 0)"
  by (induction "is" arbitrary: best) (fastforce split: if_splits option.splits)+

lemma eligible_bound:
  assumes "\<forall>j. bit n j \<longrightarrow> j < 8"
  shows "(n :: nat) < 256"
proof (rule ccontr)
  assume "\<not> n < 256"
  then have "drop_bit 8 n \<noteq> 0" by (simp add: drop_bit_eq_div div_eq_0_iff)
  then obtain i where "bit (drop_bit 8 n) i" using mask_nonzero by blast
  then show False using assms by (fastforce simp: bit_drop_bit_eq)
qed

lemma solve_residual_ok:
  assumes run: "solve_residual pins limits st sc reflows m = (Inr (t, builds, rep), m')"
    and sc: "scan_ok sc" "\<forall>j. bit (ps_eligible sc) j \<longrightarrow> j < length pins" "length pins \<le> MAX_EDGES"
    and tape: "\<not> ps_dirty sc \<Longrightarrow> \<exists>cs sel k t k'. rs_tape st = Some t \<and> build cs sel k = (Inr t, k') \<and> arrays_ok cs"
  shows "(\<exists>cs sel k k'. build cs sel k = (Inr t, k') \<and> arrays_ok cs)
    \<and> feasible_plan (take (length pins) (ps_curves sc)) (ps_eligible sc) (rs_remaining st) (rp_plan rep)"
proof -
  let ?cs = "take (length pins) (ps_curves sc)"
  have arr: "arrays_ok ?cs" using sc(1) unfolding scan_ok_def arrays_ok_def by (auto dest: in_set_takeD)
  from run obtain legs m1 m2 where search: "search_tape (take (length pins) (ps_snapshots sc)) ?cs t (rs_remaining st) (ps_eligible sc) legs m1 = (Inr rep, m2)"
    and built: "\<exists>cs sel k k'. build cs sel k = (Inr t, k') \<and> arrays_ok cs"
    unfolding solve_residual_def Let_def
    using arr tape by (auto simp: bindS_Inr ok_or_Inr split: if_splits) blast+
  then obtain cs sel k k' where b: "build cs sel k = (Inr t, k')" "arrays_ok cs" by blast
  have "ps_eligible sc < 256" using sc(2,3) by (intro eligible_bound) (auto simp: MAX_EDGES_def)
  then have prep: "tape_prepared t ?cs (ps_eligible sc)"
    using search by (intro build_prepares [OF b arr]) (auto simp: search_tape_def split: if_splits)
  have "search_with (take (length pins) (ps_snapshots sc)) ?cs (rs_remaining st) (ps_eligible sc) legs (tape_query ?cs t (rs_remaining st)) m1 = (Inr rep, m2)"
    using search by (simp add: search_tape_def split: if_splits)
  from tape.report_sound(1) [OF this prep arr] show ?thesis using built by (simp add: report_ok_def Let_def)
qed

section \<open>The invariant of the loop\<close>

definition legs_of :: "receipt \<Rightarrow> leg_trace list" where
  "legs_of rec = take (rc_legs rec) (rc_trace rec)"

definition leg_ok :: "edge_pin list \<Rightarrow> nat \<Rightarrow> leg_trace \<Rightarrow> bool" where
  "leg_ok pins taken t \<longleftrightarrow> lt_edge t < length pins \<and> bit taken (lt_edge t) \<and> lt_spent t \<le> lt_requested t \<and> (lt_spent t = 0 \<longleftrightarrow> lt_received t = 0)"

definition reflow_ok ::
  "'h host_ops \<Rightarrow> edge_pin list \<Rightarrow> reflow_intent \<Rightarrow> reflow_limits \<Rightarrow> 'h \<Rightarrow> reflow_state \<Rightarrow> 'h \<Rightarrow> bool"
where
  "reflow_ok ops pins intent limits h0 st h \<longleftrightarrow>
     (let rec = rs_receipt st in
      length (rc_trace rec) = MAX_LEGS \<and> rc_legs rec \<le> MAX_LEGS \<and> rc_legs rec \<le> rl_max_legs limits
      \<and> rc_reflows rec = rc_legs rec - 1 \<and> rc_reflows rec \<le> rl_max_reflows limits
      \<and> leg_run ops (legs_of rec) h0 h \<and> h_balances ops h = Inr (rs_before st)
      \<and> rs_remaining st + sum_list (map lt_spent (legs_of rec)) = ri_amount_in intent
      \<and> distinct (map lt_edge (legs_of rec)) \<and> (\<forall>t \<in> set (legs_of rec). leg_ok pins (rs_used st) t)
      \<and> arrays_ok (rs_curves st) \<and> length (rs_curves st) = MAX_EDGES \<and> length (rs_snapshots st) = MAX_EDGES
      \<and> (\<forall>t. rs_tape st = Some t \<longrightarrow> (\<exists>cs sel k k'. build cs sel k = (Inr t, k') \<and> arrays_ok cs)))"

lemma legs_of_snoc:
  assumes "store_at (rc_trace rec) (rc_legs rec) leg = Inr trace" "rc_trace rec' = trace" "rc_legs rec' = rc_legs rec + 1"
  shows "legs_of rec' = legs_of rec @ [leg]"
  using assms by (simp add: legs_of_def store_at_Inr take_Suc_conv_app_nth)

lemma observe_Inr:
  "observe before after request remaining = Inr (paid, received) \<longleftrightarrow>
     bal_input after \<le> bal_input before \<and> bal_output before \<le> bal_output after \<and> paid = bal_input before - bal_input after
     \<and> received = bal_output after - bal_output before \<and> paid \<le> request \<and> paid \<le> remaining \<and> (paid = 0 \<longleftrightarrow> received = 0)"
  by (auto simp: observe_def bindR_Inr ok_or_Inr checked_sub_Some)

text \<open>The steps of one leg, on success.\<close>

lemma reflow_leg_steps:
  assumes "reflow_leg ops pins intent limits slot st (h, m) = (Inr st', (h', m'))"
  obtains reflows sc m1 tape builds rep m2 m3 edge after spent received trace where
    "if rc_legs (rs_receipt st) = 0 then reflows = rc_reflows (rs_receipt st)
     else rc_reflows (rs_receipt st) < rl_max_reflows limits \<and> reflows = rc_reflows (rs_receipt st) + 1"
    "h_slot ops h = slot"
    "scan_pins ops h intent slot (rs_used st) (rs_resources st) pins 0
       \<lparr>ps_snapshots = rs_snapshots st, ps_curves = rs_curves st, ps_compiled = rc_curves_compiled (rs_receipt st),
        ps_dirty = (rs_tape st = None), ps_eligible = 0\<rparr> m = (Inr sc, m1)"
    "solve_residual pins limits st sc reflows m1 = (Inr (tape, builds, rep), m2)"
    "earliest (ps_snapshots sc) (inputs (rp_plan rep)) [0..<length pins] None = Some edge"
    "h_invoke ops edge (inputs (rp_plan rep) ! edge) h = (Inr (), h')"
    "h_balances ops h' = Inr after"
    "observe (rs_before st) after (inputs (rp_plan rep) ! edge) (rs_remaining st) = Inr (spent, received)"
    "store_at (rc_trace (rs_receipt st)) (rc_legs (rs_receipt st))
       \<lparr>lt_edge = edge, lt_requested = inputs (rp_plan rep) ! edge, lt_spent = spent, lt_received = received,
        lt_residual = rs_remaining st - spent, lt_eligible = ps_eligible sc, lt_chosen = al_mask (rp_plan rep)\<rparr> = Inr trace"
    "st' = \<lparr>rs_before = after, rs_remaining = rs_remaining st - spent, rs_used = or (rs_used st) (2 ^ edge),
       rs_resources = or (rs_resources st) (writable_resources (ps_snapshots sc ! edge)),
       rs_receipt = (rs_receipt st)\<lparr>rc_initial := (if rc_legs (rs_receipt st) = 0 then rep else rc_initial (rs_receipt st)), rc_reflows := reflows,
         rc_curves_compiled := ps_compiled sc, rc_tape_builds := builds, rc_trace := trace, rc_legs := rc_legs (rs_receipt st) + 1\<rparr>,
       rs_snapshots = ps_snapshots sc, rs_curves = ps_curves sc, rs_tape = Some tape\<rparr>"
  using assms unfolding reflow_leg_def Let_def scan_host_def
  by (auto simp: bindS_Inr ok_or_Inr add_w_Inr sub_w_Inr split: if_splits prod.splits)

lemma reflow_leg_ok:
  assumes run: "reflow_leg ops pins intent limits slot st (h, m) = (Inr st', (h', m'))"
    and ok: "reflow_ok ops pins intent limits h0 st h" and pins: "length pins \<le> MAX_EDGES"
    and room: "rc_legs (rs_receipt st) < rl_max_legs limits" "rl_max_legs limits \<le> MAX_LEGS"
  shows "reflow_ok ops pins intent limits h0 st' h' \<and> rc_legs (rs_receipt st') = rc_legs (rs_receipt st) + 1"
  using run
proof (rule reflow_leg_steps)
  fix reflows m1 tape builds m2 edge paid received trace and sc :: pin_scan and rep :: search_report and after :: balances
  let ?rec = "rs_receipt st" let ?request = "inputs (rp_plan rep) ! edge"
  let ?leg = "\<lparr>lt_edge = edge, lt_requested = ?request, lt_spent = paid, lt_received = received,
        lt_residual = rs_remaining st - paid, lt_eligible = ps_eligible sc, lt_chosen = al_mask (rp_plan rep)\<rparr>"
  assume reflows: "if rc_legs ?rec = 0 then reflows = rc_reflows ?rec else rc_reflows ?rec < rl_max_reflows limits \<and> reflows = rc_reflows ?rec + 1"
    and scan: "scan_pins ops h intent slot (rs_used st) (rs_resources st) pins 0
       \<lparr>ps_snapshots = rs_snapshots st, ps_curves = rs_curves st, ps_compiled = rc_curves_compiled ?rec,
        ps_dirty = (rs_tape st = None), ps_eligible = 0\<rparr> m = (Inr sc, m1)"
    and solve: "solve_residual pins limits st sc reflows m1 = (Inr (tape, builds, rep), m2)"
    and edge: "earliest (ps_snapshots sc) (inputs (rp_plan rep)) [0..<length pins] None = Some edge"
    and invoke: "h_invoke ops edge ?request h = (Inr (), h')" and after: "h_balances ops h' = Inr after"
    and seen: "observe (rs_before st) after ?request (rs_remaining st) = Inr (paid, received)"
    and trace: "store_at (rc_trace ?rec) (rc_legs ?rec) ?leg = Inr trace"
    and st': "st' = \<lparr>rs_before = after, rs_remaining = rs_remaining st - paid, rs_used = or (rs_used st) (2 ^ edge),
       rs_resources = or (rs_resources st) (writable_resources (ps_snapshots sc ! edge)),
       rs_receipt = ?rec\<lparr>rc_initial := (if rc_legs ?rec = 0 then rep else rc_initial ?rec), rc_reflows := reflows,
         rc_curves_compiled := ps_compiled sc, rc_tape_builds := builds, rc_trace := trace, rc_legs := rc_legs ?rec + 1\<rparr>,
       rs_snapshots = ps_snapshots sc, rs_curves = ps_curves sc, rs_tape = Some tape\<rparr>"
  note inv = ok [unfolded reflow_ok_def Let_def]
  have "scan_ok \<lparr>ps_snapshots = rs_snapshots st, ps_curves = rs_curves st, ps_compiled = rc_curves_compiled ?rec,
        ps_dirty = (rs_tape st = None), ps_eligible = 0\<rparr>" using inv by (simp add: scan_ok_def)
  note sc = scan_pins_ok [OF scan this]
  have eligible: "\<forall>j. bit (ps_eligible sc) j \<longrightarrow> j < length pins" "\<forall>j. bit (ps_eligible sc) j \<longrightarrow> \<not> bit (rs_used st) j"
    using sc by auto
  have "\<exists>cs sel k t k'. rs_tape st = Some t \<and> build cs sel k = (Inr t, k') \<and> arrays_ok cs" if "\<not> ps_dirty sc"
    using sc inv that by auto
  note plan = solve_residual_ok [OF solve conjunct1 [OF sc] eligible(1) pins this]
  have e: "edge < length pins" "?request \<noteq> 0" using earliest_Some [OF edge] by auto
  then have "edge < MAX_EDGES" using pins by simp
  then have "?request \<le> (if edge < length (take (length pins) (ps_curves sc)) \<and> bit (ps_eligible sc) edge
      then cv_capacity (take (length pins) (ps_curves sc) ! edge) else 0)"
    using plan unfolding feasible_plan_def by blast
  then have bit: "bit (ps_eligible sc) edge" using e(2) by (cases "bit (ps_eligible sc) edge") simp_all
  have legs: "legs_of (rs_receipt st') = legs_of ?rec @ [?leg]" by (rule legs_of_snoc [OF trace]) (simp_all add: st')
  have obs: "bal_input (rs_before st) = bal_input after + paid" "bal_output after = bal_output (rs_before st) + received"
    "paid \<le> ?request" "paid \<le> rs_remaining st" "paid = 0 \<longleftrightarrow> received = 0"
    using seen by (auto simp: observe_Inr)
  have run': "leg_run ops (legs_of ?rec @ [?leg]) h0 h'"
    using inv invoke after obs by (intro leg_run.leg) auto
  have fresh: "edge \<notin> set (map lt_edge (legs_of ?rec))" using inv bit eligible(2) by (auto simp: leg_ok_def)
  have kept: "leg_ok pins (or (rs_used st) (2 ^ edge)) t" if "t \<in> set (legs_of ?rec)" for t
    using inv that by (auto simp: leg_ok_def bit_or_iff)
  have new: "leg_ok pins (or (rs_used st) (2 ^ edge)) ?leg"
    using e(1) obs by (auto simp: leg_ok_def bit_or_iff bit_exp_iff possible_bit_def)
  have len: "length trace = MAX_LEGS" using trace inv by (auto simp: store_at_Inr)
  have rec: "rc_trace (rs_receipt st') = trace" "rc_legs (rs_receipt st') = rc_legs ?rec + 1" "rc_reflows (rs_receipt st') = reflows"
    by (simp_all add: st')
  have count: "reflows = rc_legs ?rec" "reflows \<le> rl_max_reflows limits" using reflows inv by (auto split: if_splits)
  have sum: "rs_remaining st - paid + sum_list (map lt_spent (legs_of ?rec @ [?leg])) = ri_amount_in intent"
    using inv obs(4) by simp
  have "reflow_ok ops pins intent limits h0 st' h'"
    unfolding reflow_ok_def Let_def legs rec
  proof (intro conjI)
    show "\<forall>t \<in> set (legs_of ?rec @ [?leg]). leg_ok pins (rs_used st') t" using kept new by (simp add: st')
    show "distinct (map lt_edge (legs_of ?rec @ [?leg]))" using inv fresh by simp
    show "rs_remaining st' + sum_list (map lt_spent (legs_of ?rec @ [?leg])) = ri_amount_in intent" using sum by (simp add: st')
    show "\<forall>t. rs_tape st' = Some t \<longrightarrow> (\<exists>cs sel k k'. build cs sel k = (Inr t, k') \<and> arrays_ok cs)"
      using plan by (simp add: st')
  qed (use len room count run' after sc in \<open>simp_all add: st' scan_ok_def\<close>)
  then show ?thesis using rec by simp
qed

lemma reflow_loop_ok:
  assumes "reflow_loop k ops pins intent limits slot st (h, m) = (Inr st', (h', m'))"
    "reflow_ok ops pins intent limits h0 st h" "length pins \<le> MAX_EDGES" "rl_max_legs limits \<le> MAX_LEGS"
    "rc_legs (rs_receipt st) + k = rl_max_legs limits"
  shows "reflow_ok ops pins intent limits h0 st' h' \<and> rs_remaining st' = 0 \<and> 0 < rc_legs (rs_receipt st')"
  using assms
proof (induction k arbitrary: st h m)
  case (Suc k)
  from Suc.prems(1) obtain st1 h1 m1 where leg: "reflow_leg ops pins intent limits slot st (h, m) = (Inr st1, (h1, m1))"
    and rest: "(if rs_remaining st1 = 0 then ret st1 else reflow_loop k ops pins intent limits slot st1) (h1, m1) = (Inr st', (h', m'))"
    by (auto simp: bindS_Inr)
  have ok: "reflow_ok ops pins intent limits h0 st1 h1" "rc_legs (rs_receipt st1) = rc_legs (rs_receipt st) + 1"
    using reflow_leg_ok [OF leg Suc.prems(2,3) _ Suc.prems(4)] Suc.prems(5) by simp_all
  show ?case
  proof (cases "rs_remaining st1 = 0")
    case True
    then show ?thesis using rest ok by simp
  next
    case False
    then show ?thesis using rest ok Suc.prems(5) by (intro Suc.IH [OF _ ok(1) Suc.prems(3,4)]) simp_all
  qed
qed simp

definition reflow_start :: "reflow_intent \<Rightarrow> balances \<Rightarrow> snapshot \<Rightarrow> reflow_state" where
  "reflow_start intent start s0 = \<lparr>rs_before = start, rs_remaining = ri_amount_in intent, rs_used = 0, rs_resources = 0,
     rs_receipt = receipt_default, rs_snapshots = replicate MAX_EDGES s0, rs_curves = replicate MAX_EDGES curve_default, rs_tape = None\<rparr>"

lemma reflow_start_ok: "h_balances ops h = Inr start \<Longrightarrow> reflow_ok ops pins intent limits h (reflow_start intent start s0) h"
  by (simp add: reflow_ok_def reflow_start_def receipt_default_def legs_of_def Let_def leg_run.none arrays_ok_def curve_default_def)

lemma execute_steps:
  assumes "execute ops pins intent limits h = (r, h')"
  obtains (refused) e where "r = Inl e" "h' = h"
    | (ran) start s0 m' where "pins \<noteq> []" "length pins \<le> MAX_EDGES" "rl_max_legs limits \<le> MAX_LEGS" "0 < ri_amount_in intent"
      "h_slot ops h \<le> ri_expires_at_slot intent" "h_balances ops h = Inr start"
      "bindS (reflow_loop (rl_max_legs limits) ops pins intent limits (h_slot ops h) (reflow_start intent start s0))
         (\<lambda>st (h, m). (close_receipt intent start st m, (h, m))) (h, meter_new (rl_max_work limits)) = (r, (h', m'))"
  using assms unfolding execute_def reflow_start_def
  by (auto split: if_splits sum.splits prod.splits)

section \<open>Receipts\<close>

lemma close_receipt_Inr:
  "close_receipt intent start st m = Inr rec \<longleftrightarrow>
     bal_input (rs_before st) \<le> bal_input start \<and> bal_output start \<le> bal_output (rs_before st)
     \<and> bal_input start - bal_input (rs_before st) = ri_amount_in intent \<and> ri_min_out intent \<le> bal_output (rs_before st) - bal_output start
     \<and> rec = (rs_receipt st)\<lparr>rc_input_spent := ri_amount_in intent, rc_output_received := bal_output (rs_before st) - bal_output start,
         rc_work_units := work_meter.used m\<rparr>"
  by (auto simp: close_receipt_def bindR_Inr ok_or_Inr checked_sub_Some)

text \<open>What a receipt says, in terms of the host before and after.\<close>

definition receipt_ok ::
  "'h host_ops \<Rightarrow> edge_pin list \<Rightarrow> reflow_intent \<Rightarrow> reflow_limits \<Rightarrow> 'h \<Rightarrow> receipt \<Rightarrow> 'h \<Rightarrow> bool"
where
  "receipt_ok ops pins intent limits h rec h' \<longleftrightarrow>
     leg_run ops (legs_of rec) h h' \<and> length (legs_of rec) = rc_legs rec \<and> h_slot ops h \<le> ri_expires_at_slot intent
     \<and> (\<exists>b b'. h_balances ops h = Inr b \<and> h_balances ops h' = Inr b' \<and> bal_input b = bal_input b' + ri_amount_in intent
           \<and> bal_output b' = bal_output b + rc_output_received rec)
     \<and> ri_min_out intent \<le> rc_output_received rec \<and> rc_input_spent rec = ri_amount_in intent
     \<and> sum_list (map lt_spent (legs_of rec)) = ri_amount_in intent \<and> sum_list (map lt_received (legs_of rec)) = rc_output_received rec
     \<and> 0 < rc_legs rec \<and> rc_legs rec \<le> rl_max_legs limits \<and> rc_legs rec = rc_reflows rec + 1 \<and> rc_reflows rec \<le> rl_max_reflows limits
     \<and> distinct (map lt_edge (legs_of rec))
     \<and> (\<forall>t \<in> set (legs_of rec). lt_edge t < length pins \<and> lt_spent t \<le> lt_requested t \<and> (lt_spent t = 0 \<longleftrightarrow> lt_received t = 0))"

lemma execute_receipt:
  assumes "execute ops pins intent limits h = (Inr rec, h')"
  shows "receipt_ok ops pins intent limits h rec h'"
  using assms
proof (cases rule: execute_steps)
  case (ran start s0 m')
  from ran(7) obtain st m1 where loop: "reflow_loop (rl_max_legs limits) ops pins intent limits (h_slot ops h)
      (reflow_start intent start s0) (h, meter_new (rl_max_work limits)) = (Inr st, (h', m1))"
    and close: "close_receipt intent start st m1 = Inr rec" by (auto simp: bindS_Inr)
  have "rc_legs (rs_receipt (reflow_start intent start s0)) = 0" by (simp add: reflow_start_def receipt_default_def)
  then have "reflow_ok ops pins intent limits h st h' \<and> rs_remaining st = 0 \<and> 0 < rc_legs (rs_receipt st)"
    using ran by (intro reflow_loop_ok [OF loop reflow_start_ok]) simp_all
  then have ok: "reflow_ok ops pins intent limits h st h'" "rs_remaining st = 0" "0 < rc_legs (rs_receipt st)" by simp_all
  note inv = ok(1) [unfolded reflow_ok_def Let_def]
  have same: "legs_of rec = legs_of (rs_receipt st)" "rc_legs rec = rc_legs (rs_receipt st)" "rc_reflows rec = rc_reflows (rs_receipt st)"
    using close by (auto simp: close_receipt_Inr legs_of_def)
  have run: "leg_run ops (legs_of rec) h h'" using inv same by simp
  have tot: "bal_input start = bal_input (rs_before st) + sum_list (map lt_spent (legs_of rec))
      \<and> bal_output (rs_before st) = bal_output start + sum_list (map lt_received (legs_of rec))"
    using inv ran(6) by (intro leg_run_totals [OF run]) simp_all
  have out: "rc_output_received rec = bal_output (rs_before st) - bal_output start" "rc_input_spent rec = ri_amount_in intent"
    "ri_min_out intent \<le> rc_output_received rec" using close by (auto simp: close_receipt_Inr)
  have "length (legs_of (rs_receipt st)) = rc_legs (rs_receipt st)" using inv by (simp add: legs_of_def)
  then have len: "length (legs_of rec) = rc_legs rec" using same by simp
  have legs: "\<forall>t \<in> set (legs_of rec). lt_edge t < length pins \<and> lt_spent t \<le> lt_requested t \<and> (lt_spent t = 0 \<longleftrightarrow> lt_received t = 0)"
    using inv same by (simp add: leg_ok_def)
  have spent_all: "sum_list (map lt_spent (legs_of rec)) = ri_amount_in intent" using inv ok(2) same by simp
  show ?thesis unfolding receipt_ok_def
  proof (intro conjI)
    show "\<exists>b b'. h_balances ops h = Inr b \<and> h_balances ops h' = Inr b' \<and> bal_input b = bal_input b' + ri_amount_in intent
           \<and> bal_output b' = bal_output b + rc_output_received rec"
      using inv ran(6) tot spent_all out(1) by (intro exI [of _ start] exI [of _ "rs_before st"]) simp
  qed (use run len ran(5) out tot spent_all inv ok(3) same legs in simp_all)
qed simp

text \<open>\<^bold>\<open>C29.\<close>
  A receipt is the truth about the host, whatever the host does: the legs were invoked in turn and each
  traced what the balances changed by, on a venue not used before, within its request; together they
  spent exactly the signed amount and received at least the signed minimum, within the leg and reflow
  limits and not after expiry.\<close>

theorem reflow_receipt_sound:
  "execute ops pins intent limits h = (Inr rec, h') \<Longrightarrow> receipt_ok ops pins intent limits h rec h'"
  by (rule execute_receipt)

section \<open>Failures\<close>

lemma invoked_first: "invoked ops n h1 h2 \<Longrightarrow> h_invoke ops i a h = (Inr (), h1) \<Longrightarrow> invoked ops (Suc n) h h2"
  by (induction rule: invoked.induct) (auto intro: invoked.intros)

lemma reflow_leg_invokes: "reflow_leg ops pins intent limits slot st (h, m) = (Inr st', (h', m')) \<Longrightarrow> \<exists>i a. h_invoke ops i a h = (Inr (), h')"
  by (erule reflow_leg_steps) blast

lemma reflow_leg_fails:
  assumes "reflow_leg ops pins intent limits slot st (h, m) = (Inl e, (h', m'))"
  shows "h' = h \<or> (\<exists>i a. h_invoke ops i a h = (Inl e, h')) \<or> (\<exists>i a. h_invoke ops i a h = (Inr (), h'))"
  using assms unfolding reflow_leg_def Let_def scan_host_def
  by (auto simp: bindS_Inl bindS_Inr split: if_splits prod.splits)

lemma reflow_loop_invokes:
  "reflow_loop k ops pins intent limits slot st (h, m) = (Inr st', (h', m')) \<Longrightarrow> \<exists>n \<le> k. invoked ops n h h'"
proof (induction k arbitrary: st h m)
  case (Suc k)
  from Suc.prems obtain st1 h1 m1 where leg: "reflow_leg ops pins intent limits slot st (h, m) = (Inr st1, (h1, m1))"
    and rest: "(if rs_remaining st1 = 0 then ret st1 else reflow_loop k ops pins intent limits slot st1) (h1, m1) = (Inr st', (h', m'))"
    by (auto simp: bindS_Inr)
  obtain i a where call: "h_invoke ops i a h = (Inr (), h1)" using reflow_leg_invokes [OF leg] by blast
  have "\<exists>n \<le> k. invoked ops n h1 h'" using rest Suc.IH by (auto intro: invoked.none split: if_splits)
  then show ?case using invoked_first [OF _ call] by (meson Suc_le_mono)
qed simp

text \<open>Where a failed run stopped: after some returned invocations, at most one more that failed.\<close>

definition stopped :: "'h host_ops \<Rightarrow> nat \<Rightarrow> 'h \<Rightarrow> fault \<Rightarrow> 'h \<Rightarrow> bool" where
  "stopped ops k h e h' \<longleftrightarrow> (\<exists>n \<le> k. \<exists>h1. invoked ops n h h1 \<and> (h' = h1 \<or> (n < k \<and> (\<exists>i a. h_invoke ops i a h1 = (Inl e, h')))))"

lemma stopped_first: "stopped ops k h1 e h' \<Longrightarrow> h_invoke ops i a h = (Inr (), h1) \<Longrightarrow> stopped ops (Suc k) h e h'"
proof -
  assume "stopped ops k h1 e h'" and call: "h_invoke ops i a h = (Inr (), h1)"
  then obtain n h2 where n: "n \<le> k" "invoked ops n h1 h2" "h' = h2 \<or> (n < k \<and> (\<exists>i a. h_invoke ops i a h2 = (Inl e, h')))"
    unfolding stopped_def by blast
  then show ?thesis using invoked_first [OF n(2) call] unfolding stopped_def
    by (intro exI [of _ "Suc n"] conjI exI [of _ h2]) auto
qed

lemma reflow_loop_stops: "reflow_loop k ops pins intent limits slot st (h, m) = (Inl e, (h', m')) \<Longrightarrow> stopped ops k h e h'"
proof (induction k arbitrary: st h m)
  case 0
  then show ?case by (auto simp: stopped_def intro: invoked.none)
next
  case (Suc k)
  consider (leg) "reflow_leg ops pins intent limits slot st (h, m) = (Inl e, (h', m'))"
    | (later) st1 h1 m1 where "reflow_leg ops pins intent limits slot st (h, m) = (Inr st1, (h1, m1))"
        "reflow_loop k ops pins intent limits slot st1 (h1, m1) = (Inl e, (h', m'))"
    using Suc.prems by (auto simp: bindS_Inl split: if_splits)
  then show ?case
  proof cases
    case leg
    have "invoked ops 0 h h" by (rule invoked.none)
    moreover have "invoked ops 1 h h'" if "h_invoke ops i a h = (Inr (), h')" for i a
      using invoked_first [OF invoked.none that] by simp
    ultimately show ?thesis using reflow_leg_fails [OF leg] unfolding stopped_def by (metis One_nat_def Suc_le_mono le0 zero_less_Suc)
  next
    case later
    then show ?thesis using reflow_leg_invokes Suc.IH stopped_first by meson
  qed
qed

text \<open>\<^bold>\<open>C30.\<close>
  A failure is final: a run that ends in an error made at most the allowed number of invocations, all of
  which returned but possibly the last, whose error is then the one reported. No invocation follows a
  failed one.\<close>

theorem reflow_failure_final:
  assumes "execute ops pins intent limits h = (Inl e, h')"
  shows "stopped ops (rl_max_legs limits) h e h'"
  using assms
proof (cases rule: execute_steps)
  case refused
  then show ?thesis by (auto simp: stopped_def intro: invoked.none)
next
  case (ran start s0 m')
  from ran(7) consider
      "reflow_loop (rl_max_legs limits) ops pins intent limits (h_slot ops h) (reflow_start intent start s0) (h, meter_new (rl_max_work limits)) = (Inl e, (h', m'))"
    | st m1 where "reflow_loop (rl_max_legs limits) ops pins intent limits (h_slot ops h) (reflow_start intent start s0) (h, meter_new (rl_max_work limits)) = (Inr st, (h', m1))"
    by (auto simp: bindS_Inl)
  then show ?thesis
  proof cases
    case 1
    then show ?thesis by (rule reflow_loop_stops)
  next
    case 2
    then show ?thesis using reflow_loop_invokes [OF 2] unfolding stopped_def by blast
  qed
qed

section \<open>Faithful hosts\<close>

text \<open>A run of legs each of which was paid the venue's own exact quote.\<close>

inductive quoted_run :: "'h host_ops \<Rightarrow> leg_trace list \<Rightarrow> 'h \<Rightarrow> 'h \<Rightarrow> bool" for ops where
  none: "quoted_run ops [] h h"
| leg: "quoted_run ops ts h h1 \<Longrightarrow> h_invoke ops (lt_edge t) (lt_requested t) h1 = (Inr (), h2) \<Longrightarrow>
    h_snapshot ops h1 (lt_edge t) = Inr s \<Longrightarrow> lt_spent t \<le> lt_requested t \<Longrightarrow> exact_quote s (lt_spent t) = Inr (lt_received t) \<Longrightarrow>
    quoted_run ops (ts @ [t]) h h2"

context execution_host
begin

lemma run_quoted: "leg_run ops ts h h' \<Longrightarrow> quoted_run ops ts h h'"
proof (induction rule: leg_run.induct)
  case (leg ts h h1 b t h2 b')
  from invoke_pays [OF leg(3,2,4)] leg(5,6) show ?case
    by (auto intro!: quoted_run.leg [OF leg.IH leg(3)])
qed (rule quoted_run.none)

lemma run_slot: "leg_run ops ts h h' \<Longrightarrow> h_slot ops h' = h_slot ops h"
  by (induction rule: leg_run.induct) (auto dest: slot_kept)

end

text \<open>\<^bold>\<open>C31.\<close>
  Atomic execution on the in-memory host: an error leaves the host as it was; a receipt means that
  exactly the signed amount left the input balance, at least the minimum arrived on the output
  balance, and every leg was paid its venue's own exact quote at the state the venue then had.\<close>

theorem fixture_execution_atomic:
  assumes "fixture_atomic pins intent limits h = (r, h')"
  shows "(\<forall>e. r = Inl e \<longrightarrow> h' = h) \<and>
    (\<forall>rec. r = Inr rec \<longrightarrow> quoted_run fixture_ops (legs_of rec) h h' \<and> fx_slot h' = fx_slot h
       \<and> bal_input (fx_balances h) = bal_input (fx_balances h') + ri_amount_in intent
       \<and> bal_output (fx_balances h') = bal_output (fx_balances h) + rc_output_received rec \<and> ri_min_out intent \<le> rc_output_received rec)"
proof -
  obtain q staged where run: "execute fixture_ops pins intent limits h = (q, staged)" by fastforce
  show ?thesis
  proof (cases q)
    case (Inl e)
    then show ?thesis using assms run by (auto simp: fixture_atomic_def)
  next
    case (Inr rec)
    then have "receipt_ok fixture_ops pins intent limits h rec staged" using run by (intro execute_receipt) simp
    then show ?thesis using assms run Inr fixture.run_quoted fixture.run_slot
      by (auto simp: fixture_atomic_def receipt_ok_def fixture_ops_def)
  qed
qed

section \<open>One venue executed\<close>

definition demo_venue :: snapshot where
  "demo_venue = \<lparr>market = 7, program = 200, input_mint = 1, output_mint = 2, liquidity_id = 7, writable_resources = 1, sn_slot = 10,
     generation = 1, expires_at_slot = 110, sn_capacity = 500, atomic = True, enabled = True,
     sn_model = Book (\<lparr>input_capacity = 500, marginal_q32 = 8589934592\<rparr> # replicate 15 segment_default) 1\<rparr>"

definition demo_host :: "nat \<Rightarrow> fixture_host" where
  "demo_host fatal = \<lparr>fx_venues = replicate 8 demo_venue, fx_len = 1, fx_balances = \<lparr>bal_input = 1000, bal_output = 0\<rparr>, fx_slot = 10,
     fx_caps = replicate 8 18446744073709551615, fx_fatal = fatal, fx_calls = 0\<rparr>"

definition demo_run :: reflow_intent where
  "demo_run = \<lparr>ri_input_mint = 1, ri_output_mint = 2, ri_amount_in = 200, ri_min_out = 400, ri_expires_at_slot = 50, ri_max_snapshot_age = 5\<rparr>"

definition demo_limits :: reflow_limits where
  "demo_limits = \<lparr>rl_max_legs = 1, rl_max_reflows = 0, rl_max_work = 10000\<rparr>"

lemma demo_leg:
  "case reflow_leg fixture_ops [pin_of demo_venue] demo_run demo_limits 10 (reflow_start demo_run \<lparr>bal_input = 1000, bal_output = 0\<rparr> demo_venue)
      (demo_host 0, meter_new 10000) of
     (Inl e, _) \<Rightarrow> False
   | (Inr st, (h, m)) \<Rightarrow> rs_remaining st = 0 \<and>
       (case close_receipt demo_run \<lparr>bal_input = 1000, bal_output = 0\<rparr> st m of Inl e \<Rightarrow> False | Inr rec \<Rightarrow> rc_output_received rec = 400)"
  by code_simp

lemma demo_leg_fatal:
  "fst (reflow_leg fixture_ops [pin_of demo_venue] demo_run demo_limits 10 (reflow_start demo_run \<lparr>bal_input = 1000, bal_output = 0\<rparr> demo_venue)
      (demo_host 1, meter_new 10000)) = fail FatalCpi"
  by code_simp

lemma demo_execute:
  "execute fixture_ops [pin_of demo_venue] demo_run demo_limits (demo_host fatal) =
     (case bindS (reflow_leg fixture_ops [pin_of demo_venue] demo_run demo_limits 10
          (reflow_start demo_run \<lparr>bal_input = 1000, bal_output = 0\<rparr> demo_venue))
        (\<lambda>st. bindS (if rs_remaining st = 0 then ret st else liftR (fail Bounds)) (\<lambda>st (h, m).
          (close_receipt demo_run \<lparr>bal_input = 1000, bal_output = 0\<rparr> st m, (h, m)))) (demo_host fatal, meter_new 10000) of
       (r, (h', _)) \<Rightarrow> (r, h'))"
proof -
  have loop: "reflow_loop 1 ops pins intent limits slot st =
      bindS (reflow_leg ops pins intent limits slot st) (\<lambda>st. if rs_remaining st = 0 then ret st else liftR (fail Bounds))"
    for ops :: "'a host_ops" and pins intent limits slot st by (simp only: One_nat_def reflow_loop.simps)
  show ?thesis
    unfolding execute_def reflow_start_def [symmetric] bindS_assoc [symmetric] loop [symmetric]
    by (simp add: demo_run_def demo_limits_def demo_host_def fixture_ops_def fixture_snapshot_def pins_alias_def MAX_EDGES_def MAX_LEGS_def
        MAX_REFLOWS_def MAX_ATOMS_def del: reflow_loop.simps)
qed

lemma demo_receipt:
  obtains rec h' where "execute fixture_ops [pin_of demo_venue] demo_run demo_limits (demo_host 0) = (Inr rec, h')" "rc_output_received rec = 400"
proof -
  obtain q h m where leg: "reflow_leg fixture_ops [pin_of demo_venue] demo_run demo_limits 10
      (reflow_start demo_run \<lparr>bal_input = 1000, bal_output = 0\<rparr> demo_venue) (demo_host 0, meter_new 10000) = (q, (h, m))"
    by (metis prod.exhaust)
  then obtain st where q: "q = Inr st" using demo_leg by (cases q) simp_all
  obtain c where c: "close_receipt demo_run \<lparr>bal_input = 1000, bal_output = 0\<rparr> st m = c" by simp
  then obtain rec where rec: "c = Inr rec" using demo_leg leg q by (cases c) simp_all
  have "rs_remaining st = 0" "rc_output_received rec = 400" using demo_leg leg q c rec by simp_all
  then show thesis using leg q c rec that [of rec h] by (simp add: demo_execute bindS_def ret_def)
qed

lemma reflow_receipt_sound_witness:
  "\<exists>rec h'. execute fixture_ops [pin_of demo_venue] demo_run demo_limits (demo_host 0) = (Inr rec, h') \<and> rc_output_received rec = 400
     \<and> receipt_ok fixture_ops [pin_of demo_venue] demo_run demo_limits (demo_host 0) rec h'"
proof (rule demo_receipt)
  fix rec h'
  assume run: "execute fixture_ops [pin_of demo_venue] demo_run demo_limits (demo_host 0) = (Inr rec, h')" "rc_output_received rec = 400"
  from reflow_receipt_sound [OF run(1)] run show ?thesis by blast
qed

lemma reflow_failure_final_witness:
  "\<exists>h'. execute fixture_ops [pin_of demo_venue] demo_run demo_limits (demo_host 1) = (fail FatalCpi, h')
     \<and> stopped fixture_ops 1 (demo_host 1) (Err FatalCpi) h'"
proof -
  have "fst (execute fixture_ops [pin_of demo_venue] demo_run demo_limits (demo_host 1)) = fail FatalCpi"
    using demo_leg_fatal unfolding demo_execute by (auto simp: bindS_def split: prod.splits sum.splits)
  then have "execute fixture_ops [pin_of demo_venue] demo_run demo_limits (demo_host 1)
      = (fail FatalCpi, snd (execute fixture_ops [pin_of demo_venue] demo_run demo_limits (demo_host 1)))" by (metis prod.collapse)
  from reflow_failure_final [OF this] this show ?thesis by (auto simp: demo_limits_def)
qed

lemma fixture_execution_atomic_witness:
  "\<exists>rec h'. fixture_atomic [pin_of demo_venue] demo_run demo_limits (demo_host 0) = (Inr rec, h')
     \<and> quoted_run fixture_ops (legs_of rec) (demo_host 0) h' \<and> bal_input (fx_balances h') = 800 \<and> bal_output (fx_balances h') = 400"
proof (rule demo_receipt)
  fix rec h'
  assume run: "execute fixture_ops [pin_of demo_venue] demo_run demo_limits (demo_host 0) = (Inr rec, h')" "rc_output_received rec = 400"
  then have a: "fixture_atomic [pin_of demo_venue] demo_run demo_limits (demo_host 0) = (Inr rec, h')" by (simp add: fixture_atomic_def)
  from fixture_execution_atomic [OF this] run(2) show ?thesis
    using a by (auto simp: demo_host_def demo_run_def)
qed

end
