(* ===== verification/Ledger.thy ===== *)
theory Ledger
  imports Bytes
begin

text \<open>
  The accounts an on-chain program runs on: a ledger maps keys to accounts, the instruction names
  accounts with their signer and writable flags, and a call to another program goes through the runtime.
  The runtime, the sysvars and the address derivation of the Solana SDK are a parameter (\<open>vm\<close>); what the
  programs rely on is the documented rule stated in \<open>runtime_ok\<close>.
\<close>

section \<open>Accounts\<close>

record account =
  ac_owner :: key
  ac_data :: "nat list"
  ac_lamports :: nat
  ac_executable :: bool

type_synonym ledger = "key \<Rightarrow> account"

text \<open>One \<open>AccountInfo\<close> of an instruction, or one \<open>AccountMeta\<close> of a call.\<close>

record account_ref =
  am_key :: key
  am_signer :: bool
  am_writable :: bool

definition acct :: "ledger \<Rightarrow> account_ref list \<Rightarrow> nat \<Rightarrow> account" where
  "acct L a i = L (am_key (a ! i))"

abbreviation key_in :: "account_ref list \<Rightarrow> nat \<Rightarrow> key" where
  "key_in a i \<equiv> am_key (a ! i)"

text \<open>The 32 bytes of a key.\<close>

definition key_bytes :: "key \<Rightarrow> nat list" where
  "key_bytes k = rev (to_le 32 (unat k))"

definition TOKEN :: key where
  "TOKEN = 0x6ddf6e1d765a193d9cbe146ceeb79ac1cb485ed5f5b37913a8cf5857eff00a9"

section \<open>Calls\<close>

record instruction =
  ix_program :: key
  ix_accounts :: "account_ref list"
  ix_data :: "nat list"

datatype cpi =
    Call instruction
  | SystemTransfer key key nat
  | SystemAllocate key nat
  | SystemAssign key key

text \<open>
  \<open>vm_invoke\<close> is \<open>invoke\<close> and \<open>invoke_signed\<close> with the seeds of the signing addresses;
  \<open>vm_find\<close> and \<open>vm_create\<close> derive program addresses; the rest are the rent and clock sysvars.
\<close>

record vm =
  vm_invoke :: "cpi \<Rightarrow> nat list list list \<Rightarrow> ledger \<Rightarrow> ledger res"
  vm_find :: "nat list list \<Rightarrow> key \<Rightarrow> key \<times> nat"
  vm_create :: "nat list list \<Rightarrow> key \<Rightarrow> key option"
  vm_minimum_balance :: "nat \<Rightarrow> nat"
  vm_slot :: nat
  vm_time :: int
  vm_system :: key

fun cpi_writable :: "cpi \<Rightarrow> key set" where
  "cpi_writable (Call ix) = set (map am_key (filter am_writable (ix_accounts ix)))"
| "cpi_writable (SystemTransfer src dst lamports) = {src, dst}"
| "cpi_writable (SystemAllocate k len) = {k}"
| "cpi_writable (SystemAssign k owner) = {k}"

fun cpi_program :: "vm \<Rightarrow> cpi \<Rightarrow> key" where
  "cpi_program vm (Call ix) = ix_program ix"
| "cpi_program vm _ = vm_system vm"

text \<open>
  The runtime's rules: a call changes only accounts it names writable, and only the owning program
  changes the data of an account it owns.
\<close>

definition runtime_ok :: "key \<Rightarrow> vm \<Rightarrow> bool" where
  "runtime_ok program vm \<longleftrightarrow> (\<forall>c seeds L L'. vm_invoke vm c seeds L = Inr L' \<longrightarrow>
     (\<forall>k. k \<notin> cpi_writable c \<longrightarrow> L' k = L k) \<and>
     (\<forall>k. ac_owner (L k) = program \<and> cpi_program vm c \<noteq> program \<longrightarrow> ac_data (L' k) = ac_data (L k) \<and> ac_owner (L' k) = program))"

section \<open>Program steps\<close>

text \<open>Reading leaves the ledger; a failed call leaves it too, the transaction being lost anyway.\<close>

definition readL :: "(ledger \<Rightarrow> 'a res) \<Rightarrow> (ledger, 'a) comp" where
  "readL f = (\<lambda>L. (f L, L))"

definition callL :: "vm \<Rightarrow> cpi \<Rightarrow> nat list list list \<Rightarrow> (ledger, unit) comp" where
  "callL vm c seeds = (\<lambda>L. case vm_invoke vm c seeds L of Inl e \<Rightarrow> (Inl e, L) | Inr L' \<Rightarrow> (Inr (), L'))"

definition set_data :: "key \<Rightarrow> nat list \<Rightarrow> ledger \<Rightarrow> ledger" where
  "set_data k bs L = L(k := (L k)\<lparr>ac_data := bs\<rparr>)"

definition writeL :: "key \<Rightarrow> (nat list \<Rightarrow> nat list) \<Rightarrow> (ledger, unit) comp" where
  "writeL k f = (\<lambda>L. (Inr (), set_data k (f (ac_data (L k))) L))"

definition needP :: "bool \<Rightarrow> nat \<Rightarrow> unit res" where
  "needP ok code = (if ok then Inr () else Inl (Prog (Custom code)))"

definition prog_or :: "'a option \<Rightarrow> nat \<Rightarrow> 'a res" where
  "prog_or m code = or_fault m (Prog (Custom code))"

text \<open>Bytes \<open>p .. p + n\<close> of data already known to be long enough, and a run of field writes.\<close>

definition byte_slice :: "nat list \<Rightarrow> nat \<Rightarrow> nat \<Rightarrow> nat list" where
  "byte_slice d p n = take n (drop p d)"

definition put_fields :: "(nat \<times> nat list) list \<Rightarrow> nat list \<Rightarrow> nat list" where
  "put_fields fs d = fold (\<lambda>(p, bs). write_at p bs) fs d"

text \<open>\<open>&&\<close> over conditions that may fail: the first false one ends it.\<close>

fun andR :: "bool res list \<Rightarrow> bool res" where
  "andR [] = Inr True"
| "andR (r # rs) = bindR r (\<lambda>b. if b then andR rs else Inr False)"

text \<open>Indexing or copying past the end of an account's data panics.\<close>

definition has_room :: "key \<Rightarrow> nat \<Rightarrow> ledger \<Rightarrow> unit res" where
  "has_room k n L = (if n \<le> length (ac_data (L k)) then Inr () else Inl Panic)"

text \<open>Turning a derived address into an account of the program: top up the rent, allocate, assign.\<close>

definition create_cell :: "vm \<Rightarrow> key \<Rightarrow> key \<Rightarrow> key \<Rightarrow> nat \<Rightarrow> nat list list \<Rightarrow> (ledger, unit) comp" where
  "create_cell vm program payer cell len seeds =
     bindS (readL (\<lambda>L. Inr (ac_lamports (L cell)))) (\<lambda>lamports.
     bindS (if lamports < vm_minimum_balance vm len
            then callL vm (SystemTransfer payer cell (vm_minimum_balance vm len - lamports)) [] else ret ()) (\<lambda>_.
     bindS (callL vm (SystemAllocate cell len) [seeds]) (\<lambda>_.
     callL vm (SystemAssign cell program) [seeds])))"

section \<open>Laws\<close>

lemma readL_eq [simp]: "readL f L = (r, L') \<longleftrightarrow> r = f L \<and> L' = L"
  by (auto simp: readL_def)

lemma callL_Inr [simp]: "callL vm c seeds L = (Inr u, L') \<longleftrightarrow> vm_invoke vm c seeds L = Inr L'"
  by (cases "vm_invoke vm c seeds L") (auto simp: callL_def)

lemma writeL_Inr [simp]: "writeL k f L = (Inr u, L') \<longleftrightarrow> L' = set_data k (f (ac_data (L k))) L"
  by (auto simp: writeL_def)

lemma needP_Inr [simp]: "needP ok code = Inr u \<longleftrightarrow> ok"
  by (auto simp: needP_def)

lemma needP_simps: "needP True code = Inr ()" "needP False code = Inl (Prog (Custom code))"
  by (simp_all add: needP_def)

lemma prog_or_simps [simp]: "prog_or (Some x) code = Inr x" "prog_or None code = Inl (Prog (Custom code))"
  by (simp_all add: prog_or_def)

lemma prog_or_Inr [simp]: "prog_or m code = Inr x \<longleftrightarrow> m = Some x"
  by (cases m) (simp_all add: prog_or_def)

lemma set_data_same [simp]: "ac_data (set_data k bs L k) = bs" "ac_owner (set_data k bs L j) = ac_owner (L j)"
  "ac_executable (set_data k bs L j) = ac_executable (L j)"
  by (simp_all add: set_data_def)

lemma set_data_other [simp]: "j \<noteq> k \<Longrightarrow> set_data k bs L j = L j"
  by (simp add: set_data_def)

lemma runtime_frame: "runtime_ok program vm \<Longrightarrow> vm_invoke vm c seeds L = Inr L' \<Longrightarrow> k \<notin> cpi_writable c \<Longrightarrow> L' k = L k"
  unfolding runtime_ok_def by blast

lemma runtime_owned:
  "runtime_ok program vm \<Longrightarrow> vm_invoke vm c seeds L = Inr L' \<Longrightarrow> ac_owner (L k) = program \<Longrightarrow> cpi_program vm c \<noteq> program \<Longrightarrow>
   ac_data (L' k) = ac_data (L k) \<and> ac_owner (L' k) = program"
  unfolding runtime_ok_def by blast

lemma length_key_bytes [simp]: "length (key_bytes k) = 32"
  by (simp add: key_bytes_def)

lemma key_of_key_bytes [simp]: "key_of (key_bytes k) = k"
proof -
  have "unat k < 2 ^ 256" using unsigned_less [of k, where ?'a = nat] by simp
  then have "unat k mod 256 ^ 32 = unat k" by simp
  then have "from_le (to_le 32 (unat k)) = unat k" by (simp only: from_le_to_le)
  then show ?thesis by (simp add: key_of_def key_bytes_def)
qed

lemma key_bytes_inject [simp]: "key_bytes j = key_bytes k \<longleftrightarrow> j = k"
  by (metis key_of_key_bytes)

section \<open>Fields of account data\<close>

lemma slice_write_same: "p + length bs \<le> length d \<Longrightarrow> n = length bs \<Longrightarrow> byte_slice (write_at p bs d) p n = bs"
  by (simp add: byte_slice_def write_at_def)

lemma slice_write_other:
  assumes "p + length bs \<le> length d" "q + n \<le> length d" "q + n \<le> p \<or> p + length bs \<le> q"
  shows "byte_slice (write_at p bs d) q n = byte_slice d q n"
  using get_range_write_other [OF assms(1), of "q + n" q] assms by (simp add: get_range_def byte_slice_def)

lemma length_byte_slice [simp]: "p + n \<le> length d \<Longrightarrow> length (byte_slice d p n) = n"
  by (simp add: byte_slice_def)

lemma nth_byte_slice: "p + n \<le> length d \<Longrightarrow> i < n \<Longrightarrow> byte_slice d p n ! i = d ! (p + i)"
  by (simp add: byte_slice_def)

lemma nth_by_slice: "p < length d \<Longrightarrow> d ! p = hd (byte_slice d p 1)"
  by (simp add: byte_slice_def hd_drop_conv_nth take_Suc)

lemma andR_Inr: "andR rs = Inr True \<longleftrightarrow> (\<forall>r \<in> set rs. r = Inr True)"
  by (induction rs) (auto simp: monad_simps)

lemma andR_Cons_Inr [monad_simps]: "andR (r # rs) = Inr True \<longleftrightarrow> r = Inr True \<and> andR rs = Inr True"
  by (auto simp: monad_simps)

lemma short_circuit [monad_simps]: "(if b then r else Inr False) = Inr True \<longleftrightarrow> b \<and> r = Inr True"
  by simp

lemma put_fields_simps [simp]: "put_fields [] d = d" "put_fields ((p, bs) # fs) d = put_fields fs (write_at p bs d)"
  by (simp_all add: put_fields_def)

lemma length_put_fields [simp]:
  "\<forall>(p, bs) \<in> set fs. p + length bs \<le> length d \<Longrightarrow> length (put_fields fs d) = length d"
  by (induction fs arbitrary: d) auto

lemma slice_put_fields_other:
  "\<forall>(p, bs) \<in> set fs. p + length bs \<le> length d \<and> (q + n \<le> p \<or> p + length bs \<le> q) \<Longrightarrow> q + n \<le> length d \<Longrightarrow>
   byte_slice (put_fields fs d) q n = byte_slice d q n"
proof (induction fs arbitrary: d)
  case (Cons f fs)
  obtain p bs where f: "f = (p, bs)" by fastforce
  have "byte_slice (put_fields fs (write_at p bs d)) q n = byte_slice (write_at p bs d) q n"
    by (rule Cons.IH) (use Cons.prems f in auto)
  also have "\<dots> = byte_slice d q n" by (rule slice_write_other) (use Cons.prems f in auto)
  finally show ?case by (simp add: f)
qed simp

text \<open>Fields written in ascending order are read back.\<close>

fun ascending :: "(nat \<times> nat list) list \<Rightarrow> nat \<Rightarrow> bool" where
  "ascending [] n \<longleftrightarrow> True"
| "ascending ((p, bs) # fs) n \<longleftrightarrow> p + length bs \<le> n \<and> (\<forall>(q, cs) \<in> set fs. p + length bs \<le> q) \<and> ascending fs n"

lemma ascending_inside: "ascending fs n \<Longrightarrow> (p, bs) \<in> set fs \<Longrightarrow> p + length bs \<le> n"
  by (induction fs n rule: ascending.induct) auto

lemma slice_put_fields:
  "ascending fs (length d) \<Longrightarrow> (p, bs) \<in> set fs \<Longrightarrow> n = length bs \<Longrightarrow> byte_slice (put_fields fs d) p n = bs"
proof (induction fs arbitrary: d)
  case (Cons f fs)
  obtain q cs where f: "f = (q, cs)" by fastforce
  have len: "length (write_at q cs d) = length d" using Cons.prems(1) f by simp
  show ?case
  proof (cases "(p, bs) \<in> set fs")
    case True
    then show ?thesis using Cons.IH [of "write_at q cs d"] Cons.prems f len by simp
  next
    case False
    then have p: "p = q" "bs = cs" using Cons.prems(2) f by auto
    have "byte_slice (put_fields fs (write_at q cs d)) p n = byte_slice (write_at q cs d) p n"
      by (rule slice_put_fields_other) (use Cons.prems f p len ascending_inside in \<open>force+\<close>)
    then show ?thesis using Cons.prems f p by (simp add: slice_write_same)
  qed
qed simp

end
