(* ===== verification/Settle.thy ===== *)
theory Settle
  imports Ledger Phoenix
begin

text \<open>
  The settlement program's two-venue path (\<open>programs/stocklana-settle/src/lib.rs\<close>): the nonce account
  of a wallet and \<open>settle\<close>, which offers a bounded budget to a Phoenix book, sends the observed residual to
  a Raydium pool and checks every balance it relies on. The books, pools and instruction bytes are those of
  \<open>Phoenix\<close> and \<open>Adapters\<close>; \<open>settle\<close> returns the bytes it gives to \<open>set_return_data\<close>.
\<close>

section \<open>Constants\<close>

definition PHOENIX :: key where
  "PHOENIX = 0x5d0ea4f33737013a563e09348edb6f4593d91fc7641f9247c2441a842a1bbeb"

definition PHOENIX_LOG :: key where
  "PHOENIX_LOG = 0x61a861737cc9018c1f7e4591f3a864c6c8a14d6ccb04cd65ec7844e03e3bd932"

definition RAYDIUM :: key where
  "RAYDIUM = 0xa92a5a8b4f295952842550aa93fd5b95b5ace6a8eb920c93942e43690c20ec73"

definition RAYDIUM_AUTH :: key where
  "RAYDIUM_AUTH = 0xeb00d9f5b292b4214ac7d037b4d6f06450b964600df373052bb5e84f2f8e9a67"

definition NONCE_LEN :: nat where "NONCE_LEN = 64"

text \<open>\<open>SKEWSEQ1\<close> and \<open>stocklana\<close>.\<close>

definition NONCE_TAG :: "nat list" where "NONCE_TAG = [83, 75, 69, 87, 83, 69, 81, 49]"
definition NONCE_SEED :: "nat list" where "NONCE_SEED = [115, 116, 111, 99, 107, 108, 97, 110, 97]"

definition IDENTITY :: nat where "IDENTITY = 1"
definition REPLAY :: nat where "REPLAY = 2"
definition EXPIRED :: nat where "EXPIRED = 3"
definition BOUNDS :: nat where "BOUNDS = 4"
definition MIN_OUT :: nat where "MIN_OUT = 5"
definition CONSERVATION :: nat where "CONSERVATION = 6"
definition ADAPTER :: nat where "ADAPTER = 7"

lemmas settle_codes = IDENTITY_def REPLAY_def EXPIRED_def BOUNDS_def MIN_OUT_def CONSERVATION_def ADAPTER_def

section \<open>Dispatch\<close>

datatype route =
    RInitialize | RSettle | RGraph | RCrossing | RStockPublish | RStockExecute | RStockReverse | RCapsuleInitialize
  | RCapsuleExecute | RFlowcell | RExposure | RMeshcell | ROrderPlace | ROrderCancel | RClaim | RFunding

definition dispatch_route :: "nat list \<Rightarrow> route res" where
  "dispatch_route data =
     (case data of
        [] \<Rightarrow> Inl (Prog InvalidInstructionData)
      | op # _ \<Rightarrow>
          if op = 0 \<and> length data = 1 then Inr RInitialize
          else if op = 1 \<and> length data = 44 then Inr RSettle
          else if op = 2 then Inr RGraph
          else if op = 3 then Inr RCrossing
          else if op = 4 \<or> op = 9 then Inr RGraph
          else if op = 5 then Inr RCrossing
          else if op = 19 then Inr RStockPublish
          else if op = 7 then Inr RStockExecute
          else if op = 20 then Inr RStockReverse
          else if op = 10 then Inr RCapsuleInitialize
          else if op = 11 then Inr RCapsuleExecute
          else if op = 12 then Inr RFlowcell
          else if op = 13 then Inr RExposure
          else if op = 14 then Inr RMeshcell
          else if op = 15 then Inr ROrderPlace
          else if op = 16 then Inr ROrderCancel
          else if op = 17 then Inr RClaim
          else if op = 18 then Inr RFunding
          else Inl (Prog InvalidInstructionData))"

section \<open>Account checks\<close>

text \<open>Adapter errors become one custom code; a panic stays one.\<close>

definition ad :: "'a res \<Rightarrow> 'a res" where
  "ad r = (case r of Inl (Dex e) \<Rightarrow> Inl (Prog (Custom ADAPTER)) | _ \<Rightarrow> r)"

definition token_at :: "account_ref \<Rightarrow> key \<Rightarrow> key \<Rightarrow> ledger \<Rightarrow> nat res" where
  "token_at r mint authority L =
     (let d = ac_data (L (am_key r))
      in bindR (needP (ac_owner (L (am_key r)) = TOKEN) IDENTITY) (\<lambda>_.
         bindR (ad (key_at d 0)) (\<lambda>m.
         bindR (if m = mint then bindR (ad (key_at d 32)) (\<lambda>w. Inr (w = authority)) else Inr False) (\<lambda>ok.
         bindR (needP ok IDENTITY) (\<lambda>_. ad (token_amount d))))))"

definition amount_at :: "account_ref \<Rightarrow> ledger \<Rightarrow> nat res" where
  "amount_at r L = ad (token_amount (ac_data (L (am_key r))))"

definition executable_is :: "account_ref \<Rightarrow> key \<Rightarrow> ledger \<Rightarrow> unit res" where
  "executable_is r k L = needP (am_key r = k \<and> ac_executable (L (am_key r))) IDENTITY"

section \<open>The nonce account\<close>

definition put_nonce :: "account_ref list \<Rightarrow> nat list \<Rightarrow> nat list" where
  "put_nonce a bs = write_at 8 (key_bytes (key_in a 0)) (write_at 0 NONCE_TAG bs)"

definition initialize_nonce :: "vm \<Rightarrow> key \<Rightarrow> account_ref list \<Rightarrow> (ledger, unit) comp" where
  "initialize_nonce vm program a =
     bindS (liftR (needP (length a = 3) BOUNDS)) (\<lambda>_.
     bindS (liftR (needP (am_signer (a ! 0) \<and> am_writable (a ! 0) \<and> am_writable (a ! 1)) IDENTITY)) (\<lambda>_.
     bindS (liftR (needP (key_in a 2 = vm_system vm) IDENTITY)) (\<lambda>_.
     case vm_find vm [NONCE_SEED, key_bytes (key_in a 0)] program of (pda, bump) \<Rightarrow>
     bindS (readL (\<lambda>L. needP (key_in a 1 = pda \<and> ac_data (acct L a 1) = [] \<and> ac_owner (acct L a 1) = vm_system vm) IDENTITY)) (\<lambda>_.
     bindS (create_cell vm program (key_in a 0) (key_in a 1) NONCE_LEN [NONCE_SEED, key_bytes (key_in a 0), [bump]]) (\<lambda>_.
     bindS (readL (has_room (key_in a 1) 40)) (\<lambda>_.
     writeL (key_in a 1) (put_nonce a)))))))"

section \<open>The Phoenix leg\<close>

definition metas :: "account_ref list \<Rightarrow> nat list \<Rightarrow> nat list \<Rightarrow> nat \<Rightarrow> account_ref list" where
  "metas a indices writable signer =
     map (\<lambda>i. \<lparr>am_key = key_in a (indices ! i), am_signer = (i = signer), am_writable = (i \<in> set writable)\<rparr>) [0..<length indices]"

definition phoenix_call :: "account_ref list \<Rightarrow> nat list \<Rightarrow> cpi" where
  "phoenix_call a bytes =
     Call \<lparr>ix_program = PHOENIX, ix_accounts = metas a [7, 8, 9, 0, 2, 3, 10, 11, 4] [2, 4, 5, 6, 7] 3, ix_data = take PHOENIX_IOC_LEN bytes\<rparr>"

definition phoenix_quote :: "vm \<Rightarrow> account_ref list \<Rightarrow> bool \<Rightarrow> nat \<Rightarrow> nat \<Rightarrow> ledger \<Rightarrow> (phoenix_header \<times> fill) res" where
  "phoenix_quote vm a sell input matches L =
     bindR (executable_is (a ! 7) PHOENIX L) (\<lambda>_.
     bindR (needP (key_in a 8 = PHOENIX_LOG \<and> ac_owner (acct L a 9) = PHOENIX) IDENTITY) (\<lambda>_.
     bindR (ad (book_decode (ac_data (acct L a 9)))) (\<lambda>book.
     bindR (ad (book_quote book (key_in a 0) sell input matches (vm_slot vm) (nat (vm_time vm)))) (\<lambda>expected.
     let header = pb_header book
     in bindR (needP (ph_base_mint header = key_in a 5 \<and> ph_quote_mint header = key_in a 6
                 \<and> ph_base_vault header = key_in a 10 \<and> ph_quote_vault header = key_in a 11) IDENTITY) (\<lambda>_.
        bindR (needP (ac_owner (acct L a 10) = TOKEN \<and> ac_owner (acct L a 11) = TOKEN) IDENTITY) (\<lambda>_.
        Inr (header, expected)))))))"

definition phoenix_leg :: "vm \<Rightarrow> account_ref list \<Rightarrow> bool \<Rightarrow> nat \<Rightarrow> nat \<Rightarrow> nat \<Rightarrow> (ledger, bool) comp" where
  "phoenix_leg vm a sell input matches deadline =
     bindS (readL (phoenix_quote vm a sell input matches)) (\<lambda>(header, expected).
     if fl_input expected = 0 \<or> fl_output expected = 0 \<or> input < (if sell then ph_base_lot header else ph_quote_lot header)
     then ret False
     else
       bindS (liftR (ad (phoenix_ioc header sell input matches deadline))) (\<lambda>bytes.
       let src = (if sell then 2 else 3); dst = (if sell then 3 else 2)
       in bindS (readL (amount_at (a ! src))) (\<lambda>before_in.
          bindS (readL (amount_at (a ! dst))) (\<lambda>before_out.
          bindS (callL vm (phoenix_call a bytes) []) (\<lambda>_.
          bindS (readL (amount_at (a ! src))) (\<lambda>after_in.
          bindS (if checked_sub before_in after_in = Some (fl_input expected)
                 then bindS (readL (amount_at (a ! dst))) (\<lambda>after_out. ret (checked_sub after_out before_out = Some (fl_output expected)))
                 else ret False) (\<lambda>ok.
          bindS (liftR (needP ok CONSERVATION)) (\<lambda>_. ret True))))))))"

section \<open>The Raydium leg\<close>

definition raydium_call :: "account_ref list \<Rightarrow> bool \<Rightarrow> nat \<Rightarrow> nat \<Rightarrow> cpi" where
  "raydium_call a sell input exact_out =
     Call \<lparr>ix_program = RAYDIUM,
       ix_accounts = metas a (if sell then [0, 13, 14, 15, 2, 3, 16, 17, 4, 4, 5, 6, 18] else [0, 13, 14, 15, 3, 2, 17, 16, 4, 4, 6, 5, 18])
         [0, 3, 4, 5, 6, 7, 12] 0,
       ix_data = raydium_swap input exact_out\<rparr>"

definition raydium_quote :: "vm \<Rightarrow> account_ref list \<Rightarrow> bool \<Rightarrow> nat \<Rightarrow> ledger \<Rightarrow> nat res" where
  "raydium_quote vm a sell input L =
     bindR (executable_is (a ! 12) RAYDIUM L) (\<lambda>_.
     bindR (needP (key_in a 13 = RAYDIUM_AUTH \<and> ac_owner (acct L a 14) = RAYDIUM \<and> ac_owner (acct L a 15) = RAYDIUM) IDENTITY) (\<lambda>_.
     bindR (ad (pool_decode (ac_data (acct L a 15)) (nat (vm_time vm)))) (\<lambda>pool.
     bindR (needP (rp_config pool = key_in a 14 \<and> rp_observation pool = key_in a 18 \<and> rp_mints pool = (key_in a 5, key_in a 6)
              \<and> rp_vaults pool = (key_in a 16, key_in a 17) \<and> rp_token_programs pool = (TOKEN, TOKEN)) IDENTITY) (\<lambda>_.
     bindR (token_at (a ! 16) (key_in a 5) RAYDIUM_AUTH L) (\<lambda>b0.
     bindR (token_at (a ! 17) (key_in a 6) RAYDIUM_AUTH L) (\<lambda>b1.
     ad (pool_quote pool (ac_data (acct L a 14)) (b0, b1) sell input)))))))"

definition raydium_leg :: "vm \<Rightarrow> account_ref list \<Rightarrow> bool \<Rightarrow> nat \<Rightarrow> (ledger, unit) comp" where
  "raydium_leg vm a sell input =
     bindS (readL (raydium_quote vm a sell input)) (\<lambda>exact_out.
     let dst = (if sell then 3 else 2)
     in bindS (readL (amount_at (a ! dst))) (\<lambda>held.
        bindS (callL vm (raydium_call a sell input exact_out) []) (\<lambda>_.
        bindS (readL (amount_at (a ! dst))) (\<lambda>after_out.
        liftR (needP (checked_sub after_out held = Some exact_out) CONSERVATION)))))"

section \<open>Settlement\<close>

text \<open>The intent as its 44 bytes give it.\<close>

record settle_intent =
  si_mode :: nat
  si_sell :: bool
  si_matches :: nat
  si_sequence :: nat
  si_input :: nat
  si_min_out :: nat
  si_deadline :: nat
  si_budget :: nat

definition settle_parse :: "nat list \<Rightarrow> settle_intent res" where
  "settle_parse d =
     bindR (ad (u64_at d 4)) (\<lambda>sequence. bindR (ad (u64_at d 12)) (\<lambda>input. bindR (ad (u64_at d 20)) (\<lambda>min_out.
     bindR (ad (u64_at d 28)) (\<lambda>deadline. bindR (ad (u64_at d 36)) (\<lambda>budget.
     let mode = d ! 1; matches = d ! 3
     in bindR (needP (1 \<le> mode \<and> mode \<le> 3 \<and> d ! 2 \<le> 1 \<and> 0 < input \<and> input \<le> MAX_INPUT \<and> 0 < min_out \<and> budget \<le> input
                 \<and> 1 \<le> matches \<and> matches \<le> ADAPTER_MAX_MATCHES) BOUNDS) (\<lambda>_.
        Inr \<lparr>si_mode = mode, si_sell = (d ! 2 = 1), si_matches = matches, si_sequence = sequence, si_input = input,
          si_min_out = min_out, si_deadline = deadline, si_budget = budget\<rparr>))))))"

text \<open>The alias check: a shared 8-byte prefix triggers the comparison of the whole keys.\<close>

definition WRITABLE :: "nat list" where
  "WRITABLE = [1, 2, 3, 9, 10, 11, 15, 16, 17, 18]"

fun alias_loop :: "account_ref list \<Rightarrow> nat list \<Rightarrow> (nat \<times> nat) list \<Rightarrow> unit res" where
  "alias_loop a [] seen = Inr ()"
| "alias_loop a (x # xs) seen =
     bindR (needP (am_writable (a ! x)) IDENTITY) (\<lambda>_.
     bindR (ad (u64_at (key_bytes (key_in a x)) 0)) (\<lambda>p.
     bindR (needP (list_all (\<lambda>(q, y). p = q \<longrightarrow> key_in a x \<noteq> key_in a y) seen) IDENTITY) (\<lambda>_.
     alias_loop a xs (seen @ [(p, x)]))))"

text \<open>Everything before the legs; the result is the intent, the next sequence number and both balances.\<close>

definition settle_checks :: "vm \<Rightarrow> key \<Rightarrow> account_ref list \<Rightarrow> nat list \<Rightarrow> ledger \<Rightarrow> (settle_intent \<times> nat \<times> nat \<times> nat) res" where
  "settle_checks vm program a d L =
     bindR (needP (length a = 19) BOUNDS) (\<lambda>_.
     bindR (settle_parse d) (\<lambda>t.
     bindR (needP (am_signer (a ! 0) \<and> am_writable (a ! 0) \<and> am_writable (a ! 1) \<and> ac_owner (acct L a 1) = program) IDENTITY) (\<lambda>_.
     let nonce = ac_data (acct L a 1)
     in bindR (needP (length nonce = NONCE_LEN \<and> take 8 nonce = NONCE_TAG \<and> take 32 (drop 8 nonce) = key_bytes (key_in a 0)) IDENTITY) (\<lambda>_.
        bindR (ad (u64_at nonce 40)) (\<lambda>stored.
        bindR (needP (stored = si_sequence t) REPLAY) (\<lambda>_.
        bindR (prog_or (checked_add 64 (si_sequence t) 1) BOUNDS) (\<lambda>next_sequence.
        bindR (needP (vm_slot vm \<le> si_deadline t \<and> 0 \<le> vm_time vm) EXPIRED) (\<lambda>_.
        bindR (executable_is (a ! 4) TOKEN L) (\<lambda>_.
        bindR (needP (ac_owner (acct L a 5) = TOKEN \<and> ac_owner (acct L a 6) = TOKEN \<and> key_in a 5 \<noteq> key_in a 6) IDENTITY) (\<lambda>_.
        bindR (alias_loop a WRITABLE []) (\<lambda>_.
        bindR (token_at (a ! 2) (key_in a 5) (key_in a 0) L) (\<lambda>base.
        bindR (token_at (a ! 3) (key_in a 6) (key_in a 0) L) (\<lambda>qt.
        let (before_in, before_out) = (if si_sell t then (base, qt) else (qt, base))
        in bindR (needP (si_input t \<le> before_in) BOUNDS) (\<lambda>_.
           Inr (t, next_sequence, before_in, before_out)))))))))))))))"

definition put_outcome :: "nat \<Rightarrow> nat \<Rightarrow> nat \<Rightarrow> nat list \<Rightarrow> nat list" where
  "put_outcome next_sequence actual_in actual_out bs =
     write_at 56 (to_le 8 actual_out) (write_at 48 (to_le 8 actual_in) (write_at 40 (to_le 8 next_sequence) bs))"

definition settle_first :: "vm \<Rightarrow> account_ref list \<Rightarrow> settle_intent \<Rightarrow> (ledger, bool) comp" where
  "settle_first vm a t =
     (if odd (si_mode t) \<and> 0 < si_budget t
      then phoenix_leg vm a (si_sell t) (si_budget t) (si_matches t) (si_deadline t) else ret False)"

definition settle_second :: "vm \<Rightarrow> account_ref list \<Rightarrow> settle_intent \<Rightarrow> nat \<Rightarrow> (ledger, bool) comp" where
  "settle_second vm a t residual =
     (if odd (si_mode t div 2) \<and> 0 < residual
      then bindS (raydium_leg vm a (si_sell t) residual) (\<lambda>_. ret True) else ret False)"

definition settle_close :: "account_ref list \<Rightarrow> settle_intent \<Rightarrow> nat \<Rightarrow> nat \<Rightarrow> nat \<Rightarrow> nat \<Rightarrow> nat \<Rightarrow> (ledger, nat list) comp" where
  "settle_close a t next_sequence before_in before_out spent legs =
     bindS (readL (amount_at (a ! (if si_sell t then 2 else 3)))) (\<lambda>after_in.
     bindS (liftR (prog_or (checked_sub before_in after_in) CONSERVATION)) (\<lambda>actual_in.
     bindS (readL (amount_at (a ! (if si_sell t then 3 else 2)))) (\<lambda>after_out.
     bindS (liftR (prog_or (checked_sub after_out before_out) CONSERVATION)) (\<lambda>actual_out.
     bindS (liftR (needP (actual_in = si_input t) CONSERVATION)) (\<lambda>_.
     bindS (liftR (needP (si_min_out t \<le> actual_out) MIN_OUT)) (\<lambda>_.
     bindS (readL (has_room (key_in a 1) NONCE_LEN)) (\<lambda>_.
     bindS (writeL (key_in a 1) (put_outcome next_sequence actual_in actual_out)) (\<lambda>_.
     ret (concat (map (to_le 8) [si_sequence t, actual_in, actual_out, spent, legs]))))))))))"

definition settle :: "vm \<Rightarrow> key \<Rightarrow> account_ref list \<Rightarrow> nat list \<Rightarrow> (ledger, nat list) comp" where
  "settle vm program a d =
     bindS (readL (settle_checks vm program a d)) (\<lambda>(t, next_sequence, before_in, before_out).
     bindS (settle_first vm a t) (\<lambda>first.
     bindS (readL (amount_at (a ! (if si_sell t then 2 else 3)))) (\<lambda>after_phoenix.
     bindS (liftR (prog_or (checked_sub before_in after_phoenix) CONSERVATION)) (\<lambda>spent.
     bindS (liftR (needP (spent \<le> si_input t \<and> spent \<le> si_budget t) CONSERVATION)) (\<lambda>_.
     bindS (liftR (sub_w (si_input t) spent)) (\<lambda>residual.
     bindS (settle_second vm a t residual) (\<lambda>second.
     settle_close a t next_sequence before_in before_out spent (of_bool first + of_bool second))))))))"

end
