(* ===== verification/Policy.thy ===== *)
theory Policy
  imports Settle Native
begin

text \<open>
  What a stock order rests on in the settlement program: token accounts and Token-2022 extensions
  (\<open>graph.rs\<close>: \<open>extensions\<close>, \<open>checked_asset\<close>), the versioned stock policy (\<open>stock.rs\<close>), the product claim
  (\<open>claim.rs\<close>) and the exposure converter bound to a mint (\<open>exposure.rs\<close>). Accounts are named by their index
  in the instruction, as in the code.
\<close>

section \<open>Checked token accounts\<close>

definition TOKEN_2022 :: key where
  "TOKEN_2022 = 0x6ddf6e1ee758fde18425dbce46ccddab61afc4d83b90d27febdf928d8a18bfc"

definition extension_rule :: "bool \<Rightarrow> nat \<Rightarrow> nat \<Rightarrow> nat list \<Rightarrow> unit res" where
  "extension_rule mint kind len ext =
     (if mint \<and> kind = 14 then needP (len = 64 \<and> list_all (\<lambda>b. b = 0) (drop 32 ext)) IDENTITY
      else if mint \<and> kind = 16 then needP (len = 129) IDENTITY
      else if mint \<and> kind = 26 then needP (len = 33 \<and> ext ! 32 = 0) IDENTITY
      else if mint \<and> kind = 6 then needP (len = 1 \<and> ext ! 0 = 1) IDENTITY
      else if \<not> mint \<and> kind = 15 then needP (len = 1 \<and> ext ! 0 = 0) IDENTITY
      else if \<not> mint \<and> (kind = 27 \<or> kind = 7) then needP (len = 0) IDENTITY
      else if \<not> mint \<and> kind = 2 then needP (len = 8) IDENTITY
      else Inr ())"

definition admitted_kinds :: "bool \<Rightarrow> nat list" where
  "admitted_kinds mint = (if mint then [1, 3, 4, 6, 10, 12, 14, 16, 18, 19, 25, 26] else [2, 7, 15, 27])"

text \<open>The loop over the extensions; \<open>seen\<close> lists the kinds already met (the bits of the mask).\<close>

function extension_loop :: "nat list \<Rightarrow> bool \<Rightarrow> nat \<Rightarrow> nat list \<Rightarrow> unit res" where
  "extension_loop d mint p seen =
     (if length d \<le> p \<or> (d ! p = 0 \<and> list_all (\<lambda>b. b = 0) (drop p d)) then Inr ()
      else
        bindR (needP (p + 4 \<le> length d) IDENTITY) (\<lambda>_.
        let kind = from_le (byte_slice d p 2); len = from_le (byte_slice d (p + 2) 2)
        in bindR (needP (kind \<in> set (admitted_kinds mint) \<and> kind < 64 \<and> kind \<notin> set seen) IDENTITY) (\<lambda>_.
           bindR (prog_or (get_range d (p + 4) (p + 4 + len)) IDENTITY) (\<lambda>ext.
           bindR (extension_rule mint kind len ext) (\<lambda>_.
           if p + (4 + len) < 2 ^ 64 then
             bindR (needP (p + (4 + len) \<le> length d) IDENTITY) (\<lambda>_. extension_loop d mint (p + (4 + len)) (kind # seen))
           else Inl (Prog (Custom BOUNDS)))))))"
  by pat_completeness auto
termination by (relation "measure (\<lambda>(d, _, p, _). length d - p)") auto

declare extension_loop.simps [simp del]

definition extensions :: "nat list \<Rightarrow> bool \<Rightarrow> unit res" where
  "extensions d mint =
     (if length d = (if mint then 82 else 165) then Inr ()
      else
        bindR (needP (166 \<le> length d \<and> d ! 165 = (if mint then 1 else 2)) IDENTITY) (\<lambda>_.
        bindR (if mint then needP (list_all (\<lambda>b. b = 0) (byte_slice d 82 83)) IDENTITY else Inr ()) (\<lambda>_.
        extension_loop d mint 166 [])))"

definition checked_asset :: "account_ref \<Rightarrow> account_ref \<Rightarrow> account_ref \<Rightarrow> account_ref \<Rightarrow> bool \<Rightarrow> ledger \<Rightarrow> nat res" where
  "checked_asset wallet t m p inspect_mint L =
     (let td = ac_data (L (am_key t)); md = ac_data (L (am_key m))
      in bindR (needP ((am_key p = TOKEN \<or> am_key p = TOKEN_2022) \<and> ac_executable (L (am_key p)) \<and> ac_owner (L (am_key t)) = am_key p
               \<and> ac_owner (L (am_key m)) = am_key p \<and> am_writable t \<and> \<not> am_writable m) IDENTITY) (\<lambda>_.
         bindR (andR [Inr (165 \<le> length td \<and> td ! 108 = 1 \<and> byte_slice td 72 4 = replicate 4 0 \<and> byte_slice td 121 8 = replicate 8 0
                    \<and> byte_slice td 129 4 = replicate 4 0),
                  bindR (ad (key_at td 0)) (\<lambda>k. Inr (k = am_key m)), bindR (ad (key_at td 32)) (\<lambda>k. Inr (k = am_key wallet))]) (\<lambda>ok.
         bindR (needP ok IDENTITY) (\<lambda>_.
         bindR (if am_key p = TOKEN then needP (length td = 165) IDENTITY else extensions td False) (\<lambda>_.
         bindR (if inspect_mint
                then bindR (needP (82 \<le> length md \<and> md ! 45 = 1) IDENTITY) (\<lambda>_.
                     if am_key p = TOKEN then needP (length md = 82) IDENTITY else extensions md True)
                else Inr ()) (\<lambda>_.
         ad (u64_at td 64)))))))"

section \<open>Stock policies\<close>

text \<open>\<open>SKEWSTK2\<close> and \<open>stock2\<close>.\<close>

definition POLICY_TAG :: "nat list" where "POLICY_TAG = [83, 75, 69, 87, 83, 84, 75, 50]"
definition POLICY_LEN :: nat where "POLICY_LEN = 225"
definition POLICY_SEED :: "nat list" where "POLICY_SEED = [115, 116, 111, 99, 107, 50]"

definition policy_seeds :: "key \<Rightarrow> key \<Rightarrow> key \<Rightarrow> key \<Rightarrow> key \<Rightarrow> nat list list" where
  "policy_seeds authority instrument input output rights =
     [POLICY_SEED, key_bytes authority, key_bytes instrument, key_bytes input, key_bytes output, key_bytes rights]"

text \<open>The flags \<open>SECONDARY\<close> 1, \<open>HALTED\<close> 8 and \<open>UNDERLYING_OPEN\<close> 16.\<close>

definition policy_tradable :: "nat \<Rightarrow> bool \<Rightarrow> bool" where
  "policy_tradable flags allow_closed \<longleftrightarrow> odd flags \<and> \<not> odd (flags div 8) \<and> (odd (flags div 16) \<or> allow_closed)"

definition policy_fields :: "account_ref list \<Rightarrow> nat list \<Rightarrow> key \<Rightarrow> nat \<Rightarrow> nat \<Rightarrow> nat \<Rightarrow> (nat \<times> nat list) list" where
  "policy_fields a d rights version slot expires =
     [(0, POLICY_TAG), (8, key_bytes (key_in a 0)), (40, byte_slice d 1 128), (168, key_bytes rights), (200, to_le 8 version),
      (208, to_le 8 slot), (216, to_le 8 expires), (224, [d ! 177])]"

definition policy_publish :: "vm \<Rightarrow> key \<Rightarrow> account_ref list \<Rightarrow> nat list \<Rightarrow> (ledger, unit) comp" where
  "policy_publish vm program a d =
     bindS (liftR (needP (length a = 3 \<and> length d = 178 \<and> d ! 0 = 19) BOUNDS)) (\<lambda>_.
     bindS (liftR (needP (am_signer (a ! 0) \<and> am_writable (a ! 0) \<and> am_writable (a ! 1) \<and> key_in a 2 = vm_system vm) IDENTITY)) (\<lambda>_.
     bindS (liftR (ad (key_at d 1))) (\<lambda>instrument. bindS (liftR (ad (key_at d 33))) (\<lambda>issuer.
     bindS (liftR (ad (key_at d 65))) (\<lambda>input. bindS (liftR (ad (key_at d 97))) (\<lambda>out.
     bindS (liftR (ad (key_at d 129))) (\<lambda>rights.
     bindS (liftR (ad (u64_at d 161))) (\<lambda>version. bindS (liftR (ad (u64_at d 169))) (\<lambda>expires.
     let flags = d ! 177; slot = vm_slot vm
     in bindS (liftR (if 0 < version \<and> flags < 32 \<and> input \<noteq> out \<and> instrument \<noteq> 0 \<and> issuer \<noteq> 0 \<and> rights \<noteq> 0 \<and> slot \<le> expires
                      then bindR (prog_or (checked_add 64 slot 3600) BOUNDS) (\<lambda>latest. Inr (expires \<le> latest)) else Inr False)) (\<lambda>ok.
        bindS (liftR (needP ok BOUNDS)) (\<lambda>_.
        case vm_find vm (policy_seeds (key_in a 0) instrument input out rights) program of (pda, bump) \<Rightarrow>
        bindS (liftR (needP (key_in a 1 = pda) IDENTITY)) (\<lambda>_.
        bindS (\<lambda>L. (if ac_owner (acct L a 1) = program
               then liftR (let old = ac_data (acct L a 1)
                     in bindR (needP (length old = POLICY_LEN \<and> byte_slice old 0 8 = POLICY_TAG \<and> byte_slice old 8 32 = key_bytes (key_in a 0)
                          \<and> byte_slice old 40 32 = key_bytes instrument \<and> byte_slice old 72 32 = key_bytes issuer \<and> byte_slice old 104 32 = key_bytes input
                          \<and> byte_slice old 136 32 = key_bytes out \<and> byte_slice old 168 32 = key_bytes rights) IDENTITY) (\<lambda>_.
                        bindR (ad (u64_at old 200)) (\<lambda>v. needP (checked_add 64 v 1 = Some version) REPLAY)))
               else bindS (liftR (needP (ac_data (acct L a 1) = [] \<and> ac_owner (acct L a 1) = vm_system vm \<and> version = 1) IDENTITY)) (\<lambda>_.
                    create_cell vm program (key_in a 0) (key_in a 1) POLICY_LEN
                      (policy_seeds (key_in a 0) instrument input out rights @ [[bump]]))) L) (\<lambda>_.
        bindS (readL (has_room (key_in a 1) POLICY_LEN)) (\<lambda>_.
        writeL (key_in a 1) (put_fields (policy_fields a d rights version slot expires))))))))))))))))"

definition policy_valid ::
  "vm \<Rightarrow> key \<Rightarrow> account_ref list \<Rightarrow> nat \<Rightarrow> nat \<Rightarrow> nat \<Rightarrow> bool \<Rightarrow> nat \<Rightarrow> nat \<Rightarrow> nat \<Rightarrow> ledger \<Rightarrow> unit res"
where
  "policy_valid vm program a index version max_age allow_closed input_mint output_mint deadline L =
     bindR (needP (index < length a \<and> 1 < index \<and> 1 \<le> max_age \<and> max_age \<le> 150) BOUNDS) (\<lambda>_.
     bindR (needP (input_mint < length a \<and> output_mint < length a) BOUNDS) (\<lambda>_.
     bindR (needP (ac_owner (acct L a index) = program \<and> \<not> am_writable (a ! index) \<and> \<not> ac_executable (acct L a index)) IDENTITY) (\<lambda>_.
     let p = ac_data (acct L a index)
     in bindR (needP (length p = POLICY_LEN \<and> byte_slice p 0 8 = POLICY_TAG) IDENTITY) (\<lambda>_.
        bindR (ad (key_at p 8)) (\<lambda>authority. bindR (ad (key_at p 40)) (\<lambda>instrument. bindR (ad (key_at p 104)) (\<lambda>input.
        bindR (ad (key_at p 136)) (\<lambda>out. bindR (ad (key_at p 168)) (\<lambda>rights.
        bindR (if key_in a index = fst (vm_find vm (policy_seeds authority instrument input out rights) program)
               then bindR (ad (u64_at p 200)) (\<lambda>v. Inr (v = version)) else Inr False) (\<lambda>ok.
        bindR (needP ok IDENTITY) (\<lambda>_.
        bindR (ad (u64_at p 208)) (\<lambda>updated. bindR (ad (u64_at p 216)) (\<lambda>expires.
        bindR (needP (updated \<le> vm_slot vm \<and> vm_slot vm - updated \<le> max_age \<and> vm_slot vm \<le> expires \<and> deadline \<le> expires) EXPIRED) (\<lambda>_.
        bindR (needP (policy_tradable (p ! 224) allow_closed) EXPIRED) (\<lambda>_.
        needP (key_in a input_mint = input \<and> key_in a output_mint = out) IDENTITY)))))))))))))))"

section \<open>The exposure converter\<close>

record converter =
  cn_scaled :: scaled_ui
  cn_numerator :: nat
  cn_denominator :: nat
  cn_bps :: nat

definition FIXED_RATIONAL :: nat where "FIXED_RATIONAL = 0"
definition TOKEN_2022_SCALED_UI :: nat where "TOKEN_2022_SCALED_UI = 1"

definition native_ad :: "'a res \<Rightarrow> 'a res" where
  "native_ad r = (case r of Inl (Native e) \<Rightarrow> Inl (Prog (Custom ADAPTER)) | _ \<Rightarrow> r)"

definition converter_decode ::
  "account_ref list \<Rightarrow> nat \<Rightarrow> nat \<Rightarrow> nat \<Rightarrow> nat \<Rightarrow> nat \<Rightarrow> int \<Rightarrow> ledger \<Rightarrow> converter res"
where
  "converter_decode a output_mint model bps numerator denominator timestamp L =
     (let data = ac_data (acct L a output_mint)
      in bindR (if model = FIXED_RATIONAL then
                  bindR (needP (82 \<le> length data \<and> data ! 45 = 1) IDENTITY) (\<lambda>_.
                  Inr \<lparr>sc_decimals = data ! 44, sc_multiplier = 2 ^ 32, sc_effective = 2 ^ 63 - 1, sc_next = 2 ^ 32\<rparr>)
                else if model = TOKEN_2022_SCALED_UI then
                  bindR (needP (ac_owner (acct L a output_mint) = TOKEN_2022) IDENTITY) (\<lambda>_.
                  bindR (native_ad (scaled_decode data timestamp)) (\<lambda>scaled.
                  bindR (needP (sc_effective scaled \<le> 0 \<or> 900 < \<bar>timestamp - sc_effective scaled\<bar>) EXPIRED) (\<lambda>_. Inr scaled)))
                else Inl (Prog (Custom BOUNDS))) (\<lambda>scaled.
         bindR (needP (0 < numerator \<and> 0 < denominator \<and> 1 \<le> bps \<and> bps \<le> 10000) BOUNDS) (\<lambda>_.
         Inr \<lparr>cn_scaled = scaled, cn_numerator = numerator, cn_denominator = denominator, cn_bps = bps\<rparr>)))"

definition converter_exposure :: "converter \<Rightarrow> nat \<Rightarrow> nat res" where
  "converter_exposure c raw_output = native_ad (exposure_q32_of (cn_scaled c) raw_output (cn_numerator c) (cn_denominator c) (cn_bps c))"

definition exposure_convert ::
  "account_ref list \<Rightarrow> nat \<Rightarrow> nat \<Rightarrow> nat \<Rightarrow> nat \<Rightarrow> nat \<Rightarrow> nat \<Rightarrow> int \<Rightarrow> ledger \<Rightarrow> nat res"
where
  "exposure_convert a output_mint model bps numerator denominator raw_output timestamp L =
     bindR (converter_decode a output_mint model bps numerator denominator timestamp L) (\<lambda>c. converter_exposure c raw_output)"

section \<open>Product claims\<close>

text \<open>\<open>SKEWCLM1\<close> and \<open>claim\<close>.\<close>

definition CLAIM_TAG :: "nat list" where "CLAIM_TAG = [83, 75, 69, 87, 67, 76, 77, 49]"
definition CLAIM_LEN :: nat where "CLAIM_LEN = 288"
definition CLAIM_SEED :: "nat list" where "CLAIM_SEED = [99, 108, 97, 105, 109]"

definition claim_seeds :: "key \<Rightarrow> key \<Rightarrow> key \<Rightarrow> nat list list" where
  "claim_seeds authority instrument product_mint = [CLAIM_SEED, key_bytes authority, key_bytes instrument, key_bytes product_mint]"

record claim_terms =
  ct_model :: nat
  ct_bps :: nat
  ct_instrument :: key
  ct_issuer :: key
  ct_policy_version :: nat
  ct_max_age :: nat
  ct_version :: nat
  ct_numerator :: nat
  ct_denominator :: nat
  ct_expires :: nat

definition claim_parse :: "vm \<Rightarrow> nat list \<Rightarrow> claim_terms res" where
  "claim_parse vm d =
     bindR (ad (key_at d 8)) (\<lambda>instrument. bindR (ad (key_at d 40)) (\<lambda>issuer.
     bindR (ad (u64_at d 72)) (\<lambda>policy_version. bindR (ad (u64_at d 80)) (\<lambda>max_age. bindR (ad (u64_at d 88)) (\<lambda>claim_version.
     bindR (ad (u64_at d 96)) (\<lambda>numerator. bindR (ad (u64_at d 104)) (\<lambda>denominator. bindR (ad (u64_at d 112)) (\<lambda>expires.
     let bps = from_le (byte_slice d 4 2)
     in bindR (needP (instrument \<noteq> 0 \<and> issuer \<noteq> 0 \<and> 0 < policy_version \<and> 0 < claim_version \<and> 1 \<le> max_age \<and> max_age \<le> 150
                 \<and> 1 \<le> bps \<and> bps \<le> 10000 \<and> 0 < numerator \<and> 0 < denominator) BOUNDS) (\<lambda>_.
        bindR (if vm_slot vm \<le> expires then bindR (prog_or (checked_add 64 (vm_slot vm) 1000000) BOUNDS) (\<lambda>latest. Inr (expires \<le> latest))
               else Inr False) (\<lambda>ok.
        bindR (needP ok EXPIRED) (\<lambda>_.
        Inr \<lparr>ct_model = d ! 1, ct_bps = bps, ct_instrument = instrument, ct_issuer = issuer, ct_policy_version = policy_version,
          ct_max_age = max_age, ct_version = claim_version, ct_numerator = numerator, ct_denominator = denominator, ct_expires = expires\<rparr>)))))))))))"

definition claim_fields :: "vm \<Rightarrow> account_ref list \<Rightarrow> nat list \<Rightarrow> claim_terms \<Rightarrow> (nat \<times> nat list) list" where
  "claim_fields vm a d t =
     [(0, CLAIM_TAG), (8, key_bytes (key_in a 0)), (40, key_bytes (ct_instrument t)), (72, key_bytes (ct_issuer t)), (104, key_bytes (key_in a 3)),
      (136, key_bytes (key_in a 4)), (168, key_bytes (key_in a 2)), (200, key_bytes (key_in a 5)), (232, to_le 8 (ct_policy_version t)),
      (240, to_le 8 (ct_version t)), (248, to_le 8 (ct_numerator t)), (256, to_le 8 (ct_denominator t)), (264, to_le 8 (vm_slot vm)),
      (272, to_le 8 (ct_expires t)), (280, to_le 2 (ct_bps t)), (282, [d ! 1]), (283, [d ! 2])]"

definition claim_publish :: "vm \<Rightarrow> key \<Rightarrow> account_ref list \<Rightarrow> nat list \<Rightarrow> (ledger, nat list) comp" where
  "claim_publish vm program a d =
     bindS (liftR (needP (length d = 120 \<and> d ! 0 = 17 \<and> (d ! 1 = FIXED_RATIONAL \<or> d ! 1 = TOKEN_2022_SCALED_UI) \<and> d ! 2 = 1 \<and> d ! 3 = 0
               \<and> byte_slice d 6 2 = [0, 0] \<and> length a = 7) BOUNDS)) (\<lambda>_.
     bindS (readL (\<lambda>L. needP (am_signer (a ! 0) \<and> am_writable (a ! 0) \<and> am_writable (a ! 1) \<and> \<not> am_writable (a ! 2) \<and> \<not> am_writable (a ! 3)
               \<and> \<not> am_writable (a ! 4) \<and> \<not> am_writable (a ! 5) \<and> ac_executable (acct L a 5) \<and> ac_owner (acct L a 4) = key_in a 5
               \<and> key_in a 5 \<in> {TOKEN, TOKEN_2022} \<and> ac_owner (acct L a 3) \<in> {TOKEN, TOKEN_2022} \<and> key_in a 6 = vm_system vm) IDENTITY)) (\<lambda>_.
     bindS (liftR (claim_parse vm d)) (\<lambda>t.
     bindS (readL (policy_valid vm program a 2 (ct_policy_version t) (ct_max_age t) False 3 4 (vm_slot vm))) (\<lambda>_.
     bindS (readL (\<lambda>L. needP (byte_slice (ac_data (acct L a 2)) 40 32 = key_bytes (ct_instrument t)
               \<and> byte_slice (ac_data (acct L a 2)) 72 32 = key_bytes (ct_issuer t)) IDENTITY)) (\<lambda>_.
     case vm_find vm (claim_seeds (key_in a 0) (ct_instrument t) (key_in a 4)) program of (pda, bump) \<Rightarrow>
     bindS (liftR (needP (key_in a 1 = pda) IDENTITY)) (\<lambda>_.
     bindS (\<lambda>L. (if ac_owner (acct L a 1) = program
            then liftR (let s = ac_data (acct L a 1)
                  in bindR (andR [Inr (length s = CLAIM_LEN \<and> byte_slice s 0 8 = CLAIM_TAG \<and> byte_slice s 8 32 = key_bytes (key_in a 0)
                         \<and> byte_slice s 40 32 = key_bytes (ct_instrument t) \<and> byte_slice s 72 32 = key_bytes (ct_issuer t)
                         \<and> byte_slice s 104 32 = key_bytes (key_in a 3) \<and> byte_slice s 136 32 = key_bytes (key_in a 4)
                         \<and> byte_slice s 168 32 = key_bytes (key_in a 2) \<and> byte_slice s 200 32 = key_bytes (key_in a 5)),
                       bindR (ad (u64_at s 240)) (\<lambda>v. Inr (checked_add 64 v 1 = Some (ct_version t)))]) (\<lambda>ok. needP ok IDENTITY))
            else bindS (liftR (needP (ac_data (acct L a 1) = [] \<and> ac_owner (acct L a 1) = vm_system vm \<and> ct_version t = 1) IDENTITY)) (\<lambda>_.
                 create_cell vm program (key_in a 0) (key_in a 1) CLAIM_LEN (claim_seeds (key_in a 0) (ct_instrument t) (key_in a 4) @ [[bump]]))) L) (\<lambda>_.
     bindS (readL (has_room (key_in a 1) CLAIM_LEN)) (\<lambda>_.
     bindS (writeL (key_in a 1) (\<lambda>s. put_fields (claim_fields vm a d t) (replicate (length s) 0))) (\<lambda>_.
     readL (\<lambda>L. Inr (take CLAIM_LEN (ac_data (acct L a 1)))))))))))))"

text \<open>What a taker presents of a claim; the accounts are indices.\<close>

record claim_use =
  cu_claim :: nat
  cu_policy :: nat
  cu_cash_mint :: nat
  cu_product_mint :: nat
  cu_token_program :: nat
  cu_policy_version :: nat
  cu_max_age :: nat
  cu_allow_closed :: bool
  cu_model :: nat
  cu_bps :: nat
  cu_numerator :: nat
  cu_denominator :: nat

definition claim_valid :: "vm \<Rightarrow> key \<Rightarrow> account_ref list \<Rightarrow> claim_use \<Rightarrow> nat \<Rightarrow> ledger \<Rightarrow> unit res" where
  "claim_valid vm program a c deadline L =
     bindR (needP (list_all (\<lambda>i. i < length a) [cu_claim c, cu_policy c, cu_cash_mint c, cu_product_mint c, cu_token_program c]) BOUNDS) (\<lambda>_.
     let s = ac_data (acct L a (cu_claim c))
     in bindR (andR [Inr (ac_owner (acct L a (cu_claim c)) = program \<and> \<not> am_writable (a ! cu_claim c) \<and> \<not> ac_executable (acct L a (cu_claim c))
              \<and> length s = CLAIM_LEN \<and> byte_slice s 0 8 = CLAIM_TAG \<and> s ! 283 = 1 \<and> byte_slice s 168 32 = key_bytes (key_in a (cu_policy c))
              \<and> byte_slice s 104 32 = key_bytes (key_in a (cu_cash_mint c)) \<and> byte_slice s 136 32 = key_bytes (key_in a (cu_product_mint c))
              \<and> byte_slice s 200 32 = key_bytes (key_in a (cu_token_program c))),
            bindR (ad (u64_at s 232)) (\<lambda>v. Inr (v = cu_policy_version c)),
            bindR (ad (u64_at s 248)) (\<lambda>v. Inr (v = cu_numerator c)),
            bindR (ad (u64_at s 256)) (\<lambda>v. Inr (v = cu_denominator c)),
            Inr (from_le (byte_slice s 280 2) = cu_bps c \<and> s ! 282 = cu_model c)]) (\<lambda>ok.
        bindR (needP ok IDENTITY) (\<lambda>_.
        bindR (ad (key_at s 8)) (\<lambda>authority. bindR (ad (key_at s 40)) (\<lambda>instrument.
        bindR (needP (key_in a (cu_claim c) = fst (vm_find vm (claim_seeds authority instrument (key_in a (cu_product_mint c))) program)) IDENTITY) (\<lambda>_.
        bindR (ad (u64_at s 272)) (\<lambda>expires.
        bindR (needP (vm_slot vm \<le> expires \<and> deadline \<le> expires) EXPIRED) (\<lambda>_.
        policy_valid vm program a (cu_policy c) (cu_policy_version c) (cu_max_age c) (cu_allow_closed c) (cu_cash_mint c) (cu_product_mint c)
          deadline L))))))))"

end
