(* ===== verification/Orders.thy ===== *)
theory Orders
  imports Policy
begin

text \<open>
  Resting asks (\<open>programs/stocklana-settle/src/order.rs\<close>): one program account per \<open>(owner, nonce)\<close> holds the
  order, a token account of that address holds the stock. \<open>place\<close> funds it, \<open>validate_fill\<close> and \<open>record_fill\<close>
  admit and book a fill made elsewhere in the same instruction, \<open>cancel\<close> returns what remains and leaves a
  tombstone.
\<close>

section \<open>Layout\<close>

text \<open>\<open>SKEWORD1\<close> and \<open>onebook\<close>.\<close>

definition ORDER_TAG :: "nat list" where "ORDER_TAG = [83, 75, 69, 87, 79, 82, 68, 49]"
definition ORDER_SEED :: "nat list" where "ORDER_SEED = [111, 110, 101, 98, 111, 111, 107]"
definition ORDER_LEN :: nat where "ORDER_LEN = 336"
definition ORDER_OPEN :: nat where "ORDER_OPEN = 1"
definition ORDER_CANCELLED :: nat where "ORDER_CANCELLED = 2"

lemmas order_layout = ORDER_LEN_def ORDER_OPEN_def ORDER_CANCELLED_def

definition order_seeds :: "key \<Rightarrow> nat \<Rightarrow> nat list list" where
  "order_seeds owner nonce = [ORDER_SEED, key_bytes owner, to_le 8 nonce]"

section \<open>Transfers\<close>

definition checked_transfer :: "account_ref list \<Rightarrow> nat \<Rightarrow> nat \<Rightarrow> nat \<Rightarrow> nat \<Rightarrow> nat \<Rightarrow> nat \<Rightarrow> nat \<Rightarrow> cpi" where
  "checked_transfer a src mint dst authority token_program amount decimals =
     Call \<lparr>ix_program = key_in a token_program,
       ix_accounts = [\<lparr>am_key = key_in a src, am_signer = False, am_writable = True\<rparr>,
         \<lparr>am_key = key_in a mint, am_signer = False, am_writable = False\<rparr>,
         \<lparr>am_key = key_in a dst, am_signer = False, am_writable = True\<rparr>,
         \<lparr>am_key = key_in a authority, am_signer = True, am_writable = False\<rparr>],
       ix_data = 12 # to_le 8 amount @ [decimals]\<rparr>"

definition transfer_checked :: "vm \<Rightarrow> account_ref list \<Rightarrow> nat \<Rightarrow> nat \<Rightarrow> nat \<Rightarrow> nat \<Rightarrow> nat \<Rightarrow> nat \<Rightarrow> (ledger, unit) comp" where
  "transfer_checked vm a src mint dst authority token_program amount =
     bindS (readL (\<lambda>L. index_at (ac_data (acct L a mint)) 44)) (\<lambda>decimals.
     callL vm (checked_transfer a src mint dst authority token_program amount decimals) [])"

definition transfer_checked_signed ::
  "vm \<Rightarrow> key \<Rightarrow> account_ref list \<Rightarrow> nat \<Rightarrow> nat \<Rightarrow> nat \<Rightarrow> nat \<Rightarrow> nat \<Rightarrow> nat \<Rightarrow> nat \<Rightarrow> nat \<Rightarrow> (ledger, unit) comp"
where
  "transfer_checked_signed vm program a src mint dst ord token_program owner nonce amount =
     bindS (readL (\<lambda>L. index_at (ac_data (acct L a mint)) 44)) (\<lambda>decimals.
     case vm_find vm (order_seeds (key_in a owner) nonce) program of (expected, bump) \<Rightarrow>
     bindS (liftR (needP (key_in a ord = expected) IDENTITY)) (\<lambda>_.
     callL vm (checked_transfer a src mint dst ord token_program amount decimals) [order_seeds (key_in a owner) nonce @ [[bump]]]))"

definition ceil_q32 :: "nat \<Rightarrow> nat \<Rightarrow> nat res" where
  "ceil_q32 v price =
     bindR (prog_or (checked_mul 128 v price) BOUNDS) (\<lambda>product.
     bindR (prog_or (checked_add 128 product (2 ^ 32 - 1)) BOUNDS) (\<lambda>x.
     if x div 2 ^ 32 < 2 ^ 64 then Inr (x div 2 ^ 32) else Inl (Prog (Custom BOUNDS))))"

section \<open>Placing\<close>

record ask =
  ak_closed :: bool
  ak_model :: nat
  ak_bps :: nat
  ak_nonce :: nat
  ak_stock :: nat
  ak_price :: nat
  ak_expires :: nat
  ak_policy_version :: nat
  ak_max_age :: nat
  ak_numerator :: nat
  ak_denominator :: nat
  ak_instrument :: key

definition ask_parse :: "nat list \<Rightarrow> ask res" where
  "ask_parse d =
     bindR (ad (u64_at d 8)) (\<lambda>nonce. bindR (ad (u64_at d 16)) (\<lambda>stock. bindR (ad (u64_at d 24)) (\<lambda>price.
     bindR (ad (u64_at d 32)) (\<lambda>expires. bindR (ad (u64_at d 40)) (\<lambda>policy_version. bindR (ad (u64_at d 48)) (\<lambda>max_age.
     bindR (ad (u64_at d 56)) (\<lambda>numerator. bindR (ad (u64_at d 64)) (\<lambda>denominator. bindR (ad (key_at d 72)) (\<lambda>instrument.
     let bps = from_le (byte_slice d 4 2)
     in bindR (needP (nonce < 2 ^ 64 - 1 \<and> 0 < stock \<and> stock \<le> MAX_INPUT \<and> 0 < price \<and> 0 < policy_version \<and> 1 \<le> max_age \<and> max_age \<le> 150
                 \<and> 1 \<le> bps \<and> bps \<le> 10000 \<and> 0 < numerator \<and> 0 < denominator \<and> instrument \<noteq> 0) BOUNDS) (\<lambda>_.
        Inr \<lparr>ak_closed = (d ! 1 = 1), ak_model = d ! 2, ak_bps = bps, ak_nonce = nonce, ak_stock = stock, ak_price = price, ak_expires = expires,
          ak_policy_version = policy_version, ak_max_age = max_age, ak_numerator = numerator, ak_denominator = denominator,
          ak_instrument = instrument\<rparr>))))))))))"

definition ask_claim :: "ask \<Rightarrow> claim_use" where
  "ask_claim t = \<lparr>cu_claim = 10, cu_policy = 9, cu_cash_mint = 5, cu_product_mint = 6, cu_token_program = 7,
     cu_policy_version = ak_policy_version t, cu_max_age = ak_max_age t, cu_allow_closed = ak_closed t, cu_model = ak_model t, cu_bps = ak_bps t,
     cu_numerator = ak_numerator t, cu_denominator = ak_denominator t\<rparr>"

text \<open>Everything before the account is created; the result is the ask, the address bump and the two stock balances.\<close>

definition place_checks :: "vm \<Rightarrow> key \<Rightarrow> account_ref list \<Rightarrow> nat list \<Rightarrow> ledger \<Rightarrow> (ask \<times> nat \<times> nat \<times> nat) res" where
  "place_checks vm program a d L =
     bindR (needP (length d = 104 \<and> d ! 0 = 15 \<and> d ! 1 \<le> 1 \<and> (d ! 2 = FIXED_RATIONAL \<or> d ! 2 = TOKEN_2022_SCALED_UI) \<and> d ! 3 = 0
               \<and> byte_slice d 6 2 = [0, 0] \<and> length a = 12) BOUNDS) (\<lambda>_.
     bindR (needP (am_signer (a ! 0) \<and> am_writable (a ! 0) \<and> am_writable (a ! 1) \<and> am_writable (a ! 2) \<and> am_writable (a ! 3)
               \<and> am_writable (a ! 4) \<and> key_in a 11 = vm_system vm) IDENTITY) (\<lambda>_.
     bindR (ask_parse d) (\<lambda>t.
     bindR (if 0 \<le> vm_time vm \<and> vm_slot vm < ak_expires t
            then bindR (prog_or (checked_add 64 (vm_slot vm) 1000000) BOUNDS) (\<lambda>latest. Inr (ak_expires t \<le> latest)) else Inr False) (\<lambda>ok.
     bindR (needP ok EXPIRED) (\<lambda>_.
     case vm_find vm (order_seeds (key_in a 0) (ak_nonce t)) program of (pda, bump) \<Rightarrow>
     bindR (needP (key_in a 1 = pda \<and> ac_data (acct L a 1) = [] \<and> ac_owner (acct L a 1) = vm_system vm) IDENTITY) (\<lambda>_.
     bindR (claim_valid vm program a (ask_claim t) (vm_slot vm) L) (\<lambda>_.
     bindR (needP (byte_slice (ac_data (acct L a 9)) 40 32 = key_bytes (ak_instrument t)) IDENTITY) (\<lambda>_.
     bindR (checked_asset (a ! 0) (a ! 2) (a ! 6) (a ! 7) True L) (\<lambda>source_before.
     bindR (checked_asset (a ! 1) (a ! 3) (a ! 6) (a ! 7) False L) (\<lambda>escrow_before.
     bindR (checked_asset (a ! 0) (a ! 4) (a ! 5) (a ! 8) True L) (\<lambda>_.
     bindR (needP (ak_stock t \<le> source_before \<and> escrow_before = 0) BOUNDS) (\<lambda>_.
     bindR (exposure_convert a 6 (ak_model t) (ak_bps t) (ak_numerator t) (ak_denominator t) (ak_stock t) (vm_time vm) L) (\<lambda>exposure.
     bindR (if 0 < exposure then bindR (ceil_q32 exposure (ak_price t)) (\<lambda>c. Inr (0 < c)) else Inr False) (\<lambda>ok.
     bindR (needP ok BOUNDS) (\<lambda>_.
     Inr (t, bump, source_before, escrow_before))))))))))))))))"

definition order_fields :: "vm \<Rightarrow> account_ref list \<Rightarrow> nat list \<Rightarrow> ask \<Rightarrow> (nat \<times> nat list) list" where
  "order_fields vm a d t =
     [(0, ORDER_TAG), (8, key_bytes (key_in a 0)), (40, key_bytes (ak_instrument t)), (72, key_bytes (key_in a 10)), (104, key_bytes (key_in a 5)),
      (136, key_bytes (key_in a 6)), (168, key_bytes (key_in a 3)), (200, key_bytes (key_in a 4)), (232, to_le 8 (ak_nonce t)),
      (240, to_le 8 (ak_stock t)), (248, to_le 8 (ak_stock t)), (256, to_le 8 (ak_price t)), (264, to_le 8 (ak_expires t)), (272, to_le 8 0),
      (280, to_le 8 0), (288, to_le 8 (vm_slot vm)), (296, to_le 8 (ak_policy_version t)), (304, [d ! 2]), (305, to_le 2 (ak_bps t)),
      (312, to_le 8 (ak_numerator t)), (320, to_le 8 (ak_denominator t)), (328, [ORDER_OPEN])]"

definition order_place :: "vm \<Rightarrow> key \<Rightarrow> account_ref list \<Rightarrow> nat list \<Rightarrow> (ledger, nat list) comp" where
  "order_place vm program a d =
     bindS (readL (place_checks vm program a d)) (\<lambda>(t, bump, source_before, escrow_before).
     bindS (create_cell vm program (key_in a 0) (key_in a 1) ORDER_LEN (order_seeds (key_in a 0) (ak_nonce t) @ [[bump]])) (\<lambda>_.
     bindS (transfer_checked vm a 2 6 3 0 7 (ak_stock t)) (\<lambda>_.
     bindS (readL (checked_asset (a ! 0) (a ! 2) (a ! 6) (a ! 7) False)) (\<lambda>source_after.
     bindS (readL (checked_asset (a ! 1) (a ! 3) (a ! 6) (a ! 7) False)) (\<lambda>escrow_after.
     bindS (liftR (needP (checked_sub source_before source_after = Some (ak_stock t)
               \<and> checked_sub escrow_after escrow_before = Some (ak_stock t)) CONSERVATION)) (\<lambda>_.
     bindS (readL (has_room (key_in a 1) ORDER_LEN)) (\<lambda>_.
     bindS (writeL (key_in a 1) (\<lambda>s. put_fields (order_fields vm a d t) (replicate (length s) 0))) (\<lambda>_.
     readL (\<lambda>L. Inr (take ORDER_LEN (ac_data (acct L a 1))))))))))))"

section \<open>Filling\<close>

text \<open>The accounts of a fill, as indices, and its terms.\<close>

record fill_terms =
  ft_order :: nat
  ft_owner :: nat
  ft_escrow :: nat
  ft_cash :: nat
  ft_policy :: nat
  ft_cash_mint :: nat
  ft_product_mint :: nat
  ft_program :: nat
  ft_revision :: nat
  ft_stock_atoms :: nat
  ft_cash_atoms :: nat
  ft_model :: nat
  ft_bps :: nat
  ft_numerator :: nat
  ft_denominator :: nat

definition validate_fill :: "vm \<Rightarrow> key \<Rightarrow> account_ref list \<Rightarrow> fill_terms \<Rightarrow> ledger \<Rightarrow> nat res" where
  "validate_fill vm program a f L =
     bindR (needP (list_all (\<lambda>i. i < length a) [ft_order f, ft_owner f, ft_escrow f, ft_cash f, ft_policy f, ft_cash_mint f, ft_product_mint f, ft_program f]
              \<and> am_writable (a ! ft_order f) \<and> ac_owner (acct L a (ft_order f)) = program \<and> \<not> am_writable (a ! ft_owner f)
              \<and> 0 < ft_stock_atoms f \<and> 0 < ft_cash_atoms f) IDENTITY) (\<lambda>_.
     let s = ac_data (acct L a (ft_order f))
     in bindR (needP (length s = ORDER_LEN \<and> byte_slice s 0 8 = ORDER_TAG \<and> byte_slice s 8 32 = key_bytes (key_in a (ft_owner f))
                 \<and> byte_slice s 72 32 = key_bytes (key_in a (ft_policy f)) \<and> byte_slice s 104 32 = key_bytes (key_in a (ft_cash_mint f))
                 \<and> byte_slice s 136 32 = key_bytes (key_in a (ft_product_mint f)) \<and> byte_slice s 168 32 = key_bytes (key_in a (ft_escrow f))
                 \<and> byte_slice s 200 32 = key_bytes (key_in a (ft_cash f))) IDENTITY) (\<lambda>_.
        bindR (needP (s ! 328 = ORDER_OPEN) REPLAY) (\<lambda>_.
        bindR (ad (u64_at s 272)) (\<lambda>revision.
        bindR (needP (revision = ft_revision f) REPLAY) (\<lambda>_.
        bindR (ad (u64_at s 264)) (\<lambda>expires.
        bindR (needP (vm_slot vm \<le> expires) EXPIRED) (\<lambda>_.
        bindR (ad (u64_at s 232)) (\<lambda>nonce.
        bindR (needP (key_in a (ft_order f) = fst (vm_find vm (order_seeds (key_in a (ft_owner f)) nonce) program)) IDENTITY) (\<lambda>_.
        bindR (ad (u64_at s 248)) (\<lambda>remaining.
        bindR (ad (u64_at s 256)) (\<lambda>price.
        bindR (needP (ft_stock_atoms f \<le> remaining) BOUNDS) (\<lambda>_.
        bindR (checked_asset (a ! ft_order f) (a ! ft_escrow f) (a ! ft_product_mint f) (a ! ft_program f) False L) (\<lambda>escrow_balance.
        bindR (needP (remaining \<le> escrow_balance) CONSERVATION) (\<lambda>_.
        bindR (exposure_convert a (ft_product_mint f) (ft_model f) (ft_bps f) (ft_numerator f) (ft_denominator f) (ft_stock_atoms f) (vm_time vm) L) (\<lambda>exposure.
        bindR (if 0 < exposure then bindR (ceil_q32 exposure price) (\<lambda>c. Inr (c \<le> ft_cash_atoms f)) else Inr False) (\<lambda>ok.
        bindR (needP ok MIN_OUT) (\<lambda>_.
        Inr nonce)))))))))))))))))"

definition record_checks :: "nat \<Rightarrow> nat \<Rightarrow> nat \<Rightarrow> nat list \<Rightarrow> (nat \<times> nat) res" where
  "record_checks expected_revision stock cash s =
     bindR (andR [Inr (length s = ORDER_LEN \<and> byte_slice s 0 8 = ORDER_TAG \<and> s ! 328 = ORDER_OPEN),
                  bindR (ad (u64_at s 272)) (\<lambda>v. Inr (v = expected_revision))]) (\<lambda>ok.
     bindR (needP ok REPLAY) (\<lambda>_.
     bindR (ad (u64_at s 248)) (\<lambda>remaining.
     bindR (prog_or (checked_sub remaining stock) CONSERVATION) (\<lambda>left.
     bindR (ad (u64_at s 280)) (\<lambda>filled_cash.
     bindR (prog_or (checked_add 64 filled_cash cash) CONSERVATION) (\<lambda>cash_total.
     Inr (left, cash_total)))))))"

text \<open>The remaining stock is written before the revision is advanced; a failure aborts the instruction.\<close>

definition record_fill :: "account_ref list \<Rightarrow> nat \<Rightarrow> nat \<Rightarrow> nat \<Rightarrow> nat \<Rightarrow> (ledger, unit) comp" where
  "record_fill a ord expected_revision stock cash =
     bindS (readL (\<lambda>L. record_checks expected_revision stock cash (ac_data (acct L a ord)))) (\<lambda>(left, cash_total).
     bindS (writeL (key_in a ord) (write_at 248 (to_le 8 left))) (\<lambda>_.
     bindS (liftR (prog_or (checked_add 64 expected_revision 1) BOUNDS)) (\<lambda>revision.
     writeL (key_in a ord) (put_fields [(272, to_le 8 revision), (280, to_le 8 cash_total)]))))"

section \<open>Cancelling\<close>

definition cancel_checks :: "vm \<Rightarrow> key \<Rightarrow> account_ref list \<Rightarrow> nat list \<Rightarrow> ledger \<Rightarrow> (nat \<times> nat \<times> nat \<times> nat \<times> nat) res" where
  "cancel_checks vm program a d L =
     bindR (needP (length d = 16 \<and> d ! 0 = 16 \<and> byte_slice d 1 7 = replicate 7 0 \<and> length a = 6) BOUNDS) (\<lambda>_.
     bindR (needP (am_signer (a ! 0) \<and> am_writable (a ! 0) \<and> am_writable (a ! 1) \<and> ac_owner (acct L a 1) = program
               \<and> am_writable (a ! 2) \<and> am_writable (a ! 3)) IDENTITY) (\<lambda>_.
     bindR (ad (u64_at d 8)) (\<lambda>nonce.
     bindR (needP (key_in a 1 = fst (vm_find vm (order_seeds (key_in a 0) nonce) program)) IDENTITY) (\<lambda>_.
     let s = ac_data (acct L a 1)
     in bindR (needP (length s = ORDER_LEN \<and> byte_slice s 0 8 = ORDER_TAG \<and> s ! 328 = ORDER_OPEN \<and> byte_slice s 8 32 = key_bytes (key_in a 0)
                 \<and> byte_slice s 136 32 = key_bytes (key_in a 4) \<and> byte_slice s 168 32 = key_bytes (key_in a 2)) IDENTITY) (\<lambda>_.
        bindR (ad (u64_at s 248)) (\<lambda>remaining.
        bindR (ad (u64_at s 272)) (\<lambda>revision.
        bindR (checked_asset (a ! 1) (a ! 2) (a ! 4) (a ! 5) True L) (\<lambda>held.
        bindR (checked_asset (a ! 0) (a ! 3) (a ! 4) (a ! 5) False L) (\<lambda>owned.
        bindR (needP (remaining \<le> held) CONSERVATION) (\<lambda>_.
        Inr (nonce, remaining, revision, held, owned)))))))))))"

definition order_cancel :: "vm \<Rightarrow> key \<Rightarrow> account_ref list \<Rightarrow> nat list \<Rightarrow> (ledger, nat list) comp" where
  "order_cancel vm program a d =
     bindS (readL (cancel_checks vm program a d)) (\<lambda>(nonce, remaining, revision, held, owned).
     bindS (if 0 < remaining then transfer_checked_signed vm program a 2 4 3 1 5 0 nonce remaining else ret ()) (\<lambda>_.
     bindS (readL (checked_asset (a ! 1) (a ! 2) (a ! 4) (a ! 5) False)) (\<lambda>held_after.
     bindS (readL (checked_asset (a ! 0) (a ! 3) (a ! 4) (a ! 5) False)) (\<lambda>owned_after.
     bindS (liftR (needP (checked_sub held held_after = Some remaining \<and> checked_sub owned_after owned = Some remaining) CONSERVATION)) (\<lambda>_.
     bindS (readL (has_room (key_in a 1) ORDER_LEN)) (\<lambda>_.
     bindS (writeL (key_in a 1) (write_at 248 (replicate 8 0))) (\<lambda>_.
     bindS (liftR (prog_or (checked_add 64 revision 1) BOUNDS)) (\<lambda>next_revision.
     bindS (writeL (key_in a 1) (put_fields [(272, to_le 8 next_revision), (328, [ORDER_CANCELLED])])) (\<lambda>_.
     ret (ORDER_TAG @ to_le 8 nonce @ to_le 8 remaining @ to_le 8 next_revision))))))))))"

end
