(* ===== verification/SettleRun.thy ===== *)
theory SettleRun
  imports Settle
begin

text \<open>
  What a settlement that returns has done: the signed input spent exactly, at least the signed minimum
  received, each leg paid the amount its venue model quotes, the nonce advanced once. The venue programs are
  not trusted: these follow from the program's own checks and the runtime's rules.
\<close>

section \<open>Readings\<close>

definition tokens :: "ledger \<Rightarrow> key \<Rightarrow> nat" where
  "tokens L k = from_le (take 8 (drop 64 (ac_data (L k))))"

lemma ad_Inr [monad_simps]: "ad r = Inr x \<longleftrightarrow> r = Inr x"
  by (cases r) (auto simp: ad_def split: fault.splits)

lemma u64_at_value: "u64_at d k = Inr v \<Longrightarrow> v = from_le (take 8 (drop k d)) \<and> k + 8 \<le> length d"
  by (auto simp: u64_at_def monad_simps get_range_def split: if_splits)

lemma token_amount_value: "token_amount d = Inr v \<Longrightarrow> v = from_le (take 8 (drop 64 d))"
  by (auto simp: token_amount_def dest: u64_at_value split: if_splits)

lemma amount_at_value: "amount_at r L = Inr v \<Longrightarrow> v = tokens L (am_key r)"
  by (auto simp: amount_at_def ad_Inr tokens_def dest: token_amount_value)

lemma token_at_value: "token_at r m w L = Inr v \<Longrightarrow> v = tokens L (am_key r) \<and> ac_owner (L (am_key r)) = TOKEN"
  unfolding token_at_def Let_def by (auto simp: monad_simps tokens_def dest: token_amount_value)

lemmas settle_readers = monad_simps settle_codes

section \<open>The alias check\<close>

lemma alias_loop_distinct:
  assumes "alias_loop a xs seen = Inr u" "\<forall>(p, y) \<in> set seen. u64_at (key_bytes (key_in a y)) 0 = Inr p"
  shows "distinct (map (key_in a) xs) \<and> (\<forall>x \<in> set xs. \<forall>(p, y) \<in> set seen. key_in a x \<noteq> key_in a y)"
  using assms
proof (induction a xs seen rule: alias_loop.induct)
  case (2 a x xs seen)
  obtain p where p: "u64_at (key_bytes (key_in a x)) 0 = Inr p"
    and differ: "\<forall>(q, y) \<in> set seen. p = q \<longrightarrow> key_in a x \<noteq> key_in a y"
    and rest: "alias_loop a xs (seen @ [(p, x)]) = Inr u"
    using 2(2) by (auto simp: monad_simps list_all_iff)
  have "\<forall>(q, y) \<in> set (seen @ [(p, x)]). u64_at (key_bytes (key_in a y)) 0 = Inr q" using 2(3) p by auto
  then have IH: "distinct (map (key_in a) xs)" "\<forall>z \<in> set xs. \<forall>(q, y) \<in> set (seen @ [(p, x)]). key_in a z \<noteq> key_in a y"
    using 2(1) [OF rest] by blast+
  have "\<forall>(q, y) \<in> set seen. key_in a x \<noteq> key_in a y"
  proof (clarify)
    fix q y assume "(q, y) \<in> set seen" and same: "key_in a x = key_in a y"
    then have "u64_at (key_bytes (key_in a x)) 0 = Inr q" using 2(3) by auto
    then show False using p differ \<open>(q, y) \<in> set seen\<close> same by auto
  qed
  then show ?case using IH by auto
qed simp

lemma writable_distinct:
  assumes "alias_loop a WRITABLE [] = Inr u" "i \<in> set WRITABLE" "j \<in> set WRITABLE" "i \<noteq> j"
  shows "key_in a i \<noteq> key_in a j"
proof -
  have "distinct (map (key_in a) WRITABLE)" using alias_loop_distinct [OF assms(1)] by simp
  then show ?thesis using assms(2-4) by (auto simp: distinct_map inj_on_def)
qed

section \<open>The legs\<close>

lemma metas_writable:
  "set (map am_key (filter am_writable (metas a is ws signer))) = (\<lambda>i. key_in a (is ! i)) ` {i \<in> set ws. i < length is}"
  by (auto simp: metas_def filter_map comp_def)

lemma phoenix_call_writable: "cpi_writable (phoenix_call a bytes) = key_in a ` {9, 2, 3, 10, 11}"
proof -
  have "{i \<in> set [2, 4, 5, 6, 7]. i < length [7, 8, 9, 0, 2, 3, 10, 11, 4 :: nat]} = {2, 4, 5, 6, 7}" by auto
  then show ?thesis unfolding phoenix_call_def cpi_writable.simps instruction.simps metas_writable by simp
qed

lemma raydium_call_writable: "cpi_writable (raydium_call a sell input out) = key_in a ` {0, 15, 2, 3, 16, 17, 18}"
proof -
  have "{i \<in> set [0, 3, 4, 5, 6, 7, 12]. i < length (if sell then [0, 13, 14, 15, 2, 3, 16, 17, 4, 4, 5, 6, 18 :: nat] else [0, 13, 14, 15, 3, 2, 17, 16, 4, 4, 6, 5, 18])} =
      {0, 3, 4, 5, 6, 7, 12}" by auto
  then show ?thesis unfolding raydium_call_def cpi_writable.simps instruction.simps metas_writable by auto
qed

abbreviation paid :: "account_ref list \<Rightarrow> bool \<Rightarrow> key" where
  "paid a sell \<equiv> key_in a (if sell then 2 else 3)"

abbreviation got :: "account_ref list \<Rightarrow> bool \<Rightarrow> key" where
  "got a sell \<equiv> key_in a (if sell then 3 else 2)"

definition touched :: "account_ref list \<Rightarrow> key set" where
  "touched a = key_in a ` {0, 2, 3, 9, 10, 11, 15, 16, 17, 18}"

text \<open>What a leg leaves alone: accounts it does not name and the data of the program's own accounts.\<close>

definition spares :: "key \<Rightarrow> key set \<Rightarrow> ledger \<Rightarrow> ledger \<Rightarrow> bool" where
  "spares program T L L' \<longleftrightarrow> (\<forall>k. k \<notin> T \<longrightarrow> L' k = L k)
     \<and> (\<forall>k. ac_owner (L k) = program \<longrightarrow> ac_data (L' k) = ac_data (L k) \<and> ac_owner (L' k) = program)"

lemma spares_refl [simp]: "spares program T L L"
  by (simp add: spares_def)

lemma spares_mono: "spares program S L L' \<Longrightarrow> S \<subseteq> T \<Longrightarrow> spares program T L L'"
  unfolding spares_def by blast

text \<open>The accounts the Phoenix leg may write: the wallet's tokens, the book and its vaults.\<close>

definition book_side :: "account_ref list \<Rightarrow> key set" where
  "book_side a = key_in a ` {2, 3, 9, 10, 11}"

lemma book_side_touched: "book_side a \<subseteq> touched a"
  by (auto simp: book_side_def touched_def)

lemma spares_trans: "spares program T L L1 \<Longrightarrow> spares program T L1 L2 \<Longrightarrow> spares program T L L2"
  by (simp add: spares_def)

lemma call_spares:
  assumes "runtime_ok program vm" "vm_invoke vm c seeds L = Inr L'" "cpi_program vm c \<noteq> program" "cpi_writable c \<subseteq> T"
  shows "spares program T L L'"
  unfolding spares_def using runtime_frame [OF assms(1,2)] runtime_owned [OF assms(1,2) _ assms(3)] assms(4) by blast

lemma phoenix_leg_effect:
  assumes ok: "runtime_ok program vm" "program \<noteq> PHOENIX" and run: "phoenix_leg vm a sell input matches deadline L = (Inr fired, L')"
  obtains header expected where "phoenix_quote vm a sell input matches L = Inr (header, expected)"
    "if fired then tokens L' (paid a sell) + fl_input expected = tokens L (paid a sell) \<and> tokens L' (got a sell) = tokens L (got a sell) + fl_output expected
     else L' = L" "spares program (book_side a) L L'"
    "fired \<longleftrightarrow> \<not> (fl_input expected = 0 \<or> fl_output expected = 0 \<or> input < (if sell then ph_base_lot header else ph_quote_lot header))"
proof -
  obtain header expected where q: "phoenix_quote vm a sell input matches L = Inr (header, expected)"
    using run unfolding phoenix_leg_def by (auto simp: monad_simps dest!: sym [of "Inr _"])
  have go: "fired \<longleftrightarrow> \<not> (fl_input expected = 0 \<or> fl_output expected = 0 \<or> input < (if sell then ph_base_lot header else ph_quote_lot header))"
    using run q unfolding phoenix_leg_def Let_def by (auto simp: monad_simps split: if_splits dest!: sym [of "Inr _"])
  show thesis
  proof (cases fired)
    case False
    then have "L' = L" using run q unfolding phoenix_leg_def Let_def
      by (auto simp: monad_simps split: if_splits dest!: sym [of "Inr _"])
    then show thesis using that [OF q _ _ go] False by simp
  next
    case True
    obtain bytes before_in before_out after_in after_out where call: "vm_invoke vm (phoenix_call a bytes) [] L = Inr L'"
      and reads: "amount_at (a ! (if sell then 2 else 3)) L = Inr before_in" "amount_at (a ! (if sell then 3 else 2)) L = Inr before_out"
      "amount_at (a ! (if sell then 2 else 3)) L' = Inr after_in" "amount_at (a ! (if sell then 3 else 2)) L' = Inr after_out"
      and sums: "checked_sub before_in after_in = Some (fl_input expected)" "checked_sub after_out before_out = Some (fl_output expected)"
      using run q True unfolding phoenix_leg_def Let_def
      by (auto simp: monad_simps split: if_splits dest!: sym [of "Inr _"])
    have "spares program (book_side a) L L'"
      by (rule call_spares [OF ok(1) call]) (use ok(2) in \<open>auto simp: phoenix_call_writable book_side_def, simp add: phoenix_call_def\<close>)
    then show thesis using that [OF q _ _ go] True sums reads [THEN amount_at_value] by (simp add: monad_simps)
  qed
qed

lemma raydium_leg_effect:
  assumes ok: "runtime_ok program vm" "program \<noteq> RAYDIUM" and run: "raydium_leg vm a sell input L = (Inr u, L')"
  obtains exact_out where "raydium_quote vm a sell input L = Inr exact_out"
    "tokens L' (got a sell) = tokens L (got a sell) + exact_out" "spares program (touched a) L L'"
proof -
  obtain exact_out held after_out where q: "raydium_quote vm a sell input L = Inr exact_out"
    and call: "vm_invoke vm (raydium_call a sell input exact_out) [] L = Inr L'"
    and reads: "amount_at (a ! (if sell then 3 else 2)) L = Inr held" "amount_at (a ! (if sell then 3 else 2)) L' = Inr after_out"
    and sum: "checked_sub after_out held = Some exact_out"
    using run unfolding raydium_leg_def Let_def by (auto simp: monad_simps dest!: sym [of "Inr _"])
  have "spares program (touched a) L L'"
    by (rule call_spares [OF ok(1) call]) (use ok(2) in \<open>auto simp: raydium_call_writable touched_def, simp add: raydium_call_def\<close>)
  then show thesis using that [OF q] sum reads [THEN amount_at_value] by (simp add: monad_simps)
qed

section \<open>A whole settlement\<close>

text \<open>The input and output the book's own quote gives to the first leg, and the output the pool's gives to the second.\<close>

definition phoenix_part :: "vm \<Rightarrow> account_ref list \<Rightarrow> settle_intent \<Rightarrow> ledger \<Rightarrow> (nat \<times> nat) option" where
  "phoenix_part vm a t L =
     (if odd (si_mode t) \<and> 0 < si_budget t
      then (case phoenix_quote vm a (si_sell t) (si_budget t) (si_matches t) L of
              Inl e \<Rightarrow> None
            | Inr (header, x) \<Rightarrow>
                if fl_input x = 0 \<or> fl_output x = 0 \<or> si_budget t < (if si_sell t then ph_base_lot header else ph_quote_lot header) then Some (0, 0)
                else Some (fl_input x, fl_output x))
      else Some (0, 0))"

definition raydium_part :: "vm \<Rightarrow> account_ref list \<Rightarrow> settle_intent \<Rightarrow> nat \<Rightarrow> ledger \<Rightarrow> nat option" where
  "raydium_part vm a t spent L =
     (if odd (si_mode t div 2) \<and> spent < si_input t
      then (case raydium_quote vm a (si_sell t) (si_input t - spent) L of Inl e \<Rightarrow> None | Inr x \<Rightarrow> Some x)
      else Some 0)"

lemma settle_checks_facts:
  assumes "settle_checks vm program a d L = Inr (t, next_sequence, before_in, before_out)"
  shows "settle_parse d = Inr t" "am_signer (a ! 0)" "vm_slot vm \<le> si_deadline t" "ac_owner (acct L a 1) = program"
    "length (ac_data (acct L a 1)) = 64" "u64_at (ac_data (acct L a 1)) 40 = Inr (si_sequence t)" "next_sequence = si_sequence t + 1"
    "next_sequence < 2 ^ 64" "before_in = tokens L (paid a (si_sell t))" "before_out = tokens L (got a (si_sell t))"
    "alias_loop a WRITABLE [] = Inr ()" "length a = 19"
proof -
  note run = assms [unfolded settle_checks_def Let_def settle_readers]
  show "settle_parse d = Inr t" "am_signer (a ! 0)" "vm_slot vm \<le> si_deadline t" "ac_owner (acct L a 1) = program"
    "length (ac_data (acct L a 1)) = 64" "u64_at (ac_data (acct L a 1)) 40 = Inr (si_sequence t)" "next_sequence = si_sequence t + 1"
    "next_sequence < 2 ^ 64" "alias_loop a WRITABLE [] = Inr ()" "length a = 19"
    using run by (auto simp: settle_readers NONCE_LEN_def split: if_splits)
  show "before_in = tokens L (paid a (si_sell t))" "before_out = tokens L (got a (si_sell t))"
    using run by (auto simp: settle_readers dest!: token_at_value split: if_splits)
qed

lemma settle_first_effect:
  assumes "runtime_ok program vm" "program \<noteq> PHOENIX" "settle_first vm a t L = (Inr first, L1)"
  obtains x out1 where "phoenix_part vm a t L = Some (x, out1)" "tokens L1 (paid a (si_sell t)) + x = tokens L (paid a (si_sell t))"
    "tokens L1 (got a (si_sell t)) = tokens L (got a (si_sell t)) + out1" "spares program (book_side a) L L1" "\<not> first \<longrightarrow> L1 = L"
proof (cases "odd (si_mode t) \<and> 0 < si_budget t")
  case True
  then have run: "phoenix_leg vm a (si_sell t) (si_budget t) (si_matches t) (si_deadline t) L = (Inr first, L1)"
    using assms(3) by (simp add: settle_first_def)
  obtain header e where q: "phoenix_quote vm a (si_sell t) (si_budget t) (si_matches t) L = Inr (header, e)"
    and moved: "if first then tokens L1 (paid a (si_sell t)) + fl_input e = tokens L (paid a (si_sell t)) \<and>
        tokens L1 (got a (si_sell t)) = tokens L (got a (si_sell t)) + fl_output e else L1 = L"
    and kept: "spares program (book_side a) L L1"
    and go: "first \<longleftrightarrow> \<not> (fl_input e = 0 \<or> fl_output e = 0 \<or> si_budget t < (if si_sell t then ph_base_lot header else ph_quote_lot header))"
    by (rule phoenix_leg_effect [OF assms(1,2) run]) blast
  show thesis
  proof (cases first)
    case True
    then have "phoenix_part vm a t L = Some (fl_input e, fl_output e)"
      using q go \<open>odd (si_mode t) \<and> 0 < si_budget t\<close> by (simp add: phoenix_part_def)
    then show thesis using that moved kept True by simp
  next
    case False
    then have "phoenix_part vm a t L = Some (0, 0)"
      using q go \<open>odd (si_mode t) \<and> 0 < si_budget t\<close> by (auto simp: phoenix_part_def)
    then show thesis using that moved kept False by simp
  qed
next
  case False
  then have "L1 = L" "phoenix_part vm a t L = Some (0, 0)" using assms(3) by (auto simp: settle_first_def phoenix_part_def)
  then show thesis using that by simp
qed

lemma settle_second_effect:
  assumes "runtime_ok program vm" "program \<noteq> RAYDIUM" "settle_second vm a t (si_input t - spent) L = (Inr second, L1)"
  obtains out2 where "raydium_part vm a t spent L = Some out2" "tokens L1 (got a (si_sell t)) = tokens L (got a (si_sell t)) + out2"
    "spares program (touched a) L L1"
proof (cases "odd (si_mode t div 2) \<and> spent < si_input t")
  case True
  then have run: "raydium_leg vm a (si_sell t) (si_input t - spent) L = (Inr (), L1)"
    using assms(3) by (auto simp: settle_second_def monad_simps)
  obtain x where "raydium_quote vm a (si_sell t) (si_input t - spent) L = Inr x"
    "tokens L1 (got a (si_sell t)) = tokens L (got a (si_sell t)) + x" "spares program (touched a) L L1"
    by (rule raydium_leg_effect [OF assms(1,2) run]) blast
  then show thesis using that True by (simp add: raydium_part_def)
next
  case False
  then have "L1 = L" "raydium_part vm a t spent L = Some 0" using assms(3) by (auto simp: settle_second_def raydium_part_def)
  then show thesis using that by simp
qed

lemma settle_close_effect:
  assumes "settle_close a t nxt bi bo spent legs L = (Inr rcpt, L')"
  obtains out where "tokens L (paid a (si_sell t)) + si_input t = bi" "tokens L (got a (si_sell t)) = bo + out" "si_min_out t \<le> out"
    "L' = set_data (key_in a 1) (put_outcome nxt (si_input t) out (ac_data (L (key_in a 1)))) L"
    "rcpt = concat (map (to_le 8) [si_sequence t, si_input t, out, spent, legs])"
proof -
  obtain after_in after_out out where r: "amount_at (a ! (if si_sell t then 2 else 3)) L = Inr after_in" "checked_sub bi after_in = Some (si_input t)"
    "amount_at (a ! (if si_sell t then 3 else 2)) L = Inr after_out" "checked_sub after_out bo = Some out" "si_min_out t \<le> out"
    "L' = set_data (key_in a 1) (put_outcome nxt (si_input t) out (ac_data (L (key_in a 1)))) L"
    "rcpt = concat (map (to_le 8) [si_sequence t, si_input t, out, spent, legs])"
    using assms unfolding settle_close_def by (auto simp: bindS_Inr dest!: sym [of "Inr _"])
  show thesis using r(2,4) amount_at_value [OF r(1)] amount_at_value [OF r(3)] by (intro that [OF _ _ r(5-7)]) (auto simp: monad_simps)
qed

lemma settle_effect:
  assumes ok: "runtime_ok program vm" "program \<noteq> PHOENIX" "program \<noteq> RAYDIUM" and run: "settle vm program a d L = (Inr rcpt, L')"
  obtains t first spent out1 out2 L1 L2 where
    "settle_checks vm program a d L = Inr (t, si_sequence t + 1, tokens L (paid a (si_sell t)), tokens L (got a (si_sell t)))"
    "phoenix_part vm a t L = Some (spent, out1)" "raydium_part vm a t spent L1 = Some out2"
    "spares program (book_side a) L L1" "spares program (touched a) L L2"
    "tokens L1 (paid a (si_sell t)) + spent = tokens L (paid a (si_sell t))" "spent \<le> si_budget t" "spent \<le> si_input t"
    "tokens L2 (paid a (si_sell t)) + si_input t = tokens L (paid a (si_sell t))"
    "tokens L2 (got a (si_sell t)) = tokens L (got a (si_sell t)) + (out1 + out2)" "si_min_out t \<le> out1 + out2"
    "L' = set_data (key_in a 1) (put_outcome (si_sequence t + 1) (si_input t) (out1 + out2) (ac_data (L2 (key_in a 1)))) L2"
    "settle_first vm a t L = (Inr first, L1)" "\<not> first \<longrightarrow> L1 = L"
    "\<exists>legs. rcpt = concat (map (to_le 8) [si_sequence t, si_input t, out1 + out2, spent, legs])"
proof -
  obtain t nxt bi bo where checks: "settle_checks vm program a d L = Inr (t, nxt, bi, bo)"
    using run unfolding settle_def by (auto simp: monad_simps dest!: sym [of "Inr _"])
  note F = settle_checks_facts [OF checks]
  obtain first L1 spent second L2 legs where first: "settle_first vm a t L = (Inr first, L1)"
    and after: "amount_at (a ! (if si_sell t then 2 else 3)) L1 = Inr (bi - spent)" "spent \<le> bi" "spent \<le> si_input t" "spent \<le> si_budget t"
    and second: "settle_second vm a t (si_input t - spent) L1 = (Inr second, L2)"
    and close: "settle_close a t nxt bi bo spent legs L2 = (Inr rcpt, L')"
  proof -
    obtain first L1 af spent second L2 where r: "settle_first vm a t L = (Inr first, L1)"
      "amount_at (a ! (if si_sell t then 2 else 3)) L1 = Inr af" "checked_sub bi af = Some spent" "spent \<le> si_input t" "spent \<le> si_budget t"
      "settle_second vm a t (si_input t - spent) L1 = (Inr second, L2)"
      "settle_close a t nxt bi bo spent (of_bool first + of_bool second) L2 = (Inr rcpt, L')"
      using run checks unfolding settle_def by (auto simp: bindS_Inr sub_w_Inr dest!: sym [of "Inr _"])
    then have "af = bi - spent" "spent \<le> bi" by (auto simp: monad_simps)
    then show thesis using that r by blast
  qed
  have spent: "tokens L1 (paid a (si_sell t)) + spent = bi" "spent \<le> si_input t" "spent \<le> si_budget t"
    using amount_at_value [OF after(1)] after by auto
  obtain x out1 where p1: "phoenix_part vm a t L = Some (x, out1)" "tokens L1 (paid a (si_sell t)) + x = tokens L (paid a (si_sell t))"
    "tokens L1 (got a (si_sell t)) = tokens L (got a (si_sell t)) + out1" "spares program (book_side a) L L1" "\<not> first \<longrightarrow> L1 = L"
    by (rule settle_first_effect [OF ok(1,2) first]) blast
  obtain out2 where p2: "raydium_part vm a t spent L1 = Some out2" "tokens L2 (got a (si_sell t)) = tokens L1 (got a (si_sell t)) + out2"
    "spares program (touched a) L1 L2"
    by (rule settle_second_effect [OF ok(1,3) second]) blast
  obtain out where c: "tokens L2 (paid a (si_sell t)) + si_input t = bi" "tokens L2 (got a (si_sell t)) = bo + out" "si_min_out t \<le> out"
    "L' = set_data (key_in a 1) (put_outcome nxt (si_input t) out (ac_data (L2 (key_in a 1)))) L2"
    "rcpt = concat (map (to_le 8) [si_sequence t, si_input t, out, spent, legs])"
    by (rule settle_close_effect [OF close]) blast
  have x: "x = spent" using p1(2) spent(1) F(9) by simp
  have out: "out = out1 + out2" using c(2) p1(3) p2(2) F(10) by simp
  have "spares program (touched a) L L2" by (rule spares_trans [OF spares_mono [OF p1(4) book_side_touched] p2(3)])
  then show thesis
    by (rule that [OF checks [unfolded F(7,9,10)] p1(1) [unfolded x] p2(1) p1(4) _ p1(2) [unfolded x] spent(3,2) c(1) [unfolded F(9)]
          c(2) [unfolded F(10) out] c(3) [unfolded out] c(4) [unfolded F(7) out] first p1(5)]) (use c(5) out in auto)
qed

section \<open>Properties\<close>

lemma written_elsewhere: "k \<noteq> j \<Longrightarrow> tokens (set_data j bs L) k = tokens L k"
  by (simp add: tokens_def)

lemma nonce_apart:
  assumes "settle_checks vm program a d L = Inr (t, rest)"
  shows "key_in a 1 \<noteq> key_in a 2" "key_in a 1 \<noteq> key_in a 3"
proof -
  obtain x y z where "settle_checks vm program a d L = Inr (t, x, y, z)" using assms by (metis prod.collapse)
  then have apart: "alias_loop a WRITABLE [] = Inr ()" by (rule settle_checks_facts(11))
  show "key_in a 1 \<noteq> key_in a 2" "key_in a 1 \<noteq> key_in a 3"
    using writable_distinct [OF apart] by (simp_all add: WRITABLE_def)
qed

text \<open>The pool's quote reads the pool, its config, its vaults and the program; the first leg writes none of the pool's.\<close>

lemma raydium_quote_cong:
  assumes "\<And>i. i \<in> {12, 14, 15, 16, 17} \<Longrightarrow> L1 (key_in a i) = L (key_in a i)"
  shows "raydium_quote vm a sell x L1 = raydium_quote vm a sell x L"
proof -
  have e: "L1 (key_in a 12) = L (key_in a 12)" "L1 (key_in a 14) = L (key_in a 14)" "L1 (key_in a 15) = L (key_in a 15)"
    "L1 (key_in a 16) = L (key_in a 16)" "L1 (key_in a 17) = L (key_in a 17)"
    using assms by simp_all
  show ?thesis unfolding raydium_quote_def executable_is_def acct_def token_at_def Let_def e ..
qed

lemma raydium_part_before:
  assumes unaliased: "alias_loop a WRITABLE [] = Inr u" and frame: "spares program (book_side a) L L1"
    and apart: "key_in a 12 \<notin> book_side a" "key_in a 14 \<notin> book_side a"
  shows "raydium_part vm a t x L1 = raydium_part vm a t x L"
proof -
  have "key_in a i \<notin> book_side a" if "i \<in> {15, 16, 17}" for i
  proof -
    have "key_in a i \<noteq> key_in a j" if "j \<in> {2, 3, 9, 10, 11}" for j
      by (rule writable_distinct [OF unaliased]) (use \<open>i \<in> {15, 16, 17}\<close> that in \<open>auto simp: WRITABLE_def\<close>)
    then show ?thesis unfolding book_side_def by blast
  qed
  with apart have "key_in a i \<notin> book_side a" if "i \<in> {12, 14, 15, 16, 17}" for i using that by blast
  then have same: "L1 (key_in a i) = L (key_in a i)" if "i \<in> {12, 14, 15, 16, 17}" for i
    using that frame unfolding spares_def by blast
  have "raydium_quote vm a (si_sell t) y L1 = raydium_quote vm a (si_sell t) y L" for y by (rule raydium_quote_cong) (rule same)
  then show ?thesis by (simp only: raydium_part_def)
qed

text \<open>
  \<^bold>\<open>C35.\<close> A settlement that returns has taken exactly the signed input from the wallet, of which the
  first leg spent what the Phoenix book's quote says and no more than its budget, and paid the wallet exactly
  the book's quoted output plus the pool's quoted output for the residual, together at least the signed
  minimum. The pool is quoted on the ledger \<open>L1\<close> the first leg left: the starting one when that leg does not
  fire, else one that differs in the wallet's tokens, the book and its vaults only; so the quote is that of
  the pool as it stood at the start, unless the instruction names the pool's config or program among those
  accounts. No account outside the two venues' own and the wallet's tokens changed, but the nonce.
\<close>

theorem settle_pays_quotes:
  assumes "runtime_ok program vm" "program \<noteq> PHOENIX" "program \<noteq> RAYDIUM" "settle vm program a d L = (Inr rcpt, L')"
  shows "\<exists>t first spent out1 out2 L1. settle_parse d = Inr t
    \<and> phoenix_part vm a t L = Some (spent, out1)
    \<and> settle_first vm a t L = (Inr first, L1) \<and> (\<not> first \<longrightarrow> L1 = L) \<and> spares program (book_side a) L L1
    \<and> raydium_part vm a t spent L1 = Some out2
    \<and> (key_in a 12 \<notin> book_side a \<and> key_in a 14 \<notin> book_side a \<longrightarrow> raydium_part vm a t spent L = Some out2)
    \<and> tokens L1 (paid a (si_sell t)) + spent = tokens L (paid a (si_sell t)) \<and> spent \<le> si_budget t
    \<and> tokens L' (paid a (si_sell t)) + si_input t = tokens L (paid a (si_sell t))
    \<and> tokens L' (got a (si_sell t)) = tokens L (got a (si_sell t)) + (out1 + out2) \<and> si_min_out t \<le> out1 + out2
    \<and> (\<forall>k. k \<notin> touched a \<and> k \<noteq> key_in a 1 \<longrightarrow> L' k = L k)"
proof -
  obtain t first spent out1 out2 L1 L2 where
    E: "settle_checks vm program a d L = Inr (t, si_sequence t + 1, tokens L (paid a (si_sell t)), tokens L (got a (si_sell t)))"
    "phoenix_part vm a t L = Some (spent, out1)" "raydium_part vm a t spent L1 = Some out2"
    "spares program (book_side a) L L1" "spares program (touched a) L L2"
    "tokens L1 (paid a (si_sell t)) + spent = tokens L (paid a (si_sell t))" "spent \<le> si_budget t"
    "tokens L2 (paid a (si_sell t)) + si_input t = tokens L (paid a (si_sell t))"
    "tokens L2 (got a (si_sell t)) = tokens L (got a (si_sell t)) + (out1 + out2)" "si_min_out t \<le> out1 + out2"
    "settle_first vm a t L = (Inr first, L1)" "\<not> first \<longrightarrow> L1 = L"
    and L': "L' = set_data (key_in a 1) (put_outcome (si_sequence t + 1) (si_input t) (out1 + out2) (ac_data (L2 (key_in a 1)))) L2"
    by (rule settle_effect [OF assms]) blast
  note F = settle_checks_facts [OF E(1)]
  have far: "paid a (si_sell t) \<noteq> key_in a 1" "got a (si_sell t) \<noteq> key_in a 1" using nonce_apart [OF E(1)] by auto
  have kept: "L' k = L k" if "k \<notin> touched a" "k \<noteq> key_in a 1" for k
    using E(5) that unfolding L' spares_def by simp
  have sums: "tokens L' (paid a (si_sell t)) + si_input t = tokens L (paid a (si_sell t))"
    "tokens L' (got a (si_sell t)) = tokens L (got a (si_sell t)) + (out1 + out2)"
    unfolding L' written_elsewhere [OF far(1)] written_elsewhere [OF far(2)] by (rule E(8), rule E(9))
  have start: "raydium_part vm a t spent L = Some out2" if "key_in a 12 \<notin> book_side a" "key_in a 14 \<notin> book_side a"
    using raydium_part_before [OF F(11) E(4) that] E(3) by simp
  show ?thesis using F(1) E(2-4,6,7,10-12) sums kept start by blast
qed

lemma put_outcome_bytes:
  "length bs = 64 \<Longrightarrow> put_outcome n x y bs = take 40 bs @ to_le 8 n @ to_le 8 x @ to_le 8 y"
  by (simp add: put_outcome_def write_at_def)

lemma stale_sequence:
  assumes "settle_parse d = Inr t" "u64_at (ac_data (acct L a 1)) 40 = Inr stored" "stored \<noteq> si_sequence t"
  shows "\<exists>e. settle vm program a d L = (Inl e, L)"
proof (cases "settle_checks vm program a d L")
  case (Inl e)
  then show ?thesis by (simp add: settle_def bindS_def readL_def)
next
  case (Inr r)
  obtain t' x y z where r: "r = (t', x, y, z)" by (metis prod.collapse)
  note F = settle_checks_facts [OF Inr [unfolded r]]
  show ?thesis using F(1,6) assms by simp
qed

text \<open>
  \<^bold>\<open>C36.\<close> A settlement is signed, in time and advances the nonce from the signed sequence by one,
  leaving the rest of its identity; afterwards, while the nonce keeps those bytes, every instruction with
  another sequence number, in particular the same one again, is refused and changes nothing.
\<close>

theorem settle_nonce_once:
  assumes "runtime_ok program vm" "program \<noteq> PHOENIX" "program \<noteq> RAYDIUM" "settle vm program a d L = (Inr rcpt, L')" "settle_parse d = Inr t"
  shows "am_signer (a ! 0) \<and> vm_slot vm \<le> si_deadline t \<and> u64_at (ac_data (acct L a 1)) 40 = Inr (si_sequence t)
    \<and> ac_data (acct L' a 1) = take 40 (ac_data (acct L a 1)) @ to_le 8 (si_sequence t + 1) @ to_le 8 (si_input t)
        @ to_le 8 (tokens L' (got a (si_sell t)) - tokens L (got a (si_sell t)))
    \<and> (\<forall>later a' d' t' vm' program'. ac_data (acct later a' 1) = ac_data (acct L' a 1) \<and> settle_parse d' = Inr t' \<and> si_sequence t' \<noteq> si_sequence t + 1
        \<longrightarrow> (\<exists>e. settle vm' program' a' d' later = (Inl e, later)))"
proof -
  obtain t2 spent out1 out2 L2 where
    c: "settle_checks vm program a d L = Inr (t2, si_sequence t2 + 1, tokens L (paid a (si_sell t2)), tokens L (got a (si_sell t2)))"
    and kept: "spares program (touched a) L L2" and out: "tokens L2 (got a (si_sell t2)) = tokens L (got a (si_sell t2)) + (out1 + out2)"
    and L': "L' = set_data (key_in a 1) (put_outcome (si_sequence t2 + 1) (si_input t2) (out1 + out2) (ac_data (L2 (key_in a 1)))) L2"
    by (rule settle_effect [OF assms(1-4)]) blast
  note F = settle_checks_facts [OF c]
  have t: "t2 = t" using F(1) assms(5) by simp
  have nonce: "ac_data (L2 (key_in a 1)) = ac_data (acct L a 1)" using kept F(4) by (simp add: spares_def acct_def)
  have "got a (si_sell t) \<noteq> key_in a 1" using nonce_apart [OF c] by auto
  then have received: "tokens L' (got a (si_sell t)) - tokens L (got a (si_sell t)) = out1 + out2"
    using out unfolding t L' by (simp add: written_elsewhere)
  have bytes: "ac_data (acct L' a 1) = take 40 (ac_data (acct L a 1)) @ to_le 8 (si_sequence t + 1) @ to_le 8 (si_input t) @ to_le 8 (out1 + out2)"
  proof -
    have "ac_data (L' (key_in a 1)) = put_outcome (si_sequence t + 1) (si_input t) (out1 + out2) (ac_data (acct L a 1))"
      unfolding L' set_data_same nonce t ..
    then show ?thesis unfolding acct_def [of L'] put_outcome_bytes [OF F(5)] .
  qed
  have stored: "u64_at (ac_data (acct L' a 1)) 40 = Inr (si_sequence t + 1)"
  proof -
    have "from_le (to_le 8 (si_sequence t + 1)) = si_sequence t + 1" using F(7,8) t unfolding from_le_to_le by simp
    then show ?thesis unfolding bytes using F(5) by (simp add: u64_at_def get_range_def add_w_ok)
  qed
  have "\<exists>e. settle vm' program' a' d' later = (Inl e, later)"
    if "ac_data (acct later a' 1) = ac_data (acct L' a 1)" "settle_parse d' = Inr t'" "si_sequence t' \<noteq> si_sequence t + 1" for later a' d' t' vm' program'
    using stale_sequence [OF that(2)] stored that(1,3) by metis
  then show ?thesis using F(2,3,6) bytes received unfolding t by simp
qed

end
