(* ===== verification/OrderLife.thy ===== *)
theory OrderLife
  imports Orders SettleRun
begin

text \<open>
  The life of a resting ask: every atom placed is remaining, filled or returned, the revision counts the
  steps, a cancelled order is never filled, cancelled or placed again; placing and cancelling move exactly
  the stock they book, and a fill is admitted only at the order's price.
\<close>

section \<open>Reading the cell\<close>

definition cell_u64 :: "nat list \<Rightarrow> nat \<Rightarrow> nat" where
  "cell_u64 d p = from_le (byte_slice d p 8)"

abbreviation order_total :: "nat list \<Rightarrow> nat" where "order_total d \<equiv> cell_u64 d 240"
abbreviation order_remaining :: "nat list \<Rightarrow> nat" where "order_remaining d \<equiv> cell_u64 d 248"
abbreviation order_revision :: "nat list \<Rightarrow> nat" where "order_revision d \<equiv> cell_u64 d 272"
abbreviation order_cash :: "nat list \<Rightarrow> nat" where "order_cash d \<equiv> cell_u64 d 280"

lemma u64_at_cell: "u64_at d k = Inr v \<Longrightarrow> v = cell_u64 d k"
  by (auto dest: u64_at_value simp: cell_u64_def byte_slice_def)

lemma cell_written: "p + 8 \<le> length d \<Longrightarrow> v < 2 ^ 64 \<Longrightarrow> cell_u64 (write_at p (to_le 8 v) d) p = v"
  unfolding cell_u64_def using from_le_to_le [of 8 v] by (simp add: slice_write_same)

lemma cell_kept: "p + length bs \<le> length d \<Longrightarrow> q + 8 \<le> length d \<Longrightarrow> q + 8 \<le> p \<or> p + length bs \<le> q \<Longrightarrow> cell_u64 (write_at p bs d) q = cell_u64 d q"
  by (simp add: cell_u64_def slice_write_other)

lemma checked_asset_value:
  assumes "checked_asset wallet t m p inspect_mint L = Inr v"
  shows "v = tokens L (am_key t)" "ac_owner (L (am_key t)) = am_key p" "am_key p = TOKEN \<or> am_key p = TOKEN_2022"
proof -
  note r = assms [unfolded checked_asset_def Let_def monad_simps]
  show "v = tokens L (am_key t)" "ac_owner (L (am_key t)) = am_key p" "am_key p = TOKEN \<or> am_key p = TOKEN_2022"
    using r by (auto simp: monad_simps tokens_def dest!: u64_at_value)
qed

section \<open>The steps on the cell\<close>

text \<open>What a cell holds after the fills \<open>fs\<close> (stock and cash) and, once cancelled, the stock returned.\<close>

definition cell_accounts :: "(nat \<times> nat) list \<Rightarrow> nat option \<Rightarrow> nat list \<Rightarrow> bool" where
  "cell_accounts fs returned d \<longleftrightarrow>
     ORDER_LEN \<le> length d \<and> order_total d < 2 ^ 64 \<and> order_total d = order_remaining d + sum_list (map fst fs) + (case returned of None \<Rightarrow> 0 | Some x \<Rightarrow> x)
     \<and> order_cash d = sum_list (map snd fs)
     \<and> order_revision d = length fs + (case returned of None \<Rightarrow> 0 | Some x \<Rightarrow> 1)
     \<and> (case returned of None \<Rightarrow> d ! 328 = ORDER_OPEN | Some x \<Rightarrow> d ! 328 = ORDER_CANCELLED \<and> order_remaining d = 0)"

lemma order_fields_ascending: "336 \<le> n \<Longrightarrow> ascending (order_fields vm a d t) n"
  by (simp add: order_fields_def ORDER_TAG_def)

lemma order_place_effect:
  assumes "order_place vm program a d L = (Inr rcpt, L')"
  obtains t bump source_before escrow_before L2 where "place_checks vm program a d L = Inr (t, bump, source_before, escrow_before)"
    "L' = set_data (key_in a 1) (put_fields (order_fields vm a d t) (replicate (length (ac_data (L2 (key_in a 1)))) 0)) L2"
    "336 \<le> length (ac_data (L2 (key_in a 1)))"
    "\<exists>u v. checked_asset (a ! 0) (a ! 2) (a ! 6) (a ! 7) False L2 = Inr u \<and> checked_asset (a ! 1) (a ! 3) (a ! 6) (a ! 7) False L2 = Inr v
      \<and> u + ak_stock t = source_before \<and> v = escrow_before + ak_stock t"
proof -
  obtain t bump source_before escrow_before where checks: "place_checks vm program a d L = Inr (t, bump, source_before, escrow_before)"
    using assms unfolding order_place_def by (auto simp: bindS_Inr dest!: sym [of "Inr _"])
  obtain L2 u v where f: "checked_asset (a ! 0) (a ! 2) (a ! 6) (a ! 7) False L2 = Inr u" "checked_asset (a ! 1) (a ! 3) (a ! 6) (a ! 7) False L2 = Inr v"
    "checked_sub source_before u = Some (ak_stock t)" "checked_sub v escrow_before = Some (ak_stock t)" "336 \<le> length (ac_data (L2 (key_in a 1)))"
    "L' = set_data (key_in a 1) (put_fields (order_fields vm a d t) (replicate (length (ac_data (L2 (key_in a 1)))) 0)) L2"
    using assms checks unfolding order_place_def by (auto simp: bindS_Inr has_room_def ORDER_LEN_def split: if_splits dest!: sym [of "Inr _"])
  have "u + ak_stock t = source_before" "v = escrow_before + ak_stock t" using f(3,4) by (auto simp: monad_simps)
  then show thesis using that [OF checks f(6,5)] f(1,2) by blast
qed

lemma place_checks_facts:
  assumes "place_checks vm program a d L = Inr (t, bump, source_before, escrow_before)"
  shows "ask_parse d = Inr t" "am_signer (a ! 0)" "ac_data (acct L a 1) = []" "escrow_before = 0"
    "source_before = tokens L (key_in a 2)" "escrow_before = tokens L (key_in a 3)"
    "key_in a 1 = fst (vm_find vm (order_seeds (key_in a 0) (ak_nonce t)) program)"
proof -
  note r = assms [unfolded place_checks_def Let_def monad_simps needP_Inr]
  show "ask_parse d = Inr t" "am_signer (a ! 0)" "ac_data (acct L a 1) = []" "escrow_before = 0"
    "key_in a 1 = fst (vm_find vm (order_seeds (key_in a 0) (ak_nonce t)) program)"
    using r by (auto simp: monad_simps case_prod_unfold)
  show "source_before = tokens L (key_in a 2)" "escrow_before = tokens L (key_in a 3)"
    using r by (auto simp: monad_simps case_prod_unfold dest!: checked_asset_value(1))
qed

lemma placed_cell:
  assumes "order_place vm program a d L = (Inr rcpt, L')"
  shows "cell_accounts [] None (ac_data (L' (key_in a 1)))"
proof -
  obtain t bump x y L2 where L': "L' = set_data (key_in a 1) (put_fields (order_fields vm a d t) (replicate (length (ac_data (L2 (key_in a 1)))) 0)) L2"
    and n: "336 \<le> length (ac_data (L2 (key_in a 1)))"
    by (rule order_place_effect [OF assms]) blast
  let ?z = "replicate (length (ac_data (L2 (key_in a 1)))) (0 :: nat)" and ?d = "ac_data (L' (key_in a 1))"
  have asc: "ascending (order_fields vm a d t) (length ?z)" using order_fields_ascending n by simp
  have d: "?d = put_fields (order_fields vm a d t) ?z" unfolding L' by simp
  have at: "byte_slice ?d p (length bs) = bs" if "(p, bs) \<in> set (order_fields vm a d t)" for p bs
    unfolding d by (rule slice_put_fields [OF asc that refl])
  have fields: "byte_slice ?d 240 8 = to_le 8 (ak_stock t)" "byte_slice ?d 248 8 = to_le 8 (ak_stock t)" "byte_slice ?d 272 8 = to_le 8 0"
    "byte_slice ?d 280 8 = to_le 8 0" "byte_slice ?d 328 1 = [ORDER_OPEN]"
    using at [of 240 "to_le 8 (ak_stock t)"] at [of 248 "to_le 8 (ak_stock t)"] at [of 272 "to_le 8 0"] at [of 280 "to_le 8 0"] at [of 328 "[ORDER_OPEN]"]
    by (simp_all add: order_fields_def)
  have "\<forall>(p, bs) \<in> set (order_fields vm a d t). p + length bs \<le> length ?z" using ascending_inside [OF asc] by auto
  then have len: "length ?d = length ?z" unfolding d by (rule length_put_fields)
  then have "?d ! 328 = ORDER_OPEN" using fields(5) nth_byte_slice [of 328 1 ?d 0] n by simp
  moreover have "from_le (to_le 8 0) = 0" "from_le (to_le 8 (ak_stock t)) < 2 ^ 64" by (simp_all add: from_le_to_le)
  ultimately show ?thesis unfolding cell_accounts_def cell_u64_def fields using len n by (simp add: ORDER_LEN_def)
qed

lemma record_fill_effect:
  assumes "record_fill a ord rv stock cash L = (Inr u, L')" "order_remaining (ac_data (L (key_in a ord))) < 2 ^ 64"
  defines "d \<equiv> ac_data (L (key_in a ord))" and "d' \<equiv> ac_data (L' (key_in a ord))"
  shows "length d = 336" "d ! 328 = ORDER_OPEN" "order_revision d = rv" "order_remaining d = order_remaining d' + stock"
    "order_cash d' = order_cash d + cash" "order_revision d' = rv + 1" "order_total d' = order_total d" "d' ! 328 = d ! 328"
    "length d' = 336" "\<And>k. k \<noteq> key_in a ord \<Longrightarrow> L' k = L k"
proof -
  obtain left total where checks: "record_checks rv stock cash d = Inr (left, total)" and rv: "rv + 1 < 2 ^ 64"
    and L': "L' = set_data (key_in a ord) (put_fields [(272, to_le 8 (rv + 1)), (280, to_le 8 total)] (write_at 248 (to_le 8 left) d)) (set_data (key_in a ord) (write_at 248 (to_le 8 left) d) L)"
    using assms(1) unfolding record_fill_def d_def by (auto simp: bindS_Inr acct_def checked_add_Some dest!: sym [of "Inr _"])
  have c: "length d = 336" "d ! 328 = ORDER_OPEN" "u64_at d 272 = Inr rv" "left + stock = order_remaining d" "total = order_cash d + cash" "total < 2 ^ 64"
    using checks unfolding record_checks_def by (auto simp: monad_simps ORDER_LEN_def dest!: u64_at_cell)
  have d': "d' = write_at 280 (to_le 8 total) (write_at 272 (to_le 8 (rv + 1)) (write_at 248 (to_le 8 left) d))"
    unfolding d'_def L' by simp
  have left: "left < 2 ^ 64" using c(4) assms(2) unfolding d_def by simp
  show "length d = 336" "d ! 328 = ORDER_OPEN" by (fact c(1), fact c(2))
  show "order_revision d = rv" using u64_at_cell [OF c(3)] by simp
  show "order_cash d' = order_cash d + cash" using c by (simp add: d' cell_written)
  show "order_revision d' = rv + 1" using c rv by (simp add: d' cell_written cell_kept)
  show "order_total d' = order_total d" using c by (simp add: d' cell_kept)
  show "d' ! 328 = d ! 328" "length d' = 336" using c by (simp_all add: d' nth_write_at)
  show "\<And>k. k \<noteq> key_in a ord \<Longrightarrow> L' k = L k" unfolding L' by simp
  show "order_remaining d = order_remaining d' + stock"
    using c(1,4) left by (simp add: d' cell_written cell_kept)
qed

lemma checked_transfer_spares:
  assumes "runtime_ok program vm" "vm_invoke vm (checked_transfer a src mint dst authority tp amount decimals) seeds L = Inr L'" "key_in a tp \<noteq> program"
  shows "spares program {key_in a src, key_in a dst} L L'"
  by (rule call_spares [OF assms(1,2)]) (use assms(3) in \<open>simp_all add: checked_transfer_def\<close>)

lemma order_cancel_effect:
  assumes ok: "runtime_ok program vm" "program \<noteq> TOKEN" "program \<noteq> TOKEN_2022" and run: "order_cancel vm program a d L = (Inr rcpt, L')"
  defines "s \<equiv> ac_data (acct L a 1)" and "s' \<equiv> ac_data (acct L' a 1)"
  obtains nonce where "u64_at d 8 = Inr nonce" "am_signer (a ! 0)" "byte_slice s 8 32 = key_bytes (key_in a 0)" "byte_slice s 168 32 = key_bytes (key_in a 2)"
    "length s = 336" "s ! 328 = ORDER_OPEN" "s' = put_fields [(272, to_le 8 (order_revision s + 1)), (328, [ORDER_CANCELLED])] (write_at 248 (replicate 8 0) s)"
    "order_revision s + 1 < 2 ^ 64" "tokens L' (key_in a 2) + order_remaining s = tokens L (key_in a 2)"
    "tokens L' (key_in a 3) = tokens L (key_in a 3) + order_remaining s"
    "rcpt = ORDER_TAG @ to_le 8 nonce @ to_le 8 (order_remaining s) @ to_le 8 (order_revision s + 1)"
    "\<And>k. k \<notin> {key_in a 1, key_in a 2, key_in a 3} \<Longrightarrow> L' k = L k"
proof -
  obtain nonce remaining revision held owned where checks: "cancel_checks vm program a d L = Inr (nonce, remaining, revision, held, owned)"
    using run unfolding order_cancel_def by (auto simp: bindS_Inr dest!: sym [of "Inr _"])
  have c: "u64_at d 8 = Inr nonce" "am_signer (a ! 0)" "byte_slice s 8 32 = key_bytes (key_in a 0)" "byte_slice s 168 32 = key_bytes (key_in a 2)"
    "length s = 336" "s ! 328 = ORDER_OPEN" "u64_at s 248 = Inr remaining" "u64_at s 272 = Inr revision" "ac_owner (acct L a 1) = program"
    "checked_asset (a ! 1) (a ! 2) (a ! 4) (a ! 5) True L = Inr held" "checked_asset (a ! 0) (a ! 3) (a ! 4) (a ! 5) False L = Inr owned"
    using checks unfolding cancel_checks_def Let_def s_def by (auto simp: monad_simps ORDER_LEN_def)
  have tp: "key_in a 5 \<noteq> program" using checked_asset_value(3) [OF c(10)] ok(2,3) by auto
  obtain L2 held_after owned_after where
    move: "(if 0 < remaining then transfer_checked_signed vm program a 2 4 3 1 5 0 nonce remaining else ret ()) L = (Inr (), L2)"
    and after: "checked_asset (a ! 1) (a ! 2) (a ! 4) (a ! 5) False L2 = Inr held_after" "checked_asset (a ! 0) (a ! 3) (a ! 4) (a ! 5) False L2 = Inr owned_after"
    "checked_sub held held_after = Some remaining" "checked_sub owned_after owned = Some remaining"
    and revision: "revision + 1 < 2 ^ 64"
    and L': "L' = set_data (key_in a 1) (put_fields [(272, to_le 8 (revision + 1)), (328, [ORDER_CANCELLED])] (write_at 248 (replicate 8 0) (ac_data (L2 (key_in a 1)))))
        (set_data (key_in a 1) (write_at 248 (replicate 8 0) (ac_data (L2 (key_in a 1)))) L2)"
    and rcpt: "rcpt = ORDER_TAG @ to_le 8 nonce @ to_le 8 remaining @ to_le 8 (revision + 1)"
    using run checks unfolding order_cancel_def by (auto simp: bindS_Inr checked_add_Some dest!: sym [of "Inr _"])
  have kept: "spares program {key_in a 2, key_in a 3} L L2"
  proof (cases "0 < remaining")
    case True
    then obtain dec seeds where "vm_invoke vm (checked_transfer a 2 4 3 1 5 remaining dec) seeds L = Inr L2"
      using move unfolding transfer_checked_signed_def by (auto simp: bindS_Inr case_prod_unfold)
    then show ?thesis using checked_transfer_spares [OF ok(1) _ tp] by blast
  next
    case False
    then show ?thesis using move by simp
  qed
  have own: "ac_data (L2 (key_in a 1)) = s" "ac_owner (L2 (key_in a 1)) = program"
    using kept c(9) unfolding spares_def s_def acct_def by blast+
  have apart: "key_in a 2 \<noteq> key_in a 1" "key_in a 3 \<noteq> key_in a 1"
    using checked_asset_value(2) [OF after(1)] checked_asset_value(2) [OF after(2)] own(2) tp by auto
  have r: "remaining = order_remaining s" "revision = order_revision s" using c(7,8) u64_at_cell by auto
  have s': "s' = put_fields [(272, to_le 8 (revision + 1)), (328, [ORDER_CANCELLED])] (write_at 248 (replicate 8 0) s)"
    unfolding s'_def L' acct_def set_data_same own(1) ..
  have sums: "tokens L2 (key_in a 2) + remaining = tokens L (key_in a 2)" "tokens L2 (key_in a 3) = tokens L (key_in a 3) + remaining"
    using after(3,4) checked_asset_value(1) [OF after(1)] checked_asset_value(1) [OF after(2)] checked_asset_value(1) [OF c(10)] checked_asset_value(1) [OF c(11)]
    by (auto simp: monad_simps)
  have unwritten: "L' k = L2 k" if "k \<noteq> key_in a 1" for k using that unfolding L' by simp
  show thesis
  proof (rule that [OF c(1-6) s' [unfolded r] revision [unfolded r]])
    show "tokens L' (key_in a 2) + order_remaining s = tokens L (key_in a 2)" "tokens L' (key_in a 3) = tokens L (key_in a 3) + order_remaining s"
      using sums unwritten apart unfolding r tokens_def by simp_all
    show "rcpt = ORDER_TAG @ to_le 8 nonce @ to_le 8 (order_remaining s) @ to_le 8 (order_revision s + 1)" using rcpt unfolding r .
    show "L' k = L k" if "k \<notin> {key_in a 1, key_in a 2, key_in a 3}" for k
      using unwritten [of k] kept that by (simp add: spares_def)
  qed
qed

lemma cancelled_cell:
  assumes "length s = 336" "n < 2 ^ 64" "s' = put_fields [(272, to_le 8 n), (328, [ORDER_CANCELLED])] (write_at 248 (replicate 8 0) s)"
  shows "length s' = 336" "order_total s' = order_total s" "order_remaining s' = 0" "order_revision s' = n" "order_cash s' = order_cash s" "s' ! 328 = ORDER_CANCELLED"
proof -
  have zeros: "to_le n 0 = replicate n 0" for n by (induction n) simp_all
  then have z: "replicate 8 0 = to_le 8 0" by simp
  have room: "248 + length (replicate 8 (0 :: nat)) \<le> length s" using assms(1) by simp
  show "length s' = 336" "s' ! 328 = ORDER_CANCELLED" using assms(1) unfolding assms(3) by (simp_all add: nth_write_at)
  show "order_total s' = order_total s" "order_cash s' = order_cash s" using assms(1) unfolding assms(3) by (simp_all add: cell_kept)
  show "order_remaining s' = 0" "order_revision s' = n" using assms(1,2) unfolding assms(3) z by (simp_all add: cell_kept cell_written)
qed

section \<open>The life of an order\<close>

text \<open>
  \<open>order_run vm program k fs returned L\<close>: the account \<open>k\<close> was placed, filled by \<open>fs\<close> and, when \<open>returned\<close>
  is a value, cancelled with that much stock left. Between these steps anything may happen that leaves the
  account's data, which only the program can write.
\<close>

inductive order_run :: "vm \<Rightarrow> key \<Rightarrow> key \<Rightarrow> (nat \<times> nat) list \<Rightarrow> nat option \<Rightarrow> ledger \<Rightarrow> bool" for vm program k where
  run_placed: "order_place vm program a d L = (Inr rcpt, L') \<Longrightarrow> key_in a 1 = k \<Longrightarrow> order_run vm program k [] None L'"
| run_filled: "order_run vm program k fs returned L \<Longrightarrow> record_fill a i rv stock cash L = (Inr (), L') \<Longrightarrow> key_in a i = k \<Longrightarrow>
    order_run vm program k (fs @ [(stock, cash)]) returned L'"
| run_cancelled: "order_run vm program k fs returned L \<Longrightarrow> order_cancel vm program a d L = (Inr rcpt, L') \<Longrightarrow> key_in a 1 = k \<Longrightarrow>
    order_run vm program k fs (Some (order_remaining (ac_data (L k)))) L'"
| run_outside: "order_run vm program k fs returned L \<Longrightarrow> ac_data (L' k) = ac_data (L k) \<Longrightarrow> order_run vm program k fs returned L'"

lemma order_run_accounts:
  assumes "runtime_ok program vm" "program \<noteq> TOKEN" "program \<noteq> TOKEN_2022" "order_run vm program k fs returned L"
  shows "cell_accounts fs returned (ac_data (L k))"
  using assms(4)
proof (induction rule: order_run.induct)
  case (run_placed a d L rcpt L')
  then show ?case using placed_cell by blast
next
  case (run_filled fs returned L a i rv stock cash L')
  have below: "order_remaining (ac_data (L (key_in a i))) < 2 ^ 64" using run_filled(3,4) by (auto simp: cell_accounts_def)
  note E = record_fill_effect [OF run_filled(2) below, unfolded run_filled(3)]
  have open_: "returned = None" using run_filled(4) E(2) by (auto simp: cell_accounts_def order_layout split: option.splits)
  then show ?case using run_filled(4) E(1-9) by (simp add: cell_accounts_def order_layout)
next
  case (run_cancelled fs returned L a d rcpt L')
  let ?s = "ac_data (acct L a 1)"
  obtain nonce where c: "length ?s = 336" "?s ! 328 = ORDER_OPEN" "order_revision ?s + 1 < 2 ^ 64"
    and s': "ac_data (acct L' a 1) = put_fields [(272, to_le 8 (order_revision ?s + 1)), (328, [ORDER_CANCELLED])] (write_at 248 (replicate 8 0) ?s)"
    by (rule order_cancel_effect [OF assms(1-3) run_cancelled(2)]) blast
  have at: "acct L a 1 = L k" "acct L' a 1 = L' k" using run_cancelled(3) by (simp_all add: acct_def)
  note C = cancelled_cell [OF c(1,3) s', unfolded at]
  have "returned = None" using run_cancelled(4) c(2) unfolding at by (auto simp: cell_accounts_def order_layout split: option.splits)
  then show ?case using run_cancelled(4) C by (simp add: cell_accounts_def order_layout)
next
  case (run_outside fs returned L L')
  then show ?case by simp
qed

lemma closed_refused:
  assumes "ac_data (L k) ! 328 \<noteq> ORDER_OPEN"
  shows "key_in a i = k \<Longrightarrow> \<exists>e. record_fill a i rv stock cash L = (Inl e, L)"
    "key_in a 1 = k \<Longrightarrow> \<exists>e. order_cancel vm program a d L = (Inl e, L)"
proof -
  assume "key_in a i = k"
  then have "\<not> (\<exists>x. record_checks rv stock cash (ac_data (acct L a i)) = Inr x)"
    using assms by (auto simp: record_checks_def acct_def monad_simps)
  then obtain e where "record_checks rv stock cash (ac_data (acct L a i)) = Inl e"
    by (cases "record_checks rv stock cash (ac_data (acct L a i))") auto
  then show "\<exists>e. record_fill a i rv stock cash L = (Inl e, L)" by (simp add: record_fill_def bindS_def readL_def)
next
  assume "key_in a 1 = k"
  then have "\<not> (\<exists>x. cancel_checks vm program a d L = Inr x)"
    using assms by (auto simp: cancel_checks_def acct_def monad_simps Let_def)
  then obtain e where "cancel_checks vm program a d L = Inl e" by (cases "cancel_checks vm program a d L") auto
  then show "\<exists>e. order_cancel vm program a d L = (Inl e, L)" by (simp add: order_cancel_def bindS_def readL_def)
qed

lemma taken_refused:
  assumes "ac_data (L (key_in a 1)) \<noteq> []"
  shows "\<exists>e. order_place vm program a d L = (Inl e, L)"
proof -
  have "\<not> (\<exists>x. place_checks vm program a d L = Inr x)"
    using assms by (auto simp: place_checks_def acct_def monad_simps case_prod_unfold)
  then obtain e where "place_checks vm program a d L = Inl e" by (cases "place_checks vm program a d L") auto
  then show ?thesis by (simp add: order_place_def bindS_def readL_def)
qed

section \<open>Properties\<close>

text \<open>
  \<^bold>\<open>C38.\<close> Every atom of stock an order was placed with is still remaining, was filled or was returned on
  cancellation, the cash booked is the cash of its fills and the revision counts its steps; once cancelled no
  fill and no second cancellation succeeds, and an address ever used is not placed again.
\<close>

theorem order_accounts_for_stock:
  assumes "runtime_ok program vm" "program \<noteq> TOKEN" "program \<noteq> TOKEN_2022" "order_run vm program k fs returned L"
  shows "let d = ac_data (L k)
    in order_total d = order_remaining d + sum_list (map fst fs) + (case returned of None \<Rightarrow> 0 | Some x \<Rightarrow> x)
     \<and> order_cash d = sum_list (map snd fs) \<and> order_revision d = length fs + (case returned of None \<Rightarrow> 0 | Some x \<Rightarrow> 1)
     \<and> (returned \<noteq> None \<longrightarrow> (\<forall>a i rv stock cash. key_in a i = k \<longrightarrow> (\<exists>e. record_fill a i rv stock cash L = (Inl e, L)))
          \<and> (\<forall>a d. key_in a 1 = k \<longrightarrow> (\<exists>e. order_cancel vm program a d L = (Inl e, L))))
     \<and> (\<forall>a d. key_in a 1 = k \<longrightarrow> (\<exists>e. order_place vm program a d L = (Inl e, L)))"
proof -
  note C = order_run_accounts [OF assms]
  have "ac_data (L k) ! 328 \<noteq> ORDER_OPEN" if "returned \<noteq> None" using C that by (auto simp: cell_accounts_def order_layout)
  moreover have "ac_data (L k) \<noteq> []" using C by (auto simp: cell_accounts_def order_layout)
  ultimately show ?thesis using C closed_refused [of L k] taken_refused [of L] by (simp add: cell_accounts_def Let_def)
qed

text \<open>
  \<^bold>\<open>C39.\<close> A cancellation is signed by the owner the order names, takes exactly the remaining stock from its
  escrow and gives exactly that much to the owner's account, whatever the token program did, closes the order
  and touches no other account; its receipt says how much.
\<close>

theorem order_cancel_returns_stock:
  assumes "runtime_ok program vm" "program \<noteq> TOKEN" "program \<noteq> TOKEN_2022" "order_cancel vm program a d L = (Inr rcpt, L')"
  shows "let s = ac_data (acct L a 1); s' = ac_data (acct L' a 1)
    in am_signer (a ! 0) \<and> byte_slice s 8 32 = key_bytes (key_in a 0) \<and> byte_slice s 168 32 = key_bytes (key_in a 2)
     \<and> tokens L' (key_in a 2) + order_remaining s = tokens L (key_in a 2)
     \<and> tokens L' (key_in a 3) = tokens L (key_in a 3) + order_remaining s
     \<and> order_remaining s' = 0 \<and> s' ! 328 = ORDER_CANCELLED \<and> order_revision s' = order_revision s + 1
     \<and> byte_slice rcpt 16 8 = to_le 8 (order_remaining s)
     \<and> (\<forall>k. k \<notin> {key_in a 1, key_in a 2, key_in a 3} \<longrightarrow> L' k = L k)"
proof -
  let ?s = "ac_data (acct L a 1)"
  obtain nonce where c: "am_signer (a ! 0)" "byte_slice ?s 8 32 = key_bytes (key_in a 0)" "byte_slice ?s 168 32 = key_bytes (key_in a 2)"
    "length ?s = 336" "order_revision ?s + 1 < 2 ^ 64" "tokens L' (key_in a 2) + order_remaining ?s = tokens L (key_in a 2)"
    "tokens L' (key_in a 3) = tokens L (key_in a 3) + order_remaining ?s"
    "rcpt = ORDER_TAG @ to_le 8 nonce @ to_le 8 (order_remaining ?s) @ to_le 8 (order_revision ?s + 1)"
    "\<And>k. k \<notin> {key_in a 1, key_in a 2, key_in a 3} \<Longrightarrow> L' k = L k"
    and s': "ac_data (acct L' a 1) = put_fields [(272, to_le 8 (order_revision ?s + 1)), (328, [ORDER_CANCELLED])] (write_at 248 (replicate 8 0) ?s)"
    by (rule order_cancel_effect [OF assms]) blast
  have "byte_slice rcpt 16 8 = to_le 8 (order_remaining ?s)" unfolding c(8) by (simp add: byte_slice_def ORDER_TAG_def)
  then show ?thesis unfolding Let_def using c(1-3,6,7,9) cancelled_cell [OF c(4,5) s'] by blast
qed

lemma ceil_q32_ge: "ceil_q32 v price = Inr c \<Longrightarrow> v * price \<le> c * 2 ^ 32"
proof -
  assume "ceil_q32 v price = Inr c"
  then have c: "c = (v * price + (2 ^ 32 - 1)) div 2 ^ 32" unfolding ceil_q32_def by (auto simp: monad_simps split: if_splits)
  have "v * price + (2 ^ 32 - 1) = (v * price + (2 ^ 32 - 1)) div 2 ^ 32 * 2 ^ 32 + (v * price + (2 ^ 32 - 1)) mod 2 ^ 32"
    by (rule div_mult_mod_eq [symmetric])
  moreover have "(v * price + (2 ^ 32 - 1)) mod 2 ^ 32 \<le> (2 ^ 32 - 1 :: nat)" by (simp add: less_Suc_eq_le [symmetric])
  ultimately show ?thesis unfolding c by linarith
qed

text \<open>
  \<^bold>\<open>C40.\<close> A fill is admitted only on the open, unexpired order of its revision at its own address, for no
  more stock than remains and the escrow holds, and only when the cash pays at least the order's price on the
  conservative exposure of that stock: never a rounding less.
\<close>

theorem fill_pays_order_price:
  assumes "validate_fill vm program a f L = Inr nonce"
  shows "let s = ac_data (acct L a (ft_order f))
    in \<exists>exposure. exposure_convert a (ft_product_mint f) (ft_model f) (ft_bps f) (ft_numerator f) (ft_denominator f) (ft_stock_atoms f) (vm_time vm) L = Inr exposure
       \<and> 0 < exposure \<and> exposure * cell_u64 s 256 \<le> ft_cash_atoms f * 2 ^ 32
       \<and> s ! 328 = ORDER_OPEN \<and> order_revision s = ft_revision f \<and> vm_slot vm \<le> cell_u64 s 264
       \<and> key_in a (ft_order f) = fst (vm_find vm (order_seeds (key_in a (ft_owner f)) nonce) program) \<and> nonce = cell_u64 s 232
       \<and> ft_stock_atoms f \<le> order_remaining s \<and> order_remaining s \<le> tokens L (key_in a (ft_escrow f))"
proof -
  let ?s = "ac_data (acct L a (ft_order f))"
  obtain revision expires remaining price held exposure c where r: "?s ! 328 = ORDER_OPEN" "u64_at ?s 272 = Inr revision" "revision = ft_revision f"
    "u64_at ?s 264 = Inr expires" "vm_slot vm \<le> expires" "u64_at ?s 232 = Inr nonce"
    "key_in a (ft_order f) = fst (vm_find vm (order_seeds (key_in a (ft_owner f)) nonce) program)" "u64_at ?s 248 = Inr remaining" "u64_at ?s 256 = Inr price"
    "ft_stock_atoms f \<le> remaining" "checked_asset (a ! ft_order f) (a ! ft_escrow f) (a ! ft_product_mint f) (a ! ft_program f) False L = Inr held"
    "remaining \<le> held"
    "exposure_convert a (ft_product_mint f) (ft_model f) (ft_bps f) (ft_numerator f) (ft_denominator f) (ft_stock_atoms f) (vm_time vm) L = Inr exposure"
    "0 < exposure" "ceil_q32 exposure price = Inr c" "c \<le> ft_cash_atoms f"
    using assms unfolding validate_fill_def Let_def by (auto simp: monad_simps)
  have "exposure * price \<le> c * 2 ^ 32" by (rule ceil_q32_ge [OF r(15)])
  also have "\<dots> \<le> ft_cash_atoms f * 2 ^ 32" using r(16) by simp
  finally show ?thesis unfolding Let_def
    using r(1,3,5,7,10,12,13,14) checked_asset_value(1) [OF r(11)] r(2,4,6,8,9) [THEN u64_at_cell] by auto
qed

end
