(* ===== verification/Vault.thy ===== *)
theory Vault
  imports Ledger
begin

text \<open>
  The basket vault program (\<open>programs/xtxc-basket-vault/src/lib.rs\<close>): a share mint whose every atom
  stands for fixed units of each constituent token, held by vaults of a derived authority. The three
  operations are \<open>initialize\<close> and, through \<open>exchange\<close>, minting and redeeming in kind.
  \<open>exchange\<close> is cut at its stages: \<open>exchange_ticket\<close> (the checks before the legs), \<open>open_leg\<close> and
  \<open>move_leg\<close> (one turn of each loop over the constituents), \<open>share_call\<close> and \<open>exchange_close\<close>.
  Accounts are pairwise different (\<open>unique\<close>), so no data borrow fails.
\<close>

section \<open>Constants and readers\<close>

definition V_HEADER :: nat where "V_HEADER = 112"
definition V_LEG :: nat where "V_LEG = 72"
definition V_RECEIPT :: nat where "V_RECEIPT = 128"

text \<open>\<open>XTXCBV01\<close>, \<open>XTXCBR01\<close> and \<open>xtxc-basket-v1\<close>.\<close>

definition V_MAGIC :: "nat list" where "V_MAGIC = [88, 84, 88, 67, 66, 86, 48, 49]"
definition RECEIPT_TAG :: "nat list" where "RECEIPT_TAG = [88, 84, 88, 67, 66, 82, 48, 49]"
definition VAULT_SEED :: "nat list" where "VAULT_SEED = [120, 116, 120, 99, 45, 98, 97, 115, 107, 101, 116, 45, 118, 49]"

definition u64_in :: "nat list \<Rightarrow> nat \<Rightarrow> nat res" where
  "u64_in d p = bindR (prog_or (get_range d p (p + 8)) 1) (\<lambda>bs. Inr (from_le bs))"

definition key_inside :: "nat list \<Rightarrow> nat \<Rightarrow> key res" where
  "key_inside d p = bindR (prog_or (get_range d p (p + 32)) 1) (\<lambda>bs. Inr (key_of bs))"

definition vmul :: "nat \<Rightarrow> nat \<Rightarrow> nat res" where
  "vmul a b = or_fault (checked_mul 64 a b) (Prog ArithmeticOverflow)"

definition zeros :: "nat \<Rightarrow> nat list" where
  "zeros n = replicate n 0"

section \<open>Account checks\<close>

definition zero_account :: "vm \<Rightarrow> account_ref \<Rightarrow> key \<Rightarrow> nat \<Rightarrow> ledger \<Rightarrow> unit res" where
  "zero_account vm r owner len L =
     (let a = L (am_key r)
      in bindR (needP (ac_owner a = owner \<and> am_writable r \<and> am_signer r \<and> \<not> ac_executable a) 2) (\<lambda>_.
         bindR (needP (length (ac_data a) = len \<and> list_all (\<lambda>x. x = 0) (ac_data a)) 3) (\<lambda>_.
         needP (vm_minimum_balance vm len \<le> ac_lamports a) 1)))"

definition mint_of :: "account_ref \<Rightarrow> ledger \<Rightarrow> (nat \<times> nat) res" where
  "mint_of r L =
     (let a = L (am_key r); d = ac_data a
      in bindR (needP (ac_owner a = TOKEN \<and> \<not> ac_executable a) 1) (\<lambda>_.
         bindR (needP (length d = 82 \<and> d ! 45 = 1) 1) (\<lambda>_.
         bindR (u64_in d 36) (\<lambda>supply. Inr (supply, d ! 44)))))"

definition share_mint :: "account_ref \<Rightarrow> key \<Rightarrow> nat \<Rightarrow> ledger \<Rightarrow> nat res" where
  "share_mint r authority decimals L =
     (let data = ac_data (L (am_key r))
      in bindR (mint_of r L) (\<lambda>(supply, d).
         bindR (if d = decimals \<and> byte_slice data 0 4 = [1, 0, 0, 0]
                then bindR (key_inside data 4) (\<lambda>k. Inr (k = authority \<and> byte_slice data 46 4 = zeros 4)) else Inr False) (\<lambda>ok.
         bindR (needP ok 2) (\<lambda>_. Inr supply))))"

definition token_of :: "account_ref \<Rightarrow> key \<Rightarrow> key \<Rightarrow> ledger \<Rightarrow> nat res" where
  "token_of r mint owner L =
     (let a = L (am_key r); d = ac_data a
      in bindR (needP (ac_owner a = TOKEN \<and> am_writable r \<and> \<not> ac_executable a) 1) (\<lambda>_.
         bindR (if length d = 165
                then bindR (key_inside d 0) (\<lambda>m.
                     if m = mint
                     then bindR (key_inside d 32) (\<lambda>w. Inr (w = owner \<and> d ! 108 = 1
                            \<and> byte_slice d 72 4 = zeros 4 \<and> byte_slice d 109 4 = zeros 4 \<and> byte_slice d 129 4 = zeros 4))
                     else Inr False)
                else Inr False) (\<lambda>ok.
         bindR (needP ok 2) (\<lambda>_. u64_in d 64))))"

definition unique_accounts :: "account_ref list \<Rightarrow> unit res" where
  "unique_accounts a =
     needP (list_all (\<lambda>i. list_all (\<lambda>j. key_in a i \<noteq> key_in a j) [0..<i]) [0..<length a]) 1"

section \<open>Opening a basket\<close>

definition init_leg :: "account_ref list \<Rightarrow> nat list \<Rightarrow> key \<Rightarrow> ledger \<Rightarrow> nat \<Rightarrow> unit res" where
  "init_leg a data authority L i =
     (let m = a ! (5 + 2 * i); v = a ! (6 + 2 * i)
      in bindR (mint_of m L) (\<lambda>_.
         bindR (if am_key m \<noteq> key_in a 3 then bindR (u64_in data (35 + 8 * i)) (\<lambda>u. Inr (0 < u)) else Inr False) (\<lambda>ok.
         bindR (needP ok 1) (\<lambda>_.
         bindR (token_of v (am_key m) authority L) (\<lambda>held.
         needP (held = 0) 1)))))"

primrec each_leg :: "(nat \<Rightarrow> 'a res) \<Rightarrow> nat list \<Rightarrow> 'a list res" where
  "each_leg f [] = Inr []"
| "each_leg f (i # is) = bindR (f i) (\<lambda>x. bindR (each_leg f is) (\<lambda>xs. Inr (x # xs)))"

definition put_leg :: "account_ref list \<Rightarrow> nat list \<Rightarrow> nat \<Rightarrow> nat list \<Rightarrow> nat list" where
  "put_leg a data i cfg =
     (let p = V_HEADER + i * V_LEG
      in write_at (p + 64) (byte_slice data (35 + 8 * i) 8)
           (write_at (p + 32) (key_bytes (key_in a (6 + 2 * i))) (write_at p (key_bytes (key_in a (5 + 2 * i))) cfg)))"

definition put_config :: "account_ref list \<Rightarrow> nat list \<Rightarrow> nat \<Rightarrow> nat list \<Rightarrow> nat list" where
  "put_config a data bump cfg =
     fold (put_leg a data) [0..<data ! 1]
       (write_at 104 [bump, data ! 1, data ! 2, 1]
         (write_at 72 (byte_slice data 3 32)
           (write_at 40 (key_bytes (key_in a 2)) (write_at 8 (key_bytes (key_in a 3)) (write_at 0 V_MAGIC cfg)))))"

definition init_checks :: "vm \<Rightarrow> key \<Rightarrow> account_ref list \<Rightarrow> nat list \<Rightarrow> ledger \<Rightarrow> nat res" where
  "init_checks vm program a data L =
     bindR (needP (35 \<le> length data) 1) (\<lambda>_.
     let n = data ! 1
     in bindR (needP (2 \<le> n \<and> n \<le> 16 \<and> data ! 2 \<le> 9 \<and> length data = 35 + 8 * n \<and> length a = 5 + 2 * n) 1) (\<lambda>_.
        bindR (unique_accounts a) (\<lambda>_.
        bindR (zero_account vm (a ! 0) program (V_HEADER + n * V_LEG) L) (\<lambda>_.
        case vm_find vm [VAULT_SEED, key_bytes (key_in a 0)] program of (authority, bump) \<Rightarrow>
        bindR (needP (key_in a 1 = authority \<and> am_signer (a ! 2) \<and> key_in a 4 = TOKEN \<and> ac_executable (acct L a 4)) 2) (\<lambda>_.
        bindR (needP (list_ex (\<lambda>x. x \<noteq> 0) (byte_slice data 3 32)) 1) (\<lambda>_.
        bindR (share_mint (a ! 3) authority (data ! 2) L) (\<lambda>supply.
        bindR (needP (supply = 0) 1) (\<lambda>_.
        bindR (each_leg (init_leg a data authority L) [0..<n]) (\<lambda>_. Inr bump)))))))))"

definition initialize_basket :: "vm \<Rightarrow> key \<Rightarrow> account_ref list \<Rightarrow> nat list \<Rightarrow> (ledger, unit) comp" where
  "initialize_basket vm program a data =
     bindS (readL (init_checks vm program a data)) (\<lambda>bump. writeL (key_in a 0) (put_config a data bump))"

section \<open>Minting and redeeming\<close>

text \<open>What the checks before the legs leave for them.\<close>

record exchange_state =
  tk_shares :: nat
  tk_issue :: bool
  tk_cfg :: "nat list"
  tk_authority :: key
  tk_supply :: nat
  tk_owned :: nat
  tk_target :: nat

abbreviation tk_n :: "exchange_state \<Rightarrow> nat" where
  "tk_n t \<equiv> tk_cfg t ! 105"

definition vault_seeds :: "nat list \<Rightarrow> key \<Rightarrow> nat list list" where
  "vault_seeds cfg k = [VAULT_SEED, key_bytes k, [cfg ! 104]]"

definition exchange_ticket :: "vm \<Rightarrow> key \<Rightarrow> account_ref list \<Rightarrow> nat list \<Rightarrow> ledger \<Rightarrow> exchange_state res" where
  "exchange_ticket vm program a data L =
     bindR (needP (length data = 9 \<and> 13 \<le> length a) 1) (\<lambda>_.
     bindR (u64_in data 1) (\<lambda>shares.
     bindR (needP (0 < shares) 1) (\<lambda>_.
     bindR (needP (ac_owner (acct L a 0) = program \<and> \<not> ac_executable (acct L a 0)) 2) (\<lambda>_.
     let cfg = ac_data (acct L a 0)
     in bindR (needP (V_HEADER \<le> length cfg \<and> byte_slice cfg 0 8 = V_MAGIC \<and> cfg ! 107 = 1) 1) (\<lambda>_.
        let n = cfg ! 105
        in bindR (needP (2 \<le> n \<and> n \<le> 16 \<and> length cfg = V_HEADER + n * V_LEG \<and> length a = 7 + 3 * n) 1) (\<lambda>_.
        bindR (unique_accounts a) (\<lambda>_.
        bindR (prog_or (vm_create vm (vault_seeds cfg (key_in a 0)) program) 2) (\<lambda>authority.
        bindR (if key_in a 1 = authority \<and> am_signer (a ! 2) \<and> am_writable (a ! 3)
               then bindR (key_inside cfg 8) (\<lambda>k. Inr (key_in a 3 = k \<and> key_in a 6 = TOKEN \<and> ac_executable (acct L a 6)))
               else Inr False) (\<lambda>ok.
        bindR (needP ok 2) (\<lambda>_.
        bindR (zero_account vm (a ! 5) program V_RECEIPT L) (\<lambda>_.
        bindR (share_mint (a ! 3) authority (cfg ! 106) L) (\<lambda>supply.
        bindR (token_of (a ! 4) (key_in a 3) (key_in a 2) L) (\<lambda>owned.
        let issue = (data ! 0 = 1)
        in bindR (prog_or (if issue then checked_add 64 supply shares else checked_sub supply shares) 1) (\<lambda>target.
           bindR (if \<not> issue then needP (shares \<le> owned) 1
                  else bindR (prog_or (checked_add 64 owned shares) 1) (\<lambda>_. Inr ())) (\<lambda>_.
           Inr \<lparr>tk_shares = shares, tk_issue = issue, tk_cfg = cfg, tk_authority = authority, tk_supply = supply,
                tk_owned = owned, tk_target = target\<rparr>)))))))))))))))"

text \<open>One turn of the first loop: \<open>units[i]\<close>, \<open>before[i]\<close> and \<open>user_before[i]\<close>.\<close>

record leg_pin =
  lp_units :: nat
  lp_before :: nat
  lp_user :: nat

abbreviation leg_mint :: "account_ref list \<Rightarrow> nat \<Rightarrow> account_ref" where "leg_mint a i \<equiv> a ! (7 + 3 * i)"
abbreviation leg_user :: "account_ref list \<Rightarrow> nat \<Rightarrow> account_ref" where "leg_user a i \<equiv> a ! (8 + 3 * i)"
abbreviation leg_vault :: "account_ref list \<Rightarrow> nat \<Rightarrow> account_ref" where "leg_vault a i \<equiv> a ! (9 + 3 * i)"

definition open_leg :: "account_ref list \<Rightarrow> exchange_state \<Rightarrow> ledger \<Rightarrow> nat \<Rightarrow> leg_pin res" where
  "open_leg a t L i =
     (let p = V_HEADER + i * V_LEG; cfg = tk_cfg t; m = leg_mint a i; user = leg_user a i; vault = leg_vault a i
      in bindR (key_inside cfg p) (\<lambda>mk.
         bindR (if am_key m = mk then bindR (key_inside cfg (p + 32)) (\<lambda>vk. Inr (am_key vault = vk)) else Inr False) (\<lambda>ok.
         bindR (needP ok 1) (\<lambda>_.
         bindR (mint_of m L) (\<lambda>_.
         bindR (u64_in cfg (p + 64)) (\<lambda>units.
         bindR (vmul (tk_shares t) units) (\<lambda>amount.
         bindR (token_of vault (am_key m) (tk_authority t) L) (\<lambda>held.
         bindR (token_of user (am_key m) (key_in a 2) L) (\<lambda>owned.
         bindR (vmul (tk_supply t) units) (\<lambda>claims.
         bindR (needP (claims \<le> held) 4) (\<lambda>_.
         bindR (vmul (tk_target t) units) (\<lambda>_.
         bindR (if tk_issue t
                then bindR (needP (amount \<le> owned) 1) (\<lambda>_. bindR (prog_or (checked_add 64 held amount) 1) (\<lambda>_. Inr ()))
                else bindR (prog_or (checked_add 64 owned amount) 1) (\<lambda>_. Inr ())) (\<lambda>_.
         Inr \<lparr>lp_units = units, lp_before = held, lp_user = owned\<rparr>)))))))))))))"

definition transfer_call :: "account_ref \<Rightarrow> account_ref \<Rightarrow> account_ref \<Rightarrow> account_ref \<Rightarrow> nat \<Rightarrow> nat \<Rightarrow> cpi" where
  "transfer_call src mint dst owner amount decimals =
     Call \<lparr>ix_program = TOKEN,
       ix_accounts = [\<lparr>am_key = am_key src, am_signer = False, am_writable = True\<rparr>,
         \<lparr>am_key = am_key mint, am_signer = False, am_writable = False\<rparr>,
         \<lparr>am_key = am_key dst, am_signer = False, am_writable = True\<rparr>,
         \<lparr>am_key = am_key owner, am_signer = True, am_writable = False\<rparr>],
       ix_data = 12 # to_le 8 amount @ [decimals]\<rparr>"

text \<open>One turn of the second loop.\<close>

definition move_leg :: "vm \<Rightarrow> account_ref list \<Rightarrow> exchange_state \<Rightarrow> nat \<Rightarrow> leg_pin \<Rightarrow> (ledger, unit) comp" where
  "move_leg vm a t i pin =
     (let m = leg_mint a i; user = leg_user a i; vault = leg_vault a i
      in bindS (liftR (vmul (tk_shares t) (lp_units pin))) (\<lambda>amount.
         bindS (readL (mint_of m)) (\<lambda>(_, decimals).
         bindS (if tk_issue t then callL vm (transfer_call user m vault (a ! 2) amount decimals) []
                else callL vm (transfer_call vault m user (a ! 1) amount decimals) [vault_seeds (tk_cfg t) (key_in a 0)]) (\<lambda>_.
         bindS (liftR (if tk_issue t then add_w 64 (lp_before pin) amount else sub_w (lp_before pin) amount)) (\<lambda>expected_vault.
         bindS (liftR (if tk_issue t then sub_w (lp_user pin) amount else add_w 64 (lp_user pin) amount)) (\<lambda>expected_user.
         bindS (readL (token_of vault (am_key m) (tk_authority t))) (\<lambda>held.
         bindS (if held = expected_vault
                then bindS (readL (token_of user (am_key m) (key_in a 2))) (\<lambda>owned. ret (owned = expected_user))
                else ret False) (\<lambda>ok.
         liftR (needP ok 5)))))))))"

primrec move_legs :: "vm \<Rightarrow> account_ref list \<Rightarrow> exchange_state \<Rightarrow> (nat \<times> leg_pin) list \<Rightarrow> (ledger, unit) comp" where
  "move_legs vm a t [] = ret ()"
| "move_legs vm a t (x # xs) = bindS (move_leg vm a t (fst x) (snd x)) (\<lambda>_. move_legs vm a t xs)"

definition share_call :: "account_ref list \<Rightarrow> exchange_state \<Rightarrow> cpi" where
  "share_call a t =
     (let infos = (if tk_issue t then [key_in a 3, key_in a 4, key_in a 1] else [key_in a 4, key_in a 3, key_in a 2])
      in Call \<lparr>ix_program = TOKEN,
           ix_accounts = [\<lparr>am_key = infos ! 0, am_signer = False, am_writable = True\<rparr>,
             \<lparr>am_key = infos ! 1, am_signer = False, am_writable = True\<rparr>,
             \<lparr>am_key = infos ! 2, am_signer = True, am_writable = False\<rparr>],
           ix_data = (if tk_issue t then 14 else 15) # to_le 8 (tk_shares t) @ [tk_cfg t ! 106]\<rparr>)"

definition put_receipt :: "account_ref list \<Rightarrow> nat list \<Rightarrow> exchange_state \<Rightarrow> nat list \<Rightarrow> nat list" where
  "put_receipt a data t bs =
     write_at 120 (to_le 8 (tk_target t)) (write_at 112 (to_le 8 (tk_shares t)) (write_at 104 [data ! 0]
       (write_at 72 (byte_slice (tk_cfg t) 72 32) (write_at 40 (key_bytes (key_in a 2)) (write_at 8 (key_bytes (key_in a 0))
         (write_at 0 RECEIPT_TAG bs))))))"

definition exchange_close :: "vm \<Rightarrow> account_ref list \<Rightarrow> nat list \<Rightarrow> exchange_state \<Rightarrow> (ledger, unit) comp" where
  "exchange_close vm a data t =
     bindS (callL vm (share_call a t) (if tk_issue t then [vault_seeds (tk_cfg t) (key_in a 0)] else [])) (\<lambda>_.
     bindS (readL (share_mint (a ! 3) (tk_authority t) (tk_cfg t ! 106))) (\<lambda>supply.
     bindS (if supply = tk_target t
            then bindS (readL (token_of (a ! 4) (key_in a 3) (key_in a 2))) (\<lambda>owned.
                 bindS (liftR (if tk_issue t then add_w 64 (tk_owned t) (tk_shares t) else sub_w (tk_owned t) (tk_shares t))) (\<lambda>expected.
                 ret (owned = expected)))
            else ret False) (\<lambda>ok.
     bindS (liftR (needP ok 5)) (\<lambda>_.
     writeL (key_in a 5) (put_receipt a data t)))))"

definition exchange :: "vm \<Rightarrow> key \<Rightarrow> account_ref list \<Rightarrow> nat list \<Rightarrow> (ledger, unit) comp" where
  "exchange vm program a data =
     bindS (readL (exchange_ticket vm program a data)) (\<lambda>t.
     bindS (readL (\<lambda>L. each_leg (open_leg a t L) [0..<tk_n t])) (\<lambda>pins.
     bindS (move_legs vm a t (zip [0..<tk_n t] pins)) (\<lambda>_.
     exchange_close vm a data t)))"

definition vault_process :: "vm \<Rightarrow> key \<Rightarrow> account_ref list \<Rightarrow> nat list \<Rightarrow> (ledger, unit) comp" where
  "vault_process vm program a data =
     (case data of
        [] \<Rightarrow> liftR (Inl (Prog (Custom 1)))
      | op # _ \<Rightarrow> if op = 0 then initialize_basket vm program a data
                 else if op = 1 \<or> op = 2 then exchange vm program a data
                 else liftR (Inl (Prog (Custom 1))))"

section \<open>What the readers return\<close>

definition balance :: "ledger \<Rightarrow> key \<Rightarrow> nat" where
  "balance L k = from_le (byte_slice (ac_data (L k)) 64 8)"

definition supply_at :: "ledger \<Rightarrow> key \<Rightarrow> nat" where
  "supply_at L k = from_le (byte_slice (ac_data (L k)) 36 8)"

definition basket_units :: "nat list \<Rightarrow> nat \<Rightarrow> nat" where
  "basket_units cfg i = from_le (byte_slice cfg (V_HEADER + i * V_LEG + 64) 8)"

definition basket_vault :: "nat list \<Rightarrow> nat \<Rightarrow> key" where
  "basket_vault cfg i = key_of (byte_slice cfg (V_HEADER + i * V_LEG + 32) 32)"

definition basket_mint :: "nat list \<Rightarrow> nat \<Rightarrow> key" where
  "basket_mint cfg i = key_of (byte_slice cfg (V_HEADER + i * V_LEG) 32)"

definition basket_share :: "nat list \<Rightarrow> key" where
  "basket_share cfg = key_of (byte_slice cfg 8 32)"

lemma u64_in_Inr: "u64_in d p = Inr v \<longleftrightarrow> p + 8 \<le> length d \<and> v = from_le (byte_slice d p 8)"
  by (auto simp: u64_in_def get_range_def byte_slice_def prog_or_def)

lemma key_inside_Inr: "key_inside d p = Inr k \<longleftrightarrow> p + 32 \<le> length d \<and> k = key_of (byte_slice d p 32)"
  by (auto simp: key_inside_def get_range_def byte_slice_def prog_or_def)

lemma vmul_Inr: "vmul a b = Inr c \<longleftrightarrow> a * b < 2 ^ 64 \<and> c = a * b"
  by (auto simp: vmul_def monad_simps)

lemma when_Inr:
  "(if b then bindR m f else Inr False) = Inr ok \<longleftrightarrow> (if b then bindR m f = Inr ok else \<not> ok)"
  by auto

lemmas vault_readers = monad_simps u64_in_Inr key_inside_Inr vmul_Inr

lemma token_of_Inr: "token_of r mint owner L = Inr v \<Longrightarrow> v = balance L (am_key r) \<and> ac_owner (L (am_key r)) = TOKEN"
  unfolding token_of_def Let_def by (auto simp: vault_readers balance_def)

lemma mint_of_Inr: "mint_of r L = Inr (s, d) \<Longrightarrow> s = supply_at L (am_key r) \<and> ac_owner (L (am_key r)) = TOKEN"
  unfolding mint_of_def Let_def by (auto simp: vault_readers supply_at_def)

lemma share_mint_Inr:
  "share_mint r authority decimals L = Inr s \<Longrightarrow> s = supply_at L (am_key r) \<and> ac_owner (L (am_key r)) = TOKEN"
  unfolding share_mint_def Let_def by (auto simp: vault_readers dest: mint_of_Inr)

lemma zero_account_Inr:
  "zero_account vm r owner len L = Inr u \<Longrightarrow>
   ac_owner (L (am_key r)) = owner \<and> length (ac_data (L (am_key r))) = len \<and> (\<forall>x \<in> set (ac_data (L (am_key r))). x = 0)"
  unfolding zero_account_def Let_def by (auto simp: vault_readers list_all_iff)

lemma unique_accounts_Inr: "unique_accounts a = Inr u \<Longrightarrow> distinct (map am_key a)"
proof -
  assume "unique_accounts a = Inr u"
  then have ne: "\<And>i j. i < length a \<Longrightarrow> j < i \<Longrightarrow> key_in a i \<noteq> key_in a j"
    by (auto simp: unique_accounts_def list_all_iff)
  have "map am_key a ! i \<noteq> map am_key a ! j" if "i < length a" "j < length a" "i \<noteq> j" for i j
    using ne [of i j] ne [of j i] that by (cases "j < i") auto
  then show ?thesis by (simp add: distinct_conv_nth)
qed

lemma unique_keys: "distinct (map am_key a) \<Longrightarrow> i < length a \<Longrightarrow> j < length a \<Longrightarrow> key_in a i = key_in a j \<longleftrightarrow> i = j"
  by (metis length_map nth_eq_iff_index_eq nth_map)

lemma each_leg_nth: "each_leg f is = Inr xs \<Longrightarrow> length xs = length is \<and> (\<forall>j < length is. f (is ! j) = Inr (xs ! j))"
  by (induction "is" arbitrary: xs) (auto simp: monad_simps nth_Cons split: nat.splits)

section \<open>The stages of an exchange\<close>

lemma exchange_ticket_facts:
  assumes "exchange_ticket vm program a data L = Inr t"
  shows "length data = 9" "tk_shares t = from_le (byte_slice data 1 8)" "0 < tk_shares t" "tk_issue t = (data ! 0 = 1)"
    "tk_cfg t = ac_data (acct L a 0)" "ac_owner (acct L a 0) = program"
    "length (tk_cfg t) = V_HEADER + tk_n t * V_LEG" "2 \<le> tk_n t" "tk_n t \<le> 16" "length a = 7 + 3 * tk_n t"
    "distinct (map am_key a)" "key_in a 3 = basket_share (tk_cfg t)"
    "ac_owner (acct L a 5) = program" "length (ac_data (acct L a 5)) = V_RECEIPT" "\<forall>x \<in> set (ac_data (acct L a 5)). x = 0"
    "tk_supply t = supply_at L (key_in a 3)" "ac_owner (acct L a 3) = TOKEN" "ac_owner (acct L a 4) = TOKEN"
    "tk_owned t = balance L (key_in a 4)"
    "if tk_issue t then tk_target t = tk_supply t + tk_shares t \<and> tk_owned t + tk_shares t < 2 ^ 64
     else tk_target t + tk_shares t = tk_supply t \<and> tk_shares t \<le> tk_owned t"
proof -
  note run = assms [unfolded exchange_ticket_def Let_def vault_readers]
  show "length data = 9" "tk_shares t = from_le (byte_slice data 1 8)" "0 < tk_shares t" "tk_issue t = (data ! 0 = 1)"
    "tk_cfg t = ac_data (acct L a 0)" "ac_owner (acct L a 0) = program"
    "length (tk_cfg t) = V_HEADER + tk_n t * V_LEG" "2 \<le> tk_n t" "tk_n t \<le> 16" "length a = 7 + 3 * tk_n t"
    using run by (auto simp: vault_readers)
  show "distinct (map am_key a)" using run by (auto dest: unique_accounts_Inr)
  show "key_in a 3 = basket_share (tk_cfg t)" using run by (auto simp: vault_readers basket_share_def split: if_splits)
  show "ac_owner (acct L a 5) = program" "length (ac_data (acct L a 5)) = V_RECEIPT" "\<forall>x \<in> set (ac_data (acct L a 5)). x = 0"
    using run by (auto dest!: zero_account_Inr simp: acct_def)
  show "tk_supply t = supply_at L (key_in a 3)" "ac_owner (acct L a 3) = TOKEN"
    using run by (auto dest!: share_mint_Inr simp: acct_def)
  show "tk_owned t = balance L (key_in a 4)" "ac_owner (acct L a 4) = TOKEN"
    using run by (auto dest!: token_of_Inr simp: acct_def)
  show "if tk_issue t then tk_target t = tk_supply t + tk_shares t \<and> tk_owned t + tk_shares t < 2 ^ 64
     else tk_target t + tk_shares t = tk_supply t \<and> tk_shares t \<le> tk_owned t"
    using run by (auto simp: vault_readers)
qed

lemma open_leg_facts:
  assumes "open_leg a t L i = Inr pin"
  shows "key_in a (9 + 3 * i) = basket_vault (tk_cfg t) i" "lp_units pin = basket_units (tk_cfg t) i"
    "lp_before pin = balance L (key_in a (9 + 3 * i))" "lp_user pin = balance L (key_in a (8 + 3 * i))"
    "tk_supply t * lp_units pin \<le> lp_before pin"
    "if tk_issue t then tk_shares t * lp_units pin \<le> lp_user pin \<and> lp_before pin + tk_shares t * lp_units pin < 2 ^ 64
     else lp_user pin + tk_shares t * lp_units pin < 2 ^ 64"
proof -
  note run = assms [unfolded open_leg_def Let_def vault_readers]
  show "key_in a (9 + 3 * i) = basket_vault (tk_cfg t) i"
    using run by (auto simp: vault_readers basket_vault_def split: if_splits)
  show "lp_units pin = basket_units (tk_cfg t) i" using run by (auto simp: basket_units_def)
  show "lp_before pin = balance L (key_in a (9 + 3 * i))" using run by (auto dest!: token_of_Inr)
  show "lp_user pin = balance L (key_in a (8 + 3 * i))" using run by (auto dest!: token_of_Inr)
  show "tk_supply t * lp_units pin \<le> lp_before pin" using run by auto
  show "if tk_issue t then tk_shares t * lp_units pin \<le> lp_user pin \<and> lp_before pin + tk_shares t * lp_units pin < 2 ^ 64
     else lp_user pin + tk_shares t * lp_units pin < 2 ^ 64"
    using run by (auto simp: vault_readers)
qed

text \<open>A leg moves exactly the amount of its pin and touches two accounts only.\<close>

definition leg_moved :: "account_ref list \<Rightarrow> exchange_state \<Rightarrow> nat \<Rightarrow> leg_pin \<Rightarrow> ledger \<Rightarrow> bool" where
  "leg_moved a t i pin L \<longleftrightarrow>
     (let amount = tk_shares t * lp_units pin; held = balance L (key_in a (9 + 3 * i)); owned = balance L (key_in a (8 + 3 * i))
      in if tk_issue t then held = lp_before pin + amount \<and> owned + amount = lp_user pin
         else held + amount = lp_before pin \<and> owned = lp_user pin + amount)"

lemma cpi_writable_transfer: "cpi_writable (transfer_call src mint dst owner amount decimals) = {am_key src, am_key dst}"
  by (simp add: transfer_call_def)

lemma move_leg_moved:
  assumes "runtime_ok program vm" "move_leg vm a t i pin L = (Inr u, L')"
  shows "leg_moved a t i pin L'" "k \<noteq> key_in a (8 + 3 * i) \<Longrightarrow> k \<noteq> key_in a (9 + 3 * i) \<Longrightarrow> L' k = L k"
proof -
  note run = assms(2) [unfolded move_leg_def Let_def vault_readers]
  show "leg_moved a t i pin L'"
    using run by (auto simp: vault_readers leg_moved_def Let_def dest!: token_of_Inr [OF sym] split: if_splits)
  show "L' k = L k" if "k \<noteq> key_in a (8 + 3 * i)" "k \<noteq> key_in a (9 + 3 * i)"
  proof -
    obtain c seeds where c: "vm_invoke vm c seeds L = Inr L'" "cpi_writable c = {key_in a (8 + 3 * i), key_in a (9 + 3 * i)}"
      using run by (auto simp: vault_readers cpi_writable_transfer insert_commute split: if_splits)
    show "L' k = L k" using that by (intro runtime_frame [OF assms(1) c(1)]) (simp add: c(2))
  qed
qed

lemma leg_keys_differ:
  assumes "distinct (map am_key a)" "9 + 3 * j < length a" "9 + 3 * i < length a" "i \<noteq> j"
  shows "key_in a (8 + 3 * i) \<noteq> key_in a (8 + 3 * j)" "key_in a (8 + 3 * i) \<noteq> key_in a (9 + 3 * j)"
    "key_in a (9 + 3 * i) \<noteq> key_in a (8 + 3 * j)" "key_in a (9 + 3 * i) \<noteq> key_in a (9 + 3 * j)"
proof -
  have "8 + 3 * i \<noteq> 9 + 3 * j" "9 + 3 * i \<noteq> 8 + 3 * j" by presburger+
  then show "key_in a (8 + 3 * i) \<noteq> key_in a (8 + 3 * j)" "key_in a (8 + 3 * i) \<noteq> key_in a (9 + 3 * j)"
    "key_in a (9 + 3 * i) \<noteq> key_in a (8 + 3 * j)" "key_in a (9 + 3 * i) \<noteq> key_in a (9 + 3 * j)"
    using assms by (simp_all add: unique_keys)
qed

lemma move_legs_moved:
  assumes "runtime_ok program vm" "move_legs vm a t xs L = (Inr u, L')" "distinct (map am_key a)" "distinct (map fst xs)"
    "\<forall>x \<in> set xs. 9 + 3 * fst x < length a"
  shows "(\<forall>x \<in> set xs. leg_moved a t (fst x) (snd x) L')
    \<and> (\<forall>k. (\<forall>x \<in> set xs. k \<noteq> key_in a (8 + 3 * fst x) \<and> k \<noteq> key_in a (9 + 3 * fst x)) \<longrightarrow> L' k = L k)"
  using assms(2,4,5)
proof (induction xs arbitrary: L)
  case (Cons x xs)
  then obtain L1 where L1: "move_leg vm a t (fst x) (snd x) L = (Inr (), L1)" "move_legs vm a t xs L1 = (Inr u, L')"
    by (auto simp: monad_simps)
  note moved = move_leg_moved [OF assms(1) L1(1)]
  note IH = Cons.IH [OF L1(2)]
  have kept: "L' (key_in a (8 + 3 * fst x)) = L1 (key_in a (8 + 3 * fst x))"
    "L' (key_in a (9 + 3 * fst x)) = L1 (key_in a (9 + 3 * fst x))"
  proof -
    have ys: "fst x \<noteq> fst y" "9 + 3 * fst y < length a" "9 + 3 * fst x < length a" if "y \<in> set xs" for y
      using Cons.prems(2,3) that by auto
    show "L' (key_in a (8 + 3 * fst x)) = L1 (key_in a (8 + 3 * fst x))"
      "L' (key_in a (9 + 3 * fst x)) = L1 (key_in a (9 + 3 * fst x))"
      using IH Cons.prems(2,3) leg_keys_differ [OF assms(3) ys(2,3)] ys(1) by (metis (no_types, lifting) distinct.simps(2) list.set_intros(2) list.simps(9))+
  qed
  then have "leg_moved a t (fst x) (snd x) L'" using moved(1) by (simp add: leg_moved_def balance_def)
  then show ?case using IH moved(2) Cons.prems by auto
qed simp

text \<open>The share accounts and the receipt change in the last stage only.\<close>

lemma share_call_writable: "cpi_writable (share_call a t) = {key_in a 3, key_in a 4}"
  by (auto simp: share_call_def Let_def)

lemma exchange_close_effect:
  assumes "runtime_ok program vm" "exchange_close vm a data t L = (Inr u, L')"
    "key_in a 3 \<noteq> key_in a 5" "key_in a 4 \<noteq> key_in a 5"
  shows "supply_at L' (key_in a 3) = tk_target t"
    "if tk_issue t then balance L' (key_in a 4) = tk_owned t + tk_shares t
     else tk_shares t \<le> tk_owned t \<and> balance L' (key_in a 4) = tk_owned t - tk_shares t"
    "ac_data (L' (key_in a 5)) = put_receipt a data t (ac_data (L (key_in a 5)))"
    "k \<noteq> key_in a 3 \<Longrightarrow> k \<noteq> key_in a 4 \<Longrightarrow> k \<noteq> key_in a 5 \<Longrightarrow> L' k = L k"
proof -
  obtain L1 seeds where call: "vm_invoke vm (share_call a t) seeds L = Inr L1"
    and L': "L' = set_data (key_in a 5) (put_receipt a data t (ac_data (L1 (key_in a 5)))) L1"
    and checks: "share_mint (a ! 3) (tk_authority t) (tk_cfg t ! 106) L1 = Inr (tk_target t)"
    "if tk_issue t then token_of (a ! 4) (key_in a 3) (key_in a 2) L1 = Inr (tk_owned t + tk_shares t)
     else tk_shares t \<le> tk_owned t \<and> token_of (a ! 4) (key_in a 3) (key_in a 2) L1 = Inr (tk_owned t - tk_shares t)"
    using assms(2) unfolding exchange_close_def by (auto simp: vault_readers split: if_splits)
  note frame = runtime_frame [OF assms(1) call, unfolded share_call_writable]
  show "supply_at L' (key_in a 3) = tk_target t"
    using share_mint_Inr [OF checks(1)] assms(3) by (simp add: L' supply_at_def)
  show "if tk_issue t then balance L' (key_in a 4) = tk_owned t + tk_shares t
     else tk_shares t \<le> tk_owned t \<and> balance L' (key_in a 4) = tk_owned t - tk_shares t"
    using checks(2) assms(4) by (auto simp: L' balance_def dest!: token_of_Inr split: if_splits)
  show "ac_data (L' (key_in a 5)) = put_receipt a data t (ac_data (L (key_in a 5)))"
    using frame [of "key_in a 5"] assms(3,4) by (simp add: L')
  show "k \<noteq> key_in a 3 \<Longrightarrow> k \<noteq> key_in a 4 \<Longrightarrow> k \<noteq> key_in a 5 \<Longrightarrow> L' k = L k"
    using frame [of k] by (simp add: L')
qed

text \<open>A whole exchange: its exchange_state and pins, and what it leaves.\<close>

lemma exchange_effect:
  assumes ok: "runtime_ok program vm" and run: "exchange vm program a data L = (Inr u, L')"
  obtains t where "exchange_ticket vm program a data L = Inr t"
    "\<And>i. i < tk_n t \<Longrightarrow> \<exists>pin. open_leg a t L i = Inr pin \<and> leg_moved a t i pin L'"
    "supply_at L' (key_in a 3) = tk_target t"
    "if tk_issue t then balance L' (key_in a 4) = tk_owned t + tk_shares t
     else tk_shares t \<le> tk_owned t \<and> balance L' (key_in a 4) = tk_owned t - tk_shares t"
    "ac_data (L' (key_in a 5)) = put_receipt a data t (zeros V_RECEIPT)"
    "\<And>k. (\<And>i. i < tk_n t \<Longrightarrow> k \<noteq> key_in a (8 + 3 * i) \<and> k \<noteq> key_in a (9 + 3 * i)) \<Longrightarrow> k \<noteq> key_in a 3 \<Longrightarrow> k \<noteq> key_in a 4 \<Longrightarrow>
       k \<noteq> key_in a 5 \<Longrightarrow> L' k = L k"
proof -
  obtain t pins L1 where t: "exchange_ticket vm program a data L = Inr t"
    and pins: "each_leg (open_leg a t L) [0..<tk_n t] = Inr pins"
    and moves: "move_legs vm a t (zip [0..<tk_n t] pins) L = (Inr (), L1)"
    and close: "exchange_close vm a data t L1 = (Inr u, L')"
    using run unfolding exchange_def by (auto simp: monad_simps dest!: sym [of "Inr _"])
  note F = exchange_ticket_facts [OF t]
  note keys = unique_keys [OF F(11)]
  have len: "length pins = tk_n t" and pin: "\<And>i. i < tk_n t \<Longrightarrow> open_leg a t L i = Inr (pins ! i)"
    using each_leg_nth [OF pins] by simp_all
  have "(\<forall>x \<in> set (zip [0..<tk_n t] pins). leg_moved a t (fst x) (snd x) L1)
    \<and> (\<forall>k. (\<forall>x \<in> set (zip [0..<tk_n t] pins). k \<noteq> key_in a (8 + 3 * fst x) \<and> k \<noteq> key_in a (9 + 3 * fst x)) \<longrightarrow> L1 k = L k)"
    by (rule move_legs_moved [OF ok moves F(11)]) (auto simp: len F(10) dest!: set_zip_leftD)
  then have moved: "\<And>i. i < tk_n t \<Longrightarrow> leg_moved a t i (pins ! i) L1"
    and frame: "\<And>k. (\<And>i. i < tk_n t \<Longrightarrow> k \<noteq> key_in a (8 + 3 * i) \<and> k \<noteq> key_in a (9 + 3 * i)) \<Longrightarrow> L1 k = L k"
    by (force simp: set_zip len)+
  have ne: "key_in a 3 \<noteq> key_in a 5" "key_in a 4 \<noteq> key_in a 5" using keys F(8,10) by simp_all
  note C = exchange_close_effect [OF ok close ne]
  have low: "key_in a j \<noteq> key_in a (8 + 3 * i) \<and> key_in a j \<noteq> key_in a (9 + 3 * i)" if "i < tk_n t" "j < 8" for i j
    using keys that F(10) by simp
  have same: "L' (key_in a (8 + 3 * i)) = L1 (key_in a (8 + 3 * i))" "L' (key_in a (9 + 3 * i)) = L1 (key_in a (9 + 3 * i))"
    if "i < tk_n t" for i using C(4) low [OF that] by (metis (no_types) numeral_less_iff semiring_norm(76,77,78,79,80,81))+
  have "leg_moved a t i (pins ! i) L'" if "i < tk_n t" for i
    using moved [OF that] same [OF that] by (simp add: leg_moved_def balance_def)
  moreover have "ac_data (L1 (key_in a 5)) = zeros V_RECEIPT"
  proof -
    have "L1 (key_in a 5) = L (key_in a 5)" using frame low by simp
    then show ?thesis using F(14,15) by (simp add: zeros_def acct_def replicate_eqI)
  qed
  ultimately show thesis using that [OF t] pin C(1,2,3,4) frame by metis
qed

lemma vault_process_exchange:
  "vault_process vm program a data L = (Inr u, L') \<Longrightarrow> data ! 0 \<noteq> 0 \<Longrightarrow> exchange vm program a data L = (Inr u, L')"
  by (cases data) (auto simp: vault_process_def split: if_splits)

lemma vault_process_initialize:
  "vault_process vm program a data L = (Inr u, L') \<Longrightarrow> data ! 0 = 0 \<Longrightarrow> initialize_basket vm program a data L = (Inr u, L')"
  by (cases data) (auto simp: vault_process_def)

section \<open>The configuration a basket is opened with\<close>

lemma length_put_leg [simp]:
  "V_HEADER + (i + 1) * V_LEG \<le> length cfg \<Longrightarrow> 35 + 8 * (i + 1) \<le> length data \<Longrightarrow> length (put_leg a data i cfg) = length cfg"
  by (simp add: put_leg_def Let_def V_HEADER_def V_LEG_def)

lemma slice_put_leg_other:
  assumes "V_HEADER + (i + 1) * V_LEG \<le> length cfg" "35 + 8 * (i + 1) \<le> length data"
    "q + n \<le> length cfg" "q + n \<le> V_HEADER + i * V_LEG \<or> V_HEADER + (i + 1) * V_LEG \<le> q"
  shows "byte_slice (put_leg a data i cfg) q n = byte_slice cfg q n"
proof (cases "q + n \<le> V_HEADER + i * V_LEG")
  case True
  then show ?thesis using assms(1,2,3) unfolding put_leg_def Let_def V_HEADER_def V_LEG_def by (simp add: slice_write_other)
next
  case False
  then have "V_HEADER + (i + 1) * V_LEG \<le> q" using assms(4) by simp
  then show ?thesis using assms(1,2,3) unfolding put_leg_def Let_def V_HEADER_def V_LEG_def by (simp add: slice_write_other)
qed

lemma slice_put_leg:
  assumes "V_HEADER + (i + 1) * V_LEG \<le> length cfg" "35 + 8 * (i + 1) \<le> length data"
  shows "byte_slice (put_leg a data i cfg) (V_HEADER + i * V_LEG) 32 = key_bytes (key_in a (5 + 2 * i))"
    "byte_slice (put_leg a data i cfg) (V_HEADER + i * V_LEG + 32) 32 = key_bytes (key_in a (6 + 2 * i))"
    "byte_slice (put_leg a data i cfg) (V_HEADER + i * V_LEG + 64) 8 = byte_slice data (35 + 8 * i) 8"
  using assms unfolding put_leg_def Let_def V_HEADER_def V_LEG_def
  by (simp_all add: slice_write_other slice_write_same)

lemma put_legs:
  assumes "V_HEADER + n * V_LEG \<le> length cfg" "35 + 8 * n \<le> length data"
  shows "length (fold (put_leg a data) [0..<n] cfg) = length cfg
    \<and> (\<forall>q m. q + m \<le> V_HEADER \<longrightarrow> byte_slice (fold (put_leg a data) [0..<n] cfg) q m = byte_slice cfg q m)
    \<and> (\<forall>i < n. byte_slice (fold (put_leg a data) [0..<n] cfg) (V_HEADER + i * V_LEG) 32 = key_bytes (key_in a (5 + 2 * i))
         \<and> byte_slice (fold (put_leg a data) [0..<n] cfg) (V_HEADER + i * V_LEG + 32) 32 = key_bytes (key_in a (6 + 2 * i))
         \<and> byte_slice (fold (put_leg a data) [0..<n] cfg) (V_HEADER + i * V_LEG + 64) 8 = byte_slice data (35 + 8 * i) 8)"
  using assms
proof (induction n)
  case (Suc n)
  let ?c = "fold (put_leg a data) [0..<n] cfg"
  have room: "V_HEADER + n * V_LEG \<le> length cfg" "35 + 8 * n \<le> length data" using Suc.prems by (simp_all add: V_LEG_def)
  note IH = Suc.IH [OF room]
  then have len: "length ?c = length cfg" by blast
  have fit: "V_HEADER + (n + 1) * V_LEG \<le> length ?c" "35 + 8 * (n + 1) \<le> length data" using Suc.prems by (simp_all add: len)
  have step: "fold (put_leg a data) [0..<Suc n] cfg = put_leg a data n ?c" by simp
  have old: "byte_slice (put_leg a data n ?c) q m = byte_slice ?c q m" if "q + m \<le> V_HEADER + n * V_LEG" for q m
    using that fit room len by (intro slice_put_leg_other) simp_all
  have inside: "V_HEADER + i * V_LEG + 72 \<le> V_HEADER + n * V_LEG" if "i < n" for i
    using mult_le_mono1 [of "i + 1" n V_LEG] that by (simp add: V_LEG_def)
  have head: "q + m \<le> V_HEADER + n * V_LEG" if "q + m \<le> V_HEADER" for q m using that by simp
  have leg: "byte_slice (put_leg a data n ?c) (V_HEADER + i * V_LEG) 32 = key_bytes (key_in a (5 + 2 * i))
      \<and> byte_slice (put_leg a data n ?c) (V_HEADER + i * V_LEG + 32) 32 = key_bytes (key_in a (6 + 2 * i))
      \<and> byte_slice (put_leg a data n ?c) (V_HEADER + i * V_LEG + 64) 8 = byte_slice data (35 + 8 * i) 8" if "i < Suc n" for i
  proof (cases "i = n")
    case True
    then show ?thesis using slice_put_leg [OF fit] by simp
  next
    case False
    then have i: "i < n" using that by simp
    then show ?thesis using old inside [OF i] IH by simp
  qed
  show ?case unfolding step using len length_put_leg [OF fit] old head IH leg by simp
qed simp

lemma put_config_fields:
  assumes "length cfg = V_HEADER + data ! 1 * V_LEG" "length data = 35 + 8 * data ! 1"
    and c_def: "c = put_config a data bump cfg"
  shows "length c = V_HEADER + data ! 1 * V_LEG" "byte_slice c 0 8 = V_MAGIC" "c ! 104 = bump" "c ! 105 = data ! 1" "c ! 106 = data ! 2" "c ! 107 = 1"
    "basket_share c = key_in a 3" "i < data ! 1 \<Longrightarrow> basket_vault c i = key_in a (6 + 2 * i)"
    "i < data ! 1 \<Longrightarrow> basket_units c i = from_le (byte_slice data (35 + 8 * i) 8)"
    "i < data ! 1 \<Longrightarrow> basket_mint c i = key_in a (5 + 2 * i)"
proof -
  define h where "h = write_at 104 [bump, data ! 1, data ! 2, 1]
       (write_at 72 (byte_slice data 3 32)
         (write_at 40 (key_bytes (key_in a 2)) (write_at 8 (key_bytes (key_in a 3)) (write_at 0 V_MAGIC cfg))))"
  have c_fold: "c = fold (put_leg a data) [0..<data ! 1] h" unfolding c_def put_config_def h_def ..
  have room: "112 \<le> length cfg" "length (byte_slice data 3 32) = 32" using assms(1,2) by (simp_all add: V_HEADER_def)
  then have h: "length h = length cfg" "byte_slice h 0 8 = V_MAGIC" "byte_slice h 8 32 = key_bytes (key_in a 3)"
    "byte_slice h 104 4 = [bump, data ! 1, data ! 2, 1]"
    unfolding h_def by (simp_all add: slice_write_other slice_write_same V_MAGIC_def)
  note legs = put_legs [of "data ! 1" h data a, folded c_fold]
  have fit: "V_HEADER + data ! 1 * V_LEG \<le> length h" "35 + 8 * data ! 1 \<le> length data" using assms(1,2) h(1) by simp_all
  have L: "length c = length h" "\<And>q m. q + m \<le> V_HEADER \<Longrightarrow> byte_slice c q m = byte_slice h q m"
    "\<And>i. i < data ! 1 \<Longrightarrow> byte_slice c (V_HEADER + i * V_LEG) 32 = key_bytes (key_in a (5 + 2 * i))"
    "\<And>i. i < data ! 1 \<Longrightarrow> byte_slice c (V_HEADER + i * V_LEG + 32) 32 = key_bytes (key_in a (6 + 2 * i))"
    "\<And>i. i < data ! 1 \<Longrightarrow> byte_slice c (V_HEADER + i * V_LEG + 64) 8 = byte_slice data (35 + 8 * i) 8"
    using legs [OF fit] by simp_all
  show len: "length c = V_HEADER + data ! 1 * V_LEG" using L(1) h(1) assms(1) by simp
  show "byte_slice c 0 8 = V_MAGIC" using L(2) [of 0 8] h(2) by (simp add: V_HEADER_def)
  have four: "byte_slice c 104 4 = [bump, data ! 1, data ! 2, 1]" using L(2) [of 104 4] h(4) by (simp add: V_HEADER_def)
  have at: "c ! (104 + j) = [bump, data ! 1, data ! 2, 1] ! j" if "j < 4" for j
    using nth_byte_slice [of 104 4 c j] that len four by (simp add: V_HEADER_def)
  show "c ! 104 = bump" "c ! 105 = data ! 1" "c ! 106 = data ! 2" "c ! 107 = 1"
    using at [of 0] at [of 1] at [of 2] at [of 3] by simp_all
  show "basket_share c = key_in a 3"
    using L(2) [of 8 32] h(3) by (simp add: basket_share_def V_HEADER_def)
  show "i < data ! 1 \<Longrightarrow> basket_vault c i = key_in a (6 + 2 * i)" using L(4) by (simp add: basket_vault_def)
  show "i < data ! 1 \<Longrightarrow> basket_mint c i = key_in a (5 + 2 * i)" using L(3) by (simp add: basket_mint_def)
  show "i < data ! 1 \<Longrightarrow> basket_units c i = from_le (byte_slice data (35 + 8 * i) 8)" using L(5) by (simp add: basket_units_def)
qed

lemma initialize_effect:
  assumes "initialize_basket vm program a data L = (Inr u, L')"
  obtains bump where "L' = set_data (key_in a 0) (put_config a data bump (ac_data (acct L a 0))) L"
    "length data = 35 + 8 * data ! 1" "2 \<le> data ! 1" "data ! 1 \<le> 16" "length a = 5 + 2 * data ! 1" "distinct (map am_key a)"
    "ac_owner (acct L a 0) = program" "length (ac_data (acct L a 0)) = V_HEADER + data ! 1 * V_LEG" "\<forall>x \<in> set (ac_data (acct L a 0)). x = 0"
    "supply_at L (key_in a 3) = 0" "\<And>i. i < data ! 1 \<Longrightarrow> balance L (key_in a (6 + 2 * i)) = 0 \<and> 0 < from_le (byte_slice data (35 + 8 * i) 8)"
proof -
  obtain bump where checks: "init_checks vm program a data L = Inr bump"
    and L': "L' = set_data (key_in a 0) (put_config a data bump (ac_data (acct L a 0))) L"
    using assms unfolding initialize_basket_def by (auto simp: monad_simps acct_def dest!: sym [of "Inr _"])
  note run = checks [unfolded init_checks_def Let_def vault_readers]
  obtain authority xs where legs: "each_leg (init_leg a data authority L) [0..<data ! 1] = Inr xs"
    using run by (auto simp: vault_readers split: prod.splits)
  then have leg: "\<exists>x. init_leg a data authority L i = Inr x" if "i < data ! 1" for i
    using each_leg_nth that by fastforce
  have "balance L (key_in a (6 + 2 * i)) = 0 \<and> 0 < from_le (byte_slice data (35 + 8 * i) 8)" if "i < data ! 1" for i
    using leg [OF that] unfolding init_leg_def Let_def by (auto simp: vault_readers dest!: token_of_Inr split: if_splits)
  moreover have "ac_owner (acct L a 0) = program \<and> length (ac_data (acct L a 0)) = V_HEADER + data ! 1 * V_LEG \<and> (\<forall>x \<in> set (ac_data (acct L a 0)). x = 0)"
    using run by (auto simp: vault_readers acct_def dest!: zero_account_Inr split: prod.splits)
  moreover have "supply_at L (key_in a 3) = 0"
    using run by (auto simp: vault_readers dest!: share_mint_Inr split: prod.splits)
  moreover have "distinct (map am_key a)" using run by (auto simp: vault_readers dest!: unique_accounts_Inr split: prod.splits)
  ultimately show thesis using that [OF L'] run by (auto simp: vault_readers)
qed

end
