(* ===== verification/Basket.thy ===== *)
theory Basket
  imports Vault
begin

text \<open>
  What the basket vault program guarantees: exact changes of every balance it touches, shares backed in
  kind at every reachable ledger, and a receipt account that works once. The runtime is any that keeps
  \<open>runtime_ok\<close>; the token program is not trusted, the program checks what it did.
\<close>

section \<open>Exact changes\<close>

text \<open>What an exchange does to the constituent \<open>i\<close>.\<close>

definition leg_exact :: "account_ref list \<Rightarrow> nat list \<Rightarrow> bool \<Rightarrow> nat \<Rightarrow> ledger \<Rightarrow> ledger \<Rightarrow> nat \<Rightarrow> bool" where
  "leg_exact a cfg issue shares L L' i \<longleftrightarrow>
     (let v = basket_vault cfg i; w = key_in a (8 + 3 * i); amount = shares * basket_units cfg i
      in if issue then balance L' v = balance L v + amount \<and> balance L' w + amount = balance L w
         else balance L' v + amount = balance L v \<and> balance L' w = balance L w + amount)"

lemma leg_exactI:
  assumes "exchange_ticket vm program a data L = Inr t" "open_leg a t L i = Inr pin" "leg_moved a t i pin L'"
  shows "leg_exact a (tk_cfg t) (tk_issue t) (tk_shares t) L L' i"
    "tk_target t * basket_units (tk_cfg t) i \<le> balance L' (basket_vault (tk_cfg t) i)"
proof -
  note P = open_leg_facts [OF assms(2)] and F = exchange_ticket_facts(20) [OF assms(1)]
  show "leg_exact a (tk_cfg t) (tk_issue t) (tk_shares t) L L' i"
    using assms(3) P(1-4) by (auto simp: leg_exact_def leg_moved_def Let_def split: if_splits)
  have sum: "(if tk_issue t then balance L' (basket_vault (tk_cfg t) i) = lp_before pin + tk_shares t * lp_units pin
      else balance L' (basket_vault (tk_cfg t) i) + tk_shares t * lp_units pin = lp_before pin)"
    using assms(3) P(1) by (simp add: leg_moved_def Let_def split: if_splits)
  show "tk_target t * basket_units (tk_cfg t) i \<le> balance L' (basket_vault (tk_cfg t) i)"
  proof (cases "tk_issue t")
    case True
    then have "tk_target t = tk_supply t + tk_shares t" using F by simp
    then show ?thesis using sum True P(2,5) by (simp add: distrib_right)
  next
    case False
    then have t: "tk_supply t = tk_target t + tk_shares t" using F by simp
    have "tk_target t * lp_units pin + tk_shares t * lp_units pin \<le> lp_before pin" using P(5) unfolding t distrib_right .
    then show ?thesis using sum False P(2) by simp
  qed
qed

lemma exchange_exact:
  assumes "runtime_ok program vm" "exchange vm program a data L = (Inr (), L')"
    and cfg: "cfg = ac_data (acct L a 0)" and shares: "shares = from_le (byte_slice data 1 8)"
  shows "i < cfg ! 105 \<Longrightarrow> leg_exact a cfg (data ! 0 = 1) shares L L' i"
    "i < cfg ! 105 \<Longrightarrow> supply_at L' (basket_share cfg) * basket_units cfg i \<le> balance L' (basket_vault cfg i)"
    "if data ! 0 = 1 then supply_at L' (basket_share cfg) = supply_at L (basket_share cfg) + shares \<and> balance L' (key_in a 4) = balance L (key_in a 4) + shares
     else supply_at L' (basket_share cfg) + shares = supply_at L (basket_share cfg) \<and> balance L' (key_in a 4) + shares = balance L (key_in a 4)"
    "acct L' a 0 = acct L a 0"
    "k \<notin> {basket_share cfg, key_in a 4, key_in a 5} \<Longrightarrow> (\<forall>i < cfg ! 105. k \<noteq> basket_vault cfg i \<and> k \<noteq> key_in a (8 + 3 * i)) \<Longrightarrow> L' k = L k"
proof -
  obtain t where t: "exchange_ticket vm program a data L = Inr t"
    and legs: "\<And>i. i < tk_n t \<Longrightarrow> \<exists>pin. open_leg a t L i = Inr pin \<and> leg_moved a t i pin L'"
    and minted: "supply_at L' (key_in a 3) = tk_target t"
    and owned: "if tk_issue t then balance L' (key_in a 4) = tk_owned t + tk_shares t
     else tk_shares t \<le> tk_owned t \<and> balance L' (key_in a 4) = tk_owned t - tk_shares t"
    and frame: "\<And>k. (\<And>i. i < tk_n t \<Longrightarrow> k \<noteq> key_in a (8 + 3 * i) \<and> k \<noteq> key_in a (9 + 3 * i)) \<Longrightarrow> k \<noteq> key_in a 3 \<Longrightarrow>
      k \<noteq> key_in a 4 \<Longrightarrow> k \<noteq> key_in a 5 \<Longrightarrow> L' k = L k"
    by (rule exchange_effect [OF assms(1,2)]) blast
  note F = exchange_ticket_facts [OF t]
  have f: "cfg = tk_cfg t" "shares = tk_shares t" "(data ! 0 = 1) = tk_issue t" using F(2,4,5) cfg shares by simp_all
  have vault: "key_in a (9 + 3 * i) = basket_vault cfg i" if "i < cfg ! 105" for i
    using legs that open_leg_facts(1) unfolding f by blast
  have each: "leg_exact a cfg (data ! 0 = 1) shares L L' i \<and> tk_target t * basket_units cfg i \<le> balance L' (basket_vault cfg i)"
    if "i < cfg ! 105" for i
    using legs [OF that [unfolded f]] leg_exactI [OF t] unfolding f by blast
  show "i < cfg ! 105 \<Longrightarrow> leg_exact a cfg (data ! 0 = 1) shares L L' i" using each by blast
  show "i < cfg ! 105 \<Longrightarrow> supply_at L' (basket_share cfg) * basket_units cfg i \<le> balance L' (basket_vault cfg i)"
    using each minted F(12) f(1) by simp
  show "if data ! 0 = 1 then supply_at L' (basket_share cfg) = supply_at L (basket_share cfg) + shares \<and> balance L' (key_in a 4) = balance L (key_in a 4) + shares
     else supply_at L' (basket_share cfg) + shares = supply_at L (basket_share cfg) \<and> balance L' (key_in a 4) + shares = balance L (key_in a 4)"
    using minted owned F(12,16,19,20) unfolding f by (simp split: if_splits)
  show "acct L' a 0 = acct L a 0"
    unfolding acct_def using unique_keys [OF F(11)] F(8,10) by (intro frame) simp_all
  show "L' k = L k" if "k \<notin> {basket_share cfg, key_in a 4, key_in a 5}" "\<forall>i < cfg ! 105. k \<noteq> basket_vault cfg i \<and> k \<noteq> key_in a (8 + 3 * i)"
    using that vault F(12) by (intro frame) (simp_all add: f)
qed

text \<open>
  \<^bold>\<open>C32.\<close> A mint or redemption that succeeds changes each vault by exactly \<open>shares * units\<close> and the user's
  token account by the opposite, the share supply and the user's shares by exactly \<open>shares\<close>, and nothing
  else but the receipt; every vault then covers the new supply. This holds for any token program, the
  runtime confining each call to the accounts it may write.
\<close>

theorem basket_exchange_exact:
  assumes "runtime_ok program vm" "vault_process vm program a data L = (Inr (), L')" "data ! 0 \<noteq> 0"
  shows "let cfg = ac_data (acct L a 0); shares = from_le (byte_slice data 1 8); issue = (data ! 0 = 1); s = basket_share cfg; w = key_in a 4
    in (\<forall>i < cfg ! 105. leg_exact a cfg issue shares L L' i \<and> supply_at L' s * basket_units cfg i \<le> balance L' (basket_vault cfg i))
     \<and> (if issue then supply_at L' s = supply_at L s + shares \<and> balance L' w = balance L w + shares
        else supply_at L' s + shares = supply_at L s \<and> balance L' w + shares = balance L w)
     \<and> acct L' a 0 = acct L a 0
     \<and> (\<forall>k. k \<notin> {s, w, key_in a 5} \<longrightarrow> (\<forall>i < cfg ! 105. k \<noteq> basket_vault cfg i \<and> k \<noteq> key_in a (8 + 3 * i)) \<longrightarrow> L' k = L k)"
  unfolding Let_def using exchange_exact [OF assms(1) vault_process_exchange [OF assms(2,3)]] by simp

section \<open>Backing\<close>

text \<open>
  What the rest of the world does to a basket between two of its instructions: the vaults' and the share
  mint's authority is an address only this program signs for, so vault balances do not fall and no share is
  issued; the configuration belongs to the program.
\<close>

definition outside_step :: "key \<Rightarrow> ledger \<Rightarrow> ledger \<Rightarrow> bool" where
  "outside_step c L L' \<longleftrightarrow>
     (let cfg = ac_data (L c)
      in ac_data (L' c) = cfg \<and> supply_at L' (basket_share cfg) \<le> supply_at L (basket_share cfg)
         \<and> (\<forall>i < cfg ! 105. balance L (basket_vault cfg i) \<le> balance L' (basket_vault cfg i)))"

text \<open>The ledgers of a basket with configuration account \<open>c\<close>: opened, then any instructions on it and outside steps.\<close>

inductive basket :: "vm \<Rightarrow> key \<Rightarrow> key \<Rightarrow> ledger \<Rightarrow> bool" for vm program c where
  opened: "vault_process vm program a data L = (Inr (), L') \<Longrightarrow> data ! 0 = 0 \<Longrightarrow> key_in a 0 = c \<Longrightarrow> basket vm program c L'"
| used: "basket vm program c L \<Longrightarrow> vault_process vm program a data L = (Inr (), L') \<Longrightarrow> key_in a 0 = c \<Longrightarrow> basket vm program c L'"
| outside: "basket vm program c L \<Longrightarrow> outside_step c L L' \<Longrightarrow> basket vm program c L'"

definition backed :: "key \<Rightarrow> ledger \<Rightarrow> bool" where
  "backed c L \<longleftrightarrow>
     (let cfg = ac_data (L c)
      in \<forall>i < cfg ! 105. supply_at L (basket_share cfg) * basket_units cfg i \<le> balance L (basket_vault cfg i))"

definition basket_open :: "key \<Rightarrow> ledger \<Rightarrow> bool" where
  "basket_open c L \<longleftrightarrow>
     (let cfg = ac_data (L c)
      in byte_slice cfg 0 8 = V_MAGIC \<and> length cfg = V_HEADER + cfg ! 105 * V_LEG \<and> 2 \<le> cfg ! 105 \<and> cfg ! 105 \<le> 16)"

lemma initialize_opens:
  assumes "initialize_basket vm program a data L = (Inr u, L')" "key_in a 0 = c"
  shows "basket_open c L' \<and> backed c L'"
proof -
  obtain bump where L': "L' = set_data (key_in a 0) (put_config a data bump (ac_data (acct L a 0))) L"
    and len: "length data = 35 + 8 * data ! 1" "2 \<le> data ! 1" "data ! 1 \<le> 16" "length a = 5 + 2 * data ! 1" "distinct (map am_key a)"
    "length (ac_data (acct L a 0)) = V_HEADER + data ! 1 * V_LEG"
    and start: "supply_at L (key_in a 3) = 0"
    "\<And>i. i < data ! 1 \<Longrightarrow> balance L (key_in a (6 + 2 * i)) = 0 \<and> 0 < from_le (byte_slice data (35 + 8 * i) 8)"
    using initialize_effect [OF assms(1)] by metis
  note C = put_config_fields [OF len(6) len(1) refl, where a = a and bump = bump]
  have cfg: "ac_data (L' c) = put_config a data bump (ac_data (acct L a 0))" using assms(2) L' by simp
  have "key_in a 3 \<noteq> key_in a 0" using unique_keys [OF len(5)] len(2,4) by simp
  then have "supply_at L' (key_in a 3) = 0" using start(1) by (simp add: L' supply_at_def)
  then have "backed c L'" by (simp add: backed_def cfg C(7))
  moreover have "basket_open c L'" unfolding basket_open_def cfg Let_def C(4) using C(1,2) len(2,3) by simp
  ultimately show ?thesis by blast
qed

lemma live_not_empty: "basket_open c L \<Longrightarrow> \<exists>x \<in> set (ac_data (L c)). x \<noteq> 0"
proof -
  assume "basket_open c L"
  then have b: "byte_slice (ac_data (L c)) 0 8 = V_MAGIC" "0 + 8 \<le> length (ac_data (L c))"
    by (auto simp: basket_open_def Let_def V_HEADER_def)
  have "ac_data (L c) ! (0 + 0) = byte_slice (ac_data (L c)) 0 8 ! 0" by (rule nth_byte_slice [OF b(2), symmetric]) simp
  then have first: "ac_data (L c) ! 0 = 88" by (simp only: b(1) V_MAGIC_def add_0 nth_Cons_0)
  have "0 < length (ac_data (L c))" using b(2) by linarith
  then have "ac_data (L c) ! 0 \<in> set (ac_data (L c))" by (rule nth_mem)
  then show ?thesis unfolding first by (metis zero_neq_numeral)
qed

lemma used_keeps:
  assumes "runtime_ok program vm" "vault_process vm program a data L = (Inr (), L')" "key_in a 0 = c" "basket_open c L"
  shows "basket_open c L' \<and> backed c L'"
proof (cases "data ! 0 = 0")
  case True
  then have "initialize_basket vm program a data L = (Inr (), L')" using vault_process_initialize assms(2) by blast
  then have "\<forall>x \<in> set (ac_data (acct L a 0)). x = 0" by (rule initialize_effect) blast
  then show ?thesis using live_not_empty [OF assms(4)] assms(3) by (auto simp: acct_def)
next
  case False
  note E = exchange_exact [OF assms(1) vault_process_exchange [OF assms(2) False] refl refl]
  have "ac_data (L' c) = ac_data (L c)" using E(4) assms(3) by (simp add: acct_def)
  then show ?thesis using assms(4) E(2) assms(3) by (simp add: backed_def basket_open_def acct_def)
qed

lemma outside_keeps:
  assumes "outside_step c L L'" "basket_open c L" "backed c L"
  shows "basket_open c L' \<and> backed c L'"
proof -
  let ?cfg = "ac_data (L c)"
  have same: "ac_data (L' c) = ?cfg" "supply_at L' (basket_share ?cfg) \<le> supply_at L (basket_share ?cfg)"
    "\<And>i. i < ?cfg ! 105 \<Longrightarrow> balance L (basket_vault ?cfg i) \<le> balance L' (basket_vault ?cfg i)"
    using assms(1) unfolding outside_step_def Let_def by auto
  have "supply_at L' (basket_share ?cfg) * basket_units ?cfg i \<le> balance L' (basket_vault ?cfg i)" if "i < ?cfg ! 105" for i
  proof -
    have "supply_at L' (basket_share ?cfg) * basket_units ?cfg i \<le> supply_at L (basket_share ?cfg) * basket_units ?cfg i"
      using same(2) by (rule mult_le_mono1)
    also have "\<dots> \<le> balance L (basket_vault ?cfg i)" using assms(3) that by (simp add: backed_def Let_def)
    also have "\<dots> \<le> balance L' (basket_vault ?cfg i)" by (rule same(3) [OF that])
    finally show ?thesis .
  qed
  then show ?thesis using assms(2) by (simp add: backed_def basket_open_def same(1) Let_def)
qed

lemma basket_live:
  assumes "runtime_ok program vm" "basket vm program c L"
  shows "basket_open c L \<and> backed c L"
  using assms(2)
proof (induction rule: basket.induct)
  case (opened data a L L')
  then show ?case using initialize_opens vault_process_initialize by blast
next
  case (used L data a L')
  then show ?case using used_keeps [OF assms(1)] by blast
next
  case (outside L L')
  then show ?case using outside_keeps by blast
qed

lemma not_insolvent [simp]:
  "needP ok (Suc 0) \<noteq> Inl (Prog (Custom 4))" "prog_or m (Suc 0) \<noteq> Inl (Prog (Custom 4))"
  "needP ok 1 \<noteq> Inl (Prog (Custom 4))" "needP ok 2 \<noteq> Inl (Prog (Custom 4))" "prog_or m 1 \<noteq> Inl (Prog (Custom 4))"
  "vmul x y \<noteq> Inl (Prog (Custom 4))" "u64_in d p \<noteq> Inl (Prog (Custom 4))" "key_inside d p \<noteq> Inl (Prog (Custom 4))"
  by (auto simp: needP_def prog_or_def vmul_def u64_in_def key_inside_def monad_simps)

lemma readers_not_insolvent [simp]:
  "mint_of r L \<noteq> Inl (Prog (Custom 4))" "token_of r mint owner L \<noteq> Inl (Prog (Custom 4))"
  unfolding mint_of_def token_of_def Let_def by (auto simp: bindR_Inl split: if_splits)

lemma open_leg_solvent:
  assumes "runtime_ok program vm" "basket vm program c L" "exchange_ticket vm program a data L = Inr t" "key_in a 0 = c" "i < tk_n t"
  shows "open_leg a t L i \<noteq> Inl (Prog (Custom 4))"
proof
  assume "open_leg a t L i = Inl (Prog (Custom 4))"
  then have short: "key_in a (9 + 3 * i) = basket_vault (tk_cfg t) i \<and>
      \<not> tk_supply t * basket_units (tk_cfg t) i \<le> balance L (key_in a (9 + 3 * i))"
    unfolding open_leg_def Let_def
    by (auto simp: bindR_Inl vault_readers needP_def basket_vault_def basket_units_def dest!: token_of_Inr split: if_splits)
  note F = exchange_ticket_facts [OF assms(3)]
  have "tk_cfg t = ac_data (L c)" using F(5) assms(4) by (simp add: acct_def)
  moreover have "tk_supply t = supply_at L (basket_share (tk_cfg t))" using F(12,16) by simp
  ultimately show False using basket_live [OF assms(1,2)] short assms(5) unfolding backed_def Let_def by metis
qed

text \<open>
  \<^bold>\<open>C33.\<close> At every reachable ledger of an opened basket the configuration is intact and each vault holds at
  least \<open>supply * units\<close>, so the insolvency check of a later mint or redemption never fails.
\<close>

theorem basket_backed:
  assumes "runtime_ok program vm" "basket vm program c L"
  shows "let cfg = ac_data (L c); s = supply_at L (basket_share cfg)
    in byte_slice cfg 0 8 = V_MAGIC \<and> (\<forall>i < cfg ! 105. s * basket_units cfg i \<le> balance L (basket_vault cfg i))
     \<and> (\<forall>a data t i. key_in a 0 = c \<longrightarrow> exchange_ticket vm program a data L = Inr t \<longrightarrow> i < tk_n t \<longrightarrow>
          open_leg a t L i \<noteq> Inl (Prog (Custom 4)))"
  unfolding Let_def using basket_live [OF assms] open_leg_solvent [OF assms] by (simp add: basket_open_def backed_def Let_def)

section \<open>Receipts\<close>

lemma put_receipt_bytes:
  assumes "length (tk_cfg t) \<ge> V_HEADER"
  shows "put_receipt a data t (zeros V_RECEIPT) =
    RECEIPT_TAG @ key_bytes (key_in a 0) @ key_bytes (key_in a 2) @ byte_slice (tk_cfg t) 72 32 @ [data ! 0] @ zeros 7
      @ to_le 8 (tk_shares t) @ to_le 8 (tk_target t)"
proof -
  have len: "length (byte_slice (tk_cfg t) 72 32) = 32" using assms by (simp add: V_HEADER_def)
  show ?thesis
    by (simp add: put_receipt_def write_at_def len zeros_def V_RECEIPT_def RECEIPT_TAG_def)
qed

lemma spent_receipt_refused:
  assumes "ac_data (acct L a 5) \<noteq> []" "ac_data (acct L a 5) ! 0 \<noteq> 0" "data ! 0 \<noteq> 0"
  shows "\<exists>e. vault_process vm program a data L = (Inl e, L)"
proof (cases "exchange_ticket vm program a data L")
  case (Inl e)
  then have "exchange vm program a data L = (Inl e, L)" by (simp add: exchange_def bindS_def readL_def)
  then show ?thesis using assms(3) by (cases data) (auto simp: vault_process_def liftR_def)
next
  case (Inr t)
  then have "\<forall>x \<in> set (ac_data (acct L a 5)). x = 0" by (rule exchange_ticket_facts(15))
  then show ?thesis using assms(1,2) by (metis length_greater_0_conv nth_mem)
qed

text \<open>
  \<^bold>\<open>C34.\<close> A successful mint or redemption leaves in its receipt account the basket, the user, the rights hash,
  the operation, the shares and the new supply; while the account keeps those bytes no exchange naming it
  succeeds again, and a refused one changes nothing.
\<close>

theorem basket_receipt_once:
  assumes "runtime_ok program vm" "vault_process vm program a data L = (Inr (), L')" "data ! 0 \<noteq> 0"
    and "ac_data (later (key_in a 5)) = ac_data (L' (key_in a 5))" "key_in a' 5 = key_in a 5" "data' ! 0 \<noteq> 0"
  shows "(\<exists>e. vault_process vm' program' a' data' later = (Inl e, later))
    \<and> ac_data (L' (key_in a 5)) =
        RECEIPT_TAG @ key_bytes (key_in a 0) @ key_bytes (key_in a 2) @ byte_slice (ac_data (acct L a 0)) 72 32 @ [data ! 0] @ zeros 7
        @ to_le 8 (from_le (byte_slice data 1 8)) @ to_le 8 (supply_at L' (key_in a 3))"
proof -
  obtain t where t: "exchange_ticket vm program a data L = Inr t" and minted: "supply_at L' (key_in a 3) = tk_target t"
    and receipt: "ac_data (L' (key_in a 5)) = put_receipt a data t (zeros V_RECEIPT)"
    by (rule exchange_effect [OF assms(1) vault_process_exchange [OF assms(2,3)]]) blast
  note F = exchange_ticket_facts [OF t]
  have data: "ac_data (L' (key_in a 5)) =
      RECEIPT_TAG @ key_bytes (key_in a 0) @ key_bytes (key_in a 2) @ byte_slice (ac_data (acct L a 0)) 72 32 @ [data ! 0] @ zeros 7
        @ to_le 8 (from_le (byte_slice data 1 8)) @ to_le 8 (supply_at L' (key_in a 3))"
    unfolding receipt minted F(2) [symmetric] F(5) [symmetric] using F(7) by (intro put_receipt_bytes) simp
  then have "ac_data (acct later a' 5) \<noteq> []" "ac_data (acct later a' 5) ! 0 = 88"
    unfolding acct_def assms(4,5) by (simp_all add: RECEIPT_TAG_def)
  then have "\<exists>e. vault_process vm' program' a' data' later = (Inl e, later)" using assms(6) by (intro spent_receipt_refused) simp_all
  then show ?thesis using data by simp
qed

section \<open>A basket of two tokens\<close>

text \<open>Accounts as the token program lays them out, and its transfer, mint and burn.\<close>

definition token_bytes :: "key \<Rightarrow> key \<Rightarrow> nat \<Rightarrow> nat list" where
  "token_bytes m w v = key_bytes m @ key_bytes w @ to_le 8 v @ zeros 36 @ [1] @ zeros 56"

definition mint_bytes :: "key \<Rightarrow> nat \<Rightarrow> nat \<Rightarrow> nat list" where
  "mint_bytes authority s d = [1, 0, 0, 0] @ key_bytes authority @ to_le 8 s @ [d, 1] @ zeros 36"

definition held_by :: "key \<Rightarrow> nat list \<Rightarrow> account" where
  "held_by owner bs = \<lparr>ac_owner = owner, ac_data = bs, ac_lamports = 9, ac_executable = False\<rparr>"

lemma held_by_simps [simp]: "ac_owner (held_by w bs) = w" "ac_data (held_by w bs) = bs" "ac_lamports (held_by w bs) = 9" "\<not> ac_executable (held_by w bs)"
  "(held_by w bs)\<lparr>ac_data := cs\<rparr> = held_by w cs"
  by (simp_all add: held_by_def)

lemma token_bytes_fields:
  "length (token_bytes m w v) = 165" "byte_slice (token_bytes m w v) 0 32 = key_bytes m" "byte_slice (token_bytes m w v) 32 32 = key_bytes w"
  "byte_slice (token_bytes m w v) 64 8 = to_le 8 v" "token_bytes m w v ! 108 = 1" "byte_slice (token_bytes m w v) 72 4 = zeros 4"
  "byte_slice (token_bytes m w v) 109 4 = zeros 4" "byte_slice (token_bytes m w v) 129 4 = zeros 4"
  "write_at 64 (to_le 8 x) (token_bytes m w v) = token_bytes m w x"
  by (simp_all add: token_bytes_def byte_slice_def zeros_def nth_append write_at_def min_def)

lemma mint_bytes_fields:
  "length (mint_bytes k s d) = 82" "byte_slice (mint_bytes k s d) 0 4 = [1, 0, 0, 0]" "byte_slice (mint_bytes k s d) 4 32 = key_bytes k"
  "byte_slice (mint_bytes k s d) 36 8 = to_le 8 s" "mint_bytes k s d ! 44 = d" "mint_bytes k s d ! 45 = 1" "byte_slice (mint_bytes k s d) 46 4 = zeros 4"
  "write_at 36 (to_le 8 x) (mint_bytes k s d) = mint_bytes k x d"
  by (simp_all add: mint_bytes_def byte_slice_def zeros_def nth_append write_at_def min_def)

lemma from_le_8: "v < 2 ^ 64 \<Longrightarrow> from_le (to_le 8 v) = v"
  unfolding from_le_to_le by simp

lemma key_inside_ok: "p + 32 \<le> length d \<Longrightarrow> key_inside d p = Inr (key_of (byte_slice d p 32))"
  by (simp add: key_inside_Inr)

lemma u64_in_ok: "p + 8 \<le> length d \<Longrightarrow> u64_in d p = Inr (from_le (byte_slice d p 8))"
  by (simp add: u64_in_Inr)

lemma vmul_ok: "x * y < 2 ^ 64 \<Longrightarrow> vmul x y = Inr (x * y)"
  by (simp add: vmul_Inr)

lemmas vault_run = needP_simps key_inside_ok u64_in_ok vmul_ok

lemma token_of_held:
  "L (am_key r) = held_by TOKEN (token_bytes m w v) \<Longrightarrow> am_writable r \<Longrightarrow> v < 2 ^ 64 \<Longrightarrow> token_of r m w L = Inr v"
  unfolding token_of_def Let_def
  by (simp add: vault_run token_bytes_fields from_le_8)

lemma mint_of_held: "L (am_key r) = held_by TOKEN (mint_bytes k s d) \<Longrightarrow> s < 2 ^ 64 \<Longrightarrow> mint_of r L = Inr (s, d)"
  unfolding mint_of_def Let_def by (simp add: vault_run mint_bytes_fields from_le_8)

lemma share_mint_held: "L (am_key r) = held_by TOKEN (mint_bytes k s d) \<Longrightarrow> s < 2 ^ 64 \<Longrightarrow> share_mint r k d L = Inr s"
  unfolding share_mint_def Let_def by (simp add: vault_run mint_bytes_fields mint_of_held)

lemma zero_account_held:
  "L (am_key r) = held_by w (zeros n) \<Longrightarrow> am_writable r \<Longrightarrow> am_signer r \<Longrightarrow> vm_minimum_balance vm n \<le> 9 \<Longrightarrow> zero_account vm r w n L = Inr ()"
  unfolding zero_account_def Let_def by (simp add: vault_run zeros_def list_all_iff)

definition put_u64 :: "nat \<Rightarrow> key \<Rightarrow> nat \<Rightarrow> ledger \<Rightarrow> ledger" where
  "put_u64 p k v L = set_data k (write_at p (to_le 8 v) (ac_data (L k))) L"

definition spl :: "instruction \<Rightarrow> ledger \<Rightarrow> ledger res" where
  "spl ix L =
     (let k = (\<lambda>i. am_key (ix_accounts ix ! i)); v = from_le (byte_slice (ix_data ix) 1 8); op = hd (ix_data ix)
      in if op = 12
         then if v \<le> balance L (k 0)
              then let L1 = put_u64 64 (k 0) (balance L (k 0) - v) L in Inr (put_u64 64 (k 2) (balance L1 (k 2) + v) L1)
              else Inl (Prog (Rejected 1))
         else if op = 14
         then Inr (put_u64 64 (k 1) (balance L (k 1) + v) (put_u64 36 (k 0) (supply_at L (k 0) + v) L))
         else if op = 15 \<and> v \<le> balance L (k 0)
         then Inr (put_u64 36 (k 1) (supply_at L (k 1) - v) (put_u64 64 (k 0) (balance L (k 0) - v) L))
         else Inl (Prog (Rejected 1)))"

text \<open>The runtime lets the token program change its own accounts, where the call names them writable.\<close>

definition confined :: "cpi \<Rightarrow> ledger \<Rightarrow> ledger \<Rightarrow> ledger" where
  "confined c L L1 = (\<lambda>k. if k \<in> cpi_writable c \<and> ac_owner (L k) = TOKEN then L1 k else L k)"

definition spl_invoke :: "cpi \<Rightarrow> nat list list list \<Rightarrow> ledger \<Rightarrow> ledger res" where
  "spl_invoke c seeds L = (case c of Call ix \<Rightarrow> bindR (spl ix L) (\<lambda>L1. Inr (confined c L L1)) | _ \<Rightarrow> Inr L)"

definition demo_vm :: vm where
  "demo_vm = \<lparr>vm_invoke = spl_invoke, vm_find = \<lambda>_ _. (2, 255), vm_create = \<lambda>_ _. Some 2, vm_minimum_balance = \<lambda>n. 7,
     vm_slot = 0, vm_time = 0, vm_system = 0\<rparr>"

lemma demo_vm_ok: "program \<noteq> TOKEN \<Longrightarrow> runtime_ok program demo_vm"
  by (auto simp: runtime_ok_def demo_vm_def spl_invoke_def confined_def monad_simps split: cpi.splits)

text \<open>Share mint 4 and user 3 with shares in 5; mints 11 and 12, the user's tokens in 13 and 14, the vaults 15 and 16.\<close>

definition demo_ledger :: "nat list \<Rightarrow> nat list \<Rightarrow> nat \<Rightarrow> nat \<Rightarrow> nat \<Rightarrow> nat \<Rightarrow> nat \<Rightarrow> nat \<Rightarrow> ledger" where
  "demo_ledger cfg rcpt s w u1 v1 u2 v2 =
     (\<lambda>_. (held_by TOKEN [])\<lparr>ac_executable := True\<rparr>)
       (1 := held_by 9 cfg, 4 := held_by TOKEN (mint_bytes 2 s 6), 5 := held_by TOKEN (token_bytes 4 3 w), 6 := held_by 9 rcpt,
        11 := held_by TOKEN (mint_bytes 7 500 6), 13 := held_by TOKEN (token_bytes 11 3 u1), 15 := held_by TOKEN (token_bytes 11 2 v1),
        12 := held_by TOKEN (mint_bytes 7 500 8), 14 := held_by TOKEN (token_bytes 12 3 u2), 16 := held_by TOKEN (token_bytes 12 2 v2))"

abbreviation wr :: "key \<Rightarrow> account_ref" where "wr k \<equiv> \<lparr>am_key = k, am_signer = False, am_writable = True\<rparr>"
abbreviation ro :: "key \<Rightarrow> account_ref" where "ro k \<equiv> \<lparr>am_key = k, am_signer = False, am_writable = False\<rparr>"
abbreviation sw :: "key \<Rightarrow> account_ref" where "sw k \<equiv> \<lparr>am_key = k, am_signer = True, am_writable = True\<rparr>"

definition open_accounts :: "account_ref list" where
  "open_accounts = [sw 1, ro 2, sw 3, ro 4, ro TOKEN, ro 11, wr 15, ro 12, wr 16]"

definition open_data :: "nat list" where
  "open_data = [0, 2, 6] @ replicate 32 7 @ to_le 8 10 @ to_le 8 3"

definition mint_accounts :: "account_ref list" where
  "mint_accounts = [ro 1, ro 2, sw 3, wr 4, wr 5, sw 6, ro TOKEN, ro 11, wr 13, wr 15, ro 12, wr 14, wr 16]"

definition mint_data :: "nat list" where
  "mint_data = 1 # to_le 8 5"

definition demo_cfg :: "nat list" where
  "demo_cfg = put_config open_accounts open_data 255 (zeros 256)"

lemma open_lengths: "length open_data = 51" "length open_accounts = 9" "open_data ! 1 = 2" "open_data ! 2 = 6" "open_data ! 0 = 0"
  "byte_slice open_data 35 8 = to_le 8 10" "byte_slice open_data 43 8 = to_le 8 3" "byte_slice open_data 3 32 = replicate 32 7"
  by (simp_all add: open_data_def open_accounts_def byte_slice_def)

lemma key_nth_simps: "TOKEN \<noteq> 1" "TOKEN \<noteq> 2" "TOKEN \<noteq> 3" "TOKEN \<noteq> 4" "TOKEN \<noteq> 5" "TOKEN \<noteq> 6" "TOKEN \<noteq> 9" "TOKEN \<noteq> 11" "TOKEN \<noteq> 12" "TOKEN \<noteq> 13"
  "TOKEN \<noteq> 14" "TOKEN \<noteq> 15" "TOKEN \<noteq> 16"
  by (simp_all add: TOKEN_def)

lemma demo_lookup:
  "demo_ledger cfg rcpt s w u1 v1 u2 v2 1 = held_by 9 cfg" "demo_ledger cfg rcpt s w u1 v1 u2 v2 4 = held_by TOKEN (mint_bytes 2 s 6)"
  "demo_ledger cfg rcpt s w u1 v1 u2 v2 5 = held_by TOKEN (token_bytes 4 3 w)" "demo_ledger cfg rcpt s w u1 v1 u2 v2 6 = held_by 9 rcpt"
  "demo_ledger cfg rcpt s w u1 v1 u2 v2 11 = held_by TOKEN (mint_bytes 7 500 6)" "demo_ledger cfg rcpt s w u1 v1 u2 v2 12 = held_by TOKEN (mint_bytes 7 500 8)"
  "demo_ledger cfg rcpt s w u1 v1 u2 v2 13 = held_by TOKEN (token_bytes 11 3 u1)" "demo_ledger cfg rcpt s w u1 v1 u2 v2 15 = held_by TOKEN (token_bytes 11 2 v1)"
  "demo_ledger cfg rcpt s w u1 v1 u2 v2 14 = held_by TOKEN (token_bytes 12 3 u2)" "demo_ledger cfg rcpt s w u1 v1 u2 v2 16 = held_by TOKEN (token_bytes 12 2 v2)"
  "ac_executable (demo_ledger cfg rcpt s w u1 v1 u2 v2 TOKEN)"
  by (simp_all add: demo_ledger_def key_nth_simps)

lemma demo_vm_simps: "vm_find demo_vm x y = (2, 255)" "vm_create demo_vm x y = Some 2" "vm_minimum_balance demo_vm n = 7" "vm_invoke demo_vm = spl_invoke"
  by (simp_all add: demo_vm_def)

lemma open_nth: "open_accounts ! 0 = sw 1" "open_accounts ! 1 = ro 2" "open_accounts ! 2 = sw 3" "open_accounts ! 3 = ro 4" "open_accounts ! 4 = ro TOKEN"
  "open_accounts ! 5 = ro 11" "open_accounts ! 6 = wr 15" "open_accounts ! 7 = ro 12" "open_accounts ! 8 = wr 16"
  by (simp_all add: open_accounts_def)

lemma mint_nth: "mint_accounts ! 0 = ro 1" "mint_accounts ! 1 = ro 2" "mint_accounts ! 2 = sw 3" "mint_accounts ! 3 = wr 4" "mint_accounts ! 4 = wr 5"
  "mint_accounts ! 5 = sw 6" "mint_accounts ! 6 = ro TOKEN" "mint_accounts ! 7 = ro 11" "mint_accounts ! 8 = wr 13" "mint_accounts ! 9 = wr 15"
  "mint_accounts ! 10 = ro 12" "mint_accounts ! 11 = wr 14" "mint_accounts ! 12 = wr 16" "length mint_accounts = 13"
  by (simp_all add: mint_accounts_def)

lemma demo_readers:
  "s < 2 ^ 64 \<Longrightarrow> share_mint (wr 4) 2 6 (demo_ledger cfg rcpt s w u1 v1 u2 v2) = Inr s"
  "s < 2 ^ 64 \<Longrightarrow> share_mint (ro 4) 2 6 (demo_ledger cfg rcpt s w u1 v1 u2 v2) = Inr s"
  "w < 2 ^ 64 \<Longrightarrow> token_of (wr 5) 4 3 (demo_ledger cfg rcpt s w u1 v1 u2 v2) = Inr w"
  "mint_of (ro 11) (demo_ledger cfg rcpt s w u1 v1 u2 v2) = Inr (500, 6)"
  "mint_of (ro 12) (demo_ledger cfg rcpt s w u1 v1 u2 v2) = Inr (500, 8)"
  "u1 < 2 ^ 64 \<Longrightarrow> token_of (wr 13) 11 3 (demo_ledger cfg rcpt s w u1 v1 u2 v2) = Inr u1"
  "v1 < 2 ^ 64 \<Longrightarrow> token_of (wr 15) 11 2 (demo_ledger cfg rcpt s w u1 v1 u2 v2) = Inr v1"
  "u2 < 2 ^ 64 \<Longrightarrow> token_of (wr 14) 12 3 (demo_ledger cfg rcpt s w u1 v1 u2 v2) = Inr u2"
  "v2 < 2 ^ 64 \<Longrightarrow> token_of (wr 16) 12 2 (demo_ledger cfg rcpt s w u1 v1 u2 v2) = Inr v2"
  by (auto intro!: share_mint_held token_of_held mint_of_held simp: demo_lookup)

lemma demo_open_run:
  "vault_process demo_vm 9 open_accounts open_data (demo_ledger (zeros 256) (zeros 128) 0 0 100 0 40 0) =
     (Inr (), demo_ledger demo_cfg (zeros 128) 0 0 100 0 40 0)"
proof -
  let ?L = "demo_ledger (zeros 256) (zeros 128) 0 0 100 0 40 0"
  have uniq: "unique_accounts open_accounts = Inr ()"
    by (simp add: unique_accounts_def open_accounts_def upt_rec key_nth_simps needP_simps)
  have zero: "zero_account demo_vm (sw 1) 9 256 ?L = Inr ()"
    by (rule zero_account_held) (simp_all add: demo_lookup demo_vm_simps)
  have leg: "init_leg open_accounts open_data 2 ?L 0 = Inr ()" "init_leg open_accounts open_data 2 ?L 1 = Inr ()"
    unfolding init_leg_def Let_def by (simp_all add: vault_run open_nth open_lengths demo_readers from_le_8)
  have hash: "list_ex (\<lambda>x. x \<noteq> 0) (replicate 32 (7 :: nat))" by (simp add: list_ex_iff)
  have idx: "[0..<2] = [0, 1]" by (simp add: upt_rec)
  have "init_checks demo_vm 9 open_accounts open_data ?L = Inr 255"
    unfolding init_checks_def Let_def open_lengths open_nth
    by (simp add: uniq zero leg [simplified] hash [simplified] V_HEADER_def V_LEG_def demo_vm_simps needP_simps acct_def open_nth demo_lookup demo_readers idx
        open_lengths)
  then have "initialize_basket demo_vm 9 open_accounts open_data ?L = (Inr (), set_data 1 demo_cfg ?L)"
    by (simp add: initialize_basket_def bindS_def readL_def writeL_def demo_cfg_def open_nth demo_lookup)
  moreover have "set_data 1 demo_cfg ?L = demo_ledger demo_cfg (zeros 128) 0 0 100 0 40 0"
    by (auto simp: set_data_def demo_ledger_def fun_eq_iff)
  ultimately show ?thesis by (simp add: vault_process_def open_data_def)
qed

text \<open>What a mint of five shares reads and calls.\<close>

lemma demo_cfg_fields:
  "length demo_cfg = 256" "byte_slice demo_cfg 0 8 = V_MAGIC" "demo_cfg ! 104 = 255" "demo_cfg ! 105 = 2" "demo_cfg ! 106 = 6" "demo_cfg ! 107 = 1"
  "key_inside demo_cfg 8 = Inr 4" "key_inside demo_cfg 112 = Inr 11" "key_inside demo_cfg 144 = Inr 15" "key_inside demo_cfg 184 = Inr 12"
  "key_inside demo_cfg 216 = Inr 16" "u64_in demo_cfg 176 = Inr 10" "u64_in demo_cfg 248 = Inr 3"
proof -
  have "length (zeros 256) = V_HEADER + open_data ! 1 * V_LEG" "length open_data = 35 + 8 * open_data ! 1"
    unfolding V_HEADER_def V_LEG_def open_lengths by (simp_all add: zeros_def)
  note C = put_config_fields [OF this demo_cfg_def, unfolded open_lengths]
  show len: "length demo_cfg = 256" "byte_slice demo_cfg 0 8 = V_MAGIC" "demo_cfg ! 104 = 255" "demo_cfg ! 105 = 2" "demo_cfg ! 106 = 6" "demo_cfg ! 107 = 1"
    using C(1-6) by (simp_all add: V_HEADER_def V_LEG_def)
  show "key_inside demo_cfg 8 = Inr 4" using C(7) by (simp add: key_inside_ok len basket_share_def open_nth)
  have f: "basket_vault demo_cfg 0 = 15" "basket_vault demo_cfg 1 = 16" "basket_mint demo_cfg 0 = 11" "basket_mint demo_cfg 1 = 12"
    "basket_units demo_cfg 0 = 10" "basket_units demo_cfg 1 = 3"
    using C(8) [of 0] C(8) [of 1] C(9) [of 0] C(9) [of 1] C(10) [of 0] C(10) [of 1] by (simp_all add: open_nth open_lengths from_le_8)
  then show "key_inside demo_cfg 112 = Inr 11" "key_inside demo_cfg 144 = Inr 15" "key_inside demo_cfg 184 = Inr 12"
    "key_inside demo_cfg 216 = Inr 16" "u64_in demo_cfg 176 = Inr 10" "u64_in demo_cfg 248 = Inr 3"
    by (simp_all add: key_inside_ok u64_in_ok len basket_vault_def basket_mint_def basket_units_def V_HEADER_def V_LEG_def)
qed

lemma demo_transfers:
  assumes "x < 2 ^ 64"
  shows "x \<le> u1 \<Longrightarrow> u1 < 2 ^ 64 \<Longrightarrow> v1 < 2 ^ 64 \<Longrightarrow> spl_invoke (transfer_call (wr 13) (ro 11) (wr 15) own x d) seeds (demo_ledger cfg rcpt s w u1 v1 u2 v2) =
      Inr (demo_ledger cfg rcpt s w (u1 - x) (v1 + x) u2 v2)"
    "x \<le> u2 \<Longrightarrow> u2 < 2 ^ 64 \<Longrightarrow> v2 < 2 ^ 64 \<Longrightarrow> spl_invoke (transfer_call (wr 14) (ro 12) (wr 16) own x d) seeds (demo_ledger cfg rcpt s w u1 v1 u2 v2) =
      Inr (demo_ledger cfg rcpt s w u1 v1 (u2 - x) (v2 + x))"
proof -
  have v: "from_le (take 8 (to_le 8 x @ [d])) = x" using assms by (simp add: from_le_8)
  note run = spl_invoke_def spl_def transfer_call_def Let_def byte_slice_def v balance_def put_u64_def set_data_def
  show "x \<le> u1 \<Longrightarrow> u1 < 2 ^ 64 \<Longrightarrow> v1 < 2 ^ 64 \<Longrightarrow> spl_invoke (transfer_call (wr 13) (ro 11) (wr 15) own x d) seeds (demo_ledger cfg rcpt s w u1 v1 u2 v2) =
      Inr (demo_ledger cfg rcpt s w (u1 - x) (v1 + x) u2 v2)"
    using token_bytes_fields(4) [unfolded byte_slice_def]
    by (simp add: run demo_lookup from_le_8 token_bytes_fields) (auto simp: confined_def demo_ledger_def fun_eq_iff token_bytes_fields)
  show "x \<le> u2 \<Longrightarrow> u2 < 2 ^ 64 \<Longrightarrow> v2 < 2 ^ 64 \<Longrightarrow> spl_invoke (transfer_call (wr 14) (ro 12) (wr 16) own x d) seeds (demo_ledger cfg rcpt s w u1 v1 u2 v2) =
      Inr (demo_ledger cfg rcpt s w u1 v1 (u2 - x) (v2 + x))"
    using token_bytes_fields(4) [unfolded byte_slice_def]
    by (simp add: run demo_lookup from_le_8 token_bytes_fields) (auto simp: confined_def demo_ledger_def fun_eq_iff token_bytes_fields)
qed

definition mint_ticket :: exchange_state where
  "mint_ticket = \<lparr>tk_shares = 5, tk_issue = True, tk_cfg = demo_cfg, tk_authority = 2, tk_supply = 0, tk_owned = 0, tk_target = 5\<rparr>"

lemma demo_issue:
  "spl_invoke (share_call mint_accounts mint_ticket) seeds (demo_ledger cfg rcpt 0 0 u1 v1 u2 v2) = Inr (demo_ledger cfg rcpt 5 5 u1 v1 u2 v2)"
proof -
  have v: "from_le (take 8 (to_le 8 5 @ [demo_cfg ! 106])) = 5" by (simp add: from_le_8)
  show ?thesis
    using token_bytes_fields(4) [unfolded byte_slice_def] mint_bytes_fields(4) [unfolded byte_slice_def]
    by (simp add: spl_invoke_def spl_def share_call_def mint_ticket_def Let_def byte_slice_def v balance_def supply_at_def put_u64_def set_data_def mint_nth
        demo_lookup from_le_8 mint_bytes_fields token_bytes_fields)
      (auto simp: confined_def demo_ledger_def fun_eq_iff mint_bytes_fields token_bytes_fields)
qed

lemma demo_ticket: "exchange_ticket demo_vm 9 mint_accounts mint_data (demo_ledger demo_cfg (zeros 128) 0 0 u1 v1 u2 v2) = Inr mint_ticket"
proof -
  let ?L = "demo_ledger demo_cfg (zeros 128) 0 0 u1 v1 u2 v2"
  have uniq: "unique_accounts mint_accounts = Inr ()"
    by (simp add: unique_accounts_def mint_accounts_def upt_rec key_nth_simps needP_simps)
  have zero: "zero_account demo_vm (sw 6) 9 128 ?L = Inr ()"
    by (rule zero_account_held) (simp_all add: demo_lookup demo_vm_simps)
  have shares: "u64_in mint_data 1 = Inr 5" "length mint_data = 9" "mint_data ! 0 = 1"
    by (simp_all add: u64_in_ok mint_data_def byte_slice_def from_le_8)
  have cfg: "ac_data (acct ?L mint_accounts 0) = demo_cfg" "ac_owner (acct ?L mint_accounts 0) = 9" "\<not> ac_executable (acct ?L mint_accounts 0)"
    "ac_executable (acct ?L mint_accounts 6)"
    by (simp_all add: acct_def mint_nth demo_lookup)
  show ?thesis
    unfolding exchange_ticket_def Let_def cfg shares
    by (simp add: needP_simps V_HEADER_def V_LEG_def V_RECEIPT_def demo_cfg_fields uniq zero demo_vm_simps mint_nth [simplified] cfg demo_readers checked_add_def
        mint_ticket_def shares [simplified])
qed

lemma demo_pins:
  "open_leg mint_accounts mint_ticket (demo_ledger demo_cfg rcpt 0 0 100 0 40 0) 0 = Inr \<lparr>lp_units = 10, lp_before = 0, lp_user = 100\<rparr>"
  "open_leg mint_accounts mint_ticket (demo_ledger demo_cfg rcpt 0 0 100 0 40 0) 1 = Inr \<lparr>lp_units = 3, lp_before = 0, lp_user = 40\<rparr>"
  unfolding open_leg_def Let_def
  by (simp_all add: mint_ticket_def V_HEADER_def V_LEG_def demo_cfg_fields mint_nth [simplified] needP_simps demo_readers vmul_ok checked_add_def)

lemma demo_moves:
  "move_leg demo_vm mint_accounts mint_ticket 0 \<lparr>lp_units = 10, lp_before = 0, lp_user = 100\<rparr> (demo_ledger demo_cfg rcpt 0 0 100 0 40 0) =
     (Inr (), demo_ledger demo_cfg rcpt 0 0 50 50 40 0)"
  "move_leg demo_vm mint_accounts mint_ticket 1 \<lparr>lp_units = 3, lp_before = 0, lp_user = 40\<rparr> (demo_ledger demo_cfg rcpt 0 0 50 50 40 0) =
     (Inr (), demo_ledger demo_cfg rcpt 0 0 50 50 25 15)"
  unfolding move_leg_def Let_def
  by (simp_all add: mint_ticket_def mint_nth [simplified] vmul_ok bindS_def readL_def callL_def demo_readers demo_vm_simps demo_transfers add_w_ok sub_w_ok
      needP_simps ret_def liftR_def)

definition vault_receipt :: "nat list" where
  "vault_receipt = put_receipt mint_accounts mint_data mint_ticket (zeros 128)"

lemma demo_mint_run:
  "vault_process demo_vm 9 mint_accounts mint_data (demo_ledger demo_cfg (zeros 128) 0 0 100 0 40 0) =
     (Inr (), demo_ledger demo_cfg vault_receipt 5 5 50 50 25 15)"
proof -
  have idx: "[0..<tk_n mint_ticket] = [0, 1]" by (simp add: mint_ticket_def demo_cfg_fields upt_rec)
  have put: "set_data 6 (put_receipt mint_accounts mint_data mint_ticket (zeros 128)) (demo_ledger demo_cfg (zeros 128) 5 5 50 50 25 15) =
      demo_ledger demo_cfg vault_receipt 5 5 50 50 25 15"
    by (auto simp: set_data_def demo_ledger_def vault_receipt_def fun_eq_iff)
  have close: "exchange_close demo_vm mint_accounts mint_data mint_ticket (demo_ledger demo_cfg (zeros 128) 0 0 50 50 25 15) =
      (Inr (), demo_ledger demo_cfg vault_receipt 5 5 50 50 25 15)"
    unfolding exchange_close_def bindS_def callL_def demo_vm_simps demo_issue put [symmetric]
    by (simp add: mint_ticket_def readL_def mint_nth [simplified] demo_cfg_fields demo_readers liftR_def add_w_ok ret_def needP_simps writeL_def demo_lookup)
  have "exchange demo_vm 9 mint_accounts mint_data (demo_ledger demo_cfg (zeros 128) 0 0 100 0 40 0) = (Inr (), demo_ledger demo_cfg vault_receipt 5 5 50 50 25 15)"
    unfolding exchange_def bindS_def readL_def demo_ticket
    by (simp add: idx demo_pins [simplified] demo_moves [simplified] bindS_def ret_def close)
  then show ?thesis by (simp add: vault_process_def mint_data_def)
qed

lemma demo_ok: "runtime_ok 9 demo_vm"
  by (rule demo_vm_ok) (simp add: key_nth_simps [symmetric])

lemma demo_basket: "basket demo_vm 9 1 (demo_ledger demo_cfg vault_receipt 5 5 50 50 25 15)"
  by (rule used [OF opened [OF demo_open_run] demo_mint_run]) (simp_all add: open_lengths open_nth mint_nth)

lemma mint_data_fields: "from_le (byte_slice mint_data 1 8) = 5" "mint_data ! 0 = 1"
  by (simp_all add: mint_data_def byte_slice_def from_le_8)

theorem basket_exchange_exact_witness:
  "leg_exact mint_accounts demo_cfg True 5 (demo_ledger demo_cfg (zeros 128) 0 0 100 0 40 0) (demo_ledger demo_cfg vault_receipt 5 5 50 50 25 15) 1
   \<and> balance (demo_ledger demo_cfg vault_receipt 5 5 50 50 25 15) 5 = 5"
  using basket_exchange_exact [OF demo_ok demo_mint_run]
  by (simp add: Let_def mint_data_fields [simplified] demo_cfg_fields acct_def mint_nth demo_lookup balance_def token_bytes_fields from_le_8)

theorem basket_backed_witness:
  "supply_at (demo_ledger demo_cfg vault_receipt 5 5 50 50 25 15) (basket_share demo_cfg) * basket_units demo_cfg 1
     \<le> balance (demo_ledger demo_cfg vault_receipt 5 5 50 50 25 15) (basket_vault demo_cfg 1)"
  using basket_backed [OF demo_ok demo_basket] by (simp add: Let_def demo_lookup demo_cfg_fields)

theorem basket_receipt_once_witness:
  "\<exists>e. vault_process demo_vm 9 mint_accounts mint_data (demo_ledger demo_cfg vault_receipt 5 5 50 50 25 15) =
     (Inl e, demo_ledger demo_cfg vault_receipt 5 5 50 50 25 15)"
  using basket_receipt_once [OF demo_ok demo_mint_run, where later = "demo_ledger demo_cfg vault_receipt 5 5 50 50 25 15" and a' = mint_accounts
      and data' = mint_data and vm' = demo_vm and program' = 9] by (simp add: mint_data_fields [simplified])

end
