(* ===== verification/SettleDemo.thy ===== *)
theory SettleDemo
  imports SettleRun Basket
begin

text \<open>
  A settlement on concrete accounts, through the pool alone: the witnesses of \<open>SettleRun\<close>. The pool program
  of this ledger moves the instruction's two amounts between the accounts it names.
\<close>

section \<open>The ledger\<close>

definition amm_invoke :: "cpi \<Rightarrow> nat list list list \<Rightarrow> ledger \<Rightarrow> ledger res" where
  "amm_invoke c seeds L =
     (case c of
        Call ix \<Rightarrow>
          let k = (\<lambda>i. am_key (ix_accounts ix ! i)); x = from_le (byte_slice (ix_data ix) 8 8); y = from_le (byte_slice (ix_data ix) 16 8)
          in Inr (confined c L
               (put_u64 64 (k 4) (balance L (k 4) - x) (put_u64 64 (k 5) (balance L (k 5) + y)
                 (put_u64 64 (k 6) (balance L (k 6) + x) (put_u64 64 (k 7) (balance L (k 7) - y) L)))))
      | _ \<Rightarrow> Inr L)"

definition pool_vm :: vm where
  "pool_vm = \<lparr>vm_invoke = amm_invoke, vm_find = \<lambda>_ _. (2, 255), vm_create = \<lambda>_ _. Some 2, vm_minimum_balance = \<lambda>n. 7,
     vm_slot = 50, vm_time = 0, vm_system = 0\<rparr>"

lemma pool_vm_ok: "runtime_ok 9 pool_vm"
  using key_nth_simps by (auto simp: runtime_ok_def pool_vm_def amm_invoke_def confined_def Let_def split: cpi.splits)

definition pool_bytes :: "nat list" where
  "pool_bytes = [247, 237, 227, 245, 215, 195, 222, 70] @ key_bytes 41 @ zeros 32 @ key_bytes 43 @ key_bytes 44 @ zeros 32
     @ key_bytes 11 @ key_bytes 12 @ key_bytes TOKEN @ key_bytes TOKEN @ key_bytes 45 @ zeros 309"

definition nonce_bytes :: "nat \<Rightarrow> nat \<Rightarrow> nat \<Rightarrow> nat list" where
  "nonce_bytes n x y = NONCE_TAG @ key_bytes 3 @ to_le 8 n @ to_le 8 x @ to_le 8 y"

definition pool_ledger :: "nat list \<Rightarrow> nat \<Rightarrow> nat \<Rightarrow> nat \<Rightarrow> nat \<Rightarrow> ledger" where
  "pool_ledger nonce u w x y =
     (\<lambda>_. (held_by TOKEN [])\<lparr>ac_executable := True\<rparr>)
       (20 := held_by 9 nonce, 13 := held_by TOKEN (token_bytes 11 3 u), 14 := held_by TOKEN (token_bytes 12 3 w),
        41 := held_by RAYDIUM demo_config, 42 := held_by RAYDIUM pool_bytes,
        43 := held_by TOKEN (token_bytes 11 RAYDIUM_AUTH x), 44 := held_by TOKEN (token_bytes 12 RAYDIUM_AUTH y))"

definition settle_accounts :: "account_ref list" where
  "settle_accounts = [sw 3, wr 20, wr 13, wr 14, ro TOKEN, ro 11, ro 12, ro 31, ro 32, wr 33, wr 34, wr 35, ro RAYDIUM, ro RAYDIUM_AUTH,
     ro 41, wr 42, wr 43, wr 44, wr 45]"

definition settle_data :: "nat list" where
  "settle_data = [1, 2, 1, 1] @ to_le 8 7 @ to_le 8 10000 @ to_le 8 19000 @ to_le 8 100 @ to_le 8 0"

definition demo_intent :: settle_intent where
  "demo_intent = \<lparr>si_mode = 2, si_sell = True, si_matches = 1, si_sequence = 7, si_input = 10000, si_min_out = 19000, si_deadline = 100, si_budget = 0\<rparr>"

lemma settle_nth:
  "settle_accounts ! 0 = sw 3" "settle_accounts ! 1 = wr 20" "settle_accounts ! 2 = wr 13" "settle_accounts ! 3 = wr 14" "settle_accounts ! 4 = ro TOKEN"
  "settle_accounts ! 5 = ro 11" "settle_accounts ! 6 = ro 12" "settle_accounts ! 12 = ro RAYDIUM" "settle_accounts ! 13 = ro RAYDIUM_AUTH"
  "settle_accounts ! 14 = ro 41" "settle_accounts ! 15 = wr 42" "settle_accounts ! 16 = wr 43" "settle_accounts ! 17 = wr 44" "settle_accounts ! 18 = wr 45"
  "length settle_accounts = 19"
  by (simp_all add: settle_accounts_def)

lemma venue_keys: "RAYDIUM \<noteq> 13" "RAYDIUM \<noteq> 14" "RAYDIUM \<noteq> 20" "RAYDIUM \<noteq> 41" "RAYDIUM \<noteq> 42" "RAYDIUM \<noteq> 43" "RAYDIUM \<noteq> 44"
  "TOKEN \<noteq> 20" "TOKEN \<noteq> 41" "TOKEN \<noteq> 42" "TOKEN \<noteq> 43" "TOKEN \<noteq> 44" "9 \<noteq> PHOENIX" "9 \<noteq> RAYDIUM" "TOKEN \<noteq> RAYDIUM" "RAYDIUM \<noteq> TOKEN" "9 \<noteq> TOKEN"
  by (simp_all add: TOKEN_def RAYDIUM_def PHOENIX_def)

lemma pool_lookup:
  "pool_ledger nonce u w x y 20 = held_by 9 nonce" "pool_ledger nonce u w x y 13 = held_by TOKEN (token_bytes 11 3 u)"
  "pool_ledger nonce u w x y 14 = held_by TOKEN (token_bytes 12 3 w)" "pool_ledger nonce u w x y 41 = held_by RAYDIUM demo_config"
  "pool_ledger nonce u w x y 42 = held_by RAYDIUM pool_bytes" "pool_ledger nonce u w x y 43 = held_by TOKEN (token_bytes 11 RAYDIUM_AUTH x)"
  "pool_ledger nonce u w x y 44 = held_by TOKEN (token_bytes 12 RAYDIUM_AUTH y)"
  "ac_executable (pool_ledger nonce u w x y TOKEN)" "ac_executable (pool_ledger nonce u w x y RAYDIUM)"
  "ac_owner (pool_ledger nonce u w x y 11) = TOKEN" "ac_owner (pool_ledger nonce u w x y 12) = TOKEN"
  by (simp_all add: pool_ledger_def venue_keys key_nth_simps)

section \<open>Reading it\<close>

lemma key_at_ok: "k + 32 \<le> length d \<Longrightarrow> k < 2 ^ 63 \<Longrightarrow> key_at d k = Inr (key_of (byte_slice d k 32))"
  by (simp add: key_at_def add_w_ok get_range_def byte_slice_def)

lemma u64_at_ok: "k + 8 \<le> length d \<Longrightarrow> k < 2 ^ 63 \<Longrightarrow> u64_at d k = Inr (from_le (byte_slice d k 8))"
  by (simp add: u64_at_def add_w_ok get_range_def byte_slice_def)

lemma ad_ok [simp]: "ad (Inr x) = Inr x"
  by (simp add: ad_def)

lemma token_amount_held: "v < 2 ^ 64 \<Longrightarrow> token_amount (token_bytes m w v) = Inr v"
  by (simp add: token_amount_def token_bytes_fields u64_at_ok from_le_8)

lemma token_at_held:
  "L (am_key r) = held_by TOKEN (token_bytes m w v) \<Longrightarrow> v < 2 ^ 64 \<Longrightarrow> token_at r m w L = Inr v"
  unfolding token_at_def Let_def by (simp add: key_at_ok token_bytes_fields token_amount_held needP_simps)

lemma amount_at_held: "L (am_key r) = held_by TOKEN (token_bytes m w v) \<Longrightarrow> v < 2 ^ 64 \<Longrightarrow> amount_at r L = Inr v"
  by (simp add: amount_at_def token_amount_held)

lemma pool_bytes_fields:
  "length pool_bytes = 637" "take 8 pool_bytes = [247, 237, 227, 245, 215, 195, 222, 70]" "pool_bytes ! 329 = 0" "pool_bytes ! 389 = 0" "pool_bytes ! 390 = 0"
  "byte_slice pool_bytes 8 32 = key_bytes 41" "byte_slice pool_bytes 72 32 = key_bytes 43" "byte_slice pool_bytes 104 32 = key_bytes 44"
  "byte_slice pool_bytes 168 32 = key_bytes 11" "byte_slice pool_bytes 200 32 = key_bytes 12" "byte_slice pool_bytes 232 32 = key_bytes TOKEN"
  "byte_slice pool_bytes 264 32 = key_bytes TOKEN" "byte_slice pool_bytes 296 32 = key_bytes 45"
  by (simp_all add: pool_bytes_def zeros_def nth_append byte_slice_def)

lemma pool_zero: "328 \<le> k \<Longrightarrow> k + 8 \<le> 637 \<Longrightarrow> u64_at pool_bytes k = Inr 0"
proof -
  assume k: "328 \<le> k" "k + 8 \<le> 637"
  have z: "from_le (replicate n 0) = 0" for n by (induction n) simp_all
  have split: "pool_bytes = take 328 pool_bytes @ replicate 309 0" by (simp add: pool_bytes_def zeros_def)
  have "length (take 328 pool_bytes) = 328" using pool_bytes_fields(1) by simp
  then have "drop k pool_bytes = drop (k - 328) (replicate 309 0)" using k by (subst split) simp
  then have "byte_slice pool_bytes k 8 = replicate 8 0" using k by (simp add: byte_slice_def min_def)
  moreover have "u64_at pool_bytes k = Inr (from_le (byte_slice pool_bytes k 8))"
    by (rule u64_at_ok) (use k pool_bytes_fields(1) in auto)
  ultimately show ?thesis using z by (simp only:)
qed

definition decoded_pool :: raydium_pool where
  "decoded_pool = \<lparr>rp_config = 41, rp_vaults = (43, 44), rp_mints = (11, 12), rp_token_programs = (TOKEN, TOKEN), rp_observation = 45,
     rp_excluded = (0, 0), rp_creator_mode = 0, rp_creator_enabled = False\<rparr>"

lemma pool_decoded: "pool_decode pool_bytes 0 = Inr decoded_pool"
  unfolding pool_decode_def excluded_at_def
  by (simp add: pool_bytes_fields pool_zero key_at_ok decoded_pool_def checked_add_def)

lemma pool_quoted: "pool_quote decoded_pool demo_config (1000000, 2000000) True 10000 = Inr 19752"
  by code_simp

lemma demo_parse: "settle_parse settle_data = Inr demo_intent"
  by code_simp

lemma alias_loop_ok:
  assumes "\<forall>x \<in> set xs. am_writable (a ! x)" "distinct (map (key_in a) xs)" "\<forall>x \<in> set xs. \<forall>(p, y) \<in> set seen. key_in a x \<noteq> key_in a y"
  shows "alias_loop a xs seen = Inr ()"
  using assms
proof (induction xs arbitrary: seen)
  case (Cons x xs)
  have "alias_loop a xs (seen @ [(from_le (byte_slice (key_bytes (key_in a x)) 0 8), x)]) = Inr ()"
  proof (rule Cons.IH)
    have "key_in a x \<notin> key_in a ` set xs" using Cons.prems(2) by simp
    then have "key_in a z \<noteq> key_in a x" if "z \<in> set xs" for z using that by (metis imageI)
    with Cons.prems(3) show "\<forall>z \<in> set xs. \<forall>(p, y) \<in> set (seen @ [(from_le (byte_slice (key_bytes (key_in a x)) 0 8), x)]). key_in a z \<noteq> key_in a y"
      by (simp add: ball_Un)
  qed (use Cons.prems in simp_all)
  then show ?case using Cons.prems by (auto simp: u64_at_ok needP_simps list_all_iff needP_def)
qed simp

lemma demo_unaliased: "alias_loop settle_accounts WRITABLE [] = Inr ()"
  by (rule alias_loop_ok) (simp_all add: WRITABLE_def settle_accounts_def)

lemma pool_leg_quote: "raydium_quote pool_vm settle_accounts True 10000 (pool_ledger nonce u w 1000000 2000000) = Inr 19752"
proof -
  let ?L = "pool_ledger nonce u w 1000000 2000000"
  have t: "token_at (wr 43) 11 RAYDIUM_AUTH ?L = Inr 1000000" "token_at (wr 44) 12 RAYDIUM_AUTH ?L = Inr 2000000"
    by (auto intro!: token_at_held simp: pool_lookup)
  have clock: "nat (vm_time pool_vm) = 0" by (simp add: pool_vm_def)
  show ?thesis
    unfolding raydium_quote_def executable_is_def clock acct_def settle_nth account_ref.simps pool_lookup held_by_simps pool_decoded
    by (simp add: needP_simps pool_lookup t pool_quoted decoded_pool_def [symmetric]) (simp add: decoded_pool_def needP_simps)
qed

lemma pool_swapped:
  assumes "10000 \<le> u" "u < 2 ^ 64" "w < 2 ^ 63"
  shows "amm_invoke (raydium_call settle_accounts True 10000 19752) [] (pool_ledger nonce u w 1000000 2000000) =
    Inr (pool_ledger nonce (u - 10000) (w + 19752) 1010000 1980248)"
proof -
  let ?c = "raydium_call settle_accounts True 10000 19752"
  have wr: "cpi_writable ?c = {3, 42, 13, 14, 43, 44, 45}"
    unfolding raydium_call_writable by (simp add: settle_nth)
  have data: "from_le (byte_slice (raydium_swap 10000 19752) 8 8) = 10000" "from_le (byte_slice (raydium_swap 10000 19752) 16 8) = 19752"
    by code_simp+
  have at: "am_key (metas settle_accounts [0, 13, 14, 15, 2, 3, 16, 17, 4, 4, 5, 6, 18] [0, 3, 4, 5, 6, 7, 12] 0 ! 4) = 13"
    "am_key (metas settle_accounts [0, 13, 14, 15, 2, 3, 16, 17, 4, 4, 5, 6, 18] [0, 3, 4, 5, 6, 7, 12] 0 ! 5) = 14"
    "am_key (metas settle_accounts [0, 13, 14, 15, 2, 3, 16, 17, 4, 4, 5, 6, 18] [0, 3, 4, 5, 6, 7, 12] 0 ! 6) = 43"
    "am_key (metas settle_accounts [0, 13, 14, 15, 2, 3, 16, 17, 4, 4, 5, 6, 18] [0, 3, 4, 5, 6, 7, 12] 0 ! 7) = 44"
    by (simp_all add: metas_def settle_nth)
  have bal: "balance (pool_ledger nonce u w x y) 13 = u" "balance (pool_ledger nonce u w x y) 14 = w" "x < 2 ^ 64 \<Longrightarrow> balance (pool_ledger nonce u w x y) 43 = x"
    "y < 2 ^ 64 \<Longrightarrow> balance (pool_ledger nonce u w x y) 44 = y" for x y
    using assms by (simp_all add: balance_def pool_lookup token_bytes_fields from_le_8)
  have moved: "put_u64 64 13 (u - 10000) (put_u64 64 14 (w + 19752) (put_u64 64 43 1010000 (put_u64 64 44 1980248 (pool_ledger nonce u w 1000000 2000000))))
      = pool_ledger nonce (u - 10000) (w + 19752) 1010000 1980248"
    by (auto simp: put_u64_def set_data_def pool_ledger_def token_bytes_fields fun_eq_iff)
  have "confined ?c (pool_ledger nonce u w 1000000 2000000) (pool_ledger nonce (u - 10000) (w + 19752) 1010000 1980248)
      = pool_ledger nonce (u - 10000) (w + 19752) 1010000 1980248"
    by (auto simp: confined_def wr fun_eq_iff pool_ledger_def)
  moreover have "balance (put_u64 64 44 1980248 (pool_ledger nonce u w 1000000 2000000)) 43 = 1000000"
    "balance (put_u64 64 43 1010000 (put_u64 64 44 1980248 (pool_ledger nonce u w 1000000 2000000))) 14 = w"
    "balance (put_u64 64 14 (w + 19752) (put_u64 64 43 1010000 (put_u64 64 44 1980248 (pool_ledger nonce u w 1000000 2000000)))) 13 = u"
    using bal [where x = 1000000 and y = 2000000] by (simp_all add: balance_def put_u64_def)
  ultimately show ?thesis
    unfolding amm_invoke_def using bal [where x = 1000000 and y = 2000000]
    by (simp add: raydium_call_def data at settle_nth moved Let_def)
qed

section \<open>The run\<close>

lemma nonce_fields: "length (nonce_bytes n x y) = 64" "take 8 (nonce_bytes n x y) = NONCE_TAG" "take 32 (drop 8 (nonce_bytes n x y)) = key_bytes 3"
  "n < 2 ^ 64 \<Longrightarrow> u64_at (nonce_bytes n x y) 40 = Inr n"
  by (simp_all add: nonce_bytes_def NONCE_TAG_def u64_at_ok byte_slice_def from_le_8)

lemma demo_checks:
  "settle_checks pool_vm 9 settle_accounts settle_data (pool_ledger (nonce_bytes 7 0 0) 50000 10 1000000 2000000) = Inr (demo_intent, 8, 50000, 10)"
proof -
  let ?L = "pool_ledger (nonce_bytes 7 0 0) 50000 10 1000000 2000000"
  have t: "token_at (wr 13) 11 3 ?L = Inr 50000" "token_at (wr 14) 12 3 ?L = Inr 10"
    by (auto intro!: token_at_held simp: pool_lookup)
  have clock: "vm_slot pool_vm = 50" "vm_time pool_vm = 0" by (simp_all add: pool_vm_def)
  show ?thesis
    unfolding settle_checks_def Let_def executable_is_def demo_parse clock acct_def settle_nth account_ref.simps pool_lookup held_by_simps nonce_fields(1-3)
    by (simp add: needP_simps pool_lookup t nonce_fields demo_unaliased demo_intent_def NONCE_LEN_def checked_add_def)
qed

lemma demo_settles:
  "settle pool_vm 9 settle_accounts settle_data (pool_ledger (nonce_bytes 7 0 0) 50000 10 1000000 2000000) =
     (Inr (concat (map (to_le 8) [7, 10000, 19752, 0, 1])), pool_ledger (nonce_bytes 8 10000 19752) 40000 19762 1010000 1980248)"
proof -
  let ?L = "pool_ledger (nonce_bytes 7 0 0) 50000 10 1000000 2000000" and ?M = "pool_ledger (nonce_bytes 7 0 0) 40000 19762 1010000 1980248"
  have amounts: "amount_at (wr 13) ?L = Inr 50000" "amount_at (wr 14) ?L = Inr 10" "amount_at (wr 13) ?M = Inr 40000" "amount_at (wr 14) ?M = Inr 19762"
    by (auto intro!: amount_at_held simp: pool_lookup)
  have swap: "vm_invoke pool_vm (raydium_call settle_accounts True 10000 19752) [] ?L = Inr ?M"
    using pool_swapped [of 50000 10] by (simp add: pool_vm_def)
  have leg: "raydium_leg pool_vm settle_accounts True 10000 ?L = (Inr (), ?M)"
    by (simp add: raydium_leg_def bindS_def readL_def pool_leg_quote settle_nth amounts callL_def swap checked_sub_def needP_simps liftR_def)
  have put: "set_data 20 (put_outcome 8 10000 19752 (nonce_bytes 7 0 0)) ?M = pool_ledger (nonce_bytes 8 10000 19752) 40000 19762 1010000 1980248"
    by (auto simp: put_outcome_bytes nonce_fields set_data_def pool_ledger_def fun_eq_iff) (simp_all add: nonce_bytes_def NONCE_TAG_def)
  have close: "settle_close settle_accounts demo_intent 8 50000 10 0 1 ?M =
      (Inr (concat (map (to_le 8) [7, 10000, 19752, 0, 1])), pool_ledger (nonce_bytes 8 10000 19752) 40000 19762 1010000 1980248)"
    unfolding put [symmetric]
    by (simp add: settle_close_def bindS_def readL_def demo_intent_def settle_nth [simplified] amounts checked_sub_def needP_simps liftR_def has_room_def pool_lookup
        nonce_fields NONCE_LEN_def writeL_def ret_def)
  have intent: "si_sell demo_intent" "si_input demo_intent = 10000" "si_budget demo_intent = 0" by (simp_all add: demo_intent_def)
  have first: "settle_first pool_vm settle_accounts demo_intent ?L = (Inr False, ?L)" by (simp add: settle_first_def demo_intent_def ret_def)
  have second: "settle_second pool_vm settle_accounts demo_intent 10000 ?L = (Inr True, ?M)"
    by (simp add: settle_second_def demo_intent_def bindS_def leg ret_def)
  show ?thesis
    using close second
    by (simp add: settle_def bindS_def readL_def demo_checks first settle_nth amounts checked_sub_def sub_w_ok needP_simps liftR_def intent)
qed

theorem settle_pays_quotes_witness:
  "tokens (pool_ledger (nonce_bytes 8 10000 19752) 40000 19762 1010000 1980248) 13 + 10000
     = tokens (pool_ledger (nonce_bytes 7 0 0) 50000 10 1000000 2000000) 13
   \<and> 19000 \<le> tokens (pool_ledger (nonce_bytes 8 10000 19752) 40000 19762 1010000 1980248) 14
     - tokens (pool_ledger (nonce_bytes 7 0 0) 50000 10 1000000 2000000) 14"
  using settle_pays_quotes [OF pool_vm_ok venue_keys(13,14) demo_settles]
  by (auto simp: demo_parse demo_intent_def settle_nth)

theorem settle_nonce_once_witness:
  "\<exists>e. settle pool_vm 9 settle_accounts settle_data (pool_ledger (nonce_bytes 8 10000 19752) 40000 19762 1010000 1980248) =
     (Inl e, pool_ledger (nonce_bytes 8 10000 19752) 40000 19762 1010000 1980248)"
proof -
  have "si_sequence demo_intent \<noteq> si_sequence demo_intent + 1" by simp
  then show ?thesis using settle_nonce_once [OF pool_vm_ok venue_keys(13,14) demo_settles demo_parse] demo_parse by blast
qed

end
