(* ===== verification/OrderDemo.thy ===== *)
theory OrderDemo
  imports OrderLife SettleDemo
begin

text \<open>
  An ask placed, filled in part and cancelled on concrete accounts: the witnesses of \<open>OrderLife\<close>. The ledger
  holds a stock policy and a product claim, the system and token programs do what theirs do.
\<close>

section \<open>The ledger\<close>

definition order_invoke :: "cpi \<Rightarrow> nat list list list \<Rightarrow> ledger \<Rightarrow> ledger res" where
  "order_invoke c seeds L =
     (case c of
        Call ix \<Rightarrow> bindR (spl ix L) (\<lambda>L1. Inr (confined c L L1))
      | SystemTransfer x y n \<Rightarrow> Inr L
      | SystemAllocate k n \<Rightarrow> if ac_owner (L k) = 0 then Inr (set_data k (zeros n) L) else Inl (Prog (Rejected 2))
      | SystemAssign k w \<Rightarrow> if ac_owner (L k) = 0 then Inr (L(k := (L k)\<lparr>ac_owner := w\<rparr>)) else Inl (Prog (Rejected 2)))"

definition order_vm :: vm where
  "order_vm = \<lparr>vm_invoke = order_invoke,
     vm_find = \<lambda>seeds _. (if hd seeds = ORDER_SEED then 60 else if hd seeds = POLICY_SEED then 62 else 63, 255),
     vm_create = \<lambda>_ _. Some 2, vm_minimum_balance = \<lambda>n. 7, vm_slot = 50, vm_time = 0, vm_system = 0\<rparr>"

lemma order_vm_ok: "runtime_ok 9 order_vm"
  using key_nth_simps
  by (auto simp: runtime_ok_def order_vm_def order_invoke_def confined_def set_data_def monad_simps split: cpi.splits if_splits)

definition policy_bytes :: "nat list" where
  "policy_bytes = POLICY_TAG @ key_bytes 7 @ key_bytes 5 @ key_bytes 6 @ key_bytes 12 @ key_bytes 11 @ key_bytes 8 @ to_le 8 1 @ to_le 8 40 @ to_le 8 1000 @ [17]"

definition claim_bytes :: "nat list" where
  "claim_bytes = CLAIM_TAG @ key_bytes 7 @ key_bytes 5 @ key_bytes 6 @ key_bytes 12 @ key_bytes 11 @ key_bytes 62 @ key_bytes TOKEN @ to_le 8 1 @ to_le 8 1
     @ to_le 8 1 @ to_le 8 1 @ to_le 8 45 @ to_le 8 1000 @ to_le 2 10000 @ [0, 1, 0, 0, 0, 0]"

definition order_ledger :: "account \<Rightarrow> nat \<Rightarrow> nat \<Rightarrow> ledger" where
  "order_ledger cell u e =
     (\<lambda>_. (held_by TOKEN [])\<lparr>ac_executable := True\<rparr>)
       (60 := cell, 13 := held_by TOKEN (token_bytes 11 3 u), 61 := held_by TOKEN (token_bytes 11 60 e), 14 := held_by TOKEN (token_bytes 12 3 7),
        11 := held_by TOKEN (mint_bytes 7 5000 6), 12 := held_by TOKEN (mint_bytes 7 5000 6), 62 := held_by 9 policy_bytes, 63 := held_by 9 claim_bytes)"

definition place_accounts :: "account_ref list" where
  "place_accounts = [sw 3, wr 60, wr 13, wr 61, wr 14, ro 12, ro 11, ro TOKEN, ro TOKEN, ro 62, ro 63, ro 0]"

definition place_data :: "nat list" where
  "place_data = [15, 1, 0, 0] @ to_le 2 10000 @ [0, 0] @ to_le 8 7 @ to_le 8 1000 @ to_le 8 5000000 @ to_le 8 500 @ to_le 8 1 @ to_le 8 100
     @ to_le 8 1 @ to_le 8 1 @ key_bytes 5"

definition demo_ask :: ask where
  "demo_ask = \<lparr>ak_closed = True, ak_model = 0, ak_bps = 10000, ak_nonce = 7, ak_stock = 1000, ak_price = 5000000, ak_expires = 500,
     ak_policy_version = 1, ak_max_age = 100, ak_numerator = 1, ak_denominator = 1, ak_instrument = 5\<rparr>"

definition cancel_accounts :: "account_ref list" where
  "cancel_accounts = [sw 3, wr 60, wr 61, wr 13, ro 11, ro TOKEN]"

definition cancel_data :: "nat list" where
  "cancel_data = 16 # replicate 7 0 @ to_le 8 7"

lemma place_nth:
  "place_accounts ! 0 = sw 3" "place_accounts ! 1 = wr 60" "place_accounts ! 2 = wr 13" "place_accounts ! 3 = wr 61" "place_accounts ! 4 = wr 14"
  "place_accounts ! 5 = ro 12" "place_accounts ! 6 = ro 11" "place_accounts ! 7 = ro TOKEN" "place_accounts ! 8 = ro TOKEN" "place_accounts ! 9 = ro 62"
  "place_accounts ! 10 = ro 63" "place_accounts ! 11 = ro 0" "length place_accounts = 12"
  by (simp_all add: place_accounts_def)

lemma cancel_nth:
  "cancel_accounts ! 0 = sw 3" "cancel_accounts ! 1 = wr 60" "cancel_accounts ! 2 = wr 61" "cancel_accounts ! 3 = wr 13" "cancel_accounts ! 4 = ro 11"
  "cancel_accounts ! 5 = ro TOKEN" "length cancel_accounts = 6"
  by (simp_all add: cancel_accounts_def)

lemma order_keys: "TOKEN \<noteq> 60" "TOKEN \<noteq> 61" "TOKEN \<noteq> 62" "TOKEN \<noteq> 63" "TOKEN \<noteq> TOKEN_2022" "9 \<noteq> TOKEN_2022"
  by (simp_all add: TOKEN_def TOKEN_2022_def)

lemma order_lookup:
  "order_ledger cell u e 60 = cell" "order_ledger cell u e 13 = held_by TOKEN (token_bytes 11 3 u)" "order_ledger cell u e 61 = held_by TOKEN (token_bytes 11 60 e)"
  "order_ledger cell u e 14 = held_by TOKEN (token_bytes 12 3 7)" "order_ledger cell u e 11 = held_by TOKEN (mint_bytes 7 5000 6)"
  "order_ledger cell u e 12 = held_by TOKEN (mint_bytes 7 5000 6)" "order_ledger cell u e 62 = held_by 9 policy_bytes"
  "order_ledger cell u e 63 = held_by 9 claim_bytes" "ac_executable (order_ledger cell u e TOKEN)"
  by (simp_all add: order_ledger_def order_keys key_nth_simps)

lemma order_vm_simps: "vm_slot order_vm = 50" "vm_time order_vm = 0" "vm_system order_vm = 0" "vm_minimum_balance order_vm n = 7" "vm_invoke order_vm = order_invoke"
  "vm_find order_vm (ORDER_SEED # x) y = (60, 255)" "vm_find order_vm (POLICY_SEED # x) y = (62, 255)" "vm_find order_vm (CLAIM_SEED # x) y = (63, 255)"
  by (simp_all add: order_vm_def ORDER_SEED_def POLICY_SEED_def CLAIM_SEED_def)

section \<open>Reading it\<close>

lemma policy_bytes_fields:
  "length policy_bytes = 225" "byte_slice policy_bytes 0 8 = POLICY_TAG" "byte_slice policy_bytes 8 32 = key_bytes 7" "byte_slice policy_bytes 40 32 = key_bytes 5"
  "byte_slice policy_bytes 104 32 = key_bytes 12" "byte_slice policy_bytes 136 32 = key_bytes 11" "byte_slice policy_bytes 168 32 = key_bytes 8"
  "byte_slice policy_bytes 200 8 = to_le 8 1" "byte_slice policy_bytes 208 8 = to_le 8 40" "byte_slice policy_bytes 216 8 = to_le 8 1000" "policy_bytes ! 224 = 17"
  by (simp_all add: policy_bytes_def POLICY_TAG_def byte_slice_def nth_append)

lemma claim_bytes_fields:
  "length claim_bytes = 288" "byte_slice claim_bytes 0 8 = CLAIM_TAG" "byte_slice claim_bytes 8 32 = key_bytes 7" "byte_slice claim_bytes 40 32 = key_bytes 5"
  "byte_slice claim_bytes 104 32 = key_bytes 12" "byte_slice claim_bytes 136 32 = key_bytes 11" "byte_slice claim_bytes 168 32 = key_bytes 62"
  "byte_slice claim_bytes 200 32 = key_bytes TOKEN" "byte_slice claim_bytes 232 8 = to_le 8 1" "byte_slice claim_bytes 248 8 = to_le 8 1"
  "byte_slice claim_bytes 256 8 = to_le 8 1" "byte_slice claim_bytes 272 8 = to_le 8 1000" "byte_slice claim_bytes 280 2 = to_le 2 10000" "claim_bytes ! 282 = 0"
  "claim_bytes ! 283 = 1"
  by (simp_all add: claim_bytes_def CLAIM_TAG_def byte_slice_def nth_append)

lemma demo_policy_valid: "policy_valid order_vm 9 place_accounts 9 1 100 True 5 6 50 (order_ledger cell u e) = Inr ()"
  unfolding policy_valid_def Let_def acct_def place_nth account_ref.simps order_lookup held_by_simps policy_seeds_def order_vm_simps
  by (simp add: needP_simps policy_bytes_fields POLICY_LEN_def key_at_ok u64_at_ok from_le_8 order_vm_simps policy_tradable_def place_nth)

lemma demo_claim_valid: "claim_valid order_vm 9 place_accounts (ask_claim demo_ask) 50 (order_ledger cell u e) = Inr ()"
proof -
  have two: "from_le (to_le 2 10000) = 10000" by (simp add: from_le_to_le)
  show ?thesis
    unfolding claim_valid_def Let_def acct_def ask_claim_def demo_ask_def claim_use.simps ask.simps place_nth account_ref.simps order_lookup held_by_simps claim_seeds_def
      order_vm_simps
    by (simp add: needP_simps claim_bytes_fields CLAIM_LEN_def key_at_ok u64_at_ok from_le_8 two order_vm_simps place_nth demo_policy_valid [simplified])
qed

lemma checked_asset_held:
  assumes "L (am_key t) = held_by TOKEN (token_bytes (am_key m) (am_key wallet) v)" "L (am_key m) = held_by TOKEN (mint_bytes k s dec)" "am_key p = TOKEN"
    "ac_executable (L TOKEN)" "am_writable t" "\<not> am_writable m" "v < 2 ^ 64"
  shows "checked_asset wallet t m p inspect L = Inr v"
proof -
  have "byte_slice (token_bytes x y v) 121 8 = replicate 8 0" for x y by (simp add: token_bytes_def byte_slice_def zeros_def)
  then show ?thesis using assms unfolding checked_asset_def Let_def
    by (simp add: needP_simps token_bytes_fields mint_bytes_fields key_at_ok u64_at_ok from_le_8 zeros_def)
qed

lemma demo_assets:
  "u < 2 ^ 64 \<Longrightarrow> checked_asset (sw 3) (wr 13) (ro 11) (ro TOKEN) i (order_ledger cell u e) = Inr u"
  "e < 2 ^ 64 \<Longrightarrow> checked_asset (wr 60) (wr 61) (ro 11) (ro TOKEN) i (order_ledger cell u e) = Inr e"
  "checked_asset (sw 3) (wr 14) (ro 12) (ro TOKEN) i (order_ledger cell u e) = Inr 7"
  by (auto intro!: checked_asset_held simp: order_lookup)

lemma demo_ask_parsed: "ask_parse place_data = Inr demo_ask"
proof -
  have f: "length place_data = 104" "byte_slice place_data 4 2 = to_le 2 10000" "byte_slice place_data 8 8 = to_le 8 7" "byte_slice place_data 16 8 = to_le 8 1000"
    "byte_slice place_data 24 8 = to_le 8 5000000" "byte_slice place_data 32 8 = to_le 8 500" "byte_slice place_data 40 8 = to_le 8 1"
    "byte_slice place_data 48 8 = to_le 8 100" "byte_slice place_data 56 8 = to_le 8 1" "byte_slice place_data 64 8 = to_le 8 1"
    "byte_slice place_data 72 32 = key_bytes 5" "place_data ! 1 = 1" "place_data ! 2 = 0"
    by (simp_all add: place_data_def byte_slice_def)
  have two: "from_le (to_le 2 10000) = 10000" by (simp add: from_le_to_le)
  show ?thesis unfolding ask_parse_def Let_def by (simp add: u64_at_ok key_at_ok f [simplified] from_le_8 two needP_simps MAX_INPUT_def demo_ask_def)
qed

lemma demo_exposure: "exposure_convert place_accounts 6 0 10000 1 1 1000 0 (order_ledger cell u e) = Inr 4294967"
proof -
  have q: "exposure_q32_of \<lparr>sc_decimals = 6, sc_multiplier = 2 ^ 32, sc_effective = 2 ^ 63 - 1, sc_next = 2 ^ 32\<rparr> 1000 1 1 10000 = Inr 4294967" by code_simp
  show ?thesis
    unfolding exposure_convert_def converter_decode_def converter_exposure_def Let_def acct_def place_nth account_ref.simps order_lookup held_by_simps
    using q by (simp add: FIXED_RATIONAL_def needP_simps mint_bytes_fields native_ad_def)
qed

section \<open>The run\<close>

abbreviation empty_cell :: account where
  "empty_cell \<equiv> held_by 0 []"

lemma demo_place_checks: "place_checks order_vm 9 place_accounts place_data (order_ledger empty_cell 50000 0) = Inr (demo_ask, 255, 50000, 0)"
proof -
  let ?L = "order_ledger empty_cell 50000 0"
  have f: "length place_data = 104" "place_data ! 0 = 15" "place_data ! 1 = 1" "place_data ! 2 = 0" "place_data ! 3 = 0" "byte_slice place_data 6 2 = [0, 0]"
    by (simp_all add: place_data_def byte_slice_def)
  have terms: "ak_expires demo_ask = 500" "ak_nonce demo_ask = 7" "ak_instrument demo_ask = 5" "ak_stock demo_ask = 1000" "ak_model demo_ask = 0"
    "ak_bps demo_ask = 10000" "ak_numerator demo_ask = 1" "ak_denominator demo_ask = 1" "ak_price demo_ask = 5000000"
    by (simp_all add: demo_ask_def)
  have price: "ceil_q32 4294967 5000000 = Inr 5000" by code_simp
  show ?thesis
    unfolding place_checks_def Let_def acct_def place_nth account_ref.simps order_lookup held_by_simps demo_ask_parsed order_seeds_def order_vm_simps
    by (simp add: needP_simps f [simplified] FIXED_RATIONAL_def terms checked_add_def demo_claim_valid policy_bytes_fields demo_assets demo_exposure [simplified] price)
qed

definition placed_cell_bytes :: "nat list" where
  "placed_cell_bytes = put_fields (order_fields order_vm place_accounts place_data demo_ask) (replicate 336 0)"

lemma placed_fields:
  "length placed_cell_bytes = 336" "byte_slice placed_cell_bytes 0 8 = ORDER_TAG" "byte_slice placed_cell_bytes 8 32 = key_bytes 3"
  "byte_slice placed_cell_bytes 72 32 = key_bytes 63" "byte_slice placed_cell_bytes 104 32 = key_bytes 12" "byte_slice placed_cell_bytes 136 32 = key_bytes 11"
  "byte_slice placed_cell_bytes 168 32 = key_bytes 61" "byte_slice placed_cell_bytes 200 32 = key_bytes 14" "byte_slice placed_cell_bytes 232 8 = to_le 8 7"
  "byte_slice placed_cell_bytes 248 8 = to_le 8 1000" "byte_slice placed_cell_bytes 256 8 = to_le 8 5000000" "byte_slice placed_cell_bytes 264 8 = to_le 8 500"
  "byte_slice placed_cell_bytes 272 8 = to_le 8 0" "byte_slice placed_cell_bytes 280 8 = to_le 8 0" "placed_cell_bytes ! 328 = 1"
proof -
  let ?fs = "order_fields order_vm place_accounts place_data demo_ask"
  have asc: "ascending ?fs (length (replicate 336 (0 :: nat)))" by (rule order_fields_ascending) simp
  have "\<forall>(p, bs) \<in> set ?fs. p + length bs \<le> length (replicate 336 (0 :: nat))" using ascending_inside [OF asc] by auto
  then show len: "length placed_cell_bytes = 336" unfolding placed_cell_bytes_def by (simp only: length_put_fields length_replicate)
  have at: "byte_slice placed_cell_bytes p n = bs" if "(p, bs) \<in> set ?fs" "n = length bs" for p bs n
    unfolding placed_cell_bytes_def by (rule slice_put_fields [OF asc that])
  show "byte_slice placed_cell_bytes 0 8 = ORDER_TAG" "byte_slice placed_cell_bytes 8 32 = key_bytes 3" "byte_slice placed_cell_bytes 72 32 = key_bytes 63"
    "byte_slice placed_cell_bytes 104 32 = key_bytes 12" "byte_slice placed_cell_bytes 136 32 = key_bytes 11"
    "byte_slice placed_cell_bytes 168 32 = key_bytes 61" "byte_slice placed_cell_bytes 200 32 = key_bytes 14" "byte_slice placed_cell_bytes 232 8 = to_le 8 7"
    "byte_slice placed_cell_bytes 248 8 = to_le 8 1000" "byte_slice placed_cell_bytes 256 8 = to_le 8 5000000" "byte_slice placed_cell_bytes 264 8 = to_le 8 500"
    "byte_slice placed_cell_bytes 272 8 = to_le 8 0" "byte_slice placed_cell_bytes 280 8 = to_le 8 0"
    by (rule at; simp add: order_fields_def place_nth demo_ask_def ORDER_TAG_def)+
  have "byte_slice placed_cell_bytes 328 1 = [ORDER_OPEN]" by (rule at) (simp_all add: order_fields_def)
  then show "placed_cell_bytes ! 328 = 1" using nth_byte_slice [of 328 1 placed_cell_bytes 0] len by (simp add: ORDER_OPEN_def)
qed

lemma demo_stock_moves:
  assumes "x \<le> u" "u < 2 ^ 63" "e < 2 ^ 63"
  shows "order_invoke (checked_transfer place_accounts 2 6 3 0 7 x dec) seeds (order_ledger cell u e) = Inr (order_ledger cell (u - x) (e + x))"
proof -
  have v: "from_le (take 8 (to_le 8 x @ [dec])) = x" using assms by (simp add: from_le_8)
  show ?thesis
    using token_bytes_fields(4) [unfolded byte_slice_def] assms
    by (simp add: order_invoke_def spl_def checked_transfer_def place_nth Let_def byte_slice_def v balance_def put_u64_def set_data_def order_lookup from_le_8
        token_bytes_fields)
      (auto simp: confined_def order_ledger_def fun_eq_iff token_bytes_fields)
qed

lemma demo_returns:
  assumes "x \<le> e" "u < 2 ^ 63" "e < 2 ^ 63"
  shows "order_invoke (checked_transfer cancel_accounts 2 4 3 1 5 x dec) seeds (order_ledger cell u e) = Inr (order_ledger cell (u + x) (e - x))"
proof -
  have v: "from_le (take 8 (to_le 8 x @ [dec])) = x" using assms by (simp add: from_le_8)
  show ?thesis
    using token_bytes_fields(4) [unfolded byte_slice_def] assms
    by (simp add: order_invoke_def spl_def checked_transfer_def cancel_nth [simplified] Let_def byte_slice_def v balance_def put_u64_def set_data_def order_lookup from_le_8
        token_bytes_fields)
      (auto simp: confined_def order_ledger_def fun_eq_iff token_bytes_fields)
qed

lemma demo_creates:
  "create_cell order_vm 9 3 60 336 seeds (order_ledger empty_cell u e) = (Inr (), order_ledger (held_by 9 (replicate 336 0)) u e)"
proof -
  have alloc: "order_invoke (SystemAllocate 60 336) [seeds] (order_ledger empty_cell u e) = Inr (order_ledger (held_by 0 (replicate 336 0)) u e)"
    by (simp add: order_invoke_def order_lookup zeros_def set_data_def) (auto simp: order_ledger_def fun_eq_iff)
  have assign: "order_invoke (SystemAssign 60 9) [seeds] (order_ledger (held_by 0 (replicate 336 0)) u e) = Inr (order_ledger (held_by 9 (replicate 336 0)) u e)"
    by (simp add: order_invoke_def order_lookup) (auto simp: order_ledger_def fun_eq_iff held_by_def)
  show ?thesis
    by (simp only: create_cell_def bindS_def readL_def order_lookup held_by_simps order_vm_simps sum.case prod.case callL_def) (simp add: ret_def alloc assign)
qed

lemma demo_places:
  "order_place order_vm 9 place_accounts place_data (order_ledger empty_cell 50000 0) =
     (Inr placed_cell_bytes, order_ledger (held_by 9 placed_cell_bytes) 49000 1000)"
proof -
  have terms: "ak_nonce demo_ask = 7" "ak_stock demo_ask = 1000" by (simp_all add: demo_ask_def)
  have dec: "ac_data (acct (order_ledger cell u e) place_accounts 6) ! 44 = 6" "44 < length (ac_data (acct (order_ledger cell u e) place_accounts 6))" for cell u e
    by (simp_all add: acct_def place_nth order_lookup mint_bytes_fields)
  have create: "create_cell order_vm 9 3 60 336 (order_seeds 3 7 @ [[255]]) (order_ledger empty_cell 50000 0) =
      (Inr (), order_ledger (held_by 9 (replicate 336 0)) 50000 0)" by (rule demo_creates)
  have move: "transfer_checked order_vm place_accounts 2 6 3 0 7 1000 (order_ledger (held_by 9 (replicate 336 0)) 50000 0) =
      (Inr (), order_ledger (held_by 9 (replicate 336 0)) 49000 1000)"
    by (simp add: transfer_checked_def bindS_def readL_def dec callL_def order_vm_simps demo_stock_moves)
  have put: "set_data 60 placed_cell_bytes (order_ledger (held_by 9 (replicate 336 0)) 49000 1000) = order_ledger (held_by 9 placed_cell_bytes) 49000 1000"
    by (auto simp: set_data_def order_ledger_def fun_eq_iff)
  show ?thesis
    unfolding order_place_def bindS_def readL_def demo_place_checks
    by (simp add: place_nth [simplified] ORDER_LEN_def terms create move demo_assets checked_sub_def needP_simps liftR_def has_room_def order_lookup
        writeL_def placed_cell_bytes_def [symmetric] put acct_def placed_fields)
qed

definition filled_cell_bytes :: "nat list" where
  "filled_cell_bytes = write_at 280 (to_le 8 2000) (write_at 272 (to_le 8 1) (write_at 248 (to_le 8 600) placed_cell_bytes))"

lemma filled_fields:
  "length filled_cell_bytes = 336" "byte_slice filled_cell_bytes 0 8 = ORDER_TAG" "byte_slice filled_cell_bytes 8 32 = key_bytes 3"
  "byte_slice filled_cell_bytes 136 32 = key_bytes 11" "byte_slice filled_cell_bytes 168 32 = key_bytes 61"
  "byte_slice filled_cell_bytes 248 8 = to_le 8 600" "byte_slice filled_cell_bytes 272 8 = to_le 8 1" "filled_cell_bytes ! 328 = 1"
  by (simp_all add: filled_cell_bytes_def slice_write_other slice_write_same placed_fields nth_write_at)

lemma demo_fills:
  "record_fill place_accounts 1 0 400 2000 (order_ledger (held_by 9 placed_cell_bytes) u e) = (Inr (), order_ledger (held_by 9 filled_cell_bytes) u e)"
proof -
  have r: "record_checks 0 400 2000 placed_cell_bytes = Inr (600, 2000)"
    unfolding record_checks_def by (simp add: placed_fields u64_at_ok from_le_8 order_layout needP_simps checked_sub_def checked_add_def)
  have put: "set_data 60 filled_cell_bytes (set_data 60 (write_at 248 (to_le 8 600) placed_cell_bytes) (order_ledger (held_by 9 placed_cell_bytes) u e)) =
      order_ledger (held_by 9 filled_cell_bytes) u e"
    by (auto simp: set_data_def order_ledger_def fun_eq_iff)
  show ?thesis
    by (simp add: record_fill_def bindS_def readL_def acct_def place_nth [simplified] order_lookup r writeL_def checked_add_def liftR_def
        filled_cell_bytes_def [symmetric, simplified] put)
qed

definition closed_cell_bytes :: "nat list" where
  "closed_cell_bytes = write_at 328 [ORDER_CANCELLED] (write_at 272 (to_le 8 2) (write_at 248 (replicate 8 0) filled_cell_bytes))"

lemma demo_cancels:
  "order_cancel order_vm 9 cancel_accounts cancel_data (order_ledger (held_by 9 filled_cell_bytes) 49000 600) =
     (Inr (ORDER_TAG @ to_le 8 7 @ to_le 8 600 @ to_le 8 2), order_ledger (held_by 9 closed_cell_bytes) 49600 0)"
proof -
  let ?L = "order_ledger (held_by 9 filled_cell_bytes) 49000 600" and ?M = "order_ledger (held_by 9 filled_cell_bytes) 49600 0"
  have f: "length cancel_data = 16" "cancel_data ! 0 = 16" "byte_slice cancel_data 1 7 = replicate 7 0" "byte_slice cancel_data 8 8 = to_le 8 7"
    by (simp_all add: cancel_data_def byte_slice_def)
  have checks: "cancel_checks order_vm 9 cancel_accounts cancel_data ?L = Inr (7, 600, 1, 600, 49000)"
    unfolding cancel_checks_def Let_def acct_def cancel_nth account_ref.simps order_lookup held_by_simps order_seeds_def f
    by (simp add: needP_simps u64_at_ok f [simplified] from_le_8 order_vm_simps filled_fields order_layout demo_assets)
  have dec: "ac_data (acct ?L cancel_accounts 4) ! 44 = 6" "44 < length (ac_data (acct ?L cancel_accounts 4))"
    by (simp_all add: acct_def cancel_nth order_lookup mint_bytes_fields)
  have move: "transfer_checked_signed order_vm 9 cancel_accounts 2 4 3 1 5 0 7 600 ?L = (Inr (), ?M)"
    using demo_returns [of 600 600 49000]
    by (simp add: transfer_checked_signed_def bindS_def readL_def dec callL_def order_seeds_def order_vm_simps cancel_nth [simplified] needP_simps ret_def)
  have put: "set_data 60 closed_cell_bytes (set_data 60 (write_at 248 (replicate 8 0) filled_cell_bytes) ?M) = order_ledger (held_by 9 closed_cell_bytes) 49600 0"
    by (auto simp: set_data_def order_ledger_def fun_eq_iff)
  show ?thesis
    unfolding order_cancel_def bindS_def readL_def checks
    by (simp add: move [simplified] cancel_nth [simplified] demo_assets checked_sub_def needP_simps liftR_def has_room_def order_lookup filled_fields order_layout
        writeL_def checked_add_def ret_def)
      (use put in \<open>simp add: closed_cell_bytes_def order_layout flip: numeral_2_eq_2\<close>)
qed

section \<open>Witnesses\<close>

lemma not_venues: "(9 :: key) \<noteq> TOKEN" "(9 :: key) \<noteq> TOKEN_2022"
  by (simp_all add: TOKEN_def TOKEN_2022_def)

lemma demo_order_run: "order_run order_vm 9 60 [(400, 2000)] (Some 600) (order_ledger (held_by 9 closed_cell_bytes) 49600 0)"
proof -
  have placed: "order_run order_vm 9 60 [] None (order_ledger (held_by 9 placed_cell_bytes) 49000 1000)"
    by (rule run_placed [OF demo_places]) (simp add: place_nth [simplified])
  have "order_run order_vm 9 60 ([] @ [(400, 2000)]) None (order_ledger (held_by 9 filled_cell_bytes) 49000 1000)"
    by (rule run_filled [OF placed demo_fills]) (simp add: place_nth [simplified])
  then have some: "order_run order_vm 9 60 [(400, 2000)] None (order_ledger (held_by 9 filled_cell_bytes) 49000 1000)" by simp
  have filled: "order_run order_vm 9 60 [(400, 2000)] None (order_ledger (held_by 9 filled_cell_bytes) 49000 600)"
    by (rule run_outside [OF some]) (simp add: order_lookup)
  have "order_remaining filled_cell_bytes = 600" by (simp add: cell_u64_def filled_fields from_le_8)
  then show ?thesis using run_cancelled [OF filled demo_cancels] by (simp add: cancel_nth [simplified] order_lookup)
qed

theorem order_accounts_for_stock_witness:
  "order_total (ac_data (order_ledger (held_by 9 closed_cell_bytes) 49600 0 60)) =
     order_remaining (ac_data (order_ledger (held_by 9 closed_cell_bytes) 49600 0 60)) + 400 + 600
   \<and> (\<exists>e. order_place order_vm 9 place_accounts place_data (order_ledger (held_by 9 closed_cell_bytes) 49600 0) =
        (Inl e, order_ledger (held_by 9 closed_cell_bytes) 49600 0))"
  using order_accounts_for_stock [OF order_vm_ok not_venues demo_order_run] by (simp add: Let_def place_nth [simplified])

theorem order_cancel_returns_stock_witness:
  "tokens (order_ledger (held_by 9 closed_cell_bytes) 49600 0) 13 = tokens (order_ledger (held_by 9 filled_cell_bytes) 49000 600) 13 + 600"
proof -
  have "order_remaining filled_cell_bytes = 600" by (simp add: cell_u64_def filled_fields from_le_8)
  then show ?thesis
    using order_cancel_returns_stock [OF order_vm_ok not_venues demo_cancels] by (simp add: Let_def acct_def cancel_nth [simplified] order_lookup)
qed

definition fill_accounts :: "account_ref list" where
  "fill_accounts = [ro 3, wr 60, wr 61, wr 14, ro 63, ro 12, ro 11, ro TOKEN]"

definition demo_fill :: fill_terms where
  "demo_fill = \<lparr>ft_order = 1, ft_owner = 0, ft_escrow = 2, ft_cash = 3, ft_policy = 4, ft_cash_mint = 5, ft_product_mint = 6, ft_program = 7,
     ft_revision = 0, ft_stock_atoms = 400, ft_cash_atoms = 2000, ft_model = 0, ft_bps = 10000, ft_numerator = 1, ft_denominator = 1\<rparr>"

lemma fill_nth:
  "fill_accounts ! 0 = ro 3" "fill_accounts ! 1 = wr 60" "fill_accounts ! 2 = wr 61" "fill_accounts ! 3 = wr 14" "fill_accounts ! 4 = ro 63"
  "fill_accounts ! 5 = ro 12" "fill_accounts ! 6 = ro 11" "fill_accounts ! 7 = ro TOKEN" "length fill_accounts = 8"
  by (simp_all add: fill_accounts_def)

lemma demo_fill_exposure: "exposure_convert fill_accounts 6 0 10000 1 1 400 0 (order_ledger cell u e) = Inr 1717986"
proof -
  have q: "exposure_q32_of \<lparr>sc_decimals = 6, sc_multiplier = 2 ^ 32, sc_effective = 2 ^ 63 - 1, sc_next = 2 ^ 32\<rparr> 400 1 1 10000 = Inr 1717986" by code_simp
  show ?thesis
    unfolding exposure_convert_def converter_decode_def converter_exposure_def Let_def acct_def fill_nth account_ref.simps order_lookup held_by_simps
    using q by (simp add: FIXED_RATIONAL_def needP_simps mint_bytes_fields native_ad_def)
qed

lemma demo_fill_valid: "validate_fill order_vm 9 fill_accounts demo_fill (order_ledger (held_by 9 placed_cell_bytes) 49000 1000) = Inr 7"
proof -
  have price: "ceil_q32 1717986 5000000 = Inr 2000" by code_simp
  show ?thesis
    unfolding validate_fill_def Let_def acct_def demo_fill_def fill_terms.simps fill_nth account_ref.simps order_lookup held_by_simps order_seeds_def
    by (simp add: needP_simps placed_fields u64_at_ok from_le_8 order_layout order_vm_simps fill_nth [simplified] demo_assets demo_fill_exposure [simplified] price)
qed

theorem fill_pays_order_price_witness:
  "1717986 * 5000000 \<le> 2000 * (2 :: nat) ^ 32
   \<and> ft_stock_atoms demo_fill \<le> order_remaining (ac_data (acct (order_ledger (held_by 9 placed_cell_bytes) 49000 1000) fill_accounts (ft_order demo_fill)))"
proof -
  have "cell_u64 placed_cell_bytes 256 = 5000000" by (simp add: cell_u64_def placed_fields from_le_8)
  then show ?thesis
    using fill_pays_order_price [OF demo_fill_valid]
    by (auto simp: Let_def demo_fill_def acct_def fill_nth [simplified] order_lookup order_vm_simps demo_fill_exposure [simplified])
qed

end
