(* ===== verification/GraphRun.thy ===== *)
theory GraphRun
  imports Policy Graph
begin

text \<open>
  Typed graph settlement (\<open>programs/stocklana-settle/src/graph.rs\<close>): a signed graph is checked against the
  accounts before its first call, its legs are called one by one with the budget that the input or earlier
  legs left, every balance is read back after every call, and the result must spend the exact input, reach
  the minimum and leave the transit assets where they were. The residual oracle of \<open>allocation.rs\<close> that picks
  the next leg of a reflow graph is an argument: nothing below relies on its answers.
\<close>

section \<open>Venue programs\<close>

fun venue_program :: "venue \<Rightarrow> key" where
  "venue_program Phoenix = PHOENIX"
| "venue_program RaydiumCpmm = RAYDIUM"
| "venue_program OrcaWhirlpool = 0xe03685f8e909053e458121c66f5a76aedc7706aa11c82f8aa952a8f2b7879a9"
| "venue_program RaydiumClmm = 0xa5d5ca9e04cf5db590b714ba2fe32cb159133fc1c192b72257fd07d39cb0401e"
| "venue_program MeteoraDlmm = 0x4e9e12fbc84e826c932cce9e2640cce15590c1c6273b0925708ba3b8520b0bc"
| "venue_program MeteoraDammV2 = 0x92d2135657a159c2b87d4b66a70db8e9752389ff76aaf206ced063a38f95aed"
| "venue_program RaydiumAmmV4 = 0x4bd949c43602c33f207790ed16a3524ca1b9975cf121a2a90cffec7df8b68acd"
| "venue_program ByrealClmm = 0x634d20f1bf56dd164e3c13c7836a4229ec5ab21ff54528390a51789f3cdbbdb"
| "venue_program Riptide = 0xcbcc08307b47ca54d6b52f31d59682d7ba7f1bdbc905d762b0ff05df2bc4b4a"

fun venue_index :: "venue \<Rightarrow> nat" where
  "venue_index Phoenix = 0"
| "venue_index RaydiumCpmm = 1"
| "venue_index OrcaWhirlpool = 2"
| "venue_index RaydiumClmm = 3"
| "venue_index MeteoraDlmm = 4"
| "venue_index MeteoraDammV2 = 5"
| "venue_index RaydiumAmmV4 = 6"
| "venue_index ByrealClmm = 7"
| "venue_index Riptide = 8"

section \<open>Loops over accounts\<close>

text \<open>\<open>for x in xs { f(x)?; }\<close> and a loop that stores each result.\<close>

fun each :: "('a \<Rightarrow> unit res) \<Rightarrow> 'a list \<Rightarrow> unit res" where
  "each f [] = Inr ()"
| "each f (x # xs) = bindR (f x) (\<lambda>_. each f xs)"

fun gather :: "('a \<Rightarrow> 'b res) \<Rightarrow> 'a list \<Rightarrow> 'b list res" where
  "gather f [] = Inr []"
| "gather f (x # xs) = bindR (f x) (\<lambda>y. bindR (gather f xs) (\<lambda>ys. Inr (y # ys)))"

lemma each_Inr [monad_simps]: "each f xs = Inr u \<longleftrightarrow> (\<forall>x \<in> set xs. f x = Inr ())"
  by (induction xs) (auto simp: monad_simps)

lemma gather_Inr: "gather f xs = Inr ys \<longleftrightarrow> length ys = length xs \<and> (\<forall>i < length xs. f (xs ! i) = Inr (ys ! i))"
proof (induction xs arbitrary: ys)
  case (Cons x xs)
  show ?case by (cases ys) (auto simp: monad_simps Cons.IH nth_Cons split: nat.splits)
qed auto

section \<open>Balances\<close>

definition public_balance :: "account_ref \<Rightarrow> ledger \<Rightarrow> nat res" where
  "public_balance r L =
     (let d = ac_data (L (am_key r)) in bindR (needP (165 \<le> length d \<and> d ! 108 = 1) IDENTITY) (\<lambda>_. ad (u64_at d 64)))"

definition asset_held :: "account_ref list \<Rightarrow> graph \<Rightarrow> bool \<Rightarrow> nat \<Rightarrow> ledger \<Rightarrow> nat \<Rightarrow> nat res" where
  "asset_held a g inspect_mint wallet L i =
     (let s = gr_assets g ! i in checked_asset (a ! wallet) (a ! as_token s) (a ! as_mint s) (a ! as_program s) inspect_mint L)"

abbreviation token_key :: "account_ref list \<Rightarrow> graph \<Rightarrow> nat \<Rightarrow> key" where
  "token_key a g i \<equiv> key_in a (as_token (gr_assets g ! i))"

abbreviation mint_key :: "account_ref list \<Rightarrow> graph \<Rightarrow> nat \<Rightarrow> key" where
  "mint_key a g i \<equiv> key_in a (as_mint (gr_assets g ! i))"

section \<open>Before the first call\<close>

text \<open>The signed nonce: the account, its owner's key and the sequence number.\<close>

definition nonce_checks :: "key \<Rightarrow> account_ref list \<Rightarrow> nat \<Rightarrow> nat \<Rightarrow> nat \<Rightarrow> ledger \<Rightarrow> unit res" where
  "nonce_checks program a wallet nonce sequence L =
     bindR (needP (wallet < length a \<and> nonce < length a \<and> wallet \<noteq> nonce \<and> am_signer (a ! wallet) \<and> am_writable (a ! nonce)
              \<and> ac_owner (acct L a nonce) = program) IDENTITY) (\<lambda>_.
     let n = ac_data (acct L a nonce)
     in bindR (needP (length n = NONCE_LEN \<and> byte_slice n 0 8 = NONCE_TAG \<and> byte_slice n 8 32 = key_bytes (key_in a wallet)) IDENTITY) (\<lambda>_.
        bindR (ad (u64_at n 40)) (\<lambda>stored. needP (stored = sequence) REPLAY)))"

definition preflight_asset :: "account_ref list \<Rightarrow> graph \<Rightarrow> nat \<Rightarrow> ledger \<Rightarrow> nat \<Rightarrow> nat res" where
  "preflight_asset a g wallet L i =
     bindR (asset_held a g True wallet L i) (\<lambda>v.
     bindR (each (\<lambda>j. needP (token_key a g i \<noteq> token_key a g j \<and> mint_key a g i \<noteq> mint_key a g j) IDENTITY) [0..<i]) (\<lambda>_. Inr v))"

text \<open>
  The assets an account is, as the bits of its flag byte. The code compares eight bytes before the keys; equal
  keys agree on them.
\<close>

definition asset_flags :: "account_ref list \<Rightarrow> graph \<Rightarrow> nat \<Rightarrow> nat list" where
  "asset_flags a g index = filter (\<lambda>i. key_in a index = token_key a g i) [0..<length (gr_assets g)]"

text \<open>A writable token account that is no asset of the graph must not be the wallet's.\<close>

definition unaliased :: "account_ref list \<Rightarrow> graph \<Rightarrow> nat \<Rightarrow> nat list \<Rightarrow> ledger \<Rightarrow> nat \<Rightarrow> unit res" where
  "unaliased a g wallet aggregate L index =
     (let x = acct L a index; d = ac_data x
      in if asset_flags a g index = [] \<and> am_writable (a ! index) \<and> (ac_owner x = TOKEN \<or> ac_owner x = TOKEN_2022) \<and> index \<notin> set aggregate
            \<and> 165 \<le> length d \<and> (ac_owner x = TOKEN \<or> length d = 165 \<or> (165 < length d \<and> d ! 165 = 2))
         then needP (byte_slice d 32 32 \<noteq> key_bytes (key_in a wallet)) IDENTITY
         else Inr ())"

definition leg_valid :: "account_ref list \<Rightarrow> graph \<Rightarrow> nat \<Rightarrow> nat \<Rightarrow> ledger \<Rightarrow> leg \<Rightarrow> unit res" where
  "leg_valid a g wallet nonce L l =
     (let id = venue_program (lg_venue l); at = (\<lambda>p. a ! (lg_accounts l ! p)); (pool, signer, src, dst) = bindings (lg_venue l) (lg_direction l)
      in bindR (executable_is (a ! lg_program l) id L) (\<lambda>_.
         bindR (needP (ac_owner (L (am_key (at pool))) = id \<and> am_key (at signer) = key_in a wallet
                  \<and> am_key (at src) = token_key a g (lg_source l) \<and> am_key (at dst) = token_key a g (lg_destination l)) IDENTITY) (\<lambda>_.
         each (\<lambda>p.
           bindR (needP (am_key (at p) \<noteq> key_in a nonce) IDENTITY) (\<lambda>_.
           bindR (if writable_with_owner (lg_venue l) p (ac_owner (L (am_key (at p))) = id) \<and> am_key (at p) \<noteq> id
                  then needP (am_writable (at p)) IDENTITY else Inr ()) (\<lambda>_.
           if p \<noteq> src \<and> p \<noteq> dst then needP (asset_flags a g (lg_accounts l ! p) = []) IDENTITY else Inr ())))
           [0..<length (lg_accounts l)])))"

definition graph_preflight ::
  "vm \<Rightarrow> key \<Rightarrow> account_ref list \<Rightarrow> nat list \<Rightarrow> nat \<Rightarrow> nat \<Rightarrow> nat list \<Rightarrow> nat \<Rightarrow> ledger \<Rightarrow> unit res"
where
  "graph_preflight vm program a d wallet nonce aggregate pending L =
     bindR (ad (graph_decode d (length a))) (\<lambda>g.
     bindR (nonce_checks program a wallet nonce (gr_sequence g) L) (\<lambda>_.
     bindR (needP (vm_slot vm \<le> gr_deadline g \<and> 0 \<le> vm_time vm) EXPIRED) (\<lambda>_.
     bindR (gather (preflight_asset a g wallet L) [0..<length (gr_assets g)]) (\<lambda>before.
     bindR (needP (case checked_add 64 (before ! 0) pending of None \<Rightarrow> False | Some amount \<Rightarrow> gr_input g \<le> amount) BOUNDS) (\<lambda>_.
     bindR (each (unaliased a g wallet aggregate L) [0..<length a]) (\<lambda>_.
     each (leg_valid a g wallet nonce L) (gr_legs g)))))))"

section \<open>One leg\<close>

text \<open>The balances last read, what each candidate spent, the calls made and the receipt buffer.\<close>

record run_state =
  rs_current :: "nat list"
  rs_used :: "nat list"
  rs_executed :: nat
  rs_receipts :: "nat list"

definition leg_at :: "graph \<Rightarrow> nat \<Rightarrow> leg res" where
  "leg_at g index =
     (if index < length (gr_legs g) then Inr (gr_legs g ! index)
      else if index < MAX_CANDIDATES then Inl (Prog (Custom BOUNDS)) else Inl Panic)"

definition input_left :: "graph \<Rightarrow> nat list \<Rightarrow> nat list \<Rightarrow> nat res" where
  "input_left g before current =
     bindR (prog_or (checked_sub (before ! 0) (current ! 0)) CONSERVATION) (\<lambda>paid_in. prog_or (checked_sub (gr_input g) paid_in) CONSERVATION)"

definition leg_available :: "graph \<Rightarrow> nat list \<Rightarrow> nat list \<Rightarrow> leg \<Rightarrow> nat res" where
  "leg_available g before current l =
     (if lg_source l = 0 then input_left g before current
      else prog_or (checked_sub (current ! lg_source l) (before ! lg_source l)) CONSERVATION)"

text \<open>The instruction bytes of a leg, or \<open>None\<close> where a Phoenix book has nothing to give and the leg is skipped.\<close>

definition leg_bytes :: "vm \<Rightarrow> account_ref list \<Rightarrow> graph \<Rightarrow> nat \<Rightarrow> leg \<Rightarrow> nat \<Rightarrow> ledger \<Rightarrow> nat list option res" where
  "leg_bytes vm a g wallet l budget L =
     (if lg_venue l = Phoenix then
        bindR (ad (book_decode (ac_data (acct L a (lg_accounts l ! 2))))) (\<lambda>book.
        bindR (ad (book_quote book (key_in a wallet) (lg_direction l) budget ADAPTER_MAX_MATCHES (vm_slot vm) (nat (vm_time vm mod 2 ^ 64)))) (\<lambda>expected.
        if fl_input expected = 0 \<or> fl_output expected = 0 then Inr None
        else bindR (ad (phoenix_ioc (pb_header book) (lg_direction l) budget ADAPTER_MAX_MATCHES (gr_deadline g))) (\<lambda>bytes.
          Inr (Some (take PHOENIX_IOC_LEN bytes)))))
      else bindR (ad (swap_data (lg_venue l) budget (lg_direction l))) (\<lambda>(bytes, len). Inr (Some (take len bytes))))"

definition leg_call :: "account_ref list \<Rightarrow> leg \<Rightarrow> nat list \<Rightarrow> ledger \<Rightarrow> cpi" where
  "leg_call a l bytes L =
     (let id = venue_program (lg_venue l); signer = fst (snd (bindings (lg_venue l) (lg_direction l)))
      in Call \<lparr>ix_program = id,
           ix_accounts = map (\<lambda>p. let k = key_in a (lg_accounts l ! p)
             in \<lparr>am_key = k, am_signer = (p = signer),
                 am_writable = (writable_with_owner (lg_venue l) p (ac_owner (L k) = id) \<and> k \<noteq> id)\<rparr>) [0..<length (lg_accounts l)],
           ix_data = bytes\<rparr>)"

text \<open>What the leg spent and received, from the balances around its call.\<close>

definition leg_effect :: "graph \<Rightarrow> leg \<Rightarrow> nat \<Rightarrow> nat list \<Rightarrow> nat list \<Rightarrow> (nat \<times> nat) res" where
  "leg_effect g l budget previous current =
     bindR (prog_or (checked_sub (previous ! lg_source l) (current ! lg_source l)) CONSERVATION) (\<lambda>paid_in.
     bindR (prog_or (checked_sub (current ! lg_destination l) (previous ! lg_destination l)) CONSERVATION) (\<lambda>received.
     bindR (needP (0 < paid_in \<and> paid_in \<le> budget \<and> 0 < received) CONSERVATION) (\<lambda>_. Inr (paid_in, received))))"

definition leg_entry :: "bool \<Rightarrow> leg \<Rightarrow> nat \<Rightarrow> nat \<Rightarrow> nat \<Rightarrow> nat \<Rightarrow> nat \<Rightarrow> nat list" where
  "leg_entry reflow l budget paid_in received index calls =
     concat (map (to_le 8) ([venue_index (lg_venue l), budget, paid_in, received] @ (if reflow then [index, calls] else [])))"

definition receipt_stride :: "bool \<Rightarrow> nat" where
  "receipt_stride reflow = (if reflow then 48 else 32)"

definition graph_turn ::
  "vm \<Rightarrow> account_ref list \<Rightarrow> graph \<Rightarrow> nat \<Rightarrow> nat \<Rightarrow> nat list \<Rightarrow> bool \<Rightarrow> nat \<Rightarrow> nat \<times> nat \<times> nat \<Rightarrow> run_state \<Rightarrow> (ledger, run_state) comp"
where
  "graph_turn vm a g wallet lamports before reflow iteration choice st =
     (case choice of (index, selected, calls) \<Rightarrow>
     bindS (liftR (leg_at g index)) (\<lambda>l.
     bindS (liftR (leg_available g before (rs_current st) l)) (\<lambda>available.
     let budget = min (min available (lg_budget l)) selected
     in if budget = 0 then ret st
        else
          bindS (readL (leg_bytes vm a g wallet l budget)) (\<lambda>bytes.
          case bytes of None \<Rightarrow> ret st
          | Some bs \<Rightarrow>
              bindS (\<lambda>L. callL vm (leg_call a l bs L) [] L) (\<lambda>_.
              bindS (readL (\<lambda>L. needP (ac_lamports (acct L a wallet) = lamports) CONSERVATION)) (\<lambda>_.
              bindS (readL (\<lambda>L. gather (\<lambda>s. public_balance (a ! as_token s) L) (gr_assets g))) (\<lambda>current.
              bindS (liftR (leg_effect g l budget (rs_current st) current)) (\<lambda>(paid_in, received).
              bindS (liftR (prog_or (checked_add 64 (rs_used st ! index) paid_in) CONSERVATION)) (\<lambda>used.
              bindS (liftR (each (\<lambda>i. if i \<noteq> lg_source l \<and> i \<noteq> lg_destination l then needP (current ! i = rs_current st ! i) CONSERVATION else Inr ())
                       [0..<length (gr_assets g)])) (\<lambda>_.
              ret \<lparr>rs_current = current, rs_used = (rs_used st)[index := used], rs_executed = rs_executed st + 1,
                   rs_receipts = write_at (32 + iteration * receipt_stride reflow) (leg_entry reflow l budget paid_in received index calls)
                     (rs_receipts st)\<rparr>))))))))))"

section \<open>The run\<close>

text \<open>The residual oracle: built once on the preflighted accounts, asked for the next leg, budget and number of calls.\<close>

record 'o residual_oracle =
  ro_open :: "account_ref list \<Rightarrow> graph \<Rightarrow> ledger \<Rightarrow> 'o res"
  ro_next :: "account_ref list \<Rightarrow> graph \<Rightarrow> nat \<Rightarrow> nat list \<Rightarrow> nat \<Rightarrow> ledger \<Rightarrow> 'o \<Rightarrow> ((nat \<times> nat \<times> nat) \<times> 'o) res"

fun graph_turns ::
  "'o residual_oracle \<Rightarrow> vm \<Rightarrow> account_ref list \<Rightarrow> graph \<Rightarrow> nat \<Rightarrow> nat \<Rightarrow> nat list \<Rightarrow> nat list \<Rightarrow> 'o option \<Rightarrow> run_state \<Rightarrow> (ledger, run_state) comp"
where
  "graph_turns orc vm a g wallet lamports before [] picker st = ret st"
| "graph_turns orc vm a g wallet lamports before (iteration # rest) picker st =
     bindS (liftR (input_left g before (rs_current st))) (\<lambda>remaining.
     case picker of
       None \<Rightarrow>
         bindS (graph_turn vm a g wallet lamports before False iteration (iteration, 2 ^ 64 - 1, 0) st) (\<lambda>st'.
         graph_turns orc vm a g wallet lamports before rest None st')
     | Some s \<Rightarrow>
         if remaining = 0 then ret st
         else
           bindS (if iteration = 0 \<and> gr_seed_input g \<noteq> 0 then ret ((0, gr_seed_input g, 0), s)
                  else readL (\<lambda>L. ro_next orc a g remaining (rs_used st) (rs_executed st) L s)) (\<lambda>(choice, s').
           bindS (graph_turn vm a g wallet lamports before True iteration choice st) (\<lambda>st'.
           graph_turns orc vm a g wallet lamports before rest (Some s') st')))"

record graph_outcome =
  go_sequence :: nat
  go_in :: nat
  go_out :: nat
  go_receipt :: "nat list"

definition graph_close :: "account_ref list \<Rightarrow> graph \<Rightarrow> nat \<Rightarrow> nat list \<Rightarrow> bool \<Rightarrow> run_state \<Rightarrow> ledger \<Rightarrow> graph_outcome res" where
  "graph_close a g wallet before reflow st L =
     (let current = rs_current st; sink = length (gr_assets g) - 1
      in bindR (prog_or (checked_sub (before ! 0) (current ! 0)) CONSERVATION) (\<lambda>actual_in.
         bindR (prog_or (checked_sub (current ! sink) (before ! sink)) CONSERVATION) (\<lambda>actual_out.
         bindR (needP (actual_in = gr_input g) CONSERVATION) (\<lambda>_.
         bindR (needP (gr_min_out g \<le> actual_out) MIN_OUT) (\<lambda>_.
         bindR (each (\<lambda>i. needP (current ! i = before ! i) CONSERVATION) [1..<sink]) (\<lambda>_.
         bindR (each (\<lambda>i. bindR (asset_held a g False wallet L i) (\<lambda>v. needP (v = current ! i) IDENTITY)) [0..<length (gr_assets g)]) (\<lambda>_.
         let receipts = write_at 0 (concat (map (to_le 8) [gr_sequence g, actual_in, actual_out, rs_executed st])) (rs_receipts st);
             len = 32 + (if reflow then rs_executed st * 48 else length (gr_legs g) * 32)
         in Inr \<lparr>go_sequence = gr_sequence g, go_in = actual_in, go_out = actual_out, go_receipt = take len receipts\<rparr>)))))))"

definition graph_execute :: "'o residual_oracle \<Rightarrow> vm \<Rightarrow> account_ref list \<Rightarrow> nat list \<Rightarrow> nat \<Rightarrow> (ledger, graph_outcome) comp" where
  "graph_execute orc vm a d wallet =
     bindS (liftR (ad (graph_decode d (length a)))) (\<lambda>g.
     bindS (readL (\<lambda>L. gather (asset_held a g False wallet L) [0..<length (gr_assets g)])) (\<lambda>before.
     bindS (liftR (needP (gr_input g \<le> before ! 0) BOUNDS)) (\<lambda>_.
     bindS (if 0 < gr_reflow_calls g then bindS (readL (ro_open orc a g)) (\<lambda>s. ret (Some s)) else ret None) (\<lambda>picker.
     bindS (readL (\<lambda>L. Inr (ac_lamports (acct L a wallet)))) (\<lambda>lamports.
     bindS (graph_turns orc vm a g wallet lamports before [0..<(if 0 < gr_reflow_calls g then 4 else length (gr_legs g))] picker
              \<lparr>rs_current = before, rs_used = replicate MAX_CANDIDATES 0, rs_executed = 0, rs_receipts = replicate 224 0\<rparr>) (\<lambda>st.
     readL (graph_close a g wallet before (0 < gr_reflow_calls g) st)))))))"

text \<open>The nonce advances once, after the run.\<close>

definition settle_graph_for :: "'o residual_oracle \<Rightarrow> vm \<Rightarrow> key \<Rightarrow> account_ref list \<Rightarrow> nat list \<Rightarrow> nat \<Rightarrow> nat \<Rightarrow> (ledger, nat list) comp" where
  "settle_graph_for orc vm program a d wallet nonce =
     bindS (readL (graph_preflight vm program a d wallet nonce [] 0)) (\<lambda>_.
     bindS (graph_execute orc vm a d wallet) (\<lambda>outcome.
     bindS (liftR (prog_or (checked_add 64 (go_sequence outcome) 1) BOUNDS)) (\<lambda>next_sequence.
     bindS (readL (has_room (key_in a nonce) NONCE_LEN)) (\<lambda>_.
     bindS (writeL (key_in a nonce) (put_outcome next_sequence (go_in outcome) (go_out outcome))) (\<lambda>_.
     ret (go_receipt outcome))))))"

definition settle_graph :: "'o residual_oracle \<Rightarrow> vm \<Rightarrow> key \<Rightarrow> account_ref list \<Rightarrow> nat list \<Rightarrow> (ledger, nat list) comp" where
  "settle_graph orc vm program a d = settle_graph_for orc vm program a d 0 1"

end
