(* ===== verification/GraphSafe.thy ===== *)
theory GraphSafe
  imports GraphRun OrderLife
begin

text \<open>
  What a settled graph has done, whatever the venue programs and the residual oracle answered: the balances of
  its assets went from start to end in moves of its legs, within their budgets; the exact input left the
  source, the minimum reached the sink, the transit assets are where they were, and the nonce advanced once.
\<close>

section \<open>Moves\<close>

text \<open>
  The abstract machine: balances of the assets, one leg at a time, spending what the input still allows or
  what earlier moves brought in.
\<close>

definition leg_move :: "graph \<Rightarrow> nat list \<Rightarrow> nat list \<Rightarrow> nat list \<Rightarrow> bool" where
  "leg_move g before cur cur' \<longleftrightarrow>
     (\<exists>l \<in> set (gr_legs g). \<exists>x y. 0 < x \<and> x \<le> lg_budget l \<and> 0 < y
        \<and> (if lg_source l = 0 then before ! 0 + x \<le> cur ! 0 + gr_input g \<and> x \<le> cur ! 0 else before ! lg_source l + x \<le> cur ! lg_source l)
        \<and> cur' = cur[lg_source l := cur ! lg_source l - x, lg_destination l := cur ! lg_destination l + y])"

definition asset_balances :: "account_ref list \<Rightarrow> graph \<Rightarrow> ledger \<Rightarrow> nat list" where
  "asset_balances a g L = map (\<lambda>s. tokens L (key_in a (as_token s))) (gr_assets g)"

lemma length_asset_balances [simp]: "length (asset_balances a g L) = length (gr_assets g)"
  by (simp add: asset_balances_def)

definition graph_touched :: "account_ref list \<Rightarrow> graph \<Rightarrow> key set" where
  "graph_touched a g = key_in a ` (\<Union>l \<in> set (gr_legs g). set (lg_accounts l))"

lemma leg_call_writable: "l \<in> set (gr_legs g) \<Longrightarrow> cpi_writable (leg_call a l bs L) \<subseteq> graph_touched a g"
  by (fastforce simp: leg_call_def Let_def graph_touched_def)

lemma leg_call_program: "cpi_program vm (leg_call a l bs L) = venue_program (lg_venue l)"
  by (simp add: leg_call_def Let_def)

lemma public_balance_value: "public_balance r L = Inr v \<Longrightarrow> v = tokens L (am_key r)"
  by (auto simp: public_balance_def Let_def monad_simps tokens_def dest!: u64_at_value)

lemma asset_balances_read:
  assumes "gather (\<lambda>s. public_balance (a ! as_token s) L) (gr_assets g) = Inr cur"
  shows "cur = asset_balances a g L"
proof (rule nth_equalityI)
  show "length cur = length (asset_balances a g L)" using assms by (simp add: gather_Inr)
  show "cur ! i = asset_balances a g L ! i" if "i < length cur" for i
    using assms that public_balance_value by (auto simp: gather_Inr asset_balances_def)
qed

lemma asset_balances_held:
  assumes "gather (asset_held a g flag wallet L) [0..<length (gr_assets g)] = Inr cur"
  shows "cur = asset_balances a g L"
proof (rule nth_equalityI)
  show "length cur = length (asset_balances a g L)" using assms by (simp add: gather_Inr)
  show "cur ! i = asset_balances a g L ! i" if "i < length cur" for i
    using assms that checked_asset_value(1) by (auto simp: gather_Inr asset_balances_def asset_held_def Let_def)
qed

section \<open>One turn\<close>

text \<open>A turn skips, or calls one leg of the graph and sees one move.\<close>

lemma effect_balances:
  assumes l: "lg_source l < lg_destination l" "lg_destination l < length cur" and n: "length cur = length cur'"
    and moved: "leg_effect g l budget cur cur' = Inr (x, y)"
    and same: "\<forall>i < length cur. i \<noteq> lg_source l \<and> i \<noteq> lg_destination l \<longrightarrow> cur' ! i = cur ! i"
  shows "cur' = cur[lg_source l := cur ! lg_source l - x, lg_destination l := cur ! lg_destination l + y]"
    "0 < x" "x \<le> budget" "0 < y" "x \<le> cur ! lg_source l"
proof -
  have m: "cur' ! lg_source l \<le> cur ! lg_source l" "x = cur ! lg_source l - cur' ! lg_source l"
    "cur ! lg_destination l \<le> cur' ! lg_destination l" "y = cur' ! lg_destination l - cur ! lg_destination l"
    "0 < x" "x \<le> budget" "0 < y"
    using moved by (auto simp: leg_effect_def monad_simps)
  then show "0 < x" "x \<le> budget" "0 < y" "x \<le> cur ! lg_source l" by auto
  show "cur' = cur[lg_source l := cur ! lg_source l - x, lg_destination l := cur ! lg_destination l + y]"
    using m l n same by (intro nth_equalityI) (auto simp: nth_list_update)
qed

lemma graph_turn_cases:
  assumes "graph_turn vm a g wallet lamports before reflow iteration choice st L = (Inr st', L')"
  obtains (skip) "st' = st" "L' = L"
  | (call) index l available budget bs cur paid_in received where
    "index < length (gr_legs g)" "l = gr_legs g ! index" "leg_available g before (rs_current st) l = Inr available"
    "budget \<le> available" "budget \<le> lg_budget l" "vm_invoke vm (leg_call a l bs L) [] L = Inr L'"
    "ac_lamports (acct L' a wallet) = lamports" "cur = asset_balances a g L'" "leg_effect g l budget (rs_current st) cur = Inr (paid_in, received)"
    "\<forall>i \<in> {0..<length (gr_assets g)}. i = lg_source l \<or> i = lg_destination l \<or> cur ! i = rs_current st ! i" "rs_current st' = cur"
proof -
  obtain index selected calls where choice: "choice = (index, selected, calls)" by (cases choice) auto
  obtain l available where l: "leg_at g index = Inr l" "leg_available g before (rs_current st) l = Inr available"
    using assms unfolding graph_turn_def choice by (auto simp: bindS_Inr dest!: sym [of "Inr _"])
  let ?budget = "min (min available (lg_budget l)) selected"
  have idx: "index < length (gr_legs g)" "l = gr_legs g ! index" using l(1) by (auto simp: leg_at_def split: if_splits)
  show thesis
  proof (cases "?budget = 0")
    case True
    then show ?thesis using assms l skip unfolding graph_turn_def choice Let_def by (auto simp: bindS_Inr dest!: sym [of "Inr _"])
  next
    case False
    obtain bytes where bytes: "leg_bytes vm a g wallet l ?budget L = Inr bytes"
      using assms l False unfolding graph_turn_def choice Let_def by (auto simp: bindS_Inr dest!: sym [of "Inr _"])
    show ?thesis
    proof (cases bytes)
      case None
      then show ?thesis using assms l False bytes skip unfolding graph_turn_def choice Let_def by (auto simp: bindS_Inr dest!: sym [of "Inr _"])
    next
      case (Some bs)
      note run = assms [unfolded graph_turn_def choice Let_def prod.case bindS_Inr liftR_eq readL_eq]
      obtain cur paid_in received where r: "vm_invoke vm (leg_call a l bs L) [] L = Inr L'" "ac_lamports (acct L' a wallet) = lamports"
        "gather (\<lambda>s. public_balance (a ! as_token s) L') (gr_assets g) = Inr cur" "leg_effect g l ?budget (rs_current st) cur = Inr (paid_in, received)"
        "\<forall>i \<in> {0..<length (gr_assets g)}. i = lg_source l \<or> i = lg_destination l \<or> cur ! i = rs_current st ! i" "rs_current st' = cur"
        using run l False bytes Some by (auto simp: bindS_Inr monad_simps split: if_splits dest!: sym [of "Inr _"])
      show ?thesis by (rule call [OF idx l(2) _ _ r(1,2) asset_balances_read [OF r(3)] r(4,5,6)]) auto
    qed
  qed
qed

text \<open>What is known between turns.\<close>

definition tracked :: "key \<Rightarrow> account_ref list \<Rightarrow> graph \<Rightarrow> nat \<Rightarrow> ledger \<Rightarrow> run_state \<Rightarrow> ledger \<Rightarrow> bool" where
  "tracked program a g wallet L0 st L \<longleftrightarrow>
     rs_current st = asset_balances a g L \<and> (leg_move g (asset_balances a g L0))\<^sup>*\<^sup>* (asset_balances a g L0) (asset_balances a g L)
     \<and> spares program (graph_touched a g) L0 L \<and> ac_lamports (acct L a wallet) = ac_lamports (acct L0 a wallet)"

lemma graph_turn_tracked:
  assumes ok: "runtime_ok program vm" "\<And>v. venue_program v \<noteq> program" and g: "graph_ok (length a) g"
    and pre: "tracked program a g wallet L0 st L"
    and run: "graph_turn vm a g wallet (ac_lamports (acct L0 a wallet)) (asset_balances a g L0) reflow iteration choice st L = (Inr st', L')"
  shows "tracked program a g wallet L0 st' L'"
  using run
proof (cases rule: graph_turn_cases)
  case skip
  then show ?thesis using pre by simp
next
  case (call index l available budget bs cur paid_in received)
  let ?b = "asset_balances a g L0" and ?c = "asset_balances a g L"
  have cur: "rs_current st = ?c" "length cur = length ?c" using pre call by (simp_all add: tracked_def)
  have l: "l \<in> set (gr_legs g)" "lg_source l < lg_destination l" "lg_destination l < length ?c"
    using call(1,2) g by (auto simp: graph_ok_def leg_ok_def)
  have m: "cur = ?c[lg_source l := ?c ! lg_source l - paid_in, lg_destination l := ?c ! lg_destination l + received]"
    "0 < paid_in" "paid_in \<le> budget" "0 < received" "paid_in \<le> ?c ! lg_source l"
    by (rule effect_balances [OF l(2,3) cur(2) [symmetric] call(9) [unfolded cur(1)]]; use call(10) cur in auto)+
  have avail: "if lg_source l = 0 then ?b ! 0 + available = ?c ! 0 + gr_input g \<or> available = 0 else ?b ! lg_source l + available = ?c ! lg_source l"
    using call(3) cur by (auto simp: leg_available_def input_left_def monad_simps)
  have "leg_move g ?b ?c cur"
    unfolding leg_move_def
    by (rule bexI [OF _ l(1)], intro exI conjI, rule m(2), use m(3) call(5) in linarith, rule m(4)) (use m avail call(4,5) in auto)
  moreover have "spares program (graph_touched a g) L L'"
    by (rule call_spares [OF ok(1) call(6) _ leg_call_writable [OF l(1)]]) (use ok(2) leg_call_program in metis)
  ultimately show ?thesis
    using pre call(7,8,11) spares_trans by (auto simp: tracked_def intro: rtranclp.rtrancl_into_rtrancl)
qed

lemma graph_turns_tracked:
  assumes ok: "runtime_ok program vm" "\<And>v. venue_program v \<noteq> program" and g: "graph_ok (length a) g"
  shows "tracked program a g wallet L0 st L \<Longrightarrow>
    graph_turns orc vm a g wallet (ac_lamports (acct L0 a wallet)) (asset_balances a g L0) turns picker st L = (Inr st', L') \<Longrightarrow>
    tracked program a g wallet L0 st' L'"
proof (induction turns arbitrary: picker st L)
  case (Cons i turns)
  let ?turn = "graph_turn vm a g wallet (ac_lamports (acct L0 a wallet)) (asset_balances a g L0)"
  have next_turn: "tracked program a g wallet L0 st' L'" if "?turn reflow i choice st L = (Inr st1, L1)"
    "graph_turns orc vm a g wallet (ac_lamports (acct L0 a wallet)) (asset_balances a g L0) turns p st1 L1 = (Inr st', L')" for reflow choice st1 L1 p
    by (rule Cons.IH [OF graph_turn_tracked [OF ok g Cons.prems(1) that(1)] that(2)])
  show ?case
  proof (cases picker)
    case None
    then show ?thesis using Cons.prems(2) next_turn by (auto simp: bindS_Inr)
  next
    case (Some s)
    then show ?thesis using Cons.prems next_turn by (auto simp: bindS_Inr split: if_splits)
  qed
qed simp

section \<open>A whole run\<close>

lemma graph_close_facts:
  assumes "graph_close a g wallet before reflow st L = Inr o'"
  shows "go_sequence o' = gr_sequence g" "go_in o' = gr_input g" "rs_current st ! 0 + gr_input g = before ! 0"
    "rs_current st ! (length (gr_assets g) - 1) = before ! (length (gr_assets g) - 1) + go_out o'" "gr_min_out g \<le> go_out o'"
    "\<And>i. 0 < i \<Longrightarrow> i < length (gr_assets g) - 1 \<Longrightarrow> rs_current st ! i = before ! i"
    "\<And>i. i < length (gr_assets g) \<Longrightarrow> \<exists>v. asset_held a g False wallet L i = Inr v"
    "take 32 (go_receipt o') = concat (map (to_le 8) [gr_sequence g, gr_input g, go_out o', rs_executed st])"
  using assms by (auto simp: graph_close_def Let_def monad_simps write_at_def)

lemma graph_execute_effect:
  assumes ok: "runtime_ok program vm" "\<And>v. venue_program v \<noteq> program" and bytes: "bytes_ok d"
    and run: "graph_execute orc vm a d wallet L = (Inr o', L')"
  obtains g where "graph_decode d (length a) = Inr g" "graph_ok (length a) g" "go_sequence o' = gr_sequence g" "go_in o' = gr_input g"
    "gr_min_out g \<le> go_out o'" "(leg_move g (asset_balances a g L))\<^sup>*\<^sup>* (asset_balances a g L) (asset_balances a g L')"
    "asset_balances a g L' ! 0 + gr_input g = asset_balances a g L ! 0" "last (asset_balances a g L') = last (asset_balances a g L) + go_out o'"
    "\<And>i. 0 < i \<Longrightarrow> i < length (gr_assets g) - 1 \<Longrightarrow> asset_balances a g L' ! i = asset_balances a g L ! i"
    "ac_lamports (acct L' a wallet) = ac_lamports (acct L a wallet)" "spares program (graph_touched a g) L L'"
    "\<And>i. i < length (gr_assets g) \<Longrightarrow> \<exists>v. asset_held a g False wallet L' i = Inr v"
    "take 24 (go_receipt o') = concat (map (to_le 8) [gr_sequence g, gr_input g, go_out o'])"
proof -
  obtain g before picker st where g: "graph_decode d (length a) = Inr g"
    and before: "gather (asset_held a g False wallet L) [0..<length (gr_assets g)] = Inr before"
    and turns: "graph_turns orc vm a g wallet (ac_lamports (acct L a wallet)) before [0..<(if 0 < gr_reflow_calls g then 4 else length (gr_legs g))] picker
        \<lparr>rs_current = before, rs_used = replicate MAX_CANDIDATES 0, rs_executed = 0, rs_receipts = replicate 224 0\<rparr> L = (Inr st, L')"
    and close: "graph_close a g wallet before (0 < gr_reflow_calls g) st L' = Inr o'"
  proof -
    obtain g before picker L1 st where r: "ad (graph_decode d (length a)) = Inr g" "gather (asset_held a g False wallet L) [0..<length (gr_assets g)] = Inr before"
      "(if 0 < gr_reflow_calls g then bindS (readL (ro_open orc a g)) (\<lambda>s. ret (Some s)) else ret None) L = (Inr picker, L1)"
      "graph_turns orc vm a g wallet (ac_lamports (acct L1 a wallet)) before [0..<(if 0 < gr_reflow_calls g then 4 else length (gr_legs g))] picker
        \<lparr>rs_current = before, rs_used = replicate MAX_CANDIDATES 0, rs_executed = 0, rs_receipts = replicate 224 0\<rparr> L1 = (Inr st, L')"
      "graph_close a g wallet before (0 < gr_reflow_calls g) st L' = Inr o'"
      using run unfolding graph_execute_def bindS_Inr liftR_eq readL_eq by (auto dest!: sym [of "Inr _"])
    have "L1 = L" using r(3) by (auto simp: bindS_Inr split: if_splits)
    then show thesis using that [of g before picker st] r by (simp add: ad_Inr)
  qed
  have b: "before = asset_balances a g L" by (rule asset_balances_held [OF before])
  have typed: "graph_ok (length a) g"
    by (rule fits_Inr [OF graph_decode_ok [OF bytes] g])
  have start: "tracked program a g wallet L \<lparr>rs_current = before, rs_used = replicate MAX_CANDIDATES 0, rs_executed = 0, rs_receipts = replicate 224 0\<rparr> L"
    using b by (simp add: tracked_def)
  have fin: "tracked program a g wallet L st L'"
    by (rule graph_turns_tracked [OF ok typed start]) (use turns b in simp)
  note c = graph_close_facts [OF close]
  have cur: "rs_current st = asset_balances a g L'" using fin by (simp add: tracked_def)
  have "gr_assets g \<noteq> []" using typed by (auto simp: graph_ok_def)
  then have ends: "last (asset_balances a g M) = asset_balances a g M ! (length (gr_assets g) - 1)" for M
    by (simp add: asset_balances_def last_conv_nth)
  show thesis
  proof (rule that [OF g typed c(1,2,5)])
    show "(leg_move g (asset_balances a g L))\<^sup>*\<^sup>* (asset_balances a g L) (asset_balances a g L')" "spares program (graph_touched a g) L L'"
      "ac_lamports (acct L' a wallet) = ac_lamports (acct L a wallet)"
      using fin by (simp_all add: tracked_def)
    show "asset_balances a g L' ! 0 + gr_input g = asset_balances a g L ! 0" using c(3) cur b by simp
    show "last (asset_balances a g L') = last (asset_balances a g L) + go_out o'" using c(4) cur b ends by simp
    show "asset_balances a g L' ! i = asset_balances a g L ! i" if "0 < i" "i < length (gr_assets g) - 1" for i using c(6) [OF that] cur b by simp
    show "\<exists>v. asset_held a g False wallet L' i = Inr v" if "i < length (gr_assets g)" for i using c(7) [OF that] .
    have "take 24 (go_receipt o') = take 24 (take 32 (go_receipt o'))" by (simp only: take_take) simp
    then show "take 24 (go_receipt o') = concat (map (to_le 8) [gr_sequence g, gr_input g, go_out o'])" unfolding c(8) by simp
  qed
qed


lemma nonce_checks_facts:
  assumes "nonce_checks program a wallet nonce sequence L = Inr u"
  shows "am_signer (a ! wallet)" "ac_owner (acct L a nonce) = program" "length (ac_data (acct L a nonce)) = 64"
    "u64_at (ac_data (acct L a nonce)) 40 = Inr sequence" "wallet \<noteq> nonce" "wallet < length a" "nonce < length a"
  using assms by (auto simp: nonce_checks_def Let_def monad_simps NONCE_LEN_def)

lemma graph_preflight_facts:
  assumes "graph_preflight vm program a d wallet nonce aggregate pending L = Inr u"
  obtains g before where "graph_decode d (length a) = Inr g" "nonce_checks program a wallet nonce (gr_sequence g) L = Inr ()"
    "vm_slot vm \<le> gr_deadline g" "0 \<le> vm_time vm" "gather (preflight_asset a g wallet L) [0..<length (gr_assets g)] = Inr before"
    "\<And>i. i < length a \<Longrightarrow> unaliased a g wallet aggregate L i = Inr ()" "\<And>l. l \<in> set (gr_legs g) \<Longrightarrow> leg_valid a g wallet nonce L l = Inr ()"
  using assms unfolding graph_preflight_def by (auto simp: monad_simps)

lemma settle_graph_effect:
  assumes ok: "runtime_ok program vm" "\<And>v. venue_program v \<noteq> program" "program \<noteq> TOKEN" "program \<noteq> TOKEN_2022" and bytes: "bytes_ok d"
    and run: "settle_graph_for orc vm program a d wallet nonce L = (Inr rcpt, L')"
  obtains g out where "graph_decode d (length a) = Inr g" "am_signer (a ! wallet)" "vm_slot vm \<le> gr_deadline g"
    "cell_u64 (ac_data (acct L a nonce)) 40 = gr_sequence g" "gr_min_out g \<le> out"
    "(leg_move g (asset_balances a g L))\<^sup>*\<^sup>* (asset_balances a g L) (asset_balances a g L')"
    "asset_balances a g L' ! 0 + gr_input g = asset_balances a g L ! 0" "last (asset_balances a g L') = last (asset_balances a g L) + out"
    "\<And>i. 0 < i \<Longrightarrow> i < length (gr_assets g) - 1 \<Longrightarrow> asset_balances a g L' ! i = asset_balances a g L ! i"
    "ac_lamports (acct L' a wallet) = ac_lamports (acct L a wallet)"
    "ac_data (acct L' a nonce) = put_outcome (gr_sequence g + 1) (gr_input g) out (ac_data (acct L a nonce))"
    "\<And>k. k \<noteq> key_in a nonce \<Longrightarrow> k \<notin> graph_touched a g \<Longrightarrow> L' k = L k"
    "\<And>k. ac_owner (L k) = program \<Longrightarrow> k \<noteq> key_in a nonce \<Longrightarrow> ac_data (L' k) = ac_data (L k)"
    "ac_owner (acct L a nonce) = program" "\<And>k. ac_owner (L k) = program \<Longrightarrow> ac_owner (L' k) = program"
    "graph_ok (length a) g" "0 \<le> vm_time vm" "length (ac_data (acct L a nonce)) = 64" "gr_sequence g + 1 < 2 ^ 64"
    "take 24 rcpt = concat (map (to_le 8) [gr_sequence g, gr_input g, out])"
proof -
  obtain o' L1 where pre: "graph_preflight vm program a d wallet nonce [] 0 L = Inr ()" and exec: "graph_execute orc vm a d wallet L = (Inr o', L1)"
    and seq: "go_sequence o' + 1 < 2 ^ 64" and rcpt: "rcpt = go_receipt o'"
    and L': "L' = set_data (key_in a nonce) (put_outcome (go_sequence o' + 1) (go_in o') (go_out o') (ac_data (L1 (key_in a nonce)))) L1"
    using run unfolding settle_graph_for_def by (auto simp: bindS_Inr checked_add_Some dest!: sym [of "Inr _"])
  obtain g before where p: "graph_decode d (length a) = Inr g" "nonce_checks program a wallet nonce (gr_sequence g) L = Inr ()"
    "vm_slot vm \<le> gr_deadline g" "0 \<le> vm_time vm"
    by (rule graph_preflight_facts [OF pre]) blast
  note n = nonce_checks_facts [OF p(2)]
  obtain e1: "graph_ok (length a) g" and e2: "go_sequence o' = gr_sequence g" "go_in o' = gr_input g" "gr_min_out g \<le> go_out o'"
    and e3: "(leg_move g (asset_balances a g L))\<^sup>*\<^sup>* (asset_balances a g L) (asset_balances a g L1)"
    and e4: "asset_balances a g L1 ! 0 + gr_input g = asset_balances a g L ! 0" "last (asset_balances a g L1) = last (asset_balances a g L) + go_out o'"
    "\<And>i. 0 < i \<Longrightarrow> i < length (gr_assets g) - 1 \<Longrightarrow> asset_balances a g L1 ! i = asset_balances a g L ! i"
    "ac_lamports (acct L1 a wallet) = ac_lamports (acct L a wallet)"
    and e5: "spares program (graph_touched a g) L L1" and held: "\<And>i. i < length (gr_assets g) \<Longrightarrow> \<exists>v. asset_held a g False wallet L1 i = Inr v"
    and head: "take 24 rcpt = concat (map (to_le 8) [gr_sequence g, gr_input g, go_out o'])"
  proof -
    show thesis
    proof (rule graph_execute_effect [OF ok(1,2) bytes exec], goal_cases)
      case (1 h)
      then have "h = g" using p(1) by simp
      then show thesis using that 1(2-) unfolding rcpt by blast
    qed
  qed
  have own: "ac_data (L1 (key_in a nonce)) = ac_data (acct L a nonce)" "ac_owner (L1 (key_in a nonce)) = program"
    using e5 n(2) by (auto simp: spares_def acct_def)
  have "token_key a g i \<noteq> key_in a nonce" if i: "i < length (gr_assets g)" for i
  proof -
    have "ac_owner (L1 (token_key a g i)) \<noteq> program"
      using held [OF i] checked_asset_value(2,3) ok(3,4) by (fastforce simp: asset_held_def Let_def)
    then show ?thesis using own(2) by auto
  qed
  then have same: "asset_balances a g L' = asset_balances a g L1"
    unfolding L' by (intro nth_equalityI) (auto simp: asset_balances_def tokens_def)
  have lam: "ac_lamports (acct L' a wallet) = ac_lamports (acct L1 a wallet)" unfolding L' by (simp add: acct_def set_data_def)
  have nonce_data: "ac_data (acct L' a nonce) = put_outcome (gr_sequence g + 1) (gr_input g) (go_out o') (ac_data (acct L a nonce))"
    unfolding L' acct_def by (simp add: own(1) [unfolded acct_def] e2)
  have cell: "cell_u64 (ac_data (acct L a nonce)) 40 = gr_sequence g" using u64_at_cell [OF n(4)] by simp
  have frame: "L' k = L k" if "k \<noteq> key_in a nonce" "k \<notin> graph_touched a g" for k using that e5 unfolding L' by (simp add: spares_def)
  have kept: "ac_data (L' k) = ac_data (L k)" if "ac_owner (L k) = program" "k \<noteq> key_in a nonce" for k
    using that e5 unfolding L' by (simp add: spares_def)
  have owners: "ac_owner (L' k) = program" if "ac_owner (L k) = program" for k using that e5 unfolding L' by (simp add: spares_def)
  show thesis
    by (rule that [OF p(1) n(1) p(3) cell e2(3) e3 [folded same] e4(1,2,3) [folded same] e4(4) [folded lam] nonce_data frame kept n(2) owners e1 p(4) n(3) seq [unfolded e2(1)] head])
qed

text \<open>
  \<^bold>\<open>C37.\<close> A settled graph, whatever the venues and the residual oracle did: the wallet signed it in time and
  its nonce held the graph's number; the balances of its assets went from start to end by moves of its legs,
  each within its budget and spending only signed input or what earlier moves brought; the exact input left
  the source, the sink gained at least the minimum, the transit assets are where they were, the wallet lost
  no lamports, and besides the accounts its legs name only the nonce changed: next number, input, output,
  which the receipt opens with.
\<close>

theorem graph_settles_exactly:
  assumes "runtime_ok program vm" "\<And>v. venue_program v \<noteq> program" "program \<noteq> TOKEN" "program \<noteq> TOKEN_2022" "bytes_ok d"
    and "settle_graph_for orc vm program a d wallet nonce L = (Inr rcpt, L')"
  shows "\<exists>g out. graph_decode d (length a) = Inr g \<and> am_signer (a ! wallet) \<and> vm_slot vm \<le> gr_deadline g
    \<and> cell_u64 (ac_data (acct L a nonce)) 40 = gr_sequence g \<and> gr_min_out g \<le> out
    \<and> (leg_move g (asset_balances a g L))\<^sup>*\<^sup>* (asset_balances a g L) (asset_balances a g L')
    \<and> asset_balances a g L' ! 0 + gr_input g = asset_balances a g L ! 0 \<and> last (asset_balances a g L') = last (asset_balances a g L) + out
    \<and> (\<forall>i. 0 < i \<and> i < length (gr_assets g) - 1 \<longrightarrow> asset_balances a g L' ! i = asset_balances a g L ! i)
    \<and> ac_lamports (acct L' a wallet) = ac_lamports (acct L a wallet)
    \<and> ac_data (acct L' a nonce) = put_outcome (gr_sequence g + 1) (gr_input g) out (ac_data (acct L a nonce))
    \<and> (\<forall>k. k \<noteq> key_in a nonce \<and> k \<notin> graph_touched a g \<longrightarrow> L' k = L k)
    \<and> (\<forall>k. ac_owner (L k) = program \<and> k \<noteq> key_in a nonce \<longrightarrow> ac_data (L' k) = ac_data (L k))
    \<and> take 24 rcpt = concat (map (to_le 8) [gr_sequence g, gr_input g, out])"
  by (rule settle_graph_effect [OF assms]) blast

end
