(* ===== verification/GraphDemo.thy ===== *)
theory GraphDemo
  imports GraphSafe OrderDemo
begin

text \<open>
  A graph of one pool leg settled on concrete accounts: the witness of \<open>GraphSafe\<close>. The pool program keeps
  the product of its vaults.
\<close>

section \<open>The ledger\<close>

definition amm_product_invoke :: "cpi \<Rightarrow> nat list list list \<Rightarrow> ledger \<Rightarrow> ledger res" where
  "amm_product_invoke c seeds L =
     (case c of
        Call ix \<Rightarrow>
          let k = (\<lambda>i. am_key (ix_accounts ix ! i)); x = from_le (byte_slice (ix_data ix) 8 8);
              y = balance L (k 7) * x div (balance L (k 6) + x)
          in Inr (confined c L
               (put_u64 64 (k 4) (balance L (k 4) - x) (put_u64 64 (k 5) (balance L (k 5) + y)
                 (put_u64 64 (k 6) (balance L (k 6) + x) (put_u64 64 (k 7) (balance L (k 7) - y) L)))))
      | _ \<Rightarrow> Inr L)"

definition graph_vm :: vm where
  "graph_vm = pool_vm\<lparr>vm_invoke := amm_product_invoke\<rparr>"

lemma graph_vm_ok: "runtime_ok 9 graph_vm"
  using key_nth_simps by (auto simp: runtime_ok_def graph_vm_def amm_product_invoke_def confined_def Let_def split: cpi.splits)

lemma graph_vm_clock: "vm_slot graph_vm = 50" "vm_time graph_vm = 0" "vm_invoke graph_vm = amm_product_invoke"
  by (simp_all add: graph_vm_def pool_vm_def)

definition graph_ledger :: "nat list \<Rightarrow> nat \<Rightarrow> nat \<Rightarrow> nat \<Rightarrow> nat \<Rightarrow> ledger" where
  "graph_ledger nonce u w x y =
     (pool_ledger nonce u w x y)(11 := held_by TOKEN (mint_bytes 7 5000 6), 12 := held_by TOKEN (mint_bytes 7 5000 6))"

definition graph_data :: "nat list" where
  "graph_data = [2, 2, 1, 0] @ to_le 8 7 @ to_le 8 1000 @ to_le 8 1900 @ to_le 8 100 @ [2, 5, 4, 3, 6, 4] @
     [1, 0, 1, 1] @ to_le 8 1000 @ [12, 13] @ [0, 13, 14, 15, 2, 3, 16, 17, 4, 4, 5, 6, 18]"

definition pool_leg :: leg where
  "pool_leg = \<lparr>lg_venue = RaydiumCpmm, lg_source = 0, lg_destination = 1, lg_direction = True, lg_budget = 1000, lg_program = 12,
     lg_accounts = [0, 13, 14, 15, 2, 3, 16, 17, 4, 4, 5, 6, 18]\<rparr>"

definition pool_graph :: graph where
  "pool_graph = \<lparr>gr_sequence = 7, gr_input = 1000, gr_min_out = 1900, gr_deadline = 100,
     gr_assets = [\<lparr>as_token = 2, as_mint = 5, as_program = 4\<rparr>, \<lparr>as_token = 3, as_mint = 6, as_program = 4\<rparr>],
     gr_legs = [pool_leg], gr_reflow_calls = 0, gr_seed_input = 0\<rparr>"

lemma graph_parsed: "graph_decode graph_data 19 = Inr pool_graph"
  by code_simp

lemma graph_data_ok: "bytes_ok graph_data"
  unfolding bytes_ok_def by code_simp

lemma graph_lookup:
  "graph_ledger nonce u w x y 20 = held_by 9 nonce" "graph_ledger nonce u w x y 13 = held_by TOKEN (token_bytes 11 3 u)"
  "graph_ledger nonce u w x y 14 = held_by TOKEN (token_bytes 12 3 w)" "graph_ledger nonce u w x y 42 = held_by RAYDIUM pool_bytes"
  "graph_ledger nonce u w x y 43 = held_by TOKEN (token_bytes 11 RAYDIUM_AUTH x)" "graph_ledger nonce u w x y 44 = held_by TOKEN (token_bytes 12 RAYDIUM_AUTH y)"
  "graph_ledger nonce u w x y 11 = held_by TOKEN (mint_bytes 7 5000 6)" "graph_ledger nonce u w x y 12 = held_by TOKEN (mint_bytes 7 5000 6)"
  "ac_executable (graph_ledger nonce u w x y TOKEN)" "ac_executable (graph_ledger nonce u w x y RAYDIUM)"
  by (simp_all add: graph_ledger_def pool_lookup key_nth_simps) (simp add: RAYDIUM_def)

lemma graph_asset_held:
  "u < 2 ^ 64 \<Longrightarrow> asset_held settle_accounts pool_graph i 0 (graph_ledger nonce u w x y) 0 = Inr u"
  "w < 2 ^ 64 \<Longrightarrow> asset_held settle_accounts pool_graph i 0 (graph_ledger nonce u w x y) (Suc 0) = Inr w"
  unfolding asset_held_def Let_def pool_graph_def
  by (auto intro!: checked_asset_held simp: settle_nth graph_lookup)

lemma graph_public_balance:
  "u < 2 ^ 64 \<Longrightarrow> public_balance (wr 13) (graph_ledger nonce u w x y) = Inr u"
  "w < 2 ^ 64 \<Longrightarrow> public_balance (wr 14) (graph_ledger nonce u w x y) = Inr w"
  by (simp_all add: public_balance_def Let_def graph_lookup needP_simps token_bytes_fields u64_at_ok from_le_8)

section \<open>Before the call\<close>

lemma graph_nonce_checks: "nonce_checks 9 settle_accounts 0 1 7 (graph_ledger (nonce_bytes 7 0 0) u w x y) = Inr ()"
  by (simp add: nonce_checks_def Let_def acct_def settle_nth [simplified] graph_lookup needP_simps nonce_fields NONCE_LEN_def byte_slice_def)

lemma graph_nth:
  "settle_accounts ! Suc 0 = wr 20" "settle_accounts ! 7 = ro 31" "settle_accounts ! 8 = ro 32" "settle_accounts ! 9 = wr 33" "settle_accounts ! 10 = wr 34" "settle_accounts ! 11 = wr 35"
  by (simp_all add: settle_accounts_def)

lemma graph_flags: "asset_flags settle_accounts pool_graph 2 = [0]" "asset_flags settle_accounts pool_graph 3 = [1]"
  by (simp_all add: asset_flags_def pool_graph_def settle_nth)

lemma graph_empty: "ac_data (graph_ledger nonce u w x y 3) = []" "ac_data (graph_ledger nonce u w x y 33) = []" "ac_data (graph_ledger nonce u w x y 34) = []"
  "ac_data (graph_ledger nonce u w x y 35) = []" "ac_data (graph_ledger nonce u w x y 45) = []"
  by (simp_all add: graph_ledger_def pool_ledger_def)

lemma not_2022: "RAYDIUM \<noteq> TOKEN_2022" "RAYDIUM \<noteq> 3" "RAYDIUM \<noteq> 45" "RAYDIUM_AUTH \<noteq> 20"
  by (simp_all add: RAYDIUM_def TOKEN_2022_def RAYDIUM_AUTH_def)

lemma auth_is_not_wallet: "key_bytes RAYDIUM_AUTH \<noteq> key_bytes 3"
  by code_simp

lemma graph_unaliased: "index < 19 \<Longrightarrow> unaliased settle_accounts pool_graph 0 [] (graph_ledger (nonce_bytes 7 0 0) u w x y) index = Inr ()"
proof -
  assume "index < 19"
  then have "index \<in> set [0..<19]" by simp
  then have "index \<in> {0, 1, 4, 5, 6, 7, 8, 9, 10, 11, 12, 13, 14, 15, 18} \<or> index = 2 \<or> index = 3 \<or> index = 16 \<or> index = 17"
    by (simp add: upt_conv_Cons) fastforce
  then show ?thesis
    using venue_keys order_keys auth_is_not_wallet not_2022
    by (auto simp: unaliased_def Let_def acct_def settle_nth graph_nth graph_lookup graph_empty nonce_fields graph_flags token_bytes_fields needP_simps)
qed

lemma graph_no_asset:
  assumes "key_in settle_accounts i \<notin> {13, 14}"
  shows "asset_flags settle_accounts pool_graph i = []"
  using assms by (simp add: asset_flags_def pool_graph_def settle_nth)

lemma graph_no_flags:
  "asset_flags settle_accounts pool_graph 0 = []" "asset_flags settle_accounts pool_graph 4 = []" "asset_flags settle_accounts pool_graph 5 = []"
  "asset_flags settle_accounts pool_graph 6 = []" "asset_flags settle_accounts pool_graph 13 = []" "asset_flags settle_accounts pool_graph 14 = []"
  "asset_flags settle_accounts pool_graph 15 = []" "asset_flags settle_accounts pool_graph 16 = []" "asset_flags settle_accounts pool_graph 17 = []"
  "asset_flags settle_accounts pool_graph 18 = []"
  by (rule graph_no_asset, simp add: settle_nth key_nth_simps RAYDIUM_AUTH_def)+

lemma graph_leg_valid: "leg_valid settle_accounts pool_graph 0 1 (graph_ledger nonce u w x y) pool_leg = Inr ()"
proof -
  have *: "venue_program (lg_venue pool_leg) = RAYDIUM" "lg_program pool_leg = 12" "lg_accounts pool_leg = [0, 13, 14, 15, 2, 3, 16, 17, 4, 4, 5, 6, 18]"
    "bindings (lg_venue pool_leg) (lg_direction pool_leg) = (3, 0, 4, 5)" "lg_venue pool_leg = RaydiumCpmm" "lg_source pool_leg = 0" "lg_destination pool_leg = 1"
    "gr_assets pool_graph ! 0 = \<lparr>as_token = 2, as_mint = 5, as_program = 4\<rparr>" "gr_assets pool_graph ! 1 = \<lparr>as_token = 3, as_mint = 6, as_program = 4\<rparr>"
    by (simp_all add: pool_leg_def pool_graph_def)
  have upt: "[0..<13] = [0, 1, 2, 3, 4, 5, 6, 7, 8, 9, 10, 11, 12]" by (simp add: upt_conv_Cons)
  show ?thesis
    unfolding leg_valid_def Let_def * prod.case executable_is_def
    by (simp add: upt * settle_nth graph_nth graph_lookup needP_simps graph_no_flags writable_with_owner_def key_nth_simps venue_keys not_2022)
qed

lemma graph_before:
  assumes "u < 2 ^ 64" "w < 2 ^ 64"
  shows "gather (preflight_asset settle_accounts pool_graph 0 (graph_ledger nonce u w x y)) [0..<2] = Inr [u, w]"
    "gather (asset_held settle_accounts pool_graph i 0 (graph_ledger nonce u w x y)) [0..<2] = Inr [u, w]"
proof -
  have two: "[0..<2] = [0, Suc 0]" by (simp add: upt_conv_Cons)
  have keys: "token_key settle_accounts pool_graph 0 = 13" "token_key settle_accounts pool_graph (Suc 0) = 14"
    "mint_key settle_accounts pool_graph 0 = 11" "mint_key settle_accounts pool_graph (Suc 0) = 12"
    by (simp_all add: pool_graph_def settle_nth)
  show "gather (preflight_asset settle_accounts pool_graph 0 (graph_ledger nonce u w x y)) [0..<2] = Inr [u, w]"
    "gather (asset_held settle_accounts pool_graph i 0 (graph_ledger nonce u w x y)) [0..<2] = Inr [u, w]"
    using assms unfolding two by (simp_all add: graph_asset_held preflight_asset_def keys needP_simps)
qed

lemma graph_preflight_ok:
  assumes "u < 2 ^ 63" "w < 2 ^ 63" "1000 \<le> u"
  shows "graph_preflight graph_vm 9 settle_accounts graph_data 0 1 [] 0 (graph_ledger (nonce_bytes 7 0 0) u w x y) = Inr ()"
proof -
  have *: "gr_sequence pool_graph = 7" "gr_deadline pool_graph = 100" "length (gr_assets pool_graph) = 2" "gr_input pool_graph = 1000" "gr_legs pool_graph = [pool_leg]"
    by (simp_all add: pool_graph_def)
  have "each (unaliased settle_accounts pool_graph 0 [] (graph_ledger (nonce_bytes 7 0 0) u w x y)) [0..<19] = Inr ()"
    using graph_unaliased by (simp only: each_Inr) simp
  moreover have "each (leg_valid settle_accounts pool_graph 0 1 (graph_ledger (nonce_bytes 7 0 0) u w x y)) [pool_leg] = Inr ()"
    using graph_leg_valid by simp
  moreover have "checked_add 64 u 0 = Some u" using assms by (simp add: checked_add_def)
  ultimately show ?thesis
    using assms graph_before(1) [of u w] unfolding graph_preflight_def settle_nth graph_parsed *
    by (simp add: * graph_nonce_checks [simplified] graph_vm_clock needP_simps del: each.simps upt_Suc)
qed

section \<open>The run\<close>

definition leg_swap :: "nat list" where
  "leg_swap = [143, 190, 90, 218, 196, 30, 51, 222] @ to_le 8 1000 @ replicate 8 0"

lemma leg_swap_bytes: "leg_bytes graph_vm settle_accounts pool_graph 0 pool_leg 1000 L = Inr (Some leg_swap)"
proof -
  have "swap_data RaydiumCpmm 1000 True = Inr (leg_swap @ replicate 56 0, 24)" by code_simp
  moreover have "length leg_swap = 24" by (simp add: leg_swap_def)
  ultimately show ?thesis by (simp add: leg_bytes_def pool_leg_def)
qed

lemma graph_swapped:
  "amm_product_invoke (leg_call settle_accounts pool_leg leg_swap (graph_ledger nonce 50000 10 1000000 2000000)) [] (graph_ledger nonce 50000 10 1000000 2000000) =
    Inr (graph_ledger nonce 49000 2008 1001000 1998002)"
proof -
  let ?L = "graph_ledger nonce 50000 10 1000000 2000000" and ?M = "graph_ledger nonce 49000 2008 1001000 1998002"
  let ?c = "leg_call settle_accounts pool_leg leg_swap ?L"
  obtain ix where c: "?c = Call ix" and ix: "ix_data ix = leg_swap" "am_key (ix_accounts ix ! 4) = 13" "am_key (ix_accounts ix ! 5) = 14"
    "am_key (ix_accounts ix ! 6) = 43" "am_key (ix_accounts ix ! 7) = 44"
    by (simp add: leg_call_def pool_leg_def Let_def settle_nth)
  have wr: "{13, 14, 43, 44} \<subseteq> cpi_writable ?c"
    using key_nth_simps venue_keys not_2022
    by (auto simp: leg_call_def Let_def pool_leg_def writable_with_owner_def upt_conv_Cons settle_nth)
  have bal: "balance (graph_ledger nonce u w x y) 13 = u" "balance (graph_ledger nonce u w x y) 14 = w"
    "balance (graph_ledger nonce u w x y) 43 = x" "balance (graph_ledger nonce u w x y) 44 = y"
    if "u < 2 ^ 64" "w < 2 ^ 64" "x < 2 ^ 64" "y < 2 ^ 64" for u w x y
    using that by (simp_all add: balance_def graph_lookup token_bytes_fields from_le_8)
  have moved: "put_u64 64 13 u' (graph_ledger nonce u w x y) = graph_ledger nonce u' w x y" "put_u64 64 14 w' (graph_ledger nonce u w x y) = graph_ledger nonce u w' x y"
    "put_u64 64 43 x' (graph_ledger nonce u w x y) = graph_ledger nonce u w x' y" "put_u64 64 44 y' (graph_ledger nonce u w x y) = graph_ledger nonce u w x y'"
    for u w x y u' w' x' y'
    by (auto simp: put_u64_def set_data_def graph_ledger_def pool_ledger_def token_bytes_fields fun_eq_iff)
  have data: "from_le (byte_slice leg_swap 8 8) = 1000" by code_simp
  have rest: "graph_ledger nonce u w x y k = graph_ledger nonce u' w' x' y' k" if "k \<notin> {13, 14, 43, 44}" for u w x y u' w' x' y' k
    using that by (simp add: graph_ledger_def pool_ledger_def)
  have owners: "ac_owner (?L k) = TOKEN" if "k \<in> {13, 14, 43, 44}" for k
    using that by (auto simp: graph_lookup)
  have conf: "confined ?c ?L ?M = ?M"
  proof (rule ext)
    fix k
    show "confined ?c ?L ?M k = ?M k"
    proof (cases "k \<in> {13, 14, 43, 44}")
      case True
      then have "k \<in> cpi_writable ?c" using wr by blast
      then show ?thesis using owners [OF True] by (simp only: confined_def simp_thms if_True)
    next
      case False
      then show ?thesis unfolding confined_def using rest [OF False] by metis
    qed
  qed
  have start: "balance ?L 13 = 50000" "balance ?L 14 = 10" "balance ?L 43 = 1000000" "balance ?L 44 = 2000000"
    by (simp_all add: bal)
  have "put_u64 64 44 (2000000 - 1998) ?L = graph_ledger nonce 50000 10 1000000 1998002" by (simp add: moved)
  moreover have "put_u64 64 43 (1000000 + 1000) (graph_ledger nonce 50000 10 1000000 1998002) = graph_ledger nonce 50000 10 1001000 1998002" by (simp add: moved)
  moreover have "balance (graph_ledger nonce 50000 10 1001000 1998002) 14 = 10" "balance (graph_ledger nonce 50000 10 1000000 1998002) 43 = 1000000"
    by (simp_all add: bal)
  moreover have "put_u64 64 14 (10 + 1998) (graph_ledger nonce 50000 10 1001000 1998002) = graph_ledger nonce 50000 2008 1001000 1998002" by (simp add: moved)
  moreover have "balance (graph_ledger nonce 50000 2008 1001000 1998002) 13 = 50000" by (simp add: bal)
  moreover have "put_u64 64 13 (50000 - 1000) (graph_ledger nonce 50000 2008 1001000 1998002) = ?M" by (simp add: moved)
  moreover have "2000000 * 1000 div (1000000 + 1000) = (1998 :: nat)" by simp
  ultimately show ?thesis
    unfolding amm_product_invoke_def c cpi.case Let_def ix data start by (simp only: start conf [unfolded c])
qed

definition no_oracle :: "unit residual_oracle" where
  "no_oracle = \<lparr>ro_open = \<lambda>_ _ _. Inl Panic, ro_next = \<lambda>_ _ _ _ _ _ _. Inl Panic\<rparr>"

lemma wallet_lamports: "ac_lamports (acct (graph_ledger nonce u w x y) settle_accounts 0) = 9"
  by (simp add: acct_def settle_nth graph_ledger_def pool_ledger_def)

lemma graph_turn_run:
  "graph_turn graph_vm settle_accounts pool_graph 0 9 [50000, 10] False 0 (0, 2 ^ 64 - 1, 0)
     \<lparr>rs_current = [50000, 10], rs_used = replicate 8 0, rs_executed = 0, rs_receipts = replicate 224 0\<rparr> (graph_ledger nonce 50000 10 1000000 2000000) =
   (Inr \<lparr>rs_current = [49000, 2008], rs_used = 1000 # replicate 7 0, rs_executed = 1,
      rs_receipts = write_at 32 (concat (map (to_le 8) [1, 1000, 1000, 1998])) (replicate 224 0)\<rparr>, graph_ledger nonce 49000 2008 1001000 1998002)"
proof -
  let ?L = "graph_ledger nonce 50000 10 1000000 2000000" and ?M = "graph_ledger nonce 49000 2008 1001000 1998002"
  have leg: "leg_at pool_graph 0 = Inr pool_leg" by (simp add: leg_at_def pool_graph_def)
  have avail: "leg_available pool_graph [50000, 10] [50000, 10] pool_leg = Inr 1000"
    by (simp add: leg_available_def input_left_def pool_leg_def pool_graph_def checked_sub_def)
  have read: "gather (\<lambda>s. public_balance (settle_accounts ! as_token s) ?M) (gr_assets pool_graph) = Inr [49000, 2008]"
    by (simp add: pool_graph_def settle_nth graph_public_balance)
  have moved: "leg_effect pool_graph pool_leg 1000 [50000, 10] [49000, 2008] = Inr (1000, 1998)"
    by (simp add: leg_effect_def pool_leg_def checked_sub_def needP_simps)
  have call: "callL graph_vm (leg_call settle_accounts pool_leg leg_swap ?L) [] ?L = (Inr (), ?M)"
    by (simp add: callL_def graph_vm_clock graph_swapped)
  have others: "each (\<lambda>i. if i \<noteq> lg_source pool_leg \<and> i \<noteq> lg_destination pool_leg then needP ([49000, 2008] ! i = [50000, 10 :: nat] ! i) CONSERVATION else Inr ())
      [0..<length (gr_assets pool_graph)] = Inr ()"
    by (simp add: each_Inr pool_graph_def pool_leg_def)
  have entry: "leg_entry False pool_leg 1000 1000 1998 0 0 = concat (map (to_le 8) [1, 1000, 1000, 1998])"
    by (simp add: leg_entry_def pool_leg_def)
  have budget: "min (min 1000 (lg_budget pool_leg)) (2 ^ 64 - 1) = 1000" by (simp add: pool_leg_def)
  have used: "(replicate 8 (0 :: nat)) ! 0 = 0" "(replicate 8 (0 :: nat))[0 := 1000] = 1000 # replicate 7 0" by (simp_all add: eval_nat_numeral)
  have nums: "(1000 :: nat) = 0 \<longleftrightarrow> False" "checked_add 64 0 1000 = Some 1000" "(0 :: nat) + 1 = 1" "32 + 0 * receipt_stride False = 32"
    by (simp_all add: checked_add_def)
  show ?thesis
    unfolding graph_turn_def Let_def prod.case run_state.simps
    by (simp only: bindS_def liftR_def readL_def leg avail budget leg_swap_bytes nums if_False call wallet_lamports read moved others entry used needP_simps
        prod.case sum.case option.case run_state.simps prog_or_simps ret_def simp_thms)
qed

lemma graph_executed:
  "graph_execute no_oracle graph_vm settle_accounts graph_data 0 (graph_ledger nonce 50000 10 1000000 2000000) =
   (Inr \<lparr>go_sequence = 7, go_in = 1000, go_out = 1998,
      go_receipt = concat (map (to_le 8) [7, 1000, 1998, 1, 1, 1000, 1000, 1998])\<rparr>, graph_ledger nonce 49000 2008 1001000 1998002)"
proof -
  let ?L = "graph_ledger nonce 50000 10 1000000 2000000" and ?M = "graph_ledger nonce 49000 2008 1001000 1998002"
  let ?st = "\<lparr>rs_current = [49000, 2008], rs_used = 1000 # replicate 7 0, rs_executed = 1,
      rs_receipts = write_at 32 (concat (map (to_le 8) [1, 1000, 1000, 1998])) (replicate 224 0)\<rparr>"
  have g: "length (gr_assets pool_graph) = 2" "gr_input pool_graph = 1000" "gr_reflow_calls pool_graph = 0" "gr_sequence pool_graph = 7" "gr_min_out pool_graph = 1900"
    "length (gr_legs pool_graph) = 1"
    by (simp_all add: pool_graph_def)
  have before: "gather (asset_held settle_accounts pool_graph False 0 ?L) [0..<2] = Inr [50000, 10]" by (rule graph_before(2)) simp_all
  have turns: "graph_turns no_oracle graph_vm settle_accounts pool_graph 0 9 [50000, 10] [0] None
     \<lparr>rs_current = [50000, 10], rs_used = replicate 8 0, rs_executed = 0, rs_receipts = replicate 224 0\<rparr> ?L = (Inr ?st, ?M)"
    using graph_turn_run [of nonce] by (simp add: bindS_def liftR_def input_left_def g checked_sub_def ret_def)
  have held: "each (\<lambda>i. bindR (asset_held settle_accounts pool_graph False 0 ?M i) (\<lambda>v. needP (v = [49000, 2008] ! i) IDENTITY)) [0..<2] = Inr ()"
    by (simp add: each_Inr numeral_2_eq_2 less_Suc_eq) (simp add: graph_asset_held needP_simps)
  have rcpt: "take (32 + 1 * 32) (write_at 0 (concat (map (to_le 8) [7, 1000, 1998, 1])) (rs_receipts ?st)) =
      concat (map (to_le 8) [7, 1000, 1998, 1, 1, 1000, 1000, 1998])"
    by (simp add: write_at_def)
  have close: "graph_close settle_accounts pool_graph 0 [50000, 10] False ?st ?M = Inr \<lparr>go_sequence = 7, go_in = 1000, go_out = 1998,
      go_receipt = concat (map (to_le 8) [7, 1000, 1998, 1, 1, 1000, 1000, 1998])\<rparr>"
    using held rcpt unfolding graph_close_def Let_def g
    by (simp add: checked_sub_def needP_simps)
  have upt: "[0..<1] = [0 :: nat]" by simp
  show ?thesis
    unfolding graph_execute_def settle_nth(15) graph_parsed
    by (simp only: bindS_def liftR_def readL_def ad_ok prod.case sum.case g before needP_simps wallet_lamports ret_def MAX_CANDIDATES_def upt turns close
        less_irrefl if_False nth_Cons_0) (simp add: needP_simps)
qed

lemma graph_settled:
  "settle_graph_for no_oracle graph_vm 9 settle_accounts graph_data 0 1 (graph_ledger (nonce_bytes 7 0 0) 50000 10 1000000 2000000) =
   (Inr (concat (map (to_le 8) [7, 1000, 1998, 1, 1, 1000, 1000, 1998])), graph_ledger (nonce_bytes 8 1000 1998) 49000 2008 1001000 1998002)"
proof -
  let ?L = "graph_ledger (nonce_bytes 7 0 0) 50000 10 1000000 2000000" and ?M = "graph_ledger (nonce_bytes 7 0 0) 49000 2008 1001000 1998002"
  have put: "set_data 20 (put_outcome 8 1000 1998 (nonce_bytes 7 0 0)) ?M = graph_ledger (nonce_bytes 8 1000 1998) 49000 2008 1001000 1998002"
    by (auto simp: put_outcome_bytes nonce_fields set_data_def graph_ledger_def pool_ledger_def fun_eq_iff) (simp_all add: nonce_bytes_def NONCE_TAG_def)
  have pre: "graph_preflight graph_vm 9 settle_accounts graph_data 0 1 [] 0 ?L = Inr ()" by (rule graph_preflight_ok) simp_all
  have key: "key_in settle_accounts 1 = 20" by (simp add: graph_nth)
  show ?thesis
    unfolding settle_graph_for_def key put [symmetric]
    by (simp only: bindS_def readL_def pre graph_executed liftR_def prod.case sum.case graph_outcome.simps)
      (simp add: checked_add_def has_room_def graph_lookup nonce_fields NONCE_LEN_def writeL_def ret_def)
qed

theorem graph_settles_exactly_witness:
  "tokens (graph_ledger (nonce_bytes 8 1000 1998) 49000 2008 1001000 1998002) 13 + 1000
     = tokens (graph_ledger (nonce_bytes 7 0 0) 50000 10 1000000 2000000) 13
   \<and> 1900 \<le> tokens (graph_ledger (nonce_bytes 8 1000 1998) 49000 2008 1001000 1998002) 14
     - tokens (graph_ledger (nonce_bytes 7 0 0) 50000 10 1000000 2000000) 14"
proof -
  have programs: "venue_program v \<noteq> 9" for v by (cases v) (simp_all add: PHOENIX_def RAYDIUM_def)
  have "(9 :: key) \<noteq> TOKEN" "(9 :: key) \<noteq> TOKEN_2022" by (simp_all add: TOKEN_def TOKEN_2022_def)
  from graph_settles_exactly [OF graph_vm_ok programs this graph_data_ok graph_settled] show ?thesis
    by (auto simp: graph_parsed pool_graph_def asset_balances_def settle_nth)
qed

end
