(* ===== verification/Spec2Isabelle.thy ===== *)
theory Spec2Isabelle
  imports Book Envelope Optimal Search Certify Refine Settlement FoldLots Cell VirtualBook Fair Lane Phoenix Graph
    Surface Memo Damm Reflow OrderDemo GraphDemo
begin

text \<open>
  A verification library for the StockMesh routing kernel, its adapters and its on-chain programs
  (\<open>engine/stockmesh\<close>; every path below is relative to it).

  \<^bold>\<open>The program.\<close> The kernel crate routes an amount over venues. A venue is compiled to a marginal curve
  (\<open>compiler/mod.rs\<close>), an allocator splits the amount over the curves (\<open>optimizer/mod.rs\<close>, and
  \<open>optimizer/tape.rs\<close> with an index), a search chooses at most \<open>MAX_LEGS\<close> venues and certifies the plan, and
  \<open>optimizer/oracle.rs\<close> refines a split against venues that can only be asked for quotes. \<open>reflow/mod.rs\<close>
  executes a plan leg by leg through a host (\<open>runtime/mod.rs\<close>), reading again after each leg;
  \<open>runtime/admission.rs\<close> decides which requests may run side by side. Crossing orders need no venue: \<open>clearing/mod.rs\<close>
  folds circular intents and settles the rest, \<open>onebook/mod.rs\<close> matches signed orders by price and time,
  \<open>fair/mod.rs\<close> bounds a crossing price by a quorum of sources. \<open>adapters/\<close> and \<open>native/\<close> read account bytes and quote
  exactly what a venue would pay; the settlement program (\<open>programs/stocklana-settle\<close>) uses them to check
  every call it makes to a venue, and the basket vault (\<open>programs/xtxc-basket-vault\<close>) holds shares in kind.

  \<^bold>\<open>Conventions\<close> (theory \<open>Prelude\<close>). A fallible function returns \<open>'a res\<close>: a value, an error of one of the crates,
  or \<open>Panic\<close>. Arithmetic that Rust checks at run time is written with \<open>add_w\<close>, \<open>sub_w\<close>, \<open>mul_w\<close>, \<open>div_w\<close> at
  the width of the type and panics where Rust does; \<open>checked_*\<close> return an option as their namesakes do.
  Indexing panics out of range (\<open>index_at\<close>, \<open>store_at\<close>). A function on a mutable reference is a state transformer \<open>('s, 'a) comp\<close>
  whose new state survives an error. \<open>fits F m P\<close> says that \<open>m\<close> fails only with faults of \<open>F\<close> and otherwise
  satisfies \<open>P\<close>; \<open>Panic\<close> is in no such set.

  \<^bold>\<open>Which theory models what.\<close>
  \<^item> \<open>Prelude\<close>, \<open>Kernel\<close>, \<open>Bytes\<close>, \<open>Masks\<close>: monads, checked integers, the bounds of \<open>lib.rs\<close> and its work meter, account
    bytes, \<open>u8\<close> masks.
  \<^item> \<open>Curve\<close>, \<open>Compiler\<close>: \<open>Curve\<close>, \<open>Venue\<close> and \<open>compile\<close> of \<open>compiler/mod.rs\<close>. \<open>Book\<close> proves book venues compiled exactly,
    \<open>Chords\<close> and \<open>Envelope\<close> bound the chord compiler of constant-product venues from both sides.
  \<^item> \<open>Greedy\<close>, \<open>Waterfill\<close>, \<open>Optimal\<close>: \<open>waterfill\<close> as the merged marginal order, and its optimality. \<open>Tape\<close>,
    \<open>TapeBuild\<close>, \<open>TapeQuery\<close>: the residual tape, its tournament merge and row queries, equal to \<open>waterfill\<close>.
  \<^item> \<open>Search\<close>, \<open>Certify\<close>: the two plan searches and what their report certifies. The locale \<open>allocator\<close> is the contract
    between a search and its allocator; it is interpreted for the streaming allocator and for the tape.
  \<^item> \<open>Oracle\<close>, \<open>Refine\<close>: the exchange refinement; the oracle is an argument, a state transformer.
  \<^item> \<open>Clearing\<close> (the fold), \<open>Cycles\<close> (its cycle search is exact), \<open>Circulation\<close> (pivots keep a circulation; potentials bound
    it), \<open>FoldSound\<close>, \<open>FoldLots\<close> (both folds), \<open>Settlement\<close>, \<open>Residuals\<close> (validation, groups, distribution,
    settlement check), \<open>Cell\<close> (their composition).
  \<^item> \<open>OneBook\<close>, \<open>Matching\<close>, \<open>VirtualBook\<close>: \<open>onebook/mod.rs\<close>. The specification \<open>executes\<close> of \<open>Matching\<close> picks the pair to trade by
    \<open>priority_pairs\<close>: of all open crossing pairs those with the highest bid, of these the earliest buyer,
    then the lowest ask, the earliest seller. It does not use the comparator \<open>before\<close> of the code.
  \<^item> \<open>Fair\<close>: \<open>fair/mod.rs\<close>. \<open>Admission\<close>, \<open>Lane\<close>: \<open>runtime/admission.rs\<close>, with \<open>lane_step\<close> as its step relation.
  \<^item> \<open>Adapters\<close>, \<open>Phoenix\<close>, \<open>Graph\<close>: \<open>adapters/lib.rs\<close> and \<open>adapters/graph.rs\<close>. The book walk keeps the array of 32 node indices
    and its height; writing past it panics in the model as in the code.
  \<^item> \<open>Native\<close>, \<open>Surface\<close>, \<open>Memo\<close>, \<open>Damm\<close>: \<open>native/src/\<close> (\<open>lib.rs\<close>, \<open>surface.rs\<close>, \<open>memo.rs\<close>, \<open>damm.rs\<close>).
  \<^item> \<open>Host\<close>, \<open>Reflow\<close>: the execution host as a record of operations, its contract as the locale \<open>execution_host\<close>,
    interpreted on the in-memory host of \<open>runtime/fixture.rs\<close>, and \<open>reflow/mod.rs\<close> over any host.
  \<^item> \<open>Ledger\<close>: accounts, instructions and the runtime an on-chain program sees. \<open>Vault\<close>, \<open>Basket\<close>: the basket vault program.
  \<^item> \<open>Settle\<close>, \<open>SettleRun\<close>: dispatch, nonce and two-venue settlement (\<open>stocklana-settle/src/lib.rs\<close>). \<open>Policy\<close>, \<open>Orders\<close>, \<open>OrderLife\<close>:
    token accounts, stock policies, claims and resting asks (\<open>stock.rs\<close>, \<open>claim.rs\<close>, \<open>exposure.rs\<close>, \<open>order.rs\<close>). \<open>GraphRun\<close>,
    \<open>GraphSafe\<close>: typed graph settlement (\<open>graph.rs\<close>). \<open>SettleDemo\<close>, \<open>OrderDemo\<close>, \<open>GraphDemo\<close>: concrete runs, the witnesses.
\<close>

text \<open>
  \<^bold>\<open>What is shown.\<close>
  \<^item> Compiling and allocating: exactness for books, the error envelope for pools, optimality against every split,
    equality of tape and stream, certified plans, refinement never worse than a single consistent venue.
  \<^item> Clearing and matching: a fold is sound and, when flagged, optimal among all conserving clearings; distribution
    and settlement balance to the atom; matching is priority execution and respects both signed orders;
    the crossing price lies in the quorum band and survives the tolerated number of corrupt groups.
  \<^item> Running: in-flight footprints stay disjoint, a ticket completes once, dispatch makes progress; a receipt is true on any
    host; on the fixture a failed run changes nothing.
  \<^item> Adapters: book and pool quotes end without a panic within their bounds, decoded graphs are well typed, the memo is
    transparent, exposure is the exact quotient rounded down.
  \<^item> On chain: exact balance deltas, nothing touched but the named accounts, nonces and receipts used once, basket shares
    always backed, resting orders account for every atom, a graph moves balances only by its legs within their budgets.

  \<^bold>\<open>Loops, bounds, fuel.\<close> No definition has fuel beyond the rounds the code counts itself. Loops are structural or have a measure: the \<open>while\<close> loops of the source end
  because a counter grows to a stated bound (book levels, merge rows, the signed number of book orders), a
  list shrinks, or the work meter is charged; \<open>WorkLimit\<close> is an error value, and the theorems say when it
  can occur. The descent of the book walk is measured by the free entries of its 32-entry array: a walk that meets
  an order proves the left spine of the root fits it.

  \<^bold>\<open>Parameters and hypotheses.\<close>
  \<^item> \<open>vm\<close> stands for the Solana runtime: cross-program calls, sysvars, address derivation. \<open>runtime_ok program vm\<close> is its
    documented rule: a successful call changes only accounts passed as writable, and never the data or owner of an
    account the calling program owns. Token and venue programs are otherwise arbitrary; what they did is known
    only from the balances the program reads back. The demonstrations instantiate \<open>vm\<close> and prove \<open>runtime_ok\<close> for it.
  \<^item> Key inequalities such as \<open>program \<noteq> TOKEN\<close> say that the program is not deployed under the address of a program it calls.
  \<^item> \<open>bytes_ok\<close> says that a list is a list of bytes. The quote oracle of \<open>refine\<close>, the host of \<open>reflow\<close> and the residual oracle of a
    graph are arguments, and the theorems hold for any.
  \<^item> \<open>counters_free\<close> (the memo) excludes only states after \<open>2 ^ 64\<close> uses. The one-time theorems hold while the nonce or the receipt
    keeps the bytes that were written, since only the program writes them.

  \<^bold>\<open>Not modelled.\<close> Tick and bin pools (\<open>native/src/clmm.rs\<close>, \<open>clmm_dynamic.rs\<close>, \<open>dlmm.rs\<close>, \<open>orca.rs\<close>), which need 256-bit
  integers of an external crate; the residual allocation of the settlement program, built on them; its economic
  reflow, capsules, funding, crossing, flow and mesh cells, whose pure clearing is modelled in \<open>Clearing\<close>; the off-chain
  host, the harnesses, benchmarks and tests; the constructors \<open>book\<close> and \<open>rate\<close> of the fixture. Failing borrows of
  an account are not modelled. Logs and compute units leave no trace.

  \<^bold>\<open>A divergence.\<close> The module comment of \<open>optimizer/oracle.rs\<close> promises a best observed allocation; a sweep cut short by the call
  limit drops a better allocation it had quoted in full (lemma \<open>refinement_drops_observed\<close> of \<open>Refine\<close>).
\<close>

end
